(* ===== verification/Prelude.thy ===== *)
theory Prelude
  imports Main "HOL-Library.Word"
begin

text \<open>
  Shared vocabulary of the development: addresses, the ways a C function can fail to
  return a value, the result type of the modelled functions, and generic lemmas.

  \<^item> An address is an \<open>int\<close> (byte address); the null pointer is \<open>0\<close>.
  \<^item> A function of the source that can abort is modelled with result type
    \<open>fault + 'a\<close>: \<open>Inr\<close> is a normal return, \<open>Inl\<close> names what went wrong.
    \<open>AssertFail\<close> is a failed \<open>assert\<close>, \<open>NullDeref\<close> a dereference of the null
    pointer, \<open>DivByZero\<close> an integer division by zero, \<open>OutOfBounds\<close> an access
    outside the block that was allocated, \<open>Diverges\<close> a loop that never ends.
\<close>

type_synonym addr = int
type_synonym u32 = "32 word"
type_synonym u64 = "64 word"

datatype fault = AssertFail | NullDeref | DivByZero | OutOfBounds | Diverges

type_synonym 'a result = "fault + 'a"

abbreviation NULL :: addr where "NULL \<equiv> 0"

subsection \<open>Sequencing of results\<close>

definition assertion :: "bool \<Rightarrow> unit result" where
  "assertion b = (if b then Inr () else Inl AssertFail)"

fun rbind :: "'a result \<Rightarrow> ('a \<Rightarrow> 'b result) \<Rightarrow> 'b result" where
  "rbind (Inl e) f = Inl e"
| "rbind (Inr x) f = f x"

definition terminating :: "'a option \<Rightarrow> 'a result" where
  "terminating r = (case r of None \<Rightarrow> Inl Diverges | Some x \<Rightarrow> Inr x)"

lemma terminating_simps [simp]:
  "terminating None = Inl Diverges"
  "terminating (Some x) = Inr x"
  by (simp_all add: terminating_def)

lemma terminating_eq_Inr [simp]: "terminating r = Inr x \<longleftrightarrow> r = Some x"
  by (cases r) auto

lemma assertion_True [simp]: "assertion True = Inr ()"
  and assertion_False [simp]: "assertion False = Inl AssertFail"
  by (simp_all add: assertion_def)

lemma assertion_eq_Inr [simp]: "assertion b = Inr u \<longleftrightarrow> b"
  by (simp add: assertion_def)

lemma rbind_eq_Inr: "rbind m f = Inr y \<longleftrightarrow> (\<exists>x. m = Inr x \<and> f x = Inr y)"
  by (cases m) auto

lemma rbind_assertion: "rbind (assertion b) f = (if b then f () else Inl AssertFail)"
  by (simp add: assertion_def)

subsection \<open>Collections of facts\<close>

named_theorems refine \<open>facts that relate an operation to its abstract counterpart\<close>
named_theorems keeps \<open>facts that an operation keeps an invariant\<close>

subsection \<open>Lists\<close>

lemma split_first:
  assumes "\<exists>x\<in>set xs. P x"
  obtains ys z zs where "xs = ys @ z # zs" and "\<forall>y\<in>set ys. \<not> P y" and "P z"
  using assms split_list_first_prop [of xs P] by blast

lemma takeWhile_hit:
  "\<forall>y\<in>set ys. \<not> P y \<Longrightarrow> P z \<Longrightarrow> find P (ys @ z # zs) = Some z"
  by (induction ys) auto

end
