(* ===== verification/PsList.thy ===== *)
theory PsList
  imports Prelude
begin

text \<open>
  The intrusive circular doubly-linked list of \<open>ps_list.h\<close>. A \<open>struct ps_list\<close> is
  embedded in the object it links, at a constant offset, so a node is named by the object
  that holds it; the node type is a parameter (thread addresses in the thread library,
  list heads and threads in the kernel-thread scheduler). The two link fields are the two
  maps of \<open>ps_heap\<close>.

  \<open>ring h (x # xs)\<close> says that following \<open>n\<close> from \<open>x\<close> visits exactly \<open>xs\<close> and comes
  back to \<open>x\<close>, and that every \<open>p\<close> undoes the corresponding \<open>n\<close>. The lemmas show what
  each operation does to the ring it works on and to every other ring.
\<close>

record 'a ps_heap =
  ps_n :: "'a \<Rightarrow> 'a"
  ps_p :: "'a \<Rightarrow> 'a"

subsection \<open>Operations\<close>

definition set_n :: "'a \<Rightarrow> 'a \<Rightarrow> 'a ps_heap \<Rightarrow> 'a ps_heap" where
  "set_n l v h = h\<lparr>ps_n := (ps_n h)(l := v)\<rparr>"

definition set_p :: "'a \<Rightarrow> 'a \<Rightarrow> 'a ps_heap \<Rightarrow> 'a ps_heap" where
  "set_p l v h = h\<lparr>ps_p := (ps_p h)(l := v)\<rparr>"

definition ps_list_ll_init :: "'a \<Rightarrow> 'a ps_heap \<Rightarrow> 'a ps_heap" where
  "ps_list_ll_init l h = set_n l l (set_p l l h)"

definition ps_list_ll_empty :: "'a \<Rightarrow> 'a ps_heap \<Rightarrow> bool" where
  "ps_list_ll_empty l h = (ps_n h l = l)"

definition ps_list_ll_add :: "'a \<Rightarrow> 'a \<Rightarrow> 'a ps_heap \<Rightarrow> 'a ps_heap" where
  "ps_list_ll_add l new h =
     (let h1 = set_n new (ps_n h l) h;
          h2 = set_p new l h1;
          h3 = set_n l new h2
      in set_p (ps_n h3 new) new h3)"

definition ps_list_ll_rem :: "'a \<Rightarrow> 'a ps_heap \<Rightarrow> 'a ps_heap" where
  "ps_list_ll_rem l h =
     (let h1 = set_p (ps_n h l) (ps_p h l) h;
          h2 = set_n (ps_p h1 l) (ps_n h1 l) h1;
          h3 = set_n l l h2
      in set_p l (ps_n h3 l) h3)"

text \<open>The object-level macros; a list head is a node of its own.\<close>

definition ps_list_next :: "'a \<Rightarrow> 'a ps_heap \<Rightarrow> 'a" where
  "ps_list_next o1 h = ps_n h o1"

definition ps_list_prev :: "'a \<Rightarrow> 'a ps_heap \<Rightarrow> 'a" where
  "ps_list_prev o1 h = ps_p h o1"

definition ps_list_append :: "'a \<Rightarrow> 'a \<Rightarrow> 'a ps_heap \<Rightarrow> 'a ps_heap" where
  "ps_list_append o1 n h = ps_list_ll_add (ps_list_prev o1 h) n h"

definition ps_list_head_append :: "'a \<Rightarrow> 'a \<Rightarrow> 'a ps_heap \<Rightarrow> 'a ps_heap" where
  "ps_list_head_append lh o1 h = ps_list_ll_add (ps_p h lh) o1 h"

definition ps_list_head_first :: "'a \<Rightarrow> 'a ps_heap \<Rightarrow> 'a" where
  "ps_list_head_first lh h = ps_n h lh"

definition ps_list_head_last :: "'a \<Rightarrow> 'a ps_heap \<Rightarrow> 'a" where
  "ps_list_head_last lh h = ps_p h lh"

lemmas ps_list_defs =
  ps_list_next_def ps_list_prev_def ps_list_append_def
  ps_list_head_append_def ps_list_head_first_def ps_list_head_last_def

lemma set_n_sel [simp]:
  "ps_n (set_n l v h) = (ps_n h)(l := v)" "ps_p (set_n l v h) = ps_p h"
  by (simp_all add: set_n_def)

lemma set_p_sel [simp]:
  "ps_p (set_p l v h) = (ps_p h)(l := v)" "ps_n (set_p l v h) = ps_n h"
  by (simp_all add: set_p_def)

subsection \<open>Segments and rings\<close>

fun dseg :: "'a ps_heap \<Rightarrow> 'a \<Rightarrow> 'a list \<Rightarrow> 'a \<Rightarrow> bool" where
  "dseg h a [] b = (ps_n h a = b \<and> ps_p h b = a)"
| "dseg h a (x # xs) b = (ps_n h a = x \<and> ps_p h x = a \<and> dseg h x xs b)"

fun ring :: "'a ps_heap \<Rightarrow> 'a list \<Rightarrow> bool" where
  "ring h [] = False"
| "ring h (x # xs) = (distinct (x # xs) \<and> dseg h x xs x)"

lemma dseg_append:
  "dseg h a (xs @ y # ys) b = (dseg h a xs y \<and> dseg h y ys b)"
  by (induction xs arbitrary: a) auto

lemma dseg_frame:
  "(\<forall>c\<in>insert a (set xs). ps_n h' c = ps_n h c) \<Longrightarrow>
   (\<forall>c\<in>insert b (set xs). ps_p h' c = ps_p h c) \<Longrightarrow>
   dseg h' a xs b = dseg h a xs b"
  by (induction xs arbitrary: a) auto

lemma ring_distinct: "ring h xs \<Longrightarrow> distinct xs"
  by (cases xs) auto

lemma ring_nonempty: "ring h xs \<Longrightarrow> xs \<noteq> []"
  by (cases xs) auto

lemma ring_frame:
  assumes "\<forall>c\<in>set xs. ps_n h' c = ps_n h c \<and> ps_p h' c = ps_p h c"
  shows "ring h' xs = ring h xs"
proof (cases xs)
  case (Cons x ys)
  with assms have "dseg h' x ys x = dseg h x ys x"
    by (intro dseg_frame) auto
  with Cons show ?thesis by simp
qed simp

lemma ring_rotate1: "ring h (x # xs) \<Longrightarrow> ring h (xs @ [x])"
proof (cases xs)
  case (Cons y ys)
  assume "ring h (x # xs)"
  with Cons show ?thesis
    by (auto simp: dseg_append)
qed simp

lemma ring_rotate: "ring h (xs @ ys) \<Longrightarrow> ring h (ys @ xs)"
proof (induction xs arbitrary: ys)
  case (Cons x xs)
  from Cons.prems have "ring h ((xs @ ys) @ [x])"
    using ring_rotate1 [of h x "xs @ ys"] by simp
  then have "ring h ((ys @ [x]) @ xs)" using Cons.IH [of "ys @ [x]"] by simp
  then show ?case by simp
qed simp

lemma ring_next: "ring h (x # xs) \<Longrightarrow> ps_list_next x h = hd (xs @ [x])"
  by (cases xs) (auto simp: ps_list_defs)

lemma ring_prev: "ring h (x # xs) \<Longrightarrow> ps_list_prev x h = last (x # xs)"
proof (cases xs rule: rev_cases)
  case (snoc ys y)
  assume "ring h (x # xs)"
  with snoc show ?thesis by (simp add: dseg_append ps_list_defs)
qed (simp add: ps_list_defs)


subsection \<open>What the operations do to rings\<close>

lemma ring_init: "ring (ps_list_ll_init l h) [l]"
  by (simp add: ps_list_ll_init_def)

lemma ring_init_other: "ring h xs \<Longrightarrow> l \<notin> set xs \<Longrightarrow> ring (ps_list_ll_init l h) xs"
  by (subst ring_frame [of xs _ h]) (auto simp: ps_list_ll_init_def)

lemma ring_empty_iff: "ring h (x # xs) \<Longrightarrow> ps_list_ll_empty x h \<longleftrightarrow> xs = []"
  by (cases xs) (auto simp: ps_list_ll_empty_def)

lemma ring_add:
  assumes "ring h (l # xs)" and "new \<notin> set (l # xs)"
  shows "ring (ps_list_ll_add l new h) (l # new # xs)"
proof (cases xs)
  case Nil
  with assms show ?thesis by (simp add: ps_list_ll_add_def Let_def)
next
  case (Cons y ys)
  have "dseg (ps_list_ll_add l new h) y ys l = dseg h y ys l"
    by (rule dseg_frame) (use assms Cons in \<open>auto simp: ps_list_ll_add_def Let_def\<close>)
  with assms Cons show ?thesis by (auto simp: ps_list_ll_add_def Let_def)
qed

lemma ring_append:
  assumes "ring h (l # xs)" and "new \<notin> set (l # xs)"
  shows "ring (ps_list_ll_add (ps_p h l) new h) (l # xs @ [new])"
proof (cases xs rule: rev_cases)
  case Nil
  with assms show ?thesis using ring_add [of h l "[]" new] by simp
next
  case (snoc ys y)
  with assms have y: "ps_p h l = y"
    using ring_prev [of h l xs] by (simp add: ps_list_defs)
  from assms(1) snoc have "ring h ([y] @ (l # ys))"
    using ring_rotate [of h "l # ys" "[y]"] by simp
  then have "ring (ps_list_ll_add y new h) ([y, new] @ (l # ys))"
    using ring_add [of h y "l # ys" new] assms(2) snoc by simp
  then have "ring (ps_list_ll_add y new h) ((l # ys) @ [y, new])"
    by (rule ring_rotate)
  with y snoc show ?thesis by simp
qed

lemma ring_add_other:
  assumes "ring h xs" and "ring h ys" and "l \<in> set ys" and "new \<notin> set xs"
    and "set xs \<inter> set ys = {}"
  shows "ring (ps_list_ll_add l new h) xs"
proof -
  from split_list [OF assms(3)] obtain us vs where ys: "ys = us @ l # vs" by blast
  with assms(2) have "ring h (l # vs @ us)" using ring_rotate [of h us "l # vs"] by simp
  then have "ps_n h l \<in> set ys" using ys by (cases "vs @ us") (auto simp: append_eq_Cons_conv)
  with assms have "l \<notin> set xs" "ps_n h l \<notin> set xs" by auto
  with assms(1,4) show ?thesis
    by (subst ring_frame [of xs _ h]) (auto simp: ps_list_ll_add_def Let_def)
qed


lemma ring_rem_hd:
  assumes "ring h (l # x # xs)"
  shows "ring (ps_list_ll_rem l h) (x # xs) \<and> ring (ps_list_ll_rem l h) [l]"
proof (cases xs rule: rev_cases)
  case Nil
  with assms show ?thesis by (auto simp: ps_list_ll_rem_def Let_def)
next
  case (snoc ys z)
  with assms have hx: "ps_n h l = x" "ps_p h l = z" "distinct (l # x # ys @ [z])"
    and seg: "dseg h x ys z" by (auto simp: dseg_append)
  let ?h = "ps_list_ll_rem l h"
  have "dseg ?h x ys z = dseg h x ys z"
    by (rule dseg_frame) (use hx in \<open>auto simp: ps_list_ll_rem_def Let_def\<close>)
  with seg hx snoc show ?thesis
    by (auto simp: ps_list_ll_rem_def Let_def dseg_append)
qed

lemma ring_rem:
  assumes "ring h (us @ l # vs)" and "us @ vs \<noteq> []"
  shows "ring (ps_list_ll_rem l h) (us @ vs) \<and> ring (ps_list_ll_rem l h) [l]"
proof -
  from assms(1) have r: "ring h (l # vs @ us)" using ring_rotate [of h us "l # vs"] by simp
  moreover obtain x xs where "vs @ us = x # xs" using assms(2) by (cases "vs @ us") auto
  ultimately have "ring (ps_list_ll_rem l h) (vs @ us) \<and> ring (ps_list_ll_rem l h) [l]"
    using ring_rem_hd [of h l x xs] by simp
  then show ?thesis using ring_rotate [of _ vs us] by blast
qed

lemma ring_rem_singleton: "ring h [l] \<Longrightarrow> ring (ps_list_ll_rem l h) [l]"
  by (simp add: ps_list_ll_rem_def Let_def)

lemma ring_rem_other:
  assumes "ring h xs" and "ring h ys" and "l \<in> set ys" and "set xs \<inter> set ys = {}"
  shows "ring (ps_list_ll_rem l h) xs"
proof -
  from split_list [OF assms(3)] obtain us vs where ys: "ys = us @ l # vs" by blast
  with assms(2) have r: "ring h (l # vs @ us)" using ring_rotate [of h us "l # vs"] by simp
  have "ps_n h l \<in> set ys" using r ys ring_next [OF r] by (cases "vs @ us") (auto simp: ps_list_defs append_eq_Cons_conv)
  moreover have "ps_p h l \<in> set ys" using ys ring_prev [OF r]
    using last_in_set [of "l # vs @ us"] by (auto simp: ps_list_defs)
  ultimately have "l \<notin> set xs" "ps_n h l \<notin> set xs" "ps_p h l \<notin> set xs" using assms by auto
  with assms(1) show ?thesis
    by (subst ring_frame [of xs _ h]) (auto simp: ps_list_ll_rem_def Let_def)
qed

subsection \<open>Scanning a cyclic structure\<close>

text \<open>
  The do-while loops of the thread library step a cursor with \<open>ps_list_next\<close> until a
  condition holds. The loop is a partial function: \<open>None\<close> means that it never ends. The
  locale states what such a scan needs of the structure: the successor of the first
  element of a representation is the next element, and a representation may be rotated.
\<close>

partial_function (option) scan_next :: "('a \<Rightarrow> 'a) \<Rightarrow> ('a \<Rightarrow> bool) \<Rightarrow> 'a \<Rightarrow> 'a option" where
  "scan_next nxt ok c =
     (let c' = nxt c in if ok c' then Some c' else scan_next nxt ok c')"

locale cyclic =
  fixes nxt :: "'a \<Rightarrow> 'a"
    and rep :: "'a list \<Rightarrow> bool"
  assumes nxt_hd: "rep (x # xs) \<Longrightarrow> nxt x = hd (xs @ [x])"
    and rep_rotate: "rep (x # xs) \<Longrightarrow> rep (xs @ [x])"
begin

lemma scan_hit:
  "rep (x # ys @ z # zs) \<Longrightarrow> \<forall>y\<in>set ys. \<not> ok y \<Longrightarrow> ok z \<Longrightarrow> scan_next nxt ok x = Some z"
proof (induction ys arbitrary: x zs)
  case Nil
  then have "nxt x = z" using nxt_hd [of x "z # zs"] by simp
  with Nil show ?case by (subst scan_next.simps) simp
next
  case (Cons y ys)
  from Cons.prems(1) have "nxt x = y" using nxt_hd [of x "y # ys @ z # zs"] by simp
  moreover have "scan_next nxt ok y = Some z"
    using Cons.IH [of y "zs @ [x]"] Cons.prems rep_rotate [of x "y # ys @ z # zs"] by simp
  ultimately show ?case using Cons.prems(2) by (subst scan_next.simps) simp
qed

lemma scan_wrap:
  assumes "rep (x # ys)" and "\<forall>y\<in>set ys. \<not> ok y" and "ok x"
  shows "scan_next nxt ok x = Some x"
proof (cases ys)
  case Nil
  then have "nxt x = x" using nxt_hd [of x "[]"] assms(1) by simp
  with assms(3) show ?thesis by (subst scan_next.simps) simp
next
  case (Cons y zs)
  then have "nxt x = y" using nxt_hd [of x ys] assms(1) by simp
  moreover have "scan_next nxt ok y = Some x"
    using scan_hit [of y zs x "[]"] rep_rotate [of x ys] assms Cons by simp
  ultimately show ?thesis using assms(2) Cons by (subst scan_next.simps) simp
qed

lemma scan_step_again:
  assumes "rep (x # xs)" and "\<forall>y\<in>set (x # xs). \<not> ok y"
  shows "\<exists>y ys. nxt x = y \<and> \<not> ok y \<and> rep (y # ys) \<and> (\<forall>z\<in>set (y # ys). \<not> ok z)"
proof (cases xs)
  case Nil
  with assms nxt_hd [of x xs] show ?thesis by auto
next
  case (Cons y ys)
  with assms nxt_hd [of x xs] rep_rotate [of x xs] show ?thesis
    by (intro exI [of _ y] exI [of _ "ys @ [x]"]) auto
qed

lemma scan_Some_hits:
  "scan_next nxt ok x = Some r \<Longrightarrow> rep (x # xs) \<Longrightarrow> \<exists>y\<in>set (x # xs). ok y"
proof -
  define Q where "Q = (\<lambda>n k c (r :: 'a). n = nxt \<longrightarrow> k = ok \<longrightarrow>
    (\<forall>xs. rep (c # xs) \<longrightarrow> (\<exists>y\<in>set (c # xs). ok y)))"
  assume ret: "scan_next nxt ok x = Some r" and r: "rep (x # xs)"
  have "Q nxt ok x r"
  proof (rule scan_next.raw_induct [where P = Q, OF _ ret])
    fix f n k c and s :: 'a
    assume IH: "\<And>n k c s. f n k c = Some s \<Longrightarrow> Q n k c s"
      and eq: "(let c' = n c in if k c' then Some c' else f n k c') = Some s"
    show "Q n k c s"
      unfolding Q_def
    proof (intro impI allI, rule ccontr)
      fix xs assume a: "n = nxt" "k = ok" "rep (c # xs)" "\<not> (\<exists>y\<in>set (c # xs). ok y)"
      then obtain y ys where "nxt c = y" "\<not> ok y" "rep (y # ys)" "\<forall>z\<in>set (y # ys). \<not> ok z"
        using scan_step_again [of c xs ok] by blast
      moreover from this eq a have "f nxt ok y = Some s" by simp
      ultimately show False using IH [of nxt ok y s] unfolding Q_def by blast
    qed
  qed
  with r show ?thesis unfolding Q_def by blast
qed

lemma scan_miss:
  assumes "rep (x # xs)" and "\<forall>y\<in>set (x # xs). \<not> ok y"
  shows "scan_next nxt ok x = None"
  using assms scan_Some_hits [of ok x _ xs] by (cases "scan_next nxt ok x") auto

lemma scan_returns_iff:
  assumes "rep (x # xs)"
  shows "(\<exists>r. scan_next nxt ok x = Some r) \<longleftrightarrow> (\<exists>y\<in>set (x # xs). ok y)"
proof
  assume "\<exists>y\<in>set (x # xs). ok y"
  then have "\<exists>y\<in>set (xs @ [x]). ok y" by auto
  then obtain ys z zs where e: "xs @ [x] = ys @ z # zs" "\<forall>y\<in>set ys. \<not> ok y" "ok z"
    by (rule split_first)
  show "\<exists>r. scan_next nxt ok x = Some r"
  proof (cases zs rule: rev_cases)
    case Nil
    with e assms scan_wrap [of x xs ok] show ?thesis by auto
  next
    case (snoc us u)
    with e have "xs = ys @ z # us" by simp
    with assms scan_hit [of x ys z us ok] e show ?thesis by auto
  qed
qed (use assms scan_Some_hits in blast)

end

interpretation runring: cyclic "\<lambda>c. ps_list_next c h" "ring h" for h
  by unfold_locales (simp_all add: ring_next ring_rotate1)

end
