(* ===== verification/Kalloc.thy ===== *)
theory Kalloc
  imports Prelude
begin

text \<open>
  The memory pool of \<open>kalloc.c\<close>. The pool is a singly-linked list of free runs; the
  header \<open>struct run\<close> of a run (\<open>next\<close>, \<open>len\<close>) lives in its first eight bytes. The
  list is modelled at two levels:
  \<^item> \<open>kheap\<close> holds the header fields as maps from the run's address and the global
    \<open>freelist\<close>; the loops of \<open>kfree\<close> and \<open>kalloc\<close> walk a \<open>struct run **\<close> cursor, whose
    two kinds of target are the constructors of \<open>rcell\<close>;
  \<^item> the abstract list \<open>(addr \<times> int) list\<close> of runs, with \<open>a_alloc\<close> and \<open>a_free\<close>.
  The refinement lemmas connect the two; the abstract lemmas show that the list stays
  sorted, disjoint and fully coalesced, and that it accounts for every byte.
  \<open>sys_blocks\<close> are the answers the C library's \<open>malloc\<close> will give (none left: it
  returns the null pointer).

  The maps keep a header apart from the memory around it. That is what the code does as long as
  every free run has at least the eight bytes of a header and clients write only their own blocks:
  \<open>KallocMem\<close> has the same loops over bytes, and proves it. A shorter run shares bytes with its
  neighbour (\<open>kalloc_residue_overlaps_header\<close> below).
\<close>

type_synonym run = "addr \<times> int"

record kheap =
  run_next :: "addr \<Rightarrow> addr"
  run_len :: "addr \<Rightarrow> int"
  freelist :: addr
  sys_blocks :: "addr list"

definition PAGESIZE :: int where
  "PAGESIZE = 10 * 1024 * 1024"

definition SIZEOF_RUN :: int where
  "SIZEOF_RUN = 8"

subsection \<open>The code\<close>

datatype rcell = FreeHead | NextOf addr

fun deref :: "kheap \<Rightarrow> rcell \<Rightarrow> addr" where
  "deref h FreeHead = freelist h"
| "deref h (NextOf r) = run_next h r"

fun store :: "rcell \<Rightarrow> addr \<Rightarrow> kheap \<Rightarrow> kheap" where
  "store FreeHead v h = h\<lparr>freelist := v\<rparr>"
| "store (NextOf r) v h = h\<lparr>run_next := (run_next h)(r := v)\<rparr>"

definition set_len :: "addr \<Rightarrow> int \<Rightarrow> kheap \<Rightarrow> kheap" where
  "set_len r l h = h\<lparr>run_len := (run_len h)(r := l)\<rparr>"

definition sys_malloc :: "kheap \<Rightarrow> addr \<times> kheap" where
  "sys_malloc h = (case sys_blocks h of
      [] \<Rightarrow> (NULL, h)
    | b # bs \<Rightarrow> (b, h\<lparr>sys_blocks := bs\<rparr>))"

partial_function (option) kfree_loop :: "kheap \<Rightarrow> addr \<Rightarrow> int \<Rightarrow> rcell \<Rightarrow> kheap option" where
  "kfree_loop h p len rp =
     (let r = deref h rp; pend = p + len in
      if r \<noteq> NULL \<and> r \<le> pend then
        let rend = r + run_len h r in
        if pend = r then
          let h1 = set_len p (len + run_len h r) h;
              h2 = store (NextOf p) (run_next h1 r) h1
          in Some (store rp p h2)
        else if rend = p then
          let h1 = set_len r (run_len h r + len) h;
              nx = run_next h1 r
          in if nx \<noteq> NULL \<and> nx = pend then
               let h2 = set_len r (run_len h1 r + run_len h1 nx) h1
               in Some (store (NextOf r) (run_next h2 nx) h2)
             else Some h1
        else kfree_loop h p len (NextOf r)
      else
        let h1 = set_len p len h;
            h2 = store (NextOf p) r h1
        in Some (store rp p h2))"

definition kfree :: "kheap \<Rightarrow> addr \<Rightarrow> int \<Rightarrow> kheap result" where
  "kfree h v len =
     rbind (assertion (len > 0 \<and> len \<le> PAGESIZE))
       (\<lambda>_. terminating (kfree_loop h v len FreeHead))"

partial_function (option) kalloc_loop ::
    "kheap \<Rightarrow> int \<Rightarrow> rcell \<Rightarrow> (addr option \<times> kheap) option" where
  "kalloc_loop h n rp =
     (let r = deref h rp in
      if r \<noteq> NULL then
        if run_len h r = n then Some (Some r, store rp (run_next h r) h)
        else if run_len h r > n then
          let h1 = set_len r (run_len h r - n) h
          in Some (Some (r + run_len h1 r), h1)
        else kalloc_loop h n (NextOf r)
      else Some (None, h))"

definition kalloc :: "kheap \<Rightarrow> int \<Rightarrow> (addr \<times> kheap) result" where
  "kalloc h n =
     rbind (assertion (n \<le> PAGESIZE \<and> n > 0))
       (\<lambda>_. rbind (terminating (kalloc_loop h n FreeHead))
         (\<lambda>(q, h1). case q of Some p \<Rightarrow> Inr (p, h1) | None \<Rightarrow> Inr (sys_malloc h1)))"

definition kinit :: "kheap \<Rightarrow> kheap result" where
  "kinit h = (let (start, h1) = sys_malloc h
     in rbind (assertion (start \<noteq> NULL)) (\<lambda>_. kfree h1 start PAGESIZE))"

subsection \<open>The abstract free list\<close>

fun a_alloc :: "run list \<Rightarrow> int \<Rightarrow> (addr \<times> run list) option" where
  "a_alloc [] n = None"
| "a_alloc ((a, l) # rs) n =
     (if l = n then Some (a, rs)
      else if l > n then Some (a + (l - n), (a, l - n) # rs)
      else map_option (apsnd (Cons (a, l))) (a_alloc rs n))"

fun a_join :: "addr \<Rightarrow> int \<Rightarrow> run list \<Rightarrow> run list" where
  "a_join a l [] = [(a, l)]"
| "a_join a l ((b, m) # rs) = (if b = a + l then (a, l + m) # rs else (a, l) # (b, m) # rs)"

fun a_free :: "run list \<Rightarrow> addr \<Rightarrow> int \<Rightarrow> run list" where
  "a_free [] v n = [(v, n)]"
| "a_free ((a, l) # rs) v n =
     (if a \<le> v + n then
        if v + n = a then (v, n + l) # rs
        else if a + l = v then a_join a (l + n) rs
        else (a, l) # a_free rs v n
      else (v, n) # (a, l) # rs)"


subsection \<open>The heap represents a free list\<close>

fun runs :: "kheap \<Rightarrow> addr \<Rightarrow> run list \<Rightarrow> addr \<Rightarrow> bool" where
  "runs h p [] q = (p = q)"
| "runs h p ((a, l) # rs) q =
     (p = a \<and> a \<noteq> NULL \<and> run_len h a = l \<and> runs h (run_next h a) rs q)"

definition free_list :: "kheap \<Rightarrow> run list \<Rightarrow> bool" where
  "free_list h rs \<longleftrightarrow> runs h (freelist h) rs NULL \<and> distinct (map fst rs)"

definition last_cell :: "run list \<Rightarrow> rcell" where
  "last_cell rs = (if rs = [] then FreeHead else NextOf (fst (last rs)))"

lemma last_cell_snoc [simp]: "last_cell (rs @ [r]) = NextOf (fst r)"
  by (simp add: last_cell_def)

lemma last_cell_Nil [simp]: "last_cell [] = FreeHead"
  by (simp add: last_cell_def)

lemma runs_append: "runs h p (xs @ ys) q \<longleftrightarrow> (\<exists>m. runs h p xs m \<and> runs h m ys q)"
  by (induction xs arbitrary: p) auto

lemma runs_frame:
  "\<forall>a\<in>fst ` set rs. run_next h' a = run_next h a \<and> run_len h' a = run_len h a \<Longrightarrow>
   runs h' p rs q = runs h p rs q"
  by (induction rs arbitrary: p) auto

lemma runs_deref:
  "runs h (freelist h) pre m \<Longrightarrow> deref h (last_cell pre) = m"
  by (cases pre rule: rev_cases) (auto simp: runs_append)

lemma runs_store:
  assumes "runs h (freelist h) pre m" and "distinct (map fst pre)"
  shows "runs (store (last_cell pre) x h) (freelist (store (last_cell pre) x h)) pre x"
proof (cases pre rule: rev_cases)
  case (snoc ys y)
  obtain a l where y: "y = (a, l)" by force
  let ?h = "store (NextOf a) x h"
  from assms snoc y obtain m' where m: "runs h (freelist h) ys m'" "m' = a" "a \<noteq> NULL" "run_len h a = l"
    and d: "a \<notin> fst ` set ys" by (auto simp: runs_append)
  have "runs ?h (freelist h) ys a = runs h (freelist h) ys a"
    by (rule runs_frame) (use d in auto)
  with m snoc y show ?thesis by (auto simp: runs_append)
qed simp

lemma free_list_split:
  "free_list h (pre @ rs) \<Longrightarrow>
   runs h (freelist h) pre (deref h (last_cell pre)) \<and> runs h (deref h (last_cell pre)) rs NULL"
  by (auto simp: free_list_def runs_append dest: runs_deref)

text \<open>
  Re-linking: if a heap keeps the headers of \<open>pre\<close> and holds \<open>rs\<close> from \<open>x\<close>, storing \<open>x\<close>
  in the last cell of \<open>pre\<close> makes it represent \<open>pre @ rs\<close>.
\<close>

lemma free_list_link:
  assumes fl: "free_list h (pre @ old)"
    and keep: "\<forall>a\<in>fst ` set pre. run_next h1 a = run_next h a \<and> run_len h1 a = run_len h a"
    and head: "freelist h1 = freelist h"
    and rs: "runs h1 x rs NULL" and d: "distinct (map fst (pre @ rs))"
  shows "free_list (store (last_cell pre) x h1) (pre @ rs)"
proof -
  from fl have p: "runs h (freelist h) pre (deref h (last_cell pre))" and dp: "distinct (map fst pre)"
    using free_list_split [OF fl] by (auto simp: free_list_def)
  have "runs h1 (freelist h1) pre (deref h (last_cell pre))"
    using p head runs_frame [OF keep] by simp
  from runs_store [OF this dp, of x]
  have 1: "runs (store (last_cell pre) x h1) (freelist (store (last_cell pre) x h1)) pre x" .
  have "runs (store (last_cell pre) x h1) x rs NULL = runs h1 x rs NULL"
  proof (rule runs_frame, cases pre rule: rev_cases)
    case (snoc ys y)
    with d have "fst y \<notin> fst ` set rs" by auto
    with snoc show "\<forall>a\<in>fst ` set rs. run_next (store (last_cell pre) x h1) a = run_next h1 a \<and>
        run_len (store (last_cell pre) x h1) a = run_len h1 a" by (auto simp: image_iff)
  qed simp
  with rs 1 d show ?thesis by (auto simp: free_list_def runs_append)
qed

lemma free_list_update:
  assumes fl: "free_list h (pre @ (a, l) # rs)" and head: "freelist h1 = freelist h"
    and keep: "\<forall>b. b \<noteq> a \<longrightarrow> run_next h1 b = run_next h b \<and> run_len h1 b = run_len h b"
    and len: "run_len h1 a = l'" and rs': "runs h (run_next h1 a) rs' NULL"
    and d: "distinct (map fst (pre @ (a, l') # rs'))"
  shows "free_list h1 (pre @ (a, l') # rs')"
proof -
  from fl have p: "runs h (freelist h) pre a" "a \<noteq> NULL"
    by (auto simp: free_list_def runs_append)
  have "runs h1 (freelist h) pre a = runs h (freelist h) pre a"
    by (rule runs_frame) (use keep d in auto)
  moreover have "runs h1 (run_next h1 a) rs' NULL = runs h (run_next h1 a) rs' NULL"
    by (rule runs_frame) (use keep d in auto)
  ultimately show ?thesis using p rs' d head len by (auto simp: free_list_def runs_append)
qed

subsection \<open>Refinement of kalloc\<close>

definition alloc_matches where
  "alloc_matches h pre r q = (case r of
      None \<Rightarrow> q = (None, h)
    | Some (p, rs') \<Rightarrow> (\<exists>h'. q = (Some p, h') \<and> free_list h' (pre @ rs') \<and>
        sys_blocks h' = sys_blocks h))"

lemma kalloc_loop_refines:
  "free_list h (pre @ rs) \<Longrightarrow>
   \<exists>q. kalloc_loop h n (last_cell pre) = Some q \<and> alloc_matches h pre (a_alloc rs n) q"
proof (induction rs arbitrary: pre)
  case Nil
  then have "deref h (last_cell pre) = NULL" using free_list_split [OF Nil] by simp
  then show ?case by (simp add: kalloc_loop.simps alloc_matches_def)
next
  case (Cons x rs)
  obtain a l where x: "x = (a, l)" by force
  note sp = free_list_split [OF Cons.prems]
  from sp x have r: "deref h (last_cell pre) = a" "a \<noteq> NULL" "run_len h a = l"
    "runs h (run_next h a) rs NULL" by auto
  from Cons.prems x have d: "distinct (map fst (pre @ (a, l) # rs))" by (simp add: free_list_def)
  consider "l = n" | "l > n" | "l < n" by linarith
  then show ?case
  proof cases
    case 1
    have "free_list (store (last_cell pre) (run_next h a) h) (pre @ rs)"
      by (rule free_list_link [OF Cons.prems]) (use r d in auto)
    moreover have "sys_blocks (store (last_cell pre) (run_next h a) h) = sys_blocks h"
      by (cases "last_cell pre") auto
    ultimately show ?thesis
      using 1 r x by (simp add: kalloc_loop.simps alloc_matches_def)
  next
    case 2
    let ?h = "set_len a (l - n) h"
    have fr: "runs ?h p ys q = runs h p ys q" if "a \<notin> fst ` set ys" for p ys q
      by (rule runs_frame) (use that in \<open>auto simp: set_len_def\<close>)
    have "free_list ?h (pre @ (a, l - n) # rs)"
      using sp d r fr [of pre] fr [of rs]
      by (auto simp: free_list_def runs_append set_len_def x intro!: exI [of _ a])
    then show ?thesis
      using 2 r x by (simp add: kalloc_loop.simps alloc_matches_def set_len_def Let_def)
  next
    case 3
    from Cons.prems have "free_list h ((pre @ [x]) @ rs)" by simp
    from Cons.IH [OF this] obtain q where
      q: "kalloc_loop h n (NextOf a) = Some q" "alloc_matches h (pre @ [x]) (a_alloc rs n) q"
      using x by auto
    from q(2) have "alloc_matches h pre (a_alloc (x # rs) n) q"
      using 3 x by (auto simp: alloc_matches_def split: option.splits)
    with q(1) 3 r show ?thesis by (subst kalloc_loop.simps) (simp add: Let_def)
  qed
qed


lemma kalloc_refines:
  assumes "free_list h rs" and "0 < n" and "n \<le> PAGESIZE"
  shows "case a_alloc rs n of
      None \<Rightarrow> kalloc h n = Inr (sys_malloc h)
    | Some (p, rs') \<Rightarrow> (\<exists>h'. kalloc h n = Inr (p, h') \<and> free_list h' rs' \<and>
        sys_blocks h' = sys_blocks h)"
proof -
  from kalloc_loop_refines [of h "[]" rs n] assms(1) obtain q where
    "kalloc_loop h n FreeHead = Some q" "alloc_matches h [] (a_alloc rs n) q" by auto
  with assms(2,3) show ?thesis
    by (auto simp: kalloc_def alloc_matches_def split: option.splits)
qed

subsection \<open>Refinement of kfree\<close>

text \<open>
  The block that is freed must not start where a free run starts: the loop writes the
  header of the new run before it links it.
\<close>

lemma kfree_loop_refines:
  "free_list h (pre @ rs) \<Longrightarrow> v \<noteq> NULL \<Longrightarrow> v \<notin> fst ` set (pre @ rs) \<Longrightarrow>
   \<exists>h'. kfree_loop h v n (last_cell pre) = Some h' \<and> free_list h' (pre @ a_free rs v n) \<and>
        sys_blocks h' = sys_blocks h"
proof (induction rs arbitrary: pre)
  case Nil
  then have r: "deref h (last_cell pre) = NULL" using free_list_split [OF Nil(1)] by simp
  let ?h = "store (NextOf v) NULL (set_len v n h)"
  have "free_list (store (last_cell pre) v ?h) (pre @ [(v, n)])"
    by (rule free_list_link [OF Nil(1)])
      (use Nil in \<open>auto simp: set_len_def free_list_def\<close>)
  moreover have "sys_blocks (store (last_cell pre) v ?h) = sys_blocks h"
    by (cases "last_cell pre") (auto simp: set_len_def)
  ultimately show ?case using r by (simp add: kfree_loop.simps Let_def)
next
  case (Cons x rs)
  obtain a l where x: "x = (a, l)" by force
  note sp = free_list_split [OF Cons.prems(1)]
  from sp x have r: "deref h (last_cell pre) = a" "a \<noteq> NULL" "run_len h a = l"
    "runs h (run_next h a) rs NULL" by auto
  from Cons.prems x have d: "distinct (map fst (pre @ (a, l) # rs))" by (simp add: free_list_def)
  have sb: "sys_blocks (store c y (set_len b m h1)) = sys_blocks h1" for c y b m h1
    by (cases c) (auto simp: set_len_def)
  have sb2: "sys_blocks (store c y h1) = sys_blocks h1" for c y h1
    by (cases c) auto
  have fr: "runs h1 p ys q = runs h p ys q"
    if "\<forall>b. b \<noteq> a \<longrightarrow> b \<noteq> v \<longrightarrow> run_next h1 b = run_next h b \<and> run_len h1 b = run_len h b"
      "a \<notin> fst ` set ys" "v \<notin> fst ` set ys" for h1 p ys q
    by (rule runs_frame) (use that in auto)
  consider "a > v + n" | "v + n = a" | "a < v + n" "a + l = v" | "a < v + n" "a + l \<noteq> v"
    by linarith
  then show ?case
  proof cases
    case 1
    let ?h = "store (NextOf v) a (set_len v n h)"
    have "runs ?h a (x # rs) NULL = runs h a (x # rs) NULL"
      by (rule runs_frame) (use Cons.prems in \<open>auto simp: set_len_def\<close>)
    then have "runs ?h a (x # rs) NULL" using sp r by simp
    then have "free_list (store (last_cell pre) v ?h) (pre @ (v, n) # x # rs)"
      by (intro free_list_link [OF Cons.prems(1)])
        (use Cons.prems d x in \<open>auto simp: set_len_def free_list_def\<close>)
    with 1 r x show ?thesis
      by (simp add: kfree_loop.simps sb sb2 Let_def set_len_def del: store.simps)
  next
    case 2
    let ?h = "store (NextOf v) (run_next h a) (set_len v (n + l) h)"
    have "runs ?h (run_next h a) rs NULL"
      using r d Cons.prems x by (subst fr) (auto simp: set_len_def)
    then have "free_list (store (last_cell pre) v ?h) (pre @ (v, n + l) # rs)"
      by (intro free_list_link [OF Cons.prems(1)])
        (use Cons.prems d x in \<open>auto simp: set_len_def free_list_def\<close>)
    with 2 r x show ?thesis
      by (simp add: kfree_loop.simps sb sb2 Let_def set_len_def del: store.simps)
  next
    case 3
    let ?h1 = "set_len a (l + n) h"
    show ?thesis
    proof (cases rs)
      case Nil
      have "free_list ?h1 (pre @ [(a, l + n)])"
        by (rule free_list_update [where h = h and l = l and rs = rs])
          (use Cons.prems d r x Nil in \<open>auto simp: set_len_def\<close>)
      with 3 r x Nil show ?thesis
        by (simp add: kfree_loop.simps Let_def set_len_def)
    next
      case (Cons y rs')
      obtain b m where y: "y = (b, m)" by force
      from r Cons y have b: "run_next h a = b" "b \<noteq> NULL" "run_len h b = m" "b \<noteq> a"
        "runs h (run_next h b) rs' NULL" using d by auto
      show ?thesis
      proof (cases "b = v + n")
        case True
        let ?h2 = "store (NextOf a) (run_next h b) (set_len a (l + n + m) ?h1)"
        have "free_list ?h2 (pre @ (a, l + n + m) # rs')"
          by (rule free_list_update [where h = h and l = l and rs = rs])
            (use Cons.prems d r x b Cons in \<open>auto simp: set_len_def\<close>)
        with 3 r x b Cons y True show ?thesis
          by (simp add: kfree_loop.simps Let_def set_len_def)
      next
        case False
        have "free_list ?h1 (pre @ (a, l + n) # rs)"
          by (rule free_list_update [where h = h and l = l and rs = rs])
            (use Cons.prems d r x in \<open>auto simp: set_len_def\<close>)
        with 3 r x b Cons y False show ?thesis
          by (simp add: kfree_loop.simps Let_def set_len_def)
      qed
    qed
  next
    case 4
    from Cons.prems have "free_list h ((pre @ [x]) @ rs)" "v \<notin> fst ` set ((pre @ [x]) @ rs)" by auto
    from Cons.IH [OF this(1) Cons.prems(2) this(2)] 4 r x show ?thesis
      by (subst kfree_loop.simps) (simp add: Let_def)
  qed
qed


subsection \<open>Well-formed free lists\<close>

text \<open>
  A free list is well formed when its runs are non-empty, sorted by address and separated
  by at least one byte that is not free (so no two runs could be merged).
\<close>

fun wf_runs :: "run list \<Rightarrow> bool" where
  "wf_runs [] = True"
| "wf_runs ((a, l) # rs) =
     (0 < a \<and> 0 < l \<and> (\<forall>(b, m)\<in>set rs. a + l < b) \<and> wf_runs rs)"

definition block :: "addr \<Rightarrow> int \<Rightarrow> addr set" where
  "block a l = {a..<a + l}"

definition span :: "run list \<Rightarrow> addr set" where
  "span rs = (\<Union>(a, l)\<in>set rs. block a l)"

lemma span_simps [simp]:
  "span [] = {}" "span ((a, l) # rs) = block a l \<union> span rs"
  by (auto simp: span_def)

lemma mem_block [simp]: "x \<in> block a l \<longleftrightarrow> a \<le> x \<and> x < a + l"
  by (auto simp: block_def)

lemma span_above: "\<forall>(b, m)\<in>set rs. c < b \<Longrightarrow> x \<in> span rs \<Longrightarrow> c < x"
  by (fastforce simp: span_def)

lemma wf_runs_pos: "wf_runs rs \<Longrightarrow> (a, l) \<in> set rs \<Longrightarrow> 0 < a \<and> 0 < l"
  by (induction rs) auto

lemma wf_runs_start: "wf_runs rs \<Longrightarrow> a \<in> fst ` set rs \<Longrightarrow> a \<in> span rs"
  using wf_runs_pos [of rs a] by (fastforce simp: span_def)

lemma wf_runs_distinct: "wf_runs rs \<Longrightarrow> distinct (map fst rs)"
  by (induction rs) force+

lemma a_alloc_mem:
  "a_alloc rs n = Some (p, rs') \<Longrightarrow> fst ` set rs' \<subseteq> fst ` set rs"
proof (induction rs arbitrary: rs')
  case (Cons x rs)
  obtain a l where x: "x = (a, l)" by force
  show ?case
  proof (cases "l < n")
    case True
    with Cons.prems x obtain rs1 where "a_alloc rs n = Some (p, rs1)" "rs' = x # rs1" by auto
    with Cons.IH show ?thesis by force
  qed (use Cons.prems x in \<open>auto split: if_splits\<close>)
qed simp

lemma a_alloc_wf:
  "wf_runs rs \<Longrightarrow> 0 < n \<Longrightarrow> a_alloc rs n = Some (p, rs') \<Longrightarrow>
   wf_runs rs' \<and> 0 < p \<and> block p n \<subseteq> span rs \<and> span rs' = span rs - block p n"
proof (induction rs arbitrary: rs')
  case (Cons x rs)
  obtain a l where x: "x = (a, l)" by force
  have above: "y \<in> span rs \<Longrightarrow> a + l < y" for y
    using span_above [of rs "a + l" y] Cons.prems(1) x by auto
  consider "l = n" | "l > n" | "l < n" by linarith
  then show ?case
  proof cases
    case 3
    with Cons.prems x obtain rs1 where r: "a_alloc rs n = Some (p, rs1)" "rs' = (a, l) # rs1"
      by auto
    with Cons x have IH: "wf_runs rs1 \<and> 0 < p \<and> block p n \<subseteq> span rs \<and> span rs1 = span rs - block p n"
      by auto
    have "\<forall>(b, m)\<in>set rs1. a + l < b"
      using a_alloc_mem [OF r(1)] Cons.prems(1) x by (fastforce simp: subset_iff image_iff)
    moreover have "block a l \<inter> block p n = {}"
      using IH above by (fastforce simp: subset_iff)
    ultimately show ?thesis using IH r x Cons.prems(1) by auto
  next
    case 1
    then show ?thesis using Cons.prems x above by fastforce
  next
    case 2
    then have "block a l = block a (l - n) \<union> block (a + (l - n)) n" using Cons.prems
      by (auto simp: block_def)
    moreover have "\<forall>(b, m)\<in>set rs. a + (l - n) < b" using Cons.prems x 2 by auto
    moreover have "span rs \<inter> block (a + (l - n)) n = {}" using above by fastforce
    moreover have "block a (l - n) \<inter> block (a + (l - n)) n = {}" by (auto simp: block_def)
    ultimately show ?thesis using Cons.prems x 2 by (auto simp del: mem_block)
  qed
qed simp


lemma a_join_wf:
  "0 < a \<Longrightarrow> 0 < l \<Longrightarrow> wf_runs rs \<Longrightarrow> block a l \<inter> span rs = {} \<Longrightarrow> \<forall>(b, m)\<in>set rs. a < b \<Longrightarrow>
   wf_runs (a_join a l rs) \<and> span (a_join a l rs) = block a l \<union> span rs"
proof (cases rs)
  case (Cons x rs')
  obtain b m where x: "x = (b, m)" by force
  assume a: "0 < a" "0 < l" "wf_runs rs" "block a l \<inter> span rs = {}" "\<forall>(b, m)\<in>set rs. a < b"
  with Cons x have bm: "0 < b" "0 < m" "a < b" "\<forall>(c, k)\<in>set rs'. b + m < c" by auto
  then have "b \<in> span rs" using Cons x by simp
  with a(4) have "b \<notin> block a l" by blast
  with bm have "a + l \<le> b" by simp
  then have ab: "\<forall>(c, k)\<in>set rs'. a + l < c" using bm by auto
  show ?thesis
  proof (cases "b = a + l")
    case True
    then have "block a (l + m) = block a l \<union> block b m" using a bm by (auto simp: block_def)
    with True a bm ab Cons x show ?thesis by (auto simp: algebra_simps)
  next
    case False
    with \<open>a + l \<le> b\<close> a bm ab Cons x show ?thesis by auto
  qed
qed simp

lemma a_join_mem: "fst ` set (a_join a l qs) \<subseteq> insert a (fst ` set qs)"
  by (cases qs) (auto split: if_splits)

lemma a_free_mem: "fst ` set (a_free rs v n) \<subseteq> insert v (fst ` set rs)"
proof (induction rs)
  case (Cons x rs)
  obtain a l where x: "x = (a, l)" by force
  consider "v + n < a" | "v + n = a" | "a < v + n" "a + l = v" | "a < v + n" "a + l \<noteq> v"
    by linarith
  then show ?case
  proof cases
    case 3
    with a_join_mem [of a "l + n" rs] x show ?thesis by auto
  qed (use Cons x in auto)
qed simp

lemma a_free_wf:
  "wf_runs rs \<Longrightarrow> 0 < v \<Longrightarrow> 0 < n \<Longrightarrow> block v n \<inter> span rs = {} \<Longrightarrow>
   wf_runs (a_free rs v n) \<and> span (a_free rs v n) = span rs \<union> block v n"
proof (induction rs)
  case (Cons x rs)
  obtain a l where x: "x = (a, l)" by force
  from Cons.prems x have w: "0 < a" "0 < l" "\<forall>(b, m)\<in>set rs. a + l < b" "wf_runs rs" by auto
  have above: "y \<in> span rs \<Longrightarrow> a + l < y" for y using span_above [OF w(3)] .
  have "a \<in> span (x # rs)" "a + l - 1 \<in> span (x # rs)" using x w by auto
  with Cons.prems(4) have "a \<notin> block v n" "a + l - 1 \<notin> block v n" by blast+
  then have na: "a < v \<or> v + n \<le> a" "a + l - 1 < v \<or> v + n \<le> a + l - 1" by auto
  have "v \<in> block v n" using Cons.prems(3) by simp
  then have "v \<notin> span (x # rs)" using Cons.prems(4) by blast
  then have nv: "v < a \<or> a + l \<le> v" using x by auto
  have d: "block v n \<inter> span rs = {}" using Cons.prems(4) x by auto
  consider "v + n < a" | "v + n = a" | "a + l = v" | "a + l < v"
    using na nv by linarith
  then show ?case
  proof cases
    case 1
    with w have "\<forall>(b, m)\<in>set (x # rs). v + n < b" using x by auto
    with 1 x w Cons.prems show ?thesis by auto
  next
    case 2
    then have "block v (n + l) = block v n \<union> block a l" using w Cons.prems by (auto simp: block_def)
    moreover have "\<forall>(b, m)\<in>set rs. v + (n + l) < b" using 2 w by auto
    ultimately show ?thesis using 2 x w Cons.prems by auto
  next
    case 3
    have blk: "block a (l + n) = block a l \<union> block v n"
      using 3 w Cons.prems(3) by (auto simp: block_def)
    have "block a l \<inter> span rs = {}" using above by fastforce
    with d blk have "block a (l + n) \<inter> span rs = {}" by blast
    moreover have "\<forall>(b, m)\<in>set rs. a < b" using w by auto
    ultimately have "wf_runs (a_join a (l + n) rs) \<and>
        span (a_join a (l + n) rs) = block a (l + n) \<union> span rs"
      using a_join_wf [of a "l + n" rs] w Cons.prems by simp
    with blk show ?thesis using 3 x w Cons.prems by auto
  next
    case 4
    with Cons d w have IH: "wf_runs (a_free rs v n) \<and> span (a_free rs v n) = span rs \<union> block v n"
      by simp
    have "\<forall>b\<in>fst ` set (a_free rs v n). a + l < b"
      using a_free_mem [of rs v n] 4 w(3) by fastforce
    with IH 4 x w Cons.prems show ?thesis by auto
  qed
qed simp

text \<open>A well-formed free list is determined by the set of its free bytes.\<close>

lemma wf_runs_unique:
  "wf_runs rs \<Longrightarrow> wf_runs qs \<Longrightarrow> span rs = span qs \<Longrightarrow> rs = qs"
proof (induction rs arbitrary: qs)
  case Nil
  then show ?case by (cases qs) force+
next
  case (Cons x rs)
  obtain a l where x: "x = (a, l)" by force
  with Cons.prems have a: "0 < l" "a \<in> span qs" "\<forall>(b, m)\<in>set rs. a + l < b" "wf_runs rs" by auto
  then obtain y qs' where qs: "qs = y # qs'" by (cases qs) auto
  obtain b m where y: "y = (b, m)" by force
  from Cons.prems qs y have b: "0 < m" "b \<in> span (x # rs)" "\<forall>(c, k)\<in>set qs'. b + m < c" "wf_runs qs'"
    by auto
  have up: "z \<in> span rs \<Longrightarrow> a + l < z" and uq: "z \<in> span qs' \<Longrightarrow> b + m < z" for z
    using span_above [OF a(3)] span_above [OF b(3)] by blast+
  have ab: "a = b" using a b x y qs up [of b] uq [of a] by fastforce
  have "a + l \<notin> span (x # rs)" "b + m \<notin> span qs" using x y qs up uq by force+
  then have lm: "l = m" using Cons.prems(3) ab x y qs a b
    by (smt (verit) Un_iff mem_block span_simps(2) up uq)
  have "span rs = span (x # rs) - block a l" using x up by force
  moreover have "span qs' = span qs - block b m" using y qs uq by force
  ultimately have "rs = qs'" using Cons.IH [of qs'] Cons.prems(3) a b ab lm by simp
  with x y qs ab lm show ?case by simp
qed


lemma a_alloc_None: "a_alloc rs n = None \<longleftrightarrow> (\<forall>(a, l)\<in>set rs. l < n)"
  by (induction rs) (auto split: if_splits)

subsection \<open>The allocator interface\<close>

text \<open>
  What the clients of the pool rely on. \<open>pool h A\<close> says that the state \<open>h\<close> is well formed
  and that \<open>A\<close> is its set of free bytes; \<open>fits h n\<close> that a request for \<open>n\<close> bytes can be
  served from the pool.
\<close>

locale allocator =
  fixes alloc :: "'h \<Rightarrow> int \<Rightarrow> (addr \<times> 'h) result"
    and free :: "'h \<Rightarrow> addr \<Rightarrow> int \<Rightarrow> 'h result"
    and pool :: "'h \<Rightarrow> addr set \<Rightarrow> bool"
    and fits :: "'h \<Rightarrow> int \<Rightarrow> bool"
    and limit :: int
  assumes alloc_fits: "pool h A \<Longrightarrow> 0 < n \<Longrightarrow> n \<le> limit \<Longrightarrow> fits h n \<Longrightarrow>
      \<exists>p h'. alloc h n = Inr (p, h') \<and> 0 < p \<and> block p n \<subseteq> A \<and> pool h' (A - block p n)"
    and free_ok: "pool h A \<Longrightarrow> 0 < p \<Longrightarrow> 0 < n \<Longrightarrow> n \<le> limit \<Longrightarrow> block p n \<inter> A = {} \<Longrightarrow>
      \<exists>h'. free h p n = Inr h' \<and> pool h' (A \<union> block p n)"

text \<open>
  The runs of a client that frees only blocks it holds: \<open>bs\<close> is the ledger of blocks it
  holds when the pool is in state \<open>h\<close>.
\<close>

inductive ledger for alloc :: "'h \<Rightarrow> int \<Rightarrow> (addr \<times> 'h) result"
    and free :: "'h \<Rightarrow> addr \<Rightarrow> int \<Rightarrow> 'h result"
    and fits :: "'h \<Rightarrow> int \<Rightarrow> bool" and limit :: int and h0 :: 'h where
  start: "ledger alloc free fits limit h0 h0 []"
| get: "ledger alloc free fits limit h0 h bs \<Longrightarrow> 0 < n \<Longrightarrow> n \<le> limit \<Longrightarrow> fits h n \<Longrightarrow>
    alloc h n = Inr (p, h') \<Longrightarrow> ledger alloc free fits limit h0 h' ((p, n) # bs)"
| put: "ledger alloc free fits limit h0 h (us @ (p, n) # vs) \<Longrightarrow>
    free h p n = Inr h' \<Longrightarrow> ledger alloc free fits limit h0 h' (us @ vs)"

fun apart :: "int \<Rightarrow> run list \<Rightarrow> bool" where
  "apart limit [] = True"
| "apart limit ((a, l) # bs) =
     (0 < a \<and> 0 < l \<and> l \<le> limit \<and> block a l \<inter> span bs = {} \<and> apart limit bs)"

lemma span_append [simp]: "span (xs @ ys) = span xs \<union> span ys"
  by (auto simp: span_def)

lemma apart_middle: "apart k (us @ x # vs) \<longleftrightarrow> apart k (x # us @ vs)"
  by (induction us) (cases x; auto)+

context allocator begin

lemma alloc_then_free:
  assumes "pool h A" and "0 < n" and "n \<le> limit" and "fits h n"
  shows "\<exists>p h' h''. alloc h n = Inr (p, h') \<and> free h' p n = Inr h'' \<and> pool h'' A"
proof -
  from alloc_fits [OF assms] obtain p h' where
    a: "alloc h n = Inr (p, h')" "0 < p" "block p n \<subseteq> A" "pool h' (A - block p n)" by blast
  from free_ok [OF a(4,2) assms(2,3)] obtain h'' where
    "free h' p n = Inr h''" "pool h'' (A - block p n \<union> block p n)" by blast
  moreover have "A - block p n \<union> block p n = A" using a(3) by blast
  ultimately show ?thesis using a(1) by auto
qed

lemma ledger_inv:
  assumes "ledger alloc free fits limit h0 h bs" and "pool h0 A"
  shows "pool h (A - span bs) \<and> span bs \<subseteq> A \<and> apart limit bs"
  using assms
proof (induction rule: ledger.induct)
  case start
  then show ?case by simp
next
  case (get h bs n p h')
  then have IH: "pool h (A - span bs)" "span bs \<subseteq> A" "apart limit bs" by auto
  from alloc_fits [OF IH(1) get(2-4)] get(5) have
    r: "0 < p" "block p n \<subseteq> A - span bs" "pool h' (A - span bs - block p n)" by auto
  have "A - span bs - block p n = A - span ((p, n) # bs)" by auto
  with r IH get(2,3) show ?case by (auto simp del: mem_block)
next
  case (put h us p n vs h')
  then have IH: "pool h (A - span (us @ (p, n) # vs))" "span (us @ (p, n) # vs) \<subseteq> A"
    "apart limit ((p, n) # us @ vs)" using apart_middle by auto
  then have pn: "0 < p" "0 < n" "n \<le> limit" "block p n \<inter> (span us \<union> span vs) = {}" by auto
  from free_ok [OF IH(1) pn(1-3)] put(2) have
    "pool h' (A - span (us @ (p, n) # vs) \<union> block p n)" by auto
  moreover have "A - span (us @ (p, n) # vs) \<union> block p n = A - span (us @ vs)"
    using IH(2) pn(4) by auto
  ultimately show ?case using IH by auto
qed

lemma ledger_can_free:
  assumes "ledger alloc free fits limit h0 h (us @ (p, n) # vs)" and "pool h0 A"
  shows "\<exists>h'. free h p n = Inr h'"
proof -
  from ledger_inv [OF assms] have i: "pool h (A - span (us @ (p, n) # vs))"
    "apart limit ((p, n) # us @ vs)" using apart_middle by auto
  then have "0 < p" "0 < n" "n \<le> limit" by auto
  from free_ok [OF i(1) this] show ?thesis by auto
qed

end


subsection \<open>The pool is an allocator\<close>

definition kpool :: "kheap \<Rightarrow> addr set \<Rightarrow> bool" where
  "kpool h A \<longleftrightarrow> (\<exists>rs. free_list h rs \<and> wf_runs rs \<and> span rs = A)"

definition kfits :: "kheap \<Rightarrow> int \<Rightarrow> bool" where
  "kfits h n \<longleftrightarrow> (\<exists>rs. free_list h rs \<and> (\<exists>(a, l)\<in>set rs. n \<le> l))"

lemma runs_unique: "runs h p rs NULL \<Longrightarrow> runs h p qs NULL \<Longrightarrow> rs = qs"
proof (induction rs arbitrary: p qs)
  case Nil
  then show ?case by (cases qs) auto
next
  case (Cons x rs)
  then show ?case by (cases qs; cases x) auto
qed

lemma free_list_unique: "free_list h rs \<Longrightarrow> free_list h qs \<Longrightarrow> rs = qs"
  by (auto simp: free_list_def intro: runs_unique)

lemma kfits_list: "free_list h rs \<Longrightarrow> kfits h n \<longleftrightarrow> (\<exists>(a, l)\<in>set rs. n \<le> l)"
  by (auto simp: kfits_def dest: free_list_unique)

lemma kfits_mono: "kfits h n \<Longrightarrow> m \<le> n \<Longrightarrow> kfits h m"
  by (auto simp: kfits_def intro!: bexI [rotated])

lemma kpool_list: "free_list h rs \<Longrightarrow> wf_runs rs \<Longrightarrow> kpool h (span rs)"
  by (auto simp: kpool_def)

lemma kalloc_loop_pool:
  assumes "kpool h A" and "0 < n" and "kfits h n"
  shows "\<exists>p h'. kalloc_loop h n FreeHead = Some (Some p, h') \<and> 0 < p \<and> block p n \<subseteq> A \<and>
    kpool h' (A - block p n)"
proof -
  from assms(1) obtain rs where rs: "free_list h rs" "wf_runs rs" "span rs = A"
    by (auto simp: kpool_def)
  from assms(3) obtain a l where "(a, l) \<in> set rs" "\<not> l < n"
    using kfits_list [OF rs(1)] by force
  then have "a_alloc rs n \<noteq> None" unfolding a_alloc_None by blast
  then obtain p rs' where al: "a_alloc rs n = Some (p, rs')" by auto
  from kalloc_loop_refines [of h "[]" rs n] rs(1) al obtain h' where
    "kalloc_loop h n FreeHead = Some (Some p, h')" "free_list h' rs'"
    by (auto simp: alloc_matches_def)
  with a_alloc_wf [OF rs(2) assms(2) al] rs(3) show ?thesis by (auto simp: kpool_def)
qed

lemma kfree_loop_pool:
  assumes "kpool h A" and "0 < p" and "0 < n" and "block p n \<inter> A = {}"
  shows "\<exists>h'. kfree_loop h p n FreeHead = Some h' \<and> kpool h' (A \<union> block p n) \<and>
    sys_blocks h' = sys_blocks h"
proof -
  from assms(1) obtain rs where rs: "free_list h rs" "wf_runs rs" "span rs = A"
    by (auto simp: kpool_def)
  have "p \<in> block p n" using assms(3) by simp
  then have "p \<notin> fst ` set rs" using wf_runs_start [OF rs(2)] rs(3) assms(4) by blast
  moreover have "p \<noteq> NULL" using assms(2) by simp
  ultimately obtain h' where "kfree_loop h p n FreeHead = Some h'" "free_list h' (a_free rs p n)"
    "sys_blocks h' = sys_blocks h"
    using kfree_loop_refines [of h "[]" rs p n] rs(1) by auto
  moreover have "wf_runs (a_free rs p n) \<and> span (a_free rs p n) = A \<union> block p n"
    using a_free_wf [OF rs(2) assms(2,3)] rs(3) assms(4) by simp
  ultimately show ?thesis by (auto simp: kpool_def)
qed

text \<open>A run long enough for two blocks still serves the second after the first is gone.\<close>

lemma a_alloc_leaves:
  assumes "a_alloc rs n = Some (p, rs')" and "\<exists>(a, l)\<in>set rs. n + m \<le> l" and "0 < m" and "0 < n"
  shows "\<exists>(a, l)\<in>set rs'. m \<le> l"
  using assms
proof (induction rs arbitrary: rs')
  case (Cons x rs)
  obtain a l where x: "x = (a, l)" by force
  have weak: "\<exists>(a, l)\<in>set rs. n + m \<le> l \<Longrightarrow> \<exists>(a, l)\<in>set rs. m \<le> l"
    using Cons.prems(4) by (auto intro!: bexI [rotated])
  consider "l = n" | "l > n" | "l < n" by linarith
  then show ?case
  proof cases
    case 1
    with Cons.prems x weak show ?thesis by simp
  next
    case 2
    then have r: "rs' = (a, l - n) # rs" using Cons.prems(1) x by auto
    show ?thesis
    proof (cases "n + m \<le> l")
      case False
      with Cons.prems(2) x have "\<exists>(a, l)\<in>set rs. n + m \<le> l" by auto
      from weak [OF this] r show ?thesis by auto
    qed (simp add: r)
  next
    case 3
    with Cons.prems x obtain rs1 where r: "a_alloc rs n = Some (p, rs1)" "rs' = (a, l) # rs1" by auto
    have "\<exists>(a, l)\<in>set rs. n + m \<le> l" using Cons.prems(2,3) x 3 by auto
    from Cons.IH [OF r(1) this Cons.prems(3,4)] r(2) show ?thesis by auto
  qed
qed simp

lemma kalloc_leaves:
  assumes "kpool h A" and "kfits h (n + m)" and "0 < n" and "n \<le> PAGESIZE" and "0 < m"
    and "kalloc h n = Inr (p, h')"
  shows "kfits h' m"
proof -
  from assms(1) obtain rs where rs: "free_list h rs" "wf_runs rs" by (auto simp: kpool_def)
  have big: "\<exists>(a, l)\<in>set rs. n + m \<le> l" using assms(2) kfits_list [OF rs(1)] by simp
  then obtain a l where "(a, l) \<in> set rs" "\<not> l < n" using assms(5) by force
  then have "a_alloc rs n \<noteq> None" unfolding a_alloc_None by blast
  then obtain q rs' where al: "a_alloc rs n = Some (q, rs')" by auto
  with kalloc_refines [OF rs(1) assms(3,4)] assms(6) have "free_list h' rs'" by auto
  with a_alloc_leaves [OF al big assms(5,3)] show ?thesis by (auto simp: kfits_def)
qed

interpretation kp: allocator kalloc kfree kpool kfits PAGESIZE
proof
  fix h A n
  assume "kpool h A" "0 < n" "n \<le> PAGESIZE" "kfits h n"
  with kalloc_loop_pool [of h A n] show
    "\<exists>p h'. kalloc h n = Inr (p, h') \<and> 0 < p \<and> block p n \<subseteq> A \<and> kpool h' (A - block p n)"
    by (auto simp: kalloc_def)
next
  fix h A p n
  assume "kpool h A" "0 < p" "0 < n" "n \<le> PAGESIZE" "block p n \<inter> A = {}"
  with kfree_loop_pool [of h A p n] show
    "\<exists>h'. kfree h p n = Inr h' \<and> kpool h' (A \<union> block p n)"
    by (auto simp: kfree_def)
qed

abbreviation kledger :: "kheap \<Rightarrow> kheap \<Rightarrow> run list \<Rightarrow> bool" where
  "kledger \<equiv> ledger kalloc kfree kfits PAGESIZE"

lemma kalloc_undo:
  assumes "kpool h A" and "kfits h n" and "0 < n" and "n \<le> PAGESIZE"
  obtains p h' where "kalloc h n = Inr (p, h')" and "0 < p" and "kpool h' (A - block p n)"
    and "\<And>k. kpool k (A - block p n) \<Longrightarrow> \<exists>k'. kfree k p n = Inr k' \<and> kpool k' A"
proof -
  from kp.alloc_fits [OF assms(1,3,4,2)] obtain p h' where
    a: "kalloc h n = Inr (p, h')" "0 < p" "block p n \<subseteq> A" "kpool h' (A - block p n)" by blast
  have "\<exists>k'. kfree k p n = Inr k' \<and> kpool k' A" if "kpool k (A - block p n)" for k
  proof -
    have "A - block p n \<union> block p n = A" using a(3) by blast
    with kp.free_ok [OF that a(2) assms(3,4)] show ?thesis by auto
  qed
  with a show thesis by (intro that) auto
qed

lemma kpool_free_list_eq:
  assumes "kpool h (span rs)" and "wf_runs rs"
  shows "free_list h rs"
proof -
  from assms(1) obtain qs where "free_list h qs" "wf_runs qs" "span qs = span rs"
    by (auto simp: kpool_def)
  with wf_runs_unique [of qs rs] assms(2) show ?thesis by simp
qed

lemma kpool_kfits: "kpool h A \<Longrightarrow> kpool k A \<Longrightarrow> kfits h n \<Longrightarrow> kfits k n"
proof -
  assume h: "kpool h A" and k: "kpool k A" and f: "kfits h n"
  from h obtain rs where rs: "free_list h rs" "wf_runs rs" "span rs = A" by (auto simp: kpool_def)
  with k have "free_list k rs" using kpool_free_list_eq [of k rs] by simp
  with f rs(1) show "kfits k n" using kfits_list by blast
qed


lemma wf_runs_after: "wf_runs ((a, l) # rs) \<Longrightarrow> x \<in> span rs \<Longrightarrow> a + l < x"
  by (auto simp: span_def block_def)

lemma run_of_block:
  "wf_runs rs \<Longrightarrow> 0 < n \<Longrightarrow> block p n \<subseteq> span rs \<Longrightarrow> \<exists>(a, l)\<in>set rs. n \<le> l"
proof (induction rs)
  case (Cons r rs)
  obtain a l where r: "r = (a, l)" by (cases r)
  have w: "wf_runs ((a, l) # rs)" using Cons.prems(1) r by simp
  show ?case
  proof (cases "block p n \<inter> block a l = {}")
    case True
    with Cons.prems(3) r have "block p n \<subseteq> span rs" by auto
    with Cons.IH Cons.prems(1,2) r show ?thesis by auto
  next
    case False
    then obtain x where "x \<in> block p n" "x \<in> block a l" by blast
    then have x: "x \<in> block p n" "a \<le> x" "x < a + l" by (simp_all add: block_def)
    have gap: "a + l \<notin> block p n"
    proof
      assume "a + l \<in> block p n"
      with Cons.prems(3) r have "a + l \<in> span rs" by (auto simp: block_def)
      with wf_runs_after [OF w] show False by blast
    qed
    have low: "a \<le> p"
    proof -
      have "p \<in> block p n" using Cons.prems(2) by (simp add: block_def)
      then have "p \<in> block a l \<union> span rs"
        using Cons.prems(3) unfolding r span_simps by (rule set_rev_mp)
      with wf_runs_after [OF w, of p] x show ?thesis by (auto simp: block_def)
    qed
    have "p + n \<le> a + l" using gap x by (auto simp: block_def)
    with low r show ?thesis by auto
  qed
qed (simp add: block_def)

lemma kpool_room: "kpool h A \<Longrightarrow> 0 < n \<Longrightarrow> block p n \<subseteq> A \<Longrightarrow> kfits h n"
proof -
  assume "kpool h A" "0 < n" "block p n \<subseteq> A"
  then obtain rs where "free_list h rs" "wf_runs rs" "span rs = A" by (auto simp: kpool_def)
  with run_of_block [of rs n p] \<open>0 < n\<close> \<open>block p n \<subseteq> A\<close> show "kfits h n" by (auto simp: kfits_def)
qed

text \<open>The pool can serve \<open>n\<close> bytes exactly when its free bytes hold a block of that size: the runs are
  as long as they can be.\<close>

lemma kpool_fits_iff: "kpool h A \<Longrightarrow> 0 < n \<Longrightarrow> kfits h n \<longleftrightarrow> (\<exists>p. block p n \<subseteq> A)"
proof
  assume "kpool h A" "kfits h n"
  then obtain rs a l where "span rs = A" "(a, l) \<in> set rs" "n \<le> l"
    using kfits_list by (auto simp: kpool_def)
  then have "block a n \<subseteq> A" by (auto simp: span_def block_def)
  then show "\<exists>p. block p n \<subseteq> A" by blast
qed (use kpool_room in blast)

subsection \<open>Properties\<close>

text \<open>C34: freeing a block right after allocating it restores the free list exactly: the
  run it was carved from is whole again, in the same place of the list.\<close>

theorem kalloc_kfree_roundtrip:
  assumes "free_list h rs" and "wf_runs rs" and "0 < n" and "n \<le> PAGESIZE"
    and "\<exists>(a, l)\<in>set rs. n \<le> l"
  shows "\<exists>p h' h''. kalloc h n = Inr (p, h') \<and> kfree h' p n = Inr h'' \<and> free_list h'' rs"
proof -
  have "kfits h n" using assms(1,5) kfits_list by blast
  from kp.alloc_then_free [OF kpool_list [OF assms(1,2)] assms(3,4) this]
  show ?thesis using kpool_free_list_eq [OF _ assms(2)] by blast
qed

definition pool_ex :: kheap where
  "pool_ex = \<lparr>run_next = (\<lambda>_. 0), run_len = (\<lambda>_. 64), freelist = 4096, sys_blocks = []\<rparr>"

lemma pool_ex_list: "free_list pool_ex [(4096, 64)]"
  by (simp add: free_list_def pool_ex_def)

theorem kalloc_kfree_roundtrip_witness:
  "\<exists>p h' h''. kalloc pool_ex 16 = Inr (p, h') \<and> kfree h' p 16 = Inr h'' \<and>
     free_list h'' [(4096, 64)]"
  by (rule kalloc_kfree_roundtrip [OF pool_ex_list]) (simp_all add: PAGESIZE_def)

text \<open>Whatever sequence of allocations and frees a client makes, as long as it frees
  only blocks it holds: the blocks it holds are pairwise disjoint, disjoint from the free
  runs, and together with them make up the original pool; every free succeeds; and when it
  holds nothing the free list is again exactly the original one (no byte is leaked and
  every run is merged back). On the bytes of memory this needs free runs with room for their
  headers: \<open>pool_memory_safe\<close> in \<open>KallocMem\<close>.\<close>

theorem pool_ledger_safe:
  assumes "free_list h0 rs" and "wf_runs rs" and "kledger h0 h bs"
  shows "apart PAGESIZE bs \<and> span bs \<subseteq> span rs \<and> kpool h (span rs - span bs) \<and>
    (\<forall>us p n vs. bs = us @ (p, n) # vs \<longrightarrow> (\<exists>h'. kfree h p n = Inr h')) \<and>
    (bs = [] \<longrightarrow> free_list h rs)"
  using kp.ledger_inv [OF assms(3) kpool_list [OF assms(1,2)]]
    kp.ledger_can_free [of h0 h] assms(3) kpool_list [OF assms(1,2)]
    kpool_free_list_eq [OF _ assms(2)] by auto

theorem pool_ledger_safe_witness:
  "\<exists>p h. kledger pool_ex h [(p, 16)] \<and> apart PAGESIZE [(p, 16)] \<and> kpool h (block 4096 64 - block p 16)"
proof -
  have f: "kfits pool_ex 16" using pool_ex_list by (force simp: kfits_def)
  then obtain p h where "kalloc pool_ex 16 = Inr (p, h)"
    using kp.alloc_fits [OF kpool_list [OF pool_ex_list], of 16] by (force simp: PAGESIZE_def)
  with f have l: "kledger pool_ex h [(p, 16)]"
    by (intro ledger.get [OF ledger.start]) (simp_all add: PAGESIZE_def)
  with pool_ledger_safe [OF pool_ex_list _ l] show ?thesis by (auto simp del: apart.simps)
qed


text \<open>\<open>kfree\<close> of any block outside the pool (including a segment that came from
  \<open>malloc\<close>) returns, leaves a sorted and fully merged list, and adds exactly that block's
  bytes to the free bytes.\<close>

theorem kfree_coalesces:
  assumes "free_list h rs" and "wf_runs rs" and "0 < v" and "0 < n" and "n \<le> PAGESIZE"
    and "block v n \<inter> span rs = {}"
  shows "\<exists>h' rs'. kfree h v n = Inr h' \<and> free_list h' rs' \<and> wf_runs rs' \<and>
    span rs' = span rs \<union> block v n"
  using kp.free_ok [OF kpool_list [OF assms(1,2)] assms(3-6)] by (auto simp: kpool_def)

theorem kfree_coalesces_witness:
  "\<exists>h' rs'. kfree pool_ex 4160 32 = Inr h' \<and> free_list h' rs' \<and> wf_runs rs' \<and>
     span rs' = span [(4096, 64)] \<union> block 4160 32"
  by (rule kfree_coalesces [OF pool_ex_list]) (auto simp: PAGESIZE_def)

text \<open>C35: when the run chosen by \<open>kalloc\<close> is longer than the request by less than a run
  header, the block handed out overlaps the eight header bytes of the run that stays in the
  free list, so the client's writes destroy the list.\<close>

theorem kalloc_residue_overlaps_header:
  assumes "free_list h [(a, l)]" and "0 < n" and "n \<le> PAGESIZE" and "n < l" and "l < n + SIZEOF_RUN"
  shows "\<exists>p h'. kalloc h n = Inr (p, h') \<and> free_list h' [(a, l - n)] \<and>
    block p n \<inter> block a SIZEOF_RUN \<noteq> {}"
proof -
  let ?p = "a + (l - n)"
  from kalloc_refines [OF assms(1-3)] assms(4) obtain h' where
    "kalloc h n = Inr (?p, h')" "free_list h' [(a, l - n)]" by auto
  moreover have "?p \<in> block ?p n \<inter> block a SIZEOF_RUN" using assms by simp
  ultimately show ?thesis by blast
qed

theorem kalloc_residue_overlaps_header_witness:
  "\<exists>p h'. kalloc pool_ex 60 = Inr (p, h') \<and> free_list h' [(4096, 64 - 60)] \<and>
     block p 60 \<inter> block 4096 SIZEOF_RUN \<noteq> {}"
  by (rule kalloc_residue_overlaps_header [OF pool_ex_list])
    (simp_all add: PAGESIZE_def SIZEOF_RUN_def)

text \<open>Initialisation asks the system for one segment of \<open>PAGESIZE\<close> bytes and makes it
  the only run of the pool; if the system has none it stops at its assertion.\<close>

theorem kinit_single_run:
  assumes "freelist h = NULL" and "\<forall>b\<in>set (sys_blocks h). 0 < b"
  shows "case sys_blocks h of
      [] \<Rightarrow> kinit h = Inl AssertFail
    | b # bs \<Rightarrow> \<exists>h'. kinit h = Inr h' \<and> free_list h' [(b, PAGESIZE)] \<and> sys_blocks h' = bs"
proof (cases "sys_blocks h")
  case (Cons b bs)
  let ?h = "h\<lparr>sys_blocks := bs\<rparr>"
  have "free_list ?h []" using assms(1) by (simp add: free_list_def)
  from kfree_loop_refines [of ?h "[]" "[]" b PAGESIZE] this Cons assms(2) obtain h' where
    "kfree_loop ?h b PAGESIZE FreeHead = Some h'" "free_list h' [(b, PAGESIZE)]" "sys_blocks h' = bs"
    by auto
  with Cons assms(2) show ?thesis
    by (auto simp: kinit_def sys_malloc_def kfree_def PAGESIZE_def)
qed (simp add: kinit_def sys_malloc_def)

definition boot_ex :: kheap where
  "boot_ex = \<lparr>run_next = (\<lambda>_. 0), run_len = (\<lambda>_. 0), freelist = 0, sys_blocks = [65536]\<rparr>"

theorem kinit_single_run_witness:
  "\<exists>h'. kinit boot_ex = Inr h' \<and> free_list h' [(65536, PAGESIZE)] \<and> sys_blocks h' = []"
  using kinit_single_run [of boot_ex] by (simp add: boot_ex_def)

text \<open>When no run is long enough, \<open>kalloc\<close> hands out what \<open>malloc\<close> gives (the null
  pointer if nothing is left) and the free list is unchanged.\<close>

theorem kalloc_exhausted:
  assumes "free_list h rs" and "\<forall>(a, l)\<in>set rs. l < n" and "0 < n" and "n \<le> PAGESIZE"
  shows "\<exists>p h'. kalloc h n = Inr (p, h') \<and> free_list h' rs \<and>
    p = (case sys_blocks h of [] \<Rightarrow> NULL | b # _ \<Rightarrow> b) \<and> sys_blocks h' = tl (sys_blocks h)"
proof -
  have "a_alloc rs n = None" using assms(2) by (simp only: a_alloc_None)
  with kalloc_refines [OF assms(1,3,4)] have k: "kalloc h n = Inr (sys_malloc h)" by simp
  have "free_list (h\<lparr>sys_blocks := bs\<rparr>) rs" for bs
    using assms(1) runs_frame [of rs "h\<lparr>sys_blocks := bs\<rparr>" h] by (simp add: free_list_def)
  with k assms(1) show ?thesis by (cases "sys_blocks h") (auto simp: sys_malloc_def)
qed

theorem kalloc_exhausted_witness:
  "\<exists>p h'. kalloc pool_ex 100 = Inr (p, h') \<and> free_list h' [(4096, 64)] \<and>
     p = (case sys_blocks pool_ex of [] \<Rightarrow> NULL | b # _ \<Rightarrow> b) \<and> sys_blocks h' = tl (sys_blocks pool_ex)"
  by (rule kalloc_exhausted [OF pool_ex_list]) (simp_all add: PAGESIZE_def)

end
