(* ===== verification/Lwt.thy ===== *)
theory Lwt
  imports PsList Kalloc
begin

text \<open>
  The thread library \<open>lwt.c\<close>: cooperative threads on one circular run queue.
  \<^item> \<open>lwt\<close> is \<open>struct lwt\<close> without its list links, which are in the \<open>ps_heap\<close> of the
    state; a thread is named by the address of its structure. The structures live in memory
    that \<open>kalloc\<close> hands out without clearing, so \<open>s_lwt\<close> keeps what a field held before
    the block was recycled.
  \<^item> \<open>lwt_sys\<close> is the global state: the pool, the structures, the links, \<open>current_thread\<close>,
    the counters, and the two registers the context switch saves.
  \<^item> A function that may switch to another thread returns, besides the state, whether it
    returned to its caller or left it suspended (\<open>Switched\<close>); what the suspended caller does
    when it runs again is the function's \<open>resume\<close> part.

  A field is kept by the base address of its structure. A block that other data (a channel, a
  message, a stack) used in between, or that starts at a base of its own, has other bytes there than
  the map says; of the fields that \<open>lwt_create\<close> leaves, only \<open>joinedfrom\<close> is read before it is
  written. \<open>Machine\<close> therefore gives it any value in every new thread.
\<close>

datatype lwt_state = RUNNABLE | DEAD | BLOCKED | WAITING

datatype lwt_flags = LWT_DEFAULT | LWT_NOJOIN

datatype code = IpNull | Trampoline | AfterSwitch

record lwt =
  l_tid :: u32
  l_ip :: code
  l_sp :: addr
  l_state :: lwt_state
  l_ret :: addr
  l_joinedfrom :: addr
  l_joiningto :: addr
  l_fn :: addr
  l_data :: addr
  l_flag :: lwt_flags

record lwt_sys =
  s_kheap :: kheap
  s_lwt :: "addr \<Rightarrow> lwt"
  s_links :: "addr ps_heap"
  current_thread :: addr
  lwt_tid_counter :: u32
  n_runnable :: int
  n_zombies :: int
  n_blocked :: int
  n_chan :: int
  n_snding :: int
  n_rcving :: int
  esp :: addr
  eip :: code

datatype 'v outcome = Returned 'v | Switched

definition STACK_SIZE :: int where
  "STACK_SIZE = 512"

definition SIZEOF_LWT :: int where
  "SIZEOF_LWT = 560"

definition OFFSET_STACK :: int where
  "OFFSET_STACK = 12"

definition PUSHAL_BYTES :: int where
  "PUSHAL_BYTES = 32"

definition upd_lwt :: "addr \<Rightarrow> (lwt \<Rightarrow> lwt) \<Rightarrow> 'z lwt_sys_scheme \<Rightarrow> 'z lwt_sys_scheme" where
  "upd_lwt t f s = s\<lparr>s_lwt := (s_lwt s)(t := f (s_lwt s t))\<rparr>"


subsection \<open>The code\<close>

abbreviation cur_state :: "'z lwt_sys_scheme \<Rightarrow> lwt_state" where
  "cur_state s \<equiv> l_state (s_lwt s (current_thread s))"

text \<open>
  \<open>__lwt_dispatch\<close>: the registers are pushed on the running stack, the resume point and the
  stack pointer are saved in \<open>curr\<close> (here \<open>prv\<close>), those of \<open>next\<close> are loaded; a thread resumed after a
  switch pops its registers.
\<close>

definition lwt_dispatch :: "addr \<Rightarrow> addr \<Rightarrow> 'z lwt_sys_scheme \<Rightarrow> 'z lwt_sys_scheme" where
  "lwt_dispatch next prv s =
     (let s1 = upd_lwt prv (\<lambda>t. t\<lparr>l_ip := AfterSwitch, l_sp := esp s - PUSHAL_BYTES\<rparr>) s;
          ip = l_ip (s_lwt s1 next);
          sp = l_sp (s_lwt s1 next)
      in s1\<lparr>eip := ip, esp := (if ip = AfterSwitch then sp + PUSHAL_BYTES else sp)\<rparr>)"

definition next_runnable :: "'z lwt_sys_scheme \<Rightarrow> addr option" where
  "next_runnable s =
     scan_next (\<lambda>c. ps_list_next c (s_links s)) (\<lambda>c. l_state (s_lwt s c) = RUNNABLE)
       (current_thread s)"

definition lwt_schedule :: "'z lwt_sys_scheme \<Rightarrow> (unit outcome \<times> 'z lwt_sys_scheme) result" where
  "lwt_schedule s =
     (if n_runnable s = 0 then Inr (Returned (), s)
      else rbind (terminating (next_runnable s)) (\<lambda>nx.
        let temp = current_thread s; s1 = s\<lparr>current_thread := nx\<rparr> in
        if temp \<noteq> nx then Inr (Switched, lwt_dispatch nx temp s1)
        else Inr (Returned (), s1)))"

definition lwt_yield :: "addr \<Rightarrow> 'z lwt_sys_scheme \<Rightarrow> (unit outcome \<times> 'z lwt_sys_scheme) result" where
  "lwt_yield t s =
     (if t = NULL then lwt_schedule s
      else if l_state (s_lwt s t) = RUNNABLE then
        let tmp = current_thread s; s1 = s\<lparr>current_thread := t\<rparr>
        in Inr (if t = tmp then Returned () else Switched, lwt_dispatch t tmp s1)
      else Inr (Returned (), s))"

definition lwt_init :: "'z lwt_sys_scheme \<Rightarrow> 'z lwt_sys_scheme result" where
  "lwt_init s =
     rbind (kinit (s_kheap s)) (\<lambda>h0.
     rbind (kalloc h0 SIZEOF_LWT) (\<lambda>(t, h).
     if t = NULL then Inl NullDeref
     else Inr ((upd_lwt t (\<lambda>l. l\<lparr>l_state := RUNNABLE, l_ip := IpNull, l_sp := NULL,
            l_tid := lwt_tid_counter s\<rparr>) s)
          \<lparr>s_kheap := h, current_thread := t, s_links := ps_list_ll_init t (s_links s),
            lwt_tid_counter := lwt_tid_counter s + 1, n_runnable := n_runnable s + 1\<rparr>)))"

definition lwt_create :: "addr \<Rightarrow> addr \<Rightarrow> lwt_flags \<Rightarrow> 'z lwt_sys_scheme \<Rightarrow>
    (addr \<times> 'z lwt_sys_scheme) result" where
  "lwt_create fn data flags s =
     rbind (kalloc (s_kheap s) SIZEOF_LWT) (\<lambda>(t, h).
     rbind (assertion (t \<noteq> NULL)) (\<lambda>_.
     let tid = lwt_tid_counter s + 1;
         s1 = upd_lwt t (\<lambda>l. l\<lparr>l_tid := tid, l_ip := Trampoline,
                l_sp := t + OFFSET_STACK + STACK_SIZE, l_state := RUNNABLE,
                l_fn := fn, l_data := data, l_flag := flags\<rparr>) s
     in Inr (t, s1\<lparr>s_kheap := h, lwt_tid_counter := tid,
          n_runnable := n_runnable s + 1, n_zombies := n_zombies s + 1,
          s_links := ps_list_ll_add (ps_list_prev (current_thread s) (s_links s)) t (s_links s)\<rparr>)))"

definition lwt_current :: "'z lwt_sys_scheme \<Rightarrow> addr" where
  "lwt_current s = current_thread s"

definition lwt_id :: "addr \<Rightarrow> 'z lwt_sys_scheme \<Rightarrow> u32 result" where
  "lwt_id t s = rbind (assertion (t \<noteq> NULL)) (\<lambda>_. Inr (l_tid (s_lwt s t)))"

definition lwt_info :: "int \<Rightarrow> int" where
  "lwt_info t = t"


text \<open>
  \<open>lwt_join\<close>. The block that reaps a dead thread ends both ways through the function; the
  waiting loop is \<open>lwt_join_loop\<close>, whose result says whether the joiner was switched away
  (it comes back to the loop test, \<open>lwt_join_resume\<close>) or left the loop.
\<close>

definition lwt_reap :: "addr \<Rightarrow> 'z lwt_sys_scheme \<Rightarrow> (addr outcome \<times> 'z lwt_sys_scheme) result" where
  "lwt_reap t s =
     (let tmp = l_ret (s_lwt s t);
          s1 = s\<lparr>s_links := ps_list_ll_rem t (s_links s)\<rparr>
      in rbind (kfree (s_kheap s1) t SIZEOF_LWT) (\<lambda>h. Inr (Returned tmp, s1\<lparr>s_kheap := h\<rparr>)))"

partial_function (option) lwt_join_loop ::
    "addr \<Rightarrow> 'z lwt_sys_scheme \<Rightarrow> (unit outcome \<times> 'z lwt_sys_scheme) result option" where
  "lwt_join_loop t s =
     (if cur_state s = BLOCKED then
        let s1 = s\<lparr>n_runnable := n_runnable s - 1, n_blocked := n_blocked s + 1\<rparr> in
        (case lwt_yield t s1 of
           Inl e \<Rightarrow> Some (Inl e)
         | Inr (r, s2) \<Rightarrow> (case r of
             Switched \<Rightarrow> Some (Inr (Switched, s2))
           | Returned _ \<Rightarrow> lwt_join_loop t s2))
      else Some (Inr (Returned (), s)))"

definition lwt_join_resume :: "addr \<Rightarrow> 'z lwt_sys_scheme \<Rightarrow> (addr outcome \<times> 'z lwt_sys_scheme) result" where
  "lwt_join_resume t s =
     rbind (rbind (terminating (lwt_join_loop t s)) id) (\<lambda>(r, s1). case r of
        Switched \<Rightarrow> Inr (Switched, s1)
      | Returned _ \<Rightarrow>
          let s2 = s1\<lparr>n_runnable := n_runnable s1 + 1, n_blocked := n_blocked s1 - 1\<rparr>;
              s3 = s2\<lparr>n_runnable := n_runnable s2 - 1, n_zombies := n_zombies s2 - 1\<rparr>
          in lwt_reap t s3)"

definition lwt_join :: "addr \<Rightarrow> 'z lwt_sys_scheme \<Rightarrow> (addr outcome \<times> 'z lwt_sys_scheme) result" where
  "lwt_join t s =
     rbind (assertion (t \<noteq> NULL)) (\<lambda>_.
     if l_flag (s_lwt s t) = LWT_NOJOIN then Inr (Returned NULL, s)
     else
       let me = current_thread s;
           s1 = upd_lwt me (\<lambda>l. l\<lparr>l_joiningto := t\<rparr>) s;
           s2 = upd_lwt (l_joiningto (s_lwt s1 me)) (\<lambda>l. l\<lparr>l_joinedfrom := me\<rparr>) s1
       in if l_state (s_lwt s2 t) = DEAD then
            lwt_reap t (s2\<lparr>n_zombies := n_zombies s2 - 1, n_runnable := n_runnable s2 - 1\<rparr>)
          else lwt_join_resume t (upd_lwt me (\<lambda>l. l\<lparr>l_state := BLOCKED\<rparr>) s2))"

definition lwt_die :: "addr \<Rightarrow> 'z lwt_sys_scheme \<Rightarrow> (unit outcome \<times> 'z lwt_sys_scheme) result" where
  "lwt_die data s =
     (let me = current_thread s in
      if l_flag (s_lwt s me) = LWT_NOJOIN then
        rbind (terminating (next_runnable s)) (\<lambda>nx.
          let s1 = s\<lparr>current_thread := nx, s_links := ps_list_ll_rem me (s_links s)\<rparr>
          in Inr (if nx = me then Returned () else Switched, lwt_dispatch nx me s1))
      else
        let s1 = upd_lwt me (\<lambda>l. l\<lparr>l_state := DEAD\<rparr>) s;
            jf = l_joinedfrom (s_lwt s1 me);
            s2 = (if jf \<noteq> NULL then upd_lwt jf (\<lambda>l. l\<lparr>l_state := RUNNABLE\<rparr>) s1 else s1);
            s3 = upd_lwt me (\<lambda>l. l\<lparr>l_ret := data\<rparr>) s2
        in lwt_yield NULL s3)"

subsection \<open>Selectors\<close>

lemma upd_lwt_sel [simp]:
  "s_lwt (upd_lwt t f s) = (s_lwt s)(t := f (s_lwt s t))"
  "s_kheap (upd_lwt t f s) = s_kheap s" "s_links (upd_lwt t f s) = s_links s"
  "current_thread (upd_lwt t f s) = current_thread s"
  "lwt_tid_counter (upd_lwt t f s) = lwt_tid_counter s"
  "n_runnable (upd_lwt t f s) = n_runnable s" "n_zombies (upd_lwt t f s) = n_zombies s"
  "n_blocked (upd_lwt t f s) = n_blocked s" "n_chan (upd_lwt t f s) = n_chan s"
  "n_snding (upd_lwt t f s) = n_snding s" "n_rcving (upd_lwt t f s) = n_rcving s"
  "esp (upd_lwt t f s) = esp s" "eip (upd_lwt t f s) = eip s"
  "lwt_sys.more (upd_lwt t f s) = lwt_sys.more s"
  by (simp_all add: upd_lwt_def)

lemma lwt_dispatch_sel [simp]:
  "s_kheap (lwt_dispatch a b s) = s_kheap s" "s_links (lwt_dispatch a b s) = s_links s"
  "current_thread (lwt_dispatch a b s) = current_thread s"
  "lwt_tid_counter (lwt_dispatch a b s) = lwt_tid_counter s"
  "n_runnable (lwt_dispatch a b s) = n_runnable s" "n_zombies (lwt_dispatch a b s) = n_zombies s"
  "n_blocked (lwt_dispatch a b s) = n_blocked s" "n_chan (lwt_dispatch a b s) = n_chan s"
  "n_snding (lwt_dispatch a b s) = n_snding s" "n_rcving (lwt_dispatch a b s) = n_rcving s"
  "l_state (s_lwt (lwt_dispatch a b s) x) = l_state (s_lwt s x)"
  "l_ret (s_lwt (lwt_dispatch a b s) x) = l_ret (s_lwt s x)"
  "l_flag (s_lwt (lwt_dispatch a b s) x) = l_flag (s_lwt s x)"
  "l_joinedfrom (s_lwt (lwt_dispatch a b s) x) = l_joinedfrom (s_lwt s x)"
  "l_joiningto (s_lwt (lwt_dispatch a b s) x) = l_joiningto (s_lwt s x)"
  "l_tid (s_lwt (lwt_dispatch a b s) x) = l_tid (s_lwt s x)"
  "l_fn (s_lwt (lwt_dispatch a b s) x) = l_fn (s_lwt s x)"
  "l_data (s_lwt (lwt_dispatch a b s) x) = l_data (s_lwt s x)"
  "lwt_sys.more (lwt_dispatch a b s) = lwt_sys.more s"
  by (simp_all add: lwt_dispatch_def Let_def)

subsection \<open>The run queue\<close>

definition runq :: "'z lwt_sys_scheme \<Rightarrow> addr list \<Rightarrow> bool" where
  "runq s xs \<longleftrightarrow> ring (s_links s) xs \<and> current_thread s = hd xs"

abbreviation ready :: "'z lwt_sys_scheme \<Rightarrow> addr \<Rightarrow> bool" where
  "ready s t \<equiv> l_state (s_lwt s t) = RUNNABLE"

lemma runq_cur: "runq s (c # xs) \<Longrightarrow> current_thread s = c"
  by (simp add: runq_def)

lemma runq_ring: "runq s xs \<Longrightarrow> ring (s_links s) xs"
  by (simp add: runq_def)

lemma next_runnable_hit:
  assumes "runq s (c # ys @ z # zs)" and "\<forall>y\<in>set ys. \<not> ready s y" and "ready s z"
  shows "next_runnable s = Some z"
  using runring.scan_hit [of "s_links s" c ys z zs "ready s"] assms
  by (simp add: next_runnable_def runq_def del: ring.simps)

lemma next_runnable_self:
  assumes "runq s (c # ys)" and "\<forall>y\<in>set ys. \<not> ready s y" and "ready s c"
  shows "next_runnable s = Some c"
  using runring.scan_wrap [of "s_links s" c ys "ready s"] assms
  by (simp add: next_runnable_def runq_def del: ring.simps)

lemma next_runnable_iff:
  assumes "runq s (c # xs)"
  shows "(\<exists>z. next_runnable s = Some z) \<longleftrightarrow> (\<exists>y\<in>set (c # xs). ready s y)"
  using runring.scan_returns_iff [of "s_links s" c xs "ready s"] assms
  by (simp add: next_runnable_def runq_def del: ring.simps)

lemma lwt_schedule_switch:
  assumes "runq s (c # ys @ z # zs)" and "\<forall>y\<in>set ys. \<not> ready s y" and "ready s z"
    and "n_runnable s \<noteq> 0"
  shows "lwt_schedule s = Inr (Switched, lwt_dispatch z c (s\<lparr>current_thread := z\<rparr>))"
proof -
  from assms(1) have "c \<noteq> z" "current_thread s = c" by (auto simp: runq_def)
  with next_runnable_hit [OF assms(1-3)] assms(4) show ?thesis by (simp add: lwt_schedule_def Let_def)
qed

lemma runq_switch:
  assumes "runq s (c # ys @ z # zs)"
  shows "runq (lwt_dispatch z c (s\<lparr>current_thread := z\<rparr>)) (z # zs @ c # ys)"
  using ring_rotate [of "s_links s" "c # ys" "z # zs"] assms by (simp add: runq_def del: ring.simps)


lemma n_runnable_update_runq [simp]:
  "runq (s\<lparr>n_runnable := i\<rparr>) xs = runq s xs" "runq (s\<lparr>n_blocked := i\<rparr>) xs = runq s xs"
  "runq (s\<lparr>n_zombies := i\<rparr>) xs = runq s xs" "runq (s\<lparr>s_kheap := k\<rparr>) xs = runq s xs"
  "runq (s\<lparr>lwt_tid_counter := n\<rparr>) xs = runq s xs" "runq (upd_lwt t f s) xs = runq s xs"
  by (simp_all add: runq_def)

lemma runq_directed:
  assumes "runq s (us @ t # vs)" and "us \<noteq> []"
  shows "runq (lwt_dispatch t (hd us) (s\<lparr>current_thread := t\<rparr>)) (t # vs @ us)"
  using ring_rotate [of "s_links s" us "t # vs"] assms by (simp add: runq_def del: ring.simps)

lemma lwt_yield_null [simp]: "lwt_yield NULL s = lwt_schedule s"
  by (simp add: lwt_yield_def)

text \<open>The states a sequence of \<open>lwt_yield(LWT_NULL)\<close> calls goes through, whoever makes them.\<close>

fun yields :: "nat \<Rightarrow> 'z lwt_sys_scheme \<Rightarrow> 'z lwt_sys_scheme result" where
  "yields 0 s = Inr s"
| "yields (Suc k) s = rbind (lwt_yield NULL s) (\<lambda>(r, s'). yields k s')"

lemma lwt_schedule_turn:
  assumes "runq s xs" and "ready s (hd xs)" and "n_runnable s \<noteq> 0"
  shows "\<exists>r s' i. lwt_schedule s = Inr (r, s') \<and> runq s' (rotate i xs) \<and> ready s (hd (rotate i xs)) \<and>
    filter (ready s) (rotate i xs) = rotate1 (filter (ready s) xs) \<and>
    (\<forall>t. l_state (s_lwt s' t) = l_state (s_lwt s t)) \<and> n_runnable s' = n_runnable s"
proof -
  from assms(1) obtain c cs where xs: "xs = c # cs" using ring_nonempty [OF runq_ring [OF assms(1)]]
    by (cases xs) auto
  show ?thesis
  proof (cases "filter (ready s) cs")
    case Nil
    then have "\<forall>y\<in>set cs. \<not> ready s y" by (simp add: filter_empty_conv)
    with assms xs next_runnable_self [of s c cs] runq_cur [of s c cs] have
      "lwt_schedule s = Inr (Returned (), s)" by (simp add: lwt_schedule_def Let_def)
    with assms xs Nil show ?thesis by (intro exI [of _ "Returned ()"] exI [of _ s] exI [of _ 0]) simp
  next
    case (Cons z rs)
    from filter_eq_ConsD [OF Cons] obtain us vs where
      cs: "cs = us @ z # vs" "\<forall>u\<in>set us. \<not> ready s u" "ready s z" "rs = filter (ready s) vs" by blast
    have q: "runq s (c # us @ z # vs)" using assms(1) xs cs(1) by simp
    have rot: "rotate (length (c # us)) xs = z # vs @ c # us"
      using rotate_append [of "c # us" "z # vs"] xs cs(1) by simp
    have "filter (ready s) us = []" using cs(2) by (simp add: filter_empty_conv)
    then have "filter (ready s) (z # vs @ c # us) = rotate1 (filter (ready s) xs)"
      using assms(2) xs cs by simp
    with lwt_schedule_switch [OF q cs(2,3) assms(3)] runq_switch [OF q] cs(3) show ?thesis
      by (intro exI [of _ Switched] exI [of _ "lwt_dispatch z c (s\<lparr>current_thread := z\<rparr>)"]
          exI [of _ "length (c # us)"]) (simp only: rot, simp)
  qed
qed

subsection \<open>Properties\<close>

text \<open>C12: \<open>__lwt_schedule\<close> switches to the first RUNNABLE thread after the current one in the
  run queue; the queue is rotated so that the new thread is first and everything it skipped
  comes after the old one; no thread changes state. The processor continues where the chosen
  thread was suspended, on its stack.\<close>

theorem lwt_schedule_picks_next_runnable:
  assumes "runq s (c # ys @ z # zs)" and "\<forall>y\<in>set ys. \<not> ready s y" and "ready s z"
    and "n_runnable s \<noteq> 0"
  shows "\<exists>s'. lwt_schedule s = Inr (Switched, s') \<and> runq s' (z # zs @ c # ys) \<and>
    (\<forall>t. l_state (s_lwt s' t) = l_state (s_lwt s t)) \<and> eip s' = l_ip (s_lwt s z) \<and>
    l_sp (s_lwt s' c) = esp s - PUSHAL_BYTES \<and> l_ip (s_lwt s' c) = AfterSwitch"
proof -
  from assms(1) have "c \<noteq> z" by (simp add: runq_def)
  then show ?thesis
    using lwt_schedule_switch [OF assms] runq_switch [OF assms(1)]
    by (auto simp: lwt_dispatch_def Let_def)
qed

text \<open>A small system: threads 100, 200 and 300, with 200 blocked.\<close>

definition lwt_ex :: lwt where
  "lwt_ex = \<lparr>l_tid = 1, l_ip = AfterSwitch, l_sp = 1000, l_state = RUNNABLE, l_ret = 0,
     l_joinedfrom = 0, l_joiningto = 0, l_fn = 0, l_data = 0, l_flag = LWT_DEFAULT\<rparr>"

definition sys_ex :: lwt_sys where
  "sys_ex = \<lparr>s_kheap = pool_ex\<lparr>run_len := (\<lambda>_. 8000)\<rparr>,
     s_lwt = (\<lambda>t. if t = 200 then lwt_ex\<lparr>l_state := BLOCKED\<rparr> else lwt_ex),
     s_links = \<lparr>ps_n = (\<lambda>t. if t = 100 then 200 else if t = 200 then 300 else 100),
                ps_p = (\<lambda>t. if t = 100 then 300 else if t = 200 then 100 else 200)\<rparr>,
     current_thread = 100, lwt_tid_counter = 3, n_runnable = 3, n_zombies = 2, n_blocked = 0,
     n_chan = 0, n_snding = 0, n_rcving = 0, esp = 5000, eip = AfterSwitch\<rparr>"

lemma sys_ex_runq: "runq sys_ex [100, 200, 300]"
  by (simp add: runq_def sys_ex_def)

theorem lwt_schedule_picks_next_runnable_witness:
  "\<exists>s'. lwt_schedule sys_ex = Inr (Switched, s') \<and> runq s' (300 # [] @ 100 # [200]) \<and>
    (\<forall>t. l_state (s_lwt s' t) = l_state (s_lwt sys_ex t)) \<and> eip s' = l_ip (s_lwt sys_ex 300) \<and>
    l_sp (s_lwt s' 100) = esp sys_ex - PUSHAL_BYTES \<and> l_ip (s_lwt s' 100) = AfterSwitch"
  by (rule lwt_schedule_picks_next_runnable)
    (simp_all add: sys_ex_runq, simp_all add: sys_ex_def lwt_ex_def)

text \<open>With a non-zero count of runnable threads the search of \<open>__lwt_schedule\<close> ends exactly
  when some thread of the queue is RUNNABLE; otherwise the do-while loop never ends. The
  guard tests the counter, not the queue.\<close>

theorem lwt_schedule_returns_iff:
  assumes "runq s xs" and "n_runnable s \<noteq> 0"
  shows "((\<exists>r. lwt_schedule s = Inr r) \<longleftrightarrow> (\<exists>t\<in>set xs. ready s t)) \<and>
    ((\<forall>t\<in>set xs. \<not> ready s t) \<longrightarrow> lwt_schedule s = Inl Diverges)"
proof -
  from assms(1) obtain c cs where xs: "xs = c # cs" using ring_nonempty [OF runq_ring [OF assms(1)]]
    by (cases xs) auto
  show ?thesis
    using next_runnable_iff [of s c cs] assms xs
    by (cases "next_runnable s") (auto simp: lwt_schedule_def Let_def)
qed

theorem lwt_schedule_returns_iff_witness:
  "\<exists>r. lwt_schedule sys_ex = Inr r"
  using lwt_schedule_returns_iff [OF sys_ex_runq] by (simp add: sys_ex_def lwt_ex_def)

text \<open>C21: scheduling is fair: a sequence of \<open>k\<close> yields gives the processor to the RUNNABLE threads
  of the queue in queue order and skips all others, so that after \<open>k\<close> yields the running thread is
  the one \<open>k\<close> places after the first among the RUNNABLE ones, modulo their number. The queue is only
  rotated and no thread changes state.\<close>

theorem lwt_yield_round_robin:
  assumes "runq s xs" and "ready s (hd xs)" and "n_runnable s \<noteq> 0"
  shows "\<exists>s' i. yields k s = Inr s' \<and> runq s' (rotate i xs) \<and>
    filter (ready s) (rotate i xs) = rotate k (filter (ready s) xs) \<and>
    current_thread s' = filter (ready s) xs ! (k mod length (filter (ready s) xs)) \<and>
    (\<forall>t. l_state (s_lwt s' t) = l_state (s_lwt s t))"
proof -
  have "\<exists>s' i. yields k s = Inr s' \<and> runq s' (rotate i xs) \<and> ready s (hd (rotate i xs)) \<and>
    filter (ready s) (rotate i xs) = rotate k (filter (ready s) xs) \<and>
    (\<forall>t. l_state (s_lwt s' t) = l_state (s_lwt s t))" using assms
  proof (induction k arbitrary: s xs)
    case 0
    then show ?case by (intro exI [of _ s] exI [of _ 0]) simp
  next
    case (Suc k)
    from lwt_schedule_turn [OF Suc.prems] obtain r s1 i where
      s1: "lwt_schedule s = Inr (r, s1)" "runq s1 (rotate i xs)" "ready s (hd (rotate i xs))"
        "filter (ready s) (rotate i xs) = rotate1 (filter (ready s) xs)"
        "\<forall>t. l_state (s_lwt s1 t) = l_state (s_lwt s t)" "n_runnable s1 = n_runnable s" by blast
    have rd: "ready s1 = ready s" using s1(5) by auto
    from Suc.IH [OF s1(2)] s1(3,6) Suc.prems(3) obtain s2 j where
      "yields k s1 = Inr s2" "runq s2 (rotate j (rotate i xs))" "ready s (hd (rotate j (rotate i xs)))"
      "filter (ready s) (rotate j (rotate i xs)) = rotate k (filter (ready s) (rotate i xs))"
      "\<forall>t. l_state (s_lwt s2 t) = l_state (s_lwt s t)" using s1(5) unfolding rd by auto
    with s1(1,4) show ?case
      by (intro exI [of _ s2] exI [of _ "j + i"]) (simp add: rotate_rotate rotate1_rotate_swap)
  qed
  then obtain s' i where e: "yields k s = Inr s'" "runq s' (rotate i xs)" "ready s (hd (rotate i xs))"
    "filter (ready s) (rotate i xs) = rotate k (filter (ready s) xs)"
    "\<forall>t. l_state (s_lwt s' t) = l_state (s_lwt s t)" by blast
  have "rotate i xs \<noteq> []" using ring_nonempty runq_ring e(2) by blast
  with e(3) have "hd (rotate i xs) = hd (filter (ready s) (rotate i xs))" "filter (ready s) xs \<noteq> []"
    using assms(1,2) ring_nonempty runq_ring by (cases "rotate i xs"; cases xs; force)+
  then have "hd (rotate i xs) = filter (ready s) xs ! (k mod length (filter (ready s) xs))"
    unfolding e(4) by (simp add: hd_rotate_conv_nth)
  with e show ?thesis by (intro exI [of _ s'] exI [of _ i]) (simp add: runq_def)
qed

definition fair_ex :: lwt_sys where
  "fair_ex = sys_ex\<lparr>s_lwt := (\<lambda>_. lwt_ex)\<rparr>"

theorem lwt_yield_round_robin_witness:
  "\<exists>s' i. yields 3 sys_ex = Inr s' \<and> runq s' (rotate i [100, 200, 300]) \<and> current_thread s' = 300"
proof -
  have f: "filter (ready sys_ex) [100, 200, 300] = [100, 300]" by (simp add: sys_ex_def lwt_ex_def)
  have "[100, 300] ! (3 mod length [100, 300 :: addr]) = (300 :: addr)" by (simp add: mod_Suc numeral_3_eq_3)
  moreover have "ready sys_ex (hd [100, 200, 300])" "n_runnable sys_ex \<noteq> 0"
    by (simp_all add: sys_ex_def lwt_ex_def)
  ultimately show ?thesis using lwt_yield_round_robin [OF sys_ex_runq, of 3] unfolding f by metis
qed

text \<open>A directed yield runs the named thread next if it is RUNNABLE, wherever it is in the
  queue, and is ignored without any effect if it is not.\<close>

theorem lwt_yield_directed:
  assumes "runq s (us @ t # vs)" and "us \<noteq> []" and "t \<noteq> NULL"
  shows "(ready s t \<longrightarrow> (\<exists>s'. lwt_yield t s = Inr (Switched, s') \<and> runq s' (t # vs @ us) \<and>
      eip s' = l_ip (s_lwt s t))) \<and>
    (\<not> ready s t \<longrightarrow> lwt_yield t s = Inr (Returned (), s))"
proof -
  from assms(1,2) have "t \<noteq> hd us" "current_thread s = hd us"
    using ring_distinct [OF runq_ring [OF assms(1)]] by (cases us; auto simp: runq_def)+
  with runq_directed [OF assms(1,2)] assms(3) show ?thesis
    by (auto simp: lwt_yield_def Let_def) (auto simp: lwt_dispatch_def Let_def)
qed

theorem lwt_yield_directed_witness:
  "(\<exists>s'. lwt_yield 300 sys_ex = Inr (Switched, s') \<and> runq s' [300, 100, 200]) \<and>
   lwt_yield 200 sys_ex = Inr (Returned (), sys_ex)"
  using lwt_yield_directed [of sys_ex "[100, 200]" 300 "[]"]
    lwt_yield_directed [of sys_ex "[100]" 200 "[300]"] sys_ex_runq
  by (auto simp: sys_ex_def lwt_ex_def)

text \<open>The context switch is a round trip. A thread that is switched out and later switched
  back in, its saved context untouched in between, continues after the switch with exactly
  the stack pointer it had; the thread that runs in between starts from its own saved one.\<close>

theorem lwt_dispatch_roundtrip:
  assumes "a \<noteq> b" and "l_ip (s_lwt s b) = Trampoline"
    and "l_ip (s_lwt s2 a) = l_ip (s_lwt (lwt_dispatch b a s) a)"
    and "l_sp (s_lwt s2 a) = l_sp (s_lwt (lwt_dispatch b a s) a)"
    and "a \<noteq> c"
  shows "esp (lwt_dispatch b a s) = l_sp (s_lwt s b) \<and> eip (lwt_dispatch b a s) = Trampoline \<and>
    esp (lwt_dispatch a c s2) = esp s \<and> eip (lwt_dispatch a c s2) = AfterSwitch"
  using assms by (simp add: lwt_dispatch_def Let_def)

theorem lwt_dispatch_roundtrip_witness:
  "let s = upd_lwt 300 (\<lambda>l. l\<lparr>l_ip := Trampoline\<rparr>) sys_ex; s2 = lwt_dispatch 300 100 s in
   esp (lwt_dispatch 300 100 s) = l_sp (s_lwt s 300) \<and> eip (lwt_dispatch 300 100 s) = Trampoline \<and>
   esp (lwt_dispatch 100 300 s2) = esp s \<and> eip (lwt_dispatch 100 300 s2) = AfterSwitch"
  unfolding Let_def by (rule lwt_dispatch_roundtrip) simp_all

end
