(* ===== verification/LwtLife.thy ===== *)
theory LwtLife
  imports Lwt
begin

text \<open>
  The life of a thread: what \<open>lwt_create\<close>, \<open>lwt_join\<close> and \<open>lwt_die\<close> of \<open>lwt.c\<close> do together.
  The pool of \<open>Kalloc\<close> is used through the facts \<open>kp\<close> of the allocator interface only:
  \<open>kpool h A\<close> says that the free bytes of the pool are the set \<open>A\<close>.
\<close>

subsection \<open>Creation\<close>

lemma lwt_create_pool:
  assumes "runq s (p # xs)" and "kpool (s_kheap s) A" and "kfits (s_kheap s) SIZEOF_LWT"
    and "set (p # xs) \<inter> A = {}"
  obtains t k where "kalloc (s_kheap s) SIZEOF_LWT = Inr (t, k)" and "0 < t"
    and "block t SIZEOF_LWT \<subseteq> A" and "kpool k (A - block t SIZEOF_LWT)" and "t \<notin> set (p # xs)"
proof -
  have n: "0 < SIZEOF_LWT" "SIZEOF_LWT \<le> PAGESIZE" by (simp_all add: SIZEOF_LWT_def PAGESIZE_def)
  from kp.alloc_fits [OF assms(2) n assms(3)] obtain t k where
    t: "kalloc (s_kheap s) SIZEOF_LWT = Inr (t, k)" "0 < t" "block t SIZEOF_LWT \<subseteq> A"
      "kpool k (A - block t SIZEOF_LWT)" by blast
  moreover have "t \<in> block t SIZEOF_LWT" using n(1) by simp
  ultimately show thesis using that assms(4) by blast
qed

definition fresh_lwt :: "addr \<Rightarrow> addr \<Rightarrow> addr \<Rightarrow> lwt_flags \<Rightarrow> 'z lwt_sys_scheme \<Rightarrow> lwt" where
  "fresh_lwt t fn data fl s = (s_lwt s t)\<lparr>l_tid := lwt_tid_counter s + 1, l_ip := Trampoline,
     l_sp := t + OFFSET_STACK + STACK_SIZE, l_state := RUNNABLE,
     l_fn := fn, l_data := data, l_flag := fl\<rparr>"

lemma lwt_create_runs:
  assumes "runq s (p # xs)" and "kalloc (s_kheap s) SIZEOF_LWT = Inr (t, k)" and "0 < t"
    and "t \<notin> set (p # xs)"
  obtains s' where "lwt_create fn data fl s = Inr (t, s')"
    and "runq s' (p # xs @ [t])" and "s_lwt s' = (s_lwt s)(t := fresh_lwt t fn data fl s)"
    and "s_kheap s' = k" and "n_runnable s' = n_runnable s + 1" and "n_zombies s' = n_zombies s + 1"
    and "n_blocked s' = n_blocked s" and "lwt_tid_counter s' = lwt_tid_counter s + 1"
    and "esp s' = esp s"
proof -
  from assms(1) have r: "ring (s_links s) (p # xs)" "current_thread s = p" by (simp_all add: runq_def)
  let ?s = "(s\<lparr>s_lwt := (s_lwt s)(t := fresh_lwt t fn data fl s)\<rparr>)\<lparr>s_kheap := k,
      lwt_tid_counter := lwt_tid_counter s + 1, n_runnable := n_runnable s + 1,
      n_zombies := n_zombies s + 1,
      s_links := ps_list_ll_add (ps_list_prev (current_thread s) (s_links s)) t (s_links s)\<rparr>"
  have "lwt_create fn data fl s = Inr (t, ?s)"
    using assms(2,3) by (simp add: lwt_create_def Let_def upd_lwt_def fresh_lwt_def)
  then show thesis
    by (rule that) (use ring_append [OF r(1) assms(4)] r in
      \<open>simp_all add: runq_def ps_list_prev_def del: ring.simps\<close>)
qed

subsection \<open>Reaping and the join loop\<close>

lemma lwt_join_loop_out [simp]:
  "cur_state s \<noteq> BLOCKED \<Longrightarrow> lwt_join_loop t s = Some (Inr (Returned (), s))"
  by (subst lwt_join_loop.simps) simp

lemma lwt_join_loop_switch:
  assumes "cur_state s = BLOCKED" and "ready s t" and "t \<noteq> NULL" and "t \<noteq> current_thread s"
  shows "lwt_join_loop t s = Some (Inr (Switched, lwt_dispatch t (current_thread s)
    (s\<lparr>n_runnable := n_runnable s - 1, n_blocked := n_blocked s + 1, current_thread := t\<rparr>)))"
  using assms by (subst lwt_join_loop.simps) (simp add: lwt_yield_def Let_def)

lemma lwt_join_loop_stuck_aux:
  assumes "lwt_join_loop t s = Some r"
  shows "\<not> (cur_state s = BLOCKED \<and> t \<noteq> NULL \<and> \<not> ready s t)"
proof (rule lwt_join_loop.raw_induct
    [where P = "\<lambda>t s r. \<not> (cur_state s = BLOCKED \<and> t \<noteq> NULL \<and> \<not> ready s t)", OF _ assms])
  fix f t and s :: "'a lwt_sys_scheme" and r
  assume IH: "\<And>t s r. f t s = Some r \<Longrightarrow> \<not> (cur_state s = BLOCKED \<and> t \<noteq> NULL \<and> \<not> ready s t)"
    and eq: "(if cur_state s = BLOCKED then
        let s1 = s\<lparr>n_runnable := n_runnable s - 1, n_blocked := n_blocked s + 1\<rparr> in
        (case lwt_yield t s1 of
           Inl e \<Rightarrow> Some (Inl e)
         | Inr (r, s2) \<Rightarrow> (case r of
             Switched \<Rightarrow> Some (Inr (Switched, s2))
           | Returned _ \<Rightarrow> f t s2))
      else Some (Inr (Returned (), s))) = Some r"
  let ?s1 = "s\<lparr>n_runnable := n_runnable s - 1, n_blocked := n_blocked s + 1\<rparr>"
  show "\<not> (cur_state s = BLOCKED \<and> t \<noteq> NULL \<and> \<not> ready s t)"
  proof
    assume a: "cur_state s = BLOCKED \<and> t \<noteq> NULL \<and> \<not> ready s t"
    then have "lwt_yield t ?s1 = Inr (Returned (), ?s1)" by (simp add: lwt_yield_def)
    with eq a have "f t ?s1 = Some r" by (simp add: Let_def)
    from IH [OF this] a show False by simp
  qed
qed

lemma lwt_reap_runs:
  assumes "runq s (us @ t # vs)" and "us \<noteq> []" and "kpool (s_kheap s) A" and "0 < t"
    and "block t SIZEOF_LWT \<inter> A = {}"
  obtains k s' where "lwt_reap t s = Inr (Returned (l_ret (s_lwt s t)), s')"
    and "s' = s\<lparr>s_links := ps_list_ll_rem t (s_links s), s_kheap := k\<rparr>"
    and "kpool k (A \<union> block t SIZEOF_LWT)" and "runq s' (us @ vs)"
proof -
  have n: "0 < SIZEOF_LWT" "SIZEOF_LWT \<le> PAGESIZE" by (simp_all add: SIZEOF_LWT_def PAGESIZE_def)
  from kp.free_ok [OF assms(3,4) n assms(5)] obtain k where
    k: "kfree (s_kheap s) t SIZEOF_LWT = Inr k" "kpool k (A \<union> block t SIZEOF_LWT)" by blast
  from assms(1,2) have "ring (ps_list_ll_rem t (s_links s)) (us @ vs)"
    using ring_rem [of "s_links s" us t vs] by (simp add: runq_def del: ring.simps)
  with k assms(1,2) show thesis
    by (intro that [of "s\<lparr>s_links := ps_list_ll_rem t (s_links s), s_kheap := k\<rparr>" k])
      (simp_all add: lwt_reap_def Let_def runq_def del: ring.simps)
qed


subsection \<open>From the death of a thread to the return of its joiner\<close>

lemma lwt_join_switches:
  assumes "runq s (p # us @ t # vs)" and "ready s t" and "l_flag (s_lwt s t) = LWT_DEFAULT"
    and "t \<noteq> NULL"
  obtains s' where "lwt_join t s = Inr (Switched, s')" and "runq s' (t # vs @ p # us)"
    and "l_joinedfrom (s_lwt s' t) = p" and "l_state (s_lwt s' p) = BLOCKED"
    and "l_ip (s_lwt s' p) = AfterSwitch" and "l_sp (s_lwt s' p) = esp s - PUSHAL_BYTES"
    and "eip s' = l_ip (s_lwt s t)" and "l_ip (s_lwt s t) \<noteq> AfterSwitch \<Longrightarrow> esp s' = l_sp (s_lwt s t)"
    and "l_fn (s_lwt s' t) = l_fn (s_lwt s t)" and "l_data (s_lwt s' t) = l_data (s_lwt s t)"
    and "l_flag (s_lwt s' t) = LWT_DEFAULT" and "s_kheap s' = s_kheap s"
    and "n_runnable s' = n_runnable s - 1" and "n_blocked s' = n_blocked s + 1"
    and "n_zombies s' = n_zombies s" and "\<forall>u. u \<notin> {t, p} \<longrightarrow> s_lwt s' u = s_lwt s u"
proof -
  from assms(1) have cur: "current_thread s = p" and ne: "p \<noteq> t" by (auto simp: runq_def)
  let ?j = "upd_lwt p (\<lambda>l. l\<lparr>l_state := BLOCKED\<rparr>)
     (upd_lwt t (\<lambda>l. l\<lparr>l_joinedfrom := p\<rparr>) (upd_lwt p (\<lambda>l. l\<lparr>l_joiningto := t\<rparr>) s))"
  let ?k = "?j\<lparr>n_runnable := n_runnable ?j - 1, n_blocked := n_blocked ?j + 1\<rparr>"
  let ?d = "lwt_dispatch t p (?k\<lparr>current_thread := t\<rparr>)"
  have "lwt_join_loop t ?j = Some (Inr (Switched, ?d))"
    using lwt_join_loop_switch [of ?j t] assms ne cur by simp
  then have "lwt_join t s = Inr (Switched, ?d)"
    using assms ne cur by (simp add: lwt_join_def lwt_join_resume_def Let_def)
  moreover have "runq ?d (t # vs @ p # us)"
    using runq_directed [of ?k "p # us" t vs] assms(1) by simp
  ultimately show thesis
    by (rule that) (use ne assms(3) in \<open>simp_all add: lwt_dispatch_def Let_def\<close>)
qed

lemma lwt_die_default:
  assumes "current_thread s = t" and "l_flag (s_lwt s t) = LWT_DEFAULT" and "t \<noteq> l_joinedfrom (s_lwt s t)"
  obtains s1 where "lwt_die v s = lwt_schedule s1" and "s_links s1 = s_links s"
    and "s_kheap s1 = s_kheap s" and "current_thread s1 = t" and "n_runnable s1 = n_runnable s"
    and "n_blocked s1 = n_blocked s" and "n_zombies s1 = n_zombies s" and "esp s1 = esp s"
    and "s_lwt s1 = (let m = (s_lwt s)(t := (s_lwt s t)\<lparr>l_state := DEAD, l_ret := v\<rparr>);
                         p = l_joinedfrom (s_lwt s t)
                     in if p = NULL then m else m(p := (m p)\<lparr>l_state := RUNNABLE\<rparr>))"
proof -
  let ?p = "l_joinedfrom (s_lwt s t)"
  let ?s1 = "upd_lwt t (\<lambda>l. l\<lparr>l_state := DEAD\<rparr>) s"
  let ?s2 = "if ?p \<noteq> NULL then upd_lwt ?p (\<lambda>l. l\<lparr>l_state := RUNNABLE\<rparr>) ?s1 else ?s1"
  let ?s3 = "upd_lwt t (\<lambda>l. l\<lparr>l_ret := v\<rparr>) ?s2"
  show thesis
    by (rule that [of ?s3]) (use assms in \<open>auto simp: lwt_die_def Let_def fun_upd_twist\<close>)
qed

lemma lwt_die_to_joiner:
  assumes "runq s (t # us @ p # vs)" and "\<forall>u\<in>set us. \<not> ready s u"
    and "l_flag (s_lwt s t) = LWT_DEFAULT" and "l_joinedfrom (s_lwt s t) = p" and "p \<noteq> NULL"
    and "n_runnable s \<noteq> 0"
  obtains s' where "lwt_die v s = Inr (Switched, s')" and "runq s' (p # vs @ t # us)"
    and "l_state (s_lwt s' t) = DEAD" and "l_ret (s_lwt s' t) = v" and "ready s' p"
    and "s_kheap s' = s_kheap s" and "n_runnable s' = n_runnable s"
    and "n_blocked s' = n_blocked s" and "n_zombies s' = n_zombies s"
    and "eip s' = l_ip (s_lwt s p)"
    and "l_ip (s_lwt s p) = AfterSwitch \<Longrightarrow> esp s' = l_sp (s_lwt s p) + PUSHAL_BYTES"
    and "\<forall>u. u \<notin> {t, p} \<longrightarrow> s_lwt s' u = s_lwt s u"
proof -
  from assms(1) have d: "t \<noteq> p" "p \<notin> set us" "t \<notin> set us" "t \<notin> set vs" "current_thread s = t"
    using ring_distinct [OF runq_ring [OF assms(1)]] by (auto simp: runq_def)
  from lwt_die_default [OF d(5) assms(3), of v] assms(4) d(1) obtain s1 where
    s1: "lwt_die v s = lwt_schedule s1" "s_links s1 = s_links s" "s_kheap s1 = s_kheap s"
      "current_thread s1 = t" "n_runnable s1 = n_runnable s" "n_blocked s1 = n_blocked s"
      "n_zombies s1 = n_zombies s" "esp s1 = esp s"
    and m: "s_lwt s1 = (s_lwt s)(t := (s_lwt s t)\<lparr>l_state := DEAD, l_ret := v\<rparr>,
                                 p := (s_lwt s p)\<lparr>l_state := RUNNABLE\<rparr>)"
    using assms(5) by (auto simp: Let_def)
  have q: "runq s1 (t # us @ p # vs)" using assms(1) s1(2,4) by (simp add: runq_def)
  have nr: "\<forall>u\<in>set us. \<not> ready s1 u" using assms(2) m d by auto
  have "ready s1 p" "n_runnable s1 \<noteq> 0" using m d(1) s1(5) assms(6) by auto
  from lwt_schedule_switch [OF q nr this] s1(1) have
    "lwt_die v s = Inr (Switched, lwt_dispatch p t (s1\<lparr>current_thread := p\<rparr>))" by simp
  then show thesis
    by (rule that [OF _ runq_switch [OF q]])
      (use m d(1) s1 in \<open>auto simp: lwt_dispatch_def Let_def\<close>)
qed

lemma lwt_join_resume_dead:
  assumes "runq s (p # xs @ t # ys)" and "ready s p" and "kpool (s_kheap s) A" and "0 < t"
    and "block t SIZEOF_LWT \<inter> A = {}"
  obtains s' where "lwt_join_resume t s = Inr (Returned (l_ret (s_lwt s t)), s')"
    and "runq s' (p # xs @ ys)" and "kpool (s_kheap s') (A \<union> block t SIZEOF_LWT)"
    and "s_lwt s' = s_lwt s" and "n_runnable s' = n_runnable s"
    and "n_blocked s' = n_blocked s - 1" and "n_zombies s' = n_zombies s - 1"
proof -
  let ?s = "s\<lparr>n_runnable := n_runnable s + 1, n_blocked := n_blocked s - 1\<rparr>"
  let ?t = "?s\<lparr>n_runnable := n_runnable ?s - 1, n_zombies := n_zombies ?s - 1\<rparr>"
  have c: "current_thread s = p" using assms(1) by (simp add: runq_def)
  have q: "runq ?t ((p # xs) @ t # ys)" using assms(1) by (simp add: runq_def)
  have "kpool (s_kheap ?t) A" using assms(3) by simp
  from lwt_reap_runs [OF q _ this assms(4,5)] obtain k s' where
    r: "lwt_reap t ?t = Inr (Returned (l_ret (s_lwt ?t t)), s')"
      "s' = ?t\<lparr>s_links := ps_list_ll_rem t (s_links ?t), s_kheap := k\<rparr>"
      "kpool k (A \<union> block t SIZEOF_LWT)" "runq s' ((p # xs) @ ys)" by blast
  show thesis
    by (rule that [of s']) (use c r assms(2) in
      \<open>simp_all add: lwt_join_resume_def Let_def\<close>)
qed

subsection \<open>The counters\<close>

definition balance :: "'z lwt_sys_scheme \<Rightarrow> int" where
  "balance s = n_runnable s + n_blocked s - n_zombies s"

lemma balance_updates [simp]:
  "balance (upd_lwt t f s) = balance s" "balance (lwt_dispatch a b s) = balance s"
  "balance (s\<lparr>current_thread := c\<rparr>) = balance s" "balance (s\<lparr>s_links := l\<rparr>) = balance s"
  "balance (s\<lparr>s_kheap := k\<rparr>) = balance s"
  by (simp_all add: balance_def)

lemma lwt_schedule_balance [keeps]: "lwt_schedule s = Inr (r, s') \<Longrightarrow> balance s' = balance s"
  by (auto simp: lwt_schedule_def rbind_eq_Inr Let_def split: if_splits)

lemma lwt_yield_balance [keeps]: "lwt_yield t s = Inr (r, s') \<Longrightarrow> balance s' = balance s"
  by (auto simp: lwt_yield_def Let_def lwt_schedule_balance split: if_splits)

lemma lwt_reap_balance [keeps]: "lwt_reap t s = Inr (r, s') \<Longrightarrow> balance s' = balance s"
  by (auto simp: lwt_reap_def rbind_eq_Inr Let_def)

lemma lwt_join_loop_balance:
  assumes "lwt_join_loop t s = Some r"
  shows "\<forall>x s'. r = Inr (x, s') \<longrightarrow> balance s' = balance s"
proof (rule lwt_join_loop.raw_induct
    [where P = "\<lambda>t s r. \<forall>x s'. r = Inr (x, s') \<longrightarrow> balance s' = balance s", OF _ assms])
  fix f t and s :: "'a lwt_sys_scheme" and r
  assume IH: "\<And>t s r. f t s = Some r \<Longrightarrow> \<forall>x s'. r = Inr (x, s') \<longrightarrow> balance s' = balance s"
    and eq: "(if cur_state s = BLOCKED then
        let s1 = s\<lparr>n_runnable := n_runnable s - 1, n_blocked := n_blocked s + 1\<rparr> in
        (case lwt_yield t s1 of
           Inl e \<Rightarrow> Some (Inl e)
         | Inr (r, s2) \<Rightarrow> (case r of
             Switched \<Rightarrow> Some (Inr (Switched, s2))
           | Returned _ \<Rightarrow> f t s2))
      else Some (Inr (Returned (), s))) = Some r"
  let ?s1 = "s\<lparr>n_runnable := n_runnable s - 1, n_blocked := n_blocked s + 1\<rparr>"
  have b: "balance ?s1 = balance s" by (simp add: balance_def)
  show "\<forall>x s'. r = Inr (x, s') \<longrightarrow> balance s' = balance s"
    using eq b IH lwt_yield_balance [of t ?s1]
    by (auto simp: Let_def split: if_splits sum.splits outcome.splits)
qed

lemma lwt_join_resume_balance [keeps]:
  assumes "lwt_join_resume t s = Inr (r, s')"
  shows "balance s' = balance s"
proof -
  from assms obtain x s1 where l: "lwt_join_loop t s = Some (Inr (x, s1))"
    and k: "(case x of Switched \<Rightarrow> Inr (Switched, s1)
      | Returned _ \<Rightarrow>
          let s2 = s1\<lparr>n_runnable := n_runnable s1 + 1, n_blocked := n_blocked s1 - 1\<rparr>;
              s3 = s2\<lparr>n_runnable := n_runnable s2 - 1, n_zombies := n_zombies s2 - 1\<rparr>
          in lwt_reap t s3) = Inr (r, s')"
    by (auto simp: lwt_join_resume_def rbind_eq_Inr id_def)
  from k have "balance s' = balance s1"
    by (cases x) (auto dest!: lwt_reap_balance simp: balance_def Let_def)
  with lwt_join_loop_balance [OF l] show ?thesis by simp
qed

subsection \<open>Properties\<close>

text \<open>\<open>lwt_create\<close> puts a RUNNABLE thread at the end of the run queue (the last to run), in
  a block of its own taken from the pool, set to start in the trampoline on the top of its own
  stack; it changes no other thread and does not switch.\<close>

theorem lwt_create_appends:
  assumes "runq s (p # xs)" and "kpool (s_kheap s) A" and "kfits (s_kheap s) SIZEOF_LWT"
    and "set (p # xs) \<inter> A = {}"
  shows "\<exists>t s'. lwt_create fn data fl s = Inr (t, s') \<and> runq s' (p # xs @ [t]) \<and>
    block t SIZEOF_LWT \<subseteq> A \<and> kpool (s_kheap s') (A - block t SIZEOF_LWT) \<and>
    s_lwt s' = (s_lwt s)(t := fresh_lwt t fn data fl s) \<and>
    {l_sp (s_lwt s' t) - STACK_SIZE..<l_sp (s_lwt s' t)} \<subseteq> block t SIZEOF_LWT \<and>
    n_runnable s' = n_runnable s + 1 \<and> n_zombies s' = n_zombies s + 1"
proof -
  from lwt_create_pool [OF assms] obtain t k where
    t: "kalloc (s_kheap s) SIZEOF_LWT = Inr (t, k)" "0 < t" "block t SIZEOF_LWT \<subseteq> A"
      "kpool k (A - block t SIZEOF_LWT)" "t \<notin> set (p # xs)" .
  from lwt_create_runs [OF assms(1) t(1,2,5), of fn data fl] obtain s' where
    "lwt_create fn data fl s = Inr (t, s')" "runq s' (p # xs @ [t])"
    "s_lwt s' = (s_lwt s)(t := fresh_lwt t fn data fl s)" "s_kheap s' = k"
    "n_runnable s' = n_runnable s + 1" "n_zombies s' = n_zombies s + 1" by blast
  with t show ?thesis
    by (intro exI [of _ t] exI [of _ s'])
      (auto simp: fresh_lwt_def OFFSET_STACK_def STACK_SIZE_def SIZEOF_LWT_def)
qed

lemma sys_ex_pool:
  "kpool (s_kheap sys_ex) (block 4096 8000)" "kfits (s_kheap sys_ex) SIZEOF_LWT"
  "set [100, 200, 300] \<inter> block 4096 8000 = {}"
proof -
  have f: "free_list (s_kheap sys_ex) [(4096, 8000)]"
    by (simp add: free_list_def sys_ex_def pool_ex_def)
  from kpool_list [OF f] show "kpool (s_kheap sys_ex) (block 4096 8000)" by simp
  from kfits_list [OF f] show "kfits (s_kheap sys_ex) SIZEOF_LWT" by (simp add: SIZEOF_LWT_def)
  show "set [100, 200, 300] \<inter> block 4096 8000 = {}" by simp
qed

theorem lwt_create_appends_witness:
  "\<exists>t s'. lwt_create 7 8 LWT_DEFAULT sys_ex = Inr (t, s') \<and> runq s' (100 # [200, 300] @ [t]) \<and>
    block t SIZEOF_LWT \<subseteq> block 4096 8000 \<and>
    kpool (s_kheap s') (block 4096 8000 - block t SIZEOF_LWT) \<and>
    s_lwt s' = (s_lwt sys_ex)(t := fresh_lwt t 7 8 LWT_DEFAULT sys_ex) \<and>
    {l_sp (s_lwt s' t) - STACK_SIZE..<l_sp (s_lwt s' t)} \<subseteq> block t SIZEOF_LWT \<and>
    n_runnable s' = n_runnable sys_ex + 1 \<and> n_zombies s' = n_zombies sys_ex + 1"
  by (rule lwt_create_appends [OF sys_ex_runq sys_ex_pool])


text \<open>C1: fork and join, end to end. From any run queue, the current thread creates a thread and
  joins it: \<open>lwt_join\<close> blocks the caller and switches straight to the new thread, which starts in
  the trampoline on its own stack; when the new thread's function returns \<open>v\<close> (the trampoline
  calls \<open>lwt_die\<close>), the parent continues where it was suspended, on the stack it had,
  and \<open>lwt_join\<close> returns \<open>v\<close>. The run queue, the pool's free bytes and all the counters are
  then what they were before, and no other thread was touched.\<close>

theorem fork_join:
  assumes "runq s (p # xs)" and "kpool (s_kheap s) A" and "kfits (s_kheap s) SIZEOF_LWT"
    and "set (p # xs) \<inter> A = {}" and "p \<noteq> NULL" and "n_runnable s \<noteq> 0"
  shows "\<exists>t s1 s2 s3 s4. lwt_create fn d LWT_DEFAULT s = Inr (t, s1) \<and>
    lwt_join t s1 = Inr (Switched, s2) \<and>
    current_thread s2 = t \<and> eip s2 = Trampoline \<and> esp s2 = t + OFFSET_STACK + STACK_SIZE \<and>
    l_fn (s_lwt s2 t) = fn \<and> l_data (s_lwt s2 t) = d \<and>
    lwt_die v s2 = Inr (Switched, s3) \<and>
    current_thread s3 = p \<and> eip s3 = AfterSwitch \<and> esp s3 = esp s \<and>
    lwt_join_resume t s3 = Inr (Returned v, s4) \<and>
    runq s4 (p # xs) \<and> kpool (s_kheap s4) A \<and> ready s4 p \<and>
    n_runnable s4 = n_runnable s \<and> n_blocked s4 = n_blocked s \<and> n_zombies s4 = n_zombies s \<and>
    (\<forall>u. u \<notin> {t, p} \<longrightarrow> s_lwt s4 u = s_lwt s u)"
proof -
  from lwt_create_pool [OF assms(1-4)] obtain t k where
    t: "kalloc (s_kheap s) SIZEOF_LWT = Inr (t, k)" "0 < t" "block t SIZEOF_LWT \<subseteq> A"
      "kpool k (A - block t SIZEOF_LWT)" "t \<notin> set (p # xs)" .
  from lwt_create_runs [OF assms(1) t(1,2,5), of fn d LWT_DEFAULT] obtain s1 where
    c: "lwt_create fn d LWT_DEFAULT s = Inr (t, s1)" "runq s1 (p # xs @ [t])"
      "s_lwt s1 = (s_lwt s)(t := fresh_lwt t fn d LWT_DEFAULT s)" "s_kheap s1 = k"
      "n_runnable s1 = n_runnable s + 1" "n_zombies s1 = n_zombies s + 1"
      "n_blocked s1 = n_blocked s" "esp s1 = esp s" by blast
  have ft: "ready s1 t" "l_flag (s_lwt s1 t) = LWT_DEFAULT" "l_ip (s_lwt s1 t) = Trampoline"
    "l_sp (s_lwt s1 t) = t + OFFSET_STACK + STACK_SIZE" "l_fn (s_lwt s1 t) = fn" "l_data (s_lwt s1 t) = d"
    by (simp_all add: c(3) fresh_lwt_def)
  from lwt_join_switches [OF c(2) ft(1,2)] t(2) obtain s2 where
    j: "lwt_join t s1 = Inr (Switched, s2)" "runq s2 (t # [] @ p # xs)"
      "l_joinedfrom (s_lwt s2 t) = p" "l_ip (s_lwt s2 p) = AfterSwitch"
      "l_sp (s_lwt s2 p) = esp s1 - PUSHAL_BYTES" "eip s2 = Trampoline"
      "esp s2 = t + OFFSET_STACK + STACK_SIZE" "l_fn (s_lwt s2 t) = fn" "l_data (s_lwt s2 t) = d"
      "l_flag (s_lwt s2 t) = LWT_DEFAULT" "s_kheap s2 = s_kheap s1"
      "n_runnable s2 = n_runnable s1 - 1" "n_blocked s2 = n_blocked s1 + 1"
      "n_zombies s2 = n_zombies s1" "\<forall>u. u \<notin> {t, p} \<longrightarrow> s_lwt s2 u = s_lwt s1 u"
    using ft by auto
  have "n_runnable s2 \<noteq> 0" using assms(6) j(12) c(5) by simp
  from lwt_die_to_joiner [OF j(2) _ j(10,3) assms(5) this, of v] obtain s3 where
    e: "lwt_die v s2 = Inr (Switched, s3)" "runq s3 (p # xs @ t # [])" "l_ret (s_lwt s3 t) = v"
      "ready s3 p" "s_kheap s3 = k" "n_runnable s3 = n_runnable s" "n_blocked s3 = n_blocked s + 1"
      "n_zombies s3 = n_zombies s + 1" "eip s3 = AfterSwitch" "esp s3 = esp s"
      "\<forall>u. u \<notin> {t, p} \<longrightarrow> s_lwt s3 u = s_lwt s2 u"
    using j c by auto
  have kp3: "kpool (s_kheap s3) (A - block t SIZEOF_LWT)" using t(4) e(5) by simp
  have "block t SIZEOF_LWT \<inter> (A - block t SIZEOF_LWT) = {}" by blast
  from lwt_join_resume_dead [OF e(2,4) kp3 t(2) this] obtain s4 where
    f: "lwt_join_resume t s3 = Inr (Returned v, s4)" "runq s4 (p # xs @ [])"
      "kpool (s_kheap s4) (A - block t SIZEOF_LWT \<union> block t SIZEOF_LWT)" "s_lwt s4 = s_lwt s3"
      "n_runnable s4 = n_runnable s3" "n_blocked s4 = n_blocked s3 - 1"
      "n_zombies s4 = n_zombies s3 - 1" using e(3) by blast
  have A: "A - block t SIZEOF_LWT \<union> block t SIZEOF_LWT = A" using t(3) by blast
  have "\<forall>u. u \<notin> {t, p} \<longrightarrow> s_lwt s4 u = s_lwt s u" using e(11) j(15) f(4) c(3) by auto
  with c(1) j(1,6-9) e f A runq_cur [OF j(2)] runq_cur [OF e(2)] show ?thesis
    by (intro exI [of _ t] exI [of _ s1] exI [of _ s2] exI [of _ s3] exI [of _ s4]) simp
qed

theorem fork_join_witness:
  "\<exists>t s1 s2 s3 s4. lwt_create 7 8 LWT_DEFAULT sys_ex = Inr (t, s1) \<and>
    lwt_join t s1 = Inr (Switched, s2) \<and>
    current_thread s2 = t \<and> eip s2 = Trampoline \<and> esp s2 = t + OFFSET_STACK + STACK_SIZE \<and>
    l_fn (s_lwt s2 t) = 7 \<and> l_data (s_lwt s2 t) = 8 \<and>
    lwt_die 42 s2 = Inr (Switched, s3) \<and>
    current_thread s3 = 100 \<and> eip s3 = AfterSwitch \<and> esp s3 = esp sys_ex \<and>
    lwt_join_resume t s3 = Inr (Returned 42, s4) \<and>
    runq s4 [100, 200, 300] \<and> kpool (s_kheap s4) (block 4096 8000) \<and> ready s4 100 \<and>
    n_runnable s4 = n_runnable sys_ex \<and> n_blocked s4 = n_blocked sys_ex \<and>
    n_zombies s4 = n_zombies sys_ex"
  using fork_join [OF sys_ex_runq sys_ex_pool, of 7 8 42] by (auto simp: sys_ex_def) 


text \<open>Joining a thread that has already finished returns its value at once, without a switch:
  the thread leaves the run queue, its block goes back to the pool, and it is no longer
  counted.\<close>

theorem lwt_join_dead:
  assumes "runq s (p # us @ t # vs)" and "l_state (s_lwt s t) = DEAD"
    and "l_flag (s_lwt s t) = LWT_DEFAULT" and "kpool (s_kheap s) A" and "0 < t"
    and "block t SIZEOF_LWT \<inter> A = {}"
  shows "\<exists>s'. lwt_join t s = Inr (Returned (l_ret (s_lwt s t)), s') \<and> runq s' (p # us @ vs) \<and>
    kpool (s_kheap s') (A \<union> block t SIZEOF_LWT) \<and> n_runnable s' = n_runnable s - 1 \<and>
    n_zombies s' = n_zombies s - 1 \<and> (\<forall>u. l_state (s_lwt s' u) = l_state (s_lwt s u))"
proof -
  from assms(1) have cur: "current_thread s = p" and ne: "p \<noteq> t" by (auto simp: runq_def)
  let ?s2 = "upd_lwt t (\<lambda>l. l\<lparr>l_joinedfrom := p\<rparr>) (upd_lwt p (\<lambda>l. l\<lparr>l_joiningto := t\<rparr>) s)"
  let ?s3 = "?s2\<lparr>n_zombies := n_zombies ?s2 - 1, n_runnable := n_runnable ?s2 - 1\<rparr>"
  have "runq ?s3 ((p # us) @ t # vs)" "kpool (s_kheap ?s3) A" using assms(1,4) by simp_all
  from lwt_reap_runs [OF this(1) _ this(2) assms(5,6)] obtain k s' where
    r: "lwt_reap t ?s3 = Inr (Returned (l_ret (s_lwt ?s3 t)), s')"
      "s' = ?s3\<lparr>s_links := ps_list_ll_rem t (s_links ?s3), s_kheap := k\<rparr>"
      "kpool k (A \<union> block t SIZEOF_LWT)" "runq s' ((p # us) @ vs)" by blast
  have "lwt_join t s = lwt_reap t ?s3" using assms cur ne by (simp add: lwt_join_def Let_def)
  with r ne show ?thesis by (intro exI [of _ s']) simp
qed

definition dead_ex :: lwt_sys where
  "dead_ex = upd_lwt 300 (\<lambda>l. l\<lparr>l_state := DEAD, l_ret := 9\<rparr>) sys_ex"

theorem lwt_join_dead_witness:
  "\<exists>s'. lwt_join 300 dead_ex = Inr (Returned (l_ret (s_lwt dead_ex 300)), s') \<and>
    runq s' (100 # [200] @ []) \<and>
    kpool (s_kheap s') (block 4096 8000 \<union> block 300 SIZEOF_LWT) \<and>
    n_runnable s' = n_runnable dead_ex - 1 \<and> n_zombies s' = n_zombies dead_ex - 1 \<and>
    (\<forall>u. l_state (s_lwt s' u) = l_state (s_lwt dead_ex u))"
proof (rule lwt_join_dead)
  show "runq dead_ex (100 # [200] @ 300 # [])" using sys_ex_runq by (simp add: dead_ex_def)
  show "kpool (s_kheap dead_ex) (block 4096 8000)" using sys_ex_pool(1) by (simp add: dead_ex_def)
  show "block 300 SIZEOF_LWT \<inter> block 4096 8000 = {}" by (auto simp: SIZEOF_LWT_def)
qed (simp_all add: dead_ex_def sys_ex_def lwt_ex_def)

text \<open>C37: joining a thread that is alive but not RUNNABLE (blocked in a channel, say) never
  returns and never switches: the directed yield of the waiting loop is ignored by
  \<open>lwt_yield\<close>, no other thread gets to run, and the loop spins for ever.\<close>

theorem lwt_join_blocked_target_livelocks:
  assumes "t \<noteq> NULL" and "t \<noteq> current_thread s" and "l_flag (s_lwt s t) = LWT_DEFAULT"
    and "l_state (s_lwt s t) \<in> {BLOCKED, WAITING}"
  shows "lwt_join t s = Inl Diverges"
proof -
  let ?me = "current_thread s"
  let ?j = "upd_lwt ?me (\<lambda>l. l\<lparr>l_state := BLOCKED\<rparr>)
     (upd_lwt t (\<lambda>l. l\<lparr>l_joinedfrom := ?me\<rparr>) (upd_lwt ?me (\<lambda>l. l\<lparr>l_joiningto := t\<rparr>) s))"
  have "\<not> ready ?j t" "cur_state ?j = BLOCKED" using assms by auto
  with assms(1) have "lwt_join_loop t ?j = None"
    using lwt_join_loop_stuck_aux [of t ?j] by (cases "lwt_join_loop t ?j") auto
  then show ?thesis using assms by (auto simp: lwt_join_def lwt_join_resume_def Let_def)
qed

theorem lwt_join_blocked_target_livelocks_witness:
  "lwt_join 200 sys_ex = Inl Diverges"
  by (rule lwt_join_blocked_target_livelocks) (simp_all add: sys_ex_def lwt_ex_def)

lemma lwt_die_nojoin_runs:
  assumes "runq s (t # us @ z # vs)" and "\<forall>u\<in>set us. \<not> ready s u" and "ready s z"
    and "l_flag (s_lwt s t) = LWT_NOJOIN"
  obtains s1 where "lwt_die v s = Inr (Switched, lwt_dispatch z t s1)"
    and "s1 = s\<lparr>current_thread := z, s_links := ps_list_ll_rem t (s_links s)\<rparr>"
    and "runq (lwt_dispatch z t s1) (z # vs @ us)" and "t \<noteq> z"
proof -
  from assms(1) have d: "t \<noteq> z" "current_thread s = t" by (auto simp: runq_def)
  from assms(1) have "ring (s_links s) (([] @ t # us) @ z # vs)" by (simp add: runq_def)
  then have "ring (ps_list_ll_rem t (s_links s)) ([] @ us @ z # vs)"
    using ring_rem [of "s_links s" "[]" t "us @ z # vs"] by simp
  then have "ring (ps_list_ll_rem t (s_links s)) ((z # vs) @ us)"
    using ring_rotate [of _ us "z # vs"] by simp
  moreover have "next_runnable s = Some z" by (rule next_runnable_hit [OF assms(1-3)])
  ultimately show thesis using d assms(4)
    by (intro that [of "s\<lparr>current_thread := z, s_links := ps_list_ll_rem t (s_links s)\<rparr>"])
      (simp_all add: lwt_die_def Let_def runq_def del: ring.simps)
qed

text \<open>A thread created with LWT_NOJOIN is taken off the run queue when it dies, and the next
  RUNNABLE thread runs; but no counter changes and its block never returns to the pool: the
  library keeps counting it as runnable and as a zombie.\<close>

theorem lwt_die_nojoin:
  assumes "runq s (t # us @ z # vs)" and "\<forall>u\<in>set us. \<not> ready s u" and "ready s z"
    and "l_flag (s_lwt s t) = LWT_NOJOIN"
  shows "\<exists>s'. lwt_die v s = Inr (Switched, s') \<and> runq s' (z # vs @ us) \<and>
    eip s' = l_ip (s_lwt s z) \<and> s_kheap s' = s_kheap s \<and> n_runnable s' = n_runnable s \<and>
    n_zombies s' = n_zombies s"
proof -
  obtain s1 where "lwt_die v s = Inr (Switched, lwt_dispatch z t s1)"
    "s1 = s\<lparr>current_thread := z, s_links := ps_list_ll_rem t (s_links s)\<rparr>"
    "runq (lwt_dispatch z t s1) (z # vs @ us)" "t \<noteq> z" by (rule lwt_die_nojoin_runs [OF assms])
  then show ?thesis by (simp add: lwt_dispatch_def Let_def)
qed

definition nojoin_ex :: lwt_sys where
  "nojoin_ex = upd_lwt 100 (\<lambda>l. l\<lparr>l_flag := LWT_NOJOIN\<rparr>) sys_ex"

theorem lwt_die_nojoin_witness:
  "\<exists>s'. lwt_die 5 nojoin_ex = Inr (Switched, s') \<and> runq s' (300 # [] @ [200]) \<and>
    eip s' = l_ip (s_lwt nojoin_ex 300) \<and> s_kheap s' = s_kheap nojoin_ex \<and>
    n_runnable s' = n_runnable nojoin_ex \<and> n_zombies s' = n_zombies nojoin_ex"
proof (rule lwt_die_nojoin)
  show "runq nojoin_ex (100 # [200] @ 300 # [])" using sys_ex_runq by (simp add: nojoin_ex_def)
qed (simp_all add: nojoin_ex_def sys_ex_def lwt_ex_def)

text \<open>C24: a recycled block keeps the join relation of the thread that lived there before. After
  \<open>lwt_create\<close> hands such a block out, the death of the new thread (never joined) makes the
  former joiner RUNNABLE, even though that thread is blocked on something else.\<close>

theorem stale_joinedfrom_wakes_stranger:
  assumes "runq s (p # us @ w # vs)" and "kalloc (s_kheap s) SIZEOF_LWT = Inr (t, k)" and "0 < t"
    and "t \<notin> set (p # us @ w # vs)" and "l_joinedfrom (s_lwt s t) = w" and "w \<noteq> NULL"
    and "l_state (s_lwt s w) = BLOCKED" and "ready s p" and "n_runnable s \<noteq> -1"
  shows "\<exists>s1 s2 s3. lwt_create fn d LWT_DEFAULT s = Inr (t, s1) \<and>
    lwt_yield t s1 = Inr (Switched, s2) \<and> current_thread s2 = t \<and>
    l_state (s_lwt s2 w) = BLOCKED \<and> lwt_die v s2 = Inr (Switched, s3) \<and> ready s3 w"
proof -
  from lwt_create_runs [OF assms(1-4), of fn d LWT_DEFAULT] obtain s1 where
    c: "lwt_create fn d LWT_DEFAULT s = Inr (t, s1)" "runq s1 (p # (us @ w # vs) @ [t])"
      "s_lwt s1 = (s_lwt s)(t := fresh_lwt t fn d LWT_DEFAULT s)"
      "n_runnable s1 = n_runnable s + 1" by blast
  from assms(4) have d: "t \<noteq> w" "t \<noteq> p" by auto
  have cur: "current_thread s1 = p" using c(2) by (simp add: runq_def)
  let ?s2 = "lwt_dispatch t p (s1\<lparr>current_thread := t\<rparr>)"
  have y: "lwt_yield t s1 = Inr (Switched, ?s2)"
    using assms(3) cur d c(3) by (simp add: lwt_yield_def Let_def fresh_lwt_def)
  have q2: "runq ?s2 (t # [] @ p # us @ w # vs)"
    using runq_directed [of s1 "p # us @ w # vs" t "[]"] c(2) by simp
  have s2: "current_thread ?s2 = t" "l_flag (s_lwt ?s2 t) = LWT_DEFAULT" "l_joinedfrom (s_lwt ?s2 t) = w"
    "l_state (s_lwt ?s2 w) = BLOCKED" "n_runnable ?s2 \<noteq> 0" "ready ?s2 p"
    using d assms c(3,4) by (simp_all add: fresh_lwt_def)
  from lwt_die_default [OF s2(1,2), of v] s2(3) d(1) obtain s3 where
    e: "lwt_die v ?s2 = lwt_schedule s3" "s_links s3 = s_links ?s2" "current_thread s3 = t"
      "n_runnable s3 = n_runnable ?s2"
      "s_lwt s3 = (s_lwt ?s2)(t := (s_lwt ?s2 t)\<lparr>l_state := DEAD, l_ret := v\<rparr>,
                              w := (s_lwt ?s2 w)\<lparr>l_state := RUNNABLE\<rparr>)"
    using assms(6) by (auto simp: Let_def)
  have "runq s3 (t # [] @ p # us @ w # vs)" using q2 e(2,3) by (simp add: runq_def)
  then have "lwt_schedule s3 = Inr (Switched, lwt_dispatch p t (s3\<lparr>current_thread := p\<rparr>))"
    by (rule lwt_schedule_switch) (use e s2 d in auto)
  with c(1) y s2 e show ?thesis by auto
qed

definition stale_ex :: lwt_sys where
  "stale_ex = upd_lwt 11536 (\<lambda>l. l\<lparr>l_joinedfrom := 200\<rparr>) sys_ex"

theorem stale_joinedfrom_wakes_stranger_witness:
  "\<exists>s1 s2 s3. lwt_create 7 8 LWT_DEFAULT stale_ex = Inr (11536, s1) \<and>
    lwt_yield 11536 s1 = Inr (Switched, s2) \<and> current_thread s2 = 11536 \<and>
    l_state (s_lwt s2 200) = BLOCKED \<and> lwt_die 42 s2 = Inr (Switched, s3) \<and> ready s3 200"
proof (rule stale_joinedfrom_wakes_stranger)
  show "runq stale_ex (100 # [] @ 200 # [300])" using sys_ex_runq by (simp add: stale_ex_def)
  show "kalloc (s_kheap stale_ex) SIZEOF_LWT = Inr (11536,
      set_len 4096 (8000 - SIZEOF_LWT) (s_kheap stale_ex))"
    by (simp add: kalloc_def kalloc_loop.simps stale_ex_def sys_ex_def pool_ex_def Let_def
        SIZEOF_LWT_def PAGESIZE_def set_len_def)
qed (simp_all add: stale_ex_def sys_ex_def lwt_ex_def)


text \<open>The counters of threads balance: no operation changes
  runnable + blocked - zombies, on any path (an immediate join, a join that blocks, the resumption
  of a blocked join, the death of a thread of either kind, a yield that switches or not).\<close>

theorem counters_balance:
  shows "(lwt_create fn d fl s = Inr (t, s1) \<longrightarrow> balance s1 = balance s) \<and>
    (lwt_join t s = Inr (r1, s2) \<longrightarrow> balance s2 = balance s) \<and>
    (lwt_join_resume t s = Inr (r1, s2) \<longrightarrow> balance s2 = balance s) \<and>
    (lwt_die v s = Inr (r2, s3) \<longrightarrow> balance s3 = balance s) \<and>
    (lwt_yield t s = Inr (r2, s3) \<longrightarrow> balance s3 = balance s)"
proof (intro conjI impI)
  assume "lwt_create fn d fl s = Inr (t, s1)"
  then show "balance s1 = balance s"
    by (auto simp: lwt_create_def rbind_eq_Inr Let_def balance_def)
next
  assume "lwt_join t s = Inr (r1, s2)"
  then show "balance s2 = balance s"
    by (auto simp: lwt_join_def rbind_eq_Inr Let_def keeps split: if_splits
        dest!: lwt_reap_balance lwt_join_resume_balance) (simp_all add: balance_def)
next
  assume "lwt_die v s = Inr (r2, s3)"
  then show "balance s3 = balance s"
    by (auto simp: lwt_die_def rbind_eq_Inr Let_def split: if_splits dest!: lwt_schedule_balance)
qed (auto simp: keeps)

theorem counters_balance_witness:
  "\<exists>r s'. lwt_yield 300 sys_ex = Inr (r, s') \<and> balance s' = 1"
proof -
  obtain s' where s': "lwt_yield 300 sys_ex = Inr (Switched, s')"
    by (simp add: lwt_yield_def Let_def sys_ex_def lwt_ex_def)
  with counters_balance [where s = sys_ex and t = 300] have "balance s' = balance sys_ex" by blast
  with s' show ?thesis by (auto simp: balance_def sys_ex_def)
qed

end
