(* ===== verification/Rbuf.thy ===== *)
theory Rbuf
  imports Kalloc
begin

text \<open>
  The ring buffer of \<open>rbuf.c\<close>: an array of \<open>capacity\<close> slots of which one is always left
  unused, so that a full buffer and an empty one differ. Indices and the capacity are
  32-bit words, as in the code; the elements are pointers. \<open>rb_mem\<close> is the contents of the
  array and \<open>rb_slots\<close> the number of slots that the allocated block really has, so that an
  index past the block is a fault of the model.

  \<open>contents\<close> reads the buffer as a list, oldest element first. The locale \<open>fifo\<close> is the
  interface the channels rely on; its interpretation discharges it for this code.
\<close>

record rbuf =
  rb_buf :: addr
  rb_mem :: "nat \<Rightarrow> addr"
  rb_slots :: nat
  rb_head :: u32
  rb_tail :: u32
  rb_capacity :: u32

datatype rbuf_write_state = WRITERBUF_OK | WRITERBUF_FULL | WRITERBUF_ERROR

definition INFINITE_CAP :: u32 where
  "INFINITE_CAP = 1024"

definition SIZEOF_PTR :: u32 where
  "SIZEOF_PTR = 4"

definition SIZEOF_RBUF :: int where
  "SIZEOF_RBUF = 16"

subsection \<open>The code\<close>

text \<open>
  The size of the array is a 32-bit product and is passed to \<open>kalloc\<close> as a signed
  \<open>int\<close>. \<open>junk\<close> is what the fresh block happens to contain.
\<close>

definition rbuf_bytes :: "u32 \<Rightarrow> int" where
  "rbuf_bytes cap = sint (SIZEOF_PTR * cap)"

definition rbuf_init :: "kheap \<Rightarrow> (nat \<Rightarrow> addr) \<Rightarrow> u32 \<Rightarrow> ((addr \<times> rbuf) \<times> kheap) result" where
  "rbuf_init h junk capacity =
     rbind (kalloc h SIZEOF_RBUF) (\<lambda>(rb, h1).
     rbind (assertion (rb \<noteq> NULL)) (\<lambda>_.
     let cap = (if 0 = capacity then INFINITE_CAP + 1 else capacity + 1) in
     rbind (kalloc h1 (rbuf_bytes cap)) (\<lambda>(b, h2).
     rbind (assertion (b \<noteq> NULL)) (\<lambda>_.
       Inr ((rb, \<lparr>rb_buf = b, rb_mem = junk, rb_slots = nat (rbuf_bytes cap) div 4,
                  rb_head = 0, rb_tail = 0, rb_capacity = cap\<rparr>), h2)))))"

definition rbuf_free :: "kheap \<Rightarrow> addr \<Rightarrow> rbuf \<Rightarrow> kheap result" where
  "rbuf_free h rb r =
     rbind (assertion (rb \<noteq> NULL)) (\<lambda>_.
     rbind (kfree h (rb_buf r) (rbuf_bytes (rb_capacity r))) (\<lambda>h1.
       kfree h1 rb SIZEOF_RBUF))"

definition rbuf_capacity :: "rbuf \<Rightarrow> u32" where
  "rbuf_capacity rb = rb_capacity rb - 1"

definition rbuf_size :: "rbuf \<Rightarrow> u32" where
  "rbuf_size rb = (rb_tail rb + rb_capacity rb - rb_head rb) mod rb_capacity rb"

definition rbuf_isempty :: "rbuf \<Rightarrow> bool" where
  "rbuf_isempty rb = (rb_head rb = rb_tail rb)"

definition rbuf_isfull :: "rbuf \<Rightarrow> bool" where
  "rbuf_isfull rb = ((rb_tail rb + 1) mod rb_capacity rb = rb_head rb)"

definition rbuf_erase :: "rbuf \<Rightarrow> rbuf" where
  "rbuf_erase rb = rb\<lparr>rb_head := 0, rb_tail := 0\<rparr>"

definition rbuf_write :: "rbuf \<Rightarrow> addr \<Rightarrow> (rbuf_write_state \<times> rbuf) result" where
  "rbuf_write rb data =
     (if data = NULL then Inr (WRITERBUF_ERROR, rb)
      else if rbuf_isfull rb then Inr (WRITERBUF_FULL, rb)
      else if rb_slots rb \<le> unat (rb_tail rb) then Inl OutOfBounds
      else Inr (WRITERBUF_OK,
        rb\<lparr>rb_mem := (rb_mem rb)(unat (rb_tail rb) := data),
           rb_tail := (rb_tail rb + 1) mod rb_capacity rb\<rparr>))"

definition rbuf_read :: "rbuf \<Rightarrow> (addr \<times> rbuf) result" where
  "rbuf_read rb =
     (if rbuf_isempty rb then Inr (NULL, rb)
      else if rb_slots rb \<le> unat (rb_head rb) then Inl OutOfBounds
      else Inr (rb_mem rb (unat (rb_head rb)),
        rb\<lparr>rb_head := (rb_head rb + 1) mod rb_capacity rb\<rparr>))"

subsection \<open>Well-formed buffers and their contents\<close>

definition rbuf_ok :: "rbuf \<Rightarrow> bool" where
  "rbuf_ok rb \<longleftrightarrow> 1 < unat (rb_capacity rb) \<and> unat (rb_capacity rb) \<le> 2 ^ 31 \<and>
     unat (rb_capacity rb) \<le> rb_slots rb \<and>
     rb_head rb < rb_capacity rb \<and> rb_tail rb < rb_capacity rb"

definition count :: "rbuf \<Rightarrow> nat" where
  "count rb = (unat (rb_tail rb) + unat (rb_capacity rb) - unat (rb_head rb)) mod unat (rb_capacity rb)"

definition slot :: "rbuf \<Rightarrow> nat \<Rightarrow> nat" where
  "slot rb i = (unat (rb_head rb) + i) mod unat (rb_capacity rb)"

definition contents :: "rbuf \<Rightarrow> addr list" where
  "contents rb = map (\<lambda>i. rb_mem rb (slot rb i)) [0..<count rb]"

lemma rbuf_okD:
  assumes "rbuf_ok rb"
  shows "1 < unat (rb_capacity rb)" "unat (rb_capacity rb) \<le> 2 ^ 31"
    "unat (rb_capacity rb) \<le> rb_slots rb"
    "unat (rb_head rb) < unat (rb_capacity rb)" "unat (rb_tail rb) < unat (rb_capacity rb)"
  using assms by (auto simp: rbuf_ok_def word_less_nat_alt)

lemma unat_succ_mod:
  fixes x c :: u32
  assumes "unat x < unat c" and "unat c \<le> 2 ^ 31"
  shows "unat ((x + 1) mod c) = (unat x + 1) mod unat c"
proof -
  have "unat (x + 1) = unat x + 1"
    using assms by (simp add: unat_word_ariths)
  then show ?thesis by (simp add: unat_mod)
qed


text \<open>Index arithmetic of a ring of \<open>c\<close> slots, read position \<open>h\<close>, write position \<open>t\<close>.\<close>

definition dist :: "nat \<Rightarrow> nat \<Rightarrow> nat \<Rightarrow> nat" where
  "dist c h t = (if h \<le> t then t - h else t + c - h)"

lemma dist_mod: "h < c \<Longrightarrow> t < c \<Longrightarrow> (t + c - h) mod c = dist c h t"
  by (auto simp: dist_def mod_if)

lemma dist_less: "h < c \<Longrightarrow> t < c \<Longrightarrow> dist c h t < c"
  by (auto simp: dist_def)

lemma dist_0: "h < c \<Longrightarrow> t < c \<Longrightarrow> dist c h t = 0 \<longleftrightarrow> h = t"
  by (auto simp: dist_def)

lemma dist_full: "h < c \<Longrightarrow> t < c \<Longrightarrow> (t + 1) mod c = h \<longleftrightarrow> Suc (dist c h t) = c"
  by (auto simp: dist_def mod_if)

lemma dist_write: "h < c \<Longrightarrow> t < c \<Longrightarrow> Suc (dist c h t) < c \<Longrightarrow>
    dist c h ((t + 1) mod c) = Suc (dist c h t)"
  by (auto simp: dist_def mod_if)

lemma dist_read: "h < c \<Longrightarrow> t < c \<Longrightarrow> h \<noteq> t \<Longrightarrow> dist c ((h + 1) mod c) t = dist c h t - 1"
  by (auto simp: dist_def mod_if)

lemma dist_tail: "h < c \<Longrightarrow> t < c \<Longrightarrow> (h + dist c h t) mod c = t"
  by (auto simp: dist_def mod_if)

lemma slot_inj: "h < c \<Longrightarrow> i < c \<Longrightarrow> j < c \<Longrightarrow> (h + i) mod c = (h + j) mod c \<Longrightarrow> i = (j :: nat)"
  by (auto simp: mod_if split: if_splits)

lemma count_dist: "rbuf_ok rb \<Longrightarrow>
    count rb = dist (unat (rb_capacity rb)) (unat (rb_head rb)) (unat (rb_tail rb))"
  by (simp add: count_def dist_mod rbuf_okD)

lemma length_contents [simp]: "length (contents rb) = count rb"
  by (simp add: contents_def)

lemma contents_Nil_iff: "contents rb = [] \<longleftrightarrow> count rb = 0"
  by (simp add: contents_def)

lemma count_bound: "rbuf_ok rb \<Longrightarrow> count rb < unat (rb_capacity rb)"
  by (simp add: count_dist dist_less rbuf_okD)

subsection \<open>What each operation does to the contents\<close>

lemma rbuf_isempty_contents: "rbuf_ok rb \<Longrightarrow> rbuf_isempty rb \<longleftrightarrow> contents rb = []"
proof -
  assume ok: "rbuf_ok rb"
  then show ?thesis
    by (auto simp: contents_Nil_iff rbuf_isempty_def count_dist dist_0 rbuf_okD word_unat_eq_iff)
qed

lemma rbuf_isfull_contents:
  "rbuf_ok rb \<Longrightarrow> rbuf_isfull rb \<longleftrightarrow> length (contents rb) = unat (rbuf_capacity rb)"
proof -
  assume ok: "rbuf_ok rb"
  note b = rbuf_okD [OF ok]
  have "rb_capacity rb \<noteq> 0" using b(1) by auto
  then have cap: "unat (rbuf_capacity rb) = unat (rb_capacity rb) - 1"
    by (simp add: rbuf_capacity_def unat_minus_one)
  have "rbuf_isfull rb \<longleftrightarrow> (unat (rb_tail rb) + 1) mod unat (rb_capacity rb) = unat (rb_head rb)"
    by (metis rbuf_isfull_def unat_succ_mod [OF b(5,2)] word_unat_eq_iff)
  also have "\<dots> \<longleftrightarrow> Suc (count rb) = unat (rb_capacity rb)"
    using dist_full [OF b(4,5)] ok by (simp add: count_dist)
  finally show ?thesis using cap b(1) by auto
qed

lemma rbuf_size_contents: "rbuf_ok rb \<Longrightarrow> unat (rbuf_size rb) = length (contents rb)"
proof -
  assume ok: "rbuf_ok rb"
  note b = rbuf_okD [OF ok]
  have "unat (rb_tail rb + rb_capacity rb) = unat (rb_tail rb) + unat (rb_capacity rb)"
    using b by (simp add: unat_word_ariths)
  moreover from this have "rb_head rb \<le> rb_tail rb + rb_capacity rb"
    using b by (simp add: word_le_nat_alt)
  ultimately show ?thesis
    by (simp add: rbuf_size_def count_def unat_mod unat_sub)
qed


lemma mod_word_less: "c \<noteq> 0 \<Longrightarrow> x mod c < (c :: u32)"
  by (simp add: word_less_nat_alt unat_mod unat_gt_0)

lemma rbuf_write_contents:
  assumes ok: "rbuf_ok rb" and "data \<noteq> NULL" and "\<not> rbuf_isfull rb"
  shows "\<exists>rb'. rbuf_write rb data = Inr (WRITERBUF_OK, rb') \<and> rbuf_ok rb' \<and>
    contents rb' = contents rb @ [data] \<and> rbuf_capacity rb' = rbuf_capacity rb"
proof -
  note b = rbuf_okD [OF ok]
  let ?c = "unat (rb_capacity rb)" and ?h = "unat (rb_head rb)" and ?t = "unat (rb_tail rb)"
  let ?r = "rb\<lparr>rb_mem := (rb_mem rb)(?t := data), rb_tail := (rb_tail rb + 1) mod rb_capacity rb\<rparr>"
  have w: "rbuf_write rb data = Inr (WRITERBUF_OK, ?r)"
    using assms b by (simp add: rbuf_write_def)
  have "rb_capacity rb \<noteq> 0" using b(1) by auto
  then have ok': "rbuf_ok ?r" using ok by (auto simp: rbuf_ok_def mod_word_less)
  have nf: "Suc (dist ?c ?h ?t) < ?c"
    using assms(3) dist_full [OF b(4,5)] dist_less [OF b(4,5)] unat_succ_mod [OF b(5,2)]
    by (metis Suc_lessI rbuf_isfull_def word_unat_eq_iff)
  have cnt: "count ?r = Suc (count rb)"
    using dist_write [OF b(4,5) nf] unat_succ_mod [OF b(5,2)] count_dist [OF ok] count_dist [OF ok']
    by simp
  have t: "slot rb (count rb) = ?t" using dist_tail [OF b(4,5)] by (simp add: slot_def count_dist ok)
  have other: "slot rb i \<noteq> ?t" if "i < count rb" for i
    using slot_inj [OF b(4), of i "count rb"] that t count_bound [OF ok] by (auto simp: slot_def)
  have "slot ?r = slot rb" by (simp add: slot_def fun_eq_iff)
  then have "contents ?r = contents rb @ [data]"
    using other t by (simp add: contents_def cnt)
  with w ok' show ?thesis by (auto simp: rbuf_capacity_def)
qed

lemma rbuf_write_full:
  "data \<noteq> NULL \<Longrightarrow> rbuf_isfull rb \<Longrightarrow> rbuf_write rb data = Inr (WRITERBUF_FULL, rb)"
  by (simp add: rbuf_write_def)

lemma rbuf_read_contents:
  assumes ok: "rbuf_ok rb" and c: "contents rb = x # xs"
  shows "\<exists>rb'. rbuf_read rb = Inr (x, rb') \<and> rbuf_ok rb' \<and> contents rb' = xs \<and>
    rbuf_capacity rb' = rbuf_capacity rb"
proof -
  note b = rbuf_okD [OF ok]
  let ?c = "unat (rb_capacity rb)" and ?h = "unat (rb_head rb)" and ?t = "unat (rb_tail rb)"
  let ?r = "rb\<lparr>rb_head := (rb_head rb + 1) mod rb_capacity rb\<rparr>"
  have ne: "\<not> rbuf_isempty rb" using rbuf_isempty_contents [OF ok] c by simp
  then have ht: "?h \<noteq> ?t" by (simp add: rbuf_isempty_def word_unat_eq_iff)
  have "rb_capacity rb \<noteq> 0" using b(1) by auto
  then have ok': "rbuf_ok ?r" using ok by (auto simp: rbuf_ok_def mod_word_less)
  have cnt: "count rb = Suc (count ?r)"
    using dist_read [OF b(4,5) ht] dist_0 [OF b(4,5)] ht unat_succ_mod [OF b(4,2)]
      count_dist [OF ok] count_dist [OF ok'] by simp
  have s0: "slot rb 0 = ?h" using b by (simp add: slot_def)
  have sS: "slot ?r i = slot rb (Suc i)" for i
    by (simp add: slot_def unat_succ_mod [OF b(4,2)] mod_simps)
  have "contents rb = rb_mem rb ?h # contents ?r"
    by (simp add: contents_def cnt s0 sS upt_conv_Cons o_def del: upt_Suc flip: map_Suc_upt)
  moreover have "rbuf_read rb = Inr (rb_mem rb ?h, ?r)" using ne b by (simp add: rbuf_read_def)
  ultimately show ?thesis using ok' c by (auto simp: rbuf_capacity_def)
qed

lemma rbuf_read_empty: "rbuf_isempty rb \<Longrightarrow> rbuf_read rb = Inr (NULL, rb)"
  by (simp add: rbuf_read_def)

lemma rbuf_erase_contents: "rbuf_ok rb \<Longrightarrow> rbuf_ok (rbuf_erase rb) \<and> contents (rbuf_erase rb) = []"
  by (auto simp: rbuf_ok_def rbuf_erase_def contents_def count_def word_less_nat_alt)


subsection \<open>The bounded FIFO interface\<close>

datatype qop = Put addr | Take

fun qrun :: "('q \<Rightarrow> addr \<Rightarrow> (rbuf_write_state \<times> 'q) result) \<Rightarrow> ('q \<Rightarrow> (addr \<times> 'q) result) \<Rightarrow>
    'q \<Rightarrow> qop list \<Rightarrow> (addr list \<times> addr list \<times> 'q) result" where
  "qrun wr rd q [] = Inr ([], [], q)"
| "qrun wr rd q (Put x # ops) =
     rbind (wr q x) (\<lambda>(st, q1). rbind (qrun wr rd q1 ops) (\<lambda>(acc, out, q2).
       Inr (if st = WRITERBUF_OK then x # acc else acc, out, q2)))"
| "qrun wr rd q (Take # ops) =
     rbind (rd q) (\<lambda>(x, q1). rbind (qrun wr rd q1 ops) (\<lambda>(acc, out, q2).
       Inr (acc, if x = NULL then out else x # out, q2)))"

text \<open>
  \<open>qrun\<close> runs a client's writes and reads and returns the accepted elements, the elements
  read and the final queue.
\<close>

locale fifo =
  fixes isempty :: "'q \<Rightarrow> bool"
    and isfull :: "'q \<Rightarrow> bool"
    and wr :: "'q \<Rightarrow> addr \<Rightarrow> (rbuf_write_state \<times> 'q) result"
    and rd :: "'q \<Rightarrow> (addr \<times> 'q) result"
    and ok :: "'q \<Rightarrow> bool"
    and abs :: "'q \<Rightarrow> addr list"
    and cap :: "'q \<Rightarrow> nat"
  assumes empty_abs: "ok q \<Longrightarrow> isempty q \<longleftrightarrow> abs q = []"
    and full_abs: "ok q \<Longrightarrow> isfull q \<longleftrightarrow> length (abs q) = cap q"
    and wr_ok: "ok q \<Longrightarrow> x \<noteq> NULL \<Longrightarrow> \<not> isfull q \<Longrightarrow>
      \<exists>q'. wr q x = Inr (WRITERBUF_OK, q') \<and> ok q' \<and> abs q' = abs q @ [x] \<and> cap q' = cap q"
    and wr_full: "ok q \<Longrightarrow> x \<noteq> NULL \<Longrightarrow> isfull q \<Longrightarrow> wr q x = Inr (WRITERBUF_FULL, q)"
    and wr_null: "wr q NULL = Inr (WRITERBUF_ERROR, q)"
    and rd_ok: "ok q \<Longrightarrow> abs q = x # xs \<Longrightarrow>
      \<exists>q'. rd q = Inr (x, q') \<and> ok q' \<and> abs q' = xs \<and> cap q' = cap q"
    and rd_empty: "ok q \<Longrightarrow> isempty q \<Longrightarrow> rd q = Inr (NULL, q)"
    and bound: "ok q \<Longrightarrow> length (abs q) \<le> cap q"
begin

lemma qrun_fifo:
  "ok q \<Longrightarrow> NULL \<notin> set (abs q) \<Longrightarrow> \<exists>acc out q'. qrun wr rd q ops = Inr (acc, out, q') \<and> ok q' \<and>
    abs q @ acc = out @ abs q' \<and> cap q' = cap q \<and> NULL \<notin> set (abs q')"
proof (induction ops arbitrary: q)
  case Nil
  then show ?case by simp
next
  case (Cons op ops)
  show ?case
  proof (cases op)
    case (Put x)
    consider "x = NULL" | "x \<noteq> NULL" "isfull q" | "x \<noteq> NULL" "\<not> isfull q" by blast
    then show ?thesis
    proof cases
      case 1
      with Cons.IH [OF Cons.prems] Put show ?thesis by (auto simp: wr_null)
    next
      case 2
      with Cons.IH [OF Cons.prems] Put wr_full [OF Cons.prems(1) 2] show ?thesis by auto
    next
      case 3
      from wr_ok [OF Cons.prems(1) 3] obtain q1 where q1: "wr q x = Inr (WRITERBUF_OK, q1)" "ok q1"
        "abs q1 = abs q @ [x]" "cap q1 = cap q" by blast
      with 3 Cons.prems have "NULL \<notin> set (abs q1)" by auto
      from Cons.IH [OF q1(2) this] q1 Put show ?thesis by auto
    qed
  next
    case Take
    note prems = Cons.prems and IH = Cons.IH
    show ?thesis
    proof (cases "abs q")
      case Nil
      then have "isempty q" using empty_abs prems by blast
      from rd_empty [OF prems(1) this] IH [OF prems] Take show ?thesis by auto
    next
      case (Cons x xs)
      from rd_ok [OF prems(1) Cons] obtain q1 where q1: "rd q = Inr (x, q1)" "ok q1"
        "abs q1 = xs" "cap q1 = cap q" by blast
      have "x \<noteq> NULL" "NULL \<notin> set (abs q1)" using prems Cons q1 by auto
      with IH [OF q1(2)] q1 Take Cons show ?thesis by auto
    qed
  qed
qed

end


lemma contents_bound: "rbuf_ok rb \<Longrightarrow> length (contents rb) \<le> unat (rbuf_capacity rb)"
proof -
  assume ok: "rbuf_ok rb"
  then have "rb_capacity rb \<noteq> 0" using rbuf_okD [OF ok] by auto
  then have "unat (rbuf_capacity rb) = unat (rb_capacity rb) - 1"
    by (simp add: rbuf_capacity_def unat_minus_one)
  then show ?thesis using count_bound [OF ok] by simp
qed

interpretation rbq: fifo rbuf_isempty rbuf_isfull rbuf_write rbuf_read rbuf_ok contents
    "\<lambda>rb. unat (rbuf_capacity rb)"
proof
  fix q x xs
  assume "rbuf_ok q"
  then show "rbuf_isempty q = (contents q = [])" by (rule rbuf_isempty_contents)
  show "rbuf_isfull q = (length (contents q) = unat (rbuf_capacity q))"
    by (rule rbuf_isfull_contents) fact
  show "length (contents q) \<le> unat (rbuf_capacity q)" by (rule contents_bound) fact
  show "rbuf_isempty q \<Longrightarrow> rbuf_read q = Inr (NULL, q)" by (rule rbuf_read_empty)
  show "x \<noteq> NULL \<Longrightarrow> rbuf_isfull q \<Longrightarrow> rbuf_write q x = Inr (WRITERBUF_FULL, q)"
    by (rule rbuf_write_full)
  show "x \<noteq> NULL \<Longrightarrow> \<not> rbuf_isfull q \<Longrightarrow> \<exists>q'. rbuf_write q x = Inr (WRITERBUF_OK, q') \<and>
      rbuf_ok q' \<and> contents q' = contents q @ [x] \<and> unat (rbuf_capacity q') = unat (rbuf_capacity q)"
    using rbuf_write_contents [OF \<open>rbuf_ok q\<close>, of x] by auto
  show "contents q = x # xs \<Longrightarrow> \<exists>q'. rbuf_read q = Inr (x, q') \<and> rbuf_ok q' \<and> contents q' = xs \<and>
      unat (rbuf_capacity q') = unat (rbuf_capacity q)"
    using rbuf_read_contents [OF \<open>rbuf_ok q\<close>, of x xs] by auto
qed (simp add: rbuf_write_def)

subsection \<open>Initialisation\<close>

lemma kalloc_SIZEOF_le: "kalloc h n = Inr r \<Longrightarrow> 0 < n \<and> n \<le> PAGESIZE"
  by (auto simp: kalloc_def assertion_def split: if_splits)

text \<open>
  A capacity the pool could serve at all (below \<open>PAGESIZE\<close> bytes, so that the size
  computation does not wrap) gives a well-formed empty buffer.
\<close>

lemma rbuf_bytes_small: "unat cap * 4 < 2 ^ 31 \<Longrightarrow> nat (rbuf_bytes cap) = 4 * unat cap"
proof -
  assume a: "unat cap * 4 < 2 ^ 31"
  then have u: "unat (SIZEOF_PTR * cap) = 4 * unat cap"
    by (simp add: SIZEOF_PTR_def unat_word_ariths)
  then have "uint (SIZEOF_PTR * cap) = int (4 * unat cap)" by (metis uint_nat)
  moreover have "unat cap < 536870912" using a by simp
  then have "int (unat cap) < 536870912" by linarith
  moreover have "- 536870912 \<le> uint cap" using uint_ge_0 [of cap] by linarith
  ultimately have "signed_take_bit 31 (uint (SIZEOF_PTR * cap)) = int (4 * unat cap)"
    by (subst signed_take_bit_int_eq_self) auto
  then have "rbuf_bytes cap = 4 * uint cap" by (simp add: rbuf_bytes_def sint_uint)
  then show ?thesis by (simp add: nat_mult_distrib)
qed

lemma rbuf_init_result:
  assumes "rbuf_init h junk c = Inr ((a, rb), h')"
  shows "rb_head rb = 0 \<and> rb_tail rb = 0 \<and> a \<noteq> NULL \<and> rb_buf rb \<noteq> NULL \<and>
    rb_capacity rb = (if c = 0 then INFINITE_CAP + 1 else c + 1) \<and>
    rb_slots rb = nat (rbuf_bytes (rb_capacity rb)) div 4"
  using assms by (auto simp: rbuf_init_def rbind_eq_Inr Let_def assertion_def split: prod.splits if_splits)

lemma rbuf_init_ok:
  assumes "rbuf_init h junk c = Inr ((a, rb), h')" and "unat c < 2 ^ 29 - 1"
  shows "rbuf_ok rb \<and> contents rb = [] \<and> rbuf_capacity rb = (if c = 0 then INFINITE_CAP else c)"
proof -
  note r = rbuf_init_result [OF assms(1)]
  have cap: "unat (rb_capacity rb) = (if c = 0 then 1025 else unat c + 1)"
    using r assms(2) by (simp add: INFINITE_CAP_def unat_word_ariths)
  then have "nat (rbuf_bytes (rb_capacity rb)) = 4 * unat (rb_capacity rb)"
    using assms(2) by (intro rbuf_bytes_small) auto
  with r have "rb_slots rb = unat (rb_capacity rb)" by (metis nonzero_mult_div_cancel_left zero_neq_numeral)
  moreover have "0 < unat c" if "c \<noteq> 0" using that by (simp add: unat_gt_0)
  ultimately have "rbuf_ok rb" using cap assms(2) r
    by (auto simp: rbuf_ok_def word_less_nat_alt split: if_splits)
  moreover have "count rb = 0" using r by (simp add: count_def)
  ultimately show ?thesis using r by (auto simp: contents_def rbuf_capacity_def)
qed


subsection \<open>Properties\<close>

text \<open>C13: the ring buffer is a bounded FIFO queue: for any sequence of writes and reads from
  a well-formed buffer without null elements, no access leaves the array, the elements read
  followed by those still buffered are exactly the elements initially buffered followed by
  those accepted, in order, and the capacity is never exceeded.\<close>

theorem rbuf_is_fifo:
  assumes "rbuf_ok rb" and "NULL \<notin> set (contents rb)"
  shows "\<exists>acc out rb'. qrun rbuf_write rbuf_read rb ops = Inr (acc, out, rb') \<and> rbuf_ok rb' \<and>
    contents rb @ acc = out @ contents rb' \<and> length (contents rb') \<le> unat (rbuf_capacity rb)"
  using rbq.qrun_fifo [OF assms, of ops] rbq.bound by force

definition rbuf_ex :: rbuf where
  "rbuf_ex = \<lparr>rb_buf = 8192, rb_mem = (\<lambda>_. 7), rb_slots = 3, rb_head = 2, rb_tail = 1, rb_capacity = 3\<rparr>"

lemma rbuf_ex_ok: "rbuf_ok rbuf_ex" "contents rbuf_ex = [7, 7]"
  by (simp_all add: rbuf_ok_def rbuf_ex_def contents_def count_def upt_rec)

theorem rbuf_is_fifo_witness:
  "\<exists>acc out rb'. qrun rbuf_write rbuf_read rbuf_ex [Put 5, Take, Put 6] = Inr (acc, out, rb') \<and>
     rbuf_ok rb' \<and> contents rbuf_ex @ acc = out @ contents rb' \<and>
     length (contents rb') \<le> unat (rbuf_capacity rbuf_ex)"
  by (rule rbuf_is_fifo) (simp_all add: rbuf_ex_ok)

text \<open>A write of a non-null element to a well-formed buffer appends it when there is
  room and otherwise reports that the buffer is full and changes nothing; a write of the null
  pointer is refused.\<close>

theorem rbuf_write_functional:
  assumes "rbuf_ok rb"
  shows "\<exists>st rb'. rbuf_write rb d = Inr (st, rb') \<and> rbuf_ok rb' \<and>
    (if d = NULL then st = WRITERBUF_ERROR \<and> rb' = rb
     else if length (contents rb) = unat (rbuf_capacity rb) then st = WRITERBUF_FULL \<and> rb' = rb
     else st = WRITERBUF_OK \<and> contents rb' = contents rb @ [d] \<and> rbuf_capacity rb' = rbuf_capacity rb)"
  using rbuf_write_contents [OF assms, of d] rbuf_write_full [of d rb] rbuf_isfull_contents [OF assms] assms
  by (cases "d = NULL"; cases "rbuf_isfull rb") (auto simp: rbuf_write_def)

theorem rbuf_write_functional_witness:
  "\<exists>st rb'. rbuf_write rbuf_ex 9 = Inr (st, rb') \<and> rbuf_ok rb' \<and> st = WRITERBUF_FULL \<and> rb' = rbuf_ex"
proof -
  have "unat (rbuf_capacity rbuf_ex) = 2" by (simp add: rbuf_ex_def rbuf_capacity_def)
  with rbuf_write_functional [OF rbuf_ex_ok(1), of 9] show ?thesis by (auto simp: rbuf_ex_ok(2) simp del: length_contents)
qed

text \<open>\<open>rbuf_size\<close>, \<open>rbuf_isempty\<close> and \<open>rbuf_isfull\<close> report the number of buffered
  elements, computed on 32-bit words without being disturbed by wrap-around.\<close>

theorem rbuf_size_exact:
  assumes "rbuf_ok rb"
  shows "unat (rbuf_size rb) = length (contents rb) \<and> (rbuf_isempty rb \<longleftrightarrow> rbuf_size rb = 0) \<and>
    (rbuf_isfull rb \<longleftrightarrow> rbuf_size rb = rbuf_capacity rb)"
  using rbuf_size_contents [OF assms] rbuf_isempty_contents [OF assms] rbuf_isfull_contents [OF assms]
  by (auto simp: word_unat_eq_iff contents_Nil_iff)

theorem rbuf_size_exact_witness:
  "unat (rbuf_size rbuf_ex) = length (contents rbuf_ex) \<and>
   (rbuf_isempty rbuf_ex \<longleftrightarrow> rbuf_size rbuf_ex = 0) \<and>
   (rbuf_isfull rbuf_ex \<longleftrightarrow> rbuf_size rbuf_ex = rbuf_capacity rbuf_ex)"
  by (rule rbuf_size_exact) (rule rbuf_ex_ok)

text \<open>\<open>rbuf_init\<close> with a capacity whose array size does not overflow returns an empty
  well-formed buffer of that capacity; capacity 0 stands for 1024.\<close>

theorem rbuf_init_empty:
  assumes "rbuf_init h junk c = Inr ((a, rb), h')" and "unat c < 2 ^ 29 - 1"
  shows "rbuf_ok rb \<and> contents rb = [] \<and> rbuf_capacity rb = (if c = 0 then INFINITE_CAP else c)"
  by (rule rbuf_init_ok [OF assms])

lemma rbuf_init_ex:
  "\<exists>a rb h'. rbuf_init pool_ex (\<lambda>_. 0) 2 = Inr ((a, rb), h')"
  "\<exists>a rb h'. rbuf_init pool_ex (\<lambda>_. 0) (2 ^ 30 + 1) = Inr ((a, rb), h')"
  by (simp_all add: rbuf_init_def kalloc_def kalloc_loop.simps pool_ex_def set_len_def
      SIZEOF_RBUF_def PAGESIZE_def rbuf_bytes_def SIZEOF_PTR_def Let_def)

theorem rbuf_init_empty_witness:
  "\<exists>a rb h'. rbuf_init pool_ex (\<lambda>_. 0) 2 = Inr ((a, rb), h') \<and> rbuf_ok rb \<and> contents rb = [] \<and>
     rbuf_capacity rb = 2"
proof -
  obtain a rb h' where i: "rbuf_init pool_ex (\<lambda>_. 0) 2 = Inr ((a, rb), h')"
    using rbuf_init_ex(1) by blast
  with rbuf_init_empty [OF i] show ?thesis by simp
qed

text \<open>C36: the array size is a 32-bit product, so a capacity of 2^30 + 1 wraps round to an
  array of two slots: initialisation succeeds, yet the buffer claims 2^30 + 1 free places, and
  the third write is outside the allocated block.\<close>

theorem rbuf_init_size_wraps:
  assumes "rbuf_init h junk (2 ^ 30 + 1) = Inr ((a, rb), h')" and "x \<noteq> NULL" and "y \<noteq> NULL" and "z \<noteq> NULL"
  shows "rbuf_capacity rb = 2 ^ 30 + 1 \<and> rb_slots rb = 2 \<and>
    qrun rbuf_write rbuf_read rb [Put x, Put y, Put z] = Inl OutOfBounds"
proof -
  note r = rbuf_init_result [OF assms(1)]
  then have c: "rb_capacity rb = 2 ^ 30 + 2" "rb_slots rb = 2" "rb_head rb = 0" "rb_tail rb = 0"
    by (simp_all add: rbuf_bytes_def SIZEOF_PTR_def)
  then show ?thesis using assms(2-4)
    by (simp add: rbuf_capacity_def rbuf_write_def rbuf_isfull_def)
qed


theorem rbuf_init_size_wraps_witness:
  "\<exists>a rb h'. rbuf_init pool_ex (\<lambda>_. 0) (2 ^ 30 + 1) = Inr ((a, rb), h') \<and>
     rbuf_capacity rb = 2 ^ 30 + 1 \<and> rb_slots rb = 2 \<and>
     qrun rbuf_write rbuf_read rb [Put 1, Put 2, Put 3] = Inl OutOfBounds"
proof -
  obtain a rb h' where i: "rbuf_init pool_ex (\<lambda>_. 0) (2 ^ 30 + 1) = Inr ((a, rb), h')"
    using rbuf_init_ex(2) by blast
  with rbuf_init_size_wraps [OF i, of 1 2 3] show ?thesis by auto
qed

end
