(* ===== verification/Tailq.thy ===== *)
theory Tailq
  imports Prelude
begin

text \<open>
  The tail queue macros of \<open>queue.h\<close> that the channel groups use. A head holds a pointer to
  the first element and a pointer to the \<^emph>\<open>cell\<close> that ends the queue; an element holds a pointer
  to the next element and one to the cell that points to it. A cell is the \<open>tqh_first\<close> field
  of a head or the \<open>tqe_next\<close> field of an element (\<open>tcell\<close>); heads and elements are named by
  the address of the structure that contains them.

  \<open>tailq h q xs\<close> says that the queue with head \<open>q\<close> holds the elements \<open>xs\<close>; each macro is
  shown to be the list operation its name says, and to leave every other queue alone.
\<close>

datatype tcell = TqFirst addr | TqNext addr

record tq_heap =
  tqh_first :: "addr \<Rightarrow> addr"
  tqh_last :: "addr \<Rightarrow> tcell"
  tqe_next :: "addr \<Rightarrow> addr"
  tqe_prev :: "addr \<Rightarrow> tcell"

subsection \<open>The macros\<close>

fun tq_get :: "tq_heap \<Rightarrow> tcell \<Rightarrow> addr" where
  "tq_get h (TqFirst q) = tqh_first h q"
| "tq_get h (TqNext e) = tqe_next h e"

fun tq_put :: "tcell \<Rightarrow> addr \<Rightarrow> tq_heap \<Rightarrow> tq_heap" where
  "tq_put (TqFirst q) v h = h\<lparr>tqh_first := (tqh_first h)(q := v)\<rparr>"
| "tq_put (TqNext e) v h = h\<lparr>tqe_next := (tqe_next h)(e := v)\<rparr>"

definition put_last :: "addr \<Rightarrow> tcell \<Rightarrow> tq_heap \<Rightarrow> tq_heap" where
  "put_last q c h = h\<lparr>tqh_last := (tqh_last h)(q := c)\<rparr>"

definition put_prev :: "addr \<Rightarrow> tcell \<Rightarrow> tq_heap \<Rightarrow> tq_heap" where
  "put_prev e c h = h\<lparr>tqe_prev := (tqe_prev h)(e := c)\<rparr>"

definition TAILQ_INIT :: "addr \<Rightarrow> tq_heap \<Rightarrow> tq_heap" where
  "TAILQ_INIT q h = put_last q (TqFirst q) (tq_put (TqFirst q) NULL h)"

definition TAILQ_INSERT_HEAD :: "addr \<Rightarrow> addr \<Rightarrow> tq_heap \<Rightarrow> tq_heap" where
  "TAILQ_INSERT_HEAD q e h =
     (let h1 = tq_put (TqNext e) (tqh_first h q) h;
          h2 = (if tqe_next h1 e \<noteq> NULL then put_prev (tqh_first h1 q) (TqNext e) h1
                else put_last q (TqNext e) h1)
      in put_prev e (TqFirst q) (tq_put (TqFirst q) e h2))"

definition TAILQ_INSERT_TAIL :: "addr \<Rightarrow> addr \<Rightarrow> tq_heap \<Rightarrow> tq_heap" where
  "TAILQ_INSERT_TAIL q e h =
     (let h1 = tq_put (TqNext e) NULL h;
          h2 = put_prev e (tqh_last h1 q) h1;
          h3 = tq_put (tqh_last h2 q) e h2
      in put_last q (TqNext e) h3)"

definition TAILQ_INSERT_AFTER :: "addr \<Rightarrow> addr \<Rightarrow> addr \<Rightarrow> tq_heap \<Rightarrow> tq_heap" where
  "TAILQ_INSERT_AFTER q l e h =
     (let h1 = tq_put (TqNext e) (tqe_next h l) h;
          h2 = (if tqe_next h1 e \<noteq> NULL then put_prev (tqe_next h1 e) (TqNext e) h1
                else put_last q (TqNext e) h1)
      in put_prev e (TqNext l) (tq_put (TqNext l) e h2))"

definition TAILQ_INSERT_BEFORE :: "addr \<Rightarrow> addr \<Rightarrow> tq_heap \<Rightarrow> tq_heap" where
  "TAILQ_INSERT_BEFORE l e h =
     (let h1 = put_prev e (tqe_prev h l) h;
          h2 = tq_put (TqNext e) l h1;
          h3 = tq_put (tqe_prev h2 l) e h2
      in put_prev l (TqNext e) h3)"

definition TAILQ_REMOVE :: "addr \<Rightarrow> addr \<Rightarrow> tq_heap \<Rightarrow> tq_heap" where
  "TAILQ_REMOVE q e h =
     (let h1 = (if tqe_next h e \<noteq> NULL then put_prev (tqe_next h e) (tqe_prev h e) h
                else put_last q (tqe_prev h e) h)
      in tq_put (tqe_prev h1 e) (tqe_next h1 e) h1)"

definition TAILQ_EMPTY :: "addr \<Rightarrow> tq_heap \<Rightarrow> bool" where
  "TAILQ_EMPTY q h = (tqh_first h q = NULL)"

definition TAILQ_FIRST :: "addr \<Rightarrow> tq_heap \<Rightarrow> addr" where
  "TAILQ_FIRST q h = tqh_first h q"

definition TAILQ_NEXT :: "addr \<Rightarrow> tq_heap \<Rightarrow> addr" where
  "TAILQ_NEXT e h = tqe_next h e"

text \<open>
  \<open>TAILQ_LAST\<close> and \<open>TAILQ_PREV\<close> read the structure around a cell as a head: its second field
  is \<open>tqh_last\<close> for a head and \<open>tqe_prev\<close> for an element.
\<close>

fun second_field :: "tq_heap \<Rightarrow> tcell \<Rightarrow> tcell" where
  "second_field h (TqFirst q) = tqh_last h q"
| "second_field h (TqNext e) = tqe_prev h e"

definition TAILQ_LAST :: "addr \<Rightarrow> tq_heap \<Rightarrow> addr" where
  "TAILQ_LAST q h = tq_get h (second_field h (tqh_last h q))"

definition TAILQ_PREV :: "addr \<Rightarrow> tq_heap \<Rightarrow> addr" where
  "TAILQ_PREV e h = tq_get h (second_field h (tqe_prev h e))"

subsection \<open>The list a queue holds\<close>

fun tseg :: "tq_heap \<Rightarrow> tcell \<Rightarrow> addr list \<Rightarrow> tcell \<Rightarrow> addr \<Rightarrow> bool" where
  "tseg h c [] d v = (c = d \<and> tq_get h c = v)"
| "tseg h c (x # xs) d v =
     (tq_get h c = x \<and> x \<noteq> NULL \<and> tqe_prev h x = c \<and> tseg h (TqNext x) xs d v)"

definition tailq :: "tq_heap \<Rightarrow> addr \<Rightarrow> addr list \<Rightarrow> bool" where
  "tailq h q xs \<longleftrightarrow> distinct xs \<and> tseg h (TqFirst q) xs (tqh_last h q) NULL"

lemma tq_put_sel [simp]:
  "tq_get (tq_put c v h) d = (if c = d then v else tq_get h d)"
  "tqh_last (tq_put c v h) = tqh_last h" "tqe_prev (tq_put c v h) = tqe_prev h"
  by (cases c; cases d; simp)+

lemma put_last_sel [simp]:
  "tq_get (put_last q c h) d = tq_get h d" "tqe_prev (put_last q c h) = tqe_prev h"
  "tqh_last (put_last q c h) = (tqh_last h)(q := c)"
  by (cases d; simp add: put_last_def)+

lemma put_prev_sel [simp]:
  "tq_get (put_prev e c h) d = tq_get h d" "tqh_last (put_prev e c h) = tqh_last h"
  "tqe_prev (put_prev e c h) = (tqe_prev h)(e := c)"
  by (cases d; simp add: put_prev_def)+

text \<open>From here on the two pointer fields are read through \<open>tq_get\<close>.\<close>

declare tq_get.simps [simp del] tq_put.simps [simp del]

lemma tq_cells [simp]: "tqe_next h e = tq_get h (TqNext e)" "tqh_first h q = tq_get h (TqFirst q)"
  by (simp_all add: tq_get.simps)

lemma tseg_append:
  "tseg h c (us @ e # vs) d v \<longleftrightarrow>
   (\<exists>p. tseg h c us p e \<and> e \<noteq> NULL \<and> tqe_prev h e = p \<and> tseg h (TqNext e) vs d v)"
  by (induction us arbitrary: c) auto

lemma tseg_end: "tseg h c xs d v \<Longrightarrow> d = (if xs = [] then c else TqNext (last xs))"
  by (induction xs arbitrary: c) auto

lemma tseg_frame:
  assumes "tq_get h' c = tq_get h c"
    and "\<forall>x\<in>set xs. tqe_next h' x = tqe_next h x \<and> tqe_prev h' x = tqe_prev h x"
  shows "tseg h' c xs d v = tseg h c xs d v"
  using assms by (induction xs arbitrary: c) auto


lemma tseg_val: "tseg h c xs d v \<Longrightarrow> tq_get h d = v"
  by (induction xs arbitrary: c) auto

lemma tseg_put_end:
  "tseg h c xs d v \<Longrightarrow> distinct xs \<Longrightarrow> c \<notin> TqNext ` set xs \<Longrightarrow> tseg (tq_put d w h) c xs d w"
proof (induction xs arbitrary: c)
  case (Cons x xs)
  from Cons.prems(1) have "d = TqNext (last (x # xs))" using tseg_end [of h c "x # xs" d v] by simp
  moreover have "last (x # xs) \<in> set (x # xs)" by (rule last_in_set) simp
  ultimately have "c \<noteq> d" using Cons.prems(3) by (auto simp del: last.simps)
  moreover have "tseg (tq_put d w h) (TqNext x) xs d w"
    by (rule Cons.IH) (use Cons.prems in auto)
  ultimately show ?case using Cons.prems by simp
qed simp

lemma tseg_cells:
  assumes "tseg h c xs d v" and "d \<noteq> c"
  shows "\<exists>x\<in>set xs. d = TqNext x"
  using tseg_end [OF assms(1)] assms(2) last_in_set [of xs] by (auto split: if_splits)

lemma tailq_split:
  assumes "tailq h q (us @ e # vs)"
  obtains p where "tseg h (TqFirst q) us p e" and "e \<noteq> NULL" and "tqe_prev h e = p"
    and "tseg h (TqNext e) vs (tqh_last h q) NULL" and "distinct us" and "distinct vs"
    and "set us \<inter> set vs = {}" and "e \<notin> set us" and "e \<notin> set vs"
    and "p = (if us = [] then TqFirst q else TqNext (last us))"
proof -
  from assms obtain p where p: "tseg h (TqFirst q) us p e" "e \<noteq> NULL" "tqe_prev h e = p"
    "tseg h (TqNext e) vs (tqh_last h q) NULL"
    unfolding tailq_def tseg_append by blast
  from assms have "distinct (us @ e # vs)" by (simp add: tailq_def)
  with tseg_end [OF p(1)] show thesis by (intro that [OF p]) auto
qed

lemma last_cell_out:
  assumes "p = (if us = [] then TqFirst q else TqNext (last us))" and "set us \<inter> A = {}"
  shows "p \<notin> TqNext ` A"
  using assms last_in_set [of us] by (auto simp: disjoint_iff split: if_splits)

subsection \<open>What each macro does\<close>

lemma TAILQ_INIT_empty: "tailq (TAILQ_INIT q h) q []"
  by (simp add: tailq_def TAILQ_INIT_def)

lemma TAILQ_EMPTY_iff: "tailq h q xs \<Longrightarrow> TAILQ_EMPTY q h \<longleftrightarrow> xs = []"
  by (cases xs) (auto simp: tailq_def TAILQ_EMPTY_def)

lemma TAILQ_FIRST_hd: "tailq h q (x # xs) \<Longrightarrow> TAILQ_FIRST q h = x"
  by (simp add: tailq_def TAILQ_FIRST_def)

lemma TAILQ_NEXT_next: "tailq h q (us @ x # vs) \<Longrightarrow>
    TAILQ_NEXT x h = (case vs of [] \<Rightarrow> NULL | y # _ \<Rightarrow> y)"
  by (cases vs) (auto simp: tailq_def tseg_append TAILQ_NEXT_def)

lemma TAILQ_INSERT_TAIL_list:
  assumes "tailq h q xs" and "e \<notin> set xs" and "e \<noteq> NULL"
  shows "tailq (TAILQ_INSERT_TAIL q e h) q (xs @ [e])"
proof -
  let ?d = "tqh_last h q"
  let ?h1 = "put_prev e ?d (tq_put (TqNext e) NULL h)"
  have d: "?d = (if xs = [] then TqFirst q else TqNext (last xs))" "distinct xs"
    using assms(1) tseg_end [of h "TqFirst q" xs] by (auto simp: tailq_def)
  from d(1) assms(2) have "?d \<noteq> TqNext e" using last_in_set [of xs] by (auto split: if_splits)
  moreover have "tseg ?h1 (TqFirst q) xs ?d NULL = tseg h (TqFirst q) xs ?d NULL"
    by (rule tseg_frame) (use assms(2) in auto)
  then have "tseg (tq_put ?d e ?h1) (TqFirst q) xs ?d e"
    using tseg_put_end [of ?h1 "TqFirst q" xs ?d NULL e] assms(1) d(2) by (auto simp: tailq_def)
  moreover have "tseg (TAILQ_INSERT_TAIL q e h) (TqFirst q) xs ?d e =
      tseg (tq_put ?d e ?h1) (TqFirst q) xs ?d e"
    by (rule tseg_frame) (auto simp: TAILQ_INSERT_TAIL_def Let_def)
  ultimately show ?thesis
    using assms(2,3) d(2) by (auto simp: tailq_def tseg_append TAILQ_INSERT_TAIL_def Let_def
        split: tcell.splits)
qed

lemma TAILQ_REMOVE_list:
  assumes "tailq h q (us @ e # vs)"
  shows "tailq (TAILQ_REMOVE q e h) q (us @ vs)"
proof -
  from assms obtain p where sp: "tseg h (TqFirst q) us p e" "e \<noteq> NULL" "tqe_prev h e = p"
    "tseg h (TqNext e) vs (tqh_last h q) NULL" "distinct us" "distinct vs"
    "set us \<inter> set vs = {}" "e \<notin> set us" "e \<notin> set vs"
    "p = (if us = [] then TqFirst q else TqNext (last us))" by (rule tailq_split)
  have pe: "p \<noteq> TqNext e" using last_cell_out [OF sp(10), of "{e}"] sp(8) by auto
  have put: "tseg (tq_put p w h) (TqFirst q) us p w" for w
    by (rule tseg_put_end [OF sp(1,5)]) auto
  show ?thesis
  proof (cases vs)
    case Nil
    let ?h = "TAILQ_REMOVE q e h"
    have "tq_get h (TqNext e) = NULL" using sp(4) Nil by auto
    then have h: "?h = tq_put p NULL (put_last q p h)"
      using sp(3) by (simp add: TAILQ_REMOVE_def Let_def)
    have "tseg ?h (TqFirst q) us p NULL = tseg (tq_put p NULL h) (TqFirst q) us p NULL"
      by (rule tseg_frame) (simp_all add: h)
    with put [of NULL] sp Nil show ?thesis by (simp add: tailq_def h)
  next
    case (Cons y ys)
    let ?h = "TAILQ_REMOVE q e h"
    from sp(4) Cons have y: "tqe_next h e = y" "y \<noteq> NULL" "tqe_prev h y = TqNext e"
      "tseg h (TqNext y) ys (tqh_last h q) NULL" by auto
    have h: "?h = tq_put p y (put_prev y p h)"
      using y sp(3,9) Cons by (simp add: TAILQ_REMOVE_def Let_def)
    have "tseg ?h (TqFirst q) us p y = tseg (tq_put p y h) (TqFirst q) us p y"
      by (rule tseg_frame) (use h sp(7) Cons in \<open>auto split: tcell.splits\<close>)
    moreover have "tseg ?h (TqNext y) ys (tqh_last h q) NULL = tseg h (TqNext y) ys (tqh_last h q) NULL"
      by (rule tseg_frame) (use h sp(6) last_cell_out [OF sp(10,7)] Cons in \<open>auto split: tcell.splits\<close>)
    ultimately show ?thesis using put [of y] y sp Cons
      by (auto simp: tailq_def tseg_append h)
  qed
qed


lemma TAILQ_INSERT_HEAD_list:
  assumes "tailq h q xs" and "e \<notin> set xs" and "e \<noteq> NULL"
  shows "tailq (TAILQ_INSERT_HEAD q e h) q (e # xs)"
proof (cases xs)
  case Nil
  with assms show ?thesis by (auto simp: tailq_def TAILQ_INSERT_HEAD_def Let_def)
next
  case (Cons y ys)
  from assms(1) Cons have y: "tqh_first h q = y" "y \<noteq> NULL" "tseg h (TqNext y) ys (tqh_last h q) NULL"
    by (auto simp: tailq_def)
  let ?h = "TAILQ_INSERT_HEAD q e h"
  have "tseg ?h (TqNext y) ys (tqh_last h q) NULL = tseg h (TqNext y) ys (tqh_last h q) NULL"
    by (rule tseg_frame) (use assms Cons y in \<open>auto simp: TAILQ_INSERT_HEAD_def Let_def tailq_def\<close>)
  with y assms Cons show ?thesis
    by (auto simp: tailq_def TAILQ_INSERT_HEAD_def Let_def)
qed

lemma TAILQ_INSERT_AFTER_list:
  assumes "tailq h q (us @ l # vs)" and "e \<notin> set (us @ l # vs)" and "e \<noteq> NULL"
  shows "tailq (TAILQ_INSERT_AFTER q l e h) q (us @ l # e # vs)"
proof -
  from assms(1) obtain p where sp: "tseg h (TqFirst q) us p l" "l \<noteq> NULL" "tqe_prev h l = p"
    "tseg h (TqNext l) vs (tqh_last h q) NULL" "distinct us" "distinct vs"
    "set us \<inter> set vs = {}" "l \<notin> set us" "l \<notin> set vs" by (rule tailq_split)
  let ?h = "TAILQ_INSERT_AFTER q l e h"
  have "tq_get h (TqNext l) \<in> insert NULL (set vs)" using sp(4) by (cases vs) auto
  then have us: "tseg ?h (TqFirst q) us p l = tseg h (TqFirst q) us p l"
    by (intro tseg_frame) (use sp assms(2) in \<open>auto simp: TAILQ_INSERT_AFTER_def Let_def disjoint_iff\<close>)
  show ?thesis
  proof (cases vs)
    case Nil
    with us sp assms show ?thesis
      by (auto simp: tailq_def tseg_append TAILQ_INSERT_AFTER_def Let_def)
  next
    case (Cons y ys)
    have "tseg ?h (TqNext y) ys (tqh_last h q) NULL = tseg h (TqNext y) ys (tqh_last h q) NULL"
      by (rule tseg_frame) (use sp assms(2) Cons in \<open>auto simp: TAILQ_INSERT_AFTER_def Let_def\<close>)
    with us sp assms Cons show ?thesis
      by (auto simp: tailq_def tseg_append TAILQ_INSERT_AFTER_def Let_def)
  qed
qed

lemma TAILQ_INSERT_BEFORE_list:
  assumes "tailq h q (us @ l # vs)" and "e \<notin> set (us @ l # vs)" and "e \<noteq> NULL"
  shows "tailq (TAILQ_INSERT_BEFORE l e h) q (us @ e # l # vs)"
proof -
  from assms(1) obtain p where sp: "tseg h (TqFirst q) us p l" "l \<noteq> NULL" "tqe_prev h l = p"
    "tseg h (TqNext l) vs (tqh_last h q) NULL" "distinct us" "distinct vs"
    "set us \<inter> set vs = {}" "l \<notin> set us" "l \<notin> set vs"
    "p = (if us = [] then TqFirst q else TqNext (last us))" by (rule tailq_split)
  let ?h = "TAILQ_INSERT_BEFORE l e h"
  let ?h1 = "put_prev e p (tq_put (TqNext e) l h)"
  have p: "p \<noteq> TqNext e" "p \<noteq> TqNext l" "p \<notin> TqNext ` set vs"
    using last_cell_out [OF sp(10), of "{e}"] last_cell_out [OF sp(10), of "{l}"]
      last_cell_out [OF sp(10,7)] sp(8) assms(2) by auto
  have "tseg ?h1 (TqFirst q) us p l = tseg h (TqFirst q) us p l"
    by (rule tseg_frame) (use assms(2) in auto)
  then have "tseg (tq_put p e ?h1) (TqFirst q) us p e"
    using tseg_put_end [of ?h1 "TqFirst q" us p l e] sp(1,5) by blast
  moreover have "tseg ?h (TqFirst q) us p e = tseg (tq_put p e ?h1) (TqFirst q) us p e"
    by (rule tseg_frame) (use sp assms(2) p in \<open>auto simp: TAILQ_INSERT_BEFORE_def Let_def split: tcell.splits\<close>)
  moreover have "tseg ?h (TqNext l) vs (tqh_last h q) NULL = tseg h (TqNext l) vs (tqh_last h q) NULL"
    by (rule tseg_frame) (use sp assms(2) p in \<open>auto simp: TAILQ_INSERT_BEFORE_def Let_def split: tcell.splits\<close>)
  ultimately show ?thesis using sp assms(2,3) p
    by (auto simp: tailq_def tseg_append TAILQ_INSERT_BEFORE_def Let_def split: tcell.splits)
qed

lemma TAILQ_LAST_last:
  assumes "tailq h q (us @ [e])"
  shows "TAILQ_LAST q h = e"
proof -
  from assms obtain p where "tseg h (TqFirst q) us p e" "tqe_prev h e = p"
    "tseg h (TqNext e) [] (tqh_last h q) NULL" by (rule tailq_split)
  then show ?thesis using tseg_val [of h "TqFirst q" us p e]
    by (cases "tqh_last h q") (auto simp: TAILQ_LAST_def)
qed

lemma TAILQ_PREV_prev:
  assumes "tailq h q (us @ d # e # vs)"
  shows "TAILQ_PREV e h = d"
  using assms tseg_val [of h "TqFirst q" us _ d]
  by (auto simp: tailq_def tseg_append TAILQ_PREV_def)

text \<open>Another queue does not notice.\<close>

lemma tailq_frame:
  assumes "tqh_first h' q = tqh_first h q" and "tqh_last h' q = tqh_last h q"
    and "\<forall>x\<in>set xs. tqe_next h' x = tqe_next h x \<and> tqe_prev h' x = tqe_prev h x"
  shows "tailq h' q xs = tailq h q xs"
  unfolding tailq_def assms(2) using tseg_frame [of h' "TqFirst q" h xs] assms by simp

lemma tailq_last_cell:
  assumes "tailq h r ys"
  shows "tqh_last h r \<in> insert (TqFirst r) (TqNext ` set ys)"
  using assms tseg_end [of h "TqFirst r" ys "tqh_last h r" NULL] last_in_set [of ys]
  by (auto simp: tailq_def split: if_splits)

lemma TAILQ_INSERT_TAIL_other:
  assumes "tailq h q xs" and "tailq h r ys" and "q \<noteq> r" and "set xs \<inter> set ys = {}" and "e \<notin> set xs"
  shows "tailq (TAILQ_INSERT_TAIL r e h) q xs"
proof -
  have "tqh_last h r \<noteq> TqFirst q" "tqh_last h r \<notin> TqNext ` set xs"
    using tailq_last_cell [OF assms(2)] assms(3,4) by auto
  with assms show ?thesis
    by (subst tailq_frame [of _ _ h]) (auto simp: TAILQ_INSERT_TAIL_def Let_def split: tcell.splits)
qed

lemma TAILQ_REMOVE_other:
  assumes "tailq h q xs" and "tailq h r (us @ e # vs)" and "q \<noteq> r"
    and "set xs \<inter> set (us @ e # vs) = {}"
  shows "tailq (TAILQ_REMOVE r e h) q xs"
proof -
  from assms(2) obtain p where sp: "tqe_prev h e = p" "tseg h (TqNext e) vs (tqh_last h r) NULL"
    "p = (if us = [] then TqFirst r else TqNext (last us))" by (rule tailq_split)
  have "p \<noteq> TqFirst q" using sp(3) assms(3) by (auto split: if_splits)
  moreover have "p \<notin> TqNext ` set xs" by (rule last_cell_out [OF sp(3)]) (use assms(4) in auto)
  moreover have "tqe_next h e \<notin> set xs \<or> tqe_next h e = NULL" using sp(2) assms(4) by (cases vs) auto
  ultimately show ?thesis using assms sp(1)
    by (subst tailq_frame [of _ _ h]) (auto simp: TAILQ_REMOVE_def Let_def split: tcell.splits)
qed

lemma TAILQ_INIT_other: "tailq h q xs \<Longrightarrow> q \<noteq> r \<Longrightarrow> tailq (TAILQ_INIT r h) q xs"
  by (subst tailq_frame [of _ _ h]) (auto simp: TAILQ_INIT_def)

subsection \<open>Walking a queue\<close>

text \<open>The \<open>for\<close> loop over a tail queue that stops at the first element with a property.\<close>

partial_function (option) tq_search :: "(addr \<Rightarrow> addr) \<Rightarrow> (addr \<Rightarrow> bool) \<Rightarrow> addr \<Rightarrow> addr option" where
  "tq_search nxt ok p = (if p = NULL then Some NULL else if ok p then Some p
     else tq_search nxt ok (nxt p))"

lemma tq_search_tseg:
  "tseg h c xs d NULL \<Longrightarrow>
   tq_search (tqe_next h) ok (tq_get h c) = Some (case find ok xs of None \<Rightarrow> NULL | Some x \<Rightarrow> x)"
proof (induction xs arbitrary: c)
  case Nil
  then have "tq_get h c = NULL" by auto
  then show ?case by (subst tq_search.simps) simp
next
  case (Cons x xs)
  have n: "tqe_next h = (\<lambda>a. tq_get h (TqNext a))" by (rule ext) simp
  from Cons.IH [of "TqNext x"] Cons.prems show ?case
    unfolding n by (subst tq_search.simps) auto
qed

lemma tq_search_tailq:
  "tailq h q xs \<Longrightarrow>
   tq_search (tqe_next h) ok (tqh_first h q) = Some (case find ok xs of None \<Rightarrow> NULL | Some x \<Rightarrow> x)"
  using tq_search_tseg [of h "TqFirst q" xs] by (auto simp: tailq_def)

end
