(* ===== verification/Channel.thy ===== *)
theory Channel
  imports LwtLife Rbuf Tailq
begin

text \<open>
  The channels and channel groups of \<open>channel.c\<close>. The state extends that of the thread library
  by the structures the functions allocate: channels, ring buffers, messages (\<open>clist_head\<close>),
  group counters and the tail queues of the groups, each a map from the address of its block.

  A function that waits (\<open>lwt_snd\<close> on a full buffer, \<open>lwt_rcv\<close> on an empty one,
  \<open>lwt_cgrp_wait\<close>) loops over \<open>lwt_yield\<close>. The loop is \<open>wait_while\<close>: it ends with
  \<open>Switched\<close> when the yield switches away, and the thread comes back to the loop test, which is
  where the \<open>resume\<close> definitions start; \<open>Diverges\<close> when the caller spins for ever.
\<close>

record lwt_channel =
  c_id :: u32
  c_snd_cnt :: int
  c_size :: int
  c_rbuf :: addr
  c_rcv_thd :: addr
  c_mark :: addr
  c_cgrp :: addr

record clist_head =
  m_data :: addr
  m_thd :: addr

record chan_sys = lwt_sys +
  s_chan :: "addr \<Rightarrow> lwt_channel"
  s_rbuf :: "addr \<Rightarrow> rbuf"
  s_msg :: "addr \<Rightarrow> clist_head"
  s_chan_cnt :: "addr \<Rightarrow> u32"
  s_tq :: tq_heap
  lwt_chanid_counter :: u32

definition SIZEOF_CHANNEL :: int where
  "SIZEOF_CHANNEL = 36"

definition SIZEOF_MSG :: int where
  "SIZEOF_MSG = 8"

definition SIZEOF_CGRP :: int where
  "SIZEOF_CGRP = 12"

definition upd_chan :: "addr \<Rightarrow> (lwt_channel \<Rightarrow> lwt_channel) \<Rightarrow> 'z chan_sys_scheme \<Rightarrow> 'z chan_sys_scheme" where
  "upd_chan c f s = s\<lparr>s_chan := (s_chan s)(c := f (s_chan s c))\<rparr>"

abbreviation rbuf_of :: "'z chan_sys_scheme \<Rightarrow> addr \<Rightarrow> rbuf" where
  "rbuf_of s c \<equiv> s_rbuf s (c_rbuf (s_chan s c))"

subsection \<open>Waiting\<close>

partial_function (option) wait_while ::
    "('s \<Rightarrow> bool) \<Rightarrow> ('s \<Rightarrow> (unit outcome \<times> 's) result) \<Rightarrow> 's \<Rightarrow> (unit outcome \<times> 's) result option" where
  "wait_while busy yld s =
     (if busy s then
        (case yld s of
           Inl e \<Rightarrow> Some (Inl e)
         | Inr (r, s') \<Rightarrow> (case r of
             Switched \<Rightarrow> Some (Inr (Switched, s'))
           | Returned _ \<Rightarrow> wait_while busy yld s'))
      else Some (Inr (Returned (), s)))"

definition waiting :: "('s \<Rightarrow> bool) \<Rightarrow> ('s \<Rightarrow> (unit outcome \<times> 's) result) \<Rightarrow>
    ('s \<Rightarrow> ('v outcome \<times> 's) result) \<Rightarrow> 's \<Rightarrow> ('v outcome \<times> 's) result" where
  "waiting busy yld k s =
     (case wait_while busy yld s of
        None \<Rightarrow> Inl Diverges
      | Some (Inl e) \<Rightarrow> Inl e
      | Some (Inr (r, s')) \<Rightarrow> (case r of Switched \<Rightarrow> Inr (Switched, s') | Returned _ \<Rightarrow> k s'))"

subsection \<open>Channels\<close>

definition lwt_chan :: "(nat \<Rightarrow> addr) \<Rightarrow> int \<Rightarrow> 'z chan_sys_scheme \<Rightarrow> (addr \<times> 'z chan_sys_scheme) result" where
  "lwt_chan junk sz s =
     rbind (assertion (0 \<le> sz)) (\<lambda>_.
     rbind (kalloc (s_kheap s) SIZEOF_CHANNEL) (\<lambda>(c, h1).
     rbind (assertion (c \<noteq> NULL)) (\<lambda>_.
     rbind (rbuf_init h1 junk (word_of_int sz)) (\<lambda>((rb, r), h2).
       Inr (c, (upd_chan c (\<lambda>ch. ch\<lparr>c_size := sz, c_snd_cnt := 0, c_id := lwt_chanid_counter s,
                  c_rbuf := rb, c_rcv_thd := current_thread s, c_cgrp := NULL, c_mark := NULL\<rparr>) s)
            \<lparr>s_kheap := h2, s_rbuf := (s_rbuf s)(rb := r),
             lwt_chanid_counter := lwt_chanid_counter s + 1, n_chan := n_chan s + 1\<rparr>)))))"

definition lwt_chan_deref :: "addr \<Rightarrow> 'z chan_sys_scheme \<Rightarrow> 'z chan_sys_scheme result" where
  "lwt_chan_deref c s =
     rbind (assertion (c \<noteq> NULL)) (\<lambda>_.
     if c_rcv_thd (s_chan s c) = current_thread s \<and> c_snd_cnt (s_chan s c) = 0 then
       let s1 = upd_chan c (\<lambda>ch. ch\<lparr>c_rcv_thd := NULL\<rparr>) s in
       rbind (rbuf_free (s_kheap s1) (c_rbuf (s_chan s1 c)) (rbuf_of s1 c)) (\<lambda>h1.
       rbind (kfree h1 c SIZEOF_CHANNEL) (\<lambda>h2.
         Inr ((upd_chan c (\<lambda>ch. ch\<lparr>c_rbuf := NULL\<rparr>) s1)\<lparr>s_kheap := h2\<rparr>)))
     else Inr (upd_chan c (\<lambda>ch. ch\<lparr>c_snd_cnt := c_snd_cnt ch - 1\<rparr>) s))"

text \<open>The tail of \<open>lwt_snd\<close>, after the wait.\<close>

definition snd_write :: "addr \<Rightarrow> addr \<Rightarrow> 'z chan_sys_scheme \<Rightarrow> (int outcome \<times> 'z chan_sys_scheme) result" where
  "snd_write c data s =
     (let s1 = s\<lparr>n_snding := n_snding s + 1\<rparr> in
      rbind (kalloc (s_kheap s1) SIZEOF_MSG) (\<lambda>(t, h).
      if t = NULL then Inl NullDeref
      else
        let s2 = s1\<lparr>s_kheap := h,
                    s_msg := (s_msg s1)(t := \<lparr>m_data = data, m_thd = current_thread s1\<rparr>)\<rparr> in
        rbind (rbuf_write (rbuf_of s2 c) t) (\<lambda>(w, rb).
        rbind (assertion (w = WRITERBUF_OK)) (\<lambda>_.
          let s3 = s2\<lparr>s_rbuf := (s_rbuf s2)(c_rbuf (s_chan s2 c) := rb)\<rparr>;
              s4 = upd_chan c (\<lambda>ch. ch\<lparr>c_snd_cnt := c_snd_cnt ch + 1\<rparr>) s3
          in Inr (Returned 0, s4\<lparr>n_snding := n_snding s4 - 1\<rparr>)))))"

definition lwt_snd_resume :: "addr \<Rightarrow> addr \<Rightarrow> 'z chan_sys_scheme \<Rightarrow> (int outcome \<times> 'z chan_sys_scheme) result" where
  "lwt_snd_resume c data s =
     waiting (\<lambda>s. rbuf_isfull (rbuf_of s c)) (lwt_yield NULL) (snd_write c data) s"

definition lwt_snd :: "addr \<Rightarrow> addr \<Rightarrow> 'z chan_sys_scheme \<Rightarrow> (int outcome \<times> 'z chan_sys_scheme) result" where
  "lwt_snd c data s =
     rbind (assertion (data \<noteq> NULL \<and> c \<noteq> NULL)) (\<lambda>_.
     if c_rcv_thd (s_chan s c) = NULL then Inr (Returned (-1), s)
     else lwt_snd_resume c data s)"

text \<open>The tail of \<open>lwt_rcv\<close>, after the wait.\<close>

definition rcv_read :: "addr \<Rightarrow> 'z chan_sys_scheme \<Rightarrow> (addr outcome \<times> 'z chan_sys_scheme) result" where
  "rcv_read c s =
     (let s1 = s\<lparr>n_rcving := n_rcving s - 1\<rparr> in
      rbind (rbuf_read (rbuf_of s1 c)) (\<lambda>(m, rb).
      if m = NULL then Inl NullDeref
      else
        let s2 = s1\<lparr>s_rbuf := (s_rbuf s1)(c_rbuf (s_chan s1 c) := rb)\<rparr>;
            tmp = m_data (s_msg s2 m)
        in rbind (kfree (s_kheap s2) m SIZEOF_MSG) (\<lambda>h. Inr (Returned tmp, s2\<lparr>s_kheap := h\<rparr>))))"

definition lwt_rcv_resume :: "addr \<Rightarrow> 'z chan_sys_scheme \<Rightarrow> (addr outcome \<times> 'z chan_sys_scheme) result" where
  "lwt_rcv_resume c s =
     waiting (\<lambda>s. rbuf_isempty (rbuf_of s c)) (lwt_yield NULL) (rcv_read c) s"

definition lwt_rcv :: "addr \<Rightarrow> 'z chan_sys_scheme \<Rightarrow> (addr outcome \<times> 'z chan_sys_scheme) result" where
  "lwt_rcv c s =
     rbind (assertion (c \<noteq> NULL)) (\<lambda>_.
     if c_rcv_thd (s_chan s c) = NULL then Inr (Returned NULL, s)
     else lwt_rcv_resume c (s\<lparr>n_rcving := n_rcving s + 1\<rparr>))"

definition lwt_snd_chan :: "addr \<Rightarrow> addr \<Rightarrow> 'z chan_sys_scheme \<Rightarrow> (int outcome \<times> 'z chan_sys_scheme) result" where
  "lwt_snd_chan c sending s =
     (if sending = NULL then Inl NullDeref
      else lwt_snd c sending (upd_chan sending (\<lambda>ch. ch\<lparr>c_snd_cnt := c_snd_cnt ch + 1\<rparr>) s))"

definition lwt_rcv_chan :: "addr \<Rightarrow> 'z chan_sys_scheme \<Rightarrow> (addr outcome \<times> 'z chan_sys_scheme) result" where
  "lwt_rcv_chan c s = lwt_rcv c s"

definition lwt_create_chan :: "addr \<Rightarrow> addr \<Rightarrow> 'z chan_sys_scheme \<Rightarrow> (addr \<times> 'z chan_sys_scheme) result" where
  "lwt_create_chan fn c s = lwt_create fn c LWT_DEFAULT s"

definition lwt_chan_mark_set :: "addr \<Rightarrow> addr \<Rightarrow> 'z chan_sys_scheme \<Rightarrow> 'z chan_sys_scheme result" where
  "lwt_chan_mark_set c mark s =
     rbind (assertion (mark \<noteq> NULL)) (\<lambda>_.
       if c = NULL then Inl NullDeref else Inr (upd_chan c (\<lambda>ch. ch\<lparr>c_mark := mark\<rparr>) s))"

definition lwt_chan_mark_get :: "addr \<Rightarrow> 'z chan_sys_scheme \<Rightarrow> addr result" where
  "lwt_chan_mark_get c s =
     rbind (assertion (c \<noteq> NULL)) (\<lambda>_.
       if c_mark (s_chan s c) \<noteq> NULL then Inr (c_mark (s_chan s c)) else Inr NULL)"

subsection \<open>Channel groups\<close>

definition lwt_cgrp :: "'z chan_sys_scheme \<Rightarrow> (addr \<times> 'z chan_sys_scheme) result" where
  "lwt_cgrp s =
     rbind (kalloc (s_kheap s) SIZEOF_CGRP) (\<lambda>(cg, h).
       if cg = NULL then Inr (NULL, s\<lparr>s_kheap := h\<rparr>)
       else Inr (cg, s\<lparr>s_kheap := h, s_chan_cnt := (s_chan_cnt s)(cg := 0),
                       s_tq := TAILQ_INIT cg (s_tq s)\<rparr>))"

definition lwt_cgrp_free :: "addr \<Rightarrow> 'z chan_sys_scheme \<Rightarrow> (int \<times> 'z chan_sys_scheme) result" where
  "lwt_cgrp_free cg s =
     rbind (assertion (cg \<noteq> NULL)) (\<lambda>_.
     if s_chan_cnt s cg \<noteq> 0 then Inr (-1, s)
     else rbind (kfree (s_kheap s) cg SIZEOF_CGRP) (\<lambda>h. Inr (0, s\<lparr>s_kheap := h\<rparr>)))"

definition lwt_cgrp_add :: "addr \<Rightarrow> addr \<Rightarrow> 'z chan_sys_scheme \<Rightarrow> (int \<times> 'z chan_sys_scheme) result" where
  "lwt_cgrp_add cg c s =
     rbind (assertion (cg \<noteq> NULL)) (\<lambda>_.
     rbind (assertion (c \<noteq> NULL)) (\<lambda>_.
     if c_cgrp (s_chan s c) = NULL then
       let s1 = upd_chan c (\<lambda>ch. ch\<lparr>c_cgrp := cg\<rparr>) s
       in Inr (0, s1\<lparr>s_chan_cnt := (s_chan_cnt s1)(cg := s_chan_cnt s1 cg + 1),
                     s_tq := TAILQ_INSERT_TAIL cg c (s_tq s1)\<rparr>)
     else if c_cgrp (s_chan s c) = cg then Inr (0, s)
     else Inr (-1, s)))"

definition lwt_cgrp_rem :: "addr \<Rightarrow> addr \<Rightarrow> 'z chan_sys_scheme \<Rightarrow> (int \<times> 'z chan_sys_scheme) result" where
  "lwt_cgrp_rem cg c s =
     rbind (assertion (cg \<noteq> NULL)) (\<lambda>_.
     rbind (assertion (c \<noteq> NULL)) (\<lambda>_.
     if c_cgrp (s_chan s c) \<noteq> cg then Inr (-1, s)
     else if rbuf_isempty (rbuf_of s c) then
       Inr (0, s\<lparr>s_tq := TAILQ_REMOVE cg c (s_tq s),
                 s_chan_cnt := (s_chan_cnt s)(cg := s_chan_cnt s cg - 1)\<rparr>)
     else Inr (1, s)))"

definition cgrp_scan :: "addr \<Rightarrow> 'z chan_sys_scheme \<Rightarrow> addr option" where
  "cgrp_scan cg s =
     tq_search (tqe_next (s_tq s)) (\<lambda>p. \<not> rbuf_isempty (rbuf_of s p)) (tqh_first (s_tq s) cg)"

partial_function (option) cgrp_wait_loop ::
    "addr \<Rightarrow> 'z chan_sys_scheme \<Rightarrow> (addr outcome \<times> 'z chan_sys_scheme) result option" where
  "cgrp_wait_loop cg s =
     (case cgrp_scan cg s of
        None \<Rightarrow> None
      | Some p \<Rightarrow>
          if p \<noteq> NULL then Some (Inr (Returned p, s))
          else (case lwt_yield NULL s of
              Inl e \<Rightarrow> Some (Inl e)
            | Inr (r, s') \<Rightarrow> (case r of
                Switched \<Rightarrow> Some (Inr (Switched, s'))
              | Returned _ \<Rightarrow> cgrp_wait_loop cg s')))"

definition lwt_cgrp_wait :: "addr \<Rightarrow> 'z chan_sys_scheme \<Rightarrow> (addr outcome \<times> 'z chan_sys_scheme) result" where
  "lwt_cgrp_wait cg s =
     rbind (assertion (cg \<noteq> NULL)) (\<lambda>_. rbind (terminating (cgrp_wait_loop cg s)) id)"

end
