(* ===== verification/ChanFlow.thy ===== *)
theory ChanFlow
  imports Channel
begin

text \<open>
  What travels through the channels of \<open>channel.c\<close>: the invariant \<open>chan_inv\<close> of a set of live
  channels that share the pool, what \<open>lwt_snd\<close> and \<open>lwt_rcv\<close> do to the list \<open>msgs\<close> of pending
  data of each channel, and the runs \<open>traffic\<close> of any number of threads that send, receive, block
  and yield in any order.
\<close>

subsection \<open>The waiting loop\<close>

lemma wait_while_out [simp]: "\<not> busy s \<Longrightarrow> wait_while busy yld s = Some (Inr (Returned (), s))"
  by (subst wait_while.simps) simp

lemma wait_while_switch:
  "busy s \<Longrightarrow> yld s = Inr (Switched, s') \<Longrightarrow> wait_while busy yld s = Some (Inr (Switched, s'))"
  by (subst wait_while.simps) simp

lemma wait_while_keeps:
  assumes "wait_while busy yld s = Some q" and "P s"
    and "\<And>s r s'. P s \<Longrightarrow> yld s = Inr (r, s') \<Longrightarrow> P s'"
  shows "\<forall>r s'. q = Inr (r, s') \<longrightarrow> P s' \<and> (r \<noteq> Switched \<longrightarrow> \<not> busy s')"
proof -
  define Q where "Q = (\<lambda>b y s (q :: (unit outcome \<times> 'a) result). b = busy \<longrightarrow> y = yld \<longrightarrow> P s \<longrightarrow>
    (\<forall>r s'. q = Inr (r, s') \<longrightarrow> P s' \<and> (r \<noteq> Switched \<longrightarrow> \<not> busy s')))"
  have "Q busy yld s q"
  proof (rule wait_while.raw_induct [where P = Q, OF _ assms(1)])
    fix f b y s and q :: "(unit outcome \<times> 'a) result"
    assume IH: "\<And>b y s q. f b y s = Some q \<Longrightarrow> Q b y s q"
      and eq: "(if b s then
        (case y s of
           Inl e \<Rightarrow> Some (Inl e)
         | Inr (r, s') \<Rightarrow> (case r of
             Switched \<Rightarrow> Some (Inr (Switched, s'))
           | Returned _ \<Rightarrow> f b y s'))
      else Some (Inr (Returned (), s))) = Some q"
    show "Q b y s q"
      unfolding Q_def
    proof (intro impI allI)
      fix r s' assume a: "b = busy" "y = yld" "P s" "q = Inr (r, s')"
      show "P s' \<and> (r \<noteq> Switched \<longrightarrow> \<not> busy s')"
      proof (cases "busy s")
        case True
        with eq a obtain r1 s1 where y: "yld s = Inr (r1, s1)" by (cases "yld s") auto
        note p1 = assms(3) [OF a(3) y]
        show ?thesis
        proof (cases r1)
          case (Returned u)
          with eq a True y have "f busy yld s1 = Some (Inr (r, s'))" by simp
          from IH [OF this] p1 show ?thesis unfolding Q_def by blast
        qed (use eq a True y p1 in simp)
      qed (use eq a in simp)
    qed
  qed
  with assms(2) show ?thesis unfolding Q_def by blast
qed

lemma wait_while_spins:
  assumes "Q s" and "\<And>s. Q s \<Longrightarrow> busy s \<and> (\<exists>s'. yld s = Inr (Returned (), s') \<and> Q s')"
  shows "wait_while busy yld s = None"
proof (rule ccontr)
  assume "wait_while busy yld s \<noteq> None"
  then obtain q where q: "wait_while busy yld s = Some q" by auto
  define R where "R = (\<lambda>b y s (q :: (unit outcome \<times> 'a) result). b = busy \<longrightarrow> y = yld \<longrightarrow> \<not> Q s)"
  have "R busy yld s q"
  proof (rule wait_while.raw_induct [where P = R, OF _ q])
    fix f b y s and q :: "(unit outcome \<times> 'a) result"
    assume IH: "\<And>b y s q. f b y s = Some q \<Longrightarrow> R b y s q"
      and eq: "(if b s then
        (case y s of
           Inl e \<Rightarrow> Some (Inl e)
         | Inr (r, s') \<Rightarrow> (case r of
             Switched \<Rightarrow> Some (Inr (Switched, s'))
           | Returned _ \<Rightarrow> f b y s'))
      else Some (Inr (Returned (), s))) = Some q"
    show "R b y s q"
      unfolding R_def
    proof (intro impI notI)
      assume a: "b = busy" "y = yld" "Q s"
      from assms(2) [OF a(3)] obtain s1 where "busy s" "yld s = Inr (Returned (), s1)" "Q s1" by blast
      with eq a have "f busy yld s1 = Some q" by simp
      from IH [OF this] \<open>Q s1\<close> show False unfolding R_def by blast
    qed
  qed
  with assms(1) show False unfolding R_def by blast
qed

lemma waiting_out [simp]: "\<not> busy s \<Longrightarrow> waiting busy yld k s = k s"
  by (simp add: waiting_def)

lemma waiting_switch:
  "busy s \<Longrightarrow> yld s = Inr (Switched, s') \<Longrightarrow> waiting busy yld k s = Inr (Switched, s')"
  by (simp add: waiting_def wait_while_switch)

lemma waiting_keeps:
  assumes "waiting busy yld k s = Inr (r, s')" and "P s"
    and "\<And>s r s'. P s \<Longrightarrow> yld s = Inr (r, s') \<Longrightarrow> P s'"
  obtains "r = Switched" and "P s'" | s1 where "P s1" and "\<not> busy s1" and "k s1 = Inr (r, s')"
proof -
  from assms(1) obtain r1 s1 where w: "wait_while busy yld s = Some (Inr (r1, s1))"
    and k: "(case r1 of Switched \<Rightarrow> Inr (Switched, s1) | Returned _ \<Rightarrow> k s1) = Inr (r, s')"
    by (auto simp: waiting_def split: option.splits sum.splits prod.splits)
  have "P s1 \<and> (r1 \<noteq> Switched \<longrightarrow> \<not> busy s1)"
    using wait_while_keeps [OF w, of P] assms(2,3) by blast
  then show thesis using k that by (cases r1) auto
qed

subsection \<open>The memory of the channels\<close>

definition memory where
  "memory s = (s_kheap s, s_chan s, s_rbuf s, s_msg s)"

definition msgs :: "'z chan_sys_scheme \<Rightarrow> addr \<Rightarrow> addr list" where
  "msgs s c = map (\<lambda>m. m_data (s_msg s m)) (contents (rbuf_of s c))"

definition held :: "'z chan_sys_scheme \<Rightarrow> addr set \<Rightarrow> addr set" where
  "held s C = (\<Union>c\<in>C. set (contents (rbuf_of s c)))"

definition chan_ok :: "'z chan_sys_scheme \<Rightarrow> addr \<Rightarrow> bool" where
  "chan_ok s c \<longleftrightarrow> c \<noteq> NULL \<and> c_rcv_thd (s_chan s c) \<noteq> NULL \<and> rbuf_ok (rbuf_of s c) \<and>
     distinct (contents (rbuf_of s c))"

definition chan_inv :: "'z chan_sys_scheme \<Rightarrow> addr set \<Rightarrow> addr set \<Rightarrow> bool" where
  "chan_inv s A C \<longleftrightarrow> kpool (s_kheap s) A \<and> (\<forall>c\<in>C. chan_ok s c) \<and>
     (\<forall>c\<in>C. \<forall>d\<in>C. c \<noteq> d \<longrightarrow> c_rbuf (s_chan s c) \<noteq> c_rbuf (s_chan s d) \<and>
        set (contents (rbuf_of s c)) \<inter> set (contents (rbuf_of s d)) = {}) \<and>
     (\<forall>m\<in>held s C. 0 < m \<and> block m SIZEOF_MSG \<inter> A = {} \<and>
        (\<forall>n\<in>held s C. m \<noteq> n \<longrightarrow> block m SIZEOF_MSG \<inter> block n SIZEOF_MSG = {}))"

lemma memory_eqD:
  assumes "memory s' = memory s"
  shows "s_kheap s' = s_kheap s" "s_chan s' = s_chan s" "s_rbuf s' = s_rbuf s" "s_msg s' = s_msg s"
  using assms by (simp_all add: memory_def)

lemma memory_chan_inv: "memory s' = memory s \<Longrightarrow> chan_inv s' A C = chan_inv s A C"
  by (auto simp: memory_def chan_inv_def chan_ok_def held_def)

lemma memory_msgs: "memory s' = memory s \<Longrightarrow> msgs s' c = msgs s c"
  by (simp add: memory_def msgs_def)

lemma memory_dispatch [simp]: "memory (lwt_dispatch a b s) = memory s"
  by (simp add: memory_def lwt_dispatch_def upd_lwt_def Let_def)

lemma memory_updates [simp]:
  "memory (s\<lparr>current_thread := t\<rparr>) = memory s" "memory (s\<lparr>n_rcving := i\<rparr>) = memory s"
  "memory (s\<lparr>n_snding := i\<rparr>) = memory s" "memory (upd_lwt u f s) = memory s"
  by (simp_all add: memory_def upd_lwt_def)

lemma lwt_schedule_memory: "lwt_schedule s = Inr (r, s') \<Longrightarrow> memory s' = memory s"
  by (auto simp: lwt_schedule_def rbind_eq_Inr Let_def split: if_splits)

lemma lwt_yield_memory: "lwt_yield t s = Inr (r, s') \<Longrightarrow> memory s' = memory s"
  by (auto simp: lwt_yield_def Let_def lwt_schedule_memory split: if_splits)

lemma chan_inv_okD:
  assumes "chan_inv s A C" and "c \<in> C"
  shows "c \<noteq> NULL" "c_rcv_thd (s_chan s c) \<noteq> NULL" "rbuf_ok (rbuf_of s c)"
    "distinct (contents (rbuf_of s c))" "kpool (s_kheap s) A"
  using assms by (auto simp: chan_inv_def chan_ok_def)

lemma chan_inv_held:
  assumes "chan_inv s A C" and "m \<in> held s C"
  shows "0 < m" "block m SIZEOF_MSG \<inter> A = {}"
    "n \<in> held s C \<Longrightarrow> m \<noteq> n \<Longrightarrow> block m SIZEOF_MSG \<inter> block n SIZEOF_MSG = {}"
  using assms by (auto simp: chan_inv_def)


lemma SIZEOF_MSG_pos: "0 < SIZEOF_MSG" "SIZEOF_MSG \<le> PAGESIZE"
  by (simp_all add: SIZEOF_MSG_def PAGESIZE_def)

lemma start_in_block: "0 < n \<Longrightarrow> m \<in> block m n"
  by simp

subsection \<open>The two transfers\<close>

text \<open>
  What \<open>snd_write\<close> and \<open>rcv_read\<close> leave behind, as explicit states; the next two lemmas say
  that they are the results, the two after that what they mean for the invariant.
\<close>

definition sent :: "addr \<Rightarrow> addr \<Rightarrow> addr \<Rightarrow> kheap \<Rightarrow> rbuf \<Rightarrow> 'z chan_sys_scheme \<Rightarrow> 'z chan_sys_scheme" where
  "sent c data m h rb s =
     s\<lparr>s_kheap := h, s_msg := (s_msg s)(m := \<lparr>m_data = data, m_thd = current_thread s\<rparr>),
       s_rbuf := (s_rbuf s)(c_rbuf (s_chan s c) := rb),
       s_chan := (s_chan s)(c := (s_chan s c)\<lparr>c_snd_cnt := c_snd_cnt (s_chan s c) + 1\<rparr>)\<rparr>"

definition received :: "addr \<Rightarrow> kheap \<Rightarrow> rbuf \<Rightarrow> 'z chan_sys_scheme \<Rightarrow> 'z chan_sys_scheme" where
  "received c h rb s =
     s\<lparr>s_kheap := h, s_rbuf := (s_rbuf s)(c_rbuf (s_chan s c) := rb), n_rcving := n_rcving s - 1\<rparr>"

lemma snd_write_eq:
  assumes "kalloc (s_kheap s) SIZEOF_MSG = Inr (m, h)" and "0 < m"
    and "rbuf_write (rbuf_of s c) m = Inr (WRITERBUF_OK, rb)"
  shows "snd_write c data s = Inr (Returned 0, sent c data m h rb s)"
  using assms by (simp add: snd_write_def Let_def sent_def upd_chan_def)

lemma rcv_read_eq:
  assumes "rbuf_read (rbuf_of s c) = Inr (m, rb)" and "0 < m"
    and "kfree (s_kheap s) m SIZEOF_MSG = Inr h"
  shows "rcv_read c s = Inr (Returned (m_data (s_msg s m)), received c h rb s)"
  using assms by (simp add: rcv_read_def Let_def received_def)

lemma sent_contents:
  assumes "chan_inv s A C" and "c \<in> C" and "d \<in> C" and "contents rb = contents (rbuf_of s c) @ [m]"
  shows "contents (rbuf_of (sent c data m h rb s) d) =
    contents (rbuf_of s d) @ (if d = c then [m] else [])"
  using assms by (auto simp: sent_def chan_inv_def)

lemma received_contents:
  assumes "chan_inv s A C" and "c \<in> C" and "d \<in> C" and "contents (rbuf_of s c) = m # contents rb"
  shows "contents (rbuf_of s d) = (if d = c then [m] else []) @ contents (rbuf_of (received c h rb s) d)"
  using assms by (auto simp: received_def chan_inv_def)

lemma sent_inv:
  assumes inv: "chan_inv s A C" and c: "c \<in> C" and ct: "contents rb = contents (rbuf_of s c) @ [m]"
    and "rbuf_ok rb" and "0 < m" and bl: "block m SIZEOF_MSG \<subseteq> A"
    and "kpool h (A - block m SIZEOF_MSG)"
  shows "chan_inv (sent c data m h rb s) (A - block m SIZEOF_MSG) C \<and>
    (\<forall>d\<in>C. msgs (sent c data m h rb s) d = msgs s d @ (if d = c then [data] else []))"
proof -
  let ?s = "sent c data m h rb s"
  have new: "m \<notin> held s C"
    using chan_inv_held(2) [OF inv, of m] bl start_in_block [OF SIZEOF_MSG_pos(1), of m] by blast
  have ctd: "contents (rbuf_of ?s d) = contents (rbuf_of s d) @ (if d = c then [m] else [])" if "d \<in> C" for d
    by (rule sent_contents [OF inv c that ct])
  have heldd: "held ?s C = insert m (held s C)" using ctd c by (auto simp: held_def)
  have off: "m \<notin> set (contents (rbuf_of s d))" if "d \<in> C" for d using new that by (auto simp: held_def)
  have "\<forall>d\<in>C. chan_ok ?s d"
  proof
    fix d assume d: "d \<in> C"
    have "chan_ok s d" using inv d by (simp add: chan_inv_def)
    moreover have "rbuf_of ?s d = (if d = c then rb else rbuf_of s d)"
      using inv c d by (auto simp: sent_def chan_inv_def)
    ultimately show "chan_ok ?s d" using ctd [OF d] off [OF d] assms(4)
      by (auto simp: chan_ok_def sent_def)
  qed
  moreover have "\<forall>d\<in>C. \<forall>e\<in>C. d \<noteq> e \<longrightarrow> c_rbuf (s_chan ?s d) \<noteq> c_rbuf (s_chan ?s e) \<and>
      set (contents (rbuf_of ?s d)) \<inter> set (contents (rbuf_of ?s e)) = {}"
  proof (intro ballI impI)
    fix d e assume d: "d \<in> C" "e \<in> C" "d \<noteq> e"
    then have "c_rbuf (s_chan s d) \<noteq> c_rbuf (s_chan s e)"
      "set (contents (rbuf_of s d)) \<inter> set (contents (rbuf_of s e)) = {}"
      using inv unfolding chan_inv_def by blast+
    moreover have "c_rbuf (s_chan ?s x) = c_rbuf (s_chan s x)" for x by (simp add: sent_def)
    ultimately show "c_rbuf (s_chan ?s d) \<noteq> c_rbuf (s_chan ?s e) \<and>
      set (contents (rbuf_of ?s d)) \<inter> set (contents (rbuf_of ?s e)) = {}"
      using off d unfolding ctd [OF d(1)] ctd [OF d(2)] by auto
  qed
  moreover have "\<forall>n\<in>held ?s C. 0 < n \<and> block n SIZEOF_MSG \<inter> (A - block m SIZEOF_MSG) = {} \<and>
      (\<forall>k\<in>held ?s C. n \<noteq> k \<longrightarrow> block n SIZEOF_MSG \<inter> block k SIZEOF_MSG = {})"
    unfolding heldd using chan_inv_held [OF inv] assms(5) bl by blast
  ultimately have "chan_inv ?s (A - block m SIZEOF_MSG) C"
    using assms(7) unfolding chan_inv_def by (simp add: sent_def)
  moreover have "\<forall>d\<in>C. msgs ?s d = msgs s d @ (if d = c then [data] else [])"
    using off by (auto simp: msgs_def ctd) (auto simp: sent_def)
  ultimately show ?thesis by blast
qed

lemma received_inv:
  assumes inv: "chan_inv s A C" and c: "c \<in> C" and ct: "contents (rbuf_of s c) = m # contents rb"
    and "rbuf_ok rb" and "kpool h (A \<union> block m SIZEOF_MSG)"
  shows "chan_inv (received c h rb s) (A \<union> block m SIZEOF_MSG) C \<and>
    (\<forall>d\<in>C. msgs s d = (if d = c then [m_data (s_msg s m)] else []) @ msgs (received c h rb s) d)"
proof -
  let ?s = "received c h rb s"
  have ctd: "contents (rbuf_of s d) = (if d = c then [m] else []) @ contents (rbuf_of ?s d)" if "d \<in> C" for d
    by (rule received_contents [OF inv c that ct])
  have sub: "set (contents (rbuf_of ?s d)) \<subseteq> set (contents (rbuf_of s d))" if "d \<in> C" for d
    using ctd [OF that] by auto
  then have heldd: "held ?s C \<subseteq> held s C" by (auto simp: held_def)
  have old: "m \<in> held s C" using c ct by (force simp: held_def)
  have gone: "m \<notin> held ?s C"
  proof
    assume "m \<in> held ?s C"
    then obtain d where d: "d \<in> C" "m \<in> set (contents (rbuf_of ?s d))" by (auto simp: held_def)
    show False
    proof (cases "d = c")
      case True
      with d ctd [OF c] chan_inv_okD(4) [OF inv c] show False by simp
    next
      case False
      have "m \<in> set (contents (rbuf_of s c))" using ct by simp
      moreover have "m \<in> set (contents (rbuf_of s d))" using sub [OF d(1)] d(2) by blast
      ultimately show False using inv c d(1) False unfolding chan_inv_def by blast
    qed
  qed
  have "\<forall>d\<in>C. chan_ok ?s d"
  proof
    fix d assume d: "d \<in> C"
    have "chan_ok s d" using inv d by (simp add: chan_inv_def)
    moreover have "rbuf_of ?s d = (if d = c then rb else rbuf_of s d)"
      using inv c d by (auto simp: received_def chan_inv_def)
    ultimately show "chan_ok ?s d" using ct assms(4) by (auto simp: chan_ok_def received_def)
  qed
  moreover have "\<forall>d\<in>C. \<forall>e\<in>C. d \<noteq> e \<longrightarrow> c_rbuf (s_chan ?s d) \<noteq> c_rbuf (s_chan ?s e) \<and>
      set (contents (rbuf_of ?s d)) \<inter> set (contents (rbuf_of ?s e)) = {}"
  proof (intro ballI impI)
    fix d e assume d: "d \<in> C" "e \<in> C" "d \<noteq> e"
    then have "c_rbuf (s_chan s d) \<noteq> c_rbuf (s_chan s e) \<and>
      set (contents (rbuf_of s d)) \<inter> set (contents (rbuf_of s e)) = {}"
      using inv unfolding chan_inv_def by blast
    moreover have "s_chan ?s = s_chan s" by (simp add: received_def)
    ultimately show "c_rbuf (s_chan ?s d) \<noteq> c_rbuf (s_chan ?s e) \<and>
      set (contents (rbuf_of ?s d)) \<inter> set (contents (rbuf_of ?s e)) = {}"
      using sub [OF d(1)] sub [OF d(2)] by auto
  qed
  moreover have "\<forall>n\<in>held ?s C. 0 < n \<and> block n SIZEOF_MSG \<inter> (A \<union> block m SIZEOF_MSG) = {} \<and>
      (\<forall>k\<in>held ?s C. n \<noteq> k \<longrightarrow> block n SIZEOF_MSG \<inter> block k SIZEOF_MSG = {})"
    using chan_inv_held [OF inv] heldd gone old by blast
  ultimately have "chan_inv ?s (A \<union> block m SIZEOF_MSG) C"
    using assms(5) unfolding chan_inv_def by (simp add: received_def)
  moreover have "s_msg ?s = s_msg s" by (simp add: received_def)
  then have "\<forall>d\<in>C. msgs s d = (if d = c then [m_data (s_msg s m)] else []) @ msgs ?s d"
    by (auto simp: msgs_def ctd)
  ultimately show ?thesis by blast
qed


lemma rbuf_io_fixed:
  "rbuf_write rb x = Inr (w, rb') \<Longrightarrow> rb_buf rb' = rb_buf rb \<and> rb_capacity rb' = rb_capacity rb"
  "rbuf_read rb = Inr (y, rb') \<Longrightarrow> rb_buf rb' = rb_buf rb \<and> rb_capacity rb' = rb_capacity rb"
  by (auto simp: rbuf_write_def rbuf_read_def split: if_splits)

lemma snd_write_at:
  assumes "chan_inv s A C" and "c \<in> C" and "\<not> rbuf_isfull (rbuf_of s c)"
    and "kfits (s_kheap s) SIZEOF_MSG"
  obtains m h rb where "snd_write c data s = Inr (Returned 0, sent c data m h rb s)"
    and "contents rb = contents (rbuf_of s c) @ [m]"
    and "rb_buf rb = rb_buf (rbuf_of s c) \<and> rb_capacity rb = rb_capacity (rbuf_of s c)"
    and "chan_inv (sent c data m h rb s) (A - block m SIZEOF_MSG) C" and "block m SIZEOF_MSG \<subseteq> A"
    and "\<forall>d\<in>C. msgs (sent c data m h rb s) d = msgs s d @ (if d = c then [data] else [])"
proof -
  note ok = chan_inv_okD [OF assms(1,2)]
  from kp.alloc_fits [OF ok(5) SIZEOF_MSG_pos assms(4)] obtain m h where
    m: "kalloc (s_kheap s) SIZEOF_MSG = Inr (m, h)" "0 < m" "block m SIZEOF_MSG \<subseteq> A"
      "kpool h (A - block m SIZEOF_MSG)" by blast
  have "m \<noteq> NULL" using m(2) by simp
  from rbq.wr_ok [OF ok(3) this assms(3)] obtain rb where
    rb: "rbuf_write (rbuf_of s c) m = Inr (WRITERBUF_OK, rb)" "rbuf_ok rb"
      "contents rb = contents (rbuf_of s c) @ [m]" by blast
  from sent_inv [OF assms(1,2) rb(3,2) m(2,3,4)] snd_write_eq [OF m(1,2) rb(1)]
  show thesis by (intro that [OF _ rb(3) rbuf_io_fixed(1) [OF rb(1)] _ m(3)]) blast+
qed

lemma snd_write_ok:
  assumes "chan_inv s A C" and "c \<in> C" and "\<not> rbuf_isfull (rbuf_of s c)"
    and "kfits (s_kheap s) SIZEOF_MSG"
  obtains m h rb where "snd_write c data s = Inr (Returned 0, sent c data m h rb s)"
    and "chan_inv (sent c data m h rb s) (A - block m SIZEOF_MSG) C" and "block m SIZEOF_MSG \<subseteq> A"
    and "\<forall>d\<in>C. msgs (sent c data m h rb s) d = msgs s d @ (if d = c then [data] else [])"
  using snd_write_at [OF assms] that by metis

lemma rcv_read_at:
  assumes "chan_inv s A C" and "c \<in> C" and "\<not> rbuf_isempty (rbuf_of s c)"
  obtains m h rb where "rcv_read c s = Inr (Returned (m_data (s_msg s m)), received c h rb s)"
    and "contents (rbuf_of s c) = m # contents rb"
    and "rb_buf rb = rb_buf (rbuf_of s c) \<and> rb_capacity rb = rb_capacity (rbuf_of s c)"
    and "chan_inv (received c h rb s) (A \<union> block m SIZEOF_MSG) C"
    and "\<forall>d\<in>C. msgs s d = (if d = c then [m_data (s_msg s m)] else []) @ msgs (received c h rb s) d"
proof -
  note ok = chan_inv_okD [OF assms(1,2)]
  from assms(3) rbq.empty_abs [OF ok(3)] obtain m ms where ms: "contents (rbuf_of s c) = m # ms"
    by (cases "contents (rbuf_of s c)") auto
  from rbq.rd_ok [OF ok(3) ms] obtain rb where
    rb: "rbuf_read (rbuf_of s c) = Inr (m, rb)" "rbuf_ok rb" "contents rb = ms" by blast
  have mh: "m \<in> held s C" using ms assms(2) by (force simp: held_def)
  note mm = chan_inv_held(1,2) [OF assms(1) mh]
  from kp.free_ok [OF ok(5) mm(1) SIZEOF_MSG_pos mm(2)] obtain h where
    h: "kfree (s_kheap s) m SIZEOF_MSG = Inr h" "kpool h (A \<union> block m SIZEOF_MSG)" by blast
  have ct: "contents (rbuf_of s c) = m # contents rb" using ms rb(3) by simp
  from received_inv [OF assms(1,2) ct rb(2) h(2)] rcv_read_eq [OF rb(1) mm(1) h(1)]
  show thesis by (intro that [OF _ ct rbuf_io_fixed(2) [OF rb(1)]]) blast+
qed

lemma rcv_read_ok:
  assumes "chan_inv s A C" and "c \<in> C" and "\<not> rbuf_isempty (rbuf_of s c)"
  obtains m h rb where "rcv_read c s = Inr (Returned (m_data (s_msg s m)), received c h rb s)"
    and "chan_inv (received c h rb s) (A \<union> block m SIZEOF_MSG) C"
    and "\<forall>d\<in>C. msgs s d = (if d = c then [m_data (s_msg s m)] else []) @ msgs (received c h rb s) d"
  using rcv_read_at [OF assms] that by metis

subsection \<open>Any number of threads\<close>

text \<open>
  \<open>traffic C s0 snt rcd s\<close>: from \<open>s0\<close> the threads of the system have made some calls on the
  channels of \<open>C\<close>, in any order, and the system is in \<open>s\<close>. A call that blocks switches away and
  is taken up again later by its \<open>resume\<close>. \<open>snt\<close> and \<open>rcd\<close> log, per channel, the data of the
  sends that returned and the values returned by the receives. The pool must be able to serve the
  message of a send.
\<close>

definition logged :: "addr \<Rightarrow> addr \<Rightarrow> (addr \<Rightarrow> addr list) \<Rightarrow> addr \<Rightarrow> addr list" where
  "logged c x l = l(c := l c @ [x])"

inductive traffic :: "addr set \<Rightarrow> 'z chan_sys_scheme \<Rightarrow> (addr \<Rightarrow> addr list) \<Rightarrow> (addr \<Rightarrow> addr list) \<Rightarrow>
    'z chan_sys_scheme \<Rightarrow> bool" for C s0 where
  begin_traffic: "traffic C s0 (\<lambda>_. []) (\<lambda>_. []) s0"
| sends: "traffic C s0 snt rcd s \<Longrightarrow> c \<in> C \<Longrightarrow> kfits (s_kheap s) SIZEOF_MSG \<Longrightarrow>
    lwt_snd c d s = Inr (Returned v, s') \<or> lwt_snd_resume c d s = Inr (Returned v, s') \<Longrightarrow>
    traffic C s0 (logged c d snt) rcd s'"
| receives: "traffic C s0 snt rcd s \<Longrightarrow> c \<in> C \<Longrightarrow>
    lwt_rcv c s = Inr (Returned v, s') \<or> lwt_rcv_resume c s = Inr (Returned v, s') \<Longrightarrow>
    traffic C s0 snt (logged c v rcd) s'"
| snd_blocks: "traffic C s0 snt rcd s \<Longrightarrow> c \<in> C \<Longrightarrow>
    lwt_snd c d s = Inr (Switched, s') \<or> lwt_snd_resume c d s = Inr (Switched, s') \<Longrightarrow>
    traffic C s0 snt rcd s'"
| rcv_blocks: "traffic C s0 snt rcd s \<Longrightarrow> c \<in> C \<Longrightarrow>
    lwt_rcv c s = Inr (Switched, s') \<or> lwt_rcv_resume c s = Inr (Switched, s') \<Longrightarrow>
    traffic C s0 snt rcd s'"
| yields_step: "traffic C s0 snt rcd s \<Longrightarrow> lwt_yield t s = Inr (r, s') \<Longrightarrow> traffic C s0 snt rcd s'"


lemma snd_write_returns: "snd_write c d s = Inr (r, s') \<Longrightarrow> r = Returned 0"
  by (auto simp: snd_write_def Let_def rbind_eq_Inr split: if_splits prod.splits)

lemma rcv_read_returns: "rcv_read c s = Inr (r, s') \<Longrightarrow> r \<noteq> Switched"
  by (auto simp: rcv_read_def Let_def rbind_eq_Inr split: if_splits prod.splits)

lemma yield_keeps_memory: "memory s = m \<Longrightarrow> lwt_yield t s = Inr (r, s') \<Longrightarrow> memory s' = m"
  using lwt_yield_memory by metis

lemma waiting_memory:
  assumes "waiting busy (lwt_yield NULL) k s = Inr (r, s')"
  shows "(r = Switched \<and> memory s' = memory s) \<or>
    (\<exists>s1. memory s1 = memory s \<and> \<not> busy s1 \<and> k s1 = Inr (r, s'))"
proof (rule waiting_keeps [OF assms, where P = "\<lambda>x. memory x = memory s"])
  fix s1 s2 q
  assume "memory s1 = memory s" "lwt_yield NULL s1 = Inr (q, s2)"
  then show "memory s2 = memory s" by (rule yield_keeps_memory)
qed auto

lemma snd_resume_result:
  assumes "chan_inv s A C" and "c \<in> C" and "lwt_snd_resume c d s = Inr (r, s')"
  shows "(r = Switched \<longrightarrow> memory s' = memory s) \<and>
    (r \<noteq> Switched \<longrightarrow> kfits (s_kheap s) SIZEOF_MSG \<longrightarrow> r = Returned 0 \<and> (\<exists>B. chan_inv s' B C) \<and>
      (\<forall>e\<in>C. msgs s' e = msgs s e @ (if e = c then [d] else [])))"
  using waiting_memory [OF assms(3) [unfolded lwt_snd_resume_def]]
proof (elim disjE exE conjE)
  fix s1 assume s1: "memory s1 = memory s" "\<not> rbuf_isfull (rbuf_of s1 c)" "snd_write c d s1 = Inr (r, s')"
  have inv1: "chan_inv s1 A C" using assms(1) unfolding memory_chan_inv [OF s1(1)] .
  show ?thesis
  proof (cases "kfits (s_kheap s) SIZEOF_MSG")
    case True
    with s1(1) have "kfits (s_kheap s1) SIZEOF_MSG" by (simp add: memory_eqD(1) [OF s1(1)])
    from snd_write_ok [OF inv1 assms(2) s1(2) this, of d] obtain m h rb where
      sw: "snd_write c d s1 = Inr (Returned 0, sent c d m h rb s1)"
      "chan_inv (sent c d m h rb s1) (A - block m SIZEOF_MSG) C" "block m SIZEOF_MSG \<subseteq> A"
      "\<forall>e\<in>C. msgs (sent c d m h rb s1) e = msgs s1 e @ (if e = c then [d] else [])" .
    with s1(3) have s': "r = Returned 0" "s' = sent c d m h rb s1" by simp_all
    with sw have "chan_inv s' (A - block m SIZEOF_MSG) C"
      "\<forall>e\<in>C. msgs s' e = msgs s e @ (if e = c then [d] else [])"
      by (simp_all only: memory_msgs [OF s1(1)])
    with s'(1) show ?thesis by blast
  qed (use snd_write_returns [OF s1(3)] in simp)
qed simp

lemma rcv_resume_result:
  assumes "chan_inv s A C" and "c \<in> C" and "lwt_rcv_resume c s = Inr (r, s')"
  shows "(r = Switched \<longrightarrow> memory s' = memory s) \<and>
    (r \<noteq> Switched \<longrightarrow> (\<exists>v. r = Returned v \<and> (\<exists>B. chan_inv s' B C) \<and>
      (\<forall>e\<in>C. msgs s e = (if e = c then [v] else []) @ msgs s' e)))"
  using waiting_memory [OF assms(3) [unfolded lwt_rcv_resume_def]]
proof (elim disjE exE conjE)
  fix s1 assume s1: "memory s1 = memory s" "\<not> rbuf_isempty (rbuf_of s1 c)" "rcv_read c s1 = Inr (r, s')"
  have inv1: "chan_inv s1 A C" using assms(1) unfolding memory_chan_inv [OF s1(1)] .
  from rcv_read_ok [OF inv1 assms(2) s1(2)] obtain m h rb where
    "rcv_read c s1 = Inr (Returned (m_data (s_msg s1 m)), received c h rb s1)"
    "chan_inv (received c h rb s1) (A \<union> block m SIZEOF_MSG) C"
    "\<forall>e\<in>C. msgs s1 e = (if e = c then [m_data (s_msg s1 m)] else []) @ msgs (received c h rb s1) e" .
  then have "r = Returned (m_data (s_msg s1 m))" "chan_inv s' (A \<union> block m SIZEOF_MSG) C"
    "\<forall>e\<in>C. msgs s e = (if e = c then [m_data (s_msg s1 m)] else []) @ msgs s' e"
    using s1(3) memory_msgs [OF s1(1)] by simp_all
  then show ?thesis by blast
qed simp

text \<open>On a live channel a call is its waiting part.\<close>

lemma lwt_snd_live:
  assumes "chan_inv s A C" and "c \<in> C" and "lwt_snd c d s = Inr (r, s')"
  shows "lwt_snd_resume c d s = Inr (r, s')"
  using assms chan_inv_okD [OF assms(1,2)]
  by (auto simp: lwt_snd_def rbind_eq_Inr assertion_def split: if_splits)

lemma lwt_rcv_live:
  assumes "chan_inv s A C" and "c \<in> C"
  shows "lwt_rcv c s = lwt_rcv_resume c (s\<lparr>n_rcving := n_rcving s + 1\<rparr>)"
  using chan_inv_okD [OF assms] by (simp add: lwt_rcv_def)

lemma rcv_either:
  assumes "chan_inv s A C" and "c \<in> C"
    and "lwt_rcv c s = Inr (r, s') \<or> lwt_rcv_resume c s = Inr (r, s')"
  obtains s1 where "memory s1 = memory s" and "chan_inv s1 A C" and "lwt_rcv_resume c s1 = Inr (r, s')"
proof (cases "lwt_rcv_resume c s = Inr (r, s')")
  case True
  with assms(1) show thesis by (intro that [of s]) simp_all
next
  case False
  let ?s = "s\<lparr>n_rcving := n_rcving s + 1\<rparr>"
  from False assms have "lwt_rcv_resume c ?s = Inr (r, s')" by (simp add: lwt_rcv_live)
  moreover have "memory ?s = memory s" by simp
  ultimately show thesis using that [of ?s] assms(1) memory_chan_inv by blast
qed

lemma traffic_inv:
  assumes "traffic C s0 snt rcd s" and "chan_inv s0 A0 C"
  shows "(\<exists>A. chan_inv s A C) \<and> (\<forall>c\<in>C. msgs s0 c @ snt c = rcd c @ msgs s c)"
  using assms
proof (induction rule: traffic.induct)
  case begin_traffic
  then show ?case by auto
next
  case (sends snt rcd s c d v s')
  then obtain A where inv: "chan_inv s A C" by blast
  from sends.hyps(2,4) lwt_snd_live [OF inv] have "lwt_snd_resume c d s = Inr (Returned v, s')" by blast
  from snd_resume_result [OF inv sends.hyps(2) this] sends.hyps(3) sends show ?case
    by (auto simp: logged_def)
next
  case (receives snt rcd s c v s')
  then obtain A where inv: "chan_inv s A C" by blast
  from rcv_either [OF inv receives.hyps(2,3)] obtain s1 where
    m: "memory s1 = memory s" and i: "chan_inv s1 A C" and r: "lwt_rcv_resume c s1 = Inr (Returned v, s')" .
  from rcv_resume_result [OF i receives.hyps(2) r] receives memory_msgs [OF m] show ?case
    by (auto simp: logged_def)
next
  case (snd_blocks snt rcd s c d s')
  then obtain A where inv: "chan_inv s A C" by blast
  from snd_blocks.hyps lwt_snd_live [OF inv] have "lwt_snd_resume c d s = Inr (Switched, s')" by blast
  from snd_resume_result [OF inv snd_blocks.hyps(2) this] have "memory s' = memory s" by blast
  from memory_chan_inv [OF this] memory_msgs [OF this] snd_blocks show ?case by auto
next
  case (rcv_blocks snt rcd s c s')
  then obtain A where inv: "chan_inv s A C" by blast
  from rcv_either [OF inv rcv_blocks.hyps(2,3)] obtain s1 where
    m: "memory s1 = memory s" and i: "chan_inv s1 A C" and r: "lwt_rcv_resume c s1 = Inr (Switched, s')" .
  from rcv_resume_result [OF i rcv_blocks.hyps(2) r] m have "memory s' = memory s" by simp
  from memory_chan_inv [OF this] memory_msgs [OF this] rcv_blocks show ?case by auto
next
  case (yields_step snt rcd s t r s')
  from memory_chan_inv [OF lwt_yield_memory [OF yields_step.hyps(2)]]
    memory_msgs [OF lwt_yield_memory [OF yields_step.hyps(2)]] yields_step show ?case by auto
qed


subsection \<open>Blocking\<close>

lemma snd_resume_switch:
  assumes "runq s (c # ys @ z # zs)" and "\<forall>y\<in>set ys. \<not> ready s y" and "ready s z"
    and "n_runnable s \<noteq> 0" and "rbuf_isfull (rbuf_of s ch)"
  shows "lwt_snd_resume ch d s = Inr (Switched, lwt_dispatch z c (s\<lparr>current_thread := z\<rparr>))"
  unfolding lwt_snd_resume_def
  by (rule waiting_switch) (simp_all add: assms(5) lwt_schedule_switch [OF assms(1-4)])

lemma rcv_resume_switch:
  assumes "runq s (c # ys @ z # zs)" and "\<forall>y\<in>set ys. \<not> ready s y" and "ready s z"
    and "n_runnable s \<noteq> 0" and "rbuf_isempty (rbuf_of s ch)"
  shows "lwt_rcv_resume ch s = Inr (Switched, lwt_dispatch z c (s\<lparr>current_thread := z\<rparr>))"
  unfolding lwt_rcv_resume_def
  by (rule waiting_switch) (simp_all add: assms(5) lwt_schedule_switch [OF assms(1-4)])

text \<open>A thread that is the only RUNNABLE one gets the processor back at once, nothing changed.\<close>

lemma lwt_schedule_alone:
  assumes "runq s (c # ys)" and "\<forall>y\<in>set ys. \<not> ready s y" and "ready s c"
  shows "lwt_schedule s = Inr (Returned (), s)"
proof -
  have c: "current_thread s = c" using assms(1) by (simp add: runq_def)
  then have "s\<lparr>current_thread := c\<rparr> = s" by simp
  then show ?thesis
    using next_runnable_self [OF assms] c by (simp add: lwt_schedule_def Let_def)
qed

lemma waiting_alone:
  assumes "runq s (c # ys)" and "\<forall>y\<in>set ys. \<not> ready s y" and "ready s c" and "busy s"
  shows "waiting busy (lwt_yield NULL) k s = Inl Diverges"
proof -
  have "wait_while busy (lwt_yield NULL) s = None"
    by (rule wait_while_spins [where Q = "\<lambda>x. x = s"])
      (use assms lwt_schedule_alone [OF assms(1-3)] in auto)
  then show ?thesis by (simp add: waiting_def)
qed

subsection \<open>An example\<close>

text \<open>Two threads, 100 and 200, and a channel at 20000 with room for two messages.\<close>

definition pair_ex :: lwt_sys where
  "pair_ex = fair_ex\<lparr>s_links := \<lparr>ps_n = (\<lambda>t. if t = 100 then 200 else 100),
     ps_p = (\<lambda>t. if t = 100 then 200 else 100)\<rparr>\<rparr>"

definition chan_ex :: chan_sys where
  "chan_ex = lwt_sys.extend pair_ex (chan_sys.fields
     (\<lambda>_. \<lparr>c_id = 1, c_snd_cnt = 0, c_size = 2, c_rbuf = 30000, c_rcv_thd = 100, c_mark = 0, c_cgrp = 0\<rparr>)
     (\<lambda>_. \<lparr>rb_buf = 40000, rb_mem = (\<lambda>_. 0), rb_slots = 3, rb_head = 0, rb_tail = 0, rb_capacity = 3\<rparr>)
     (\<lambda>_. \<lparr>m_data = 0, m_thd = 0\<rparr>) (\<lambda>_. 0)
     \<lparr>tqh_first = (\<lambda>_. 0), tqh_last = TqFirst, tqe_next = (\<lambda>_. 0), tqe_prev = (\<lambda>_. TqFirst 0)\<rparr> 1)"

lemma chan_ex_sel [simp]:
  "s_kheap chan_ex = s_kheap sys_ex" "s_lwt chan_ex = (\<lambda>_. lwt_ex)"
  "s_links chan_ex = s_links pair_ex" "current_thread chan_ex = 100" "n_runnable chan_ex = 3"
  "n_snding chan_ex = 0" "n_rcving chan_ex = 0"
  "s_chan chan_ex = (\<lambda>_. \<lparr>c_id = 1, c_snd_cnt = 0, c_size = 2, c_rbuf = 30000, c_rcv_thd = 100,
     c_mark = 0, c_cgrp = 0\<rparr>)"
  "s_rbuf chan_ex = (\<lambda>_. \<lparr>rb_buf = 40000, rb_mem = (\<lambda>_. 0), rb_slots = 3, rb_head = 0, rb_tail = 0,
     rb_capacity = 3\<rparr>)"
  "s_chan_cnt chan_ex = (\<lambda>_. 0)"
  "s_tq chan_ex = \<lparr>tqh_first = (\<lambda>_. 0), tqh_last = TqFirst, tqe_next = (\<lambda>_. 0), tqe_prev = (\<lambda>_. TqFirst 0)\<rparr>"
  by (simp_all add: chan_ex_def pair_ex_def fair_ex_def sys_ex_def lwt_sys.defs chan_sys.defs)

lemma chan_ex_runq: "runq chan_ex [100, 200]"
  by (simp add: runq_def pair_ex_def fair_ex_def)

lemma chan_ex_inv: "chan_inv chan_ex (block 4096 8000) {20000}"
  by (simp add: chan_inv_def chan_ok_def held_def sys_ex_pool(1) contents_def count_def rbuf_ok_def)

lemma chan_ex_fits: "kfits (s_kheap chan_ex) SIZEOF_MSG"
proof -
  have "free_list (s_kheap sys_ex) [(4096, 8000)]" by (simp add: free_list_def sys_ex_def pool_ex_def)
  from kfits_list [OF this] show ?thesis by (simp add: SIZEOF_MSG_def)
qed

lemma chan_ex_msgs: "msgs chan_ex c = []"
  by (simp add: msgs_def contents_def count_def)


lemma chan_ex_one:
  obtains s1 A1 where "lwt_snd 20000 7 chan_ex = Inr (Returned 0, s1)" and "chan_inv s1 A1 {20000}"
    and "msgs s1 20000 = [7]" and "\<not> rbuf_isfull (rbuf_of s1 20000)" and "kfits (s_kheap s1) SIZEOF_MSG"
proof -
  let ?h = "set_len 4096 7992 (s_kheap sys_ex)"
  let ?rb = "(rbuf_of chan_ex 20000)\<lparr>rb_mem := (\<lambda>_. 0)(0 := 12088), rb_tail := 1\<rparr>"
  let ?s = "sent 20000 7 12088 ?h ?rb chan_ex"
  have k: "kalloc (s_kheap sys_ex) SIZEOF_MSG = Inr (12088, ?h)"
    by (simp add: kalloc_def kalloc_loop.simps sys_ex_def pool_ex_def Let_def SIZEOF_MSG_def
        PAGESIZE_def set_len_def)
  have f: "free_list ?h [(4096, 7992)]" by (simp add: free_list_def sys_ex_def pool_ex_def set_len_def)
  have w: "rbuf_write (rbuf_of chan_ex 20000) 12088 = Inr (WRITERBUF_OK, ?rb)"
    by (simp add: rbuf_write_def rbuf_isfull_def)
  have "snd_write 20000 7 chan_ex = Inr (Returned 0, ?s)"
    by (rule snd_write_eq) (use k w in simp_all)
  then have s: "lwt_snd 20000 7 chan_ex = Inr (Returned 0, ?s)"
    by (simp add: lwt_snd_def lwt_snd_resume_def rbuf_isfull_def)
  have "chan_inv ?s (block 4096 8000 - block 12088 SIZEOF_MSG) {20000} \<and> (\<forall>d\<in>{20000}.
      msgs ?s d = msgs chan_ex d @ (if d = 20000 then [7] else []))"
  proof (rule sent_inv [OF chan_ex_inv])
    have "block 4096 8000 - block 12088 SIZEOF_MSG = span [(4096, 7992)]"
      by (auto simp: SIZEOF_MSG_def)
    with kpool_list [OF f] show "kpool ?h (block 4096 8000 - block 12088 SIZEOF_MSG)" by simp
  qed (auto simp: contents_def count_def rbuf_ok_def SIZEOF_MSG_def slot_def)
  moreover have "kfits ?h SIZEOF_MSG" using kfits_list [OF f] by (simp add: SIZEOF_MSG_def)
  moreover have "\<not> rbuf_isfull (rbuf_of ?s 20000)" "s_kheap ?s = ?h"
    by (simp_all add: sent_def rbuf_isfull_def)
  ultimately show thesis by (intro that [OF s]) (auto simp only: chan_ex_msgs append_Nil if_True refl ball_simps)
qed

subsection \<open>Properties\<close>

text \<open>C4: channels deliver what is sent, in order, exactly once, whatever the threads do. Over any
  interleaving of sends, receives, blocked calls that are taken up again, and yields on a set of
  live channels, the data ever received from a channel followed by the data still in its buffer is
  what the buffer held at the start followed by the data sent, in the order of the sends.\<close>

theorem channels_deliver_in_order:
  assumes "traffic C s0 snt rcd s" and "chan_inv s0 A0 C" and "c \<in> C"
  shows "msgs s0 c @ snt c = rcd c @ msgs s c"
  using traffic_inv [OF assms(1,2)] assms(3) by blast

theorem channels_deliver_in_order_witness:
  "\<exists>snt rcd s. traffic {20000} chan_ex snt rcd s \<and> snt 20000 = [7, 8] \<and> rcd 20000 = [7] \<and>
     msgs s 20000 = [8]"
proof -
  from chan_ex_one obtain s1 A1 where s1: "lwt_snd 20000 7 chan_ex = Inr (Returned 0, s1)"
    and i1: "chan_inv s1 A1 {20000}" and m1: "msgs s1 20000 = [7]"
    and nf: "\<not> rbuf_isfull (rbuf_of s1 20000)" "kfits (s_kheap s1) SIZEOF_MSG" .
  have t1: "traffic {20000} chan_ex (logged 20000 7 (\<lambda>_. [])) (\<lambda>_. []) s1"
    by (rule sends [OF begin_traffic]) (use s1 chan_ex_fits in auto)
  have "(20000 :: addr) \<in> {20000}" by simp
  from snd_write_ok [OF i1 this nf, of 8] obtain s2 where "snd_write 20000 8 s1 = Inr (Returned 0, s2)"
    by blast
  then have s2: "lwt_snd_resume 20000 8 s1 = Inr (Returned 0, s2)"
    using nf(1) by (simp add: lwt_snd_resume_def)
  have t2: "traffic {20000} chan_ex (logged 20000 8 (logged 20000 7 (\<lambda>_. []))) (\<lambda>_. []) s2"
    by (rule sends [OF t1]) (use s2 nf(2) in auto)
  from traffic_inv [OF t2 chan_ex_inv] obtain A2 where i2: "chan_inv s2 A2 {20000}"
    and m2: "msgs s2 20000 = [7, 8]" by (auto simp: logged_def chan_ex_msgs)
  have ne: "\<not> rbuf_isempty (rbuf_of s2 20000)"
    using rbq.empty_abs [OF chan_inv_okD(3) [OF i2]] m2 by (auto simp: msgs_def)
  from rcv_read_ok [OF i2 _ ne] obtain v s3 where "rcv_read 20000 s2 = Inr (Returned v, s3)"
    by blast
  then have s3: "lwt_rcv_resume 20000 s2 = Inr (Returned v, s3)"
    using ne by (simp add: lwt_rcv_resume_def)
  have t3: "traffic {20000} chan_ex (logged 20000 8 (logged 20000 7 (\<lambda>_. [])))
      (logged 20000 v (\<lambda>_. [])) s3"
    by (rule receives [OF t2]) (use s3 in auto)
  from channels_deliver_in_order [OF t3 chan_ex_inv] have "v = 7 \<and> msgs s3 20000 = [8]"
    by (simp add: logged_def chan_ex_msgs)
  with t3 show ?thesis by (force simp: logged_def)
qed

text \<open>\<open>lwt_snd\<close> on a live channel with room returns 0 at once: the data is appended to the
  pending data of that channel and of no other, one more message block is taken from the pool, and
  the other side sees the message with its sender.\<close>

theorem lwt_snd_appends:
  assumes "chan_inv s A C" and "c \<in> C" and "data \<noteq> NULL" and "\<not> rbuf_isfull (rbuf_of s c)"
    and "kfits (s_kheap s) SIZEOF_MSG"
  shows "\<exists>s' m. lwt_snd c data s = Inr (Returned 0, s') \<and>
    chan_inv s' (A - block m SIZEOF_MSG) C \<and> block m SIZEOF_MSG \<subseteq> A \<and>
    (\<forall>d\<in>C. msgs s' d = msgs s d @ (if d = c then [data] else [])) \<and>
    s_msg s' m = \<lparr>m_data = data, m_thd = current_thread s\<rparr> \<and>
    c_snd_cnt (s_chan s' c) = c_snd_cnt (s_chan s c) + 1 \<and> n_snding s' = n_snding s"
proof -
  note ok = chan_inv_okD [OF assms(1,2)]
  from snd_write_ok [OF assms(1,2,4,5), of data] obtain m h rb where
    w: "snd_write c data s = Inr (Returned 0, sent c data m h rb s)"
      "chan_inv (sent c data m h rb s) (A - block m SIZEOF_MSG) C" "block m SIZEOF_MSG \<subseteq> A"
      "\<forall>d\<in>C. msgs (sent c data m h rb s) d = msgs s d @ (if d = c then [data] else [])" .
  have "lwt_snd c data s = Inr (Returned 0, sent c data m h rb s)"
    using w(1) assms(3,4) ok(1,2) by (simp add: lwt_snd_def lwt_snd_resume_def)
  moreover have "s_msg (sent c data m h rb s) m = \<lparr>m_data = data, m_thd = current_thread s\<rparr>"
    "c_snd_cnt (s_chan (sent c data m h rb s) c) = c_snd_cnt (s_chan s c) + 1"
    "n_snding (sent c data m h rb s) = n_snding s" by (simp_all add: sent_def)
  ultimately show ?thesis using w(2-4) by blast
qed

theorem lwt_snd_appends_witness:
  "\<exists>s'. lwt_snd 20000 7 chan_ex = Inr (Returned 0, s') \<and> msgs s' 20000 = [7]"
  using lwt_snd_appends [OF chan_ex_inv _ _ _ chan_ex_fits, of 20000 7]
  by (auto simp: rbuf_isfull_def chan_ex_msgs)

text \<open>\<open>lwt_rcv\<close> on a live channel with pending data returns the oldest datum at once, removes
  it from that channel and from no other, and returns the message block to the pool.\<close>

theorem lwt_rcv_takes_oldest:
  assumes "chan_inv s A C" and "c \<in> C" and "msgs s c = x # xs"
  shows "\<exists>s' m. lwt_rcv c s = Inr (Returned x, s') \<and> chan_inv s' (A \<union> block m SIZEOF_MSG) C \<and>
    (\<forall>d\<in>C. msgs s' d = (if d = c then xs else msgs s d)) \<and> n_rcving s' = n_rcving s"
proof -
  let ?s = "s\<lparr>n_rcving := n_rcving s + 1\<rparr>"
  note ok = chan_inv_okD [OF assms(1,2)]
  have inv: "chan_inv ?s A C" using assms(1) memory_chan_inv [of ?s s] by simp
  have ms: "msgs ?s d = msgs s d" for d by (rule memory_msgs) simp
  have ne: "\<not> rbuf_isempty (rbuf_of ?s c)" using rbq.empty_abs [OF ok(3)] assms(3) by (auto simp: msgs_def)
  from rcv_read_ok [OF inv assms(2) ne] obtain m h rb where
    r: "rcv_read c ?s = Inr (Returned (m_data (s_msg ?s m)), received c h rb ?s)"
      "chan_inv (received c h rb ?s) (A \<union> block m SIZEOF_MSG) C"
      "\<forall>d\<in>C. msgs ?s d = (if d = c then [m_data (s_msg ?s m)] else []) @ msgs (received c h rb ?s) d" .
  have x: "m_data (s_msg ?s m) = x" "msgs (received c h rb ?s) c = xs"
    using r(3) assms(2,3) ms [of c] by auto
  have "lwt_rcv c s = Inr (Returned x, received c h rb ?s)"
    using r(1) x(1) ne by (simp add: lwt_rcv_live [OF assms(1,2)] lwt_rcv_resume_def)
  moreover have "\<forall>d\<in>C. msgs (received c h rb ?s) d = (if d = c then xs else msgs s d)"
    using r(3) x ms by (auto split: if_splits)
  moreover have "n_rcving (received c h rb ?s) = n_rcving s" by (simp add: received_def)
  ultimately show ?thesis using r(2) by blast
qed


theorem lwt_rcv_takes_oldest_witness:
  "\<exists>s s'. lwt_snd 20000 7 chan_ex = Inr (Returned 0, s) \<and> lwt_rcv 20000 s = Inr (Returned 7, s') \<and>
     msgs s' 20000 = []"
proof -
  from chan_ex_one obtain s A where s: "lwt_snd 20000 7 chan_ex = Inr (Returned 0, s)"
    "chan_inv s A {20000}" "msgs s 20000 = [7]" .
  from lwt_rcv_takes_oldest [OF s(2) _ s(3)] s(1) show ?thesis by auto
qed

text \<open>A sender that finds the buffer full hands the processor to the next RUNNABLE thread and
  writes nothing; when it is resumed with the buffer still full it does so again. The same for
  a receiver that finds the buffer empty, which is counted as receiving.\<close>

theorem full_or_empty_switches:
  assumes "runq s (t # ys @ z # zs)" and "\<forall>y\<in>set ys. \<not> ready s y" and "ready s z"
    and "n_runnable s \<noteq> 0" and "c \<noteq> NULL" and "c_rcv_thd (s_chan s c) \<noteq> NULL" and "data \<noteq> NULL"
  shows "(rbuf_isfull (rbuf_of s c) \<longrightarrow>
      (\<exists>s'. lwt_snd c data s = Inr (Switched, s') \<and> lwt_snd_resume c data s = Inr (Switched, s') \<and>
        current_thread s' = z \<and> memory s' = memory s)) \<and>
    (rbuf_isempty (rbuf_of s c) \<longrightarrow>
      (\<exists>s'. lwt_rcv c s = Inr (Switched, s') \<and> current_thread s' = z \<and> memory s' = memory s \<and>
        n_rcving s' = n_rcving s + 1))"
proof -
  let ?s = "s\<lparr>n_rcving := n_rcving s + 1\<rparr>"
  have q: "runq ?s (t # ys @ z # zs)" using assms(1) by (simp add: runq_def)
  have r: "rbuf_isempty (rbuf_of s c) \<Longrightarrow> lwt_rcv c s =
      Inr (Switched, lwt_dispatch z t (?s\<lparr>current_thread := z\<rparr>))"
    using rcv_resume_switch [OF q] assms by (simp add: lwt_rcv_def)
  moreover have "rbuf_isfull (rbuf_of s c) \<Longrightarrow> lwt_snd_resume c data s =
      Inr (Switched, lwt_dispatch z t (s\<lparr>current_thread := z\<rparr>))"
    by (rule snd_resume_switch [OF assms(1-4)])
  ultimately show ?thesis using assms(5-7) by (auto simp: lwt_snd_def)
qed

theorem full_or_empty_switches_witness:
  "\<exists>s'. lwt_rcv 20000 chan_ex = Inr (Switched, s') \<and> current_thread s' = 200 \<and> n_rcving s' = 1"
  using full_or_empty_switches [of chan_ex 100 "[]" 200 "[]" 20000 7] chan_ex_runq
  by (auto simp: lwt_ex_def rbuf_isempty_def)

text \<open>A receiver on an empty channel, or a sender on a full one, that is the only RUNNABLE
  thread never returns and never blocks: it yields to itself for ever.\<close>

theorem lone_waiter_spins:
  assumes "runq s (t # ys)" and "\<forall>y\<in>set ys. \<not> ready s y" and "ready s t"
    and "c \<noteq> NULL" and "c_rcv_thd (s_chan s c) \<noteq> NULL" and "data \<noteq> NULL"
  shows "(rbuf_isfull (rbuf_of s c) \<longrightarrow> lwt_snd c data s = Inl Diverges) \<and>
    (rbuf_isempty (rbuf_of s c) \<longrightarrow> lwt_rcv c s = Inl Diverges)"
proof -
  let ?s = "s\<lparr>n_rcving := n_rcving s + 1\<rparr>"
  have q: "runq ?s (t # ys)" using assms(1) by (simp add: runq_def)
  have "lwt_rcv_resume c ?s = Inl Diverges" if "rbuf_isempty (rbuf_of s c)"
    unfolding lwt_rcv_resume_def by (rule waiting_alone [OF q]) (use assms that in auto)
  moreover have "lwt_snd_resume c data s = Inl Diverges" if "rbuf_isfull (rbuf_of s c)"
    unfolding lwt_snd_resume_def by (rule waiting_alone [OF assms(1-3)]) (use that in auto)
  ultimately show ?thesis using assms(4-6) by (simp add: lwt_snd_def lwt_rcv_def)
qed

theorem lone_waiter_spins_witness:
  "lwt_rcv 20000 (upd_lwt 200 (\<lambda>l. l\<lparr>l_state := BLOCKED\<rparr>) chan_ex) = Inl Diverges"
  using lone_waiter_spins [of "upd_lwt 200 (\<lambda>l. l\<lparr>l_state := BLOCKED\<rparr>) chan_ex" 100 "[200]" 20000 7]
    chan_ex_runq
  by (simp add: lwt_ex_def rbuf_isempty_def upd_lwt_def runq_def)

end
