(* ===== verification/ChanGroup.thy ===== *)
theory ChanGroup
  imports ChanFlow
begin

text \<open>
  The life of a channel and the channel groups of \<open>channel.c\<close>: creation and release of a channel,
  and the tail queue of a group with its counter. \<open>group s cg cs\<close> says that the group \<open>cg\<close> holds
  the channels \<open>cs\<close>, in the order in which \<open>lwt_cgrp_wait\<close> looks at them.
\<close>

definition group :: "chan_sys \<Rightarrow> addr \<Rightarrow> addr list \<Rightarrow> bool" where
  "group s cg cs \<longleftrightarrow> cg \<noteq> NULL \<and> tailq (s_tq s) cg cs \<and> s_chan_cnt s cg = of_nat (length cs) \<and>
     (\<forall>c\<in>set cs. c_cgrp (s_chan s c) = cg)"

lemma groupD:
  assumes "group s cg cs"
  shows "cg \<noteq> NULL" "tailq (s_tq s) cg cs" "s_chan_cnt s cg = of_nat (length cs)"
    "c \<in> set cs \<Longrightarrow> c_cgrp (s_chan s c) = cg"
  using assms by (auto simp: group_def)

lemma group_elem_nonnull: "group s cg cs \<Longrightarrow> c \<in> set cs \<Longrightarrow> c \<noteq> NULL"
  using split_list [of c cs] by (auto simp: group_def tailq_def tseg_append)

lemma cgrp_scan_find:
  assumes "group s cg cs"
  shows "cgrp_scan cg s = Some (case find (\<lambda>c. \<not> rbuf_isempty (rbuf_of s c)) cs of
    None \<Rightarrow> NULL | Some c \<Rightarrow> c)"
  unfolding cgrp_scan_def by (rule tq_search_tailq) (rule groupD(2) [OF assms])

lemma group_cong:
  "s_tq s' = s_tq s \<Longrightarrow> s_chan_cnt s' = s_chan_cnt s \<Longrightarrow> s_chan s' = s_chan s \<Longrightarrow>
   group s' cg cs = group s cg cs"
  by (simp add: group_def)

lemma cgrp_wait_spins:
  assumes "cgrp_scan cg s = Some NULL" and "lwt_yield NULL s = Inr (Returned (), s)"
  shows "cgrp_wait_loop cg s = None"
proof (rule ccontr)
  assume "cgrp_wait_loop cg s \<noteq> None"
  then obtain r where r: "cgrp_wait_loop cg s = Some r" by auto
  have "(cg, s) \<noteq> (cg, s)"
  proof (rule cgrp_wait_loop.raw_induct [where P = "\<lambda>g x r. (g, x) \<noteq> (cg, s)", OF _ r])
    fix f g x r
    assume IH: "\<And>g x r. f g x = Some r \<Longrightarrow> (g, x) \<noteq> (cg, s)"
      and eq: "(case cgrp_scan g x of
        None \<Rightarrow> None
      | Some p \<Rightarrow>
          if p \<noteq> NULL then Some (Inr (Returned p, x))
          else (case lwt_yield NULL x of
              Inl e \<Rightarrow> Some (Inl e)
            | Inr (r, s') \<Rightarrow> (case r of
                Switched \<Rightarrow> Some (Inr (Switched, s'))
              | Returned _ \<Rightarrow> f g s'))) = Some r"
    show "(g, x) \<noteq> (cg, s)"
    proof
      assume "(g, x) = (cg, s)"
      with eq assms have "f cg s = Some r" by simp
      from IH [OF this] show False by simp
    qed
  qed
  then show False by simp
qed

lemma chan_bytes:
  assumes "0 \<le> sz" and "sz < 1000000"
  defines "w \<equiv> word_of_int sz :: u32"
  defines "cap \<equiv> if w = 0 then INFINITE_CAP + 1 else w + 1"
  shows "rbuf_bytes cap = 4 * (if sz = 0 then 1025 else sz + 1)" and "w = 0 \<longleftrightarrow> sz = 0"
    and "unat w < 2 ^ 29 - 1"
proof -
  obtain k where k: "sz = int k" using assms(1) by (metis nonneg_int_cases)
  have "w = of_nat k" by (simp add: w_def k)
  then have "unat w = k" using assms(2) k by (simp only: unat_of_nat) simp
  then have u: "unat w = nat sz" using k by simp
  show w0: "w = 0 \<longleftrightarrow> sz = 0"
  proof
    assume "w = 0"
    then have "nat sz = 0" using u by simp
    then show "sz = 0" using assms(1) by simp
  qed (simp add: w_def)
  have "unat (w + 1) = nat sz + 1" using u assms(2) by (subst unat_add_lem [THEN iffD1]) simp_all
  then have c: "unat cap = (if sz = 0 then 1025 else nat sz + 1)"
    unfolding cap_def w0 by (simp add: INFINITE_CAP_def)
  then have "nat (rbuf_bytes cap) = 4 * unat cap" using assms(2) by (intro rbuf_bytes_small) auto
  then show "rbuf_bytes cap = 4 * (if sz = 0 then 1025 else sz + 1)"
    using c assms(1) by (auto split: if_splits)
  show "unat w < 2 ^ 29 - 1" using u assms(2) by simp
qed

lemma rbuf_pair:
  assumes "kpool h A" and "kfits h (SIZEOF_RBUF + n)" and "0 < n" and "n \<le> PAGESIZE"
    and "n = rbuf_bytes (if cap = 0 then INFINITE_CAP + 1 else cap + 1)"
  obtains r a h' B where "rbuf_init h junk cap = Inr ((r, \<lparr>rb_buf = a, rb_mem = junk, rb_slots = nat n div 4,
      rb_head = 0, rb_tail = 0, rb_capacity = if cap = 0 then INFINITE_CAP + 1 else cap + 1\<rparr>), h')"
    and "kpool h' B" and "0 < r"
    and "\<And>k. kpool k B \<Longrightarrow> \<exists>k1 k2. kfree k a n = Inr k1 \<and> kfree k1 r SIZEOF_RBUF = Inr k2 \<and> kpool k2 A"
proof -
  have z: "0 < SIZEOF_RBUF" "SIZEOF_RBUF \<le> PAGESIZE" by (simp_all add: SIZEOF_RBUF_def PAGESIZE_def)
  have f: "kfits h SIZEOF_RBUF" by (rule kfits_mono [OF assms(2)]) (use assms(3) in simp)
  from kalloc_undo [OF assms(1) f z] obtain r h1 where
    r: "kalloc h SIZEOF_RBUF = Inr (r, h1)" "0 < r" "kpool h1 (A - block r SIZEOF_RBUF)"
      "\<And>k. kpool k (A - block r SIZEOF_RBUF) \<Longrightarrow> \<exists>k'. kfree k r SIZEOF_RBUF = Inr k' \<and> kpool k' A"
    by blast
  have f2: "kfits h1 n" by (rule kalloc_leaves [OF assms(1,2) z assms(3) r(1)])
  from kalloc_undo [OF r(3) f2 assms(3,4)] obtain a h2 where
    a: "kalloc h1 n = Inr (a, h2)" "0 < a" "kpool h2 (A - block r SIZEOF_RBUF - block a n)"
      "\<And>k. kpool k (A - block r SIZEOF_RBUF - block a n) \<Longrightarrow>
        \<exists>k'. kfree k a n = Inr k' \<and> kpool k' (A - block r SIZEOF_RBUF)"
    by blast
  show thesis
  proof (rule that [OF _ a(3) r(2)])
    show "rbuf_init h junk cap = Inr ((r, \<lparr>rb_buf = a, rb_mem = junk, rb_slots = nat n div 4,
      rb_head = 0, rb_tail = 0, rb_capacity = if cap = 0 then INFINITE_CAP + 1 else cap + 1\<rparr>), h2)"
      using r(1,2) a(1,2) assms(5) by (simp add: rbuf_init_def Let_def)
    show "\<exists>k1 k2. kfree k a n = Inr k1 \<and> kfree k1 r SIZEOF_RBUF = Inr k2 \<and> kpool k2 A"
      if "kpool k (A - block r SIZEOF_RBUF - block a n)" for k
      using a(4) [OF that] r(4) by blast
  qed
qed

subsection \<open>Properties\<close>

text \<open>A new group is empty, and an empty group that is freed gives its block back, so that the
  pool is as it was.\<close>

theorem lwt_cgrp_new_and_free:
  assumes "kpool (s_kheap s) A" and "kfits (s_kheap s) SIZEOF_CGRP"
  shows "\<exists>cg s' s''. lwt_cgrp s = Inr (cg, s') \<and> group s' cg [] \<and>
    (\<forall>g cs. group s g cs \<longrightarrow> g \<noteq> cg \<longrightarrow> group s' g cs) \<and>
    lwt_cgrp_free cg s' = Inr (0, s'') \<and> kpool (s_kheap s'') A"
proof -
  have n: "0 < SIZEOF_CGRP" "SIZEOF_CGRP \<le> PAGESIZE" by (simp_all add: SIZEOF_CGRP_def PAGESIZE_def)
  from kp.alloc_then_free [OF assms(1) n assms(2)] obtain cg h' h'' where
    a: "kalloc (s_kheap s) SIZEOF_CGRP = Inr (cg, h')" "kfree h' cg SIZEOF_CGRP = Inr h''" "kpool h'' A"
    by blast
  from kp.alloc_fits [OF assms(1) n assms(2)] a(1) have "cg \<noteq> NULL" by auto
  let ?s = "s\<lparr>s_kheap := h', s_chan_cnt := (s_chan_cnt s)(cg := 0), s_tq := TAILQ_INIT cg (s_tq s)\<rparr>"
  have "lwt_cgrp s = Inr (cg, ?s)" using a(1) \<open>cg \<noteq> NULL\<close> by (simp add: lwt_cgrp_def)
  moreover have "group ?s cg []" using \<open>cg \<noteq> NULL\<close> by (simp add: group_def TAILQ_INIT_empty)
  moreover have "\<forall>g cs. group s g cs \<longrightarrow> g \<noteq> cg \<longrightarrow> group ?s g cs"
    by (auto simp: group_def TAILQ_INIT_other)
  moreover have "lwt_cgrp_free cg ?s = Inr (0, ?s\<lparr>s_kheap := h''\<rparr>)"
    using a(2) \<open>cg \<noteq> NULL\<close> by (simp add: lwt_cgrp_free_def)
  ultimately show ?thesis using a(3) by force
qed

theorem lwt_cgrp_new_and_free_witness:
  "\<exists>cg s' s''. lwt_cgrp chan_ex = Inr (cg, s') \<and> group s' cg [] \<and>
    lwt_cgrp_free cg s' = Inr (0, s'') \<and> kpool (s_kheap s'') (block 4096 8000)"
proof -
  have "free_list (s_kheap sys_ex) [(4096, 8000)]" by (simp add: free_list_def sys_ex_def pool_ex_def)
  from kfits_list [OF this] have "kfits (s_kheap chan_ex) SIZEOF_CGRP" by (simp add: SIZEOF_CGRP_def)
  with lwt_cgrp_new_and_free [of chan_ex "block 4096 8000"] sys_ex_pool(1) show ?thesis by force
qed

text \<open>Adding a channel that is in no group puts it at the end of the group; a channel already
  in this group is accepted without a change, one of another group is refused; other groups keep
  their channels.\<close>

theorem lwt_cgrp_add_appends:
  assumes "group s cg cs" and "c \<noteq> NULL" and "c \<notin> set cs"
  shows "(c_cgrp (s_chan s c) = NULL \<longrightarrow> (\<exists>s'. lwt_cgrp_add cg c s = Inr (0, s') \<and>
      group s' cg (cs @ [c]) \<and>
      (\<forall>g ds. group s g ds \<longrightarrow> g \<noteq> cg \<longrightarrow> group s' g ds))) \<and>
    (c_cgrp (s_chan s c) = cg \<longrightarrow> lwt_cgrp_add cg c s = Inr (0, s)) \<and>
    (c_cgrp (s_chan s c) \<notin> {NULL, cg} \<longrightarrow> lwt_cgrp_add cg c s = Inr (-1, s))"
proof (intro conjI impI)
  note g = groupD [OF assms(1)]
  let ?s1 = "upd_chan c (\<lambda>ch. ch\<lparr>c_cgrp := cg\<rparr>) s"
  let ?s = "?s1\<lparr>s_chan_cnt := (s_chan_cnt ?s1)(cg := s_chan_cnt ?s1 cg + 1),
     s_tq := TAILQ_INSERT_TAIL cg c (s_tq ?s1)\<rparr>"
  assume free: "c_cgrp (s_chan s c) = NULL"
  have "group ?s cg (cs @ [c])"
    using g TAILQ_INSERT_TAIL_list [OF g(2) assms(3,2)] by (auto simp: group_def upd_chan_def)
  moreover have "group ?s h ds" if d: "group s h ds" "h \<noteq> cg" for h ds
  proof -
    have "set ds \<inter> set cs = {}" using groupD(4) [OF d(1)] g(4) d(2) by auto
    moreover have c: "c \<notin> set ds" using groupD(1,4) [OF d(1)] free by auto
    ultimately have "tailq (TAILQ_INSERT_TAIL cg c (s_tq s)) h ds"
      using TAILQ_INSERT_TAIL_other [OF groupD(2) [OF d(1)] g(2) d(2)] by blast
    with d c show ?thesis by (auto simp: group_def upd_chan_def)
  qed
  moreover have "lwt_cgrp_add cg c s = Inr (0, ?s)"
    using free assms(2) g(1) by (simp add: lwt_cgrp_add_def Let_def)
  ultimately show "\<exists>s'. lwt_cgrp_add cg c s = Inr (0, s') \<and> group s' cg (cs @ [c]) \<and>
      (\<forall>g ds. group s g ds \<longrightarrow> g \<noteq> cg \<longrightarrow> group s' g ds)" by blast
qed (use assms(2) groupD(1) [OF assms(1)] in \<open>simp_all add: lwt_cgrp_add_def\<close>)

text \<open>A group at 50000 that holds the channel of the example.\<close>

definition group_ex :: chan_sys where
  "group_ex = chan_ex\<lparr>s_tq := TAILQ_INIT 50000 (s_tq chan_ex)\<rparr>"

lemma group_ex_group: "group group_ex 50000 []"
  by (simp add: group_def group_ex_def TAILQ_INIT_empty)

theorem lwt_cgrp_add_appends_witness:
  "\<exists>s'. lwt_cgrp_add 50000 20000 group_ex = Inr (0, s') \<and> group s' 50000 [20000]"
  using lwt_cgrp_add_appends [OF group_ex_group, of 20000] by (auto simp: group_ex_def)

text \<open>Removing a channel of a group takes it out of the queue, keeping the order of the others,
  unless it has pending data: then nothing changes and the result is 1. Other groups keep their
  channels.\<close>

theorem lwt_cgrp_rem_removes:
  assumes "group s cg (us @ c # vs)"
  shows "(rbuf_isempty (rbuf_of s c) \<longrightarrow> (\<exists>s'. lwt_cgrp_rem cg c s = Inr (0, s') \<and>
      group s' cg (us @ vs) \<and> (\<forall>g ds. group s g ds \<longrightarrow> g \<noteq> cg \<longrightarrow> group s' g ds))) \<and>
    (\<not> rbuf_isempty (rbuf_of s c) \<longrightarrow> lwt_cgrp_rem cg c s = Inr (1, s))"
proof (intro conjI impI)
  note g = groupD [OF assms]
  have c: "c \<noteq> NULL" "c_cgrp (s_chan s c) = cg" using group_elem_nonnull [OF assms] g(4) by auto
  let ?s = "s\<lparr>s_tq := TAILQ_REMOVE cg c (s_tq s),
     s_chan_cnt := (s_chan_cnt s)(cg := s_chan_cnt s cg - 1)\<rparr>"
  assume "rbuf_isempty (rbuf_of s c)"
  then have "lwt_cgrp_rem cg c s = Inr (0, ?s)" using c g(1) by (simp add: lwt_cgrp_rem_def)
  moreover have "group ?s cg (us @ vs)"
    using g TAILQ_REMOVE_list [OF g(2)] by (auto simp: group_def)
  moreover have "group ?s h ds" if d: "group s h ds" "h \<noteq> cg" for h ds
  proof -
    have "set ds \<inter> set (us @ c # vs) = {}" using groupD(4) [OF d(1)] g(4) d(2) by auto
    from TAILQ_REMOVE_other [OF groupD(2) [OF d(1)] g(2) d(2) this] d show ?thesis
      by (auto simp: group_def)
  qed
  ultimately show "\<exists>s'. lwt_cgrp_rem cg c s = Inr (0, s') \<and> group s' cg (us @ vs) \<and>
      (\<forall>g ds. group s g ds \<longrightarrow> g \<noteq> cg \<longrightarrow> group s' g ds)" by blast
next
  note g = groupD [OF assms]
  have c: "c \<noteq> NULL" "c_cgrp (s_chan s c) = cg" using group_elem_nonnull [OF assms] g(4) by auto
  show "lwt_cgrp_rem cg c s = Inr (1, s)" if "\<not> rbuf_isempty (rbuf_of s c)"
    using that c g(1) by (simp add: lwt_cgrp_rem_def)
qed

definition member_ex :: chan_sys where
  "member_ex = (upd_chan 20000 (\<lambda>ch. ch\<lparr>c_cgrp := 50000\<rparr>) group_ex)
     \<lparr>s_chan_cnt := (\<lambda>_. 1), s_tq := TAILQ_INSERT_TAIL 50000 20000 (s_tq group_ex)\<rparr>"

lemma member_ex_group: "group member_ex 50000 [20000]"
  using TAILQ_INSERT_TAIL_list [OF groupD(2) [OF group_ex_group], of 20000]
  by (simp add: group_def member_ex_def upd_chan_def)

lemma member_ex_sel: "rbuf_of member_ex 20000 = rbuf_of chan_ex 20000"
  by (simp add: member_ex_def group_ex_def upd_chan_def)

theorem lwt_cgrp_rem_removes_witness:
  "\<exists>s'. lwt_cgrp_rem 50000 20000 member_ex = Inr (0, s') \<and> group s' 50000 []"
  using lwt_cgrp_rem_removes [of member_ex 50000 "[]" 20000 "[]"] member_ex_group member_ex_sel
  by (auto simp: rbuf_isempty_def)


text \<open>C38: \<open>lwt_cgrp_wait\<close> returns the first channel of the group, in the order they were added, that
  has pending data; when none has, it hands the processor to the next RUNNABLE thread, and if
  there is no other it spins for ever.\<close>

theorem lwt_cgrp_wait_first_ready:
  assumes "group s cg cs" and "runq s (t # ts)" and "ready s t" and "n_runnable s \<noteq> 0"
  shows "(\<forall>us c vs. cs = us @ c # vs \<longrightarrow> (\<forall>u\<in>set us. rbuf_isempty (rbuf_of s u)) \<longrightarrow>
      \<not> rbuf_isempty (rbuf_of s c) \<longrightarrow> lwt_cgrp_wait cg s = Inr (Returned c, s)) \<and>
    ((\<forall>c\<in>set cs. rbuf_isempty (rbuf_of s c)) \<longrightarrow>
      (\<forall>ys z zs. ts = ys @ z # zs \<longrightarrow> (\<forall>y\<in>set ys. \<not> ready s y) \<longrightarrow> ready s z \<longrightarrow>
        lwt_cgrp_wait cg s = Inr (Switched, lwt_dispatch z t (s\<lparr>current_thread := z\<rparr>))) \<and>
      ((\<forall>y\<in>set ts. \<not> ready s y) \<longrightarrow> lwt_cgrp_wait cg s = Inl Diverges))"
proof (intro conjI allI impI)
  note nn = groupD(1) [OF assms(1)]
  fix us c vs
  assume a: "cs = us @ c # vs" "\<forall>u\<in>set us. rbuf_isempty (rbuf_of s u)" "\<not> rbuf_isempty (rbuf_of s c)"
  then have "find (\<lambda>c. \<not> rbuf_isempty (rbuf_of s c)) cs = Some c" by (simp add: takeWhile_hit)
  moreover have "c \<noteq> NULL" using group_elem_nonnull [OF assms(1)] a(1) by simp
  ultimately have "cgrp_wait_loop cg s = Some (Inr (Returned c, s))"
    using cgrp_scan_find [OF assms(1)] by (subst cgrp_wait_loop.simps) simp
  then show "lwt_cgrp_wait cg s = Inr (Returned c, s)" using nn by (simp add: lwt_cgrp_wait_def)
next
  note nn = groupD(1) [OF assms(1)]
  assume e: "\<forall>c\<in>set cs. rbuf_isempty (rbuf_of s c)"
  have "find (\<lambda>c. \<not> rbuf_isempty (rbuf_of s c)) cs = None" using e by (simp add: find_None_iff)
  then have scan: "cgrp_scan cg s = Some NULL" using cgrp_scan_find [OF assms(1)] by simp
  {
    fix ys z zs assume "ts = ys @ z # zs" "\<forall>y\<in>set ys. \<not> ready s y" "ready s z"
    with assms(2) lwt_schedule_switch [of s t ys z zs] assms(4) have
      "cgrp_wait_loop cg s = Some (Inr (Switched, lwt_dispatch z t (s\<lparr>current_thread := z\<rparr>)))"
      using scan by (subst cgrp_wait_loop.simps) simp
    then show "lwt_cgrp_wait cg s = Inr (Switched, lwt_dispatch z t (s\<lparr>current_thread := z\<rparr>))"
      using nn by (simp add: lwt_cgrp_wait_def)
  next
    assume "\<forall>y\<in>set ts. \<not> ready s y"
    with assms have y: "lwt_yield NULL s = Inr (Returned (), s)" using lwt_schedule_alone by simp
    have "cgrp_wait_loop cg s = None" by (rule cgrp_wait_spins [OF scan y])
    then show "lwt_cgrp_wait cg s = Inl Diverges" using nn by (simp add: lwt_cgrp_wait_def)
  }
qed

theorem lwt_cgrp_wait_first_ready_witness:
  "lwt_cgrp_wait 50000 member_ex = Inr (Switched, lwt_dispatch 200 100 (member_ex\<lparr>current_thread := 200\<rparr>))"
proof -
  have "runq member_ex [100, 200]" using chan_ex_runq
    by (simp add: runq_def member_ex_def group_ex_def upd_chan_def)
  moreover have "ready member_ex t" "n_runnable member_ex \<noteq> 0" for t
    by (simp_all add: member_ex_def group_ex_def upd_chan_def lwt_ex_def)
  ultimately show ?thesis
    using lwt_cgrp_wait_first_ready [OF member_ex_group, of 100 "[200]"] member_ex_sel
    by (force simp: rbuf_isempty_def)
qed

text \<open>\<open>lwt_cgrp_rem\<close> leaves the channel marked as a member. Adding it back therefore succeeds
  without doing anything: the channel stays outside the group. Removing it a second time, from a
  group it was alone in, wraps the counter around to $2^{32}-1$, after which the empty group can
  never be freed.\<close>

theorem removed_channel_is_stuck:
  assumes "group s cg [c]" and "rbuf_isempty (rbuf_of s c)"
  shows "\<exists>s1 s2. lwt_cgrp_rem cg c s = Inr (0, s1) \<and> group s1 cg [] \<and>
    lwt_cgrp_add cg c s1 = Inr (0, s1) \<and>
    lwt_cgrp_rem cg c s1 = Inr (0, s2) \<and> tailq (s_tq s2) cg [] \<and>
    s_chan_cnt s2 cg = 2 ^ 32 - 1 \<and> lwt_cgrp_free cg s2 = Inr (-1, s2)"
proof -
  note g = groupD [OF assms(1)]
  have c: "c \<noteq> NULL" "c_cgrp (s_chan s c) = cg" using group_elem_nonnull [OF assms(1)] g(4) by auto
  let ?s1 = "s\<lparr>s_tq := TAILQ_REMOVE cg c (s_tq s),
     s_chan_cnt := (s_chan_cnt s)(cg := s_chan_cnt s cg - 1)\<rparr>"
  let ?s2 = "?s1\<lparr>s_tq := TAILQ_REMOVE cg c (s_tq ?s1),
     s_chan_cnt := (s_chan_cnt ?s1)(cg := s_chan_cnt ?s1 cg - 1)\<rparr>"
  from g(2) have t: "tqh_last (s_tq s) cg = TqNext c" "tq_get (s_tq s) (TqNext c) = NULL"
    "tqe_prev (s_tq s) c = TqFirst cg" by (auto simp: tailq_def)
  have t1: "tailq (TAILQ_REMOVE cg c (s_tq s)) cg []"
    using TAILQ_REMOVE_list [of "s_tq s" cg "[]" c "[]"] g(2) by simp
  have "tailq (TAILQ_REMOVE cg c (TAILQ_REMOVE cg c (s_tq s))) cg []"
    using t by (simp add: TAILQ_REMOVE_def Let_def tailq_def)
  moreover have "lwt_cgrp_rem cg c s = Inr (0, ?s1)" "lwt_cgrp_add cg c ?s1 = Inr (0, ?s1)"
    "lwt_cgrp_rem cg c ?s1 = Inr (0, ?s2)"
    using c g(1) assms(2) by (simp_all add: lwt_cgrp_rem_def lwt_cgrp_add_def)
  moreover have "group ?s1 cg []" using t1 g(1,3) by (simp add: group_def)
  moreover have "s_chan_cnt ?s2 cg = 2 ^ 32 - 1" using g(3) by simp
  moreover from this have "lwt_cgrp_free cg ?s2 = Inr (-1, ?s2)" using g(1)
    by (simp add: lwt_cgrp_free_def)
  ultimately show ?thesis by (intro exI [of _ ?s1] exI [of _ ?s2]) simp
qed

theorem removed_channel_is_stuck_witness:
  "\<exists>s1 s2. lwt_cgrp_rem 50000 20000 member_ex = Inr (0, s1) \<and> group s1 50000 [] \<and>
    lwt_cgrp_add 50000 20000 s1 = Inr (0, s1) \<and>
    lwt_cgrp_rem 50000 20000 s1 = Inr (0, s2) \<and> tailq (s_tq s2) 50000 [] \<and>
    s_chan_cnt s2 50000 = 2 ^ 32 - 1 \<and> lwt_cgrp_free 50000 s2 = Inr (-1, s2)"
  by (rule removed_channel_is_stuck [OF member_ex_group])
    (simp add: member_ex_def group_ex_def upd_chan_def rbuf_isempty_def)


text \<open>A channel that was never used is released completely: \<open>lwt_chan\<close> makes an empty channel of
  the requested capacity (1024 for 0) whose receiver is the caller, and \<open>lwt_chan_deref\<close> by the
  receiver gives all its memory back.\<close>

theorem lwt_chan_new_and_release:
  assumes "kpool (s_kheap s) A" and "0 \<le> sz" and "sz < 1000000"
    and "kfits (s_kheap s) (SIZEOF_CHANNEL + (SIZEOF_RBUF + 4 * (max sz 1024 + 1)))"
  shows "\<exists>c s' s''. lwt_chan junk sz s = Inr (c, s') \<and> rbuf_ok (rbuf_of s' c) \<and> msgs s' c = [] \<and>
    rbuf_capacity (rbuf_of s' c) = (if sz = 0 then 1024 else word_of_int sz) \<and>
    c_rcv_thd (s_chan s' c) = current_thread s \<and>
    lwt_chan_deref c s' = Inr s'' \<and> kpool (s_kheap s'') A"
proof -
  let ?w = "word_of_int sz :: u32"
  let ?cap = "if ?w = 0 then INFINITE_CAP + 1 else ?w + 1 :: u32"
  let ?b = "4 * (if sz = 0 then 1025 else sz + 1)"
  note cb = chan_bytes [OF assms(2,3)]
  have z: "0 < SIZEOF_CHANNEL" "SIZEOF_CHANNEL \<le> PAGESIZE" "0 < ?b" "?b \<le> PAGESIZE" "0 < SIZEOF_RBUF"
    using assms(2,3) by (auto simp: SIZEOF_CHANNEL_def SIZEOF_RBUF_def PAGESIZE_def)
  have fit: "kfits (s_kheap s) (SIZEOF_CHANNEL + (SIZEOF_RBUF + ?b))"
    by (rule kfits_mono [OF assms(4)]) (use assms(2) in auto)
  have f1: "kfits (s_kheap s) SIZEOF_CHANNEL" by (rule kfits_mono [OF fit]) (use z in simp)
  from kalloc_undo [OF assms(1) f1 z(1,2)] obtain c h1 where
    c: "kalloc (s_kheap s) SIZEOF_CHANNEL = Inr (c, h1)" "0 < c" "kpool h1 (A - block c SIZEOF_CHANNEL)"
      "\<And>k. kpool k (A - block c SIZEOF_CHANNEL) \<Longrightarrow> \<exists>k'. kfree k c SIZEOF_CHANNEL = Inr k' \<and> kpool k' A"
    by blast
  have "0 < SIZEOF_RBUF + ?b" using z by simp
  from kalloc_leaves [OF assms(1) fit z(1,2) this c(1)] have f2: "kfits h1 (SIZEOF_RBUF + ?b)" .
  from rbuf_pair [OF c(3) f2 z(3,4), of ?w junk] cb(1) obtain r a h2 B where
    r: "rbuf_init h1 junk ?w = Inr ((r, \<lparr>rb_buf = a, rb_mem = junk, rb_slots = nat ?b div 4,
      rb_head = 0, rb_tail = 0, rb_capacity = ?cap\<rparr>), h2)" "kpool h2 B" "0 < r"
      "\<And>k. kpool k B \<Longrightarrow> \<exists>k1 k2. kfree k a ?b = Inr k1 \<and> kfree k1 r SIZEOF_RBUF = Inr k2 \<and>
        kpool k2 (A - block c SIZEOF_CHANNEL)" by metis
  let ?rb = "\<lparr>rb_buf = a, rb_mem = junk, rb_slots = nat ?b div 4, rb_head = 0, rb_tail = 0,
     rb_capacity = ?cap\<rparr>"
  note rok = rbuf_init_ok [OF r(1) cb(3)]
  let ?ch = "(s_chan s c)\<lparr>c_size := sz, c_snd_cnt := 0, c_id := lwt_chanid_counter s, c_rbuf := r,
     c_rcv_thd := current_thread s, c_cgrp := NULL, c_mark := NULL\<rparr>"
  let ?s = "(s\<lparr>s_chan := (s_chan s)(c := ?ch)\<rparr>)\<lparr>s_kheap := h2, s_rbuf := (s_rbuf s)(r := ?rb),
     lwt_chanid_counter := lwt_chanid_counter s + 1, n_chan := n_chan s + 1\<rparr>"
  have new: "lwt_chan junk sz s = Inr (c, ?s)"
    using assms(2) c(1,2) r(1) by (simp add: lwt_chan_def upd_chan_def)
  from r(4) [OF r(2)] c(4) obtain k1 k2 k3 where k: "kfree h2 a ?b = Inr k1"
    "kfree k1 r SIZEOF_RBUF = Inr k2" "kfree k2 c SIZEOF_CHANNEL = Inr k3" "kpool k3 A" by blast
  have "rbuf_free h2 r ?rb = Inr k2"
    using k(1,2) r(3) cb(1) by (simp only: rbuf_free_def rbuf.simps) simp
  then have "\<exists>s''. lwt_chan_deref c ?s = Inr s'' \<and> s_kheap s'' = k3"
    using c(2) k(3) by (simp add: lwt_chan_deref_def upd_chan_def Let_def)
  then obtain s'' where "lwt_chan_deref c ?s = Inr s''" "s_kheap s'' = k3" by blast
  then show ?thesis using new rok k(4) cb(2)
    by (intro exI [of _ c] exI [of _ ?s] exI [of _ s'']) (simp add: msgs_def INFINITE_CAP_def)
qed

theorem lwt_chan_new_and_release_witness:
  "\<exists>c s' s''. lwt_chan (\<lambda>_. 0) 100 chan_ex = Inr (c, s') \<and> msgs s' c = [] \<and>
    lwt_chan_deref c s' = Inr s'' \<and> kpool (s_kheap s'') (block 4096 8000)"
proof -
  have "free_list (s_kheap sys_ex) [(4096, 8000)]" by (simp add: free_list_def sys_ex_def pool_ex_def)
  from kfits_list [OF this]
  have "kfits (s_kheap chan_ex) (SIZEOF_CHANNEL + (SIZEOF_RBUF + 4 * (max 100 1024 + 1)))"
    by (simp add: SIZEOF_CHANNEL_def SIZEOF_RBUF_def)
  moreover have "kpool (s_kheap chan_ex) (block 4096 8000)" using sys_ex_pool(1) by simp
  ultimately show ?thesis
    using lwt_chan_new_and_release [of chan_ex "block 4096 8000" 100 "\<lambda>_. 0"] by force
qed

text \<open>
  The receiver sends and receives the data \<open>ds\<close>, one after the other, checking what comes back, and
  releases the channel \<open>n\<close> times.
\<close>

primrec exchange :: "addr \<Rightarrow> addr list \<Rightarrow> 'z chan_sys_scheme \<Rightarrow> 'z chan_sys_scheme result" where
  "exchange c [] s = Inr s"
| "exchange c (d # ds) s =
     rbind (lwt_snd c d s) (\<lambda>(r, s1). rbind (assertion (r = Returned 0)) (\<lambda>_.
     rbind (lwt_rcv c s1) (\<lambda>(q, s2). rbind (assertion (q = Returned d)) (\<lambda>_. exchange c ds s2))))"

primrec derefs :: "nat \<Rightarrow> addr \<Rightarrow> 'z chan_sys_scheme \<Rightarrow> 'z chan_sys_scheme result" where
  "derefs 0 c s = Inr s"
| "derefs (Suc n) c s = rbind (lwt_chan_deref c s) (derefs n c)"

definition spare :: "'z chan_sys_scheme \<Rightarrow> addr \<Rightarrow> addr set \<Rightarrow> bool" where
  "spare s c A \<longleftrightarrow> (\<exists>C. chan_inv s A C \<and> c \<in> C) \<and> msgs s c = [] \<and> kfits (s_kheap s) SIZEOF_MSG \<and>
     c_rcv_thd (s_chan s c) = current_thread s"

lemma empty_not_full: "rbuf_ok rb \<Longrightarrow> rbuf_isempty rb \<Longrightarrow> \<not> rbuf_isfull rb"
  using unat_succ_mod [of "rb_tail rb" "rb_capacity rb"]
  by (auto simp: rbuf_isempty_def rbuf_isfull_def rbuf_ok_def word_less_nat_alt mod_Suc
      split: if_splits dest: arg_cong [where f = unat])

lemma exchange_one:
  assumes sp: "spare s c A" and d: "d \<noteq> NULL"
  obtains s1 s2 where "lwt_snd c d s = Inr (Returned 0, s1)" and "lwt_rcv c s1 = Inr (Returned d, s2)"
    and "spare s2 c A" and "c_snd_cnt (s_chan s2 c) = c_snd_cnt (s_chan s c) + 1"
    and "c_rbuf (s_chan s2 c) = c_rbuf (s_chan s c)"
    and "rb_buf (rbuf_of s2 c) = rb_buf (rbuf_of s c)"
    and "rb_capacity (rbuf_of s2 c) = rb_capacity (rbuf_of s c)"
proof -
  from sp obtain C where inv: "chan_inv s A C" and c: "c \<in> C" and m0: "msgs s c = []"
    and fit: "kfits (s_kheap s) SIZEOF_MSG" and me: "c_rcv_thd (s_chan s c) = current_thread s"
    by (auto simp: spare_def)
  note ok = chan_inv_okD [OF inv c]
  have c0: "contents (rbuf_of s c) = []" using m0 by (simp add: msgs_def)
  with rbq.empty_abs [OF ok(3)] empty_not_full [OF ok(3)] have nf: "\<not> rbuf_isfull (rbuf_of s c)" by simp
  from snd_write_at [OF inv c nf fit, of d, unfolded c0 append_Nil] obtain m h rb where
    w: "snd_write c d s = Inr (Returned 0, sent c d m h rb s)" "contents rb = [m]"
      "rb_buf rb = rb_buf (rbuf_of s c) \<and> rb_capacity rb = rb_capacity (rbuf_of s c)"
      "chan_inv (sent c d m h rb s) (A - block m SIZEOF_MSG) C" "block m SIZEOF_MSG \<subseteq> A"
      "\<forall>e\<in>C. msgs (sent c d m h rb s) e = msgs s e @ (if e = c then [d] else [])" .
  let ?s1 = "sent c d m h rb s"
  let ?r1 = "?s1\<lparr>n_rcving := n_rcving ?s1 + 1\<rparr>"
  have snd: "lwt_snd c d s = Inr (Returned 0, ?s1)"
    using w(1) d nf ok(1,2) by (simp add: lwt_snd_def lwt_snd_resume_def)
  have inv1: "chan_inv ?r1 (A - block m SIZEOF_MSG) C" using w(4) memory_chan_inv [of ?r1 ?s1] by simp
  have rb1: "rbuf_of ?r1 c = rb" by (simp add: sent_def)
  have ne: "\<not> rbuf_isempty (rbuf_of ?r1 c)"
    using rbq.empty_abs [OF chan_inv_okD(3) [OF inv1 c]] rb1 w(2) by simp
  from rcv_read_at [OF inv1 c ne] obtain n k rb2 where
    r: "rcv_read c ?r1 = Inr (Returned (m_data (s_msg ?r1 n)), received c k rb2 ?r1)"
      "contents (rbuf_of ?r1 c) = n # contents rb2"
      "rb_buf rb2 = rb_buf (rbuf_of ?r1 c) \<and> rb_capacity rb2 = rb_capacity (rbuf_of ?r1 c)"
      "chan_inv (received c k rb2 ?r1) (A - block m SIZEOF_MSG \<union> block n SIZEOF_MSG) C"
      "\<forall>e\<in>C. msgs ?r1 e = (if e = c then [m_data (s_msg ?r1 n)] else []) @ msgs (received c k rb2 ?r1) e" .
  from r(2) have nm: "n = m" and rb2: "contents rb2 = []" unfolding rb1 w(2) by simp_all
  have md: "m_data (s_msg ?r1 n) = d" unfolding nm by (simp add: sent_def)
  have rcv: "lwt_rcv c ?s1 = Inr (Returned d, received c k rb2 ?r1)"
    using r(1) ne unfolding md by (simp add: lwt_rcv_live [OF w(4) c] lwt_rcv_resume_def)
  let ?s2 = "received c k rb2 ?r1"
  have "A - block m SIZEOF_MSG \<union> block n SIZEOF_MSG = A" using w(5) unfolding nm by blast
  with r(4) have inv2: "chan_inv ?s2 A C" by (simp only:)
  have "rbuf_of ?s2 c = rb2" by (simp add: received_def sent_def)
  with rb2 have "msgs ?s2 c = []" by (simp add: msgs_def)
  moreover have "kfits (s_kheap ?s2) SIZEOF_MSG"
    using kpool_kfits [OF ok(5) chan_inv_okD(5) [OF inv2 c] fit] .
  moreover have "c_rcv_thd (s_chan ?s2 c) = current_thread ?s2" using me by (simp add: received_def sent_def)
  ultimately have sp2: "spare ?s2 c A" unfolding spare_def using inv2 c by blast
  have "c_snd_cnt (s_chan ?s2 c) = c_snd_cnt (s_chan s c) + 1" "c_rbuf (s_chan ?s2 c) = c_rbuf (s_chan s c)"
    by (simp_all add: received_def sent_def)
  moreover have "rb_buf (rbuf_of ?s2 c) = rb_buf (rbuf_of s c)"
    "rb_capacity (rbuf_of ?s2 c) = rb_capacity (rbuf_of s c)"
    using r(3) w(3) unfolding rb1 by (simp_all add: received_def sent_def)
  ultimately show thesis by (rule that [OF snd rcv sp2])
qed

lemma exchange_runs:
  assumes "spare s c A" and "NULL \<notin> set ds"
  shows "\<exists>s'. exchange c ds s = Inr s' \<and> spare s' c A \<and>
    c_snd_cnt (s_chan s' c) = c_snd_cnt (s_chan s c) + int (length ds) \<and>
    c_rbuf (s_chan s' c) = c_rbuf (s_chan s c) \<and> rb_buf (rbuf_of s' c) = rb_buf (rbuf_of s c) \<and>
    rb_capacity (rbuf_of s' c) = rb_capacity (rbuf_of s c)"
  using assms
proof (induction ds arbitrary: s)
  case (Cons d ds)
  from Cons.prems have d: "d \<noteq> NULL" by auto
  obtain s1 s2 where e: "lwt_snd c d s = Inr (Returned 0, s1)" "lwt_rcv c s1 = Inr (Returned d, s2)"
    "spare s2 c A" "c_snd_cnt (s_chan s2 c) = c_snd_cnt (s_chan s c) + 1"
    "c_rbuf (s_chan s2 c) = c_rbuf (s_chan s c)" "rb_buf (rbuf_of s2 c) = rb_buf (rbuf_of s c)"
    "rb_capacity (rbuf_of s2 c) = rb_capacity (rbuf_of s c)" by (rule exchange_one [OF Cons.prems(1) d])
  from Cons.IH [OF e(3)] Cons.prems(2) e show ?case by auto
qed simp

lemma derefs_count:
  assumes "c \<noteq> NULL" and "c_snd_cnt (s_chan s c) = int n"
  shows "derefs n c s = Inr (upd_chan c (\<lambda>ch. ch\<lparr>c_snd_cnt := 0\<rparr>) s)"
  using assms
proof (induction n arbitrary: s)
  case 0
  have "(s_chan s)(c := (s_chan s c)\<lparr>c_snd_cnt := 0\<rparr>) = s_chan s" using 0 by (simp add: fun_upd_idem)
  then show ?case by (simp add: upd_chan_def)
next
  case (Suc n)
  have "lwt_chan_deref c s = Inr (upd_chan c (\<lambda>ch. ch\<lparr>c_snd_cnt := c_snd_cnt ch - 1\<rparr>) s)"
    using Suc.prems by (simp add: lwt_chan_deref_def)
  with Suc.IH [of "upd_chan c (\<lambda>ch. ch\<lparr>c_snd_cnt := c_snd_cnt ch - 1\<rparr>) s"] Suc.prems show ?case
    by (simp add: upd_chan_def)
qed

text \<open>C39: \<open>snd_cnt\<close> counts the messages that were sent, not the senders, and a receive takes nothing off
  it. After \<open>n\<close> messages have been sent and received the first \<open>n\<close> calls of the receiver's
  \<open>lwt_chan_deref\<close> release nothing, although no sender is left; the next one gives the slots, the
  ring buffer and the channel back to the pool.\<close>

theorem deref_after_messages_releases_nothing:
  assumes "chan_inv s A C" and "c \<in> C" and "c_rcv_thd (s_chan s c) = current_thread s"
    and "c_snd_cnt (s_chan s c) = 0" and "NULL \<notin> set ds" and "msgs s c = []"
    and "kfits (s_kheap s) SIZEOF_MSG"
    and "b = rb_buf (rbuf_of s c)" and "n = rbuf_bytes (rb_capacity (rbuf_of s c))"
    and "0 < b" and "0 < n" and "n \<le> PAGESIZE" and "0 < c" and "0 < c_rbuf (s_chan s c)"
    and "block b n \<inter> A = {}" and "block (c_rbuf (s_chan s c)) SIZEOF_RBUF \<inter> (A \<union> block b n) = {}"
    and "block c SIZEOF_CHANNEL \<inter> (A \<union> block b n \<union> block (c_rbuf (s_chan s c)) SIZEOF_RBUF) = {}"
  shows "\<exists>s1 s2 s3. exchange c ds s = Inr s1 \<and> kpool (s_kheap s1) A \<and>
    derefs (length ds) c s1 = Inr s2 \<and> s_kheap s2 = s_kheap s1 \<and>
    c_rcv_thd (s_chan s2 c) = current_thread s2 \<and> lwt_chan_deref c s2 = Inr s3 \<and>
    c_rcv_thd (s_chan s3 c) = NULL \<and>
    kpool (s_kheap s3) (A \<union> block b n \<union> block (c_rbuf (s_chan s c)) SIZEOF_RBUF \<union> block c SIZEOF_CHANNEL)"
proof -
  let ?r = "c_rbuf (s_chan s c)"
  have "spare s c A" using assms(1-3,6,7) by (auto simp: spare_def)
  from exchange_runs [OF this assms(5)] obtain s1 where
    x: "exchange c ds s = Inr s1" "spare s1 c A" "c_snd_cnt (s_chan s1 c) = int (length ds)"
      "c_rbuf (s_chan s1 c) = ?r" "rb_buf (rbuf_of s1 c) = b" "rbuf_bytes (rb_capacity (rbuf_of s1 c)) = n"
    using assms(4,8,9) by auto
  have k1: "kpool (s_kheap s1) A" "c_rcv_thd (s_chan s1 c) = current_thread s1"
    using x(2) by (auto simp: spare_def dest: chan_inv_okD(5))
  let ?s2 = "upd_chan c (\<lambda>ch. ch\<lparr>c_snd_cnt := 0\<rparr>) s1"
  have z: "0 < SIZEOF_RBUF" "SIZEOF_RBUF \<le> PAGESIZE" "0 < SIZEOF_CHANNEL" "SIZEOF_CHANNEL \<le> PAGESIZE"
    by (simp_all add: SIZEOF_CHANNEL_def SIZEOF_RBUF_def PAGESIZE_def)
  from kp.free_ok [OF k1(1) assms(10-12,15)] obtain h1 where
    h1: "kfree (s_kheap s1) b n = Inr h1" "kpool h1 (A \<union> block b n)" by blast
  from kp.free_ok [OF h1(2) assms(14) z(1,2) assms(16)] obtain h2 where
    h2: "kfree h1 ?r SIZEOF_RBUF = Inr h2" "kpool h2 (A \<union> block b n \<union> block ?r SIZEOF_RBUF)" by blast
  from kp.free_ok [OF h2(2) assms(13) z(3,4) assms(17)] obtain h3 where
    h3: "kfree h2 c SIZEOF_CHANNEL = Inr h3"
      "kpool h3 (A \<union> block b n \<union> block ?r SIZEOF_RBUF \<union> block c SIZEOF_CHANNEL)" by blast
  have c: "c \<noteq> NULL" using assms(13) by simp
  have "rbuf_free (s_kheap s1) ?r (rbuf_of s1 c) = Inr h2"
    using h1(1) h2(1) x(5,6) assms(14) by (simp add: rbuf_free_def)
  then have "\<exists>s3. lwt_chan_deref c ?s2 = Inr s3 \<and> c_rcv_thd (s_chan s3 c) = NULL \<and> s_kheap s3 = h3"
    using h3(1) k1(2) x(4) c by (simp add: lwt_chan_deref_def upd_chan_def Let_def)
  then obtain s3 where "lwt_chan_deref c ?s2 = Inr s3" "c_rcv_thd (s_chan s3 c) = NULL" "s_kheap s3 = h3"
    by blast
  then show ?thesis using x(1) k1 derefs_count [OF c x(3)] h3(2)
    by (intro exI [of _ s1] exI [of _ ?s2] exI [of _ s3]) (simp add: upd_chan_def)
qed

theorem deref_after_messages_releases_nothing_witness:
  "\<exists>s1 s2 s3. exchange 20000 [7, 8] chan_ex = Inr s1 \<and> derefs 2 20000 s1 = Inr s2 \<and>
    s_kheap s2 = s_kheap s1 \<and> lwt_chan_deref 20000 s2 = Inr s3 \<and> c_rcv_thd (s_chan s3 20000) = NULL"
proof -
  have d: "block 40000 12 \<inter> block 4096 8000 = {}" "block 30000 16 \<inter> (block 4096 8000 \<union> block 40000 12) = {}"
    "block 20000 36 \<inter> (block 4096 8000 \<union> block 40000 12 \<union> block 30000 16) = {}" by auto
  have "\<exists>s1 s2 s3. exchange 20000 [7, 8] chan_ex = Inr s1 \<and> kpool (s_kheap s1) (block 4096 8000) \<and>
    derefs (length [7 :: addr, 8]) 20000 s1 = Inr s2 \<and> s_kheap s2 = s_kheap s1 \<and>
    c_rcv_thd (s_chan s2 20000) = current_thread s2 \<and> lwt_chan_deref 20000 s2 = Inr s3 \<and>
    c_rcv_thd (s_chan s3 20000) = NULL \<and> kpool (s_kheap s3) (block 4096 8000 \<union> block 40000 12 \<union>
      block (c_rbuf (s_chan chan_ex 20000)) SIZEOF_RBUF \<union> block 20000 SIZEOF_CHANNEL)"
    by (rule deref_after_messages_releases_nothing [OF chan_ex_inv])
      (simp_all add: chan_ex_msgs chan_ex_fits [simplified] d rbuf_bytes_def SIZEOF_PTR_def SIZEOF_RBUF_def
        SIZEOF_CHANNEL_def PAGESIZE_def)
  then show ?thesis by (auto simp: numeral_2_eq_2)
qed

end
