(* ===== verification/KallocDev.thy ===== *)
theory KallocDev
  imports Kalloc
begin

text \<open>
  The memory pool of the kernel-thread port, \<open>scheddev/kalloc.c\<close>. Its loops are those of
  \<open>kalloc.c\<close>, word for word, so \<open>kfree_loop\<close> and \<open>kalloc_loop\<close> are shared; the limits, the
  initialisation and the behaviour on exhaustion are different. The page allocator of the kernel
  library (\<open>cos_page_bump_alloc\<close>) is a parameter: \<open>bump k\<close> is the address its \<open>k\<close>-th call
  returns.
\<close>

definition NPAGES :: nat where
  "NPAGES = 1024 div 4 * 16"

definition POOL_BYTES :: int where
  "POOL_BYTES = int NPAGES * 4096"

definition dev_kfree :: "kheap \<Rightarrow> addr \<Rightarrow> int \<Rightarrow> kheap result" where
  "dev_kfree h v len =
     rbind (assertion (len > 0 \<and> len \<le> POOL_BYTES))
       (\<lambda>_. terminating (kfree_loop h v len FreeHead))"

definition dev_kalloc :: "kheap \<Rightarrow> int \<Rightarrow> (addr \<times> kheap) result" where
  "dev_kalloc h n =
     rbind (assertion (n \<le> POOL_BYTES \<and> n > 0))
       (\<lambda>_. rbind (terminating (kalloc_loop h n FreeHead))
         (\<lambda>(q, h1). case q of Some p \<Rightarrow> Inr (p, h1) | None \<Rightarrow> Inr (NULL, h1)))"

text \<open>The loop over the pages: \<open>k\<close> counts the calls made so far, \<open>n\<close> the iterations left.\<close>

fun grab_pages :: "(nat \<Rightarrow> addr) \<Rightarrow> nat \<Rightarrow> nat \<Rightarrow> addr \<Rightarrow> addr result" where
  "grab_pages bump k 0 prev = Inr prev"
| "grab_pages bump k (Suc n) prev =
     (let t = bump k in
      rbind (assertion (t \<noteq> NULL \<and> t = prev + 4096)) (\<lambda>_. grab_pages bump (Suc k) n t))"

definition memset_zero :: "addr \<Rightarrow> int \<Rightarrow> kheap \<Rightarrow> kheap" where
  "memset_zero s n h = h\<lparr>run_next := (\<lambda>a. if s \<le> a \<and> a < s + n then 0 else run_next h a),
     run_len := (\<lambda>a. if s \<le> a \<and> a < s + n then 0 else run_len h a)\<rparr>"

definition dev_kinit :: "(nat \<Rightarrow> addr) \<Rightarrow> kheap \<Rightarrow> kheap result" where
  "dev_kinit bump h =
     (let s = bump 0 in
      rbind (assertion (s \<noteq> NULL)) (\<lambda>_.
      rbind (grab_pages bump 1 NPAGES s) (\<lambda>_.
        dev_kfree (memset_zero s POOL_BYTES h) s POOL_BYTES)))"

subsection \<open>The pool is an allocator\<close>

interpretation kd: allocator dev_kalloc dev_kfree kpool kfits POOL_BYTES
proof
  fix h A n
  assume "kpool h A" "0 < n" "n \<le> POOL_BYTES" "kfits h n"
  with kalloc_loop_pool [of h A n] show
    "\<exists>p h'. dev_kalloc h n = Inr (p, h') \<and> 0 < p \<and> block p n \<subseteq> A \<and> kpool h' (A - block p n)"
    by (auto simp: dev_kalloc_def)
next
  fix h A p n
  assume "kpool h A" "0 < p" "0 < n" "n \<le> POOL_BYTES" "block p n \<inter> A = {}"
  with kfree_loop_pool [of h A p n] show
    "\<exists>h'. dev_kfree h p n = Inr h' \<and> kpool h' (A \<union> block p n)"
    by (auto simp: dev_kfree_def)
qed

lemma grab_pages_contiguous:
  assumes "\<And>i. bump i = b + 4096 * int i" and "0 < b"
  shows "grab_pages bump (Suc k) n (bump k) = Inr (b + 4096 * int (k + n))"
proof (induction n arbitrary: k)
  case 0
  then show ?case using assms(1) by simp
next
  case (Suc n)
  have "0 < bump (Suc k)" "bump (Suc k) = bump k + 4096" using assms by simp_all
  with Suc.IH [of "Suc k"] show ?case by simp
qed

text \<open>A page allocator that does not hand out consecutive pages stops the initialisation.\<close>

lemma grab_pages_gap:
  "bump (Suc k) \<noteq> bump k + 4096 \<Longrightarrow> grab_pages bump (Suc k) (Suc n) (bump k) = Inl AssertFail"
  by (simp add: assertion_def)

lemma dev_kfree_first:
  assumes "freelist h = NULL" and "0 < b" and "0 < n" and "n \<le> POOL_BYTES"
  shows "\<exists>h'. dev_kfree h b n = Inr h' \<and> free_list h' [(b, n)]"
proof -
  have "free_list h []" using assms(1) by (simp add: free_list_def)
  moreover have "b \<noteq> NULL" using assms(2) by simp
  ultimately obtain h' where "kfree_loop h b n FreeHead = Some h'" "free_list h' (a_free [] b n)"
    using kfree_loop_refines [of h "[]" "[]" b n] by auto
  with assms(3,4) show ?thesis by (simp add: dev_kfree_def)
qed

subsection \<open>Properties\<close>

text \<open>The port's pool keeps the contract of the original: from the state after initialisation
  (the page allocator handing out consecutive pages, as the kernel library documents), whatever
  a client allocates and frees, its blocks lie apart inside the 16 MB segment, the free bytes are
  exactly the rest of it, and every block it holds can be freed.\<close>

theorem dev_pool_safe:
  assumes "\<And>i. bump i = b + 4096 * int i" and "0 < b" and "freelist h = NULL"
  shows "\<exists>h0. dev_kinit bump h = Inr h0 \<and> free_list h0 [(b, 16 * 1024 * 1024)] \<and>
    (\<forall>h1 bs. ledger dev_kalloc dev_kfree kfits POOL_BYTES h0 h1 bs \<longrightarrow>
       apart POOL_BYTES bs \<and> span bs \<subseteq> block b (16 * 1024 * 1024) \<and>
       kpool h1 (block b (16 * 1024 * 1024) - span bs) \<and>
       (\<forall>us p n vs. bs = us @ (p, n) # vs \<longrightarrow> (\<exists>h2. dev_kfree h1 p n = Inr h2)))"
proof -
  have pb: "POOL_BYTES = 16 * 1024 * 1024" by (simp add: POOL_BYTES_def NPAGES_def)
  have "grab_pages bump 1 NPAGES (bump 0) = Inr (b + 4096 * int NPAGES)"
    using grab_pages_contiguous [OF assms(1,2), of 0 NPAGES] by simp
  moreover have "bump 0 = b" using assms(1) by simp
  moreover obtain h0 where h0: "dev_kfree (memset_zero b POOL_BYTES h) b POOL_BYTES = Inr h0"
    "free_list h0 [(b, POOL_BYTES)]"
    using dev_kfree_first [of "memset_zero b POOL_BYTES h" b POOL_BYTES] assms(2,3) pb
    by (auto simp: memset_zero_def)
  ultimately have init: "dev_kinit bump h = Inr h0" using assms(2) by (simp add: dev_kinit_def)
  have "wf_runs [(b, POOL_BYTES)]" using assms(2) pb by simp
  then have pool: "kpool h0 (block b POOL_BYTES)" using kpool_list [OF h0(2)] by simp
  have "apart POOL_BYTES bs \<and> span bs \<subseteq> block b POOL_BYTES \<and> kpool h1 (block b POOL_BYTES - span bs) \<and>
      (\<forall>us p n vs. bs = us @ (p, n) # vs \<longrightarrow> (\<exists>h2. dev_kfree h1 p n = Inr h2))"
    if l: "ledger dev_kalloc dev_kfree kfits POOL_BYTES h0 h1 bs" for h1 bs
    using kd.ledger_inv [OF l pool] kd.ledger_can_free [OF _ pool] l by blast
  with init h0(2) show ?thesis unfolding pb by blast
qed

theorem dev_pool_safe_witness:
  "\<exists>h0. dev_kinit (\<lambda>i. 65536 + 4096 * int i) (boot_ex\<lparr>freelist := 0\<rparr>) = Inr h0 \<and>
     free_list h0 [(65536, 16 * 1024 * 1024)]"
  using dev_pool_safe [of "\<lambda>i. 65536 + 4096 * int i" 65536 "boot_ex\<lparr>freelist := 0\<rparr>"] by auto

end
