(* ===== verification/SlTimer.thy ===== *)
theory SlTimer
  imports Prelude
begin

text \<open>
  The timeout arithmetic of the kernel-thread scheduler: the time functions of \<open>sl.h\<close> and the
  periodic timer policy \<open>sl_timer_mod_periodic.c\<close>, on 64-bit cycle counts. What the kernel
  library provides is the record \<open>cos_env\<close>, the kernel as a call sees it: the identifier of the
  running thread, the time stamp counter, the conversion \<open>tcap_cyc2time\<close> and the size of the
  thread table.
\<close>

record cos_env =
  cos_thdid :: nat
  ps_tsc :: u64
  tcap_cyc2time :: "u64 \<Rightarrow> u32"
  max_num_threads :: nat

record sl_timer =
  cyc_per_usec :: u64
  period :: u64
  timer_next :: u64
  timeout_next :: u32

definition SL_PERIOD_US :: u64 where
  "SL_PERIOD_US = 100"

definition sl_now :: "cos_env \<Rightarrow> u64" where
  "sl_now k = ps_tsc k"

definition sl_timeout_period_get :: "'z sl_timer_scheme \<Rightarrow> u64" where
  "sl_timeout_period_get g = period g"

definition sl_timeout_oneshot :: "cos_env \<Rightarrow> u64 \<Rightarrow> 'z sl_timer_scheme \<Rightarrow> 'z sl_timer_scheme" where
  "sl_timeout_oneshot k absolute_us g =
     g\<lparr>timer_next := absolute_us, timeout_next := tcap_cyc2time k absolute_us\<rparr>"

definition sl_timeout_relative :: "cos_env \<Rightarrow> u64 \<Rightarrow> 'z sl_timer_scheme \<Rightarrow> 'z sl_timer_scheme" where
  "sl_timeout_relative k offset g = sl_timeout_oneshot k (sl_now k + offset) g"

definition sl_cyc2usec :: "u64 \<Rightarrow> 'z sl_timer_scheme \<Rightarrow> u64 result" where
  "sl_cyc2usec cyc g = (if cyc_per_usec g = 0 then Inl DivByZero else Inr (cyc div cyc_per_usec g))"

definition sl_usec2cyc :: "u64 \<Rightarrow> 'z sl_timer_scheme \<Rightarrow> u64" where
  "sl_usec2cyc usec g = usec * cyc_per_usec g"

definition sl_timeout_period :: "cos_env \<Rightarrow> u64 \<Rightarrow> 'z sl_timer_scheme \<Rightarrow> 'z sl_timer_scheme" where
  "sl_timeout_period k usec g =
     (let p = sl_usec2cyc usec g in sl_timeout_relative k p (g\<lparr>period := p\<rparr>))"

definition sl_timeout_mod_expended :: "cos_env \<Rightarrow> u64 \<Rightarrow> u64 \<Rightarrow> 'z sl_timer_scheme \<Rightarrow>
    'z sl_timer_scheme result" where
  "sl_timeout_mod_expended k now oldtimeout g =
     rbind (assertion (oldtimeout \<le> now)) (\<lambda>_.
     if sl_timeout_period_get g = 0 then Inl DivByZero
     else
       let offset = (now - oldtimeout) mod sl_timeout_period_get g
       in Inr (sl_timeout_oneshot k (now + sl_timeout_period_get g - offset) g))"

definition sl_timeout_mod_init :: "cos_env \<Rightarrow> 'z sl_timer_scheme \<Rightarrow> 'z sl_timer_scheme" where
  "sl_timeout_mod_init k g = sl_timeout_period k SL_PERIOD_US g"

text \<open>The test of \<open>sl_cs_exit_schedule_nospin_arg\<close>, and the timer it leaves.\<close>

definition timer_expired :: "u64 \<Rightarrow> 'z sl_timer_scheme \<Rightarrow> bool" where
  "timer_expired now g \<longleftrightarrow> timer_next g \<noteq> 0 \<and> sint (timer_next g - now) \<le> 0"

lemma timer_fields [simp]:
  "timer_next (sl_timeout_oneshot k a g) = a" "period (sl_timeout_oneshot k a g) = period g"
  "timeout_next (sl_timeout_oneshot k a g) = tcap_cyc2time k a"
  "cyc_per_usec (sl_timeout_oneshot k a g) = cyc_per_usec g"
  "sl_timer.more (sl_timeout_oneshot k a g) = sl_timer.more g"
  by (simp_all add: sl_timeout_oneshot_def)

lemma next_period:
  assumes "old \<le> now" and "0 < (p :: nat)"
  shows "let nx = now + p - (now - old) mod p in now < nx \<and> nx \<le> now + p \<and>
    (\<exists>j. nx = old + j * p \<and> 0 < j)"
proof -
  have r: "(now - old) mod p < p" using assms(2) by simp
  have "(now - old) div p * p + (now - old) mod p = now - old" by (rule div_mult_mod_eq)
  then have "now + p - (now - old) mod p = old + ((now - old) div p + 1) * p"
    using assms(1) by (simp only: distrib_right)
  moreover have "0 < (now - old) div p + 1" by simp
  ultimately show ?thesis using r unfolding Let_def
    by (intro conjI exI [of _ "(now - old) div p + 1"]) auto
qed

text \<open>The 64-bit computation is the mathematical one when \<open>now + period\<close> does not wrap.\<close>

lemma expended_timer:
  assumes "old \<le> now" and "period g \<noteq> 0" and "unat now + unat (period g) < 2 ^ 64"
  shows "\<exists>g'. sl_timeout_mod_expended k now old g = Inr g' \<and>
    unat (timer_next g') = unat now + unat (period g) - (unat now - unat old) mod unat (period g) \<and>
    timeout_next g' = tcap_cyc2time k (timer_next g') \<and> period g' = period g"
proof -
  let ?o = "(now - old) mod period g"
  have s: "unat (now + period g) = unat now + unat (period g)"
    using assms(3) by (subst unat_add_lem [THEN iffD1]) simp_all
  have o: "unat ?o = (unat now - unat old) mod unat (period g)"
    using assms(1) by (simp add: unat_mod unat_sub)
  have "unat (period g) \<noteq> 0" using assms(2) by (simp add: unat_eq_zero)
  then have "unat ?o < unat (period g)" unfolding o by simp
  then have "?o \<le> now + period g" unfolding word_le_nat_alt s by simp
  then have "unat (now + period g - ?o) = unat now + unat (period g) - unat ?o"
    using s by (simp add: unat_sub)
  then show ?thesis
    using assms(1,2) o by (simp add: sl_timeout_mod_expended_def sl_timeout_period_get_def Let_def)
qed

subsection \<open>Properties\<close>

text \<open>C33: after a timeout, however late it is noticed, the next one is the first point of the original
  grid of periods that lies in the future: no period is counted twice, missed ones are skipped,
  and the timer never drifts.\<close>

theorem periodic_timeout_stays_on_grid:
  assumes "old \<le> now" and "period g \<noteq> 0" and "unat now + unat (period g) < 2 ^ 64"
  shows "\<exists>g' j. sl_timeout_mod_expended k now old g = Inr g' \<and>
    unat (timer_next g') = unat old + j * unat (period g) \<and> 0 < j \<and>
    now < timer_next g' \<and> unat (timer_next g') \<le> unat now + unat (period g) \<and>
    timeout_next g' = tcap_cyc2time k (timer_next g') \<and> period g' = period g"
proof -
  from expended_timer [OF assms, of k] obtain g' where
    g: "sl_timeout_mod_expended k now old g = Inr g'"
      "unat (timer_next g') = unat now + unat (period g) - (unat now - unat old) mod unat (period g)"
      "timeout_next g' = tcap_cyc2time k (timer_next g')" "period g' = period g" by blast
  have "unat old \<le> unat now" "0 < unat (period g)"
    using assms(1,2) by (simp_all add: word_le_nat_alt unat_gt_0)
  from next_period [OF this] g show ?thesis by (auto simp: Let_def word_less_nat_alt)
qed

definition timer_ex :: sl_timer where
  "timer_ex = \<lparr>cyc_per_usec = 2, period = 200, timer_next = 1000, timeout_next = 0\<rparr>"

definition env_ex :: cos_env where
  "env_ex = \<lparr>cos_thdid = 1, ps_tsc = 0, tcap_cyc2time = ucast, max_num_threads = 8\<rparr>"

theorem periodic_timeout_stays_on_grid_witness:
  "\<exists>g' j. sl_timeout_mod_expended env_ex 1450 1000 timer_ex = Inr g' \<and>
    unat (timer_next g') = 1000 + j * 200 \<and> 0 < j \<and> 1450 < timer_next g'"
  using periodic_timeout_stays_on_grid [of 1000 1450 timer_ex env_ex] by (auto simp: timer_ex_def)

end
