(* ===== verification/LwtDev.thy ===== *)
theory LwtDev
  imports Channel KallocDev SlTimer
begin

text \<open>
  The thread library of the kernel-thread port, \<open>scheddev/lwt.c\<close>. What it does to the run queue
  is what \<open>lwt.c\<close> does, and the agreement is proved here; the differences are
  \<^item> the structure is larger (the 128 bytes of \<open>fix\<close>, the kernel thread \<open>kid\<close>) and is allocated
    with 100 bytes more than it is freed with;
  \<^item> a LWT_NOJOIN thread frees its own structure when it dies, before it switches away;
  \<^item> identifiers start at 1 and count up by one; the counters are updated with \<open>PS_CAS\<close>, one
    addition at a time (\<open>Atomic\<close>), which a thread that is not preempted sees as an addition.

  \<open>kid\<close> is kept in \<open>s_kid\<close>, the other fields of the structure in \<open>s_lwt\<close>, by the base address of the
  structure. Because of the 100 bytes the structures of later threads start at bases of their own,
  over what earlier ones left; what depends on such a word, the field \<open>joinedfrom\<close> of a thread that dies
  before it is joined, is assumed or quantified where it matters (\<open>TestThreadsDev\<close>, \<open>TestKthdLwt\<close>).
\<close>

record dev_sys = chan_sys +
  s_kid :: "addr \<Rightarrow> nat"

definition DEV_SIZEOF_LWT :: int where
  "DEV_SIZEOF_LWT = 692"

definition DEV_LWT_EXTRA :: int where
  "DEV_LWT_EXTRA = 100"

definition DEV_OFFSET_STACK :: int where
  "DEV_OFFSET_STACK = 128"

definition DEV_STACK_SIZE :: int where
  "DEV_STACK_SIZE = 512"

definition DEV_OFFSET_CT :: int where
  "DEV_OFFSET_CT = 640"

definition SIZEOF_CT :: int where
  "SIZEOF_CT = 8"

definition set_kid :: "addr \<Rightarrow> nat \<Rightarrow> 'z dev_sys_scheme \<Rightarrow> 'z dev_sys_scheme" where
  "set_kid t k s = s\<lparr>s_kid := (s_kid s)(t := k)\<rparr>"

subsection \<open>The code\<close>

definition dev_lwt_init :: "cos_env \<Rightarrow> 'z dev_sys_scheme \<Rightarrow> 'z dev_sys_scheme result" where
  "dev_lwt_init k s =
     rbind (dev_kalloc (s_kheap s) (DEV_SIZEOF_LWT + DEV_LWT_EXTRA)) (\<lambda>(t, h).
     if t = NULL then Inl NullDeref
     else
       let s1 = s\<lparr>s_kheap := h, current_thread := t, s_links := ps_list_ll_init t (s_links s)\<rparr>;
           s2 = upd_lwt t (\<lambda>l. l\<lparr>l_state := RUNNABLE, l_ip := IpNull, l_sp := NULL\<rparr>) s1;
           s3 = set_kid t (cos_thdid k) s2;
           s4 = upd_lwt t (\<lambda>l. l\<lparr>l_tid := lwt_tid_counter s3\<rparr>) s3
       in Inr (s4\<lparr>lwt_tid_counter := lwt_tid_counter s4 + 1, n_runnable := n_runnable s4 + 1\<rparr>))"

definition dev_lwt_create :: "addr \<Rightarrow> addr \<Rightarrow> lwt_flags \<Rightarrow> 'z dev_sys_scheme \<Rightarrow>
    (addr \<times> 'z dev_sys_scheme) result" where
  "dev_lwt_create fn data flags s =
     rbind (dev_kalloc (s_kheap s) (DEV_SIZEOF_LWT + DEV_LWT_EXTRA)) (\<lambda>(t, h).
     rbind (assertion (t \<noteq> NULL)) (\<lambda>_.
     let s1 = upd_lwt t (\<lambda>l. l\<lparr>l_tid := lwt_tid_counter s, l_ip := Trampoline,
                l_sp := t + DEV_OFFSET_STACK + DEV_STACK_SIZE, l_state := RUNNABLE,
                l_fn := fn, l_data := data, l_flag := flags\<rparr>) (s\<lparr>s_kheap := h\<rparr>);
         s2 = set_kid t (s_kid s1 (current_thread s1)) s1
     in Inr (t, s2\<lparr>lwt_tid_counter := lwt_tid_counter s2 + 1,
          n_runnable := n_runnable s2 + 1, n_zombies := n_zombies s2 + 1,
          s_links := ps_list_ll_add (ps_list_prev (current_thread s2) (s_links s2)) t (s_links s2)\<rparr>)))"

definition dev_lwt_dispatch :: "addr \<Rightarrow> addr \<Rightarrow> 'z lwt_sys_scheme \<Rightarrow> 'z lwt_sys_scheme" where
  "dev_lwt_dispatch next prv s =
     (let s1 = upd_lwt prv (\<lambda>t. t\<lparr>l_ip := AfterSwitch, l_sp := esp s - PUSHAL_BYTES\<rparr>) s;
          ip = l_ip (s_lwt s1 next);
          sp = l_sp (s_lwt s1 next)
      in s1\<lparr>eip := ip, esp := (if ip = AfterSwitch then sp + PUSHAL_BYTES else sp)\<rparr>)"

definition dev_lwt_info :: "int \<Rightarrow> int" where
  "dev_lwt_info t = t"

text \<open>The do-while loop over the ring is the one of \<open>lwt.c\<close>, \<open>next_runnable\<close>.\<close>

definition dev_schedule :: "'z lwt_sys_scheme \<Rightarrow> (unit outcome \<times> 'z lwt_sys_scheme) result" where
  "dev_schedule s =
     (if dev_lwt_info (n_runnable s) = 0 then Inr (Returned (), s)
      else rbind (terminating (next_runnable s)) (\<lambda>nx.
        let temp = current_thread s; s1 = s\<lparr>current_thread := nx\<rparr> in
        if temp \<noteq> nx then Inr (Switched, dev_lwt_dispatch nx temp s1)
        else Inr (Returned (), s1)))"

definition dev_lwt_schedule :: "'z lwt_sys_scheme \<Rightarrow> (unit outcome \<times> 'z lwt_sys_scheme) result" where
  "dev_lwt_schedule s = dev_schedule s"

definition dev_lwt_yield :: "addr \<Rightarrow> 'z lwt_sys_scheme \<Rightarrow> (unit outcome \<times> 'z lwt_sys_scheme) result" where
  "dev_lwt_yield t s =
     (if t = NULL then dev_schedule s
      else if l_state (s_lwt s t) = RUNNABLE then
        let tmp = current_thread s; s1 = s\<lparr>current_thread := t\<rparr>
        in Inr (if t = tmp then Returned () else Switched, dev_lwt_dispatch t tmp s1)
      else Inr (Returned (), s))"

definition dev_lwt_current :: "'z lwt_sys_scheme \<Rightarrow> addr" where
  "dev_lwt_current s = current_thread s"

definition dev_lwt_id :: "addr \<Rightarrow> 'z lwt_sys_scheme \<Rightarrow> u32 result" where
  "dev_lwt_id t s = rbind (assertion (t \<noteq> NULL)) (\<lambda>_. Inr (l_tid (s_lwt s t)))"

definition dev_lwt_reap :: "addr \<Rightarrow> 'z lwt_sys_scheme \<Rightarrow> (addr outcome \<times> 'z lwt_sys_scheme) result" where
  "dev_lwt_reap t s =
     (let tmp = l_ret (s_lwt s t);
          s1 = s\<lparr>s_links := ps_list_ll_rem t (s_links s)\<rparr>
      in rbind (dev_kfree (s_kheap s1) t DEV_SIZEOF_LWT) (\<lambda>h. Inr (Returned tmp, s1\<lparr>s_kheap := h\<rparr>)))"

partial_function (option) dev_lwt_join_loop ::
    "addr \<Rightarrow> 'z lwt_sys_scheme \<Rightarrow> (unit outcome \<times> 'z lwt_sys_scheme) result option" where
  "dev_lwt_join_loop t s =
     (if cur_state s = BLOCKED then
        let s1 = s\<lparr>n_runnable := n_runnable s - 1\<rparr>; s2 = s1\<lparr>n_blocked := n_blocked s1 + 1\<rparr> in
        (case dev_lwt_yield t s2 of
           Inl e \<Rightarrow> Some (Inl e)
         | Inr (r, s3) \<Rightarrow> (case r of
             Switched \<Rightarrow> Some (Inr (Switched, s3))
           | Returned _ \<Rightarrow> dev_lwt_join_loop t s3))
      else Some (Inr (Returned (), s)))"

definition dev_lwt_join_resume :: "addr \<Rightarrow> 'z lwt_sys_scheme \<Rightarrow> (addr outcome \<times> 'z lwt_sys_scheme) result" where
  "dev_lwt_join_resume t s =
     rbind (rbind (terminating (dev_lwt_join_loop t s)) id) (\<lambda>(r, s1). case r of
        Switched \<Rightarrow> Inr (Switched, s1)
      | Returned _ \<Rightarrow>
          let s2 = s1\<lparr>n_runnable := n_runnable s1 + 1, n_blocked := n_blocked s1 - 1\<rparr>;
              s3 = s2\<lparr>n_runnable := n_runnable s2 - 1, n_zombies := n_zombies s2 - 1\<rparr>
          in dev_lwt_reap t s3)"

definition dev_lwt_join :: "addr \<Rightarrow> 'z lwt_sys_scheme \<Rightarrow> (addr outcome \<times> 'z lwt_sys_scheme) result" where
  "dev_lwt_join t s =
     rbind (assertion (t \<noteq> NULL)) (\<lambda>_.
     if l_flag (s_lwt s t) = LWT_NOJOIN then Inr (Returned NULL, s)
     else
       let me = current_thread s;
           s1 = upd_lwt me (\<lambda>l. l\<lparr>l_joiningto := t\<rparr>) s;
           s2 = upd_lwt (l_joiningto (s_lwt s1 me)) (\<lambda>l. l\<lparr>l_joinedfrom := me\<rparr>) s1
       in if l_state (s_lwt s2 t) = DEAD then
            dev_lwt_reap t (s2\<lparr>n_zombies := n_zombies s2 - 1, n_runnable := n_runnable s2 - 1\<rparr>)
          else dev_lwt_join_resume t (upd_lwt me (\<lambda>l. l\<lparr>l_state := BLOCKED\<rparr>) s2))"

definition dev_lwt_die :: "addr \<Rightarrow> 'z lwt_sys_scheme \<Rightarrow> (unit outcome \<times> 'z lwt_sys_scheme) result" where
  "dev_lwt_die data s =
     (let me = current_thread s in
      if l_flag (s_lwt s me) = LWT_NOJOIN then
        rbind (terminating (next_runnable s)) (\<lambda>nx.
          let s1 = s\<lparr>current_thread := nx, s_links := ps_list_ll_rem me (s_links s)\<rparr> in
          rbind (dev_kfree (s_kheap s1) me DEV_SIZEOF_LWT) (\<lambda>h.
            Inr (if nx = me then Returned () else Switched, dev_lwt_dispatch nx me (s1\<lparr>s_kheap := h\<rparr>))))
      else
        let s1 = upd_lwt me (\<lambda>l. l\<lparr>l_state := DEAD\<rparr>) s;
            jf = l_joinedfrom (s_lwt s1 me);
            s2 = (if jf \<noteq> NULL then upd_lwt jf (\<lambda>l. l\<lparr>l_state := RUNNABLE\<rparr>) s1 else s1);
            s3 = upd_lwt me (\<lambda>l. l\<lparr>l_ret := data\<rparr>) s2
        in dev_lwt_yield NULL s3)"

subsection \<open>Agreement with \<open>lwt.c\<close>\<close>

lemma dev_lwt_dispatch_eq: "dev_lwt_dispatch = lwt_dispatch"
  by (intro ext) (simp add: dev_lwt_dispatch_def lwt_dispatch_def)

lemma dev_schedule_eq: "dev_schedule = lwt_schedule"
  by (intro ext) (simp only: dev_schedule_def lwt_schedule_def dev_lwt_info_def dev_lwt_dispatch_eq cong: if_cong)

lemma dev_lwt_yield_eq: "dev_lwt_yield = lwt_yield"
  by (intro ext) (simp only: dev_lwt_yield_def lwt_yield_def dev_schedule_eq dev_lwt_dispatch_eq cong: if_cong)

lemma two_counters: "s\<lparr>n_runnable := a\<rparr>\<lparr>n_blocked := b\<rparr> = s\<lparr>n_runnable := a, n_blocked := b\<rparr>"
  by simp

lemma dev_lwt_join_loop_le:
  assumes "lwt_join_loop t s = Some r"
  shows "dev_lwt_join_loop t s = Some r"
proof (rule lwt_join_loop.raw_induct [where P = "\<lambda>t s r. dev_lwt_join_loop t s = Some r", OF _ assms])
  fix f t and s :: "'a lwt_sys_scheme" and r
  assume IH: "\<And>t s r. f t s = Some r \<Longrightarrow> dev_lwt_join_loop t s = Some r"
    and eq: "(if cur_state s = BLOCKED then
        let s1 = s\<lparr>n_runnable := n_runnable s - 1, n_blocked := n_blocked s + 1\<rparr> in
        (case lwt_yield t s1 of
           Inl e \<Rightarrow> Some (Inl e)
         | Inr (r, s2) \<Rightarrow> (case r of
             Switched \<Rightarrow> Some (Inr (Switched, s2))
           | Returned _ \<Rightarrow> f t s2))
      else Some (Inr (Returned (), s))) = Some r"
  show "dev_lwt_join_loop t s = Some r"
    by (subst dev_lwt_join_loop.simps)
      (use eq IH in \<open>auto simp: Let_def dev_lwt_yield_eq split: if_splits sum.splits outcome.splits\<close>)
qed

lemma dev_lwt_join_loop_ge:
  assumes "dev_lwt_join_loop t s = Some r"
  shows "lwt_join_loop t s = Some r"
proof (rule dev_lwt_join_loop.raw_induct [where P = "\<lambda>t s r. lwt_join_loop t s = Some r", OF _ assms])
  fix f t and s :: "'a lwt_sys_scheme" and r
  assume IH: "\<And>t s r. f t s = Some r \<Longrightarrow> lwt_join_loop t s = Some r"
    and eq: "(if cur_state s = BLOCKED then
        let s1 = s\<lparr>n_runnable := n_runnable s - 1\<rparr>; s2 = s1\<lparr>n_blocked := n_blocked s1 + 1\<rparr> in
        (case dev_lwt_yield t s2 of
           Inl e \<Rightarrow> Some (Inl e)
         | Inr (r, s3) \<Rightarrow> (case r of
             Switched \<Rightarrow> Some (Inr (Switched, s3))
           | Returned _ \<Rightarrow> f t s3))
      else Some (Inr (Returned (), s))) = Some r"
  show "lwt_join_loop t s = Some r"
    by (subst lwt_join_loop.simps)
      (use eq IH in \<open>auto simp: Let_def dev_lwt_yield_eq split: if_splits sum.splits outcome.splits\<close>)
qed

lemma dev_lwt_join_loop_eq: "dev_lwt_join_loop = lwt_join_loop"
proof (intro ext)
  fix t and s :: "'z lwt_sys_scheme"
  show "dev_lwt_join_loop t s = lwt_join_loop t s"
    using dev_lwt_join_loop_le [of t s] dev_lwt_join_loop_ge [of t s]
    by (cases "lwt_join_loop t s"; cases "dev_lwt_join_loop t s") auto
qed

lemmas dev_eqs = dev_lwt_dispatch_eq dev_schedule_eq dev_lwt_yield_eq dev_lwt_join_loop_eq

text \<open>A join that switches away, and a death of a joinable thread, do in the port what they do in
  \<open>lwt.c\<close>; only what reaps the structure differs.\<close>

lemma lwt_reap_returns: "lwt_reap t s \<noteq> Inr (Switched, s')"
  by (cases "kfree (s_kheap s) t SIZEOF_LWT") (simp_all add: lwt_reap_def Let_def)

lemma dev_lwt_reap_returns: "dev_lwt_reap t s \<noteq> Inr (Switched, s')"
  by (cases "dev_kfree (s_kheap s) t DEV_SIZEOF_LWT") (simp_all add: dev_lwt_reap_def Let_def)

lemma join_switch_iff:
  "dev_lwt_join t s = Inr (Switched, s') \<longleftrightarrow> lwt_join t s = Inr (Switched, s')"
  by (auto simp: dev_lwt_join_def lwt_join_def rbind_assertion Let_def lwt_join_resume_def
      dev_lwt_join_resume_def rbind_eq_Inr dev_eqs lwt_reap_returns dev_lwt_reap_returns
      split: if_splits outcome.splits)

lemma dev_lwt_die_default: "l_flag (s_lwt s (current_thread s)) = LWT_DEFAULT \<Longrightarrow> dev_lwt_die v s = lwt_die v s"
  by (simp add: dev_lwt_die_def lwt_die_def Let_def dev_eqs)

subsection \<open>Creation and reaping\<close>

definition dev_fresh_lwt :: "addr \<Rightarrow> addr \<Rightarrow> addr \<Rightarrow> lwt_flags \<Rightarrow> 'z lwt_sys_scheme \<Rightarrow> lwt" where
  "dev_fresh_lwt t fn data fl s = (s_lwt s t)\<lparr>l_tid := lwt_tid_counter s, l_ip := Trampoline,
     l_sp := t + DEV_OFFSET_STACK + DEV_STACK_SIZE, l_state := RUNNABLE,
     l_fn := fn, l_data := data, l_flag := fl\<rparr>"

lemmas dev_sizes = DEV_SIZEOF_LWT_def DEV_LWT_EXTRA_def DEV_OFFSET_STACK_def DEV_STACK_SIZE_def
  DEV_OFFSET_CT_def SIZEOF_CT_def

lemma dev_pool_sizes: "0 < DEV_SIZEOF_LWT + DEV_LWT_EXTRA" "DEV_SIZEOF_LWT + DEV_LWT_EXTRA \<le> POOL_BYTES"
  "0 < DEV_SIZEOF_LWT" "DEV_SIZEOF_LWT \<le> POOL_BYTES"
  by (simp_all add: dev_sizes POOL_BYTES_def NPAGES_def)

lemma dev_create_pool:
  assumes "kpool (s_kheap s) A" and "kfits (s_kheap s) (DEV_SIZEOF_LWT + DEV_LWT_EXTRA)"
    and "set xs \<inter> A = {}"
  obtains t k where "dev_kalloc (s_kheap s) (DEV_SIZEOF_LWT + DEV_LWT_EXTRA) = Inr (t, k)" and "0 < t"
    and "block t (DEV_SIZEOF_LWT + DEV_LWT_EXTRA) \<subseteq> A"
    and "kpool k (A - block t (DEV_SIZEOF_LWT + DEV_LWT_EXTRA))" and "t \<notin> set xs"
proof -
  from kd.alloc_fits [OF assms(1) dev_pool_sizes(1,2) assms(2)] obtain t k where
    t: "dev_kalloc (s_kheap s) (DEV_SIZEOF_LWT + DEV_LWT_EXTRA) = Inr (t, k)" "0 < t"
      "block t (DEV_SIZEOF_LWT + DEV_LWT_EXTRA) \<subseteq> A"
      "kpool k (A - block t (DEV_SIZEOF_LWT + DEV_LWT_EXTRA))" by blast
  moreover have "t \<in> block t (DEV_SIZEOF_LWT + DEV_LWT_EXTRA)" using dev_pool_sizes(1) by simp
  ultimately show thesis using that assms(3) by blast
qed

lemma dev_create_runs:
  assumes "runq s (p # xs)"
    and "dev_kalloc (s_kheap s) (DEV_SIZEOF_LWT + DEV_LWT_EXTRA) = Inr (t, k)" and "0 < t"
    and "t \<notin> set (p # xs)"
  obtains s' where "dev_lwt_create fn data fl s = Inr (t, s')"
    and "runq s' (p # xs @ [t])" and "s_lwt s' = (s_lwt s)(t := dev_fresh_lwt t fn data fl s)"
    and "s_kid s' = (s_kid s)(t := s_kid s p)"
    and "s_kheap s' = k" and "n_runnable s' = n_runnable s + 1" and "n_zombies s' = n_zombies s + 1"
    and "n_blocked s' = n_blocked s" and "lwt_tid_counter s' = lwt_tid_counter s + 1"
    and "esp s' = esp s"
    and "s_links s' = ps_list_ll_add (ps_list_prev p (s_links s)) t (s_links s)"
    and "dev_sys.more s' = dev_sys.more s"
proof -
  from assms(1) have r: "ring (s_links s) (p # xs)" "current_thread s = p" by (simp_all add: runq_def)
  let ?s1 = "set_kid t (s_kid s p) (s\<lparr>s_kheap := k, s_lwt := (s_lwt s)(t := dev_fresh_lwt t fn data fl s)\<rparr>)"
  let ?s = "?s1\<lparr>lwt_tid_counter := lwt_tid_counter s + 1, n_runnable := n_runnable s + 1,
      n_zombies := n_zombies s + 1,
      s_links := ps_list_ll_add (ps_list_prev p (s_links s)) t (s_links s)\<rparr>"
  have "dev_lwt_create fn data fl s = Inr (t, ?s)"
    using assms(2,3) r(2) by (simp add: dev_lwt_create_def Let_def upd_lwt_def dev_fresh_lwt_def set_kid_def)
  then show thesis
    by (rule that) (use ring_append [OF r(1) assms(4)] r in
      \<open>simp_all add: runq_def ps_list_prev_def set_kid_def del: ring.simps\<close>)
qed

lemma dev_join_resume_dead:
  assumes "runq s (p # xs @ t # ys)" and "ready s p" and "kpool (s_kheap s) A" and "0 < t"
    and "block t DEV_SIZEOF_LWT \<inter> A = {}"
  obtains s' where "dev_lwt_join_resume t s = Inr (Returned (l_ret (s_lwt s t)), s')"
    and "runq s' (p # xs @ ys)" and "kpool (s_kheap s') (A \<union> block t DEV_SIZEOF_LWT)"
    and "s_lwt s' = s_lwt s" and "n_runnable s' = n_runnable s"
    and "n_blocked s' = n_blocked s - 1" and "n_zombies s' = n_zombies s - 1"
proof -
  from kd.free_ok [OF assms(3,4) dev_pool_sizes(3,4) assms(5)] obtain k where
    k: "dev_kfree (s_kheap s) t DEV_SIZEOF_LWT = Inr k" "kpool k (A \<union> block t DEV_SIZEOF_LWT)" by blast
  have c: "current_thread s = p" using assms(1) by (simp add: runq_def)
  have "ring (ps_list_ll_rem t (s_links s)) ((p # xs) @ ys)"
    using ring_rem [of "s_links s" "p # xs" t ys] assms(1) by (simp add: runq_def del: ring.simps)
  with k c assms(2) show thesis
    by (intro that [of "s\<lparr>s_links := ps_list_ll_rem t (s_links s), s_kheap := k,
        n_blocked := n_blocked s - 1, n_zombies := n_zombies s - 1\<rparr>"])
      (simp_all add: dev_lwt_join_resume_def dev_lwt_reap_def dev_eqs Let_def runq_def del: ring.simps)
qed

subsection \<open>Properties\<close>

text \<open>The scheduling of the port is that of \<open>lwt.c\<close>: a yield (directed or not) does the same to
  every state, and a join switches away in exactly the same cases and to the same state.\<close>

theorem port_schedules_alike:
  "dev_lwt_schedule s = lwt_schedule s \<and> dev_lwt_yield t s = lwt_yield t s \<and>
   (dev_lwt_join t s = Inr (Switched, s') \<longleftrightarrow> lwt_join t s = Inr (Switched, s'))"
  by (simp add: dev_lwt_schedule_def dev_eqs join_switch_iff)

text \<open>Fork and join in the port: the joiner gets the value the thread returned, and the run
  queue and the counters are restored as in \<open>lwt.c\<close>, but the pool is not: the 100 bytes after the
  structure are allocated by \<open>lwt_create\<close> and never freed, so each thread costs 100 bytes.\<close>

theorem dev_fork_join_leaks:
  assumes "runq s (p # xs)" and "kpool (s_kheap s) A"
    and "kfits (s_kheap s) (DEV_SIZEOF_LWT + DEV_LWT_EXTRA)"
    and "set (p # xs) \<inter> A = {}" and "p \<noteq> NULL" and "n_runnable s \<noteq> 0"
  shows "\<exists>t s1 s2 s3 s4. dev_lwt_create fn d LWT_DEFAULT s = Inr (t, s1) \<and>
    dev_lwt_join t s1 = Inr (Switched, s2) \<and> current_thread s2 = t \<and> eip s2 = Trampoline \<and>
    dev_lwt_die v s2 = Inr (Switched, s3) \<and> current_thread s3 = p \<and> esp s3 = esp s \<and>
    dev_lwt_join_resume t s3 = Inr (Returned v, s4) \<and>
    runq s4 (p # xs) \<and> ready s4 p \<and> n_runnable s4 = n_runnable s \<and> n_blocked s4 = n_blocked s \<and>
    n_zombies s4 = n_zombies s \<and>
    block (t + DEV_SIZEOF_LWT) 100 \<subseteq> A \<and> kpool (s_kheap s4) (A - block (t + DEV_SIZEOF_LWT) 100)"
proof -
  let ?n = "DEV_SIZEOF_LWT + DEV_LWT_EXTRA"
  from dev_create_pool [OF assms(2-4)] obtain t k where
    t: "dev_kalloc (s_kheap s) ?n = Inr (t, k)" "0 < t" "block t ?n \<subseteq> A"
      "kpool k (A - block t ?n)" "t \<notin> set (p # xs)" .
  from dev_create_runs [OF assms(1) t(1,2,5), of fn d LWT_DEFAULT] obtain s1 where
    c: "dev_lwt_create fn d LWT_DEFAULT s = Inr (t, s1)" "runq s1 (p # xs @ [t])"
      "s_lwt s1 = (s_lwt s)(t := dev_fresh_lwt t fn d LWT_DEFAULT s)" "s_kheap s1 = k"
      "n_runnable s1 = n_runnable s + 1" "n_zombies s1 = n_zombies s + 1"
      "n_blocked s1 = n_blocked s" "esp s1 = esp s" by blast
  have ft: "ready s1 t" "l_flag (s_lwt s1 t) = LWT_DEFAULT" "l_ip (s_lwt s1 t) = Trampoline"
    by (simp_all add: c(3) dev_fresh_lwt_def)
  from lwt_join_switches [OF c(2) ft(1,2)] t(2) obtain s2 where
    j: "lwt_join t s1 = Inr (Switched, s2)" "runq s2 (t # [] @ p # xs)"
      "l_joinedfrom (s_lwt s2 t) = p" "l_ip (s_lwt s2 p) = AfterSwitch"
      "l_sp (s_lwt s2 p) = esp s1 - PUSHAL_BYTES" "eip s2 = Trampoline"
      "l_flag (s_lwt s2 t) = LWT_DEFAULT" "s_kheap s2 = s_kheap s1"
      "n_runnable s2 = n_runnable s1 - 1" "n_blocked s2 = n_blocked s1 + 1"
      "n_zombies s2 = n_zombies s1"
    using ft by auto
  have cur: "current_thread s2 = t" using runq_cur [OF j(2)] .
  have "n_runnable s2 \<noteq> 0" using assms(6) j(9) c(5) by simp
  from lwt_die_to_joiner [OF j(2) _ j(7,3) assms(5) this, of v] obtain s3 where
    e: "lwt_die v s2 = Inr (Switched, s3)" "runq s3 (p # xs @ t # [])" "l_ret (s_lwt s3 t) = v"
      "ready s3 p" "s_kheap s3 = k" "n_runnable s3 = n_runnable s" "n_blocked s3 = n_blocked s + 1"
      "n_zombies s3 = n_zombies s + 1" "esp s3 = esp s"
    using j c by auto
  have d: "dev_lwt_die v s2 = Inr (Switched, s3)" using dev_lwt_die_default [of s2 v] j(7) cur e(1) by simp
  have kp3: "kpool (s_kheap s3) (A - block t ?n)" using t(4) e(5) by simp
  have "block t DEV_SIZEOF_LWT \<inter> (A - block t ?n) = {}" by (auto simp: dev_sizes)
  from dev_join_resume_dead [OF e(2,4) kp3 t(2) this] obtain s4 where
    f: "dev_lwt_join_resume t s3 = Inr (Returned v, s4)" "runq s4 (p # xs @ [])"
      "kpool (s_kheap s4) (A - block t ?n \<union> block t DEV_SIZEOF_LWT)" "s_lwt s4 = s_lwt s3"
      "n_runnable s4 = n_runnable s3" "n_blocked s4 = n_blocked s3 - 1"
      "n_zombies s4 = n_zombies s3 - 1" using e(3) by blast
  have A: "A - block t ?n \<union> block t DEV_SIZEOF_LWT = A - block (t + DEV_SIZEOF_LWT) 100"
    "block (t + DEV_SIZEOF_LWT) 100 \<subseteq> A"
    using t(3) by (auto simp: dev_sizes)
  have "dev_lwt_join t s1 = Inr (Switched, s2)" using j(1) by (simp add: join_switch_iff)
  with c(1) j(6) cur d e f A runq_cur [OF e(2)] show ?thesis
    by (intro exI [of _ t] exI [of _ s1] exI [of _ s2] exI [of _ s3] exI [of _ s4]) simp
qed

text \<open>C26: a LWT_NOJOIN thread of the port gives its structure back to the pool while it still runs
  on the stack inside it, and the switch that follows saves its context there: the instruction
  and stack pointers are written to memory that is free already. The counters keep counting it.\<close>

theorem dev_nojoin_death_writes_freed_memory:
  assumes "runq s (t # us @ z # vs)" and "\<forall>u\<in>set us. \<not> ready s u" and "ready s z"
    and "l_flag (s_lwt s t) = LWT_NOJOIN" and "kpool (s_kheap s) A" and "0 < t"
    and "block t DEV_SIZEOF_LWT \<inter> A = {}"
  shows "\<exists>s'. dev_lwt_die v s = Inr (Switched, s') \<and> runq s' (z # vs @ us) \<and>
    kpool (s_kheap s') (A \<union> block t DEV_SIZEOF_LWT) \<and>
    l_ip (s_lwt s' t) = AfterSwitch \<and> l_sp (s_lwt s' t) = esp s - PUSHAL_BYTES \<and>
    block (t + DEV_OFFSET_CT) SIZEOF_CT \<subseteq> A \<union> block t DEV_SIZEOF_LWT \<and>
    n_runnable s' = n_runnable s \<and> n_zombies s' = n_zombies s"
proof -
  from assms(1) have d: "t \<noteq> z" "current_thread s = t" by (auto simp: runq_def)
  from kd.free_ok [OF assms(5,6) dev_pool_sizes(3,4) assms(7)] obtain k where
    k: "dev_kfree (s_kheap s) t DEV_SIZEOF_LWT = Inr k" "kpool k (A \<union> block t DEV_SIZEOF_LWT)" by blast
  from assms(1) have "ring (s_links s) (([] @ t # us) @ z # vs)" by (simp add: runq_def)
  then have "ring (ps_list_ll_rem t (s_links s)) ([] @ us @ z # vs)"
    using ring_rem [of "s_links s" "[]" t "us @ z # vs"] by simp
  then have "ring (ps_list_ll_rem t (s_links s)) ((z # vs) @ us)"
    using ring_rotate [of _ us "z # vs"] by simp
  moreover have "next_runnable s = Some z" by (rule next_runnable_hit [OF assms(1-3)])
  moreover have "block (t + DEV_OFFSET_CT) SIZEOF_CT \<subseteq> block t DEV_SIZEOF_LWT" by (auto simp: dev_sizes)
  ultimately show ?thesis using d assms(4) k
    by (simp add: dev_lwt_die_def dev_eqs Let_def runq_def del: ring.simps)
      (auto simp: lwt_dispatch_def Let_def)
qed

subsection \<open>Witnesses\<close>

definition dev_ex :: dev_sys where
  "dev_ex = chan_sys.extend (lwt_sys.extend sys_ex
      (chan_sys.fields (\<lambda>_. \<lparr>c_id = 0, c_snd_cnt = 0, c_size = 0, c_rbuf = 0, c_rcv_thd = 0,
         c_mark = 0, c_cgrp = 0\<rparr>) (\<lambda>_. \<lparr>rb_buf = 0, rb_mem = (\<lambda>_. 0), rb_slots = 0, rb_head = 0, rb_tail = 0, rb_capacity = 0\<rparr>)
         (\<lambda>_. \<lparr>m_data = 0, m_thd = 0\<rparr>) (\<lambda>_. 0)
         \<lparr>tqh_first = (\<lambda>_. 0), tqh_last = TqFirst, tqe_next = (\<lambda>_. 0), tqe_prev = (\<lambda>_. TqFirst 0)\<rparr> 1))
      (dev_sys.fields (\<lambda>_. 9))"

lemma dev_ex_sel [simp]:
  "s_kheap dev_ex = s_kheap sys_ex" "s_lwt dev_ex = s_lwt sys_ex" "s_links dev_ex = s_links sys_ex"
  "current_thread dev_ex = current_thread sys_ex" "n_runnable dev_ex = n_runnable sys_ex"
  "n_blocked dev_ex = n_blocked sys_ex" "n_zombies dev_ex = n_zombies sys_ex" "esp dev_ex = esp sys_ex"
  by (simp_all add: dev_ex_def lwt_sys.defs chan_sys.defs dev_sys.defs)

lemma dev_ex_runq: "runq dev_ex [100, 200, 300]"
  using sys_ex_runq by (simp add: runq_def del: ring.simps)

lemma dev_ex_fits: "kfits (s_kheap dev_ex) (DEV_SIZEOF_LWT + DEV_LWT_EXTRA)"
proof -
  have f: "free_list (s_kheap sys_ex) [(4096, 8000)]"
    by (simp add: free_list_def sys_ex_def pool_ex_def)
  from kfits_list [OF f] show ?thesis by (simp add: dev_sizes)
qed

theorem dev_fork_join_leaks_witness:
  "\<exists>t s1 s2 s3 s4. dev_lwt_create 7 8 LWT_DEFAULT dev_ex = Inr (t, s1) \<and>
    dev_lwt_join t s1 = Inr (Switched, s2) \<and> dev_lwt_die 42 s2 = Inr (Switched, s3) \<and>
    dev_lwt_join_resume t s3 = Inr (Returned 42, s4) \<and>
    kpool (s_kheap s4) (block 4096 8000 - block (t + DEV_SIZEOF_LWT) 100)"
  using dev_fork_join_leaks [of dev_ex 100 "[200, 300]" "block 4096 8000" 7 8 42]
    dev_ex_runq sys_ex_pool dev_ex_fits by (auto simp: sys_ex_def)

definition dev_nojoin_ex :: dev_sys where
  "dev_nojoin_ex = upd_lwt 100 (\<lambda>l. l\<lparr>l_flag := LWT_NOJOIN\<rparr>) dev_ex"

theorem dev_nojoin_death_writes_freed_memory_witness:
  "\<exists>s'. dev_lwt_die 5 dev_nojoin_ex = Inr (Switched, s') \<and>
    kpool (s_kheap s') (block 4096 8000 \<union> block 100 DEV_SIZEOF_LWT) \<and>
    l_sp (s_lwt s' 100) = 5000 - PUSHAL_BYTES"
proof -
  have "runq dev_nojoin_ex (100 # [200] @ 300 # [])" using dev_ex_runq by (simp add: dev_nojoin_ex_def)
  moreover have "block 100 DEV_SIZEOF_LWT \<inter> block 4096 8000 = {}" by (auto simp: dev_sizes)
  ultimately show ?thesis
    using dev_nojoin_death_writes_freed_memory [of dev_nojoin_ex 100 "[200]" 300 "[]" "block 4096 8000" 5]
      sys_ex_pool(1) by (auto simp: dev_nojoin_ex_def sys_ex_def lwt_ex_def)
qed

end
