(* ===== verification/SlFprr.thy ===== *)
theory SlFprr
  imports PsList
begin

text \<open>
  The scheduling policy of the kernel threads, \<open>sl_mod_fprr.c\<close>: fixed priorities, one list of
  ready threads per priority. A list node is the head of a priority's list (\<open>RHead p\<close>, the array
  \<open>threads\<close>) or the link field of a thread (\<open>RThd t\<close>, the thread with identifier \<open>t\<close> of the static
  array in \<open>sl_thd_static_backend.c\<close>).

  \<open>fprr_ok f T q\<close> says that the lists hold the queues \<open>q p\<close> of ready threads and that every other
  thread of \<open>T\<close> is linked to itself only. The policy interface that \<open>sl.c\<close> uses is the locale
  \<open>sched_policy\<close>.
\<close>

datatype node = RHead nat | RThd nat

record fprr =
  f_links :: "node ps_heap"
  f_priority :: "nat \<Rightarrow> nat"
  f_period_usec :: "nat \<Rightarrow> u64"
  f_period :: "nat \<Rightarrow> u64"

definition SL_FPRR_NPRIOS :: nat where
  "SL_FPRR_NPRIOS = 32"

definition SL_FPRR_LOWEST :: nat where
  "SL_FPRR_LOWEST = SL_FPRR_NPRIOS - 1"

subsection \<open>The code\<close>

fun sched_from :: "nat \<Rightarrow> nat \<Rightarrow> fprr \<Rightarrow> node result" where
  "sched_from i 0 f = Inl AssertFail"
| "sched_from i (Suc n) f =
     (if ps_list_ll_empty (RHead i) (f_links f) then sched_from (Suc i) n f
      else Inr (ps_list_head_first (RHead i) (f_links f)))"

text \<open>The loop looks at priority \<open>i\<close> with \<open>n\<close> priorities left; after it comes \<open>assert(0)\<close>.\<close>

definition sl_mod_schedule :: "fprr \<Rightarrow> node result" where
  "sl_mod_schedule f = sched_from 0 SL_FPRR_NPRIOS f"

definition sl_mod_execution :: "nat \<Rightarrow> u64 \<Rightarrow> fprr \<Rightarrow> fprr" where
  "sl_mod_execution t cycles f = f"

definition sl_mod_block :: "nat \<Rightarrow> fprr \<Rightarrow> fprr" where
  "sl_mod_block t f = f\<lparr>f_links := ps_list_ll_rem (RThd t) (f_links f)\<rparr>"

definition sl_mod_wakeup :: "nat \<Rightarrow> fprr \<Rightarrow> fprr result" where
  "sl_mod_wakeup t f =
     rbind (assertion (f_priority f t \<le> SL_FPRR_LOWEST \<and> ps_list_ll_empty (RThd t) (f_links f)))
       (\<lambda>_. Inr (f\<lparr>f_links := ps_list_head_append (RHead (f_priority f t)) (RThd t) (f_links f)\<rparr>))"

definition sl_mod_yield :: "nat \<Rightarrow> fprr \<Rightarrow> fprr result" where
  "sl_mod_yield t f =
     rbind (assertion (f_priority f t \<le> SL_FPRR_LOWEST)) (\<lambda>_.
       let l = ps_list_ll_rem (RThd t) (f_links f)
       in Inr (f\<lparr>f_links := ps_list_head_append (RHead (f_priority f t)) (RThd t) l\<rparr>))"

definition sl_mod_thd_create :: "nat \<Rightarrow> fprr \<Rightarrow> fprr" where
  "sl_mod_thd_create t f =
     f\<lparr>f_priority := (f_priority f)(t := SL_FPRR_LOWEST), f_period := (f_period f)(t := 0),
       f_period_usec := (f_period_usec f)(t := 0), f_links := ps_list_ll_init (RThd t) (f_links f)\<rparr>"

definition sl_mod_thd_delete :: "nat \<Rightarrow> fprr \<Rightarrow> fprr" where
  "sl_mod_thd_delete t f = f\<lparr>f_links := ps_list_ll_rem (RThd t) (f_links f)\<rparr>"

datatype sched_param_type = SCHEDP_PRIO | SCHEDP_OTHER

definition sl_mod_thd_param_set :: "nat \<Rightarrow> sched_param_type \<Rightarrow> nat \<Rightarrow> fprr \<Rightarrow> fprr result" where
  "sl_mod_thd_param_set t type v f =
     rbind (assertion (type = SCHEDP_PRIO \<and> v < SL_FPRR_NPRIOS)) (\<lambda>_.
       let l = ps_list_ll_rem (RThd t) (f_links f); f1 = f\<lparr>f_priority := (f_priority f)(t := v)\<rparr>
       in Inr (f1\<lparr>f_links := ps_list_head_append (RHead (f_priority f1 t)) (RThd t) l\<rparr>))"

fun init_heads :: "nat \<Rightarrow> node ps_heap \<Rightarrow> node ps_heap" where
  "init_heads 0 l = l"
| "init_heads (Suc n) l = ps_list_ll_init (RHead n) (init_heads n l)"

definition sl_mod_init :: "fprr \<Rightarrow> fprr" where
  "sl_mod_init f = f\<lparr>f_links := init_heads SL_FPRR_NPRIOS (f_links f)\<rparr>"

subsection \<open>The queues\<close>

type_synonym queues = "nat \<Rightarrow> nat list"

definition fprr_ok :: "fprr \<Rightarrow> nat set \<Rightarrow> queues \<Rightarrow> bool" where
  "fprr_ok f T q \<longleftrightarrow>
     (\<forall>p<SL_FPRR_NPRIOS. ring (f_links f) (RHead p # map RThd (q p))) \<and>
     (\<forall>p<SL_FPRR_NPRIOS. \<forall>t\<in>set (q p). f_priority f t = p \<and> t \<in> T) \<and>
     (\<forall>t\<in>T. f_priority f t < SL_FPRR_NPRIOS) \<and>
     (\<forall>t\<in>T. t \<notin> set (q (f_priority f t)) \<longrightarrow> ring (f_links f) [RThd t])"

lemma fprr_okD:
  assumes "fprr_ok f T q"
  shows "p < SL_FPRR_NPRIOS \<Longrightarrow> ring (f_links f) (RHead p # map RThd (q p))"
    "p < SL_FPRR_NPRIOS \<Longrightarrow> t \<in> set (q p) \<Longrightarrow> f_priority f t = p"
    "p < SL_FPRR_NPRIOS \<Longrightarrow> t \<in> set (q p) \<Longrightarrow> t \<in> T"
    "t \<in> T \<Longrightarrow> f_priority f t < SL_FPRR_NPRIOS"
    "t \<in> T \<Longrightarrow> t \<notin> set (q (f_priority f t)) \<Longrightarrow> ring (f_links f) [RThd t]"
  using assms by (auto simp: fprr_ok_def simp del: ring.simps)

text \<open>The queues with a thread taken out, and with a thread put at the end of a queue.\<close>

definition dequeued :: "nat \<Rightarrow> queues \<Rightarrow> queues" where
  "dequeued t q = (\<lambda>p. remove1 t (q p))"

definition enqueued :: "nat \<Rightarrow> nat \<Rightarrow> queues \<Rightarrow> queues" where
  "enqueued p t q = q(p := q p @ [t])"

lemma fprr_distinct: "fprr_ok f T q \<Longrightarrow> p < SL_FPRR_NPRIOS \<Longrightarrow> distinct (q p)"
  using fprr_okD(1) [of f T q p] ring_distinct by (fastforce simp: distinct_map)

text \<open>Any two of the rings share no node.\<close>

lemma fprr_apart:
  assumes "fprr_ok f T q" and "p < SL_FPRR_NPRIOS" and "r < SL_FPRR_NPRIOS" and "p \<noteq> r"
  shows "set (RHead p # map RThd (q p)) \<inter> set (RHead r # map RThd (q r)) = {}"
proof -
  have "set (q p) \<inter> set (q r) = {}"
    using assms(4) fprr_okD(2) [OF assms(1,2)] fprr_okD(2) [OF assms(1,3)] by (auto simp: disjoint_iff)
  with assms(4) show ?thesis by auto
qed

text \<open>The ring a thread is in: its queue, or itself.\<close>

definition home :: "fprr \<Rightarrow> queues \<Rightarrow> nat \<Rightarrow> node list" where
  "home f q t = (if t \<in> set (q (f_priority f t))
     then RHead (f_priority f t) # map RThd (q (f_priority f t)) else [RThd t])"

lemma home_ring: "fprr_ok f T q \<Longrightarrow> t \<in> T \<Longrightarrow> ring (f_links f) (home f q t)"
  using fprr_okD(1) [OF _ fprr_okD(4)] fprr_okD(5) by (simp add: home_def del: ring.simps)

lemma home_mem: "RThd t \<in> set (home f q t)"
  by (auto simp: home_def)

lemma queue_not_home:
  assumes "fprr_ok f T q" and "t \<in> T" and "p < SL_FPRR_NPRIOS" and "t \<notin> set (q p)"
  shows "set (RHead p # map RThd (q p)) \<inter> set (home f q t) = {}"
proof (cases "t \<in> set (q (f_priority f t))")
  case True
  then have "p \<noteq> f_priority f t" using assms(4) by auto
  with fprr_apart [OF assms(1,3) fprr_okD(4) [OF assms(1,2)]] True show ?thesis by (simp add: home_def)
qed (use assms(4) in \<open>auto simp: home_def\<close>)

lemma single_not_home:
  assumes "fprr_ok f T q" and "t \<in> T" and "u \<in> T" and "u \<noteq> t" and "u \<notin> set (q (f_priority f u))"
  shows "set [RThd u] \<inter> set (home f q t) = {}"
proof (cases "t \<in> set (q (f_priority f t))")
  case True
  have "u \<notin> set (q (f_priority f t))"
    using assms fprr_okD(2) [OF assms(1) fprr_okD(4) [OF assms(1,2)], of u] by auto
  with True show ?thesis by (auto simp: home_def)
qed (use assms(4) in \<open>auto simp: home_def\<close>)

subsection \<open>Taking a thread out and putting one in\<close>

definition out_links where
  "out_links f t = ps_list_ll_rem (RThd t) (f_links f)"

lemma out_single:
  assumes "fprr_ok f T q" and "t \<in> T"
  shows "ring (out_links f t) [RThd t]"
proof (cases "t \<in> set (q (f_priority f t))")
  case True
  then obtain us vs where q: "q (f_priority f t) = us @ t # vs" by (meson split_list)
  have "ring (f_links f) ((RHead (f_priority f t) # map RThd us) @ RThd t # map RThd vs)"
    using fprr_okD(1) [OF assms(1) fprr_okD(4) [OF assms]] q by simp
  from ring_rem [OF this] show ?thesis by (simp add: out_links_def)
next
  case False
  with fprr_okD(5) [OF assms] ring_rem_singleton show ?thesis by (simp add: out_links_def del: ring.simps)
qed

lemma out_other_single:
  assumes "fprr_ok f T q" and "t \<in> T" and "u \<in> T" and "u \<noteq> t" and "u \<notin> set (q (f_priority f u))"
  shows "ring (out_links f t) [RThd u]"
  unfolding out_links_def
  by (rule ring_rem_other [OF fprr_okD(5) [OF assms(1,3,5)] home_ring [OF assms(1,2)] home_mem
      single_not_home [OF assms]])

lemma out_queue:
  assumes "fprr_ok f T q" and "t \<in> T" and "p < SL_FPRR_NPRIOS"
  shows "ring (out_links f t) (RHead p # map RThd (dequeued t q p))"
proof (cases "t \<in> set (q p)")
  case True
  then obtain us vs where q: "q p = us @ t # vs" by (meson split_list)
  have "ring (f_links f) ((RHead p # map RThd us) @ RThd t # map RThd vs)"
    using fprr_okD(1) [OF assms(1,3)] q by simp
  from ring_rem [OF this] have "ring (out_links f t) ((RHead p # map RThd us) @ map RThd vs)"
    by (simp add: out_links_def del: ring.simps)
  moreover have "dequeued t q p = us @ vs"
    using q fprr_distinct [OF assms(1,3)] by (simp add: dequeued_def remove1_append)
  ultimately show ?thesis by (simp del: ring.simps)
next
  case False
  then have "dequeued t q p = q p" by (simp add: dequeued_def remove1_idem)
  moreover have "ring (out_links f t) (RHead p # map RThd (q p))"
    unfolding out_links_def
    by (rule ring_rem_other [OF fprr_okD(1) [OF assms(1,3)] home_ring [OF assms(1,2)] home_mem
        queue_not_home [OF assms False]])
  ultimately show ?thesis by (simp del: ring.simps)
qed

lemma dequeued_mem: "fprr_ok f T q \<Longrightarrow> p < SL_FPRR_NPRIOS \<Longrightarrow> set (dequeued t q p) = set (q p) - {t}"
  using fprr_distinct [of f T q p] by (simp add: dequeued_def set_remove1_eq)

lemma block_ok [keeps]:
  assumes "fprr_ok f T q" and "t \<in> T"
  shows "fprr_ok (sl_mod_block t f) T (dequeued t q)"
proof -
  have links: "f_links (sl_mod_block t f) = out_links f t" "f_priority (sl_mod_block t f) = f_priority f"
    by (simp_all add: sl_mod_block_def out_links_def)
  have single: "ring (out_links f t) [RThd u]"
    if u: "u \<in> T" "u \<notin> set (dequeued t q (f_priority f u))" for u
  proof (cases "u = t")
    case False
    then have "u \<notin> set (q (f_priority f u))"
      using u dequeued_mem [OF assms(1) fprr_okD(4) [OF assms(1) u(1)], of t] by auto
    from out_other_single [OF assms u(1) False this] show ?thesis .
  qed (simp only: out_single [OF assms])
  show ?thesis
    unfolding fprr_ok_def links
    using out_queue [OF assms] single dequeued_mem [OF assms(1)] fprr_okD(2-4) [OF assms(1)]
    by (auto simp del: ring.simps)
qed

text \<open>Putting a thread that is linked to itself at the end of the queue of its priority.\<close>

lemma append_ok:
  assumes "fprr_ok f T q" and "t \<in> T" and "t \<notin> set (q (f_priority f t))"
  shows "fprr_ok (f\<lparr>f_links := ps_list_head_append (RHead (f_priority f t)) (RThd t) (f_links f)\<rparr>)
    T (enqueued (f_priority f t) t q)"
proof -
  let ?p = "f_priority f t"
  let ?l = "ps_list_head_append (RHead ?p) (RThd t) (f_links f)"
  have p: "?p < SL_FPRR_NPRIOS" by (rule fprr_okD(4) [OF assms(1,2)])
  have home: "ring (f_links f) (RHead ?p # map RThd (q ?p))" by (rule fprr_okD(1) [OF assms(1) p])
  have here: "ring ?l (RHead ?p # map RThd (enqueued ?p t q ?p))"
    using ring_append [OF home, of "RThd t"] assms(3)
    by (auto simp: ps_list_head_append_def enqueued_def simp del: ring.simps)
  have prev: "ps_p (f_links f) (RHead ?p) \<in> set (RHead ?p # map RThd (q ?p))"
    using ring_prev [OF home] last_in_set [of "RHead ?p # map RThd (q ?p)"] by (simp add: ps_list_defs)
  have other: "ring ?l xs" if "ring (f_links f) xs" "RThd t \<notin> set xs"
    "set xs \<inter> set (RHead ?p # map RThd (q ?p)) = {}" for xs
    unfolding ps_list_head_append_def by (rule ring_add_other [OF that(1) home prev that(2,3)])
  have "ring ?l (RHead r # map RThd (enqueued ?p t q r))" if r: "r < SL_FPRR_NPRIOS" for r
  proof (cases "r = ?p")
    case False
    have "t \<notin> set (q r)" using fprr_okD(2) [OF assms(1) r, of t] False by auto
    then have "RThd t \<notin> set (RHead r # map RThd (q r))" by auto
    from other [OF fprr_okD(1) [OF assms(1) r] this fprr_apart [OF assms(1) r p False]] False
    show ?thesis by (simp add: enqueued_def del: ring.simps)
  qed (simp only: here)
  moreover have "ring ?l [RThd u]" if u: "u \<in> T" "u \<notin> set (enqueued ?p t q (f_priority f u))" for u
  proof -
    from u(2) have u2: "u \<notin> set (q (f_priority f u))" "u \<noteq> t"
      by (auto simp: enqueued_def split: if_splits)
    then have "u \<notin> set (q ?p)" using fprr_okD(2) [OF assms(1) p, of u] by auto
    with u2 show ?thesis by (intro other [OF fprr_okD(5) [OF assms(1) u(1) u2(1)]]) auto
  qed
  moreover have "\<forall>r<SL_FPRR_NPRIOS. \<forall>u\<in>set (enqueued ?p t q r). f_priority f u = r \<and> u \<in> T"
    using fprr_okD(2,3) [OF assms(1)] assms(2) p by (simp add: enqueued_def)
  ultimately show ?thesis
    using fprr_okD(4) [OF assms(1)] unfolding fprr_ok_def by (simp del: ring.simps)
qed


subsection \<open>The operations\<close>

lemma wakeup_ok:
  assumes "fprr_ok f T q" and "t \<in> T" and "t \<notin> set (q (f_priority f t))"
  shows "\<exists>f'. sl_mod_wakeup t f = Inr f' \<and> fprr_ok f' T (enqueued (f_priority f t) t q) \<and>
    f_priority f' = f_priority f"
proof -
  have "f_priority f t \<le> SL_FPRR_LOWEST"
    using fprr_okD(4) [OF assms(1,2)] by (simp add: SL_FPRR_LOWEST_def)
  moreover have "ps_list_ll_empty (RThd t) (f_links f)"
    using ring_empty_iff [OF fprr_okD(5) [OF assms]] by simp
  ultimately show ?thesis using append_ok [OF assms] by (simp add: sl_mod_wakeup_def)
qed

text \<open>\<open>sl_mod_yield\<close> and \<open>sl_mod_thd_param_set\<close> take the thread out of whatever list it is in first.\<close>

lemma out_then_append:
  assumes "fprr_ok f T q" and "t \<in> T" and "v < SL_FPRR_NPRIOS"
  shows "fprr_ok (f\<lparr>f_priority := (f_priority f)(t := v),
      f_links := ps_list_head_append (RHead v) (RThd t) (out_links f t)\<rparr>) T
    (enqueued v t (dequeued t q))"
proof -
  let ?f = "f\<lparr>f_priority := (f_priority f)(t := v), f_links := out_links f t\<rparr>"
  have ok: "fprr_ok (sl_mod_block t f) T (dequeued t q)" by (rule block_ok [OF assms(1,2)])
  have b: "f_links (sl_mod_block t f) = out_links f t" "f_priority (sl_mod_block t f) = f_priority f"
    by (simp_all add: sl_mod_block_def out_links_def)
  have none: "p < SL_FPRR_NPRIOS \<Longrightarrow> t \<notin> set (dequeued t q p)" for p
    using dequeued_mem [OF assms(1)] by simp
  have "fprr_ok ?f T (dequeued t q)"
    unfolding fprr_ok_def
  proof (intro conjI allI impI ballI)
    show "ring (f_links ?f) (RHead p # map RThd (dequeued t q p))" if "p < SL_FPRR_NPRIOS" for p
      using fprr_okD(1) [OF ok that] b by (simp del: ring.simps)
    show "f_priority ?f u = p" "u \<in> T" if "p < SL_FPRR_NPRIOS" "u \<in> set (dequeued t q p)" for p u
      using fprr_okD(2,3) [OF ok that] none [OF that(1)] that(2) b by auto
    show "f_priority ?f u < SL_FPRR_NPRIOS" if "u \<in> T" for u
      using fprr_okD(4) [OF ok that] b assms(3) by simp
    show "ring (f_links ?f) [RThd u]" if "u \<in> T" "u \<notin> set (dequeued t q (f_priority ?f u))" for u
    proof (cases "u = t")
      case True
      then show ?thesis using out_single [OF assms(1,2)] by (simp del: ring.simps)
    next
      case False
      with fprr_okD(5) [OF ok that(1)] that(2) b show ?thesis by (simp del: ring.simps)
    qed
  qed
  from append_ok [OF this assms(2)] none [OF assms(3)] show ?thesis by simp
qed

lemma yield_ok:
  assumes "fprr_ok f T q" and "t \<in> T"
  shows "\<exists>f'. sl_mod_yield t f = Inr f' \<and>
    fprr_ok f' T (enqueued (f_priority f t) t (dequeued t q)) \<and> f_priority f' = f_priority f"
proof -
  have p: "f_priority f t < SL_FPRR_NPRIOS" by (rule fprr_okD(4) [OF assms])
  have same: "f\<lparr>f_priority := (f_priority f)(t := f_priority f t)\<rparr> = f" by simp
  have "f_priority f t \<le> SL_FPRR_LOWEST" using p by (simp add: SL_FPRR_LOWEST_def)
  with out_then_append [OF assms p] show ?thesis by (simp add: sl_mod_yield_def out_links_def)
qed

lemma param_set_ok:
  assumes "fprr_ok f T q" and "t \<in> T" and "v < SL_FPRR_NPRIOS"
  shows "\<exists>f'. sl_mod_thd_param_set t SCHEDP_PRIO v f = Inr f' \<and>
    fprr_ok f' T (enqueued v t (dequeued t q)) \<and> f_priority f' = (f_priority f)(t := v)"
  using out_then_append [OF assms] assms(3)
  by (simp add: sl_mod_thd_param_set_def Let_def out_links_def)

lemma create_ok:
  assumes "fprr_ok f T q" and "t \<notin> T"
  shows "fprr_ok (sl_mod_thd_create t f) (insert t T) q"
proof -
  let ?l = "ps_list_ll_init (RThd t) (f_links f)"
  have off: "t \<notin> set (q p)" if "p < SL_FPRR_NPRIOS" for p using fprr_okD(3) [OF assms(1) that] assms(2) by blast
  have 1: "ring ?l (RHead p # map RThd (q p))" if "p < SL_FPRR_NPRIOS" for p
    using ring_init_other [OF fprr_okD(1) [OF assms(1) that], of "RThd t"] off [OF that] by auto
  have 2: "ring ?l [RThd u]" if "u \<in> T" "u \<notin> set (q (f_priority f u))" for u
    using ring_init_other [OF fprr_okD(5) [OF assms(1) that], of "RThd t"] that(1) assms(2) by auto
  have 3: "f_links (sl_mod_thd_create t f) = ?l"
    "f_priority (sl_mod_thd_create t f) = (f_priority f)(t := SL_FPRR_LOWEST)"
    by (simp_all add: sl_mod_thd_create_def)
  have "SL_FPRR_LOWEST < SL_FPRR_NPRIOS" by (simp add: SL_FPRR_LOWEST_def SL_FPRR_NPRIOS_def)
  then show ?thesis
    unfolding fprr_ok_def 3
    using 1 2 ring_init [of "RThd t" "f_links f"] fprr_okD(2-4) [OF assms(1)] assms(2) off
    by (auto simp del: ring.simps)
qed

lemma init_heads_ring: "i < n \<Longrightarrow> ring (init_heads n l) [RHead i]"
proof (induction n)
  case (Suc n)
  show ?case
  proof (cases "i = n")
    case False
    with Suc have "ring (init_heads n l) [RHead i]" by simp
    from ring_init_other [OF this, of "RHead n"] False show ?thesis by simp
  qed (simp add: ring_init del: ring.simps)
qed simp

lemma init_ok: "fprr_ok (sl_mod_init f) {} (\<lambda>_. [])"
  by (simp add: fprr_ok_def sl_mod_init_def init_heads_ring del: ring.simps)

lemma sched_from_first:
  assumes "fprr_ok f T q" and "i + n = SL_FPRR_NPRIOS" and "\<forall>r. i \<le> r \<and> r < p \<longrightarrow> q r = []"
    and "i \<le> p" and "p < SL_FPRR_NPRIOS" and "q p = t # ts"
  shows "sched_from i n f = Inr (RThd t)"
  using assms(2-4)
proof (induction n arbitrary: i)
  case 0
  with assms(5) show ?case by simp
next
  case (Suc n)
  have ring: "ring (f_links f) (RHead i # map RThd (q i))"
    using Suc.prems by (intro fprr_okD(1) [OF assms(1)]) simp
  show ?case
  proof (cases "i = p")
    case True
    with ring assms(6) ring_empty_iff [OF ring] show ?thesis by (simp add: ps_list_defs)
  next
    case False
    with Suc.prems have "q i = []" by simp
    then have "ps_list_ll_empty (RHead i) (f_links f)" using ring_empty_iff [OF ring] by simp
    moreover have "sched_from (Suc i) n f = Inr (RThd t)"
      by (rule Suc.IH) (use Suc.prems False in auto)
    ultimately show ?thesis by simp
  qed
qed

lemma sched_from_none:
  assumes "fprr_ok f T q" and "\<forall>r<SL_FPRR_NPRIOS. q r = []" and "i + n = SL_FPRR_NPRIOS"
  shows "sched_from i n f = Inl AssertFail"
  using assms(3)
proof (induction n arbitrary: i)
  case (Suc n)
  then have i: "i < SL_FPRR_NPRIOS" by simp
  from ring_empty_iff [OF fprr_okD(1) [OF assms(1) i]] assms(2) i Suc.IH [of "Suc i"] Suc.prems
  show ?case by simp
qed simp

subsection \<open>The policy interface\<close>

text \<open>
  What \<open>sl.c\<close> asks of a policy, over the abstract queues: \<open>ok\<close> relates a policy state to the
  set of threads it knows and its queues, \<open>prio\<close> is the priority of a thread.
\<close>

locale sched_policy =
  fixes sched :: "'f \<Rightarrow> node result"
    and block :: "nat \<Rightarrow> 'f \<Rightarrow> 'f"
    and wake :: "nat \<Rightarrow> 'f \<Rightarrow> 'f result"
    and yield :: "nat \<Rightarrow> 'f \<Rightarrow> 'f result"
    and ok :: "'f \<Rightarrow> nat set \<Rightarrow> queues \<Rightarrow> bool"
    and prio :: "'f \<Rightarrow> nat \<Rightarrow> nat"
  assumes block_keeps: "ok f T q \<Longrightarrow> t \<in> T \<Longrightarrow> ok (block t f) T (dequeued t q) \<and> prio (block t f) = prio f"
    and wake_keeps: "ok f T q \<Longrightarrow> t \<in> T \<Longrightarrow> t \<notin> set (q (prio f t)) \<Longrightarrow>
      \<exists>f'. wake t f = Inr f' \<and> ok f' T (enqueued (prio f t) t q) \<and> prio f' = prio f"
    and yield_keeps: "ok f T q \<Longrightarrow> t \<in> T \<Longrightarrow>
      \<exists>f'. yield t f = Inr f' \<and> ok f' T (enqueued (prio f t) t (dequeued t q)) \<and> prio f' = prio f"
    and sched_first: "ok f T q \<Longrightarrow> p < SL_FPRR_NPRIOS \<Longrightarrow> \<forall>r<p. q r = [] \<Longrightarrow> q p = t # ts \<Longrightarrow>
      sched f = Inr (RThd t) \<and> t \<in> T \<and> prio f t = p"
    and queue_prio: "ok f T q \<Longrightarrow> r < SL_FPRR_NPRIOS \<Longrightarrow> t \<in> set (q r) \<Longrightarrow> prio f t = r"
    and sched_none: "ok f T q \<Longrightarrow> \<forall>r<SL_FPRR_NPRIOS. q r = [] \<Longrightarrow> sched f = Inl AssertFail"

text \<open>The threads chosen when each one runs and then yields, \<open>n\<close> times.\<close>

fun turns :: "('f \<Rightarrow> node result) \<Rightarrow> (nat \<Rightarrow> 'f \<Rightarrow> 'f result) \<Rightarrow> nat \<Rightarrow> 'f \<Rightarrow> (nat list \<times> 'f) result" where
  "turns sched yield 0 f = Inr ([], f)"
| "turns sched yield (Suc n) f =
     rbind (sched f) (\<lambda>x. case x of
       RHead i \<Rightarrow> Inl NullDeref
     | RThd t \<Rightarrow> rbind (yield t f) (\<lambda>f1. rbind (turns sched yield n f1) (\<lambda>(ts, f2). Inr (t # ts, f2))))"

context sched_policy begin

lemma turns_round_robin:
  assumes "ok f T q" and "p < SL_FPRR_NPRIOS" and "\<forall>r<p. q r = []" and "q p \<noteq> []"
  shows "\<exists>f' q'. turns sched yield n f = Inr (map (\<lambda>i. q p ! (i mod length (q p))) [0..<n], f') \<and>
    ok f' T q' \<and> q' p = rotate n (q p) \<and> (\<forall>r<SL_FPRR_NPRIOS. r \<noteq> p \<longrightarrow> q' r = q r)"
proof -
  have "\<exists>f' q'. turns sched yield n g = Inr (map (\<lambda>i. q p ! ((i + k) mod length (q p))) [0..<n], f') \<and>
      ok f' T q' \<and> q' p = rotate (n + k) (q p) \<and> (\<forall>r<SL_FPRR_NPRIOS. r \<noteq> p \<longrightarrow> q' r = q r)"
    if "ok g T qs" "qs p = rotate k (q p)" "\<forall>r<SL_FPRR_NPRIOS. r \<noteq> p \<longrightarrow> qs r = q r" for k g qs
    using that
  proof (induction n arbitrary: k g qs)
    case 0
    then show ?case by auto
  next
    case (Suc n)
    have "qs p \<noteq> []" using Suc.prems(2) assms(4) by simp
    then obtain t ts where t: "qs p = t # ts" by (cases "qs p") auto
    have "\<forall>r<p. qs r = []" using Suc.prems(3) assms(2,3) by auto
    from sched_first [OF Suc.prems(1) assms(2) this t] have
      s: "sched g = Inr (RThd t)" "t \<in> T" "prio g t = p" by auto
    let ?q1 = "enqueued p t (dequeued t qs)"
    from yield_keeps [OF Suc.prems(1) s(2)] s(3) obtain g1 where
      y: "yield t g = Inr g1" "ok g1 T ?q1" by auto
    have "?q1 p = rotate (Suc k) (q p)"
      using t Suc.prems(2) [symmetric] by (simp add: enqueued_def dequeued_def)
    moreover have "\<forall>r<SL_FPRR_NPRIOS. r \<noteq> p \<longrightarrow> ?q1 r = q r"
      using queue_prio [OF Suc.prems(1)] s(3) Suc.prems(3)
      by (auto simp: enqueued_def dequeued_def intro!: remove1_idem)
    ultimately obtain f' q' where
      r: "turns sched yield n g1 = Inr (map (\<lambda>i. q p ! ((i + Suc k) mod length (q p))) [0..<n], f')"
        "ok f' T q'" "q' p = rotate (n + Suc k) (q p)" "\<forall>r<SL_FPRR_NPRIOS. r \<noteq> p \<longrightarrow> q' r = q r"
      using Suc.IH [OF y(2)] by blast
    have "t = q p ! (k mod length (q p))"
      using t Suc.prems(2) hd_rotate_conv_nth [OF assms(4), of k] by simp
    then have "turns sched yield (Suc n) g =
        Inr (map (\<lambda>i. q p ! ((i + k) mod length (q p))) [0..<Suc n], f')"
      using s(1) y(1) r(1) by (simp add: map_upt_Suc del: upt_Suc)
    then show ?case using r(2-4) by (intro exI [of _ f'] exI [of _ q']) simp
  qed
  from this [of f q 0] assms(1) show ?thesis by simp
qed

end

interpretation fprr: sched_policy sl_mod_schedule sl_mod_block sl_mod_wakeup sl_mod_yield fprr_ok f_priority
proof
  fix f T q t
  assume "fprr_ok f T q"
  then show "t \<in> T \<Longrightarrow> fprr_ok (sl_mod_block t f) T (dequeued t q) \<and> f_priority (sl_mod_block t f) = f_priority f"
    by (simp add: block_ok) (simp add: sl_mod_block_def)
qed (simp_all add: wakeup_ok yield_ok fprr_okD sl_mod_schedule_def sched_from_none, 
     use sched_from_first [where i = 0] fprr_okD(2,3) in fastforce)


subsection \<open>Properties\<close>

text \<open>C30: the policy's operations are the queue operations they stand for, on linked lists that share
  no node: blocking takes the thread out of its queue, waking puts it at the end of the queue of its
  priority, yielding moves it to the end, setting the priority moves it to the end of the new
  priority's queue, and a created thread is in no queue. Every operation succeeds, keeps the
  representation, and changes no other thread's place.\<close>

theorem fprr_operations:
  assumes "fprr_ok f T q" and "t \<in> T" and "v < SL_FPRR_NPRIOS" and "u \<notin> T"
  shows "fprr_ok (sl_mod_block t f) T (dequeued t q) \<and>
    (t \<notin> set (q (f_priority f t)) \<longrightarrow>
      (\<exists>f'. sl_mod_wakeup t f = Inr f' \<and> fprr_ok f' T (enqueued (f_priority f t) t q))) \<and>
    (\<exists>f'. sl_mod_yield t f = Inr f' \<and> fprr_ok f' T (enqueued (f_priority f t) t (dequeued t q))) \<and>
    (\<exists>f'. sl_mod_thd_param_set t SCHEDP_PRIO v f = Inr f' \<and> f_priority f' t = v \<and>
      fprr_ok f' T (enqueued v t (dequeued t q))) \<and>
    fprr_ok (sl_mod_thd_create u f) (insert u T) q"
  using block_ok [OF assms(1,2)] wakeup_ok [OF assms(1,2)] yield_ok [OF assms(1,2)]
    param_set_ok [OF assms(1,2,3)] create_ok [OF assms(1,4)] by auto

text \<open>The policy after initialisation with threads 1 and 2 created and given priority 10.\<close>

definition zero_policy :: fprr where
  "zero_policy = \<lparr>f_links = \<lparr>ps_n = (\<lambda>x. x), ps_p = (\<lambda>x. x)\<rparr>, f_priority = (\<lambda>_. 0),
     f_period_usec = (\<lambda>_. 0), f_period = (\<lambda>_. 0)\<rparr>"

definition two_ready :: queues where
  "two_ready = (\<lambda>_. [])(10 := [1, 2])"

lemma two_ready_reached:
  obtains f1 f2 where
    "sl_mod_thd_param_set 1 SCHEDP_PRIO 10
      (sl_mod_thd_create 2 (sl_mod_thd_create 1 (sl_mod_init zero_policy))) = Inr f1"
    and "sl_mod_thd_param_set 2 SCHEDP_PRIO 10 f1 = Inr f2" and "fprr_ok f2 {1, 2} two_ready"
    and "f_priority f2 1 = 10" and "f_priority f2 2 = 10"
proof -
  have v: "10 < SL_FPRR_NPRIOS" by (simp add: SL_FPRR_NPRIOS_def)
  let ?f = "sl_mod_thd_create 2 (sl_mod_thd_create 1 (sl_mod_init zero_policy))"
  have "fprr_ok (sl_mod_thd_create 1 (sl_mod_init zero_policy)) {1} (\<lambda>_. [])"
    by (rule create_ok [OF init_ok]) simp
  from create_ok [OF this, of 2] have "fprr_ok ?f {1, 2} (\<lambda>_. [])" by (simp add: insert_commute)
  from param_set_ok [OF this _ v, of 1] obtain f1 where
    f1: "sl_mod_thd_param_set 1 SCHEDP_PRIO 10 ?f = Inr f1"
      "fprr_ok f1 {1, 2} (enqueued 10 1 (dequeued 1 (\<lambda>_. [])))" "f_priority f1 1 = 10" by auto
  from param_set_ok [OF f1(2) _ v, of 2] obtain f2 where
    f2: "sl_mod_thd_param_set 2 SCHEDP_PRIO 10 f1 = Inr f2"
      "fprr_ok f2 {1, 2} (enqueued 10 2 (dequeued 2 (enqueued 10 1 (dequeued 1 (\<lambda>_. [])))))"
      "f_priority f2 1 = 10" "f_priority f2 2 = 10" using f1(3) by auto
  have "enqueued 10 2 (dequeued 2 (enqueued 10 1 (dequeued 1 (\<lambda>_. [])))) = two_ready"
    by (auto simp: enqueued_def dequeued_def two_ready_def)
  with f1 f2 that show thesis by simp
qed

theorem fprr_operations_witness:
  "\<exists>f f'. fprr_ok f {1, 2} two_ready \<and> sl_mod_yield 1 f = Inr f' \<and>
     fprr_ok f' {1, 2} (two_ready(10 := [2, 1]))"
proof -
  obtain f where f: "fprr_ok f {1, 2} two_ready" "f_priority f 1 = 10" using two_ready_reached by blast
  from fprr_operations [OF f(1), of 1 0 3] f(2) obtain f' where
    "sl_mod_yield 1 f = Inr f'" "fprr_ok f' {1, 2} (enqueued 10 1 (dequeued 1 two_ready))"
    by (auto simp: SL_FPRR_NPRIOS_def)
  moreover have "enqueued 10 1 (dequeued 1 two_ready) = two_ready(10 := [2, 1])"
    by (auto simp: enqueued_def dequeued_def two_ready_def)
  ultimately show ?thesis using f(1) by auto
qed

text \<open>The scheduler picks the first thread of the highest priority (the lowest number) that has a
  ready thread, whatever is ready below it. When nothing is ready it stops at \<open>assert(0)\<close>: the null
  result for which \<open>sl.h\<close> provides the idle thread is never returned.\<close>

theorem fprr_schedule_highest:
  assumes "fprr_ok f T q"
  shows "(\<forall>p<SL_FPRR_NPRIOS. \<forall>t ts. (\<forall>r<p. q r = []) \<longrightarrow> q p = t # ts \<longrightarrow>
      sl_mod_schedule f = Inr (RThd t) \<and> f_priority f t = p) \<and>
    ((\<forall>p<SL_FPRR_NPRIOS. q p = []) \<longleftrightarrow> sl_mod_schedule f = Inl AssertFail)"
proof
  show first: "\<forall>p<SL_FPRR_NPRIOS. \<forall>t ts. (\<forall>r<p. q r = []) \<longrightarrow> q p = t # ts \<longrightarrow>
      sl_mod_schedule f = Inr (RThd t) \<and> f_priority f t = p"
    using fprr.sched_first [OF assms] by blast
  show "(\<forall>p<SL_FPRR_NPRIOS. q p = []) \<longleftrightarrow> sl_mod_schedule f = Inl AssertFail"
  proof
    assume stop: "sl_mod_schedule f = Inl AssertFail"
    show "\<forall>p<SL_FPRR_NPRIOS. q p = []"
    proof (rule ccontr)
      assume "\<not> (\<forall>p<SL_FPRR_NPRIOS. q p = [])"
      then obtain p where "p < SL_FPRR_NPRIOS \<and> q p \<noteq> []" by blast
      then obtain p where p: "p < SL_FPRR_NPRIOS \<and> q p \<noteq> []"
        and least: "\<forall>r<p. \<not> (r < SL_FPRR_NPRIOS \<and> q r \<noteq> [])"
        using exists_least_iff [of "\<lambda>p. p < SL_FPRR_NPRIOS \<and> q p \<noteq> []"] by blast
      obtain t ts where "q p = t # ts" using p by (cases "q p") auto
      with first p least have "sl_mod_schedule f = Inr (RThd t)" by (meson dual_order.strict_trans)
      with stop show False by simp
    qed
  qed (use fprr.sched_none [OF assms] in blast)
qed

theorem fprr_schedule_highest_witness:
  "\<exists>f. fprr_ok f {1, 2} two_ready \<and> sl_mod_schedule f = Inr (RThd 1)"
proof -
  obtain f where f: "fprr_ok f {1, 2} two_ready" using two_ready_reached by blast
  have "10 < SL_FPRR_NPRIOS" by (simp add: SL_FPRR_NPRIOS_def)
  moreover have "two_ready 10 = 1 # [2]" "\<forall>r<10. two_ready r = []" by (auto simp: two_ready_def)
  ultimately have "sl_mod_schedule f = Inr (RThd 1)" using fprr_schedule_highest [OF f] by blast
  with f show ?thesis by blast
qed

text \<open>C31: within the highest ready priority the threads take turns: when each chosen thread yields,
  the next \<open>n\<close> threads chosen are those of the queue in order, over and over, and no other queue
  moves; a thread of a lower priority is never chosen.\<close>

theorem fprr_round_robin:
  assumes "fprr_ok f T q" and "p < SL_FPRR_NPRIOS" and "\<forall>r<p. q r = []" and "q p \<noteq> []"
  shows "\<exists>f' q'. turns sl_mod_schedule sl_mod_yield n f =
      Inr (map (\<lambda>i. q p ! (i mod length (q p))) [0..<n], f') \<and>
    fprr_ok f' T q' \<and> q' p = rotate n (q p) \<and> (\<forall>r<SL_FPRR_NPRIOS. r \<noteq> p \<longrightarrow> q' r = q r)"
  by (rule fprr.turns_round_robin [OF assms])

theorem fprr_round_robin_witness:
  "\<exists>f f'. fprr_ok f {1, 2} two_ready \<and> turns sl_mod_schedule sl_mod_yield 3 f = Inr ([1, 2, 1], f')"
proof -
  obtain f where f: "fprr_ok f {1, 2} two_ready" using two_ready_reached by blast
  have "map (\<lambda>i. two_ready 10 ! (i mod length (two_ready 10))) [0..<3] = [1, 2, 1]"
    by (simp add: two_ready_def upt_rec)
  with fprr_round_robin [OF f, of 10 3] f show ?thesis
    by (auto simp: SL_FPRR_NPRIOS_def two_ready_def)
qed

end
