(* ===== verification/SlThd.thy ===== *)
theory SlThd
  imports SlFprr SlTimer
begin

text \<open>
  The kernel-thread scheduler \<open>sl.c\<close> and the inlined part of it in \<open>sl.h\<close>. A thread is named by
  its identifier, which is its index in the static array of \<open>sl_thd_static_backend.c\<close>. The state
  holds that array, the policy, the scheduler lock (owner and contention bit) and the timers.

  What the kernel does is not modelled: a call of \<open>cos_defswitch\<close> is recorded as a \<open>switch\<close>
  request, with its arguments. An operation returns how it left the caller: \<open>SlReturned\<close> when it
  came back without giving up the processor, \<open>SlSwitched\<close> when it ends in the switch of
  \<open>sl_cs_exit_schedule\<close> (which is repeated when the kernel refuses the switch, see
  \<open>sl_cs_exit_schedule_resume\<close>), \<open>SlContended\<close> when the lock is taken and it switched to the
  owner before anything else (the whole operation is retried later).
\<close>

datatype sl_thd_state = SL_THD_FREE | SL_THD_BLOCKED | SL_THD_WOKEN | SL_THD_RUNNABLE | SL_THD_DYING

record sl_thd =
  t_state :: sl_thd_state
  t_thdid :: nat
  t_thdcap :: nat
  t_prio :: nat

record sl_sys = sl_timer +
  sl_threads :: "nat \<Rightarrow> sl_thd"
  sl_policy :: fprr
  cs_owner :: nat
  cs_contention :: bool
  sched_thdcap :: nat
  sched_thd :: nat
  idle_thd :: nat

datatype switch = Switch (sw_thdcap: nat) (sw_prio: nat) (sw_timeout: u32)

datatype sl_out = SlReturned | SlSwitched | SlContended

type_synonym sl_result = "(sl_out \<times> switch list \<times> sl_sys) result"

definition upd_thd :: "nat \<Rightarrow> (sl_thd \<Rightarrow> sl_thd) \<Rightarrow> sl_sys \<Rightarrow> sl_sys" where
  "upd_thd t f s = s\<lparr>sl_threads := (sl_threads s)(t := f (sl_threads s t))\<rparr>"

abbreviation st :: "sl_sys \<Rightarrow> nat \<Rightarrow> sl_thd_state" where
  "st s t \<equiv> t_state (sl_threads s t)"

subsection \<open>Threads\<close>

definition sl_thd_alloc_backend :: "cos_env \<Rightarrow> nat \<Rightarrow> nat result" where
  "sl_thd_alloc_backend k tid = rbind (assertion (tid < max_num_threads k)) (\<lambda>_. Inr tid)"

definition sl_thd_lookup_backend :: "cos_env \<Rightarrow> nat \<Rightarrow> nat result" where
  "sl_thd_lookup_backend k tid = rbind (assertion (tid < max_num_threads k)) (\<lambda>_. Inr tid)"

definition sl_thd_lkup :: "cos_env \<Rightarrow> nat \<Rightarrow> nat result" where
  "sl_thd_lkup k tid = sl_thd_lookup_backend k tid"

definition sl_thd_curr :: "cos_env \<Rightarrow> nat result" where
  "sl_thd_curr k = sl_thd_lkup k (cos_thdid k)"

definition sl_thd_setprio :: "nat \<Rightarrow> nat \<Rightarrow> sl_sys \<Rightarrow> sl_sys" where
  "sl_thd_setprio t p s = upd_thd t (\<lambda>x. x\<lparr>t_prio := p\<rparr>) s"

subsection \<open>The critical section, as one thread runs it\<close>

definition sl_cs_owner :: "cos_env \<Rightarrow> sl_sys \<Rightarrow> bool result" where
  "sl_cs_owner k s = rbind (sl_thd_curr k) (\<lambda>t. Inr (cs_owner s = t_thdcap (sl_threads s t)))"

definition sl_cs_enter_contention :: "nat \<Rightarrow> sl_sys \<Rightarrow> (switch \<times> sl_sys) result" where
  "sl_cs_enter_contention t s =
     rbind (assertion (cs_owner s \<noteq> t_thdcap (sl_threads s t))) (\<lambda>_.
       Inr (Switch (cs_owner s) (t_prio (sl_threads s t)) (timeout_next s), s\<lparr>cs_contention := True\<rparr>))"

definition sl_cs_enter :: "cos_env \<Rightarrow> sl_sys \<Rightarrow> (switch option \<times> sl_sys) result" where
  "sl_cs_enter k s =
     rbind (sl_thd_curr k) (\<lambda>t.
     if cs_owner s \<noteq> 0 then
       rbind (sl_cs_enter_contention t s) (\<lambda>(w, s1). Inr (Some w, s1))
     else Inr (None, s\<lparr>cs_owner := t_thdcap (sl_threads s t)\<rparr>))"

definition sl_cs_exit_contention :: "nat \<Rightarrow> sl_sys \<Rightarrow> switch \<times> sl_sys" where
  "sl_cs_exit_contention t s =
     (Switch (sched_thdcap s) (t_prio (sl_threads s t)) (timeout_next s),
      s\<lparr>cs_owner := 0, cs_contention := False\<rparr>)"

definition sl_cs_exit :: "cos_env \<Rightarrow> sl_sys \<Rightarrow> (switch list \<times> sl_sys) result" where
  "sl_cs_exit k s =
     (if cs_contention s then
        rbind (sl_thd_curr k) (\<lambda>t. let (w, s1) = sl_cs_exit_contention t s in Inr ([w], s1))
      else Inr ([], s\<lparr>cs_owner := 0, cs_contention := False\<rparr>))"

text \<open>An operation that starts with \<open>sl_cs_enter\<close> and goes on as \<open>body\<close> once it has the lock.\<close>

definition in_cs :: "cos_env \<Rightarrow> sl_sys \<Rightarrow> (sl_sys \<Rightarrow> sl_result) \<Rightarrow> sl_result" where
  "in_cs k s body =
     rbind (sl_cs_enter k s) (\<lambda>(w, s1). case w of
       Some sw \<Rightarrow> Inr (SlContended, [sw], s1)
     | None \<Rightarrow> body s1)"

definition cs_leave :: "cos_env \<Rightarrow> sl_sys \<Rightarrow> sl_result" where
  "cs_leave k s = rbind (sl_cs_exit k s) (\<lambda>(ws, s1). Inr (SlReturned, ws, s1))"

subsection \<open>Leaving the critical section towards another thread\<close>

definition timeout_check :: "cos_env \<Rightarrow> sl_sys \<Rightarrow> sl_sys result" where
  "timeout_check k s =
     (if timer_expired (sl_now k) s
      then sl_timeout_mod_expended k (sl_now k) (timer_next s) s else Inr s)"

definition pick_thread :: "nat option \<Rightarrow> sl_sys \<Rightarrow> nat result" where
  "pick_thread to_thd s =
     (let to1 = (case to_thd of None \<Rightarrow> None
                 | Some t \<Rightarrow> if st s t \<noteq> SL_THD_RUNNABLE then None else Some t)
      in case to1 of
           Some t \<Rightarrow> Inr t
         | None \<Rightarrow> rbind (sl_mod_schedule (sl_policy s)) (\<lambda>n. case n of
               RThd t \<Rightarrow> Inr t
             | RHead p \<Rightarrow> Inl NullDeref))"

definition exit_schedule_locked :: "cos_env \<Rightarrow> nat option \<Rightarrow> sl_sys \<Rightarrow> sl_result" where
  "exit_schedule_locked k to_thd s =
     rbind (timeout_check k s) (\<lambda>s1.
     rbind (pick_thread to_thd s1) (\<lambda>t.
     let thdcap = t_thdcap (sl_threads s1 t); prio = t_prio (sl_threads s1 t) in
     rbind (sl_cs_exit k s1) (\<lambda>(ws, s2).
       Inr (SlSwitched, ws @ [Switch thdcap prio (timeout_next s2)], s2))))"

definition sl_cs_exit_schedule_nospin_arg :: "cos_env \<Rightarrow> nat option \<Rightarrow> sl_sys \<Rightarrow> sl_result" where
  "sl_cs_exit_schedule_nospin_arg k to_thd s =
     rbind (sl_cs_owner k s) (\<lambda>own.
       if \<not> own then in_cs k s (exit_schedule_locked k to_thd) else exit_schedule_locked k to_thd s)"

definition sl_cs_exit_schedule_nospin :: "cos_env \<Rightarrow> sl_sys \<Rightarrow> sl_result" where
  "sl_cs_exit_schedule_nospin k s = sl_cs_exit_schedule_nospin_arg k None s"

definition sl_cs_exit_schedule :: "cos_env \<Rightarrow> sl_sys \<Rightarrow> sl_result" where
  "sl_cs_exit_schedule k s = sl_cs_exit_schedule_nospin k s"

text \<open>\<open>code\<close> is what \<open>cos_defswitch\<close> returned when the thread runs again.\<close>

definition sl_cs_exit_schedule_resume :: "cos_env \<Rightarrow> int \<Rightarrow> sl_sys \<Rightarrow> sl_result" where
  "sl_cs_exit_schedule_resume k code s =
     (if code \<noteq> 0 then sl_cs_exit_schedule_nospin k s else Inr (SlReturned, [], s))"

definition sl_cs_exit_switchto :: "cos_env \<Rightarrow> nat \<Rightarrow> sl_sys \<Rightarrow> sl_result" where
  "sl_cs_exit_switchto k to_thd s = sl_cs_exit_schedule_nospin_arg k (Some to_thd) s"

subsection \<open>Blocking, waking, yielding\<close>

definition sl_thd_block :: "cos_env \<Rightarrow> nat \<Rightarrow> sl_sys \<Rightarrow> sl_result" where
  "sl_thd_block k tid s =
     rbind (assertion (tid = 0)) (\<lambda>_.
     in_cs k s (\<lambda>s. rbind (sl_thd_curr k) (\<lambda>t.
       if st s t = SL_THD_WOKEN then cs_leave k (upd_thd t (\<lambda>x. x\<lparr>t_state := SL_THD_RUNNABLE\<rparr>) s)
       else
         rbind (assertion (st s t = SL_THD_RUNNABLE)) (\<lambda>_.
         let s1 = upd_thd t (\<lambda>x. x\<lparr>t_state := SL_THD_BLOCKED\<rparr>) s
         in sl_cs_exit_schedule k (s1\<lparr>sl_policy := sl_mod_block t (sl_policy s1)\<rparr>)))))"

definition sl_thd_wakeup :: "cos_env \<Rightarrow> nat \<Rightarrow> sl_sys \<Rightarrow> sl_result" where
  "sl_thd_wakeup k tid s =
     in_cs k s (\<lambda>s. rbind (sl_thd_lkup k tid) (\<lambda>t.
       if st s t = SL_THD_RUNNABLE then cs_leave k (upd_thd t (\<lambda>x. x\<lparr>t_state := SL_THD_WOKEN\<rparr>) s)
       else
         rbind (assertion (st s t = SL_THD_BLOCKED)) (\<lambda>_.
         let s1 = upd_thd t (\<lambda>x. x\<lparr>t_state := SL_THD_RUNNABLE\<rparr>) s in
         rbind (sl_mod_wakeup t (sl_policy s1)) (\<lambda>f.
           sl_cs_exit_schedule k (s1\<lparr>sl_policy := f\<rparr>)))))"

definition sl_thd_yield :: "cos_env \<Rightarrow> nat \<Rightarrow> sl_sys \<Rightarrow> sl_result" where
  "sl_thd_yield k tid s =
     rbind (sl_thd_curr k) (\<lambda>t.
     in_cs k s (\<lambda>s.
       if tid \<noteq> 0 then rbind (sl_thd_lkup k tid) (\<lambda>to_thd. sl_cs_exit_switchto k to_thd s)
       else rbind (sl_mod_yield t (sl_policy s)) (\<lambda>f. sl_cs_exit_schedule k (s\<lparr>sl_policy := f\<rparr>))))"


subsection \<open>Allocation, initialisation, the scheduler's own loop\<close>

definition sl_thd_alloc_init :: "cos_env \<Rightarrow> nat \<Rightarrow> nat \<Rightarrow> sl_sys \<Rightarrow> (nat \<times> sl_sys) result" where
  "sl_thd_alloc_init k tid thdcap s =
     rbind (sl_thd_alloc_backend k tid) (\<lambda>t.
       Inr (t, upd_thd t (\<lambda>x. x\<lparr>t_thdid := tid, t_thdcap := thdcap, t_state := SL_THD_RUNNABLE\<rparr>) s))"

text \<open>
  \<open>thdcap\<close> and \<open>tid\<close> are what the kernel returned for the new thread: the capability
  (\<open>cos_thd_alloc\<close>, or \<open>cos_initthd_alloc\<close> for a boot thread) and its identifier
  (\<open>cos_introspect\<close>).
\<close>

definition sl_thd_alloc_intern :: "cos_env \<Rightarrow> nat \<Rightarrow> nat \<Rightarrow> sl_sys \<Rightarrow> (nat option \<times> sl_sys) result" where
  "sl_thd_alloc_intern k thdcap tid s =
     (if thdcap = 0 then Inr (None, s)
      else rbind (assertion (tid \<noteq> 0)) (\<lambda>_.
        rbind (sl_thd_alloc_init k tid thdcap s) (\<lambda>(t, s1).
          Inr (Some t, s1\<lparr>sl_policy := sl_mod_thd_create t (sl_policy s1)\<rparr>))))"

definition sl_thd_alloc :: "cos_env \<Rightarrow> nat \<Rightarrow> nat \<Rightarrow> sl_sys \<Rightarrow> (nat option \<times> sl_sys) result" where
  "sl_thd_alloc k thdcap tid s = sl_thd_alloc_intern k thdcap tid s"

definition sl_thd_comp_alloc :: "cos_env \<Rightarrow> nat \<Rightarrow> nat \<Rightarrow> sl_sys \<Rightarrow> (nat option \<times> sl_sys) result" where
  "sl_thd_comp_alloc k thdcap tid s = sl_thd_alloc_intern k thdcap tid s"

definition sl_thd_free :: "nat \<Rightarrow> sl_sys \<Rightarrow> sl_sys" where
  "sl_thd_free t s = upd_thd t (\<lambda>x. x\<lparr>t_state := SL_THD_FREE\<rparr>) s"

definition sl_thd_param_set :: "nat \<Rightarrow> sched_param_type \<Rightarrow> nat \<Rightarrow> sl_sys \<Rightarrow> sl_sys result" where
  "sl_thd_param_set t type value s =
     rbind (sl_mod_thd_param_set t type value (sl_policy s)) (\<lambda>f. Inr (s\<lparr>sl_policy := f\<rparr>))"

text \<open>\<open>cyc\<close>, \<open>bootcap\<close>, \<open>icap\<close> and \<open>itid\<close> come from the kernel: cycles per microsecond, the
  capability of the initial thread, and the capability and identifier of the idle thread.\<close>

definition sl_init :: "cos_env \<Rightarrow> u64 \<Rightarrow> nat \<Rightarrow> nat \<Rightarrow> nat \<Rightarrow> sl_sys \<Rightarrow> sl_sys result" where
  "sl_init k cyc bootcap icap itid s =
     (let s1 = s\<lparr>cyc_per_usec := cyc, cs_owner := 0, cs_contention := False\<rparr>;
          s2 = s1\<lparr>sl_policy := sl_mod_init (sl_policy s1)\<rparr>;
          s3 = sl_timeout_mod_init k s2
      in rbind (sl_thd_alloc_init k (cos_thdid k) bootcap s3) (\<lambda>(t, s4).
         rbind (sl_thd_alloc k icap itid (s4\<lparr>sched_thd := t, sched_thdcap := bootcap\<rparr>)) (\<lambda>(i, s5).
           case i of None \<Rightarrow> Inl AssertFail | Some i \<Rightarrow> Inr (s5\<lparr>idle_thd := i\<rparr>))))"

text \<open>One turn of \<open>sl_sched_loop\<close>; the list holds the events \<open>(tid, blocked, cycles)\<close> that
  \<open>cos_sched_rcv\<close> delivers until nothing is pending.\<close>

fun sched_events :: "cos_env \<Rightarrow> (nat \<times> bool \<times> u64) list \<Rightarrow> sl_sys \<Rightarrow> sl_sys result" where
  "sched_events k [] s = Inr s"
| "sched_events k ((tid, blocked, cycles) # evs) s =
     (if tid = 0 then sched_events k evs s
      else rbind (sl_thd_lkup k tid) (\<lambda>t.
        if t = idle_thd s then sched_events k evs s
        else
          let s1 = s\<lparr>sl_policy := sl_mod_execution t cycles (sl_policy s)\<rparr> in
          if blocked then sched_events k evs (s1\<lparr>sl_policy := sl_mod_block t (sl_policy s1)\<rparr>)
          else rbind (sl_mod_wakeup t (sl_policy s1)) (\<lambda>f. sched_events k evs (s1\<lparr>sl_policy := f\<rparr>))))"

definition sl_sched_loop_turn :: "cos_env \<Rightarrow> (nat \<times> bool \<times> u64) list \<Rightarrow> sl_sys \<Rightarrow> sl_result" where
  "sl_sched_loop_turn k evs s =
     in_cs k s (\<lambda>s. rbind (sched_events k evs s) (\<lambda>s1. sl_cs_exit_schedule_nospin k s1))"

subsection \<open>The invariant\<close>

text \<open>
  \<open>sl_ok s T q\<close>: the policy's lists hold the queues \<open>q\<close>, and a thread is in a queue exactly when
  its state is RUNNABLE or WOKEN; otherwise it is BLOCKED. \<open>unlocked\<close>: nobody is in the critical
  section. \<open>timer_fine\<close>: the timer code will not stop at its assertion.
\<close>

definition queued :: "sl_sys \<Rightarrow> queues \<Rightarrow> nat \<Rightarrow> bool" where
  "queued s q t \<longleftrightarrow> t \<in> set (q (f_priority (sl_policy s) t))"

definition sl_ok :: "sl_sys \<Rightarrow> nat set \<Rightarrow> queues \<Rightarrow> bool" where
  "sl_ok s T q \<longleftrightarrow> fprr_ok (sl_policy s) T q \<and>
     (\<forall>t\<in>T. if queued s q t then st s t \<in> {SL_THD_RUNNABLE, SL_THD_WOKEN} else st s t = SL_THD_BLOCKED)"

definition unlocked :: "sl_sys \<Rightarrow> bool" where
  "unlocked s \<longleftrightarrow> cs_owner s = 0 \<and> \<not> cs_contention s"

definition timer_fine :: "cos_env \<Rightarrow> sl_sys \<Rightarrow> bool" where
  "timer_fine k s \<longleftrightarrow> (timer_expired (sl_now k) s \<longrightarrow> timer_next s \<le> sl_now k \<and> period s \<noteq> 0)"

definition running :: "cos_env \<Rightarrow> sl_sys \<Rightarrow> nat set \<Rightarrow> nat \<Rightarrow> bool" where
  "running k s T t \<longleftrightarrow> cos_thdid k = t \<and> t < max_num_threads k \<and> t \<in> T \<and>
     t_thdcap (sl_threads s t) \<noteq> 0"

definition top_thread :: "queues \<Rightarrow> nat \<Rightarrow> bool" where
  "top_thread q t \<longleftrightarrow> (\<exists>p<SL_FPRR_NPRIOS. (\<forall>r<p. q r = []) \<and> (\<exists>ts. q p = t # ts))"

lemma upd_thd_sel [simp]:
  "sl_threads (upd_thd t f s) = (sl_threads s)(t := f (sl_threads s t))"
  "sl_policy (upd_thd t f s) = sl_policy s" "cs_owner (upd_thd t f s) = cs_owner s"
  "cs_contention (upd_thd t f s) = cs_contention s" "timer_next (upd_thd t f s) = timer_next s"
  "timeout_next (upd_thd t f s) = timeout_next s" "period (upd_thd t f s) = period s"
  "sched_thdcap (upd_thd t f s) = sched_thdcap s"
  by (simp_all add: upd_thd_def)

lemma sl_thd_curr_running [simp]: "running k s T t \<Longrightarrow> sl_thd_curr k = Inr t"
  by (simp add: running_def sl_thd_curr_def sl_thd_lkup_def sl_thd_lookup_backend_def)

text \<open>Where the timer may stand after an operation: where it was, or one step on.\<close>

definition timer_after :: "cos_env \<Rightarrow> sl_sys \<Rightarrow> u64 \<Rightarrow> bool" where
  "timer_after k s n \<longleftrightarrow> n = timer_next s \<or>
     (timer_next s \<le> sl_now k \<and> period s \<noteq> 0 \<and>
      n = sl_now k + period s - (sl_now k - timer_next s) mod period s)"

lemma timeout_check_ok:
  assumes "timer_fine k s"
  obtains n w where "timeout_check k s = Inr (s\<lparr>timer_next := n, timeout_next := w\<rparr>)" and "timer_after k s n"
proof (cases "timer_expired (sl_now k) s")
  case True
  with assms that show thesis
    by (auto simp: timeout_check_def timer_fine_def sl_timeout_mod_expended_def Let_def
        sl_timeout_period_get_def sl_timeout_oneshot_def timer_after_def)
next
  case False
  with that [of "timeout_next s" "timer_next s"] show thesis by (simp add: timeout_check_def timer_after_def)
qed

lemma in_cs_free:
  assumes "unlocked s" and "running k s T t"
  shows "in_cs k s body = body (s\<lparr>cs_owner := t_thdcap (sl_threads s t)\<rparr>)"
  using assms by (simp add: in_cs_def sl_cs_enter_def unlocked_def)

text \<open>Leaving, the lock held, to the thread \<open>u\<close> that \<open>pick_thread\<close> chooses.\<close>

lemma pick_thread_frame [simp]:
  "pick_thread to (s\<lparr>timer_next := n, timeout_next := w\<rparr>) = pick_thread to s"
  "pick_thread to (s\<lparr>cs_owner := c\<rparr>) = pick_thread to s"
  by (simp_all add: pick_thread_def split: option.split)

lemma exit_schedule_to:
  assumes "pick_thread to s = Inr u" and "running k s T t" and "timer_fine k s"
    and "cs_owner s = t_thdcap (sl_threads s t)" and "\<not> cs_contention s"
  obtains n w where "sl_cs_exit_schedule_nospin_arg k to s =
    Inr (SlSwitched, [Switch (t_thdcap (sl_threads s u)) (t_prio (sl_threads s u)) w],
      s\<lparr>timer_next := n, timeout_next := w, cs_owner := 0, cs_contention := False\<rparr>)"
    and "timer_after k s n"
proof -
  from timeout_check_ok [OF assms(3)] obtain n w where
    tc: "timeout_check k s = Inr (s\<lparr>timer_next := n, timeout_next := w\<rparr>)" and n: "timer_after k s n" .
  show thesis
    by (rule that [of w n]) (use tc n assms(1,2,4,5) in \<open>simp_all add: sl_cs_exit_def
      sl_cs_exit_schedule_nospin_arg_def sl_cs_owner_def exit_schedule_locked_def Let_def\<close>)
qed

lemma pick_top:
  assumes "fprr_ok (sl_policy s) T q" and "top_thread q u"
  shows "pick_thread None s = Inr u"
proof -
  from assms(2) obtain p ts where "p < SL_FPRR_NPRIOS" "\<forall>r<p. q r = []" "q p = u # ts"
    by (auto simp: top_thread_def)
  with fprr.sched_first [OF assms(1)] have "sl_mod_schedule (sl_policy s) = Inr (RThd u)" by blast
  then show ?thesis by (simp add: pick_thread_def)
qed

lemma exit_schedule_top:
  assumes "fprr_ok (sl_policy s) T q" and "top_thread q u" and "running k s T' t" and "timer_fine k s"
    and "cs_owner s = t_thdcap (sl_threads s t)" and "\<not> cs_contention s"
  obtains n w where "sl_cs_exit_schedule k s =
    Inr (SlSwitched, [Switch (t_thdcap (sl_threads s u)) (t_prio (sl_threads s u)) w],
      s\<lparr>timer_next := n, timeout_next := w, cs_owner := 0, cs_contention := False\<rparr>)"
    and "timer_after k s n"
  by (rule exit_schedule_to [OF pick_top [OF assms(1,2)] assms(3-6)])
    (simp add: that sl_cs_exit_schedule_def sl_cs_exit_schedule_nospin_def)


lemma sl_okD:
  assumes "sl_ok s T q"
  shows "fprr_ok (sl_policy s) T q"
    "t \<in> T \<Longrightarrow> queued s q t \<Longrightarrow> st s t \<in> {SL_THD_RUNNABLE, SL_THD_WOKEN}"
    "t \<in> T \<Longrightarrow> \<not> queued s q t \<Longrightarrow> st s t = SL_THD_BLOCKED"
  using assms by (auto simp: sl_ok_def split: if_splits)

lemma sl_ok_cong: "sl_threads s' = sl_threads s \<Longrightarrow> sl_policy s' = sl_policy s \<Longrightarrow> sl_ok s' T q = sl_ok s T q"
  by (simp only: sl_ok_def queued_def)

lemma sl_ok_queued: "sl_ok s T q \<Longrightarrow> t \<in> T \<Longrightarrow> queued s q t \<longleftrightarrow> st s t \<noteq> SL_THD_BLOCKED"
  using sl_okD(2,3) [of s T q t] by (cases "queued s q t") auto

text \<open>The invariant after a queue operation on \<open>t\<close> that keeps priorities.\<close>

lemma sl_ok_change:
  assumes "sl_ok s T q" and "fprr_ok (sl_policy s') T q'" and "f_priority (sl_policy s') = f_priority (sl_policy s)"
    and "\<And>x. x \<in> T \<Longrightarrow> x \<noteq> t \<Longrightarrow> queued s' q' x = queued s q x"
    and "\<And>x. x \<noteq> t \<Longrightarrow> st s' x = st s x"
    and "queued s' q' t \<longleftrightarrow> st s' t \<noteq> SL_THD_BLOCKED"
    and "st s' t \<in> {SL_THD_BLOCKED, SL_THD_RUNNABLE, SL_THD_WOKEN}"
  shows "sl_ok s' T q'"
  unfolding sl_ok_def
proof (intro conjI ballI)
  fix x assume x: "x \<in> T"
  show "if queued s' q' x then st s' x \<in> {SL_THD_RUNNABLE, SL_THD_WOKEN} else st s' x = SL_THD_BLOCKED"
  proof (cases "x = t")
    case True
    with assms(6,7) show ?thesis by auto
  next
    case False
    with assms(4,5) x sl_okD(2,3) [OF assms(1) x] show ?thesis by simp
  qed
qed (rule assms(2))

lemma queued_dequeued:
  assumes "fprr_ok (sl_policy s) T q" and "x \<in> T" and "f_priority (sl_policy s') = f_priority (sl_policy s)"
  shows "queued s' (dequeued t q) x \<longleftrightarrow> queued s q x \<and> x \<noteq> t"
  using dequeued_mem [OF assms(1) fprr_okD(4) [OF assms(1,2)]] by (simp add: queued_def assms(3))

lemma queued_enqueued:
  assumes "f_priority (sl_policy s') = f_priority (sl_policy s)"
  shows "queued s' (enqueued (f_priority (sl_policy s) t) t q) x \<longleftrightarrow> queued s q x \<or> x = t"
  by (auto simp: queued_def enqueued_def assms)

subsection \<open>Runs of block and wakeup\<close>

lemma block_runs:
  assumes "sl_ok s T q" and "unlocked s" and "running k s T t" and "timer_fine k s"
    and "st s t = SL_THD_RUNNABLE" and "top_thread (dequeued t q) u"
  obtains s' w where "sl_thd_block k 0 s =
      Inr (SlSwitched, [Switch (t_thdcap (sl_threads s u)) (t_prio (sl_threads s u)) w], s') \<and>
    sl_ok s' T (dequeued t q) \<and> unlocked s' \<and> st s' t = SL_THD_BLOCKED \<and>
    (\<forall>x. x \<noteq> t \<longrightarrow> sl_threads s' x = sl_threads s x)"
proof -
  have t: "t \<in> T" using assms(3) by (simp add: running_def)
  note ok = sl_okD(1) [OF assms(1)]
  let ?s0 = "s\<lparr>cs_owner := t_thdcap (sl_threads s t)\<rparr>"
  let ?s1 = "upd_thd t (\<lambda>x. x\<lparr>t_state := SL_THD_BLOCKED\<rparr>) ?s0"
  let ?s2 = "?s1\<lparr>sl_policy := sl_mod_block t (sl_policy ?s1)\<rparr>"
  have bok: "fprr_ok (sl_policy ?s2) T (dequeued t q)" using block_ok [OF ok t] by simp
  have "running k ?s2 T t" "timer_fine k ?s2" "cs_owner ?s2 = t_thdcap (sl_threads ?s2 t)"
    "\<not> cs_contention ?s2"
    using assms(2-4) by (simp_all add: running_def timer_fine_def timer_expired_def unlocked_def)
  from exit_schedule_top [OF bok assms(6) this] obtain n w where
    x: "sl_cs_exit_schedule k ?s2 =
      Inr (SlSwitched, [Switch (t_thdcap (sl_threads ?s2 u)) (t_prio (sl_threads ?s2 u)) w],
      ?s2\<lparr>timer_next := n, timeout_next := w, cs_owner := 0, cs_contention := False\<rparr>)"
    by blast
  let ?s3 = "?s2\<lparr>timer_next := n, timeout_next := w, cs_owner := 0, cs_contention := False\<rparr>"
  have r: "sl_thd_block k 0 s =
      Inr (SlSwitched, [Switch (t_thdcap (sl_threads s u)) (t_prio (sl_threads s u)) w], ?s3)"
    using x assms(5) by (simp add: sl_thd_block_def in_cs_free [OF assms(2,3)] Let_def
        sl_thd_curr_running [OF assms(3)])
  have prio: "f_priority (sl_policy ?s3) = f_priority (sl_policy s)" by (simp add: sl_mod_block_def)
  have "sl_ok ?s3 T (dequeued t q)"
    by (rule sl_ok_change [OF assms(1), where t = t])
      (use bok prio queued_dequeued [OF ok _ prio] t in auto)
  with r show thesis by (intro that [of w ?s3]) (auto simp: unlocked_def)
qed

lemma wakeup_runs:
  assumes "sl_ok s T q" and "unlocked s" and "running k s T t" and "timer_fine k s"
    and "v \<in> T" and "v < max_num_threads k" and "st s v = SL_THD_BLOCKED"
    and "top_thread (enqueued (f_priority (sl_policy s) v) v q) u"
  obtains s' w where "sl_thd_wakeup k v s =
      Inr (SlSwitched, [Switch (t_thdcap (sl_threads s u)) (t_prio (sl_threads s u)) w], s') \<and>
    sl_ok s' T (enqueued (f_priority (sl_policy s) v) v q) \<and> unlocked s' \<and> st s' v = SL_THD_RUNNABLE \<and>
    (\<forall>x. x \<noteq> v \<longrightarrow> sl_threads s' x = sl_threads s x)"
proof -
  note ok = sl_okD(1) [OF assms(1)]
  let ?q = "enqueued (f_priority (sl_policy s) v) v q"
  let ?s0 = "s\<lparr>cs_owner := t_thdcap (sl_threads s t)\<rparr>"
  let ?s1 = "upd_thd v (\<lambda>x. x\<lparr>t_state := SL_THD_RUNNABLE\<rparr>) ?s0"
  have nq: "\<not> queued s q v" using sl_ok_queued [OF assms(1,5)] assms(7) by simp
  then obtain f where f: "sl_mod_wakeup v (sl_policy s) = Inr f" "fprr_ok f T ?q"
    "f_priority f = f_priority (sl_policy s)"
    using wakeup_ok [OF ok assms(5)] by (auto simp: queued_def)
  let ?s2 = "?s1\<lparr>sl_policy := f\<rparr>"
  have "running k ?s2 T t" "timer_fine k ?s2" "cs_owner ?s2 = t_thdcap (sl_threads ?s2 t)"
    "\<not> cs_contention ?s2"
    using assms(2-4) by (auto simp: running_def timer_fine_def timer_expired_def unlocked_def)
  moreover have "fprr_ok (sl_policy ?s2) T ?q" using f(2) by simp
  ultimately obtain n w where
    x: "sl_cs_exit_schedule k ?s2 =
      Inr (SlSwitched, [Switch (t_thdcap (sl_threads ?s2 u)) (t_prio (sl_threads ?s2 u)) w],
      ?s2\<lparr>timer_next := n, timeout_next := w, cs_owner := 0, cs_contention := False\<rparr>)"
    using exit_schedule_top [OF _ assms(8)] by blast
  let ?s3 = "?s2\<lparr>timer_next := n, timeout_next := w, cs_owner := 0, cs_contention := False\<rparr>"
  have lk: "sl_thd_lkup k v = Inr v"
    using assms(6) by (simp add: sl_thd_lkup_def sl_thd_lookup_backend_def)
  have r: "sl_thd_wakeup k v s =
      Inr (SlSwitched, [Switch (t_thdcap (sl_threads s u)) (t_prio (sl_threads s u)) w], ?s3)"
    using x assms(7) f(1) lk by (simp add: sl_thd_wakeup_def in_cs_free [OF assms(2,3)] Let_def)
  have prio: "f_priority (sl_policy ?s3) = f_priority (sl_policy s)" using f(3) by simp
  have "sl_ok ?s3 T ?q"
    by (rule sl_ok_change [OF assms(1), where t = v])
      (use f(2) prio queued_enqueued [OF prio] in auto)
  with r show thesis by (intro that [of w ?s3]) (auto simp: unlocked_def)
qed

text \<open>The yields: to the top of the queues, behind which the thread goes, and to a thread directly.\<close>

lemma yield_runs:
  assumes "fprr_ok (sl_policy s) T q" and "unlocked s" and "running k s T t" and "timer_fine k s"
    and "top_thread (enqueued (f_priority (sl_policy s) t) t (dequeued t q)) u"
  obtains f n w where "sl_thd_yield k 0 s =
      Inr (SlSwitched, [Switch (t_thdcap (sl_threads s u)) (t_prio (sl_threads s u)) w],
        s\<lparr>sl_policy := f, timer_next := n, timeout_next := w, cs_owner := 0, cs_contention := False\<rparr>)"
    and "fprr_ok f T (enqueued (f_priority (sl_policy s) t) t (dequeued t q))"
    and "f_priority f = f_priority (sl_policy s)" and "timer_after k s n"
proof -
  have t: "t \<in> T" using assms(3) by (simp add: running_def)
  let ?q = "enqueued (f_priority (sl_policy s) t) t (dequeued t q)"
  let ?s0 = "s\<lparr>cs_owner := t_thdcap (sl_threads s t)\<rparr>"
  from yield_ok [OF assms(1) t] obtain f where f: "sl_mod_yield t (sl_policy s) = Inr f"
    "fprr_ok f T ?q" "f_priority f = f_priority (sl_policy s)" by blast
  let ?s2 = "?s0\<lparr>sl_policy := f\<rparr>"
  have "running k ?s2 T t" "timer_fine k ?s2" "cs_owner ?s2 = t_thdcap (sl_threads ?s2 t)"
    "\<not> cs_contention ?s2"
    using assms(2-4) by (auto simp: running_def timer_fine_def timer_expired_def unlocked_def)
  moreover have "fprr_ok (sl_policy ?s2) T ?q" using f(2) by simp
  ultimately obtain n w where x: "sl_cs_exit_schedule k ?s2 =
      Inr (SlSwitched, [Switch (t_thdcap (sl_threads ?s2 u)) (t_prio (sl_threads ?s2 u)) w],
      ?s2\<lparr>timer_next := n, timeout_next := w, cs_owner := 0, cs_contention := False\<rparr>)" "timer_after k ?s2 n"
    using exit_schedule_top [OF _ assms(5)] by blast
  with f show thesis
    by (intro that [of w n f]) (simp_all add: timer_after_def sl_thd_yield_def in_cs_free [OF assms(2,3)]
      sl_thd_curr_running [OF assms(3)])
qed

lemma directed_yield_runs:
  assumes "unlocked s" and "running k s T t" and "timer_fine k s"
    and "v \<noteq> 0" and "v < max_num_threads k" and "st s v = SL_THD_RUNNABLE"
  obtains n w where "sl_thd_yield k v s =
      Inr (SlSwitched, [Switch (t_thdcap (sl_threads s v)) (t_prio (sl_threads s v)) w],
        s\<lparr>timer_next := n, timeout_next := w, cs_owner := 0, cs_contention := False\<rparr>)"
    and "timer_after k s n"
proof -
  let ?s0 = "s\<lparr>cs_owner := t_thdcap (sl_threads s t)\<rparr>"
  have "pick_thread (Some v) ?s0 = Inr v" "running k ?s0 T t" "timer_fine k ?s0"
    "cs_owner ?s0 = t_thdcap (sl_threads ?s0 t)" "\<not> cs_contention ?s0"
    using assms by (auto simp: pick_thread_def running_def timer_fine_def timer_expired_def unlocked_def)
  from exit_schedule_to [OF this] obtain n w where
    x: "sl_cs_exit_schedule_nospin_arg k (Some v) ?s0 =
      Inr (SlSwitched, [Switch (t_thdcap (sl_threads ?s0 v)) (t_prio (sl_threads ?s0 v)) w],
      ?s0\<lparr>timer_next := n, timeout_next := w, cs_owner := 0, cs_contention := False\<rparr>)" "timer_after k ?s0 n"
    by blast
  have "sl_thd_lkup k v = Inr v" using assms(5) by (simp add: sl_thd_lkup_def sl_thd_lookup_backend_def)
  with x assms(4) show thesis
    by (intro that [of w n]) (simp_all add: sl_thd_yield_def in_cs_free [OF assms(1,2)]
      sl_thd_curr_running [OF assms(2)] sl_cs_exit_switchto_def timer_after_def)
qed

subsection \<open>Properties\<close>

text \<open>C19: when the running thread blocks, it leaves its queue, its state is BLOCKED, the lock is free
  again, and the switch goes to the first thread of the highest ready priority; no other thread
  changes.\<close>

theorem sl_thd_block_switches:
  assumes "sl_ok s T q" and "unlocked s" and "running k s T t" and "timer_fine k s"
    and "st s t = SL_THD_RUNNABLE" and "top_thread (dequeued t q) u"
  shows "\<exists>s' w. sl_thd_block k 0 s =
      Inr (SlSwitched, [Switch (t_thdcap (sl_threads s u)) (t_prio (sl_threads s u)) w], s') \<and>
    sl_ok s' T (dequeued t q) \<and> unlocked s' \<and> st s' t = SL_THD_BLOCKED \<and>
    (\<forall>x. x \<noteq> t \<longrightarrow> sl_threads s' x = sl_threads s x)"
  by (rule block_runs [OF assms]) blast

text \<open>C20: waking a blocked thread puts it at the end of the queue of its priority and switches to the
  first thread of the highest ready priority, which may be the woken one; the lock is free
  again.\<close>

theorem sl_thd_wakeup_readies:
  assumes "sl_ok s T q" and "unlocked s" and "running k s T t" and "timer_fine k s"
    and "v \<in> T" and "v < max_num_threads k" and "st s v = SL_THD_BLOCKED"
    and "top_thread (enqueued (f_priority (sl_policy s) v) v q) u"
  shows "\<exists>s' w. sl_thd_wakeup k v s =
      Inr (SlSwitched, [Switch (t_thdcap (sl_threads s u)) (t_prio (sl_threads s u)) w], s') \<and>
    sl_ok s' T (enqueued (f_priority (sl_policy s) v) v q) \<and> unlocked s' \<and> st s' v = SL_THD_RUNNABLE \<and>
    (\<forall>x. x \<noteq> v \<longrightarrow> sl_threads s' x = sl_threads s x)"
  by (rule wakeup_runs [OF assms]) blast


text \<open>A yield keeps the running thread ready but moves it behind the other threads of its
  priority; the switch goes to the thread that is then first.\<close>

theorem sl_thd_yield_requeues:
  assumes "sl_ok s T q" and "unlocked s" and "running k s T t" and "timer_fine k s"
    and "queued s q t" and "top_thread (enqueued (f_priority (sl_policy s) t) t (dequeued t q)) u"
  shows "\<exists>s' w. sl_thd_yield k 0 s =
      Inr (SlSwitched, [Switch (t_thdcap (sl_threads s u)) (t_prio (sl_threads s u)) w], s') \<and>
    sl_ok s' T (enqueued (f_priority (sl_policy s) t) t (dequeued t q)) \<and> unlocked s' \<and>
    sl_threads s' = sl_threads s"
proof -
  have t: "t \<in> T" using assms(3) by (simp add: running_def)
  note ok = sl_okD(1) [OF assms(1)]
  let ?q = "enqueued (f_priority (sl_policy s) t) t (dequeued t q)"
  from yield_runs [OF ok assms(2-4,6)] obtain f n w where
    r: "sl_thd_yield k 0 s = Inr (SlSwitched, [Switch (t_thdcap (sl_threads s u)) (t_prio (sl_threads s u)) w],
        s\<lparr>sl_policy := f, timer_next := n, timeout_next := w, cs_owner := 0, cs_contention := False\<rparr>)"
    and f: "fprr_ok f T ?q" "f_priority f = f_priority (sl_policy s)" by blast
  let ?s3 = "s\<lparr>sl_policy := f, timer_next := n, timeout_next := w, cs_owner := 0, cs_contention := False\<rparr>"
  have p0: "f_priority (sl_policy s) = f_priority (sl_policy s)" by simp
  have "queued ?s3 ?q x \<longleftrightarrow> queued s q x" if "x \<in> T" for x
    using queued_enqueued [of ?s3 s t "dequeued t q" x] queued_dequeued [OF ok that p0, of t] f(2) assms(5)
    by auto
  then have "sl_ok ?s3 T ?q" using f(1) sl_okD(2,3) [OF assms(1)] by (auto simp: sl_ok_def)
  with r show ?thesis by (intro exI [of _ ?s3] exI [of _ w]) (auto simp: unlocked_def)
qed

text \<open>C32: a wakeup that comes before the block it is meant for is not lost: it marks the thread WOKEN,
  and the thread's block then returns at once without giving up the processor, RUNNABLE, with the
  queues and the lock as they were. (A second early wakeup, however, stops at the assertion
  of \<open>sl_thd_wakeup\<close>, which expects BLOCKED there.)\<close>

theorem early_wakeup_not_lost:
  assumes "sl_ok s T q" and "unlocked s" and "running k1 s T t1" and "running k2 s T t"
    and "t < max_num_threads k1" and "st s t = SL_THD_RUNNABLE"
  shows "\<exists>s1 s2. sl_thd_wakeup k1 t s = Inr (SlReturned, [], s1) \<and> st s1 t = SL_THD_WOKEN \<and>
    sl_thd_wakeup k1 t s1 = Inl AssertFail \<and>
    sl_thd_block k2 0 s1 = Inr (SlReturned, [], s2) \<and> st s2 t = SL_THD_RUNNABLE \<and>
    sl_ok s2 T q \<and> unlocked s2"
proof -
  let ?w = "\<lambda>x. x\<lparr>t_state := SL_THD_WOKEN\<rparr>" and ?r = "\<lambda>x. x\<lparr>t_state := SL_THD_RUNNABLE\<rparr>"
  let ?l1 = "s\<lparr>cs_owner := t_thdcap (sl_threads s t1)\<rparr>"
  let ?s1 = "(upd_thd t ?w ?l1)\<lparr>cs_owner := 0, cs_contention := False\<rparr>"
  let ?l2 = "?s1\<lparr>cs_owner := t_thdcap (sl_threads ?s1 t)\<rparr>"
  let ?s2 = "(upd_thd t ?r ?l2)\<lparr>cs_owner := 0, cs_contention := False\<rparr>"
  have u: "\<not> cs_contention s" using assms(2) by (simp add: unlocked_def)
  have lk: "sl_thd_lkup k1 t = Inr t"
    using assms(5) by (simp add: sl_thd_lkup_def sl_thd_lookup_backend_def)
  have u1: "unlocked ?s1" by (simp add: unlocked_def)
  have r1: "running k1 ?s1 T t1" "running k2 ?s1 T t" using assms(3,4) by (auto simp: running_def)
  have "sl_thd_wakeup k1 t s = Inr (SlReturned, [], ?s1)"
    using lk assms(6) u by (simp add: sl_thd_wakeup_def in_cs_free [OF assms(2,3)] cs_leave_def sl_cs_exit_def)
  moreover have "sl_thd_wakeup k1 t ?s1 = Inl AssertFail"
    using lk by (simp add: sl_thd_wakeup_def in_cs_free [OF u1 r1(1)])
  moreover have "sl_thd_block k2 0 ?s1 = Inr (SlReturned, [], ?s2)"
    by (simp add: sl_thd_block_def in_cs_free [OF u1 r1(2)] sl_thd_curr_running [OF assms(4)]
        cs_leave_def sl_cs_exit_def)
  moreover have "sl_threads ?s2 = sl_threads s" using assms(6) by (auto simp: fun_eq_iff)
  then have "sl_ok ?s2 T q" using assms(1) sl_ok_cong [of ?s2 s] by simp
  ultimately show ?thesis by (intro exI [of _ ?s1] exI [of _ ?s2]) (simp add: unlocked_def)
qed

text \<open>When the only ready thread blocks, the scheduler stops at the assertion of the policy, with
  the thread already BLOCKED: the idle thread, which is in no queue, is never chosen.\<close>

theorem last_thread_cannot_block:
  assumes "sl_ok s T q" and "unlocked s" and "running k s T t" and "timer_fine k s"
    and "st s t = SL_THD_RUNNABLE" and "\<forall>p<SL_FPRR_NPRIOS. \<forall>x\<in>set (q p). x = t"
  shows "sl_thd_block k 0 s = Inl AssertFail"
proof -
  have t: "t \<in> T" using assms(3) by (simp add: running_def)
  note ok = sl_okD(1) [OF assms(1)]
  let ?s0 = "s\<lparr>cs_owner := t_thdcap (sl_threads s t)\<rparr>"
  let ?s1 = "upd_thd t (\<lambda>x. x\<lparr>t_state := SL_THD_BLOCKED\<rparr>) ?s0"
  let ?s2 = "?s1\<lparr>sl_policy := sl_mod_block t (sl_policy ?s1)\<rparr>"
  have "\<forall>p<SL_FPRR_NPRIOS. dequeued t q p = []"
  proof (intro allI impI)
    fix p assume p: "p < SL_FPRR_NPRIOS"
    have "set (dequeued t q p) = {}" using dequeued_mem [OF ok p, of t] assms(6) p by auto
    then show "dequeued t q p = []" by simp
  qed
  from fprr.sched_none [OF block_ok [OF ok t] this]
  have none: "sl_mod_schedule (sl_mod_block t (sl_policy s)) = Inl AssertFail" .
  have "timer_fine k ?s2" using assms(4) by (simp add: timer_fine_def timer_expired_def)
  from timeout_check_ok [OF this] obtain n w where
    "timeout_check k ?s2 = Inr (?s2\<lparr>timer_next := n, timeout_next := w\<rparr>)" .
  then show ?thesis using none assms(5)
    by (simp add: sl_thd_block_def in_cs_free [OF assms(2,3)] sl_thd_curr_running [OF assms(3)] Let_def
        sl_cs_exit_schedule_def sl_cs_exit_schedule_nospin_def sl_cs_exit_schedule_nospin_arg_def
        sl_cs_owner_def exit_schedule_locked_def pick_thread_def)
qed

subsection \<open>A system of two threads\<close>

definition sl_ex :: "fprr \<Rightarrow> sl_sys" where
  "sl_ex f = sl_timer.extend timer_ex (sl_sys.fields
     (\<lambda>t. \<lparr>t_state = SL_THD_RUNNABLE, t_thdid = t, t_thdcap = t + 100, t_prio = 10\<rparr>)
     f 0 False 50 0 7)"

lemma sl_ex_sel [simp]:
  "sl_policy (sl_ex f) = f" "cs_owner (sl_ex f) = 0" "\<not> cs_contention (sl_ex f)"
  "sl_threads (sl_ex f) = (\<lambda>t. \<lparr>t_state = SL_THD_RUNNABLE, t_thdid = t, t_thdcap = t + 100, t_prio = 10\<rparr>)"
  "timer_next (sl_ex f) = 1000" "period (sl_ex f) = 200"
  by (simp_all add: sl_ex_def sl_timer.defs sl_sys.defs timer_ex_def)

text \<open>Thread 1 runs, thread 2 is behind it in the queue of priority 10.\<close>

lemma sl_ex_reached:
  obtains f where "sl_ok (sl_ex f) {1, 2} two_ready" and "unlocked (sl_ex f)"
    and "running env_ex (sl_ex f) {1, 2} 1" and "timer_fine env_ex (sl_ex f)"
    and "f_priority f 1 = 10" and "f_priority f 2 = 10"
proof -
  obtain f where f: "fprr_ok f {1, 2} two_ready" "f_priority f 1 = 10" "f_priority f 2 = 10"
    using two_ready_reached by blast
  have "sl_ok (sl_ex f) {1, 2} two_ready"
    using f by (simp add: sl_ok_def queued_def two_ready_def)
  moreover have "unlocked (sl_ex f)" "running env_ex (sl_ex f) {1, 2} 1" "timer_fine env_ex (sl_ex f)"
    by (simp_all add: unlocked_def running_def env_ex_def timer_fine_def timer_expired_def sl_now_def)
  ultimately show thesis using that f by blast
qed

lemma top_two: "top_thread (two_ready(10 := 2 # ts)) 2"
  by (auto simp: top_thread_def two_ready_def SL_FPRR_NPRIOS_def)

lemma two_ready_moves:
  "dequeued 1 two_ready = two_ready(10 := [2])"
  "enqueued 10 1 (dequeued 1 two_ready) = two_ready(10 := [2, 1])"
  by (auto simp: enqueued_def dequeued_def two_ready_def)

theorem sl_thd_block_switches_witness:
  "\<exists>f s' w. sl_thd_block env_ex 0 (sl_ex f) = Inr (SlSwitched, [Switch 102 10 w], s') \<and>
     sl_ok s' {1, 2} (two_ready(10 := [2])) \<and> unlocked s' \<and> st s' 1 = SL_THD_BLOCKED"
proof -
  obtain f where f: "sl_ok (sl_ex f) {1, 2} two_ready" "unlocked (sl_ex f)"
    "running env_ex (sl_ex f) {1, 2} 1" "timer_fine env_ex (sl_ex f)" by (rule sl_ex_reached)
  from sl_thd_block_switches [OF f, of 2] top_two [of "[]"] show ?thesis
    by (simp only: two_ready_moves) (auto simp: two_ready_moves)
qed

theorem sl_thd_yield_requeues_witness:
  "\<exists>f s' w. sl_thd_yield env_ex 0 (sl_ex f) = Inr (SlSwitched, [Switch 102 10 w], s') \<and>
     sl_ok s' {1, 2} (two_ready(10 := [2, 1]))"
proof -
  obtain f where f: "sl_ok (sl_ex f) {1, 2} two_ready" "unlocked (sl_ex f)"
    "running env_ex (sl_ex f) {1, 2} 1" "timer_fine env_ex (sl_ex f)" and p: "f_priority f 1 = 10"
    by (rule sl_ex_reached)
  have "queued (sl_ex f) two_ready 1" using p by (simp add: queued_def two_ready_def)
  from sl_thd_yield_requeues [OF f this, of 2] p top_two [of "[1]"] two_ready_moves(2) show ?thesis
    by simp blast
qed

theorem early_wakeup_not_lost_witness:
  "\<exists>f s1 s2. sl_thd_wakeup (env_ex\<lparr>cos_thdid := 2\<rparr>) 1 (sl_ex f) = Inr (SlReturned, [], s1) \<and>
     sl_thd_block env_ex 0 s1 = Inr (SlReturned, [], s2) \<and> st s2 1 = SL_THD_RUNNABLE"
proof -
  obtain f where f: "sl_ok (sl_ex f) {1, 2} two_ready" "unlocked (sl_ex f)"
    "running env_ex (sl_ex f) {1, 2} 1" by (rule sl_ex_reached)
  have "running (env_ex\<lparr>cos_thdid := 2\<rparr>) (sl_ex f) {1, 2} 2" by (simp add: running_def env_ex_def)
  from early_wakeup_not_lost [OF f(1,2) this f(3)] show ?thesis by (auto simp: env_ex_def)
qed


text \<open>Thread 1 is blocked and thread 2 runs.\<close>

definition sleepy_ex :: "fprr \<Rightarrow> sl_sys" where
  "sleepy_ex f = (upd_thd 1 (\<lambda>x. x\<lparr>t_state := SL_THD_BLOCKED\<rparr>) (sl_ex f))\<lparr>sl_policy := sl_mod_block 1 f\<rparr>"

definition env2_ex :: cos_env where
  "env2_ex = env_ex\<lparr>cos_thdid := 2\<rparr>"

lemma sleepy_ex_reached:
  obtains f where "sl_ok (sleepy_ex f) {1, 2} (two_ready(10 := [2]))" and "unlocked (sleepy_ex f)"
    and "running env2_ex (sleepy_ex f) {1, 2} 2" and "timer_fine env2_ex (sleepy_ex f)"
    and "f_priority (sl_policy (sleepy_ex f)) 1 = 10"
proof -
  obtain f where f: "fprr_ok f {1, 2} two_ready" "f_priority f 1 = 10" "f_priority f 2 = 10"
    using two_ready_reached by blast
  have b: "fprr_ok (sl_mod_block 1 f) {1, 2} (two_ready(10 := [2]))"
    using block_ok [OF f(1), of 1] two_ready_moves(1) by simp
  have p: "f_priority (sl_mod_block 1 f) = f_priority f" by (simp add: sl_mod_block_def)
  have "sl_ok (sleepy_ex f) {1, 2} (two_ready(10 := [2]))"
    using b f(2,3) p by (simp add: sl_ok_def queued_def sleepy_ex_def)
  moreover have "unlocked (sleepy_ex f)" "running env2_ex (sleepy_ex f) {1, 2} 2"
    "timer_fine env2_ex (sleepy_ex f)" "f_priority (sl_policy (sleepy_ex f)) 1 = 10"
    using f(2) p by (simp_all add: unlocked_def running_def env_ex_def env2_ex_def timer_fine_def
        timer_expired_def sl_now_def sleepy_ex_def)
  ultimately show thesis using that by blast
qed

theorem sl_thd_wakeup_readies_witness:
  "\<exists>f s' w. sl_thd_wakeup env2_ex 1 (sleepy_ex f) = Inr (SlSwitched, [Switch 102 10 w], s') \<and>
     sl_ok s' {1, 2} (two_ready(10 := [2, 1])) \<and> unlocked s' \<and> st s' 1 = SL_THD_RUNNABLE"
proof -
  obtain f where f: "sl_ok (sleepy_ex f) {1, 2} (two_ready(10 := [2]))" "unlocked (sleepy_ex f)"
    "running env2_ex (sleepy_ex f) {1, 2} 2" "timer_fine env2_ex (sleepy_ex f)"
    and p: "f_priority (sl_policy (sleepy_ex f)) 1 = 10" by (rule sleepy_ex_reached)
  have e: "enqueued 10 1 (two_ready(10 := [2])) = two_ready(10 := [2, 1])"
    by (auto simp: enqueued_def two_ready_def)
  have "(1 :: nat) \<in> {1, 2}" "1 < max_num_threads env2_ex" "st (sleepy_ex f) 1 = SL_THD_BLOCKED"
    "top_thread (enqueued (f_priority (sl_policy (sleepy_ex f)) 1) 1 (two_ready(10 := [2]))) 2"
    using top_two [of "[1]"] by (simp_all only: p e, simp_all add: env2_ex_def env_ex_def sleepy_ex_def)
  from sl_thd_wakeup_readies [OF f this] show ?thesis
    by (simp only: p e) (auto simp: sleepy_ex_def)
qed

theorem last_thread_cannot_block_witness:
  "\<exists>f. sl_thd_block env2_ex 0 (sleepy_ex f) = Inl AssertFail"
proof -
  obtain f where f: "sl_ok (sleepy_ex f) {1, 2} (two_ready(10 := [2]))" "unlocked (sleepy_ex f)"
    "running env2_ex (sleepy_ex f) {1, 2} 2" "timer_fine env2_ex (sleepy_ex f)"
    by (rule sleepy_ex_reached)
  have "sl_thd_block env2_ex 0 (sleepy_ex f) = Inl AssertFail"
    by (rule last_thread_cannot_block [OF f]) (auto simp: sleepy_ex_def two_ready_def)
  then show ?thesis by blast
qed

end
