(* ===== verification/ChannelDev.thy ===== *)
theory ChannelDev
  imports LwtDev ChanFlow SlThd
begin

text \<open>
  The channels of the kernel-thread port, \<open>scheddev/channel.c\<close>, and the kernel threads that run
  lightweight threads. Each kernel thread has a run queue of its own, whose first member is the
  thread that \<open>__kthd_entry\<close> makes for itself; \<open>current_thread\<close> is one variable for all of them.
  The state adds the scheduler of the kernel threads (\<open>s_kern\<close>) and the parameter blocks.

  A send may wake the kernel thread of the receiver; \<open>wake\<close> records whether it did and what
  \<open>sl_thd_wakeup\<close> reported. The kernel parameters are those of \<open>SlThd\<close>.
\<close>

record kthd_param =
  kp_kthd :: nat
  kp_lwt :: addr
  kp_fn :: addr
  kp_c :: addr
  kp_d :: addr

record kthd_sys = dev_sys +
  s_kern :: sl_sys
  s_kp :: "addr \<Rightarrow> kthd_param"

datatype wake = NoWake | Wake sl_out "switch list"

definition SIZEOF_KTHD_PARAM :: int where
  "SIZEOF_KTHD_PARAM = 20"

definition KTHD_PRIO :: nat where
  "KTHD_PRIO = 10"

subsection \<open>Ring buffers from the pool of the port\<close>

definition dev_rbuf_init :: "kheap \<Rightarrow> (nat \<Rightarrow> addr) \<Rightarrow> u32 \<Rightarrow> ((addr \<times> rbuf) \<times> kheap) result" where
  "dev_rbuf_init h junk capacity =
     rbind (dev_kalloc h SIZEOF_RBUF) (\<lambda>(rb, h1).
     rbind (assertion (rb \<noteq> NULL)) (\<lambda>_.
     let cap = (if 0 = capacity then INFINITE_CAP + 1 else capacity + 1) in
     rbind (dev_kalloc h1 (rbuf_bytes cap)) (\<lambda>(b, h2).
     rbind (assertion (b \<noteq> NULL)) (\<lambda>_.
       Inr ((rb, \<lparr>rb_buf = b, rb_mem = junk, rb_slots = nat (rbuf_bytes cap) div 4,
                  rb_head = 0, rb_tail = 0, rb_capacity = cap\<rparr>), h2)))))"

definition dev_rbuf_free :: "kheap \<Rightarrow> addr \<Rightarrow> rbuf \<Rightarrow> kheap result" where
  "dev_rbuf_free h rb r =
     rbind (assertion (rb \<noteq> NULL)) (\<lambda>_.
     rbind (dev_kfree h (rb_buf r) (rbuf_bytes (rb_capacity r))) (\<lambda>h1.
       dev_kfree h1 rb SIZEOF_RBUF))"

subsection \<open>Channels\<close>

definition dev_lwt_chan :: "(nat \<Rightarrow> addr) \<Rightarrow> int \<Rightarrow> 'z chan_sys_scheme \<Rightarrow>
    (addr \<times> 'z chan_sys_scheme) result" where
  "dev_lwt_chan junk sz s =
     rbind (assertion (0 \<le> sz)) (\<lambda>_.
     rbind (dev_kalloc (s_kheap s) SIZEOF_CHANNEL) (\<lambda>(c, h1).
     rbind (assertion (c \<noteq> NULL)) (\<lambda>_.
     rbind (dev_rbuf_init h1 junk (word_of_int sz)) (\<lambda>((rb, r), h2).
       Inr (c, (upd_chan c (\<lambda>ch. ch\<lparr>c_size := sz, c_snd_cnt := 0, c_id := lwt_chanid_counter s,
                  c_rbuf := rb, c_rcv_thd := current_thread s, c_cgrp := NULL, c_mark := NULL\<rparr>) s)
            \<lparr>s_kheap := h2, s_rbuf := (s_rbuf s)(rb := r),
             lwt_chanid_counter := lwt_chanid_counter s + 1, n_chan := n_chan s + 1\<rparr>)))))"

definition dev_lwt_chan_deref :: "addr \<Rightarrow> 'z chan_sys_scheme \<Rightarrow> 'z chan_sys_scheme result" where
  "dev_lwt_chan_deref c s =
     rbind (assertion (c \<noteq> NULL)) (\<lambda>_.
     if c_rcv_thd (s_chan s c) = current_thread s \<and> c_snd_cnt (s_chan s c) = 0 then
       let s1 = upd_chan c (\<lambda>ch. ch\<lparr>c_rcv_thd := NULL\<rparr>) s in
       rbind (dev_rbuf_free (s_kheap s1) (c_rbuf (s_chan s1 c)) (rbuf_of s1 c)) (\<lambda>h1.
       rbind (dev_kfree h1 c SIZEOF_CHANNEL) (\<lambda>h2.
         Inr ((upd_chan c (\<lambda>ch. ch\<lparr>c_rbuf := NULL\<rparr>) s1)\<lparr>s_kheap := h2\<rparr>)))
     else Inr (upd_chan c (\<lambda>ch. ch\<lparr>c_snd_cnt := c_snd_cnt ch - 1\<rparr>) s))"

text \<open>The end of \<open>lwt_snd\<close>: wake the kernel thread of the receiver if it is blocked.\<close>

definition wake_receiver :: "cos_env \<Rightarrow> addr \<Rightarrow> kthd_sys \<Rightarrow> (wake \<times> kthd_sys) result" where
  "wake_receiver k c s =
     (let r = c_rcv_thd (s_chan s c) in
      if r = NULL then Inl NullDeref
      else
        rbind (sl_thd_lkup k (s_kid s r)) (\<lambda>tt.
        if st (s_kern s) tt = SL_THD_BLOCKED then
          rbind (sl_thd_wakeup k (s_kid s r) (s_kern s)) (\<lambda>(o1, ws, kern).
            Inr (Wake o1 ws, s\<lparr>s_kern := kern\<rparr>))
        else Inr (NoWake, s)))"

definition dev_snd_write :: "cos_env \<Rightarrow> addr \<Rightarrow> addr \<Rightarrow> kthd_sys \<Rightarrow>
    ((int \<times> wake) outcome \<times> kthd_sys) result" where
  "dev_snd_write k c data s =
     (let s1 = s\<lparr>n_snding := n_snding s + 1\<rparr> in
      rbind (dev_kalloc (s_kheap s1) SIZEOF_MSG) (\<lambda>(t, h).
      if t = NULL then Inl NullDeref
      else
        let s2 = s1\<lparr>s_kheap := h,
                    s_msg := (s_msg s1)(t := \<lparr>m_data = data, m_thd = current_thread s1\<rparr>)\<rparr> in
        rbind (rbuf_write (rbuf_of s2 c) t) (\<lambda>(w, rb).
        rbind (assertion (w = WRITERBUF_OK)) (\<lambda>_.
          let s3 = s2\<lparr>s_rbuf := (s_rbuf s2)(c_rbuf (s_chan s2 c) := rb)\<rparr>;
              s4 = upd_chan c (\<lambda>ch. ch\<lparr>c_snd_cnt := c_snd_cnt ch + 1\<rparr>) s3
          in rbind (wake_receiver k c (s4\<lparr>n_snding := n_snding s4 - 1\<rparr>)) (\<lambda>(v, s5).
               Inr (Returned (0, v), s5))))))"

definition dev_lwt_snd_resume :: "cos_env \<Rightarrow> addr \<Rightarrow> addr \<Rightarrow> kthd_sys \<Rightarrow>
    ((int \<times> wake) outcome \<times> kthd_sys) result" where
  "dev_lwt_snd_resume k c data s =
     waiting (\<lambda>s. rbuf_isfull (rbuf_of s c)) (dev_lwt_yield NULL) (dev_snd_write k c data) s"

definition dev_lwt_snd :: "cos_env \<Rightarrow> addr \<Rightarrow> addr \<Rightarrow> kthd_sys \<Rightarrow>
    ((int \<times> wake) outcome \<times> kthd_sys) result" where
  "dev_lwt_snd k c data s =
     rbind (assertion (data \<noteq> NULL \<and> c \<noteq> NULL)) (\<lambda>_.
     if c_rcv_thd (s_chan s c) = NULL then Inr (Returned (-1, NoWake), s)
     else dev_lwt_snd_resume k c data s)"

definition dev_rcv_read :: "addr \<Rightarrow> 'z chan_sys_scheme \<Rightarrow> (addr outcome \<times> 'z chan_sys_scheme) result" where
  "dev_rcv_read c s =
     (let s1 = s\<lparr>n_rcving := n_rcving s - 1\<rparr> in
      rbind (rbuf_read (rbuf_of s1 c)) (\<lambda>(m, rb).
      if m = NULL then Inl NullDeref
      else
        let s2 = s1\<lparr>s_rbuf := (s_rbuf s1)(c_rbuf (s_chan s1 c) := rb)\<rparr>;
            tmp = m_data (s_msg s2 m)
        in rbind (dev_kfree (s_kheap s2) m SIZEOF_MSG) (\<lambda>h. Inr (Returned tmp, s2\<lparr>s_kheap := h\<rparr>))))"

definition dev_lwt_rcv_resume :: "addr \<Rightarrow> 'z chan_sys_scheme \<Rightarrow>
    (addr outcome \<times> 'z chan_sys_scheme) result" where
  "dev_lwt_rcv_resume c s =
     waiting (\<lambda>s. rbuf_isempty (rbuf_of s c)) (dev_lwt_yield NULL) (dev_rcv_read c) s"

definition dev_lwt_rcv :: "addr \<Rightarrow> 'z chan_sys_scheme \<Rightarrow> (addr outcome \<times> 'z chan_sys_scheme) result" where
  "dev_lwt_rcv c s =
     rbind (assertion (c \<noteq> NULL)) (\<lambda>_.
     if c_rcv_thd (s_chan s c) = NULL then Inr (Returned NULL, s)
     else dev_lwt_rcv_resume c (s\<lparr>n_rcving := n_rcving s + 1\<rparr>))"

definition dev_lwt_snd_chan :: "cos_env \<Rightarrow> addr \<Rightarrow> addr \<Rightarrow> kthd_sys \<Rightarrow>
    ((int \<times> wake) outcome \<times> kthd_sys) result" where
  "dev_lwt_snd_chan k c sending s =
     (if sending = NULL then Inl NullDeref
      else dev_lwt_snd k c sending (upd_chan sending (\<lambda>ch. ch\<lparr>c_snd_cnt := c_snd_cnt ch + 1\<rparr>) s))"

definition dev_lwt_rcv_chan :: "addr \<Rightarrow> 'z chan_sys_scheme \<Rightarrow> (addr outcome \<times> 'z chan_sys_scheme) result" where
  "dev_lwt_rcv_chan c s = dev_lwt_rcv c s"

definition dev_lwt_create_chan :: "addr \<Rightarrow> addr \<Rightarrow> 'z dev_sys_scheme \<Rightarrow>
    (addr \<times> 'z dev_sys_scheme) result" where
  "dev_lwt_create_chan fn c s = dev_lwt_create fn c LWT_DEFAULT s"

definition dev_lwt_chan_mark_set :: "addr \<Rightarrow> addr \<Rightarrow> 'z chan_sys_scheme \<Rightarrow> 'z chan_sys_scheme result" where
  "dev_lwt_chan_mark_set c mark s =
     rbind (assertion (mark \<noteq> NULL)) (\<lambda>_.
       if c = NULL then Inl NullDeref else Inr (upd_chan c (\<lambda>ch. ch\<lparr>c_mark := mark\<rparr>) s))"

definition dev_lwt_chan_mark_get :: "addr \<Rightarrow> 'z chan_sys_scheme \<Rightarrow> addr result" where
  "dev_lwt_chan_mark_get c s =
     rbind (assertion (c \<noteq> NULL)) (\<lambda>_.
       if c_mark (s_chan s c) \<noteq> NULL then Inr (c_mark (s_chan s c)) else Inr NULL)"

subsection \<open>Channel groups\<close>

definition dev_lwt_cgrp :: "'z chan_sys_scheme \<Rightarrow> (addr \<times> 'z chan_sys_scheme) result" where
  "dev_lwt_cgrp s =
     rbind (dev_kalloc (s_kheap s) SIZEOF_CGRP) (\<lambda>(cg, h).
       if cg = NULL then Inr (NULL, s\<lparr>s_kheap := h\<rparr>)
       else Inr (cg, s\<lparr>s_kheap := h, s_chan_cnt := (s_chan_cnt s)(cg := 0),
                       s_tq := TAILQ_INIT cg (s_tq s)\<rparr>))"

definition dev_lwt_cgrp_free :: "addr \<Rightarrow> 'z chan_sys_scheme \<Rightarrow> (int \<times> 'z chan_sys_scheme) result" where
  "dev_lwt_cgrp_free cg s =
     rbind (assertion (cg \<noteq> NULL)) (\<lambda>_.
     if s_chan_cnt s cg \<noteq> 0 then Inr (-1, s)
     else rbind (dev_kfree (s_kheap s) cg SIZEOF_CGRP) (\<lambda>h. Inr (0, s\<lparr>s_kheap := h\<rparr>)))"

definition dev_lwt_cgrp_add :: "addr \<Rightarrow> addr \<Rightarrow> 'z chan_sys_scheme \<Rightarrow> (int \<times> 'z chan_sys_scheme) result" where
  "dev_lwt_cgrp_add cg c s =
     rbind (assertion (cg \<noteq> NULL)) (\<lambda>_.
     rbind (assertion (c \<noteq> NULL)) (\<lambda>_.
     if c_cgrp (s_chan s c) = NULL then
       let s1 = upd_chan c (\<lambda>ch. ch\<lparr>c_cgrp := cg\<rparr>) s
       in Inr (0, s1\<lparr>s_chan_cnt := (s_chan_cnt s1)(cg := s_chan_cnt s1 cg + 1),
                     s_tq := TAILQ_INSERT_TAIL cg c (s_tq s1)\<rparr>)
     else if c_cgrp (s_chan s c) = cg then Inr (0, s)
     else Inr (-1, s)))"

definition dev_lwt_cgrp_rem :: "addr \<Rightarrow> addr \<Rightarrow> 'z chan_sys_scheme \<Rightarrow> (int \<times> 'z chan_sys_scheme) result" where
  "dev_lwt_cgrp_rem cg c s =
     rbind (assertion (cg \<noteq> NULL)) (\<lambda>_.
     rbind (assertion (c \<noteq> NULL)) (\<lambda>_.
     if c_cgrp (s_chan s c) \<noteq> cg then Inr (-1, s)
     else if rbuf_isempty (rbuf_of s c) then
       Inr (0, s\<lparr>s_tq := TAILQ_REMOVE cg c (s_tq s),
                 s_chan_cnt := (s_chan_cnt s)(cg := s_chan_cnt s cg - 1)\<rparr>)
     else Inr (1, s)))"

partial_function (option) dev_cgrp_wait_loop ::
    "addr \<Rightarrow> 'z chan_sys_scheme \<Rightarrow> (addr outcome \<times> 'z chan_sys_scheme) result option" where
  "dev_cgrp_wait_loop cg s =
     (case cgrp_scan cg s of
        None \<Rightarrow> None
      | Some p \<Rightarrow>
          if p \<noteq> NULL then Some (Inr (Returned p, s))
          else (case dev_lwt_yield NULL s of
              Inl e \<Rightarrow> Some (Inl e)
            | Inr (r, s') \<Rightarrow> (case r of
                Switched \<Rightarrow> Some (Inr (Switched, s'))
              | Returned _ \<Rightarrow> dev_cgrp_wait_loop cg s')))"

definition dev_lwt_cgrp_wait :: "addr \<Rightarrow> 'z chan_sys_scheme \<Rightarrow>
    (addr outcome \<times> 'z chan_sys_scheme) result" where
  "dev_lwt_cgrp_wait cg s =
     rbind (assertion (cg \<noteq> NULL)) (\<lambda>_. rbind (terminating (dev_cgrp_wait_loop cg s)) id)"

subsection \<open>Sending threads, and the kernel threads\<close>

definition lwt_snd_thd :: "cos_env \<Rightarrow> addr \<Rightarrow> addr \<Rightarrow> kthd_sys \<Rightarrow>
    ((int \<times> wake) outcome \<times> kthd_sys) result" where
  "lwt_snd_thd k c sending s =
     (if sending = current_thread s then Inr (Returned (-1, NoWake), s)
      else if sending = NULL then Inl NullDeref
      else dev_lwt_snd k c sending (upd_lwt sending (\<lambda>l. l\<lparr>l_state := BLOCKED\<rparr>) s))"

definition adopt :: "addr \<Rightarrow> 'z dev_sys_scheme \<Rightarrow> (addr outcome \<times> 'z dev_sys_scheme) result" where
  "adopt tmp s =
     (if tmp = NULL then Inl NullDeref
      else
        let s1 = set_kid tmp (s_kid s (current_thread s)) s;
            s2 = s1\<lparr>s_links := ps_list_ll_rem tmp (s_links s1)\<rparr>;
            s3 = s2\<lparr>s_links := ps_list_ll_add (ps_list_prev (current_thread s2) (s_links s2)) tmp (s_links s2)\<rparr>
        in Inr (Returned tmp, upd_lwt tmp (\<lambda>l. l\<lparr>l_state := RUNNABLE\<rparr>) s3))"

definition then_adopt :: "(addr outcome \<times> 'z dev_sys_scheme) result \<Rightarrow>
    (addr outcome \<times> 'z dev_sys_scheme) result" where
  "then_adopt r = rbind r (\<lambda>(v, s). case v of Switched \<Rightarrow> Inr (Switched, s) | Returned tmp \<Rightarrow> adopt tmp s)"

definition lwt_rcv_thd :: "addr \<Rightarrow> 'z dev_sys_scheme \<Rightarrow> (addr outcome \<times> 'z dev_sys_scheme) result" where
  "lwt_rcv_thd c s = then_adopt (dev_lwt_rcv c s)"

definition lwt_rcv_thd_resume :: "addr \<Rightarrow> 'z dev_sys_scheme \<Rightarrow>
    (addr outcome \<times> 'z dev_sys_scheme) result" where
  "lwt_rcv_thd_resume c s = then_adopt (dev_lwt_rcv_resume c s)"

text \<open>\<open>__ps_list_nelements\<close>; the loop has already counted \<open>cnt\<close> and stands at \<open>tmp\<close>.\<close>

partial_function (option) nelements_loop :: "addr \<Rightarrow> addr \<Rightarrow> nat \<Rightarrow> 'z lwt_sys_scheme \<Rightarrow> nat option" where
  "nelements_loop t tmp cnt s =
     (let tmp1 = ps_list_next tmp (s_links s);
          cnt1 = (if l_state (s_lwt s tmp1) = RUNNABLE then cnt + 1 else cnt)
      in if tmp1 \<noteq> t then nelements_loop t tmp1 cnt1 s else Some cnt1)"

definition ps_list_nelements :: "addr \<Rightarrow> 'z lwt_sys_scheme \<Rightarrow> nat result" where
  "ps_list_nelements t s = terminating (nelements_loop t t 0 s)"

text \<open>
  \<open>__kthd_entry\<close>: what it does first; one turn of its loop up to and including the call of
  \<open>lwt_schedule\<close>; and the rest of the turn, when it has the processor again.
\<close>

definition kthd_start :: "cos_env \<Rightarrow> addr \<Rightarrow> kthd_sys \<Rightarrow> (addr \<times> kthd_sys) result" where
  "kthd_start k kp s =
     rbind (dev_lwt_init k s) (\<lambda>s1.
     if kp = NULL then Inl NullDeref
     else
       let s2 = s1\<lparr>s_kp := (s_kp s1)(kp := (s_kp s1 kp)\<lparr>kp_lwt := current_thread s1\<rparr>)\<rparr>
       in dev_lwt_create (kp_fn (s_kp s2 kp)) (kp_c (s_kp s2 kp)) LWT_NOJOIN s2)"

definition kthd_turn :: "addr \<Rightarrow> kthd_sys \<Rightarrow> (unit outcome \<times> kthd_sys) result" where
  "kthd_turn kp s = dev_lwt_schedule (s\<lparr>current_thread := kp_lwt (s_kp s kp)\<rparr>)"

definition kthd_rest :: "cos_env \<Rightarrow> kthd_sys \<Rightarrow> ((sl_out \<times> switch list) \<times> kthd_sys) result" where
  "kthd_rest k s =
     rbind (ps_list_nelements (current_thread s) s) (\<lambda>n.
     rbind (if n = 1 then sl_thd_block k 0 (s_kern s) else sl_thd_yield k 0 (s_kern s)) (\<lambda>(o1, ws, kern).
       Inr ((o1, ws), s\<lparr>s_kern := kern\<rparr>)))"

text \<open>\<open>thdcap\<close> and \<open>tid\<close> are what the kernel gives the new thread, as in \<open>sl_thd_alloc\<close>.\<close>

definition lwt_kthd_create :: "cos_env \<Rightarrow> nat \<Rightarrow> nat \<Rightarrow> addr \<Rightarrow> addr \<Rightarrow> kthd_sys \<Rightarrow>
    (int \<times> kthd_sys) result" where
  "lwt_kthd_create k thdcap tid fn c s =
     rbind (dev_kalloc (s_kheap s) SIZEOF_KTHD_PARAM) (\<lambda>(kp, h).
     rbind (assertion (kp \<noteq> NULL)) (\<lambda>_.
     let s1 = s\<lparr>s_kheap := h, s_kp := (s_kp s)(kp := (s_kp s kp)\<lparr>kp_fn := fn, kp_c := c\<rparr>)\<rparr> in
     rbind (sl_thd_alloc k thdcap tid (s_kern s1)) (\<lambda>(t, kern).
     case t of
       None \<Rightarrow> Inl NullDeref
     | Some t \<Rightarrow> rbind (sl_thd_param_set t SCHEDP_PRIO KTHD_PRIO kern) (\<lambda>kern1.
         Inr (0, s1\<lparr>s_kern := kern1\<rparr>)))))"

end
