(* ===== verification/KthdFlow.thy ===== *)
theory KthdFlow
  imports ChannelDev
begin

text \<open>
  What the channels of the port do: the transfer itself is the one of \<open>channel.c\<close>; new are the
  wakeup of the receiver's kernel thread, the threads that travel through a channel from one run
  queue to another, and the loop of a kernel thread that blocks when it has nothing to run.
\<close>

subsection \<open>Agreement with \<open>channel.c\<close>\<close>

lemma dev_kfree_small: "0 < n \<Longrightarrow> n \<le> PAGESIZE \<Longrightarrow> dev_kfree h p n = kfree h p n"
  by (simp add: dev_kfree_def kfree_def PAGESIZE_def POOL_BYTES_def NPAGES_def)

lemma kalloc_of_dev:
  "dev_kalloc h n = Inr (p, h') \<Longrightarrow> p \<noteq> NULL \<Longrightarrow> n \<le> PAGESIZE \<Longrightarrow> kalloc h n = Inr (p, h')"
  by (auto simp: dev_kalloc_def kalloc_def rbind_eq_Inr rbind_assertion split: option.splits if_splits)

lemma dev_rcv_read_eq: "dev_rcv_read = rcv_read"
  by (intro ext) (simp only: dev_rcv_read_def rcv_read_def dev_kfree_small [OF SIZEOF_MSG_pos] cong: if_cong)

lemma dev_lwt_rcv_resume_eq: "dev_lwt_rcv_resume = lwt_rcv_resume"
  by (intro ext) (simp add: dev_lwt_rcv_resume_def lwt_rcv_resume_def dev_rcv_read_eq dev_lwt_yield_eq)

lemma dev_lwt_rcv_eq: "dev_lwt_rcv = lwt_rcv"
  by (intro ext) (simp add: dev_lwt_rcv_def lwt_rcv_def dev_lwt_rcv_resume_eq)

lemma dev_cgrp_wait_loop_le:
  assumes "cgrp_wait_loop cg s = Some r"
  shows "dev_cgrp_wait_loop cg s = Some r"
proof (rule cgrp_wait_loop.raw_induct [where P = "\<lambda>cg s r. dev_cgrp_wait_loop cg s = Some r", OF _ assms])
  fix f cg and s :: "'a chan_sys_scheme" and r
  assume "\<And>cg s r. f cg s = Some r \<Longrightarrow> dev_cgrp_wait_loop cg s = Some r"
    and "(case cgrp_scan cg s of
        None \<Rightarrow> None
      | Some p \<Rightarrow>
          if p \<noteq> NULL then Some (Inr (Returned p, s))
          else (case lwt_yield NULL s of
              Inl e \<Rightarrow> Some (Inl e)
            | Inr (r, s') \<Rightarrow> (case r of
                Switched \<Rightarrow> Some (Inr (Switched, s'))
              | Returned _ \<Rightarrow> f cg s'))) = Some r"
  then show "dev_cgrp_wait_loop cg s = Some r"
    by (subst dev_cgrp_wait_loop.simps)
      (auto simp: dev_lwt_yield_eq split: option.splits if_splits sum.splits outcome.splits)
qed

lemma dev_cgrp_wait_loop_ge:
  assumes "dev_cgrp_wait_loop cg s = Some r"
  shows "cgrp_wait_loop cg s = Some r"
proof (rule dev_cgrp_wait_loop.raw_induct [where P = "\<lambda>cg s r. cgrp_wait_loop cg s = Some r", OF _ assms])
  fix f cg and s :: "'a chan_sys_scheme" and r
  assume "\<And>cg s r. f cg s = Some r \<Longrightarrow> cgrp_wait_loop cg s = Some r"
    and "(case cgrp_scan cg s of
        None \<Rightarrow> None
      | Some p \<Rightarrow>
          if p \<noteq> NULL then Some (Inr (Returned p, s))
          else (case dev_lwt_yield NULL s of
              Inl e \<Rightarrow> Some (Inl e)
            | Inr (r, s') \<Rightarrow> (case r of
                Switched \<Rightarrow> Some (Inr (Switched, s'))
              | Returned _ \<Rightarrow> f cg s'))) = Some r"
  then show "cgrp_wait_loop cg s = Some r"
    by (subst cgrp_wait_loop.simps)
      (auto simp: dev_lwt_yield_eq split: option.splits if_splits sum.splits outcome.splits)
qed

lemma dev_lwt_cgrp_wait_eq: "dev_lwt_cgrp_wait cg s = lwt_cgrp_wait cg s"
proof -
  have "dev_cgrp_wait_loop cg s = cgrp_wait_loop cg s"
    using dev_cgrp_wait_loop_le [of cg s] dev_cgrp_wait_loop_ge [of cg s]
    by (cases "cgrp_wait_loop cg s"; cases "dev_cgrp_wait_loop cg s") auto
  then show ?thesis by (simp add: dev_lwt_cgrp_wait_def lwt_cgrp_wait_def)
qed

lemma dev_lwt_cgrp_free_eq: "dev_lwt_cgrp_free cg s = lwt_cgrp_free cg s"
  using dev_kfree_small [of SIZEOF_CGRP "s_kheap s" cg]
  by (simp add: dev_lwt_cgrp_free_def lwt_cgrp_free_def SIZEOF_CGRP_def PAGESIZE_def)

text \<open>On the receiving side and for groups the port is \<open>channel.c\<close>: a receive, its resumption,
  the operations on groups and marks do the same to every state, waiting included.\<close>

theorem port_channels_alike:
  "dev_lwt_rcv c s = lwt_rcv c s \<and> dev_lwt_rcv_resume c s = lwt_rcv_resume c s \<and>
   dev_lwt_rcv_chan c s = lwt_rcv_chan c s \<and>
   dev_lwt_cgrp_add cg c s = lwt_cgrp_add cg c s \<and> dev_lwt_cgrp_rem cg c s = lwt_cgrp_rem cg c s \<and>
   dev_lwt_cgrp_wait cg s = lwt_cgrp_wait cg s \<and> dev_lwt_cgrp_free cg s = lwt_cgrp_free cg s \<and>
   dev_lwt_chan_mark_set c m s = lwt_chan_mark_set c m s \<and>
   dev_lwt_chan_mark_get c s = lwt_chan_mark_get c s"
  by (simp add: dev_lwt_rcv_eq dev_lwt_rcv_resume_eq dev_lwt_rcv_chan_def lwt_rcv_chan_def
      dev_lwt_cgrp_add_def lwt_cgrp_add_def dev_lwt_cgrp_rem_def lwt_cgrp_rem_def
      dev_lwt_cgrp_wait_eq dev_lwt_cgrp_free_eq dev_lwt_chan_mark_set_def lwt_chan_mark_set_def
      dev_lwt_chan_mark_get_def lwt_chan_mark_get_def)

subsection \<open>Sending\<close>

lemma sent_sel [simp]:
  "s_kern (sent c d m h rb s) = s_kern s" "s_kid (sent c d m h rb s) = s_kid s"
  "c_rcv_thd (s_chan (sent c d m h rb s) e) = c_rcv_thd (s_chan s e)"
  by (simp_all add: sent_def)

lemma dev_snd_write_eq:
  assumes "dev_kalloc (s_kheap s) SIZEOF_MSG = Inr (m, h)" and "0 < m"
    and "rbuf_write (rbuf_of s c) m = Inr (WRITERBUF_OK, rb)"
  shows "dev_snd_write k c data s =
    rbind (wake_receiver k c (sent c data m h rb s)) (\<lambda>(v, s1). Inr (Returned (0, v), s1))"
  using assms by (simp add: dev_snd_write_def Let_def sent_def upd_chan_def)

text \<open>A send with room: first what \<open>channel.c\<close> does, then the wakeup.\<close>

lemma dev_lwt_snd_runs:
  assumes inv: "chan_inv s A C" "c \<in> C" and "d \<noteq> NULL" and room: "\<not> rbuf_isfull (rbuf_of s c)"
    and fits: "kfits (s_kheap s) SIZEOF_MSG"
  obtains s1 B where "lwt_snd c d s = Inr (Returned 0, s1)"
    and "dev_lwt_snd k c d s = rbind (wake_receiver k c s1) (\<lambda>(v, s2). Inr (Returned (0, v), s2))"
    and "chan_inv s1 B C" and "\<forall>e\<in>C. msgs s1 e = msgs s e @ (if e = c then [d] else [])"
    and "s_kern s1 = s_kern s" and "s_kid s1 = s_kid s"
    and "c_rcv_thd (s_chan s1 c) = c_rcv_thd (s_chan s c)"
proof -
  note ok = chan_inv_okD [OF inv]
  have "SIZEOF_MSG \<le> POOL_BYTES" by (simp add: SIZEOF_MSG_def POOL_BYTES_def NPAGES_def)
  from kd.alloc_fits [OF ok(5) SIZEOF_MSG_pos(1) this fits] obtain m h where
    m: "dev_kalloc (s_kheap s) SIZEOF_MSG = Inr (m, h)" "0 < m" "block m SIZEOF_MSG \<subseteq> A"
      "kpool h (A - block m SIZEOF_MSG)" by blast
  then have k: "kalloc (s_kheap s) SIZEOF_MSG = Inr (m, h)"
    using kalloc_of_dev [OF m(1) _ SIZEOF_MSG_pos(2)] by simp
  have "m \<noteq> NULL" using m(2) by simp
  from rbq.wr_ok [OF ok(3) this room] obtain rb where
    rb: "rbuf_write (rbuf_of s c) m = Inr (WRITERBUF_OK, rb)" "rbuf_ok rb"
      "contents rb = contents (rbuf_of s c) @ [m]" by blast
  let ?s = "sent c d m h rb s"
  have "lwt_snd c d s = Inr (Returned 0, ?s)"
    using ok(1,2) assms(3) room snd_write_eq [OF k m(2) rb(1)] by (simp add: lwt_snd_def lwt_snd_resume_def)
  moreover have "dev_lwt_snd k c d s =
      rbind (wake_receiver k c ?s) (\<lambda>(v, s2). Inr (Returned (0, v), s2))"
    using ok(1,2) assms(3) room dev_snd_write_eq [OF m(1,2) rb(1)]
    by (simp add: dev_lwt_snd_def dev_lwt_snd_resume_def)
  ultimately show thesis
    using sent_inv [OF inv rb(3,2) m(2,3,4), of d] by (intro that [of ?s "A - block m SIZEOF_MSG"]) simp_all
qed

lemma lkup_ok: "v < max_num_threads k \<Longrightarrow> sl_thd_lkup k v = Inr v"
  by (simp add: sl_thd_lkup_def sl_thd_lookup_backend_def)

lemma wake_receiver_awake:
  assumes "c_rcv_thd (s_chan s c) = r" and "r \<noteq> NULL" and "s_kid s r < max_num_threads k"
    and "st (s_kern s) (s_kid s r) \<noteq> SL_THD_BLOCKED"
  shows "wake_receiver k c s = Inr (NoWake, s)"
  using assms by (simp add: wake_receiver_def lkup_ok)

lemma wake_receiver_blocked:
  assumes "c_rcv_thd (s_chan s c) = r" and "r \<noteq> NULL" and "s_kid s r < max_num_threads k"
    and "st (s_kern s) (s_kid s r) = SL_THD_BLOCKED"
    and "sl_thd_wakeup k (s_kid s r) (s_kern s) = Inr (o1, ws, kern)"
  shows "wake_receiver k c s = Inr (Wake o1 ws, s\<lparr>s_kern := kern\<rparr>)"
  using assms by (simp add: wake_receiver_def lkup_ok)

lemma msgs_kern [simp]: "msgs (s\<lparr>s_kern := x\<rparr>) e = msgs s e"
  by (simp add: msgs_def)

lemma chan_inv_kern [simp]: "chan_inv (s\<lparr>s_kern := x\<rparr>) A C = chan_inv s A C"
  by (simp add: chan_inv_def chan_ok_def held_def)

lemma top_woken:
  assumes "top_thread (enqueued p v q) u" and "\<forall>r\<le>p. q r = []"
  shows "u = v"
proof -
  from assms(1) obtain r ts where r: "\<forall>i<r. enqueued p v q i = []" "enqueued p v q r = u # ts"
    by (auto simp: top_thread_def)
  have "\<not> p < r" using r(1) by (auto simp: enqueued_def)
  with r(2) assms(2) show ?thesis by (auto simp: enqueued_def split: if_splits)
qed

text \<open>C22: a send to a receiver whose kernel thread is blocked delivers the data and wakes that
  thread: it is RUNNABLE and queued at the end of its priority. The sender's kernel thread is then
  switched away from: the switch goes to the first kernel thread of the highest ready priority,
  which is the woken one when no thread of its priority or a higher one was ready.
  The invariant of the scheduler is kept and its lock is free.\<close>

theorem send_wakes_blocked_kthd:
  assumes "chan_inv s A C" and "c \<in> C" and "d \<noteq> NULL" and "\<not> rbuf_isfull (rbuf_of s c)"
    and "kfits (s_kheap s) SIZEOF_MSG"
    and "c_rcv_thd (s_chan s c) = r" and "s_kid s r = v" and "v < max_num_threads k" and "v \<in> T"
    and "sl_ok (s_kern s) T q" and "unlocked (s_kern s)" and "running k (s_kern s) T t"
    and "timer_fine k (s_kern s)" and "st (s_kern s) v = SL_THD_BLOCKED"
    and "top_thread (enqueued (f_priority (sl_policy (s_kern s)) v) v q) u"
  shows "\<exists>s' w B. dev_lwt_snd k c d s = Inr (Returned (0, Wake SlSwitched
      [Switch (t_thdcap (sl_threads (s_kern s) u)) (t_prio (sl_threads (s_kern s) u)) w]), s') \<and>
    ((\<forall>p\<le>f_priority (sl_policy (s_kern s)) v. q p = []) \<longrightarrow> u = v) \<and>
    msgs s' c = msgs s c @ [d] \<and> chan_inv s' B C \<and>
    st (s_kern s') v = SL_THD_RUNNABLE \<and> unlocked (s_kern s') \<and>
    sl_ok (s_kern s') T (enqueued (f_priority (sl_policy (s_kern s)) v) v q)"
proof -
  from dev_lwt_snd_runs [OF assms(1-5), of k] obtain s1 B where
    s1: "dev_lwt_snd k c d s = rbind (wake_receiver k c s1) (\<lambda>(v, s2). Inr (Returned (0, v), s2))"
      "chan_inv s1 B C" "\<forall>e\<in>C. msgs s1 e = msgs s e @ (if e = c then [d] else [])"
      "s_kern s1 = s_kern s" "s_kid s1 = s_kid s" "c_rcv_thd (s_chan s1 c) = c_rcv_thd (s_chan s c)" .
  from wakeup_runs [OF assms(10-13,9,8,14,15)] obtain kern w where
    wk: "sl_thd_wakeup k v (s_kern s) = Inr (SlSwitched,
        [Switch (t_thdcap (sl_threads (s_kern s) u)) (t_prio (sl_threads (s_kern s) u)) w], kern)"
      "sl_ok kern T (enqueued (f_priority (sl_policy (s_kern s)) v) v q)" "unlocked kern"
      "st kern v = SL_THD_RUNNABLE" by blast
  have uv: "u = v" if "\<forall>p\<le>f_priority (sl_policy (s_kern s)) v. q p = []"
    using assms(15) that top_woken by blast
  have "r \<noteq> NULL" using chan_inv_okD(2) [OF assms(1,2)] assms(6) by simp
  from wake_receiver_blocked [of s1 c r k, OF _ this] s1 assms(6,7,8,14) wk(1) show ?thesis
    using assms(2) wk(2-4) uv by (intro exI [of _ "s1\<lparr>s_kern := kern\<rparr>"]) auto
qed

text \<open>C27: a send to a receiver whose kernel thread has not blocked yet does not mark a wakeup: it
  leaves the scheduler alone. If that thread had already decided to block (it counts the RUNNABLE
  threads of its ring before it calls \<open>sl_thd_block\<close>), it blocks with the message in the buffer;
  the WOKEN state of \<open>sl.c\<close>, made for this race, is bypassed by the test in \<open>lwt_snd\<close>.\<close>

theorem send_before_block_is_missed:
  assumes "chan_inv s A C" and "c \<in> C" and "d \<noteq> NULL" and "\<not> rbuf_isfull (rbuf_of s c)"
    and "kfits (s_kheap s) SIZEOF_MSG"
    and "c_rcv_thd (s_chan s c) = r" and "s_kid s r = v" and "v < max_num_threads k"
    and "sl_ok (s_kern s) T q" and "unlocked (s_kern s)" and "running k2 (s_kern s) T v"
    and "timer_fine k2 (s_kern s)" and "st (s_kern s) v = SL_THD_RUNNABLE"
    and "top_thread (dequeued v q) u"
  shows "\<exists>s' ws kern. dev_lwt_snd k c d s = Inr (Returned (0, NoWake), s') \<and> s_kern s' = s_kern s \<and>
    sl_thd_block k2 0 (s_kern s') = Inr (SlSwitched, ws, kern) \<and>
    st kern v = SL_THD_BLOCKED \<and> msgs s' c = msgs s c @ [d]"
proof -
  from dev_lwt_snd_runs [OF assms(1-5), of k] obtain s1 B where
    s1: "dev_lwt_snd k c d s = rbind (wake_receiver k c s1) (\<lambda>(v, s2). Inr (Returned (0, v), s2))"
      "chan_inv s1 B C" "\<forall>e\<in>C. msgs s1 e = msgs s e @ (if e = c then [d] else [])"
      "s_kern s1 = s_kern s" "s_kid s1 = s_kid s" "c_rcv_thd (s_chan s1 c) = c_rcv_thd (s_chan s c)" .
  have "r \<noteq> NULL" using chan_inv_okD(2) [OF assms(1,2)] assms(6) by simp
  from wake_receiver_awake [of s1 c r k, OF _ this] s1 assms(6,7,8,13) have
    "dev_lwt_snd k c d s = Inr (Returned (0, NoWake), s1)" by simp
  moreover obtain kern w where "sl_thd_block k2 0 (s_kern s) = Inr (SlSwitched, [w], kern)"
    "st kern v = SL_THD_BLOCKED"
    using block_runs [OF assms(9-14)] by (metis (no_types, lifting))
  ultimately show ?thesis using s1(3,4) assms(2) by (intro exI [of _ s1]) auto
qed

subsection \<open>Threads that travel\<close>

lemma upd_lwt_chan [simp]:
  "s_chan (upd_lwt t f s) = s_chan s" "s_rbuf (upd_lwt t f s) = s_rbuf s" "s_msg (upd_lwt t f s) = s_msg s"
  "s_kid (upd_lwt t f d) = s_kid d" "s_kern (upd_lwt t f e) = s_kern e"
  by (simp_all add: upd_lwt_def)

lemma dev_lwt_rcv_takes:
  assumes "chan_inv s A C" and "c \<in> C" and "msgs s c = t # ds"
  obtains s1 B where "dev_lwt_rcv c s = Inr (Returned t, s1)" and "chan_inv s1 B C"
    and "msgs s1 c = ds" and "s_links s1 = s_links s" and "current_thread s1 = current_thread s"
    and "s_lwt s1 = s_lwt s" and "dev_sys.more s1 = dev_sys.more s" and "s_kid s1 = s_kid s"
proof -
  let ?s = "s\<lparr>n_rcving := n_rcving s + 1\<rparr>"
  have inv: "chan_inv ?s A C" using assms(1) by (simp add: memory_chan_inv [of ?s s])
  have "contents (rbuf_of ?s c) \<noteq> []" using assms(3) by (auto simp: msgs_def)
  then have ne: "\<not> rbuf_isempty (rbuf_of ?s c)" using rbq.empty_abs chan_inv_okD(3) [OF inv assms(2)] by blast
  from rcv_read_ok [OF inv assms(2) ne] obtain m h rb where
    r: "rcv_read c ?s = Inr (Returned (m_data (s_msg ?s m)), received c h rb ?s)"
      "chan_inv (received c h rb ?s) (A \<union> block m SIZEOF_MSG) C"
      "\<forall>d\<in>C. msgs ?s d = (if d = c then [m_data (s_msg ?s m)] else []) @ msgs (received c h rb ?s) d" .
  have "msgs ?s c = msgs s c" by (simp add: memory_msgs [of ?s s])
  with r(3) assms(2,3) have m: "t = m_data (s_msg ?s m)" "ds = msgs (received c h rb ?s) c" by auto
  have "dev_lwt_rcv c s = Inr (Returned t, received c h rb ?s)"
    using ne r(1) m(1) lwt_rcv_live [OF assms(1,2)] by (simp add: dev_lwt_rcv_eq lwt_rcv_resume_def)
  then show thesis
    by (rule that [OF _ r(2)]) (simp_all add: m(2) received_def)
qed

text \<open>A thread leaves one ring for the end of another; \<open>p\<close> is the head of the second.\<close>

lemma ring_transfer:
  assumes "ring h (p # xs)" and "ring h (us @ t # vs)" and "us @ vs \<noteq> []"
    and "set (p # xs) \<inter> set (us @ t # vs) = {}"
  shows "ring (ps_list_ll_add (ps_list_prev p (ps_list_ll_rem t h)) t (ps_list_ll_rem t h)) (p # xs @ [t]) \<and>
    ring (ps_list_ll_add (ps_list_prev p (ps_list_ll_rem t h)) t (ps_list_ll_rem t h)) (us @ vs)"
proof -
  let ?h = "ps_list_ll_rem t h"
  have tn: "t \<notin> set (p # xs)" "t \<notin> set (us @ vs)"
    using assms(4) ring_distinct [OF assms(2)] by auto
  have a: "ring ?h (p # xs)" by (rule ring_rem_other [OF assms(1,2) _ assms(4)]) simp
  have b: "ring ?h (us @ vs)" using ring_rem [OF assms(2,3)] by blast
  have l: "ps_list_prev p ?h \<in> set (p # xs)" using ring_prev [OF a] last_in_set [of "p # xs"] by simp
  have dj: "set (us @ vs) \<inter> set (p # xs) = {}" using assms(4) by auto
  have "ring (ps_list_ll_add (ps_list_prev p ?h) t ?h) (us @ vs)"
    by (rule ring_add_other [OF b a l tn(2) dj])
  with ring_append [OF a tn(1)] show ?thesis by (simp add: ps_list_prev_def)
qed

text \<open>C23: a thread sent through a channel changes hands: the receiver takes it off the ring of its
  old kernel thread, puts it at the end of its own ring, gives it its own kernel thread and makes
  it RUNNABLE; both rings stay well formed and nobody else moves.\<close>

theorem lwt_rcv_thd_moves_thread:
  assumes "chan_inv s A C" and "c \<in> C" and "msgs s c = t # ds" and "t \<noteq> NULL"
    and "runq s (p # xs)" and "ring (s_links s) (us @ t # vs)" and "us @ vs \<noteq> []"
    and "set (p # xs) \<inter> set (us @ t # vs) = {}"
  shows "\<exists>s'. lwt_rcv_thd c s = Inr (Returned t, s') \<and> runq s' (p # xs @ [t]) \<and>
    ring (s_links s') (us @ vs) \<and> s_kid s' t = s_kid s p \<and> ready s' t \<and> msgs s' c = ds \<and>
    (\<forall>x. x \<noteq> t \<longrightarrow> s_lwt s' x = s_lwt s x \<and> s_kid s' x = s_kid s x)"
proof -
  from assms(5) have p: "current_thread s = p" "ring (s_links s) (p # xs)" by (simp_all add: runq_def)
  from dev_lwt_rcv_takes [OF assms(1-3)] obtain s1 B where
    s1: "dev_lwt_rcv c s = Inr (Returned t, s1)" "chan_inv s1 B C" "msgs s1 c = ds"
      "s_links s1 = s_links s" "current_thread s1 = current_thread s" "s_lwt s1 = s_lwt s"
      "s_kid s1 = s_kid s" .
  let ?s = "upd_lwt t (\<lambda>l. l\<lparr>l_state := RUNNABLE\<rparr>) ((set_kid t (s_kid s p) s1)\<lparr>s_links :=
    ps_list_ll_add (ps_list_prev p (ps_list_ll_rem t (s_links s))) t (ps_list_ll_rem t (s_links s))\<rparr>)"
  have "adopt t s1 = Inr (Returned t, ?s)"
    using assms(4) p(1) s1(4,5,7) by (simp add: adopt_def Let_def set_kid_def)
  then have "lwt_rcv_thd c s = Inr (Returned t, ?s)" using s1(1) by (simp add: lwt_rcv_thd_def then_adopt_def)
  moreover have "memory ?s = memory s1" by (simp add: memory_def set_kid_def upd_lwt_def)
  then have "msgs ?s c = ds" using s1(3) memory_msgs by metis
  ultimately show ?thesis
    using ring_transfer [OF p(2) assms(6-8)] s1(5-7) p(1)
    by (intro exI [of _ ?s]) (simp add: runq_def set_kid_def del: ring.simps)
qed

text \<open>\<open>lwt_snd_thd\<close> blocks the thread before it knows whether it can send it. On a channel
  whose receiver is gone the send is refused with -1, and the thread stays BLOCKED in its ring for
  ever; a receiver that takes a thread from such a channel dereferences null.\<close>

theorem released_channel_strands_sent_thread:
  assumes "c \<noteq> NULL" and "c_rcv_thd (s_chan s c) = NULL" and "t \<noteq> NULL" and "t \<noteq> current_thread s"
  shows "\<exists>s'. lwt_snd_thd k c t s = Inr (Returned (-1, NoWake), s') \<and>
    l_state (s_lwt s' t) = BLOCKED \<and> s_links s' = s_links s \<and> s_rbuf s' = s_rbuf s \<and>
    lwt_rcv_thd c s = Inl NullDeref"
  using assms by (simp add: lwt_snd_thd_def dev_lwt_snd_def lwt_rcv_thd_def then_adopt_def
      dev_lwt_rcv_def adopt_def)

subsection \<open>The loop of a kernel thread\<close>

lemma nelements_seg:
  assumes "dseg (s_links s) (hd (xs @ [t])) (tl (xs @ [t])) l" and "ps_n (s_links s) tmp = hd (xs @ [t])"
    and "t \<notin> set xs"
  shows "nelements_loop t tmp cnt s = Some (cnt + length (filter (ready s) (xs @ [t])))"
  using assms
proof (induction xs arbitrary: tmp cnt)
  case Nil
  then show ?case by (subst nelements_loop.simps) (simp add: Let_def ps_list_next_def)
next
  case (Cons x xs)
  obtain y ys where y: "xs @ [t] = y # ys" by (cases "xs @ [t]") auto
  with Cons.prems have "dseg (s_links s) y ys l" "ps_n (s_links s) x = y" by simp_all
  with Cons.IH [of x] Cons.prems(2,3) y show ?case
    by (subst nelements_loop.simps) (simp add: Let_def ps_list_next_def)
qed

lemma nelements_ring:
  assumes "ring (s_links s) (t # xs)"
  shows "nelements_loop t t 0 s = Some (length (filter (ready s) (t # xs)))"
proof -
  have r: "ring (s_links s) (xs @ [t])" using ring_rotate [of _ "[t]" xs] assms by simp
  then have d: "dseg (s_links s) (hd (xs @ [t])) (tl (xs @ [t])) (hd (xs @ [t]))"
    by (cases "xs @ [t]") auto
  have "ps_n (s_links s) t = hd (xs @ [t])" using ring_next [OF assms] by (simp add: ps_list_next_def)
  from nelements_seg [OF d this] ring_distinct [OF assms] have
    "nelements_loop t t 0 s = Some (length (filter (ready s) (xs @ [t])))" by simp
  then show ?thesis by simp
qed

text \<open>\<open>__ps_list_nelements\<close> returns on every ring, with the number of its RUNNABLE threads.\<close>

theorem nelements_counts_runnable:
  assumes "ring (s_links s) (t # xs)"
  shows "ps_list_nelements t s = Inr (length (filter (ready s) (t # xs)))"
  using nelements_ring [OF assms] by (simp add: ps_list_nelements_def)

text \<open>A kernel thread gives its processor up for good only when nothing in its ring is RUNNABLE
  besides its own thread: then it blocks; otherwise, for instance while a thread of the ring polls
  a channel, it yields and comes back.\<close>

theorem kthd_blocks_only_when_idle:
  assumes "runq s (p # xs)" and "ready s p"
  shows "kthd_rest k s =
    rbind (if \<forall>t\<in>set xs. \<not> ready s t then sl_thd_block k 0 (s_kern s) else sl_thd_yield k 0 (s_kern s))
      (\<lambda>(o1, ws, kern). Inr ((o1, ws), s\<lparr>s_kern := kern\<rparr>))"
proof -
  from assms(1) have "current_thread s = p" "ring (s_links s) (p # xs)" by (simp_all add: runq_def)
  then have n: "ps_list_nelements (current_thread s) s = Inr (length (filter (ready s) (p # xs)))"
    using nelements_ring [of s p xs] by (simp add: ps_list_nelements_def)
  have "length (filter (ready s) (p # xs)) = 1 \<longleftrightarrow> (\<forall>t\<in>set xs. \<not> ready s t)"
    using assms(2) by (simp add: filter_empty_conv)
  with n show ?thesis by (simp only: kthd_rest_def rbind.simps)
qed

subsection \<open>Starting a kernel thread\<close>

lemma enqueued_dequeued_mem:
  assumes "fprr_ok f T q" and "x \<in> T" and "x \<noteq> t"
  shows "x \<in> set (enqueued v t (dequeued t q) (f_priority f x)) \<longleftrightarrow> x \<in> set (q (f_priority f x))"
  using dequeued_mem [OF assms(1) fprr_okD(4) [OF assms(1,2)], of t] assms(3)
  by (auto simp: enqueued_def)

lemma sl_thd_alloc_at:
  assumes ok: "sl_ok s T q" and "thdcap \<noteq> 0" and "tid \<noteq> 0" and "tid < max_num_threads k" and new: "tid \<notin> T"
    and v: "v < SL_FPRR_NPRIOS"
  obtains s1 s2 where "sl_thd_alloc k thdcap tid s = Inr (Some tid, s1)"
    and "sl_thd_param_set tid SCHEDP_PRIO v s1 = Inr s2"
    and "sl_ok s2 (insert tid T) (enqueued v tid (dequeued tid q))"
    and "sl_threads s2 tid = (sl_threads s tid)\<lparr>t_thdid := tid, t_thdcap := thdcap, t_state := SL_THD_RUNNABLE\<rparr>"
    and "\<forall>x. x \<noteq> tid \<longrightarrow> sl_threads s2 x = sl_threads s x"
proof -
  let ?q = "enqueued v tid (dequeued tid q)"
  let ?u = "upd_thd tid (\<lambda>x. x\<lparr>t_thdid := tid, t_thdcap := thdcap, t_state := SL_THD_RUNNABLE\<rparr>) s"
  let ?s1 = "?u\<lparr>sl_policy := sl_mod_thd_create tid (sl_policy ?u)\<rparr>"
  note f0 = sl_okD(1) [OF ok]
  have f1: "fprr_ok (sl_policy ?s1) (insert tid T) q" using create_ok [OF f0 new] by simp
  have p1: "x \<noteq> tid \<Longrightarrow> f_priority (sl_policy ?s1) x = f_priority (sl_policy s) x" for x
    by (simp add: sl_mod_thd_create_def)
  obtain f2 where f2: "sl_mod_thd_param_set tid SCHEDP_PRIO v (sl_policy ?s1) = Inr f2"
    "fprr_ok f2 (insert tid T) ?q" "f_priority f2 = (f_priority (sl_policy ?s1))(tid := v)"
    using param_set_ok [OF f1 _ v, of tid] by auto
  let ?s2 = "?s1\<lparr>sl_policy := f2\<rparr>"
  have "sl_thd_alloc k thdcap tid s = Inr (Some tid, ?s1)"
    using assms(2-4) by (simp add: sl_thd_alloc_def sl_thd_alloc_intern_def sl_thd_alloc_init_def
        sl_thd_alloc_backend_def)
  moreover have "sl_thd_param_set tid SCHEDP_PRIO v ?s1 = Inr ?s2"
    using f2(1) by (simp add: sl_thd_param_set_def)
  moreover have "sl_ok ?s2 (insert tid T) ?q"
    unfolding sl_ok_def
  proof (intro conjI ballI)
    show "fprr_ok (sl_policy ?s2) (insert tid T) ?q" using f2(2) by simp
  next
    fix x assume x: "x \<in> insert tid T"
    show "if queued ?s2 ?q x then st ?s2 x \<in> {SL_THD_RUNNABLE, SL_THD_WOKEN} else st ?s2 x = SL_THD_BLOCKED"
    proof (cases "x = tid")
      case True
      then have "queued ?s2 ?q x" using f2(3) by (simp add: queued_def enqueued_def)
      with True show ?thesis by simp
    next
      case False
      with x have xT: "x \<in> T" by simp
      have "queued ?s2 ?q x = queued s q x"
        using enqueued_dequeued_mem [OF f0 xT False, of v] f2(3) p1 [OF False] False
        by (simp add: queued_def)
      with False sl_okD(2,3) [OF ok xT] show ?thesis by simp
    qed
  qed
  ultimately show thesis by (rule that) simp_all
qed

text \<open>Creating a kernel thread makes a RUNNABLE thread at the end of the queue of priority 10,
  with the function and the channel in a parameter block from the pool. When the kernel has no
  thread to give, the null pointer is dereferenced; the -1 the code means to return then is never
  returned.\<close>

theorem lwt_kthd_create_queues:
  assumes "kpool (s_kheap s) A" and "kfits (s_kheap s) SIZEOF_KTHD_PARAM" and "sl_ok (s_kern s) T q"
    and "thdcap \<noteq> 0" and "tid \<noteq> 0" and "tid < max_num_threads k" and "tid \<notin> T"
  shows "\<exists>kp s'. lwt_kthd_create k thdcap tid fn c s = Inr (0, s') \<and>
    kp \<noteq> NULL \<and> kpool (s_kheap s') (A - block kp SIZEOF_KTHD_PARAM) \<and>
    kp_fn (s_kp s' kp) = fn \<and> kp_c (s_kp s' kp) = c \<and>
    sl_ok (s_kern s') (insert tid T) (enqueued KTHD_PRIO tid (dequeued tid q)) \<and>
    st (s_kern s') tid = SL_THD_RUNNABLE \<and>
    lwt_kthd_create k 0 tid fn c s = Inl NullDeref"
proof -
  have "0 < SIZEOF_KTHD_PARAM" "SIZEOF_KTHD_PARAM \<le> POOL_BYTES"
    by (simp_all add: SIZEOF_KTHD_PARAM_def POOL_BYTES_def NPAGES_def)
  from kd.alloc_fits [OF assms(1) this assms(2)] obtain kp h where
    kp: "dev_kalloc (s_kheap s) SIZEOF_KTHD_PARAM = Inr (kp, h)" "0 < kp"
      "kpool h (A - block kp SIZEOF_KTHD_PARAM)" by blast
  have "KTHD_PRIO < SL_FPRR_NPRIOS" by (simp add: KTHD_PRIO_def SL_FPRR_NPRIOS_def)
  from sl_thd_alloc_at [OF assms(3-7) this] obtain k1 k2 where
    t: "sl_thd_alloc k thdcap tid (s_kern s) = Inr (Some tid, k1)"
      "sl_thd_param_set tid SCHEDP_PRIO KTHD_PRIO k1 = Inr k2"
      "sl_ok k2 (insert tid T) (enqueued KTHD_PRIO tid (dequeued tid q))" "st k2 tid = SL_THD_RUNNABLE"
    by (metis (no_types, lifting) sl_thd.select_convs(1) sl_thd.surjective sl_thd.update_convs(1))
  have "sl_thd_alloc k 0 tid (s_kern s) = Inr (None, s_kern s)"
    by (simp add: sl_thd_alloc_def sl_thd_alloc_intern_def)
  with kp t show ?thesis
    by (intro exI [of _ kp] exI [of _ "s\<lparr>s_kheap := h,
        s_kp := (s_kp s)(kp := (s_kp s kp)\<lparr>kp_fn := fn, kp_c := c\<rparr>), s_kern := k2\<rparr>"])
      (simp add: lwt_kthd_create_def Let_def)
qed

text \<open>What a kernel thread does first.\<close>

lemma s_kp_more: "dev_sys.more s' = dev_sys.more s \<Longrightarrow> s_kp s' = s_kp s"
  by (cases s rule: kthd_sys.cases_scheme; cases s' rule: kthd_sys.cases_scheme) simp

lemma dev_lwt_init_runs:
  assumes "dev_kalloc (s_kheap s) (DEV_SIZEOF_LWT + DEV_LWT_EXTRA) = Inr (m, h)" and "0 < m"
  obtains s' where "dev_lwt_init k s = Inr s'" and "runq s' [m]" and "s_kheap s' = h"
    and "ready s' m" and "s_kid s' = (s_kid s)(m := cos_thdid k)"
    and "s_links s' = ps_list_ll_init m (s_links s)" and "dev_sys.more s' = dev_sys.more s"
    and "\<forall>u. u \<noteq> m \<longrightarrow> s_lwt s' u = s_lwt s u"
proof -
  obtain s' where s': "dev_lwt_init k s = Inr s'" "current_thread s' = m" "s_kheap s' = h" "ready s' m"
    "s_kid s' = (s_kid s)(m := cos_thdid k)" "s_links s' = ps_list_ll_init m (s_links s)"
    "dev_sys.more s' = dev_sys.more s" "\<forall>u. u \<noteq> m \<longrightarrow> s_lwt s' u = s_lwt s u"
    using assms by (simp add: dev_lwt_init_def Let_def set_kid_def upd_lwt_def)
  moreover have "runq s' [m]" using s'(2,6) ring_init by (simp add: runq_def del: ring.simps)
  ultimately show thesis using that by blast
qed

lemma fits_twice:
  assumes "kpool h A" and "kfits h (n + n)" and "0 < n" and "n \<le> PAGESIZE"
    and "dev_kalloc h n = Inr (m, h1)" and "0 < m"
  shows "kfits h1 n"
  using kalloc_leaves [OF assms(1-4) assms(3)] kalloc_of_dev [OF assms(5) _ assms(4)] assms(6) by simp

text \<open>\<open>__kthd_entry\<close> starts with a ring of its own, of two threads: the kernel thread's own, and a
  LWT_NOJOIN thread set to run the function on the channel of the parameter block. Both belong
  to the running kernel thread; every other ring outside the pool is as it was.\<close>

theorem kthd_start_makes_ring:
  assumes "kpool (s_kheap s) A"
    and "kfits (s_kheap s) ((DEV_SIZEOF_LWT + DEV_LWT_EXTRA) + (DEV_SIZEOF_LWT + DEV_LWT_EXTRA))"
    and "kp \<noteq> NULL" and "ring (s_links s) ys" and "set ys \<inter> A = {}"
  shows "\<exists>m t s'. kthd_start k kp s = Inr (t, s') \<and> runq s' [m, t] \<and> ready s' m \<and> ready s' t \<and>
    s_kid s' m = cos_thdid k \<and> s_kid s' t = cos_thdid k \<and> kp_lwt (s_kp s' kp) = m \<and>
    l_flag (s_lwt s' t) = LWT_NOJOIN \<and> l_ip (s_lwt s' t) = Trampoline \<and>
    l_fn (s_lwt s' t) = kp_fn (s_kp s kp) \<and> l_data (s_lwt s' t) = kp_c (s_kp s kp) \<and>
    ring (s_links s') ys"
proof -
  let ?n = "DEV_SIZEOF_LWT + DEV_LWT_EXTRA"
  have np: "?n \<le> PAGESIZE" by (simp add: dev_sizes PAGESIZE_def)
  have "kfits (s_kheap s) ?n" by (rule kfits_mono [OF assms(2)]) (simp add: dev_sizes)
  from kd.alloc_fits [OF assms(1) dev_pool_sizes(1,2) this] obtain m h where
    m: "dev_kalloc (s_kheap s) ?n = Inr (m, h)" "0 < m" "block m ?n \<subseteq> A" "kpool h (A - block m ?n)" by blast
  from dev_lwt_init_runs [OF m(1,2), of k] obtain s1 where
    s1: "dev_lwt_init k s = Inr s1" "runq s1 [m]" "s_kheap s1 = h" "ready s1 m"
      "s_kid s1 = (s_kid s)(m := cos_thdid k)" "s_links s1 = ps_list_ll_init m (s_links s)"
      "dev_sys.more s1 = dev_sys.more s" .
  note kp = s_kp_more [OF s1(7)]
  define s2 where "s2 = s1\<lparr>s_kp := (s_kp s1)(kp := (s_kp s1 kp)\<lparr>kp_lwt := current_thread s1\<rparr>)\<rparr>"
  define n where "n = ?n"
  have s2: "s_kheap s2 = h" "s_lwt s2 = s_lwt s1" "s_kid s2 = s_kid s1" "s_links s2 = s_links s1"
    "kp_fn (s_kp s2 kp) = kp_fn (s_kp s kp)" "kp_c (s_kp s2 kp) = kp_c (s_kp s kp)"
    "kp_lwt (s_kp s2 kp) = m" "runq s2 [m]"
    using s1(2,3) kp runq_cur [OF s1(2)] by (simp_all add: s2_def runq_def)
  have mm: "m \<in> block m n" using dev_pool_sizes(1) by (simp add: n_def)
  have "kfits h ?n" by (rule fits_twice [OF assms(1,2) dev_pool_sizes(1) np m(1,2)])
  then have f2: "kfits (s_kheap s2) ?n" by (simp only: s2)
  have k2: "kpool (s_kheap s2) (A - block m n)" using m(4) by (simp only: s2 n_def)
  have d2: "set [m] \<inter> (A - block m n) = {}" using mm by simp
  from dev_create_pool [OF k2 f2 d2] obtain t k1 where
    t: "dev_kalloc (s_kheap s2) ?n = Inr (t, k1)" "0 < t" "block t ?n \<subseteq> A - block m n"
      "kpool k1 (A - block m n - block t ?n)" "t \<notin> set [m]" .
  have tt: "t \<in> block t ?n" using dev_pool_sizes(1) by simp
  have off: "m \<notin> set ys" "t \<notin> set ys" "m \<noteq> t"
    using assms(5) t(5) subsetD [OF m(3), folded n_def, OF mm] subsetD [OF t(3) tt] by auto
  from dev_create_runs [OF s2(8) t(1,2,5), of "kp_fn (s_kp s kp)" "kp_c (s_kp s kp)" LWT_NOJOIN]
  obtain s3 where
    s3: "dev_lwt_create (kp_fn (s_kp s kp)) (kp_c (s_kp s kp)) LWT_NOJOIN s2 = Inr (t, s3)"
      "runq s3 ([m] @ [t])"
      "s_lwt s3 = (s_lwt s2)(t := dev_fresh_lwt t (kp_fn (s_kp s kp)) (kp_c (s_kp s kp)) LWT_NOJOIN s2)"
      "s_kid s3 = (s_kid s2)(t := s_kid s2 m)"
      "s_links s3 = ps_list_ll_add (ps_list_prev m (s_links s2)) t (s_links s2)"
      "dev_sys.more s3 = dev_sys.more s2" by auto
  have r1: "ring (s_links s2) ys" "ring (s_links s2) [m]"
    unfolding s2(4) s1(6) by (rule ring_init_other [OF assms(4) off(1)], rule ring_init)
  have "ps_list_prev m (s_links s2) \<in> set [m]" using ring_prev [OF r1(2)] by simp
  from ring_add_other [OF r1 this off(2)] off(1) have "ring (s_links s3) ys" unfolding s3(5) by simp
  moreover have "kthd_start k kp s = Inr (t, s3)"
    using s1(1) s3(1) s2(5,6) assms(3) by (simp add: kthd_start_def Let_def s2_def)
  moreover have "kp_lwt (s_kp s3 kp) = m" using s_kp_more [OF s3(6)] s2(7) by simp
  ultimately show ?thesis using s3(2-4) s1(4,5) s2(2,3) off(3)
    by (intro exI [of _ m] exI [of _ t] exI [of _ s3]) (simp add: dev_fresh_lwt_def)
qed

subsection \<open>Witnesses\<close>

text \<open>The example of \<open>ChanFlow\<close>, its threads all of kernel thread 1.\<close>

definition kthd_ex :: "sl_sys \<Rightarrow> kthd_sys" where
  "kthd_ex kern = dev_sys.extend (chan_sys.extend chan_ex (dev_sys.fields (\<lambda>_. 1)))
     (kthd_sys.fields kern (\<lambda>_. \<lparr>kp_kthd = 0, kp_lwt = 100, kp_fn = 7, kp_c = 20000, kp_d = 0\<rparr>))"

lemma kthd_ex_sel [simp]:
  "s_kheap (kthd_ex k) = s_kheap chan_ex" "s_lwt (kthd_ex k) = s_lwt chan_ex"
  "s_links (kthd_ex k) = s_links chan_ex" "current_thread (kthd_ex k) = current_thread chan_ex"
  "s_chan (kthd_ex k) = s_chan chan_ex" "s_rbuf (kthd_ex k) = s_rbuf chan_ex"
  "s_msg (kthd_ex k) = s_msg chan_ex" "s_kid (kthd_ex k) = (\<lambda>_. 1)" "s_kern (kthd_ex k) = k"
  "s_kp (kthd_ex k) = (\<lambda>_. \<lparr>kp_kthd = 0, kp_lwt = 100, kp_fn = 7, kp_c = 20000, kp_d = 0\<rparr>)"
  by (simp_all add: kthd_ex_def chan_ex_def lwt_sys.defs chan_sys.defs dev_sys.defs kthd_sys.defs)

lemma kthd_ex_inv: "chan_inv (kthd_ex k) (block 4096 8000) {20000}"
  by (simp add: chan_inv_def chan_ok_def held_def sys_ex_pool(1) contents_def count_def rbuf_ok_def)

lemma kthd_ex_room: "\<not> rbuf_isfull (rbuf_of (kthd_ex k) 20000)" "msgs (kthd_ex k) c = []"
  "kfits (s_kheap (kthd_ex k)) SIZEOF_MSG"
  using chan_ex_fits by (simp_all add: rbuf_isfull_def msgs_def contents_def count_def)

lemma kthd_ex_runq: "runq (kthd_ex k) [100, 200]"
  using chan_ex_runq by (simp add: runq_def)

theorem send_wakes_blocked_kthd_witness:
  "\<exists>f s' w. dev_lwt_snd env2_ex 20000 7 (kthd_ex (sleepy_ex f)) = Inr (Returned (0, Wake SlSwitched
       [Switch (t_thdcap (sl_threads (sleepy_ex f) 2)) (t_prio (sl_threads (sleepy_ex f) 2)) w]), s') \<and>
     msgs s' 20000 = [7] \<and> st (s_kern s') 1 = SL_THD_RUNNABLE"
proof -
  obtain f where f: "sl_ok (sleepy_ex f) {1, 2} (two_ready(10 := [2]))" "unlocked (sleepy_ex f)"
    "running env2_ex (sleepy_ex f) {1, 2} 2" "timer_fine env2_ex (sleepy_ex f)"
    and p: "f_priority (sl_policy (sleepy_ex f)) 1 = 10" by (rule sleepy_ex_reached)
  have e: "enqueued 10 1 (two_ready(10 := [2])) = two_ready(10 := [2, 1])"
    by (auto simp: enqueued_def two_ready_def)
  have "st (sleepy_ex f) 1 = SL_THD_BLOCKED" by (simp add: sleepy_ex_def)
  moreover have "top_thread (enqueued (f_priority (sl_policy (sleepy_ex f)) 1) 1 (two_ready(10 := [2]))) 2"
    using top_two [of "[1]"] by (simp only: p e)
  moreover have "1 < max_num_threads env2_ex" by (simp add: env2_ex_def env_ex_def)
  ultimately show ?thesis
    using send_wakes_blocked_kthd [OF kthd_ex_inv, of 20000 7 "sleepy_ex f" 100 1 env2_ex "{1, 2}"]
      f kthd_ex_room by simp blast
qed

theorem send_before_block_is_missed_witness:
  "\<exists>f s' ws kern. dev_lwt_snd env2_ex 20000 7 (kthd_ex (sl_ex f)) = Inr (Returned (0, NoWake), s') \<and>
     sl_thd_block env_ex 0 (s_kern s') = Inr (SlSwitched, ws, kern) \<and>
     st kern 1 = SL_THD_BLOCKED \<and> msgs s' 20000 = [7]"
proof -
  obtain f where f: "sl_ok (sl_ex f) {1, 2} two_ready" "unlocked (sl_ex f)"
    "running env_ex (sl_ex f) {1, 2} 1" "timer_fine env_ex (sl_ex f)" by (rule sl_ex_reached)
  have "top_thread (dequeued 1 two_ready) 2" using top_two [of "[]"] by (simp only: two_ready_moves)
  moreover have "1 < max_num_threads env2_ex" by (simp add: env2_ex_def env_ex_def)
  ultimately show ?thesis
    using send_before_block_is_missed [OF kthd_ex_inv, of 20000 7 "sl_ex f" 100 1 env2_ex "{1, 2}" two_ready env_ex]
      f kthd_ex_room by simp blast
qed

text \<open>Thread 300 of the ring 300, 400 is on its way to the ring 100, 200.\<close>

definition travel_ex :: "sl_sys \<Rightarrow> kthd_sys" where
  "travel_ex k = (kthd_ex k)\<lparr>s_kheap := set_len 4096 7992 (s_kheap sys_ex),
     s_links := \<lparr>ps_n = (\<lambda>t. if t = 100 then 200 else if t = 200 then 100 else if t = 300 then 400 else 300),
                ps_p = (\<lambda>t. if t = 100 then 200 else if t = 200 then 100 else if t = 300 then 400 else 300)\<rparr>,
     s_rbuf := (\<lambda>_. \<lparr>rb_buf = 40000, rb_mem = (\<lambda>_. 12088), rb_slots = 3, rb_head = 0, rb_tail = 1,
                     rb_capacity = 3\<rparr>),
     s_msg := (\<lambda>_. \<lparr>m_data = 300, m_thd = 400\<rparr>)\<rparr>"

lemma travel_ex_inv: "chan_inv (travel_ex k) (block 4096 7992) {20000}"
proof -
  have "free_list (set_len 4096 7992 (s_kheap sys_ex)) [(4096, 7992)]"
    by (simp add: free_list_def sys_ex_def pool_ex_def set_len_def)
  from kpool_list [OF this] show ?thesis
    by (auto simp: travel_ex_def chan_inv_def chan_ok_def held_def contents_def count_def rbuf_ok_def
        SIZEOF_MSG_def)
qed

theorem lwt_rcv_thd_moves_thread_witness:
  "\<exists>s'. lwt_rcv_thd 20000 (travel_ex (sl_ex zero_policy)) = Inr (Returned 300, s') \<and>
     runq s' [100, 200, 300] \<and> ring (s_links s') [400] \<and> ready s' 300 \<and> s_kid s' 300 = 1"
proof -
  let ?s = "travel_ex (sl_ex zero_policy)"
  have "runq ?s (100 # [200])" "ring (s_links ?s) ([] @ 300 # [400])" "msgs ?s 20000 = 300 # []"
    by (simp_all add: travel_ex_def runq_def msgs_def contents_def count_def)
  from lwt_rcv_thd_moves_thread [OF travel_ex_inv _ this(3) _ this(1,2)] show ?thesis
    by (auto simp: travel_ex_def)
qed

theorem released_channel_strands_sent_thread_witness:
  "\<exists>s'. lwt_snd_thd env_ex 20000 200 (upd_chan 20000 (\<lambda>c. c\<lparr>c_rcv_thd := 0\<rparr>) (kthd_ex (sl_ex zero_policy)))
       = Inr (Returned (-1, NoWake), s') \<and> l_state (s_lwt s' 200) = BLOCKED"
  using released_channel_strands_sent_thread [of 20000 "upd_chan 20000 (\<lambda>c. c\<lparr>c_rcv_thd := 0\<rparr>)
      (kthd_ex (sl_ex zero_policy))" 200 env_ex] by (auto simp: upd_chan_def)

theorem nelements_counts_runnable_witness:
  "ps_list_nelements 100 sys_ex = Inr 2"
proof -
  have "ring (s_links sys_ex) (100 # [200, 300])" using runq_ring [OF sys_ex_runq] .
  from nelements_counts_runnable [OF this] show ?thesis by (simp add: sys_ex_def lwt_ex_def)
qed

theorem kthd_blocks_only_when_idle_witness:
  "kthd_rest env_ex (kthd_ex (sl_ex zero_policy)) =
    rbind (sl_thd_yield env_ex 0 (sl_ex zero_policy))
      (\<lambda>(o1, ws, kern). Inr ((o1, ws), (kthd_ex (sl_ex zero_policy))\<lparr>s_kern := kern\<rparr>))"
  using kthd_blocks_only_when_idle [OF kthd_ex_runq, of "sl_ex zero_policy" env_ex] by (simp add: lwt_ex_def)

theorem lwt_kthd_create_queues_witness:
  "\<exists>f kp s'. lwt_kthd_create env_ex 103 3 7 20000 (kthd_ex (sl_ex f)) = Inr (0, s') \<and>
     kp_fn (s_kp s' kp) = 7 \<and> st (s_kern s') 3 = SL_THD_RUNNABLE"
proof -
  obtain f where f: "sl_ok (sl_ex f) {1, 2} two_ready" by (rule sl_ex_reached)
  have "kfits (s_kheap sys_ex) SIZEOF_KTHD_PARAM"
    by (rule kfits_mono [OF sys_ex_pool(2)]) (simp add: SIZEOF_KTHD_PARAM_def SIZEOF_LWT_def)
  then have "kfits (s_kheap (kthd_ex (sl_ex f))) SIZEOF_KTHD_PARAM" by simp
  from lwt_kthd_create_queues [OF _ this, of "block 4096 8000" "{1, 2}" two_ready 103 3 env_ex 7 20000]
    f sys_ex_pool(1) show ?thesis by (simp add: env_ex_def) blast
qed

theorem kthd_start_makes_ring_witness:
  "\<exists>m t s'. kthd_start env_ex 50000 (kthd_ex (sl_ex zero_policy)) = Inr (t, s') \<and> runq s' [m, t] \<and>
     s_kid s' m = 1 \<and> l_flag (s_lwt s' t) = LWT_NOJOIN \<and> ring (s_links s') [100, 200]"
proof -
  have "free_list (s_kheap sys_ex) [(4096, 8000)]" by (simp add: free_list_def sys_ex_def pool_ex_def)
  from kfits_list [OF this] have "kfits (s_kheap (kthd_ex (sl_ex zero_policy)))
      ((DEV_SIZEOF_LWT + DEV_LWT_EXTRA) + (DEV_SIZEOF_LWT + DEV_LWT_EXTRA))" by (simp add: dev_sizes)
  from kthd_start_makes_ring [OF _ this, of "block 4096 8000" 50000 "[100, 200]" env_ex]
    sys_ex_pool(1) runq_ring [OF kthd_ex_runq] show ?thesis
    by (simp add: env_ex_def del: ring.simps) blast
qed

end
