(* ===== verification/Atomic.thy ===== *)
theory Atomic
  imports Prelude
begin

text \<open>
  The compare-and-swap primitive \<open>ps_cas\<close> of the kernel library, which is not part of the
  repository: it is a parameter \<open>cas\<close> of the models that use it. \<open>cas cur old new\<close> is what a call
  on a location that holds \<open>cur\<close> answers and leaves there; \<open>atomic_cas\<close> is its documented
  behaviour. The macro \<open>PS_CAS\<close> of \<open>scheddev/lwt.c\<close> and \<open>scheddev/channel.c\<close> adds to a shared
  counter with it.
\<close>

definition atomic_cas :: "('w \<Rightarrow> 'w \<Rightarrow> 'w \<Rightarrow> bool \<times> 'w) \<Rightarrow> bool" where
  "atomic_cas cas \<longleftrightarrow> (\<forall>cur old new. cas cur old new = (if cur = old then (True, new) else (False, cur)))"

definition ps_cas :: "'w \<Rightarrow> 'w \<Rightarrow> 'w \<Rightarrow> bool \<times> 'w" where
  "ps_cas cur old new = (if cur = old then (True, new) else (False, cur))"

lemma ps_cas_atomic: "atomic_cas ps_cas"
  by (simp add: atomic_cas_def ps_cas_def)

lemma atomic_cas_True: "atomic_cas cas \<Longrightarrow> cas cur old new = (True, w) \<longleftrightarrow> cur = old \<and> w = new"
  by (auto simp: atomic_cas_def)

lemma atomic_cas_False: "atomic_cas cas \<Longrightarrow> cas cur old new = (False, w) \<longleftrightarrow> cur \<noteq> old \<and> w = cur"
  by (auto simp: atomic_cas_def)

subsection \<open>Adding to a shared counter\<close>

text \<open>
  Any number of threads, each in one \<open>PS_CAS(t,d,v)\<close>: read the location, then try to store the
  sum. The state is the location and what each thread is doing; \<open>dones\<close> logs the completed
  additions.
\<close>

datatype add_pc = AddIdle | AddRead u32 | AddTry u32 u32

record add_sys =
  cell :: u32
  add_pc :: "nat \<Rightarrow> add_pc"
  dones :: "u32 list"

inductive add_step :: "(u32 \<Rightarrow> u32 \<Rightarrow> u32 \<Rightarrow> bool \<times> u32) \<Rightarrow> add_sys \<Rightarrow> add_sys \<Rightarrow> bool" for cas where
  add_begin: "add_pc s i = AddIdle \<Longrightarrow> add_step cas s (s\<lparr>add_pc := (add_pc s)(i := AddRead v)\<rparr>)"
| add_read: "add_pc s i = AddRead v \<Longrightarrow>
    add_step cas s (s\<lparr>add_pc := (add_pc s)(i := AddTry v (cell s))\<rparr>)"
| add_done: "add_pc s i = AddTry v t \<Longrightarrow> cas (cell s) t (t + v) = (True, w) \<Longrightarrow>
    add_step cas s (s\<lparr>cell := w, add_pc := (add_pc s)(i := AddIdle), dones := v # dones s\<rparr>)"
| add_retry: "add_pc s i = AddTry v t \<Longrightarrow> cas (cell s) t (t + v) = (False, w) \<Longrightarrow>
    add_step cas s (s\<lparr>cell := w, add_pc := (add_pc s)(i := AddRead v)\<rparr>)"

lemma add_step_sum:
  assumes "add_step cas s s'" and "atomic_cas cas" and "cell s = c + sum_list (dones s)"
  shows "cell s' = c + sum_list (dones s')"
  using assms(1)
proof (cases rule: add_step.cases)
  case (add_done i v t w)
  with atomic_cas_True [OF assms(2)] assms(3) show ?thesis by simp
next
  case (add_retry i v t w)
  with atomic_cas_False [OF assms(2)] assms(3) show ?thesis by simp
qed (use assms(3) in simp_all)

text \<open>Additions with \<open>PS_CAS\<close> are never lost: whatever the interleaving of the threads, the
  counter is its first value plus the sum of the additions that have completed.\<close>

theorem ps_cas_add_exact:
  assumes "(add_step cas)\<^sup>*\<^sup>* s0 s" and "atomic_cas cas" and "dones s0 = []"
  shows "cell s = cell s0 + sum_list (dones s)"
  using assms(1)
proof (induction rule: rtranclp_induct)
  case base
  then show ?case using assms(3) by simp
next
  case (step s1 s2)
  from add_step_sum [OF step.hyps(2) assms(2) step.IH] show ?case .
qed

definition add_ex :: add_sys where
  "add_ex = \<lparr>cell = 5, add_pc = (\<lambda>_. AddIdle), dones = []\<rparr>"

theorem ps_cas_add_exact_witness:
  "\<exists>s. (add_step ps_cas)\<^sup>*\<^sup>* add_ex s \<and> dones s = [1] \<and> cell s = 6"
proof -
  let ?s1 = "add_ex\<lparr>add_pc := (add_pc add_ex)(0 := AddRead 1)\<rparr>"
  let ?s2 = "?s1\<lparr>add_pc := (add_pc ?s1)(0 := AddTry 1 (cell ?s1))\<rparr>"
  let ?s3 = "?s2\<lparr>cell := 6, add_pc := (add_pc ?s2)(0 := AddIdle), dones := 1 # dones ?s2\<rparr>"
  have "add_step ps_cas add_ex ?s1" by (rule add_begin) (simp add: add_ex_def)
  moreover have "add_step ps_cas ?s1 ?s2" by (rule add_read) simp
  moreover have "add_step ps_cas ?s2 ?s3" by (rule add_done [where t = 5]) (simp_all add: add_ex_def ps_cas_def)
  ultimately have "(add_step ps_cas)\<^sup>*\<^sup>* add_ex ?s3"
    by (meson converse_rtranclp_into_rtranclp rtranclp.rtrancl_refl)
  from ps_cas_add_exact [OF this ps_cas_atomic] this show ?thesis
    by (intro exI [of _ ?s3]) (simp add: add_ex_def)
qed

end
