(* ===== verification/SlCs.thy ===== *)
theory SlCs
  imports SlThd Atomic
begin

text \<open>
  The lock of the kernel-thread scheduler, step by step: \<open>sl_cs_enter\<close> and \<open>sl_cs_exit\<close> of \<open>sl.h\<close>
  with their contended halves in \<open>sl.c\<close>, run by any number of threads that may be preempted
  between any two accesses to the lock word. The word packs the capability of the owner (31 bits,
  0 for none) and the contention bit; a load reads both, \<open>ps_cas\<close> replaces both.

  \<open>SlThd\<close> runs the critical section as one step. Mutual exclusion, proved here, is what justifies
  that; \<open>enter_alone\<close> and \<open>exit_alone\<close> show that the two models agree.
\<close>

type_synonym lockword = "nat \<times> bool"

datatype cs_pc =
    CsOut
  | EnterLoad | EnterTest lockword
  | CsInside
  | ExitLoad | ExitTry lockword
  | CsAborted

record cs_sys =
  cs_word :: lockword
  cs_pc :: "nat \<Rightarrow> cs_pc"

abbreviation at :: "nat \<Rightarrow> cs_pc \<Rightarrow> cs_sys \<Rightarrow> cs_sys" where
  "at t p s \<equiv> s\<lparr>cs_pc := (cs_pc s)(t := p)\<rparr>"

text \<open>\<open>csi.s.owner = t->thdcap\<close>, an assignment to a field of 31 bits.\<close>

definition set_owner :: "nat \<Rightarrow> lockword \<Rightarrow> lockword" where
  "set_owner c v = (c mod 2 ^ 31, snd v)"

type_synonym lock_cas = "lockword \<Rightarrow> lockword \<Rightarrow> lockword \<Rightarrow> bool \<times> lockword"

inductive enter_step :: "lock_cas \<Rightarrow> (nat \<Rightarrow> nat) \<Rightarrow> nat \<Rightarrow> cs_sys \<Rightarrow> cs_sys \<Rightarrow> bool" for cas thdcap t where
  enter_call: "cs_pc s t = CsOut \<Longrightarrow> enter_step cas thdcap t s (at t EnterLoad s)"
| enter_load: "cs_pc s t = EnterLoad \<Longrightarrow> enter_step cas thdcap t s (at t (EnterTest (cs_word s)) s)"
| enter_recursive: "cs_pc s t = EnterTest v \<Longrightarrow> fst v \<noteq> 0 \<Longrightarrow> fst v = thdcap t \<Longrightarrow>
    enter_step cas thdcap t s (at t CsAborted s)"
| enter_wait: "cs_pc s t = EnterTest v \<Longrightarrow> fst v \<noteq> 0 \<Longrightarrow> fst v \<noteq> thdcap t \<Longrightarrow> snd v \<Longrightarrow>
    enter_step cas thdcap t s (at t EnterLoad s)"
| enter_contend: "cs_pc s t = EnterTest v \<Longrightarrow> fst v \<noteq> 0 \<Longrightarrow> fst v \<noteq> thdcap t \<Longrightarrow> \<not> snd v \<Longrightarrow>
    cas (cs_word s) v (fst v, True) = (b, w) \<Longrightarrow>
    enter_step cas thdcap t s (at t EnterLoad (s\<lparr>cs_word := w\<rparr>))"
| enter_take: "cs_pc s t = EnterTest v \<Longrightarrow> fst v = 0 \<Longrightarrow>
    cas (cs_word s) v (set_owner (thdcap t) v) = (True, w) \<Longrightarrow>
    enter_step cas thdcap t s (at t CsInside (s\<lparr>cs_word := w\<rparr>))"
| enter_retry: "cs_pc s t = EnterTest v \<Longrightarrow> fst v = 0 \<Longrightarrow>
    cas (cs_word s) v (set_owner (thdcap t) v) = (False, w) \<Longrightarrow>
    enter_step cas thdcap t s (at t EnterLoad (s\<lparr>cs_word := w\<rparr>))"

text \<open>The contended and the plain exit make the same exchange.\<close>

inductive exit_step :: "lock_cas \<Rightarrow> nat \<Rightarrow> cs_sys \<Rightarrow> cs_sys \<Rightarrow> bool" for cas t where
  exit_call: "cs_pc s t = CsInside \<Longrightarrow> exit_step cas t s (at t ExitLoad s)"
| exit_load: "cs_pc s t = ExitLoad \<Longrightarrow> exit_step cas t s (at t (ExitTry (cs_word s)) s)"
| exit_done: "cs_pc s t = ExitTry v \<Longrightarrow> cas (cs_word s) v (0, False) = (True, w) \<Longrightarrow>
    exit_step cas t s (at t CsOut (s\<lparr>cs_word := w\<rparr>))"
| exit_retry: "cs_pc s t = ExitTry v \<Longrightarrow> cas (cs_word s) v (0, False) = (False, w) \<Longrightarrow>
    exit_step cas t s (at t ExitLoad (s\<lparr>cs_word := w\<rparr>))"

definition cs_step :: "lock_cas \<Rightarrow> (nat \<Rightarrow> nat) \<Rightarrow> nat \<Rightarrow> cs_sys \<Rightarrow> cs_sys \<Rightarrow> bool" where
  "cs_step cas thdcap t s s' \<longleftrightarrow> enter_step cas thdcap t s s' \<or> exit_step cas t s s'"

definition some_step :: "lock_cas \<Rightarrow> (nat \<Rightarrow> nat) \<Rightarrow> nat set \<Rightarrow> cs_sys \<Rightarrow> cs_sys \<Rightarrow> bool" where
  "some_step cas thdcap T s s' \<longleftrightarrow> (\<exists>t\<in>T. cs_step cas thdcap t s s')"

fun inside :: "cs_pc \<Rightarrow> bool" where
  "inside CsInside = True"
| "inside ExitLoad = True"
| "inside (ExitTry v) = True"
| "inside p = False"

text \<open>The capabilities of the threads are distinct, non-zero, and fit the field of the lock.\<close>

definition good_caps :: "(nat \<Rightarrow> nat) \<Rightarrow> nat set \<Rightarrow> bool" where
  "good_caps thdcap T \<longleftrightarrow> inj_on thdcap T \<and> (\<forall>t\<in>T. 0 < thdcap t \<and> thdcap t < 2 ^ 31)"

lemma good_capsD:
  assumes "good_caps thdcap T" and "t \<in> T"
  shows "thdcap t \<noteq> 0" and "thdcap t mod 2 ^ 31 = thdcap t"
    and "u \<in> T \<Longrightarrow> thdcap t = thdcap u \<longleftrightarrow> t = u"
  using assms by (auto simp: good_caps_def inj_on_eq_iff)

subsection \<open>Mutual exclusion\<close>

text \<open>
  The owner field names the thread inside, and is 0 when there is none; no thread saw itself as
  the owner while it waits; the contention bit is set only while the lock is held.
\<close>

fun pc_ok :: "(nat \<Rightarrow> nat) \<Rightarrow> nat \<Rightarrow> cs_pc \<Rightarrow> bool" where
  "pc_ok thdcap t (EnterTest v) = (fst v \<noteq> thdcap t \<and> (snd v \<longrightarrow> fst v \<noteq> 0))"
| "pc_ok thdcap t CsAborted = False"
| "pc_ok thdcap t p = True"

definition cs_inv :: "(nat \<Rightarrow> nat) \<Rightarrow> nat set \<Rightarrow> cs_sys \<Rightarrow> bool" where
  "cs_inv thdcap T s \<longleftrightarrow>
     (\<forall>t\<in>T. inside (cs_pc s t) \<longleftrightarrow> fst (cs_word s) = thdcap t) \<and>
     (snd (cs_word s) \<longrightarrow> fst (cs_word s) \<noteq> 0) \<and>
     (\<forall>t\<in>T. pc_ok thdcap t (cs_pc s t))"

text \<open>A step that keeps the word and moves one thread without crossing the border of the section.\<close>

lemma cs_inv_move:
  assumes "cs_inv thdcap T s" and "inside p \<longleftrightarrow> inside (cs_pc s t)" and "pc_ok thdcap t p"
  shows "cs_inv thdcap T (at t p s)"
  using assms by (auto simp: cs_inv_def)

lemma cs_inv_mark:
  assumes "cs_inv thdcap T s" and "fst (cs_word s) \<noteq> 0"
  shows "cs_inv thdcap T (s\<lparr>cs_word := (fst (cs_word s), True)\<rparr>)"
  using assms by (auto simp: cs_inv_def)

lemma cs_inv_take:
  assumes "cs_inv thdcap T s" and "good_caps thdcap T" and "t \<in> T" and "fst (cs_word s) = 0"
  shows "cs_inv thdcap T (at t CsInside (s\<lparr>cs_word := (thdcap t, False)\<rparr>))"
  using assms good_capsD [OF assms(2)] by (auto simp: cs_inv_def)

lemma cs_inv_leave:
  assumes "cs_inv thdcap T s" and "good_caps thdcap T" and "t \<in> T" and "inside (cs_pc s t)"
  shows "cs_inv thdcap T (at t CsOut (s\<lparr>cs_word := (0, False)\<rparr>))"
proof -
  have "inside (cs_pc s u) \<longleftrightarrow> u = t" if "u \<in> T" for u
    using assms(1,3,4) good_capsD(3) [OF assms(2,3) that] that by (auto simp: cs_inv_def)
  then show ?thesis
    using assms(1) good_capsD(1) [OF assms(2)] by (auto simp: cs_inv_def)
qed

lemma enter_step_keeps:
  assumes "enter_step cas thdcap t s s'" and "atomic_cas cas" and "good_caps thdcap T"
    and "cs_inv thdcap T s" and "t \<in> T"
  shows "cs_inv thdcap T s'"
  using assms(1)
proof (cases rule: enter_step.cases)
  case enter_call
  with assms(4) show ?thesis by (simp add: cs_inv_move)
next
  case enter_load
  then have "\<not> inside (cs_pc s t)" by simp
  with assms(4,5) have "fst (cs_word s) \<noteq> thdcap t" by (simp add: cs_inv_def)
  moreover from assms(4) have "snd (cs_word s) \<longrightarrow> fst (cs_word s) \<noteq> 0" by (simp add: cs_inv_def)
  ultimately show ?thesis using enter_load assms(4) by (simp add: cs_inv_move)
next
  case (enter_recursive v)
  with assms(4,5) have "pc_ok thdcap t (EnterTest v)" by (metis cs_inv_def)
  with enter_recursive show ?thesis by simp
next
  case (enter_wait v)
  with assms(4) show ?thesis by (simp add: cs_inv_move)
next
  case (enter_contend v b w)
  have c: "cas (cs_word s) v (fst v, True) = (if cs_word s = v then (True, fst v, True) else (False, cs_word s))"
    using assms(2) [unfolded atomic_cas_def, THEN spec, THEN spec, THEN spec] by blast
  have w: "w = cs_word s \<or> fst (cs_word s) \<noteq> 0 \<and> w = (fst (cs_word s), True)"
    using enter_contend c by (simp split: if_split_asm)
  have "cs_inv thdcap T (s\<lparr>cs_word := w\<rparr>)"
    using w assms(4) cs_inv_mark [OF assms(4)] by auto
  from cs_inv_move [OF this, of EnterLoad t] enter_contend show ?thesis by simp
next
  case (enter_take v w)
  then have w: "cs_word s = v" "w = set_owner (thdcap t) v"
    using atomic_cas_True [OF assms(2)] by auto
  moreover from assms(4) w enter_take have "\<not> snd v" by (auto simp: cs_inv_def)
  ultimately have "w = (thdcap t, False)"
    using good_capsD(2) [OF assms(3,5)] by (simp add: set_owner_def)
  with cs_inv_take [OF assms(4,3,5)] enter_take w show ?thesis by simp
next
  case (enter_retry v w)
  then have "w = cs_word s" using atomic_cas_False [OF assms(2)] by auto
  with enter_retry assms(4) show ?thesis by (simp add: cs_inv_move)
qed

lemma exit_step_keeps:
  assumes "exit_step cas t s s'" and "atomic_cas cas" and "good_caps thdcap T"
    and "cs_inv thdcap T s" and "t \<in> T"
  shows "cs_inv thdcap T s'"
  using assms(1)
proof (cases rule: exit_step.cases)
  case (exit_done v w)
  then have "w = (0, False)" using atomic_cas_True [OF assms(2)] by auto
  with cs_inv_leave [OF assms(4,3,5)] exit_done show ?thesis by simp
next
  case (exit_retry v w)
  then have "w = cs_word s" using atomic_cas_False [OF assms(2)] by auto
  with exit_retry assms(4) show ?thesis by (simp add: cs_inv_move)
qed (use assms(4) in \<open>simp_all add: cs_inv_move\<close>)

lemma some_step_keeps [keeps]:
  "some_step cas thdcap T s s' \<Longrightarrow> atomic_cas cas \<Longrightarrow> good_caps thdcap T \<Longrightarrow> cs_inv thdcap T s \<Longrightarrow>
     cs_inv thdcap T s'"
  using enter_step_keeps exit_step_keeps by (auto simp: some_step_def cs_step_def)

definition cs_start :: cs_sys where
  "cs_start = \<lparr>cs_word = (0, False), cs_pc = (\<lambda>_. CsOut)\<rparr>"

lemma reachable_inv:
  assumes "(some_step cas thdcap T)\<^sup>*\<^sup>* cs_start s" and "atomic_cas cas" and "good_caps thdcap T"
  shows "cs_inv thdcap T s"
  using assms(1)
proof (induction rule: rtranclp_induct)
  case base
  then show ?case using good_capsD(1) [OF assms(3)] by (auto simp: cs_inv_def cs_start_def)
next
  case (step s1 s2)
  with assms(2,3) show ?case by (blast intro: some_step_keeps)
qed

text \<open>C16: mutual exclusion of the scheduler lock: under every interleaving of threads that enter and
  leave, at most one is inside, the owner field holds its capability, no thread ever trips over
  the assertion against recursive locking, and a free lock has a clear contention bit.\<close>

theorem sl_cs_mutual_exclusion:
  assumes "(some_step cas thdcap T)\<^sup>*\<^sup>* cs_start s" and "atomic_cas cas" and "good_caps thdcap T"
    and "t \<in> T" and "u \<in> T"
  shows "(inside (cs_pc s t) \<and> inside (cs_pc s u) \<longrightarrow> t = u) \<and>
    (inside (cs_pc s t) \<longleftrightarrow> fst (cs_word s) = thdcap t) \<and> cs_pc s t \<noteq> CsAborted \<and>
    (fst (cs_word s) = 0 \<longrightarrow> cs_word s = (0, False))"
proof -
  note inv = reachable_inv [OF assms(1-3)]
  have i: "inside (cs_pc s v) \<longleftrightarrow> fst (cs_word s) = thdcap v" if "v \<in> T" for v
    using inv that by (simp add: cs_inv_def)
  have "pc_ok thdcap t (cs_pc s t)" using inv assms(4) by (simp add: cs_inv_def)
  then have "cs_pc s t \<noteq> CsAborted" by auto
  moreover have "inside (cs_pc s t) \<and> inside (cs_pc s u) \<longrightarrow> t = u"
    using i [OF assms(4)] i [OF assms(5)] good_capsD(3) [OF assms(3,4,5)] by auto
  moreover have "fst (cs_word s) = 0 \<longrightarrow> cs_word s = (0, False)"
    using inv by (cases "cs_word s") (auto simp: cs_inv_def)
  ultimately show ?thesis using i [OF assms(4)] by blast
qed

subsection \<open>A thread that runs alone\<close>

text \<open>\<open>enter_alone\<close> and \<open>exit_alone\<close>: the run of a thread that is not interrupted, from the call
  on. It is what \<open>SlThd.sl_cs_enter\<close> and \<open>SlThd.sl_cs_exit\<close> compute.\<close>

abbreviation alone :: "(nat \<Rightarrow> nat) \<Rightarrow> nat \<Rightarrow> cs_sys \<Rightarrow> cs_sys \<Rightarrow> bool" where
  "alone thdcap t \<equiv> (cs_step ps_cas thdcap t)\<^sup>*\<^sup>*"

definition word_of :: "sl_sys \<Rightarrow> lockword" where
  "word_of s = (cs_owner s, cs_contention s)"

lemma stepI:
  "enter_step cas thdcap t s s' \<Longrightarrow> cs_step cas thdcap t s s'"
  "exit_step cas t s s' \<Longrightarrow> cs_step cas thdcap t s s'"
  by (simp_all add: cs_step_def)

lemma enter_to_test:
  assumes "cs_pc c t = CsOut"
  shows "alone thdcap t c (at t (EnterTest (cs_word c)) c)"
proof -
  have "cs_step ps_cas thdcap t c (at t EnterLoad c)" using assms by (blast intro: stepI enter_call)
  moreover have "cs_step ps_cas thdcap t (at t EnterLoad c) (at t (EnterTest (cs_word c)) c)"
    using stepI(1) [OF enter_load, of "at t EnterLoad c" t ps_cas thdcap] by simp
  ultimately show ?thesis by (meson converse_rtranclp_into_rtranclp rtranclp.rtrancl_refl)
qed

lemma enter_alone_free:
  assumes "cs_pc c t = CsOut" and "cs_word c = (0, False)"
  shows "alone thdcap t c (at t CsInside (c\<lparr>cs_word := (thdcap t mod 2 ^ 31, False)\<rparr>))"
proof -
  let ?m = "at t (EnterTest (cs_word c)) c"
  have "enter_step ps_cas thdcap t ?m (at t CsInside (?m\<lparr>cs_word := (thdcap t mod 2 ^ 31, False)\<rparr>))"
    using assms by (intro enter_take [of ?m t "cs_word c"]) (simp_all add: ps_cas_def set_owner_def)
  then have "cs_step ps_cas thdcap t ?m (at t CsInside (c\<lparr>cs_word := (thdcap t mod 2 ^ 31, False)\<rparr>))"
    by (intro stepI(1)) simp
  with enter_to_test [OF assms(1)] show ?thesis by (rule rtranclp.rtrancl_into_rtrancl)
qed

lemma enter_alone_held:
  assumes "cs_pc c t = CsOut" and "fst (cs_word c) \<noteq> 0" and "fst (cs_word c) \<noteq> thdcap t"
  shows "alone thdcap t c (at t EnterLoad (c\<lparr>cs_word := (fst (cs_word c), True)\<rparr>))"
proof -
  let ?m = "at t (EnterTest (cs_word c)) c"
  have "enter_step ps_cas thdcap t ?m (at t EnterLoad (?m\<lparr>cs_word := (fst (cs_word c), True)\<rparr>))"
  proof (cases "snd (cs_word c)")
    case True
    then have "(fst (cs_word c), True) = cs_word c" by (cases "cs_word c") simp
    then have "?m\<lparr>cs_word := (fst (cs_word c), True)\<rparr> = ?m" by simp
    with enter_wait [of ?m t "cs_word c" thdcap ps_cas] assms True show ?thesis by simp
  next
    case False
    with assms show ?thesis
      by (intro enter_contend [of ?m t "cs_word c" _ _ True]) (simp_all add: ps_cas_def)
  qed
  then have "cs_step ps_cas thdcap t ?m (at t EnterLoad (c\<lparr>cs_word := (fst (cs_word c), True)\<rparr>))"
    by (intro stepI(1)) simp
  with enter_to_test [OF assms(1)] show ?thesis by (rule rtranclp.rtrancl_into_rtrancl)
qed

lemma exit_alone:
  assumes "cs_pc c t = CsInside"
  shows "alone thdcap t c (at t CsOut (c\<lparr>cs_word := (0, False)\<rparr>))"
proof -
  let ?a = "at t ExitLoad c" and ?b = "at t (ExitTry (cs_word c)) c"
  have "exit_step ps_cas t ?b (at t CsOut (?b\<lparr>cs_word := (0, False)\<rparr>))"
    by (intro exit_done [of ?b t "cs_word c"]) (simp_all add: ps_cas_def)
  then have "cs_step ps_cas thdcap t ?b (at t CsOut (c\<lparr>cs_word := (0, False)\<rparr>))"
    by (intro stepI(2)) simp
  moreover have "cs_step ps_cas thdcap t ?a ?b"
    using stepI(2) [OF exit_load, of ?a t ps_cas thdcap] by simp
  moreover have "cs_step ps_cas thdcap t c ?a" using assms by (blast intro: stepI exit_call)
  ultimately show ?thesis by (meson converse_rtranclp_into_rtranclp rtranclp.rtrancl_refl)
qed

text \<open>An uninterrupted \<open>sl_cs_enter\<close> of the step model does to the lock word what the
  sequential model says: it takes a free lock; it sets the contention bit of a held one, switches
  to the owner and goes back to its start.\<close>

theorem sl_cs_enter_agrees:
  assumes "sl_thd_curr k = Inr t" and "thdcap t = t_thdcap (sl_threads s t)" and "thdcap t < 2 ^ 31"
    and "cs_word c = word_of s" and "cs_owner s \<noteq> 0 \<or> \<not> cs_contention s"
    and "cs_pc c t = CsOut" and "sl_cs_enter k s = Inr (w, s1)"
  shows "alone thdcap t c (at t (if w = None then CsInside else EnterLoad) (c\<lparr>cs_word := word_of s1\<rparr>))"
proof (cases "cs_owner s = 0")
  case True
  with assms have "w = None" and "word_of s1 = (thdcap t mod 2 ^ 31, False)"
    by (auto simp: sl_cs_enter_def word_of_def)
  moreover have "cs_word c = (0, False)" using True assms by (simp add: word_of_def)
  ultimately show ?thesis using enter_alone_free [OF assms(6), of thdcap] by simp
next
  case False
  with assms have "w \<noteq> None" and "word_of s1 = (fst (cs_word c), True)"
      and "fst (cs_word c) \<noteq> thdcap t"
    by (auto simp: sl_cs_enter_def sl_cs_enter_contention_def rbind_assertion word_of_def split: if_splits)
  moreover have "fst (cs_word c) \<noteq> 0" using False assms by (simp add: word_of_def)
  ultimately show ?thesis using enter_alone_held [OF assms(6), of thdcap] by (simp del: not_None_eq)
qed

lemma sl_cs_exit_agrees:
  assumes "sl_thd_curr k = Inr t" and "cs_pc c t = CsInside" and "sl_cs_exit k s = Inr (ws, s1)"
  shows "alone thdcap t c (at t CsOut (c\<lparr>cs_word := word_of s1\<rparr>))"
proof -
  from assms have "word_of s1 = (0, False)"
    by (auto simp: sl_cs_exit_def sl_cs_exit_contention_def Let_def word_of_def split: if_splits)
  with exit_alone [OF assms(2), of thdcap] show ?thesis by simp
qed

subsection \<open>Witnesses\<close>

definition caps_ex :: "nat \<Rightarrow> nat" where
  "caps_ex t = t + 100"

text \<open>Thread 1 has entered while thread 2 is waiting for the lock.\<close>

theorem sl_cs_mutual_exclusion_witness:
  "\<exists>s. (some_step ps_cas caps_ex {1, 2})\<^sup>*\<^sup>* cs_start s \<and> cs_pc s 1 = CsInside \<and>
     cs_pc s 2 = EnterLoad \<and> cs_word s = (101, True) \<and> cs_pc s 2 \<noteq> CsAborted \<and> \<not> inside (cs_pc s 2)"
proof -
  let ?s1 = "at 1 CsInside (cs_start\<lparr>cs_word := (101, False)\<rparr>)"
  let ?s2 = "at 2 EnterLoad (?s1\<lparr>cs_word := (101, True)\<rparr>)"
  have all: "(some_step ps_cas caps_ex {1, 2})\<^sup>*\<^sup>* c d" if "alone caps_ex t c d" and "t \<in> {1, 2}" for t c d
    using that(1) by (rule rtranclp_mono [THEN predicate2D, rotated])
      (use that(2) in \<open>auto simp: some_step_def\<close>)
  have "alone caps_ex 1 cs_start ?s1"
    using enter_alone_free [of cs_start 1 caps_ex] by (simp add: cs_start_def caps_ex_def)
  moreover have "alone caps_ex 2 ?s1 ?s2"
    using enter_alone_held [of ?s1 2 caps_ex] by (simp add: cs_start_def caps_ex_def)
  ultimately have run: "(some_step ps_cas caps_ex {1, 2})\<^sup>*\<^sup>* cs_start ?s2"
    using all [of 1 cs_start ?s1] all [of 2 ?s1 ?s2] by (meson insertI1 insertI2 rtranclp_trans)
  have "good_caps caps_ex {1, 2}" by (simp add: good_caps_def caps_ex_def)
  from sl_cs_mutual_exclusion [OF run ps_cas_atomic this, of 2 1] run show ?thesis
    by (intro exI [of _ ?s2]) simp
qed

theorem sl_cs_enter_agrees_witness:
  "alone caps_ex 1 cs_start (at 1 CsInside (cs_start\<lparr>cs_word := (101, False)\<rparr>))"
proof -
  have f: "sl_thd_curr env_ex = Inr 1" by (simp add: sl_thd_curr_def sl_thd_lkup_def sl_thd_lookup_backend_def env_ex_def)
  then have "sl_cs_enter env_ex (sl_ex zero_policy) = Inr (None, (sl_ex zero_policy)\<lparr>cs_owner := 101\<rparr>)"
    by (simp add: sl_cs_enter_def)
  with sl_cs_enter_agrees [OF f, of caps_ex "sl_ex zero_policy" cs_start] show ?thesis
    by (simp add: caps_ex_def cs_start_def word_of_def)
qed

end
