(* ===== verification/RbufCas.thy ===== *)
theory RbufCas
  imports Rbuf Atomic
begin

text \<open>
  The ring buffer of the kernel-thread port, \<open>scheddev/rbuf.c\<close>: \<open>rbuf_write\<close> and \<open>rbuf_read\<close>
  publish their index with \<open>ps_cas\<close>, so that several kernel threads may use one buffer. The
  other operations are those of \<open>rbuf.c\<close>.

  Each kernel thread is at a point of \<open>rbuf_write\<close> or \<open>rbuf_read\<close> (\<open>pc\<close>); a step of the system
  is one access to the shared buffer by one of them. The log \<open>accepted\<close> records the data of the
  writes that returned WRITERBUF_OK, in the order of their compare-and-swap, \<open>taken\<close> what the
  reads returned.
\<close>

datatype rb_pc = Idle
  | WTest addr | WLoad addr | WStore addr u32 | WCas addr u32
  | RTest | RLoad | RGet u32 | RCas u32 addr

record rb_sys =
  rb :: rbuf
  pc :: "nat \<Rightarrow> rb_pc"
  accepted :: "addr list"
  taken :: "addr list"

abbreviation goto :: "nat \<Rightarrow> rb_pc \<Rightarrow> rb_sys \<Rightarrow> rb_sys" where
  "goto i p s \<equiv> s\<lparr>pc := (pc s)(i := p)\<rparr>"

inductive write_step :: "(u32 \<Rightarrow> u32 \<Rightarrow> u32 \<Rightarrow> bool \<times> u32) \<Rightarrow> nat \<Rightarrow> rb_sys \<Rightarrow> rb_sys \<Rightarrow> bool" for cas i where
  w_call: "pc s i = Idle \<Longrightarrow> d \<noteq> NULL \<Longrightarrow> write_step cas i s (goto i (WTest d) s)"
| w_full: "pc s i = WTest d \<Longrightarrow> rbuf_isfull (rb s) \<Longrightarrow> write_step cas i s (goto i Idle s)"
| w_room: "pc s i = WTest d \<Longrightarrow> \<not> rbuf_isfull (rb s) \<Longrightarrow> write_step cas i s (goto i (WLoad d) s)"
| w_load: "pc s i = WLoad d \<Longrightarrow> write_step cas i s (goto i (WStore d (rb_tail (rb s))) s)"
| w_store: "pc s i = WStore d t \<Longrightarrow> unat t < rb_slots (rb s) \<Longrightarrow>
    write_step cas i s (goto i (WCas d t) (s\<lparr>rb := (rb s)\<lparr>rb_mem := (rb_mem (rb s))(unat t := d)\<rparr>\<rparr>))"
| w_done: "pc s i = WCas d t \<Longrightarrow> cas (rb_tail (rb s)) t ((t + 1) mod rb_capacity (rb s)) = (True, w) \<Longrightarrow>
    write_step cas i s (goto i Idle (s\<lparr>rb := (rb s)\<lparr>rb_tail := w\<rparr>, accepted := accepted s @ [d]\<rparr>))"
| w_retry: "pc s i = WCas d t \<Longrightarrow> cas (rb_tail (rb s)) t ((t + 1) mod rb_capacity (rb s)) = (False, w) \<Longrightarrow>
    write_step cas i s (goto i (WTest d) (s\<lparr>rb := (rb s)\<lparr>rb_tail := w\<rparr>\<rparr>))"

inductive read_step :: "(u32 \<Rightarrow> u32 \<Rightarrow> u32 \<Rightarrow> bool \<times> u32) \<Rightarrow> nat \<Rightarrow> rb_sys \<Rightarrow> rb_sys \<Rightarrow> bool" for cas i where
  r_call: "pc s i = Idle \<Longrightarrow> read_step cas i s (goto i RTest s)"
| r_empty: "pc s i = RTest \<Longrightarrow> rbuf_isempty (rb s) \<Longrightarrow> read_step cas i s (goto i Idle s)"
| r_some: "pc s i = RTest \<Longrightarrow> \<not> rbuf_isempty (rb s) \<Longrightarrow> read_step cas i s (goto i RLoad s)"
| r_load: "pc s i = RLoad \<Longrightarrow> read_step cas i s (goto i (RGet (rb_head (rb s))) s)"
| r_get: "pc s i = RGet h \<Longrightarrow> unat h < rb_slots (rb s) \<Longrightarrow>
    read_step cas i s (goto i (RCas h (rb_mem (rb s) (unat h))) s)"
| r_done: "pc s i = RCas h v \<Longrightarrow> cas (rb_head (rb s)) h ((h + 1) mod rb_capacity (rb s)) = (True, w) \<Longrightarrow>
    read_step cas i s (goto i Idle (s\<lparr>rb := (rb s)\<lparr>rb_head := w\<rparr>, taken := taken s @ [v]\<rparr>))"
| r_retry: "pc s i = RCas h v \<Longrightarrow> cas (rb_head (rb s)) h ((h + 1) mod rb_capacity (rb s)) = (False, w) \<Longrightarrow>
    read_step cas i s (goto i RLoad (s\<lparr>rb := (rb s)\<lparr>rb_head := w\<rparr>\<rparr>))"

text \<open>The system: the threads of \<open>W\<close> write and those of \<open>R\<close> read.\<close>

inductive rb_step :: "(u32 \<Rightarrow> u32 \<Rightarrow> u32 \<Rightarrow> bool \<times> u32) \<Rightarrow> nat set \<Rightarrow> nat set \<Rightarrow> rb_sys \<Rightarrow> rb_sys \<Rightarrow> bool"
    for cas W R where
  by_writer: "i \<in> W \<Longrightarrow> write_step cas i s s' \<Longrightarrow> rb_step cas W R s s'"
| by_reader: "i \<in> R \<Longrightarrow> read_step cas i s s' \<Longrightarrow> rb_step cas W R s s'"

inductive_cases rb_stepE: "rb_step cas W R s s'"

subsection \<open>The pieces of a write and of a read\<close>

lemma advance_tail:
  assumes "rbuf_ok r" and "\<not> rbuf_isfull r" and "rb_mem r (unat (rb_tail r)) = d" and "d \<noteq> NULL"
  shows "rbuf_ok (r\<lparr>rb_tail := (rb_tail r + 1) mod rb_capacity r\<rparr>) \<and>
    contents (r\<lparr>rb_tail := (rb_tail r + 1) mod rb_capacity r\<rparr>) = contents r @ [d]"
proof -
  have idem: "r\<lparr>rb_mem := (rb_mem r)(unat (rb_tail r) := d), rb_tail := (rb_tail r + 1) mod rb_capacity r\<rparr> =
      r\<lparr>rb_tail := (rb_tail r + 1) mod rb_capacity r\<rparr>"
    using assms(3) by (simp add: fun_upd_idem)
  have "unat (rb_tail r) < rb_slots r" using rbuf_okD [OF assms(1)] by simp
  with rbuf_write_contents [OF assms(1,4,2)] assms(2,4) show ?thesis
    by (simp add: rbuf_write_def idem)
qed

lemma store_tail:
  assumes "rbuf_ok r" and "\<not> rbuf_isfull r" and "d \<noteq> NULL"
  shows "rbuf_ok (r\<lparr>rb_mem := (rb_mem r)(unat (rb_tail r) := d)\<rparr>) \<and>
    contents (r\<lparr>rb_mem := (rb_mem r)(unat (rb_tail r) := d)\<rparr>) = contents r"
proof -
  let ?r = "r\<lparr>rb_mem := (rb_mem r)(unat (rb_tail r) := d)\<rparr>"
  have ok: "rbuf_ok ?r" using assms(1) by (simp add: rbuf_ok_def)
  have "\<not> rbuf_isfull ?r" using assms(2) by (simp add: rbuf_isfull_def)
  from advance_tail [OF ok this, of d] assms(3)
  have "contents (?r\<lparr>rb_tail := (rb_tail r + 1) mod rb_capacity r\<rparr>) = contents ?r @ [d]" by simp
  moreover have "unat (rb_tail r) < rb_slots r" using rbuf_okD [OF assms(1)] by simp
  with rbuf_write_contents [OF assms(1,3,2)] assms(2,3)
  have "contents (?r\<lparr>rb_tail := (rb_tail r + 1) mod rb_capacity r\<rparr>) = contents r @ [d]"
    by (simp add: rbuf_write_def)
  ultimately show ?thesis using ok by simp
qed

lemma advance_head:
  assumes "rbuf_ok r" and "\<not> rbuf_isempty r"
  shows "rbuf_ok (r\<lparr>rb_head := (rb_head r + 1) mod rb_capacity r\<rparr>) \<and>
    contents r = rb_mem r (unat (rb_head r)) # contents (r\<lparr>rb_head := (rb_head r + 1) mod rb_capacity r\<rparr>)"
proof -
  obtain x xs where c: "contents r = x # xs"
    using assms rbq.empty_abs by (cases "contents r") auto
  have "unat (rb_head r) < rb_slots r" using rbuf_okD [OF assms(1)] by simp
  with rbuf_read_contents [OF assms(1) c] assms(2) c show ?thesis by (simp add: rbuf_read_def)
qed

lemma head_advance_not_full:
  assumes "rbuf_ok r" and "\<not> rbuf_isempty r" and "\<not> rbuf_isfull r"
  shows "\<not> rbuf_isfull (r\<lparr>rb_head := (rb_head r + 1) mod rb_capacity r\<rparr>)"
proof -
  note a = advance_head [OF assms(1,2)]
  have "length (contents r) < unat (rbuf_capacity r)"
    using rbq.bound [OF assms(1)] rbq.full_abs [OF assms(1)] assms(3) by simp
  moreover have "rbuf_capacity (r\<lparr>rb_head := (rb_head r + 1) mod rb_capacity r\<rparr>) = rbuf_capacity r"
    by (simp add: rbuf_capacity_def)
  ultimately show ?thesis using a rbq.full_abs [OF conjunct1 [OF a]] by simp
qed

lemma tail_advance_not_empty:
  assumes "rbuf_ok r" and "\<not> rbuf_isfull r" and "rb_mem r (unat (rb_tail r)) = d" and "d \<noteq> NULL"
  shows "\<not> rbuf_isempty (r\<lparr>rb_tail := (rb_tail r + 1) mod rb_capacity r\<rparr>)"
  using advance_tail [OF assms] rbq.empty_abs by auto

subsection \<open>One writer and one reader\<close>

fun writer_at :: "rbuf \<Rightarrow> rb_pc \<Rightarrow> bool" where
  "writer_at r (WTest d) = (d \<noteq> NULL)"
| "writer_at r (WLoad d) = (d \<noteq> NULL \<and> \<not> rbuf_isfull r)"
| "writer_at r (WStore d t) = (d \<noteq> NULL \<and> \<not> rbuf_isfull r \<and> t = rb_tail r)"
| "writer_at r (WCas d t) = (d \<noteq> NULL \<and> \<not> rbuf_isfull r \<and> t = rb_tail r \<and> rb_mem r (unat t) = d)"
| "writer_at r p = (p = Idle)"

fun reader_at :: "rbuf \<Rightarrow> rb_pc \<Rightarrow> bool" where
  "reader_at r RTest = True"
| "reader_at r RLoad = (\<not> rbuf_isempty r)"
| "reader_at r (RGet h) = (\<not> rbuf_isempty r \<and> h = rb_head r)"
| "reader_at r (RCas h v) = (\<not> rbuf_isempty r \<and> h = rb_head r \<and> v = rb_mem r (unat h))"
| "reader_at r p = (p = Idle)"

definition spsc_inv :: "addr list \<Rightarrow> nat \<Rightarrow> nat \<Rightarrow> rb_sys \<Rightarrow> bool" where
  "spsc_inv c0 w r s \<longleftrightarrow> rbuf_ok (rb s) \<and> c0 @ accepted s = taken s @ contents (rb s) \<and>
     writer_at (rb s) (pc s w) \<and> reader_at (rb s) (pc s r)"

text \<open>What the other side's accesses do to where a thread is.\<close>

lemma writer_at_read:
  "writer_at r p \<Longrightarrow> rbuf_ok r \<Longrightarrow> \<not> rbuf_isempty r \<Longrightarrow>
   writer_at (r\<lparr>rb_head := (rb_head r + 1) mod rb_capacity r\<rparr>) p"
  using head_advance_not_full by (cases p) auto

lemma reader_at_store:
  "reader_at r p \<Longrightarrow> reader_at (r\<lparr>rb_mem := (rb_mem r)(unat (rb_tail r) := d)\<rparr>) p"
  by (cases p) (auto simp: rbuf_isempty_def word_unat_eq_iff)

lemma reader_at_write:
  "reader_at r p \<Longrightarrow> \<not> rbuf_isempty (r\<lparr>rb_tail := t\<rparr>) \<Longrightarrow> reader_at (r\<lparr>rb_tail := t\<rparr>) p"
  by (cases p) (auto simp: rbuf_isempty_def)

lemma spsc_write:
  assumes "write_step cas w s s'" and "spsc_inv c0 w r s" and "w \<noteq> r" and "atomic_cas cas"
  shows "spsc_inv c0 w r s'"
  using assms(1)
proof (cases rule: write_step.cases)
  case (w_store d t)
  with assms(2,3) store_tail [of "rb s" d] reader_at_store [of "rb s" "pc s r" d] show ?thesis
    by (auto simp: spsc_inv_def rbuf_isfull_def)
next
  case (w_done d t v)
  with assms(2) have p: "d \<noteq> NULL" "\<not> rbuf_isfull (rb s)" "t = rb_tail (rb s)"
    "rb_mem (rb s) (unat t) = d" "rbuf_ok (rb s)" by (auto simp: spsc_inv_def)
  have v: "v = (rb_tail (rb s) + 1) mod rb_capacity (rb s)"
    using w_done(3) p(3) by (simp add: atomic_cas_True [OF assms(4)])
  note t = advance_tail [OF p(5,2)] tail_advance_not_empty [OF p(5,2)]
  show ?thesis using assms(2,3) w_done(1) p t reader_at_write [of "rb s" "pc s r" v]
    by (simp add: spsc_inv_def v)
next
  case (w_retry d t v)
  with assms(2) have "t = rb_tail (rb s)" by (auto simp: spsc_inv_def)
  with w_retry(3) show ?thesis by (simp add: atomic_cas_False [OF assms(4)])
qed (use assms(2,3) in \<open>auto simp: spsc_inv_def\<close>)

lemma spsc_read:
  assumes "read_step cas r s s'" and "spsc_inv c0 w r s" and "w \<noteq> r" and "atomic_cas cas"
  shows "spsc_inv c0 w r s'"
  using assms(1)
proof (cases rule: read_step.cases)
  case (r_done h v n)
  with assms(2) have p: "\<not> rbuf_isempty (rb s)" "h = rb_head (rb s)" "v = rb_mem (rb s) (unat h)"
    "rbuf_ok (rb s)" by (auto simp: spsc_inv_def)
  have n: "n = (rb_head (rb s) + 1) mod rb_capacity (rb s)"
    using r_done(3) p(2) by (simp add: atomic_cas_True [OF assms(4)])
  show ?thesis using assms(2,3) r_done(1) p advance_head [OF p(4,1)] writer_at_read [of "rb s" "pc s w"]
    by (simp add: spsc_inv_def n)
next
  case (r_retry h v n)
  with assms(2) have "h = rb_head (rb s)" by (auto simp: spsc_inv_def)
  with r_retry(3) show ?thesis by (simp add: atomic_cas_False [OF assms(4)])
qed (use assms(2,3) in \<open>auto simp: spsc_inv_def\<close>)

subsection \<open>Runs of one thread\<close>

lemma steps_trans:
  "r\<^sup>*\<^sup>* a b \<Longrightarrow> r\<^sup>*\<^sup>* b c \<Longrightarrow> r\<^sup>*\<^sup>* a c"
  by (rule rtranclp_trans)

lemma by_writer_step: "i \<in> W \<Longrightarrow> write_step cas i s s' \<Longrightarrow> (rb_step cas W R)\<^sup>*\<^sup>* s s'"
  by (blast intro: by_writer)

lemma by_reader_step: "i \<in> R \<Longrightarrow> read_step cas i s s' \<Longrightarrow> (rb_step cas W R)\<^sup>*\<^sup>* s s'"
  by (blast intro: by_reader)

lemma goto_goto [simp]: "goto i p (goto i p' s) = goto i p s"
  by simp

text \<open>From the full test to the store, and from the store to the end of an undisturbed write.\<close>

lemma write_prepare:
  assumes "i \<in> W" and "pc s i = WTest d" and "\<not> rbuf_isfull (rb s)"
  shows "(rb_step cas W R)\<^sup>*\<^sup>* s (goto i (WStore d (rb_tail (rb s))) s)"
proof -
  have "write_step cas i s (goto i (WLoad d) s)" by (rule w_room) (use assms in simp_all)
  moreover have "write_step cas i (goto i (WLoad d) s)
      (goto i (WStore d (rb_tail (rb (goto i (WLoad d) s)))) (goto i (WLoad d) s))"
    by (rule w_load) simp
  ultimately show ?thesis using assms(1) by (auto intro: by_writer steps_trans [OF by_writer_step by_writer_step])
qed

lemma write_finish:
  assumes "i \<in> W" and "pc s i = WStore d (rb_tail (rb s))" and "rbuf_ok (rb s)" and "atomic_cas cas"
  shows "(rb_step cas W R)\<^sup>*\<^sup>* s (goto i Idle (s\<lparr>rb := (rb s)\<lparr>rb_mem := (rb_mem (rb s))(unat (rb_tail (rb s)) := d),
      rb_tail := (rb_tail (rb s) + 1) mod rb_capacity (rb s)\<rparr>, accepted := accepted s @ [d]\<rparr>))"
proof -
  let ?t = "rb_tail (rb s)"
  let ?s1 = "goto i (WCas d ?t) (s\<lparr>rb := (rb s)\<lparr>rb_mem := (rb_mem (rb s))(unat ?t := d)\<rparr>\<rparr>)"
  have "write_step cas i s ?s1"
    by (rule w_store [OF assms(2)]) (use rbuf_okD [OF assms(3)] in simp)
  moreover have "write_step cas i ?s1 (goto i Idle (?s1\<lparr>rb := (rb ?s1)\<lparr>rb_tail :=
      (?t + 1) mod rb_capacity (rb s)\<rparr>, accepted := accepted ?s1 @ [d]\<rparr>))"
    by (rule w_done [where t = ?t]) (simp_all add: atomic_cas_True [OF assms(4)])
  ultimately show ?thesis using assms(1)
    steps_trans [OF by_writer_step by_writer_step, of i W cas s ?s1 i] by simp
qed

lemma read_take:
  assumes "i \<in> R" and "pc s i = RLoad" and "rbuf_ok (rb s)" and "atomic_cas cas"
  shows "(rb_step cas W R)\<^sup>*\<^sup>* s (goto i Idle (s\<lparr>rb := (rb s)\<lparr>rb_head :=
      (rb_head (rb s) + 1) mod rb_capacity (rb s)\<rparr>,
      taken := taken s @ [rb_mem (rb s) (unat (rb_head (rb s)))]\<rparr>))"
proof -
  let ?h = "rb_head (rb s)" and ?v = "rb_mem (rb s) (unat (rb_head (rb s)))"
  let ?s1 = "goto i (RGet ?h) s" and ?s2 = "goto i (RCas ?h ?v) s"
  have "read_step cas i s ?s1" by (rule r_load [OF assms(2)])
  moreover have "read_step cas i ?s1 ?s2"
    using r_get [of ?s1 i ?h cas] rbuf_okD [OF assms(3)] by simp
  moreover have "read_step cas i ?s2 (goto i Idle (?s2\<lparr>rb := (rb ?s2)\<lparr>rb_head :=
      (?h + 1) mod rb_capacity (rb s)\<rparr>, taken := taken ?s2 @ [?v]\<rparr>))"
    by (rule r_done [where h = ?h]) (simp_all add: atomic_cas_True [OF assms(4)])
  ultimately have "(rb_step cas W R)\<^sup>*\<^sup>* s (goto i Idle (?s2\<lparr>rb := (rb ?s2)\<lparr>rb_head :=
      (?h + 1) mod rb_capacity (rb s)\<rparr>, taken := taken ?s2 @ [?v]\<rparr>))"
    using assms(1) by (meson by_reader_step steps_trans)
  then show ?thesis by simp
qed

text \<open>The buffer after an undisturbed write.\<close>

definition written :: "addr \<Rightarrow> rbuf \<Rightarrow> rbuf" where
  "written d r = r\<lparr>rb_mem := (rb_mem r)(unat (rb_tail r) := d), rb_tail := (rb_tail r + 1) mod rb_capacity r\<rparr>"

lemma written_contents:
  assumes "rbuf_ok r" and "\<not> rbuf_isfull r" and "d \<noteq> NULL"
  shows "rbuf_ok (written d r)" "contents (written d r) = contents r @ [d]"
    "rbuf_capacity (written d r) = rbuf_capacity r" "rb_tail (written d r) \<noteq> rb_tail r"
proof -
  have "unat (rb_tail r) < rb_slots r" using rbuf_okD [OF assms(1)] by simp
  with rbuf_write_contents [OF assms(1,3,2)] assms(2,3)
  show 1: "rbuf_ok (written d r)" "contents (written d r) = contents r @ [d]"
    "rbuf_capacity (written d r) = rbuf_capacity r"
    by (simp_all add: rbuf_write_def written_def)
  show "rb_tail (written d r) \<noteq> rb_tail r"
  proof
    assume "rb_tail (written d r) = rb_tail r"
    then have "count (written d r) = count r" by (simp add: count_def written_def)
    with 1(2) show False using length_contents [of "written d r"] by simp
  qed
qed

lemma overwrite_written:
  "(written d r)\<lparr>rb_mem := (rb_mem (written d r))(unat (rb_tail r) := e)\<rparr> = written e r"
  by (simp add: written_def)

lemma write_finish_written:
  assumes "i \<in> W" and "pc s i = WStore d (rb_tail (rb s))" and "rbuf_ok (rb s)" and "atomic_cas cas"
  shows "(rb_step cas W R)\<^sup>*\<^sup>* s (goto i Idle (s\<lparr>rb := written d (rb s), accepted := accepted s @ [d]\<rparr>))"
  using write_finish [OF assms, of R] by (simp add: written_def)

text \<open>A store with a stale index, and the failing compare-and-swap after it.\<close>

lemma write_late:
  assumes "i \<in> W" and "pc s i = WStore d (rb_tail r)" and "rb s = written e r" and "rbuf_ok r"
    and "\<not> rbuf_isfull r" and "e \<noteq> NULL" and "atomic_cas cas"
  shows "(rb_step cas W R)\<^sup>*\<^sup>* s (goto i (WTest d) (s\<lparr>rb := written d r\<rparr>))"
proof -
  let ?s1 = "goto i (WCas d (rb_tail r)) (s\<lparr>rb := written d r\<rparr>)"
  have "unat (rb_tail r) < rb_slots (written e r)" using rbuf_okD [OF assms(4)] by (simp add: written_def)
  then have "write_step cas i s ?s1"
    using w_store [of s i d "rb_tail r" cas] assms(2,3) overwrite_written [of e r d] by simp
  moreover have "rb_tail (written d r) \<noteq> rb_tail r"
    using written_contents(4) [OF assms(4,5,6)] by (simp add: written_def)
  then have "write_step cas i ?s1 (goto i (WTest d) (?s1\<lparr>rb := (rb ?s1)\<lparr>rb_tail := rb_tail (written d r)\<rparr>\<rparr>))"
    by (intro w_retry [where t = "rb_tail r"]) (simp_all add: atomic_cas_False [OF assms(7)])
  ultimately show ?thesis using steps_trans [OF by_writer_step by_writer_step, of i W cas s ?s1 i] assms(1)
    by simp
qed

subsection \<open>Properties\<close>

text \<open>C15: one kernel thread writing and one reading: under every interleaving of their accesses, the
  elements taken followed by those in the buffer are the elements it held at the start followed by
  the accepted ones, in order. Nothing is lost, duplicated or read before it is written.\<close>

theorem one_writer_one_reader_fifo:
  assumes "(rb_step cas {w} {r})\<^sup>*\<^sup>* s0 s" and "atomic_cas cas" and "w \<noteq> r" and "rbuf_ok (rb s0)"
    and "pc s0 w = Idle" and "pc s0 r = Idle" and "accepted s0 = []" and "taken s0 = []"
  shows "contents (rb s0) @ accepted s = taken s @ contents (rb s) \<and> rbuf_ok (rb s)"
proof -
  have "spsc_inv (contents (rb s0)) w r s" using assms(1)
  proof (induction rule: rtranclp_induct)
    case base
    then show ?case using assms(4-8) by (simp add: spsc_inv_def)
  next
    case (step s1 s2)
    from step.hyps(2) show ?case
      by (rule rb_stepE) (use step.IH assms(2,3) spsc_write spsc_read in blast)+
  qed
  then show ?thesis by (simp add: spsc_inv_def)
qed

definition idle_ex :: rb_sys where
  "idle_ex = \<lparr>rb = \<lparr>rb_buf = 40000, rb_mem = (\<lambda>_. 0), rb_slots = 4, rb_head = 0, rb_tail = 0, rb_capacity = 4\<rparr>,
     pc = (\<lambda>_. Idle), accepted = [], taken = []\<rparr>"

lemma idle_ex_ok: "rbuf_ok (rb idle_ex)" "contents (rb idle_ex) = []" "\<not> rbuf_isfull (rb idle_ex)"
  "unat (rbuf_capacity (rb idle_ex)) = 3"
  by (simp_all add: idle_ex_def rbuf_ok_def contents_def count_def rbuf_isfull_def rbuf_capacity_def)

lemma idle_ex_write:
  assumes "i \<in> W" and "d \<noteq> NULL"
  shows "(rb_step ps_cas W R)\<^sup>*\<^sup>* idle_ex
    (goto i Idle (idle_ex\<lparr>rb := written d (rb idle_ex), accepted := [d]\<rparr>))"
proof -
  let ?s1 = "goto i (WTest d) idle_ex"
  let ?s2 = "goto i (WStore d (rb_tail (rb idle_ex))) idle_ex"
  have "write_step ps_cas i idle_ex ?s1" by (rule w_call) (use assms(2) in \<open>simp_all add: idle_ex_def\<close>)
  then have "(rb_step ps_cas W R)\<^sup>*\<^sup>* idle_ex ?s1" by (rule by_writer_step [OF assms(1)])
  moreover have "(rb_step ps_cas W R)\<^sup>*\<^sup>* ?s1 ?s2"
    using write_prepare [of i W ?s1 d ps_cas R] assms(1) idle_ex_ok(3) by simp
  moreover have "(rb_step ps_cas W R)\<^sup>*\<^sup>* ?s2
      (goto i Idle (idle_ex\<lparr>rb := written d (rb idle_ex), accepted := [d]\<rparr>))"
    using write_finish_written [of i W ?s2 d ps_cas R] assms(1) idle_ex_ok(1) ps_cas_atomic
    by (simp add: idle_ex_def)
  ultimately show ?thesis by (meson steps_trans)
qed

theorem one_writer_one_reader_fifo_witness:
  "\<exists>s. (rb_step ps_cas {0} {1})\<^sup>*\<^sup>* idle_ex s \<and> accepted s = [7] \<and> contents (rb s) = [7]"
proof -
  let ?s = "goto 0 Idle (idle_ex\<lparr>rb := written 7 (rb idle_ex), accepted := [7]\<rparr>)"
  have r: "(rb_step ps_cas {0} {1})\<^sup>*\<^sup>* idle_ex ?s" by (rule idle_ex_write) simp_all
  from one_writer_one_reader_fifo [OF r ps_cas_atomic] idle_ex_ok
  have "contents (rb ?s) = [7]" by (simp add: idle_ex_def)
  with r show ?thesis by (intro exI [of _ ?s]) simp
qed

text \<open>C25: two writers can lose an element. When both have tested the buffer before either has
  stored, there is an interleaving in which both writes return WRITERBUF_OK, yet the buffer
  receives the second element twice and the first one never.\<close>

theorem two_writers_lose_an_element:
  assumes "{w1, w2} \<subseteq> W" and "w1 \<noteq> w2" and "pc s w1 = WTest d1" and "pc s w2 = WTest d2"
    and "d1 \<noteq> NULL" and "d2 \<noteq> NULL" and "rbuf_ok (rb s)" and "atomic_cas cas"
    and "length (contents (rb s)) + 2 \<le> unat (rbuf_capacity (rb s))"
  shows "\<exists>s'. (rb_step cas W R)\<^sup>*\<^sup>* s s' \<and> pc s' w1 = Idle \<and> pc s' w2 = Idle \<and>
    accepted s' = accepted s @ [d1, d2] \<and> contents (rb s') = contents (rb s) @ [d2, d2]"
proof -
  let ?r = "rb s" and ?t = "rb_tail (rb s)"
  have nf: "\<not> rbuf_isfull ?r" using rbq.full_abs [OF assms(7)] assms(9) by simp
  note w1 = written_contents [OF assms(7) nf assms(5)] and w2 = written_contents [OF assms(7) nf assms(6)]
  have nf2: "\<not> rbuf_isfull (written d2 ?r)" using rbq.full_abs [OF w2(1)] w2(2,3) assms(9) by simp
  let ?s1 = "goto w1 (WStore d1 ?t) s"
  let ?s2 = "goto w2 (WStore d2 ?t) ?s1"
  let ?s3 = "goto w1 Idle (?s2\<lparr>rb := written d1 ?r, accepted := accepted s @ [d1]\<rparr>)"
  let ?s4 = "goto w2 (WTest d2) (?s3\<lparr>rb := written d2 ?r\<rparr>)"
  let ?s5 = "goto w2 (WStore d2 (rb_tail (written d2 ?r))) ?s4"
  let ?s6 = "goto w2 Idle (?s5\<lparr>rb := written d2 (written d2 ?r), accepted := accepted ?s5 @ [d2]\<rparr>)"
  have "(rb_step cas W R)\<^sup>*\<^sup>* s ?s1" by (rule write_prepare) (use assms nf in auto)
  moreover have "(rb_step cas W R)\<^sup>*\<^sup>* ?s1 ?s2"
    using write_prepare [of w2 W ?s1 d2 cas R] assms(1,2,4) nf by simp
  moreover have "(rb_step cas W R)\<^sup>*\<^sup>* ?s2 ?s3"
    using write_finish_written [of w1 W ?s2 d1 cas R] assms(1,2,7,8) by simp
  moreover have "(rb_step cas W R)\<^sup>*\<^sup>* ?s3 ?s4"
    using write_late [of w2 W ?s3 d2 ?r d1 cas R] assms nf by simp
  moreover have "(rb_step cas W R)\<^sup>*\<^sup>* ?s4 ?s5"
    using write_prepare [of w2 W ?s4 d2 cas R] assms(1) nf2 by simp
  moreover have "(rb_step cas W R)\<^sup>*\<^sup>* ?s5 ?s6"
    using write_finish_written [of w2 W ?s5 d2 cas R] assms(1,8) w2(1) by simp
  ultimately have "(rb_step cas W R)\<^sup>*\<^sup>* s ?s6" by (meson steps_trans)
  moreover have "contents (rb ?s6) = contents ?r @ [d2, d2]"
    using written_contents(2) [OF w2(1) nf2 assms(6)] w2(2) by simp
  ultimately show ?thesis using assms(2) by (intro exI [of _ ?s6]) simp
qed

definition racing_ex :: rb_sys where
  "racing_ex = idle_ex\<lparr>pc := (\<lambda>i. if i = 0 then WTest 7 else WTest 8)\<rparr>"

theorem two_writers_lose_an_element_witness:
  "\<exists>s'. (rb_step ps_cas {0, 1} {})\<^sup>*\<^sup>* racing_ex s' \<and> pc s' 0 = Idle \<and> pc s' 1 = Idle \<and>
    accepted s' = [7, 8] \<and> contents (rb s') = [8, 8]"
  using two_writers_lose_an_element [of 0 1 "{0, 1}" racing_ex 7 8 ps_cas "{}"] idle_ex_ok ps_cas_atomic
  by (auto simp: racing_ex_def) (auto simp: idle_ex_def)

text \<open>Two readers can read past the end. When both have seen the last element of the buffer,
  one of them returns it and the other one an element that was never written there; the buffer
  then counts as full of elements although everything has been taken.\<close>

theorem two_readers_read_past_the_end:
  assumes "{r1, r2} \<subseteq> R" and "r1 \<noteq> r2" and "pc s r1 = RLoad" and "pc s r2 = RLoad"
    and "rbuf_ok (rb s)" and "contents (rb s) = [x]" and "atomic_cas cas"
  shows "\<exists>s'. (rb_step cas W R)\<^sup>*\<^sup>* s s' \<and> pc s' r1 = Idle \<and> pc s' r2 = Idle \<and>
    taken s' = taken s @ [x, rb_mem (rb s) (unat (rb_tail (rb s)))] \<and>
    accepted s' = accepted s \<and> rbuf_isfull (rb s')"
proof -
  let ?r = "rb s" and ?next = "\<lambda>r. r\<lparr>rb_head := (rb_head r + 1) mod rb_capacity r\<rparr>"
  let ?s1 = "goto r1 Idle (s\<lparr>rb := ?next ?r, taken := taken s @ [rb_mem ?r (unat (rb_head ?r))]\<rparr>)"
  let ?s2 = "goto r2 Idle (?s1\<lparr>rb := ?next (?next ?r),
     taken := taken ?s1 @ [rb_mem (?next ?r) (unat (rb_head (?next ?r)))]\<rparr>)"
  have ne: "\<not> rbuf_isempty ?r" using rbq.empty_abs [OF assms(5)] assms(6) by simp
  note a = advance_head [OF assms(5) ne]
  have x: "rb_mem ?r (unat (rb_head ?r)) = x" and e: "contents (?next ?r) = []" using a assms(6) by auto
  have ht: "rb_head (?next ?r) = rb_tail ?r"
    using rbq.empty_abs [OF conjunct1 [OF a]] e by (simp add: rbuf_isempty_def)
  have "(rb_step cas W R)\<^sup>*\<^sup>* s ?s1" by (rule read_take) (use assms in auto)
  moreover have "(rb_step cas W R)\<^sup>*\<^sup>* ?s1 ?s2"
    using read_take [of r2 R ?s1 cas W] assms(1,2,4,7) a by simp
  ultimately have "(rb_step cas W R)\<^sup>*\<^sup>* s ?s2" by (rule steps_trans)
  moreover have "rbuf_isfull (rb ?s2)" using ht by (simp add: rbuf_isfull_def)
  ultimately show ?thesis using assms(2) x ht by (intro exI [of _ ?s2]) simp
qed

definition last_ex :: rb_sys where
  "last_ex = idle_ex\<lparr>rb := written 7 (rb idle_ex), pc := (\<lambda>_. RLoad)\<rparr>"

theorem two_readers_read_past_the_end_witness:
  "\<exists>s'. (rb_step ps_cas {} {0, 1})\<^sup>*\<^sup>* last_ex s' \<and> taken s' = [7, 0] \<and> rbuf_isfull (rb s')"
proof -
  have "rbuf_ok (rb last_ex)" "contents (rb last_ex) = [7]"
    using written_contents [OF idle_ex_ok(1,3), of 7] idle_ex_ok(2) by (simp_all add: last_ex_def)
  from two_readers_read_past_the_end [OF _ _ _ _ this ps_cas_atomic, of 0 1 "{0, 1}" "{}"]
  have "\<exists>s'. (rb_step ps_cas {} {0, 1})\<^sup>*\<^sup>* last_ex s' \<and>
      taken s' = taken last_ex @ [7, rb_mem (rb last_ex) (unat (rb_tail (rb last_ex)))] \<and>
      rbuf_isfull (rb s')" by (auto simp: last_ex_def)
  moreover have "taken last_ex = []" "rb_mem (rb last_ex) (unat (rb_tail (rb last_ex))) = 0"
    by (simp_all add: last_ex_def idle_ex_def written_def)
  ultimately show ?thesis by simp
qed

end
