(* ===== verification/Machine.thy ===== *)
theory Machine
  imports LwtLife
begin

text \<open>
  Whole programs on the thread library of \<open>lwt.c\<close>. A program is any number of threads that call
  \<open>lwt_create\<close>, \<open>lwt_yield\<close>, \<open>lwt_join\<close> and, by returning to the trampoline, \<open>lwt_die\<close>, in any
  order. A machine is the state of the library with what the program knows: which threads exist
  (\<open>m_live\<close>), which thread is inside \<open>lwt_join\<close> and for whom (\<open>m_join\<close>, NULL when it is not), and
  the value each thread died with (\<open>m_died\<close>).

  The contract of the program: it names only live threads, joins a joinable thread at most once and
  not itself, and the first thread does not die. The contract of \<open>malloc\<close>, which \<open>kalloc\<close> asks when
  the pool has no room: its blocks overlap nothing in use (\<open>malloc_fresh\<close>).

  \<open>lwt_create\<close> does not write the field \<open>joinedfrom\<close>: a new thread has there whatever the memory held,
  any value in this model (\<open>g\<close> below), be it recycled or not. \<open>lwt_die\<close> follows the field. \<open>stranger m\<close>
  says that the running thread would make a thread RUNNABLE that does not wait for it and is not
  RUNNABLE already, or write outside of all threads; \<open>m_stranger\<close> records that such a death has
  happened (\<open>stale_joinedfrom_wakes_stranger\<close> in \<open>LwtLife\<close> shows that it can).
\<close>

record mach =
  m_sys :: lwt_sys
  m_live :: "addr set"
  m_join :: "addr \<Rightarrow> addr"
  m_died :: "addr \<Rightarrow> addr"
  m_stranger :: bool

abbreviation m_cur :: "mach \<Rightarrow> addr" where
  "m_cur m \<equiv> current_thread (m_sys m)"

text \<open>\<open>__lwt_trampoline\<close>: what the function of the thread returned goes to \<open>lwt_die\<close>.\<close>

definition lwt_trampoline :: "(addr \<Rightarrow> addr \<Rightarrow> addr) \<Rightarrow> 'z lwt_sys_scheme \<Rightarrow>
    (unit outcome \<times> 'z lwt_sys_scheme) result" where
  "lwt_trampoline run s =
     (let t = s_lwt s (current_thread s); ret = run (l_fn t) (l_data t) in lwt_die ret s)"

definition malloc_fresh :: "mach \<Rightarrow> bool" where
  "malloc_fresh m \<longleftrightarrow> (\<forall>A b bs. sys_blocks (s_kheap (m_sys m)) = b # bs \<longrightarrow> b \<noteq> NULL \<longrightarrow>
     kpool (s_kheap (m_sys m)) A \<longrightarrow> 0 < b \<and> block b SIZEOF_LWT \<inter> A = {} \<and>
     (\<forall>t\<in>m_live m. block b SIZEOF_LWT \<inter> block t SIZEOF_LWT = {}))"

definition stranger :: "mach \<Rightarrow> bool" where
  "stranger m \<longleftrightarrow> (let c = m_cur m; p = l_joinedfrom (s_lwt (m_sys m) c) in
     l_flag (s_lwt (m_sys m) c) = LWT_DEFAULT \<and> p \<noteq> NULL \<and> m_join m p \<noteq> c \<and>
     (p = c \<or> p \<notin> m_live m \<or> \<not> ready (m_sys m) p))"

inductive mstep :: "addr \<Rightarrow> mach \<Rightarrow> mach \<Rightarrow> bool" for main where
  call_yield: "m_join m (m_cur m) = NULL \<Longrightarrow> t = NULL \<or> t \<in> m_live m \<Longrightarrow>
    lwt_yield t (m_sys m) = Inr (r, s') \<Longrightarrow> mstep main m (m\<lparr>m_sys := s'\<rparr>)"
| call_create: "m_join m (m_cur m) = NULL \<Longrightarrow> kfits (s_kheap (m_sys m)) SIZEOF_LWT \<or> malloc_fresh m \<Longrightarrow>
    lwt_create fn d fl (m_sys m) = Inr (t, s') \<Longrightarrow>
    mstep main m (m\<lparr>m_sys := upd_lwt t (\<lambda>l. l\<lparr>l_joinedfrom := g\<rparr>) s', m_live := insert t (m_live m)\<rparr>)"
| call_join: "m_join m (m_cur m) = NULL \<Longrightarrow> t \<in> m_live m \<Longrightarrow> t \<noteq> m_cur m \<Longrightarrow>
    t \<notin> range (m_join m) \<Longrightarrow> l_flag (s_lwt (m_sys m) t) = LWT_DEFAULT \<Longrightarrow> t \<noteq> main \<Longrightarrow>
    lwt_join t (m_sys m) = Inr (Switched, s') \<Longrightarrow>
    mstep main m (m\<lparr>m_sys := s', m_join := (m_join m)(m_cur m := t)\<rparr>)"
| call_join_dead: "m_join m (m_cur m) = NULL \<Longrightarrow> t \<in> m_live m \<Longrightarrow> t \<noteq> m_cur m \<Longrightarrow>
    t \<notin> range (m_join m) \<Longrightarrow> l_flag (s_lwt (m_sys m) t) = LWT_DEFAULT \<Longrightarrow> t \<noteq> main \<Longrightarrow>
    lwt_join t (m_sys m) = Inr (Returned v, s') \<Longrightarrow>
    mstep main m (m\<lparr>m_sys := s', m_live := m_live m - {t}\<rparr>)"
| call_join_nojoin: "m_join m (m_cur m) = NULL \<Longrightarrow> t \<in> m_live m \<Longrightarrow>
    l_flag (s_lwt (m_sys m) t) = LWT_NOJOIN \<Longrightarrow> lwt_join t (m_sys m) = Inr (Returned v, s') \<Longrightarrow>
    mstep main m (m\<lparr>m_sys := s'\<rparr>)"
| back_in_join: "m_join m (m_cur m) = t \<Longrightarrow> t \<noteq> NULL \<Longrightarrow>
    lwt_join_resume t (m_sys m) = Inr (Switched, s') \<Longrightarrow> mstep main m (m\<lparr>m_sys := s'\<rparr>)"
| join_returns: "m_join m (m_cur m) = t \<Longrightarrow> t \<noteq> NULL \<Longrightarrow>
    lwt_join_resume t (m_sys m) = Inr (Returned v, s') \<Longrightarrow>
    mstep main m (m\<lparr>m_sys := s', m_live := m_live m - {t}, m_join := (m_join m)(m_cur m := NULL)\<rparr>)"
| dies: "m_join m (m_cur m) = NULL \<Longrightarrow> m_cur m \<noteq> main \<Longrightarrow>
    l_flag (s_lwt (m_sys m) (m_cur m)) = LWT_DEFAULT \<Longrightarrow>
    lwt_trampoline run (m_sys m) = Inr (r, s') \<Longrightarrow>
    mstep main m (m\<lparr>m_sys := s', m_died := (m_died m)(m_cur m :=
      run (l_fn (s_lwt (m_sys m) (m_cur m))) (l_data (s_lwt (m_sys m) (m_cur m)))),
      m_stranger := m_stranger m \<or> stranger m\<rparr>)"
| dies_unjoined: "m_join m (m_cur m) = NULL \<Longrightarrow> m_cur m \<noteq> main \<Longrightarrow>
    l_flag (s_lwt (m_sys m) (m_cur m)) = LWT_NOJOIN \<Longrightarrow>
    lwt_trampoline run (m_sys m) = Inr (r, s') \<Longrightarrow>
    mstep main m (m\<lparr>m_sys := s', m_live := m_live m - {m_cur m}\<rparr>)"

subsection \<open>The invariant\<close>

definition placed :: "addr set \<Rightarrow> addr set \<Rightarrow> bool" where
  "placed T A \<longleftrightarrow> (\<forall>t\<in>T. 0 < t \<and> block t SIZEOF_LWT \<inter> A = {} \<and>
     (\<forall>u\<in>T. t \<noteq> u \<longrightarrow> block t SIZEOF_LWT \<inter> block u SIZEOF_LWT = {}))"

definition waits :: "(addr \<Rightarrow> addr) \<Rightarrow> (addr \<times> addr) set" where
  "waits J = {(p, q). J p = q \<and> q \<noteq> NULL}"

definition joins_ok :: "'z lwt_sys_scheme \<Rightarrow> addr set \<Rightarrow> (addr \<Rightarrow> addr) \<Rightarrow> bool" where
  "joins_ok s T J \<longleftrightarrow> acyclic (waits J) \<and>
     (\<forall>p. J p \<noteq> NULL \<longrightarrow> p \<in> T \<and> J p \<in> T \<and> l_joinedfrom (s_lwt s (J p)) = p \<and>
        l_flag (s_lwt s (J p)) = LWT_DEFAULT \<and>
        l_state (s_lwt s p) = (if l_state (s_lwt s (J p)) = DEAD then RUNNABLE else BLOCKED)) \<and>
     (\<forall>t\<in>T. J t = NULL \<longrightarrow> l_state (s_lwt s t) \<in> {RUNNABLE, DEAD})"

definition deaths_ok :: "'z lwt_sys_scheme \<Rightarrow> addr set \<Rightarrow> addr \<Rightarrow> (addr \<Rightarrow> addr) \<Rightarrow> bool" where
  "deaths_ok s T main D \<longleftrightarrow> l_state (s_lwt s main) \<noteq> DEAD \<and>
     (\<forall>t\<in>T. l_state (s_lwt s t) = DEAD \<longrightarrow> l_ret (s_lwt s t) = D t)"

definition joiners :: "addr set \<Rightarrow> (addr \<Rightarrow> addr) \<Rightarrow> addr set" where
  "joiners T J = {p \<in> T. J p \<noteq> NULL}"

text \<open>\<open>k\<close> counts the threads that died unjoinable, which the library still counts as runnable.\<close>

definition minv0 :: "addr \<Rightarrow> mach \<Rightarrow> addr list \<Rightarrow> addr set \<Rightarrow> nat \<Rightarrow> bool" where
  "minv0 main m xs A k \<longleftrightarrow> runq (m_sys m) xs \<and> set xs = m_live m \<and> main \<in> set xs \<and>
     kpool (s_kheap (m_sys m)) A \<and> placed (set xs) A \<and>
     (\<forall>t\<in>set xs. t \<noteq> m_cur m \<longrightarrow> l_ip (s_lwt (m_sys m) t) \<noteq> IpNull) \<and>
     joins_ok (m_sys m) (set xs) (m_join m) \<and> deaths_ok (m_sys m) (set xs) main (m_died m) \<and>
     n_runnable (m_sys m) + int (card (joiners (set xs) (m_join m))) = int (length xs) + int k"

definition minv :: "addr \<Rightarrow> mach \<Rightarrow> addr list \<Rightarrow> addr set \<Rightarrow> nat \<Rightarrow> bool" where
  "minv main m xs A k \<longleftrightarrow> minv0 main m xs A k \<and> ready (m_sys m) (m_cur m)"

lemma minv0D:
  assumes "minv0 main m xs A k"
  shows "runq (m_sys m) xs" "set xs = m_live m" "main \<in> set xs" "kpool (s_kheap (m_sys m)) A"
    "placed (set xs) A"
    "\<And>t. t \<in> set xs \<Longrightarrow> t \<noteq> m_cur m \<Longrightarrow> l_ip (s_lwt (m_sys m) t) \<noteq> IpNull"
    "joins_ok (m_sys m) (set xs) (m_join m)" "deaths_ok (m_sys m) (set xs) main (m_died m)"
    "n_runnable (m_sys m) + int (card (joiners (set xs) (m_join m))) = int (length xs) + int k"
  using assms unfolding minv0_def by blast+

lemma minvD:
  assumes "minv main m xs A k"
  shows "runq (m_sys m) xs" "set xs = m_live m" "main \<in> set xs" "kpool (s_kheap (m_sys m)) A"
    "placed (set xs) A" "ready (m_sys m) (m_cur m)"
    "\<And>t. t \<in> set xs \<Longrightarrow> t \<noteq> m_cur m \<Longrightarrow> l_ip (s_lwt (m_sys m) t) \<noteq> IpNull"
    "joins_ok (m_sys m) (set xs) (m_join m)" "deaths_ok (m_sys m) (set xs) main (m_died m)"
    "n_runnable (m_sys m) + int (card (joiners (set xs) (m_join m))) = int (length xs) + int k"
  using assms unfolding minv_def minv0_def by blast+

lemma minvI:
  assumes "runq (m_sys m) xs" and "set xs = m_live m" and "main \<in> set xs"
    and "kpool (s_kheap (m_sys m)) A" and "placed (set xs) A" and "ready (m_sys m) (m_cur m)"
    and "\<And>t. t \<in> set xs \<Longrightarrow> t \<noteq> m_cur m \<Longrightarrow> l_ip (s_lwt (m_sys m) t) \<noteq> IpNull"
    and "joins_ok (m_sys m) (set xs) (m_join m)" and "deaths_ok (m_sys m) (set xs) main (m_died m)"
    and "n_runnable (m_sys m) + int (card (joiners (set xs) (m_join m))) = int (length xs) + int k"
  shows "minv main m xs A k"
  using assms unfolding minv_def minv0_def by blast

lemma placedD:
  assumes "placed T A" and "t \<in> T"
  shows "0 < t" "block t SIZEOF_LWT \<inter> A = {}"
    "u \<in> T \<Longrightarrow> t \<noteq> u \<Longrightarrow> block t SIZEOF_LWT \<inter> block u SIZEOF_LWT = {}"
  using assms by (auto simp: placed_def)

lemma joins_okD:
  assumes "joins_ok s T J"
  shows "acyclic (waits J)"
    "J p \<noteq> NULL \<Longrightarrow> p \<in> T" "J p \<noteq> NULL \<Longrightarrow> J p \<in> T" "J p \<noteq> NULL \<Longrightarrow> l_joinedfrom (s_lwt s (J p)) = p"
    "J p \<noteq> NULL \<Longrightarrow> l_flag (s_lwt s (J p)) = LWT_DEFAULT"
    "J p \<noteq> NULL \<Longrightarrow> l_state (s_lwt s p) = (if l_state (s_lwt s (J p)) = DEAD then RUNNABLE else BLOCKED)"
    "t \<in> T \<Longrightarrow> J t = NULL \<Longrightarrow> l_state (s_lwt s t) \<in> {RUNNABLE, DEAD}"
  using assms unfolding joins_ok_def by blast+

text \<open>The invariant reads four fields of each structure.\<close>

definition same_threads :: "'z lwt_sys_scheme \<Rightarrow> 'z lwt_sys_scheme \<Rightarrow> bool" where
  "same_threads s s' \<longleftrightarrow> (\<forall>t. l_state (s_lwt s' t) = l_state (s_lwt s t) \<and>
     l_joinedfrom (s_lwt s' t) = l_joinedfrom (s_lwt s t) \<and> l_ret (s_lwt s' t) = l_ret (s_lwt s t) \<and>
     l_flag (s_lwt s' t) = l_flag (s_lwt s t))"

lemma same_threads_ok:
  assumes "same_threads s s'"
  shows "joins_ok s' T J = joins_ok s T J" "deaths_ok s' T main D = deaths_ok s T main D"
  using assms by (simp_all add: same_threads_def joins_ok_def deaths_ok_def)

lemma dead_not_joining: "joins_ok s T J \<Longrightarrow> l_state (s_lwt s t) = DEAD \<Longrightarrow> J t = NULL"
  using joins_okD(6) [of s T J t] by (cases "J t = NULL") (auto split: if_splits)

text \<open>Some thread of the ring is in no join, so the library counts at least one thread.\<close>

lemma joiners_fewer:
  assumes "minv main m xs A k"
  shows "card (joiners (set xs) (m_join m)) < length xs"
proof -
  note i = minvD [OF assms]
  obtain t where t: "t \<in> set xs" "m_join m t = NULL"
  proof (cases "m_join m (m_cur m) = NULL")
    case True
    moreover have "m_cur m \<in> set xs"
      using i(1) ring_nonempty [OF runq_ring [OF i(1)]] by (simp add: runq_def)
    ultimately show thesis using that by blast
  next
    case False
    with joins_okD(3,6) [OF i(8) False] i(6) have "m_join m (m_cur m) \<in> set xs"
      "l_state (s_lwt (m_sys m) (m_join m (m_cur m))) = DEAD" by (auto split: if_splits)
    with dead_not_joining [OF i(8)] that show thesis by blast
  qed
  have "card (joiners (set xs) (m_join m)) < card (set xs)"
    by (rule psubset_card_mono) (use t in \<open>auto simp: joiners_def\<close>)
  then show ?thesis using card_length [of xs] by simp
qed

lemma counts_one: "minv main m xs A k \<Longrightarrow> n_runnable (m_sys m) \<noteq> 0"
  using joiners_fewer minvD(10) by fastforce

text \<open>
  When the running thread is not the first one and is in no join, another thread is RUNNABLE, or
  waits for it: follow the joins from the first thread.
\<close>

lemma someone_else:
  assumes inv: "minv main m xs A k" and c: "c \<noteq> main"
  shows "\<exists>z\<in>set xs. z \<noteq> c \<and> (ready (m_sys m) z \<or> m_join m z = c)"
proof -
  note i = minvD [OF inv]
  let ?W = "waits (m_join m)"
  have "?W \<subseteq> set xs \<times> set xs" using joins_okD(2,3) [OF i(8)] by (auto simp: waits_def)
  then have "finite ?W" by (rule finite_subset) simp
  then have wf: "wf (?W\<inverse>)" using joins_okD(1) [OF i(8)] by (rule finite_acyclic_wf_converse)
  have "x \<in> set xs \<longrightarrow> l_state (s_lwt (m_sys m) x) \<noteq> DEAD \<longrightarrow> x \<noteq> c \<longrightarrow>
      (\<exists>z\<in>set xs. z \<noteq> c \<and> (ready (m_sys m) z \<or> m_join m z = c))" for x
    using wf
  proof (induction x rule: wf_induct_rule)
    case (less x)
    show ?case
    proof (intro impI)
      assume x: "x \<in> set xs" "l_state (s_lwt (m_sys m) x) \<noteq> DEAD" "x \<noteq> c"
      let ?y = "m_join m x"
      show "\<exists>z\<in>set xs. z \<noteq> c \<and> (ready (m_sys m) z \<or> m_join m z = c)"
      proof (cases "?y = NULL \<or> ?y = c \<or> l_state (s_lwt (m_sys m) ?y) = DEAD")
        case True
        with x joins_okD(6,7) [OF i(8)] show ?thesis by fastforce
      next
        case False
        then have "(?y, x) \<in> ?W\<inverse>" "?y \<in> set xs" using joins_okD(3) [OF i(8)] by (auto simp: waits_def)
        with less.IH [of ?y] False show ?thesis by blast
      qed
    qed
  qed
  moreover have "l_state (s_lwt (m_sys m) main) \<noteq> DEAD" using i(9) by (simp add: deaths_ok_def)
  ultimately show ?thesis using i(3) c by blast
qed

subsection \<open>Switches\<close>

text \<open>\<open>moved s s' xs ys\<close>: a switch, or none, took \<open>s\<close> to \<open>s'\<close>.\<close>

definition moved :: "'z lwt_sys_scheme \<Rightarrow> 'z lwt_sys_scheme \<Rightarrow> addr list \<Rightarrow> addr list \<Rightarrow> bool" where
  "moved s s' xs ys \<longleftrightarrow> runq s' ys \<and> set ys = set xs \<and> length ys = length xs \<and>
     ready s' (current_thread s') \<and> same_threads s s' \<and> s_kheap s' = s_kheap s \<and>
     n_runnable s' = n_runnable s \<and>
     (\<forall>t. l_ip (s_lwt s' t) = l_ip (s_lwt s t) \<or> l_ip (s_lwt s' t) = AfterSwitch) \<and>
     (current_thread s' \<noteq> current_thread s \<longrightarrow> l_ip (s_lwt s' (current_thread s)) = AfterSwitch)"

lemma movedD:
  assumes "moved s s' xs ys"
  shows "runq s' ys" "set ys = set xs" "length ys = length xs" "ready s' (current_thread s')"
    "same_threads s s'" "s_kheap s' = s_kheap s" "n_runnable s' = n_runnable s"
  using assms unfolding moved_def by blast+

lemma moved_ip:
  assumes "moved s s' xs ys" and "\<forall>t\<in>set xs. t \<noteq> current_thread s \<longrightarrow> l_ip (s_lwt s t) \<noteq> IpNull"
  shows "\<forall>t\<in>set ys. t \<noteq> current_thread s' \<longrightarrow> l_ip (s_lwt s' t) \<noteq> IpNull"
proof (intro ballI impI)
  fix t assume t: "t \<in> set ys" "t \<noteq> current_thread s'"
  show "l_ip (s_lwt s' t) \<noteq> IpNull"
  proof (cases "t = current_thread s")
    case True
    with t(2) assms(1) show ?thesis by (simp add: moved_def)
  next
    case False
    with t(1) assms have "l_ip (s_lwt s t) \<noteq> IpNull" by (auto simp: moved_def)
    with assms(1) show ?thesis unfolding moved_def by (metis code.distinct(3))
  qed
qed

lemma moved_refl: "runq s xs \<Longrightarrow> ready s (current_thread s) \<Longrightarrow> moved s s xs xs"
  by (simp add: moved_def same_threads_def)

lemma moved_dispatch:
  assumes "runq s (us @ z # vs)" and "us \<noteq> []" and "ready s z"
  shows "moved s (lwt_dispatch z (hd us) (s\<lparr>current_thread := z\<rparr>)) (us @ z # vs) (z # vs @ us)"
proof -
  have "current_thread s = hd us" using assms(1,2) by (simp add: runq_def)
  then show ?thesis using runq_directed [OF assms(1,2)] assms(3)
    by (auto simp: moved_def same_threads_def) (auto simp: lwt_dispatch_def Let_def)
qed

text \<open>The scheduler finds a RUNNABLE thread if there is one.\<close>

lemma schedule_any:
  assumes "runq s xs" and "z \<in> set xs" and "ready s z" and "n_runnable s \<noteq> 0"
  obtains r s' ys where "lwt_schedule s = Inr (r, s')" and "moved s s' xs ys"
    and "\<not> ready s (current_thread s) \<Longrightarrow> r = Switched"
    and "r = Switched \<Longrightarrow> eip s' = l_ip (s_lwt s (current_thread s')) \<and> current_thread s' \<noteq> current_thread s"
proof -
  from assms(1) obtain c cs where xs: "xs = c # cs" using ring_nonempty [OF runq_ring [OF assms(1)]]
    by (cases xs) auto
  have c: "current_thread s = c" using assms(1) xs by (simp add: runq_def)
  show thesis
  proof (cases "\<exists>y\<in>set cs. ready s y")
    case True
    from split_first [OF this] obtain us w vs where
      cs: "cs = us @ w # vs" "\<forall>y\<in>set us. \<not> ready s y" "ready s w" .
    have q: "runq s ((c # us) @ w # vs)" using assms(1) xs cs(1) by simp
    have cw: "c \<noteq> w" using ring_distinct [OF runq_ring [OF q]] by auto
    have sc: "lwt_schedule s = Inr (Switched, lwt_dispatch w c (s\<lparr>current_thread := w\<rparr>))"
      using lwt_schedule_switch [of s c us w vs] q cs(2,3) assms(4) by simp
    have "eip (lwt_dispatch w c (s\<lparr>current_thread := w\<rparr>)) = l_ip (s_lwt s w)"
      using cw by (simp add: lwt_dispatch_def Let_def)
    with sc moved_dispatch [OF q _ cs(3)] xs cs(1) cw c show thesis by (intro that) auto
  next
    case False
    with assms xs have "ready s c" by auto
    have "next_runnable s = Some c"
      by (rule next_runnable_self [of s c cs]) (use assms(1) xs False \<open>ready s c\<close> in auto)
    then have "lwt_schedule s = Inr (Returned (), s)"
      using assms(4) c by (simp add: lwt_schedule_def Let_def)
    with moved_refl [OF assms(1)] \<open>ready s c\<close> c show thesis by (intro that) auto
  qed
qed

lemma yield_any:
  assumes "runq s xs" and "ready s (current_thread s)" and "n_runnable s \<noteq> 0" and "t = NULL \<or> t \<in> set xs"
    and "lwt_yield t s = Inr (r, s')"
  shows "\<exists>ys. moved s s' xs ys"
proof -
  have cur: "current_thread s \<in> set xs" using assms(1) ring_nonempty [OF runq_ring [OF assms(1)]]
    by (simp add: runq_def)
  consider "t = NULL" | "t \<noteq> NULL" "\<not> ready s t" | "t \<noteq> NULL" "ready s t" "t = current_thread s"
    | "t \<noteq> NULL" "ready s t" "t \<noteq> current_thread s" by blast
  then show ?thesis
  proof cases
    case 1
    then have "lwt_schedule s = Inr (r, s')" using assms(5) by simp
    with schedule_any [OF assms(1) cur assms(2,3)] show ?thesis by (metis Inr_inject Pair_inject)
  next
    case 2
    then have "s' = s" using assms(5) by (simp add: lwt_yield_def)
    with moved_refl [OF assms(1,2)] show ?thesis by blast
  next
    case 3
    then have s': "s' = lwt_dispatch t t (s\<lparr>current_thread := t\<rparr>)"
      using assms(5) by (simp add: lwt_yield_def Let_def)
    have "moved s s' xs xs" unfolding s' using 3 assms(1,2)
      by (auto simp: moved_def same_threads_def runq_def) (auto simp: lwt_dispatch_def Let_def)
    then show ?thesis by blast
  next
    case 4
    with assms(4) obtain us vs where xs: "xs = us @ t # vs" by (meson split_list)
    have ne: "us \<noteq> []" using 4 xs assms(1) by (auto simp: runq_def)
    then have hd: "current_thread s = hd us" using xs assms(1) by (simp add: runq_def)
    then have "s' = lwt_dispatch t (hd us) (s\<lparr>current_thread := t\<rparr>)"
      using 4 assms(5) by (simp add: lwt_yield_def Let_def)
    with moved_dispatch [of s us t vs] assms(1) xs ne 4(2) show ?thesis by metis
  qed
qed

lemma minv_moved:
  assumes "minv0 main m xs A k" and "moved (m_sys m) s' xs ys"
  shows "minv main (m\<lparr>m_sys := s'\<rparr>) ys A k"
proof -
  note i = minv0D [OF assms(1)] and v = movedD [OF assms(2)]
  have "\<forall>t\<in>set ys. t \<noteq> current_thread s' \<longrightarrow> l_ip (s_lwt s' t) \<noteq> IpNull"
    using moved_ip [OF assms(2)] i(6) by blast
  then show ?thesis using i v same_threads_ok [OF v(5)] by (simp add: minv_def minv0_def)
qed

subsection \<open>What the operations do to the relation of joins\<close>

definition same_on :: "addr set \<Rightarrow> 'z lwt_sys_scheme \<Rightarrow> 'z lwt_sys_scheme \<Rightarrow> bool" where
  "same_on T s s' \<longleftrightarrow> (\<forall>t\<in>T. l_state (s_lwt s' t) = l_state (s_lwt s t) \<and>
     l_joinedfrom (s_lwt s' t) = l_joinedfrom (s_lwt s t) \<and> l_ret (s_lwt s' t) = l_ret (s_lwt s t) \<and>
     l_flag (s_lwt s' t) = l_flag (s_lwt s t))"

lemma same_onD:
  assumes "same_on T s s'" and "t \<in> T"
  shows "l_state (s_lwt s' t) = l_state (s_lwt s t)"
    "l_joinedfrom (s_lwt s' t) = l_joinedfrom (s_lwt s t)" "l_ret (s_lwt s' t) = l_ret (s_lwt s t)"
    "l_flag (s_lwt s' t) = l_flag (s_lwt s t)"
  using assms by (auto simp: same_on_def)

lemma deaths_same:
  assumes "deaths_ok s T main D" and "same_on T' s s'" and "T' \<subseteq> T" and "main \<in> T'"
  shows "deaths_ok s' T' main D"
  using assms same_onD [OF assms(2)] by (auto simp: deaths_ok_def)

text \<open>A thread that joins no other leaves; the thread that joined it, if any, goes on.\<close>

lemma joins_remove:
  assumes j: "joins_ok s T J" and t: "J t = NULL" "t \<noteq> NULL" "NULL \<notin> T" and p: "J p = t \<or> J p = NULL"
    and only: "\<And>q. J q = t \<Longrightarrow> q = p" and r: "p \<in> T - {t} \<Longrightarrow> ready s p"
    and same: "same_on (T - {t}) s s'"
  shows "joins_ok s' (T - {t}) (J(p := NULL))"
proof -
  note jD = joins_okD [OF j] and sm = same_onD [OF same]
  have "waits (J(p := NULL)) \<subseteq> waits J" by (auto simp: waits_def split: if_splits)
  with jD(1) have a: "acyclic (waits (J(p := NULL)))" by (rule acyclic_subset)
  have b: "q \<in> T - {t} \<and> J q \<in> T - {t}" if "q \<noteq> p" "J q \<noteq> NULL" for q
    using that jD(2,3) [of q] only [of q] t by auto
  show ?thesis unfolding joins_ok_def
  proof (intro conjI allI ballI impI)
    fix q assume "(J(p := NULL)) q \<noteq> NULL"
    then have q: "q \<noteq> p" "J q \<noteq> NULL" by (auto split: if_splits)
    note bq = b [OF this] and jq = jD(4-6) [OF q(2)]
    show "q \<in> T - {t}" "(J(p := NULL)) q \<in> T - {t}" using bq q by auto
    show "l_joinedfrom (s_lwt s' ((J(p := NULL)) q)) = q"
      "l_flag (s_lwt s' ((J(p := NULL)) q)) = LWT_DEFAULT"
      "l_state (s_lwt s' q) = (if l_state (s_lwt s' ((J(p := NULL)) q)) = DEAD then RUNNABLE else BLOCKED)"
      using bq q jq sm by simp_all
  next
    fix u assume u: "u \<in> T - {t}" and n: "(J(p := NULL)) u = NULL"
    then show "l_state (s_lwt s' u) \<in> {RUNNABLE, DEAD}"
      using sm(1) [OF u] jD(7) [of u] r by (cases "u = p") auto
  qed (fact a)
qed

text \<open>A new thread is in no join.\<close>

lemma joins_insert:
  assumes j: "joins_ok s T J" and t: "t \<notin> T" "ready s' t"
    and same: "same_on T s s'"
  shows "joins_ok s' (insert t T) J"
proof -
  note jD = joins_okD [OF j] and sm = same_onD [OF same]
  show ?thesis unfolding joins_ok_def
  proof (intro conjI allI ballI impI)
    fix q assume q: "J q \<noteq> NULL"
    note jq = jD(2-6) [OF q]
    then show "q \<in> insert t T" "J q \<in> insert t T" "l_joinedfrom (s_lwt s' (J q)) = q"
      "l_flag (s_lwt s' (J q)) = LWT_DEFAULT"
      "l_state (s_lwt s' q) = (if l_state (s_lwt s' (J q)) = DEAD then RUNNABLE else BLOCKED)"
      using sm by simp_all
  next
    fix u assume "u \<in> insert t T" "J u = NULL"
    then show "l_state (s_lwt s' u) \<in> {RUNNABLE, DEAD}" using t sm(1) [of u] jD(7) [of u] by auto
  qed (fact jD(1))
qed

text \<open>From a RUNNABLE thread the joins lead to dead threads only.\<close>

lemma ready_waits:
  assumes "joins_ok s T J" and "(t, p) \<in> (waits J)\<^sup>*" and "ready s t"
  shows "p = t \<or> l_state (s_lwt s p) = DEAD"
  using assms(2)
proof (induction rule: rtrancl_induct)
  case (step y z)
  then have w: "J y = z" "z \<noteq> NULL" by (auto simp: waits_def)
  then have n: "l_state (s_lwt s y) \<noteq> DEAD" using dead_not_joining [OF assms(1), of y] by auto
  with step.IH have "y = t" by simp
  with w joins_okD(6) [OF assms(1), of y] assms(3) show ?case by (auto split: if_splits)
qed simp

text \<open>A thread that runs joins one that can run.\<close>

lemma joins_join:
  assumes j: "joins_ok s T J" and t: "t \<in> T" "t \<noteq> NULL" "ready s t" "t \<notin> range J"
      "l_flag (s_lwt s t) = LWT_DEFAULT"
    and p: "p \<in> T" "J p = NULL" "ready s p" "p \<noteq> t" and z: "NULL \<notin> T"
    and st: "\<And>u. l_state (s_lwt s' u) = (if u = p then BLOCKED else l_state (s_lwt s u))"
    and jf: "\<And>u. l_joinedfrom (s_lwt s' u) = (if u = t then p else l_joinedfrom (s_lwt s u))"
    and fl: "\<And>u. l_flag (s_lwt s' u) = l_flag (s_lwt s u)"
  shows "joins_ok s' T (J(p := t))"
proof -
  note jD = joins_okD [OF j]
  have "(t, p) \<notin> (waits J)\<^sup>*" using ready_waits [OF j _ t(3), of p] p by auto
  moreover have "waits (J(p := t)) = insert (p, t) (waits J)"
    using p(2) t(2) by (auto simp: waits_def split: if_splits)
  ultimately have a: "acyclic (waits (J(p := t)))" using jD(1) by (simp add: acyclic_insert)
  show ?thesis unfolding joins_ok_def
  proof (intro conjI allI ballI impI)
    fix q assume q: "(J(p := t)) q \<noteq> NULL"
    have "J q \<noteq> t" using t(4) by blast
    then show "q \<in> T" "(J(p := t)) q \<in> T" "l_joinedfrom (s_lwt s' ((J(p := t)) q)) = q"
      "l_flag (s_lwt s' ((J(p := t)) q)) = LWT_DEFAULT"
      "l_state (s_lwt s' q) = (if l_state (s_lwt s' ((J(p := t)) q)) = DEAD then RUNNABLE else BLOCKED)"
      using q jD(2-6) [of q] p t by (auto simp: st jf fl split: if_splits)
  next
    fix u assume "u \<in> T" "(J(p := t)) u = NULL"
    then show "l_state (s_lwt s' u) \<in> {RUNNABLE, DEAD}"
      using jD(7) [of u] t(2) by (auto simp: st split: if_splits)
  qed (fact a)
qed

text \<open>A joinable thread dies and makes its joiner RUNNABLE; any other thread it makes RUNNABLE is so
  already.\<close>

lemma joins_die:
  assumes j: "joins_ok s T J" and c: "c \<in> T" "J c = NULL" "ready s c" and z: "NULL \<notin> T"
    and w: "l_joinedfrom (s_lwt s c) = NULL \<or> J (l_joinedfrom (s_lwt s c)) = c \<or> ready s (l_joinedfrom (s_lwt s c))"
    and st: "\<And>u. l_state (s_lwt s' u) = (if u = l_joinedfrom (s_lwt s c) \<and> u \<noteq> NULL then RUNNABLE
        else if u = c then DEAD else l_state (s_lwt s u))"
    and cp: "c \<noteq> l_joinedfrom (s_lwt s c)"
    and jf: "\<And>u. l_joinedfrom (s_lwt s' u) = l_joinedfrom (s_lwt s u)"
    and fl: "\<And>u. l_flag (s_lwt s' u) = l_flag (s_lwt s u)"
  shows "joins_ok s' T J"
proof -
  note jD = joins_okD [OF j]
  have cn: "c \<noteq> NULL" using c(1) z by auto
  have dead: "l_state (s_lwt s' u) = DEAD \<longleftrightarrow> u = c \<or> l_state (s_lwt s u) = DEAD" if "J u \<noteq> NULL \<or> u \<noteq> l_joinedfrom (s_lwt s c) \<or> ready s u" for u
    using that cp dead_not_joining [OF j, of u] by (auto simp: st)
  show ?thesis unfolding joins_ok_def
  proof (intro conjI allI ballI impI)
    fix q assume q: "J q \<noteq> NULL"
    note jq = jD(2-6) [OF q]
    have qn: "q \<noteq> c" "q \<noteq> NULL" using q c(2) jq(1) z by auto
    show "q \<in> T" "J q \<in> T" "l_joinedfrom (s_lwt s' (J q)) = q" "l_flag (s_lwt s' (J q)) = LWT_DEFAULT"
      using jq by (simp_all add: jf fl)
    show "l_state (s_lwt s' q) = (if l_state (s_lwt s' (J q)) = DEAD then RUNNABLE else BLOCKED)"
    proof (cases "J q = c")
      case True
      with jq(3) have "q = l_joinedfrom (s_lwt s c)" by simp
      with True qn cp show ?thesis by (simp add: st)
    next
      case False
      then have "q = l_joinedfrom (s_lwt s c) \<Longrightarrow> ready s q" using w qn(2) by auto
      then have sq: "l_state (s_lwt s' q) = l_state (s_lwt s q)" using qn by (auto simp: st)
      have "J q = l_joinedfrom (s_lwt s c) \<Longrightarrow> J (J q) \<noteq> NULL \<or> ready s (J q)" using w q cn by auto
      with dead [of "J q"] False have "l_state (s_lwt s' (J q)) = DEAD \<longleftrightarrow> l_state (s_lwt s (J q)) = DEAD" by blast
      with sq jq(5) show ?thesis by simp
    qed
  next
    fix u assume "u \<in> T" "J u = NULL"
    then show "l_state (s_lwt s' u) \<in> {RUNNABLE, DEAD}" using jD(7) [of u] by (auto simp: st)
  qed (fact jD(1))
qed

end
