(* ===== verification/MachineRuns.thy ===== *)
theory MachineRuns
  imports Machine
begin

text \<open>
  Every step of a program on the thread library keeps the invariant of \<open>Machine\<close>, from the
  constructor \<open>lwt_init\<close> on; what that means for memory, for the states of the threads and for
  progress. The one way a program of the contract stops is the join of a thread that is itself
  BLOCKED (\<open>lwt_join_blocked_target_livelocks\<close> in \<open>LwtLife\<close>).
\<close>

subsection \<open>Every step keeps the invariant\<close>

lemma placed_remove: "placed T A \<Longrightarrow> t \<in> T \<Longrightarrow> placed (T - {t}) (A \<union> block t SIZEOF_LWT)"
  unfolding placed_def by blast

lemma placed_drop: "placed T A \<Longrightarrow> placed (T - {t}) A"
  unfolding placed_def by blast

lemma placed_insert:
  "placed T A \<Longrightarrow> 0 < t \<Longrightarrow> block t SIZEOF_LWT \<subseteq> A \<Longrightarrow> placed (insert t T) (A - block t SIZEOF_LWT)"
  unfolding placed_def by blast

lemma placed_outside: "placed T A \<Longrightarrow> T \<inter> A = {}" "placed T A \<Longrightarrow> NULL \<notin> T"
proof -
  have "t \<in> block t SIZEOF_LWT" for t by (simp add: SIZEOF_LWT_def)
  then show "placed T A \<Longrightarrow> T \<inter> A = {}" unfolding placed_def by blast
qed (auto simp: placed_def)

lemma minv_list:
  assumes "minv main m xs A k"
  obtains cs where "xs = m_cur m # cs" and "distinct xs"
proof -
  note q = minvD(1) [OF assms]
  from q have "xs \<noteq> []" "hd xs = m_cur m" using ring_nonempty [OF runq_ring [OF q]] by (auto simp: runq_def)
  with ring_distinct [OF runq_ring [OF q]] that show thesis by (cases xs) auto
qed

lemma minv_cur: "minv main m xs A k \<Longrightarrow> m_cur m \<in> set xs"
  by (erule minv_list) simp

lemma minv_split:
  assumes "minv main m xs A k" and "t \<in> m_live m" and "t \<noteq> m_cur m"
  obtains us vs where "xs = m_cur m # us @ t # vs" and "set (m_cur m # us @ vs) = set xs - {t}"
proof -
  from minv_list [OF assms(1)] obtain cs where cs: "xs = m_cur m # cs" "distinct xs" .
  with assms minvD(2) [OF assms(1)] have "t \<in> set cs" by auto
  then obtain us vs where "cs = us @ t # vs" by (meson split_list)
  with cs show thesis by (intro that) auto
qed

lemma minv_yield:
  assumes "minv main m xs A k" and "t = NULL \<or> t \<in> m_live m" and "lwt_yield t (m_sys m) = Inr (r, s')"
  shows "\<exists>ys. minv main (m\<lparr>m_sys := s'\<rparr>) ys A k"
proof -
  note i = minvD [OF assms(1)]
  have "t = NULL \<or> t \<in> set xs" using assms(2) i(2) by simp
  from yield_any [OF i(1,6) counts_one [OF assms(1)] this assms(3)] obtain ys where
    "moved (m_sys m) s' xs ys" ..
  with minv_moved [of main m xs A k s' ys] assms(1) show ?thesis by (auto simp: minv_def)
qed

lemma create_memory:
  assumes inv: "minv main m xs A k" and fit: "kfits (s_kheap (m_sys m)) SIZEOF_LWT \<or> malloc_fresh m"
    and run: "lwt_create fn d fl (m_sys m) = Inr (t, s')"
  obtains h B where "kalloc (s_kheap (m_sys m)) SIZEOF_LWT = Inr (t, h)" and "kpool h B" and "0 < t"
    and "t \<notin> set xs" and "placed (insert t (set xs)) B"
proof -
  note i = minvD [OF inv]
  let ?h = "s_kheap (m_sys m)"
  have n: "0 < SIZEOF_LWT" "SIZEOF_LWT \<le> PAGESIZE" by (simp_all add: SIZEOF_LWT_def PAGESIZE_def)
  obtain h where a: "kalloc ?h SIZEOF_LWT = Inr (t, h)" "t \<noteq> NULL"
    using run by (auto simp: lwt_create_def Let_def rbind_eq_Inr rbind_assertion split: if_splits prod.splits)
  show thesis
  proof (cases "kfits ?h SIZEOF_LWT")
    case True
    from kp.alloc_fits [OF i(4) n True] a(1) have
      b: "0 < t" "block t SIZEOF_LWT \<subseteq> A" "kpool h (A - block t SIZEOF_LWT)" by auto
    have "t \<in> block t SIZEOF_LWT" using n(1) by simp
    then have "t \<notin> set xs" using b(2) placed_outside(1) [OF i(5)] by blast
    with that [OF a(1) b(3,1)] placed_insert [OF i(5) b(1,2)] show thesis by simp
  next
    case False
    with fit have fresh: "malloc_fresh m" by simp
    from i(4) obtain rs where rs: "free_list ?h rs" "wf_runs rs" "span rs = A" by (auto simp: kpool_def)
    with False have "\<forall>(a, l)\<in>set rs. l < SIZEOF_LWT" using kfits_list [OF rs(1)] by auto
    from kalloc_exhausted [OF rs(1) this n] a(1) have
      e: "free_list h rs" "t = (case sys_blocks ?h of [] \<Rightarrow> NULL | b # _ \<Rightarrow> b)" by auto
    with a(2) obtain bs where "sys_blocks ?h = t # bs" by (cases "sys_blocks ?h") auto
    with fresh a(2) i(4) have b: "0 < t" "block t SIZEOF_LWT \<inter> A = {}"
      "\<forall>u\<in>set xs. block t SIZEOF_LWT \<inter> block u SIZEOF_LWT = {}"
      unfolding malloc_fresh_def i(2) by blast+
    have "t \<in> block t SIZEOF_LWT" using n(1) by simp
    then have "t \<notin> set xs" using b(3) by blast
    moreover have "placed (insert t (set xs)) A" using i(5) b unfolding placed_def by blast
    moreover have "kpool h A" using kpool_list [OF e(1) rs(2)] rs(3) by simp
    ultimately show thesis using that a(1) b(1) by blast
  qed
qed

lemma minv_create:
  fixes g :: addr
  assumes inv: "minv main m xs A k" and fit: "kfits (s_kheap (m_sys m)) SIZEOF_LWT \<or> malloc_fresh m"
    and run: "lwt_create fn d fl (m_sys m) = Inr (t, s')"
  defines "s'' \<equiv> upd_lwt t (\<lambda>l. l\<lparr>l_joinedfrom := g\<rparr>) s'"
  shows "\<exists>B. minv main (m\<lparr>m_sys := s'', m_live := insert t (m_live m)\<rparr>) (xs @ [t]) B k"
    and "m_cur m = current_thread s''" and "t \<notin> m_live m" and "t \<noteq> NULL" and "ready s'' t"
    and "l_flag (s_lwt s'' t) = fl"
proof -
  note i = minvD [OF inv]
  from minv_list [OF inv] obtain cs where xs: "xs = m_cur m # cs" .
  obtain h B where a: "kalloc (s_kheap (m_sys m)) SIZEOF_LWT = Inr (t, h)" "kpool h B" "0 < t" "t \<notin> set xs"
    "placed (insert t (set xs)) B" by (rule create_memory [OF inv fit run])
  have q: "runq (m_sys m) (m_cur m # cs)" using i(1) xs by simp
  from lwt_create_runs [OF q a(1,3), of fn d fl] a(4) xs run have
    r: "runq s' (xs @ [t])" "s_kheap s' = h" "n_runnable s' = n_runnable (m_sys m) + 1"
      "s_lwt s' = (s_lwt (m_sys m))(t := fresh_lwt t fn d fl (m_sys m))" by auto
  have cur: "current_thread s' = m_cur m" using r(1) xs by (simp add: runq_def)
  define l where "l = (fresh_lwt t fn d fl (m_sys m))\<lparr>l_joinedfrom := g\<rparr>"
  have e: "runq s'' (xs @ [t])" "s_kheap s'' = h" "n_runnable s'' = n_runnable (m_sys m) + 1"
    "s_lwt s'' = (s_lwt (m_sys m))(t := l)" "current_thread s'' = m_cur m"
    using r cur by (simp_all add: s''_def l_def runq_def)
  have lf: "l_state l = RUNNABLE" "l_flag l = fl" "l_ip l = Trampoline" by (simp_all add: l_def fresh_lwt_def)
  have sm: "same_on (set xs) (m_sys m) s''" using a(4) by (auto simp: same_on_def e(4))
  have j: "joins_ok s'' (insert t (set xs)) (m_join m)"
    by (rule joins_insert [OF i(8) a(4) _ sm]) (simp add: e(4) lf)
  have d: "deaths_ok s'' (insert t (set xs)) main (m_died m)"
    using deaths_same [OF i(9) sm _ i(3)] by (auto simp: deaths_ok_def e(4) lf)
  have w: "joiners (insert t (set xs)) (m_join m) = joiners (set xs) (m_join m)"
    using joins_okD(2) [OF i(8)] by (auto simp: joiners_def)
  have st: "set (xs @ [t]) = insert t (set xs)" by auto
  have "minv main (m\<lparr>m_sys := s'', m_live := insert t (m_live m)\<rparr>) (xs @ [t]) B k"
    unfolding minv_def minv0_def st
    using i(2,3,6,7,10) e a j d w minv_cur [OF inv] lf by auto
  then show "\<exists>B. minv main (m\<lparr>m_sys := s'', m_live := insert t (m_live m)\<rparr>) (xs @ [t]) B k" by blast
  show "m_cur m = current_thread s''" "t \<notin> m_live m" "t \<noteq> NULL" "ready s'' t" "l_flag (s_lwt s'' t) = fl"
    using e(5) a(3,4) i(2) lf by (simp_all add: e(4))
qed

text \<open>A join that finds its target alive switches to it, or does not return.\<close>

lemma lwt_join_run:
  assumes "lwt_join t s = Inr (r, s')" and "l_flag (s_lwt s t) = LWT_DEFAULT" and "t \<noteq> NULL"
    and "t \<noteq> current_thread s" and "l_state (s_lwt s t) \<noteq> DEAD"
  shows "ready s t" and "r = Switched"
proof -
  let ?p = "current_thread s"
  let ?j = "upd_lwt ?p (\<lambda>l. l\<lparr>l_state := BLOCKED\<rparr>)
     (upd_lwt t (\<lambda>l. l\<lparr>l_joinedfrom := ?p\<rparr>) (upd_lwt ?p (\<lambda>l. l\<lparr>l_joiningto := t\<rparr>) s))"
  have e: "lwt_join t s = lwt_join_resume t ?j" using assms(2-5) by (simp add: lwt_join_def Let_def)
  with assms(1) obtain v where l: "lwt_join_loop t ?j = Some v"
    by (auto simp: lwt_join_resume_def rbind_eq_Inr)
  from lwt_join_loop_stuck_aux [OF this] assms(3,4) show rd: "ready s t" by simp
  have "lwt_join_loop t ?j = Some (Inr (Switched, lwt_dispatch t (current_thread ?j)
    (?j\<lparr>n_runnable := n_runnable ?j - 1, n_blocked := n_blocked ?j + 1, current_thread := t\<rparr>)))"
    by (rule lwt_join_loop_switch) (use rd assms(3,4) in simp_all)
  with e assms(1) show "r = Switched" by (simp add: lwt_join_resume_def)
qed

lemma lwt_join_explicit:
  assumes "runq s (p # us @ t # vs)" and "ready s t" and "l_flag (s_lwt s t) = LWT_DEFAULT"
    and "t \<noteq> NULL"
  obtains s' where "lwt_join t s = Inr (Switched, s')" and "runq s' (t # vs @ p # us)"
    and "\<forall>u. l_state (s_lwt s' u) = (if u = p then BLOCKED else l_state (s_lwt s u))"
    and "\<forall>u. l_joinedfrom (s_lwt s' u) = (if u = t then p else l_joinedfrom (s_lwt s u))"
    and "\<forall>u. l_flag (s_lwt s' u) = l_flag (s_lwt s u)" and "\<forall>u. l_ret (s_lwt s' u) = l_ret (s_lwt s u)"
    and "\<forall>u. l_ip (s_lwt s' u) = (if u = p then AfterSwitch else l_ip (s_lwt s u))"
    and "s_kheap s' = s_kheap s" and "n_runnable s' = n_runnable s - 1"
proof -
  from assms(1) have cur: "current_thread s = p" and ne: "p \<noteq> t" by (auto simp: runq_def)
  let ?j = "upd_lwt p (\<lambda>l. l\<lparr>l_state := BLOCKED\<rparr>)
     (upd_lwt t (\<lambda>l. l\<lparr>l_joinedfrom := p\<rparr>) (upd_lwt p (\<lambda>l. l\<lparr>l_joiningto := t\<rparr>) s))"
  let ?k = "?j\<lparr>n_runnable := n_runnable ?j - 1, n_blocked := n_blocked ?j + 1\<rparr>"
  let ?d = "lwt_dispatch t p (?k\<lparr>current_thread := t\<rparr>)"
  have "lwt_join_loop t ?j = Some (Inr (Switched, ?d))"
    using lwt_join_loop_switch [of ?j t] assms ne cur by simp
  then have "lwt_join t s = Inr (Switched, ?d)"
    using assms ne cur by (simp add: lwt_join_def lwt_join_resume_def Let_def)
  moreover have "runq ?d (t # vs @ p # us)"
    using runq_directed [of ?k "p # us" t vs] assms(1) by simp
  ultimately show thesis
    by (rule that) (use ne assms(3) in \<open>simp_all add: lwt_dispatch_def Let_def\<close>)
qed

lemma minv_join:
  assumes "minv main m xs A k" and "m_join m (m_cur m) = NULL" and "t \<in> m_live m" and "t \<noteq> m_cur m"
    and "t \<notin> range (m_join m)" and "l_flag (s_lwt (m_sys m) t) = LWT_DEFAULT"
    and "lwt_join t (m_sys m) = Inr (Switched, s')"
  shows "\<exists>ys. minv main (m\<lparr>m_sys := s', m_join := (m_join m)(m_cur m := t)\<rparr>) ys A k"
proof -
  note i = minvD [OF assms(1)]
  let ?p = "m_cur m"
  from minv_split [OF assms(1,3,4)] obtain us vs where xs: "xs = ?p # us @ t # vs" .
  have z: "NULL \<notin> set xs" using placed_outside(2) [OF i(5)] .
  have t: "t \<in> set xs" "t \<noteq> NULL" "?p \<in> set xs" using xs z by auto
  have q: "runq (m_sys m) (?p # us @ t # vs)" using i(1) xs by simp
  have nd: "l_state (s_lwt (m_sys m) t) \<noteq> DEAD"
  proof
    assume d: "l_state (s_lwt (m_sys m) t) = DEAD"
    have "kpool (s_kheap (m_sys m)) A" "0 < t" "block t SIZEOF_LWT \<inter> A = {}"
      using i(4) placedD(1,2) [OF i(5) t(1)] by simp_all
    from lwt_join_dead [OF q d assms(6) this] assms(7) show False by auto
  qed
  have rd: "ready (m_sys m) t" by (rule lwt_join_run [OF assms(7,6) t(2) assms(4) nd])
  from lwt_join_explicit [OF q rd assms(6) t(2)] obtain s2 where e: "lwt_join t (m_sys m) = Inr (Switched, s2)" "runq s2 (t # vs @ ?p # us)"
    "\<forall>u. l_state (s_lwt s2 u) = (if u = ?p then BLOCKED else l_state (s_lwt (m_sys m) u))"
    "\<forall>u. l_joinedfrom (s_lwt s2 u) = (if u = t then ?p else l_joinedfrom (s_lwt (m_sys m) u))"
    "\<forall>u. l_flag (s_lwt s2 u) = l_flag (s_lwt (m_sys m) u)"
    "\<forall>u. l_ret (s_lwt s2 u) = l_ret (s_lwt (m_sys m) u)"
    "\<forall>u. l_ip (s_lwt s2 u) = (if u = ?p then AfterSwitch else l_ip (s_lwt (m_sys m) u))"
    "s_kheap s2 = s_kheap (m_sys m)" "n_runnable s2 = n_runnable (m_sys m) - 1" .
  have s2: "s2 = s'" using e(1) assms(7) by simp
  have pt: "?p \<noteq> t" using assms(4) by simp
  have j: "joins_ok s2 (set xs) ((m_join m)(?p := t))"
    by (rule joins_join [OF i(8) t(1,2) rd assms(5,6) t(3) assms(2) i(6) pt z e(3-5) [THEN spec]])
  have d: "deaths_ok s2 (set xs) main (m_died m)"
    using i(9) e(3,6) by (simp add: deaths_ok_def)
  have w: "joiners (set xs) ((m_join m)(?p := t)) = insert ?p (joiners (set xs) (m_join m))"
    using t by (auto simp: joiners_def)
  have np: "?p \<notin> joiners (set xs) (m_join m)" "finite (joiners (set xs) (m_join m))"
    using assms(2) by (auto simp: joiners_def)
  have st: "set (t # vs @ ?p # us) = set xs" "length (t # vs @ ?p # us) = length xs" using xs by auto
  have cur: "current_thread s2 = t" using e(2) by (simp add: runq_def)
  have "minv main (m\<lparr>m_sys := s2, m_join := (m_join m)(?p := t)\<rparr>) (t # vs @ ?p # us) A k"
    unfolding minv_def minv0_def st
    using i(2-5,7,10) e(2,3,7-9) j d w np cur rd pt by auto
  with s2 show ?thesis by blast
qed

text \<open>The removal of a dead thread, for both ways a join returns.\<close>

lemma minv_reaped:
  assumes inv: "minv main m xs A k" and t: "t \<in> m_live m" "l_state (s_lwt (m_sys m) t) = DEAD"
    and p: "m_join m (m_cur m) \<in> {t, NULL}" and only: "\<And>q. m_join m q = t \<Longrightarrow> q = m_cur m"
    and q: "runq s' ys" "set ys = set xs - {t}" "Suc (length ys) = length xs"
    and h: "kpool (s_kheap s') (A \<union> block t SIZEOF_LWT)"
    and same: "same_on (set xs - {t}) (m_sys m) s'"
    and ip: "\<And>u. u \<noteq> t \<Longrightarrow> l_ip (s_lwt s' u) = l_ip (s_lwt (m_sys m) u)"
    and n: "n_runnable s' = n_runnable (m_sys m) - (if m_join m (m_cur m) = t then 0 else 1)"
    and cur: "current_thread s' = m_cur m"
  shows "minv main (m\<lparr>m_sys := s', m_live := m_live m - {t}, m_join := (m_join m)(m_cur m := NULL)\<rparr>)
    ys (A \<union> block t SIZEOF_LWT) k"
proof -
  note i = minvD [OF inv]
  have z: "NULL \<notin> set xs" using placed_outside(2) [OF i(5)] .
  have tx: "t \<in> set xs" "t \<noteq> NULL" using t(1) i(2) z by auto
  have tm: "t \<noteq> main" using i(9) t(2) by (auto simp: deaths_ok_def)
  have tc: "t \<noteq> m_cur m" using i(6) t(2) by auto
  have jt: "m_join m t = NULL" using dead_not_joining [OF i(8) t(2)] .
  have j: "joins_ok s' (set xs - {t}) ((m_join m)(m_cur m := NULL))"
    by (rule joins_remove [OF i(8) jt tx(2) z _ only i(6) same]) (use p in auto)
  have d: "deaths_ok s' (set xs - {t}) main (m_died m)"
    by (rule deaths_same [OF i(9) same]) (use i(3) tm in auto)
  have c: "m_cur m \<in> set xs - {t}" using minv_cur [OF inv] tc by auto
  have w: "joiners (set xs - {t}) ((m_join m)(m_cur m := NULL)) = joiners (set xs) (m_join m) - {m_cur m}"
    using jt by (auto simp: joiners_def)
  have f: "finite (joiners (set xs) (m_join m))" by (simp add: joiners_def)
  have cd: "int (card (joiners (set xs) (m_join m) - {m_cur m})) =
      int (card (joiners (set xs) (m_join m))) - (if m_join m (m_cur m) = t then 1 else 0)"
  proof (cases "m_join m (m_cur m) = t")
    case True
    then have "m_cur m \<in> joiners (set xs) (m_join m)" using c tx(2) by (simp add: joiners_def)
    with f card_gt_0_iff [of "joiners (set xs) (m_join m)"] True show ?thesis
      by (auto simp: card_Diff_singleton of_nat_diff)
  next
    case False
    then have "m_cur m \<notin> joiners (set xs) (m_join m)" using p by (auto simp: joiners_def)
    with False show ?thesis by simp
  qed
  have r: "ready s' (m_cur m)" using same_onD(1) [OF same c] i(6) by simp
  have ips: "\<forall>u\<in>set xs - {t}. u \<noteq> current_thread s' \<longrightarrow> l_ip (s_lwt s' u) \<noteq> IpNull"
    using i(7) ip cur by auto
  have lens: "int (length xs) = int (length ys) + 1" using q(3) by simp
  show ?thesis
  proof (rule minvI, unfold q(2), goal_cases)
    case 10
    then show ?case using i(10) lens w cd n by simp
  qed (use i(2,3) q(1) h placed_remove [OF i(5) tx(1)] j d r ips tm cur in simp_all)
qed

lemma minv_join_dead:
  assumes inv: "minv main m xs A k" and "m_join m (m_cur m) = NULL" and "t \<in> m_live m"
    and "t \<noteq> m_cur m" and "t \<notin> range (m_join m)" and fl: "l_flag (s_lwt (m_sys m) t) = LWT_DEFAULT"
    and run: "lwt_join t (m_sys m) = Inr (Returned v, s')"
  shows "\<exists>ys. minv main (m\<lparr>m_sys := s', m_live := m_live m - {t}\<rparr>) ys (A \<union> block t SIZEOF_LWT) k"
proof -
  note i = minvD [OF inv]
  let ?p = "m_cur m" and ?s = "m_sys m"
  from minv_split [OF assms(1,3,4)] obtain us vs where
    xs: "xs = ?p # us @ t # vs" "set (?p # us @ vs) = set xs - {t}" .
  have tx: "t \<in> set xs" "t \<noteq> NULL" using xs placed_outside(2) [OF i(5)] by auto
  have d: "l_state (s_lwt ?s t) = DEAD"
    using lwt_join_run(2) [OF run fl tx(2) assms(4)] by blast
  define s2 where "s2 = upd_lwt t (\<lambda>l. l\<lparr>l_joinedfrom := ?p\<rparr>) (upd_lwt ?p (\<lambda>l. l\<lparr>l_joiningto := t\<rparr>) ?s)"
  define s3 where "s3 = s2\<lparr>n_zombies := n_zombies s2 - 1, n_runnable := n_runnable s2 - 1\<rparr>"
  have "runq s3 ((?p # us) @ t # vs)" "kpool (s_kheap s3) A"
    using i(1,4) xs(1) by (simp_all add: s2_def s3_def)
  from lwt_reap_runs [OF this(1) list.distinct(2) this(2) placedD(1,2) [OF i(5) tx(1)]] obtain h s4 where
    r: "lwt_reap t s3 = Inr (Returned (l_ret (s_lwt s3 t)), s4)"
      "s4 = s3\<lparr>s_links := ps_list_ll_rem t (s_links s3), s_kheap := h\<rparr>"
      "kpool h (A \<union> block t SIZEOF_LWT)" "runq s4 ((?p # us) @ vs)" .
  have "lwt_join t ?s = lwt_reap t s3"
    using fl d tx(2) assms(4) by (simp add: lwt_join_def Let_def s2_def s3_def)
  with run r(1) have s': "s' = s4" by simp
  have e: "s_lwt s' = (s_lwt ?s)(?p := (s_lwt ?s ?p)\<lparr>l_joiningto := t\<rparr>,
      t := (s_lwt ?s t)\<lparr>l_joinedfrom := ?p\<rparr>)" "n_runnable s' = n_runnable ?s - 1" "s_kheap s' = h"
    unfolding s' r(2) s3_def s2_def using assms(4) by simp_all
  have "minv main (m\<lparr>m_sys := s', m_live := m_live m - {t}, m_join := (m_join m)(?p := NULL)\<rparr>)
      (?p # us @ vs) (A \<union> block t SIZEOF_LWT) k"
  proof (rule minv_reaped [OF inv assms(3) d])
    show "runq s' (?p # us @ vs)" using r(4) s' by simp
    then show "current_thread s' = ?p" by (simp add: runq_def)
    show "same_on (set xs - {t}) ?s s'" by (simp add: same_on_def e)
    show "set (?p # us @ vs) = set xs - {t}" by (rule xs(2))
    show "Suc (length (?p # us @ vs)) = length xs" by (simp add: xs(1))
    show "q = ?p" if "m_join m q = t" for q using that assms(5) by blast
  qed (use assms(2) r(3) tx(2) in \<open>simp_all add: e\<close>)
  moreover have "(m_join m)(?p := NULL) = m_join m" using assms(2) by auto
  ultimately show ?thesis by auto
qed

text \<open>The thread that gets the processor back inside \<open>lwt_join\<close> finds its target dead.\<close>

lemma join_resumes:
  assumes inv: "minv main m xs A k" and t: "m_join m (m_cur m) = t" "t \<noteq> NULL"
  obtains s' ys where "lwt_join_resume t (m_sys m) = Inr (Returned (m_died m t), s')"
    and "minv main (m\<lparr>m_sys := s', m_live := m_live m - {t}, m_join := (m_join m)(m_cur m := NULL)\<rparr>)
      ys (A \<union> block t SIZEOF_LWT) k"
proof -
  note i = minvD [OF inv]
  let ?p = "m_cur m" and ?s = "m_sys m"
  have nn: "m_join m ?p \<noteq> NULL" using t by simp
  note jp = joins_okD(2-6) [OF i(8) nn]
  have d: "l_state (s_lwt ?s t) = DEAD" using jp(5) i(6) t(1) by (auto split: if_splits)
  have tl: "t \<in> m_live m" "t \<noteq> ?p" using jp(2) t(1) i(2,6) d by auto
  from minv_split [OF inv tl] obtain us vs where
    xs: "xs = ?p # us @ t # vs" "set (?p # us @ vs) = set xs - {t}" .
  have tx: "t \<in> set xs" using xs by simp
  have q: "runq ?s (?p # us @ t # vs)" using i(1) xs(1) by simp
  from lwt_join_resume_dead [OF q i(6,4) placedD(1,2) [OF i(5) tx]] obtain s' where
    r: "lwt_join_resume t ?s = Inr (Returned (l_ret (s_lwt ?s t)), s')" "runq s' (?p # us @ vs)"
      "kpool (s_kheap s') (A \<union> block t SIZEOF_LWT)" "s_lwt s' = s_lwt ?s"
      "n_runnable s' = n_runnable ?s" by blast
  have v: "l_ret (s_lwt ?s t) = m_died m t" using i(9) tx d by (simp add: deaths_ok_def)
  have only: "q = ?p" if "m_join m q = t" for q
    using joins_okD(4) [OF i(8), of q] jp(3) that t by simp
  have "minv main (m\<lparr>m_sys := s', m_live := m_live m - {t}, m_join := (m_join m)(?p := NULL)\<rparr>)
      (?p # us @ vs) (A \<union> block t SIZEOF_LWT) k"
  proof (rule minv_reaped [OF inv tl(1) d])
    show "current_thread s' = ?p" using r(2) by (simp add: runq_def)
    show "same_on (set xs - {t}) ?s s'" by (simp add: same_on_def r(4))
    show "set (?p # us @ vs) = set xs - {t}" by (rule xs(2))
    show "Suc (length (?p # us @ vs)) = length xs" by (simp add: xs(1))
  qed (use t r in \<open>simp_all add: only\<close>)
  with r(1) v show thesis by (intro that) auto
qed

lemma dies_runs:
  assumes inv: "minv main m xs A k" and c: "m_join m (m_cur m) = NULL" "m_cur m \<noteq> main"
    and fl: "l_flag (s_lwt (m_sys m) (m_cur m)) = LWT_DEFAULT" and ns: "\<not> stranger m"
  obtains s' ys where "lwt_die v (m_sys m) = Inr (Switched, s')" and "current_thread s' \<noteq> m_cur m"
    and "minv main (m\<lparr>m_sys := s', m_died := (m_died m)(m_cur m := v)\<rparr>) ys A k"
proof -
  note i = minvD [OF inv]
  let ?s = "m_sys m" and ?c = "m_cur m" and ?p = "l_joinedfrom (s_lwt (m_sys m) (m_cur m))"
  have z: "NULL \<notin> set xs" using placed_outside(2) [OF i(5)] .
  have cx: "?c \<in> set xs" using minv_cur [OF inv] .
  have cn: "?c \<noteq> NULL" using cx z by metis
  have jc: "?p = NULL \<or> m_join m ?p = ?c \<or> ready ?s ?p" and cp: "?c \<noteq> ?p"
    using ns fl c(1) cn unfolding stranger_def Let_def by metis+
  from lwt_die_default [OF refl fl cp, of v] obtain s1 where
    s1: "lwt_die v ?s = lwt_schedule s1" "s_links s1 = s_links ?s"
    "s_kheap s1 = s_kheap ?s" "current_thread s1 = ?c" "n_runnable s1 = n_runnable ?s"
    "n_blocked s1 = n_blocked ?s" "n_zombies s1 = n_zombies ?s" "esp s1 = esp ?s"
    "s_lwt s1 = (let l = (s_lwt ?s)(?c := (s_lwt ?s ?c)\<lparr>l_state := DEAD, l_ret := v\<rparr>); p = ?p
                 in if p = NULL then l else l(p := (l p)\<lparr>l_state := RUNNABLE\<rparr>))" .
  have st: "l_state (s_lwt s1 u) = (if u = ?p \<and> u \<noteq> NULL then RUNNABLE
      else if u = ?c then DEAD else l_state (s_lwt ?s u))"
    and jf: "l_joinedfrom (s_lwt s1 u) = l_joinedfrom (s_lwt ?s u)"
    and lf: "l_flag (s_lwt s1 u) = l_flag (s_lwt ?s u)"
    and rt: "l_ret (s_lwt s1 u) = (if u = ?c then v else l_ret (s_lwt ?s u))"
    and ip: "l_ip (s_lwt s1 u) = l_ip (s_lwt ?s u)" for u
    using cp by (auto simp: s1(9) Let_def)
  let ?m = "m\<lparr>m_sys := s1, m_died := (m_died m)(?c := v)\<rparr>"
  have q: "runq s1 xs" using i(1) s1(2,4) by (simp add: runq_def)
  have j: "joins_ok s1 (set xs) (m_join m)" by (rule joins_die [OF i(8) cx c(1) i(6) z jc st cp jf lf])
  have d: "deaths_ok s1 (set xs) main ((m_died m)(?c := v))"
    using i(9) c(2) by (auto simp: deaths_ok_def st rt split: if_splits)
  have "minv0 main ?m xs A k" unfolding minv0_def
    using q i(2-5,7,10) s1(3-5) j d by (simp add: ip)
  moreover from someone_else [OF inv c(2)] obtain y where
    y: "y \<in> set xs" "y \<noteq> ?c" "ready ?s y \<or> m_join m y = ?c" by blast
  have "ready s1 y"
  proof (cases "m_join m y = ?c")
    case True
    have "m_join m y \<noteq> NULL" unfolding True by (rule cn)
    from joins_okD(4) [OF i(8) this] True y(1) z have "y = ?p \<and> y \<noteq> NULL" by metis
    then show ?thesis by (simp add: st)
  qed (use y in \<open>simp add: st\<close>)
  from schedule_any [OF q y(1) this] counts_one [OF inv] s1(5) obtain r s' ys where
    r: "lwt_schedule s1 = Inr (r, s')" "moved s1 s' xs ys"
      "\<not> ready s1 (current_thread s1) \<Longrightarrow> r = Switched"
      "r = Switched \<Longrightarrow> current_thread s' \<noteq> current_thread s1" by metis
  have "\<not> ready s1 (current_thread s1)" using cp by (simp add: st s1(4))
  with r(1,3,4) s1(1,4) have "lwt_die v ?s = Inr (Switched, s')" "current_thread s' \<noteq> ?c" by simp_all
  moreover have "moved (m_sys ?m) s' xs ys" using r(2) by simp
  moreover have "?m\<lparr>m_sys := s'\<rparr> = m\<lparr>m_sys := s', m_died := (m_died m)(?c := v)\<rparr>" by (cases m) simp
  ultimately show thesis using that minv_moved [of main ?m xs A k s' ys] by metis
qed

lemma dies_unjoined_runs:
  assumes inv: "minv main m xs A k" and c: "m_join m (m_cur m) = NULL" "m_cur m \<noteq> main"
    and fl: "l_flag (s_lwt (m_sys m) (m_cur m)) = LWT_NOJOIN"
  obtains s' ys where "lwt_die v (m_sys m) = Inr (Switched, s')"
    and "minv main (m\<lparr>m_sys := s', m_live := m_live m - {m_cur m}\<rparr>) ys A (Suc k)"
proof -
  note i = minvD [OF inv]
  let ?s = "m_sys m" and ?c = "m_cur m"
  have z: "NULL \<notin> set xs" using placed_outside(2) [OF i(5)] .
  have cx: "?c \<in> set xs" using minv_cur [OF inv] .
  have cn: "?c \<noteq> NULL" using cx z by metis
  have nj: "m_join m q \<noteq> ?c" for q
    using joins_okD(5) [OF i(8), of q] fl cn by (metis lwt_flags.distinct(1))
  from someone_else [OF inv c(2)] nj obtain y where y: "y \<in> set xs" "y \<noteq> ?c" "ready ?s y" by blast
  from minv_list [OF inv] obtain cs where cs: "xs = ?c # cs" "distinct xs" .
  with y have "\<exists>y\<in>set cs. ready ?s y" by auto
  from split_first [OF this] obtain us w vs where
    w: "cs = us @ w # vs" "\<forall>u\<in>set us. \<not> ready ?s u" "ready ?s w" .
  have q: "runq ?s (?c # us @ w # vs)" using i(1) cs(1) w(1) by simp
  obtain s1 where r: "lwt_die v ?s = Inr (Switched, lwt_dispatch w ?c s1)"
    "s1 = ?s\<lparr>current_thread := w, s_links := ps_list_ll_rem ?c (s_links ?s)\<rparr>"
    "runq (lwt_dispatch w ?c s1) (w # vs @ us)" "?c \<noteq> w" by (rule lwt_die_nojoin_runs [OF q w(2,3) fl])
  define s' where "s' = lwt_dispatch w ?c s1"
  have f: "l_state (s_lwt s' u) = l_state (s_lwt ?s u)" "l_joinedfrom (s_lwt s' u) = l_joinedfrom (s_lwt ?s u)"
    "l_ret (s_lwt s' u) = l_ret (s_lwt ?s u)" "l_flag (s_lwt s' u) = l_flag (s_lwt ?s u)"
    "u \<noteq> ?c \<Longrightarrow> l_ip (s_lwt s' u) = l_ip (s_lwt ?s u)" for u
    by (simp_all add: s'_def r(2)) (simp add: lwt_dispatch_def Let_def)
  have g: "s_kheap s' = s_kheap ?s" "n_runnable s' = n_runnable ?s" "current_thread s' = w"
    by (simp_all add: s'_def r(2))
  have st: "set (w # vs @ us) = set xs - {?c}" using cs w(1) by auto
  have sm: "same_on (set xs - {?c}) ?s s'" by (simp add: same_on_def f(1-4))
  have "joins_ok s' (set xs - {?c}) ((m_join m)(?c := NULL))"
    by (rule joins_remove [OF i(8) c(1) cn z _ _ _ sm]) (use c(1) nj in auto)
  then have j: "joins_ok s' (set xs - {?c}) (m_join m)" using c(1) by (simp add: fun_upd_idem)
  have d: "deaths_ok s' (set xs - {?c}) main (m_died m)"
    by (rule deaths_same [OF i(9) sm]) (use i(3) c(2) in auto)
  have jn: "joiners (set xs - {?c}) (m_join m) = joiners (set xs) (m_join m)"
    using c(1) by (auto simp: joiners_def)
  have "minv main (m\<lparr>m_sys := s', m_live := m_live m - {?c}\<rparr>) (w # vs @ us) A (Suc k)"
  proof (rule minvI, unfold st, goal_cases)
    case 7
    then show ?case using i(7) f(5) by simp
  next
    case 10
    have "length xs = Suc (length (w # vs @ us))" using cs(1) w(1) by simp
    with i(10) show ?case by (simp add: g jn)
  qed (use i(2-5) r(3) j d c(2) w(3) placed_drop [OF i(5)] in \<open>simp_all add: g f s'_def [symmetric]\<close>)
  with r(1) show thesis by (intro that) (simp_all add: s'_def)
qed

text \<open>The record of what a death did is no part of the invariant.\<close>

lemma minv_flag: "minv main m xs A k \<Longrightarrow> minv main (m\<lparr>m_stranger := b\<rparr>) xs A k"
  unfolding minv_def minv0_def by (elim conjE, intro conjI) simp_all

lemma mstep_flag: "mstep main m m' \<Longrightarrow> m_stranger m \<Longrightarrow> m_stranger m'"
  by (induction rule: mstep.induct) simp_all

lemma mstep_keeps:
  assumes "mstep main m m'" and inv: "minv main m xs A k" and clean: "\<not> m_stranger m'"
  shows "\<exists>ys B j. minv main m' ys B j"
  using assms(1)
proof (cases rule: mstep.cases)
  case (call_yield t r s')
  with minv_yield [OF inv call_yield(3,4)] show ?thesis by blast
next
  case (call_create fn d fl t s' g)
  with minv_create(1) [OF inv call_create(3,4)] show ?thesis by blast
next
  case (call_join t s')
  with minv_join [OF inv call_join(2-6,8)] show ?thesis by blast
next
  case (call_join_dead t v s')
  with minv_join_dead [OF inv call_join_dead(2-6,8)] show ?thesis by blast
next
  case (call_join_nojoin t v s')
  then have "s' = m_sys m" by (simp add: lwt_join_def rbind_assertion split: if_splits)
  with call_join_nojoin(1) inv show ?thesis by auto
next
  case (back_in_join t s')
  from join_resumes [OF inv back_in_join(2,3)] back_in_join(4) show ?thesis
    by (metis Inr_inject Pair_inject outcome.distinct(1))
next
  case (join_returns t v s')
  from join_resumes [OF inv join_returns(2,3)] join_returns(4) show ?thesis
    unfolding join_returns(1) by (metis Inr_inject Pair_inject)
next
  case (dies run r s')
  define v where "v = run (l_fn (s_lwt (m_sys m) (m_cur m))) (l_data (s_lwt (m_sys m) (m_cur m)))"
  have "lwt_die v (m_sys m) = Inr (r, s')" using dies(5) by (simp add: lwt_trampoline_def v_def Let_def)
  moreover have "\<not> stranger m" using clean dies(1) by simp
  ultimately obtain ys where "minv main (m\<lparr>m_sys := s', m_died := (m_died m)(m_cur m := v)\<rparr>) ys A k"
    using dies_runs [OF inv dies(2-4), of v] by (metis Inr_inject Pair_inject)
  from minv_flag [OF this] show ?thesis unfolding dies(1) v_def [symmetric] by blast
next
  case (dies_unjoined run r s')
  define v where "v = run (l_fn (s_lwt (m_sys m) (m_cur m))) (l_data (s_lwt (m_sys m) (m_cur m)))"
  have "lwt_die v (m_sys m) = Inr (r, s')"
    using dies_unjoined(5) by (simp add: lwt_trampoline_def v_def Let_def)
  with dies_unjoined_runs [OF inv dies_unjoined(2-4), of v] show ?thesis
    unfolding dies_unjoined(1) by (metis Inr_inject Pair_inject)
qed

subsection \<open>From the constructor on\<close>

text \<open>
  The memory of a program that starts: the pool is empty, the system has memory to give, and no
  structure holds the address of a joiner. \<open>mboot\<close> is the machine after the constructor \<open>lwt_init\<close>.
\<close>

definition loaded :: "'z lwt_sys_scheme \<Rightarrow> bool" where
  "loaded s \<longleftrightarrow> freelist (s_kheap s) = NULL \<and> (\<forall>b\<in>set (sys_blocks (s_kheap s)). 0 < b) \<and>
     n_runnable s = 0 \<and> (\<forall>t. l_joinedfrom (s_lwt s t) = NULL)"

definition mboot :: "lwt_sys \<Rightarrow> mach result" where
  "mboot s = rbind (lwt_init s) (\<lambda>s'. Inr \<lparr>m_sys = s', m_live = {current_thread s'},
     m_join = (\<lambda>_. NULL), m_died = (\<lambda>_. NULL), m_stranger = False\<rparr>)"

definition runs_to :: "lwt_sys \<Rightarrow> addr \<Rightarrow> mach \<Rightarrow> bool" where
  "runs_to s main m \<longleftrightarrow> (\<exists>m0. mboot s = Inr m0 \<and> main = m_cur m0 \<and> (mstep main)\<^sup>*\<^sup>* m0 m)"

lemma lwt_init_runs:
  assumes "loaded s" and "sys_blocks (s_kheap s) = b # bs"
  obtains t h s' where "kalloc h SIZEOF_LWT = Inr (t, s_kheap s')" and "kpool h (block b PAGESIZE)"
    and "kfits h PAGESIZE" and "lwt_init s = Inr s'" and "current_thread s' = t" and "0 < t"
    and "kpool (s_kheap s') (block b PAGESIZE - block t SIZEOF_LWT)"
    and "ring (s_links s') [t]" and "n_runnable s' = 1" and "ready s' t"
    and "\<forall>u. l_joinedfrom (s_lwt s' u) = NULL"
proof -
  have p: "0 < b" "freelist (s_kheap s) = NULL" using assms by (auto simp: loaded_def)
  have "\<forall>b\<in>set (sys_blocks (s_kheap s)). 0 < b" using assms(1) by (simp add: loaded_def)
  with kinit_single_run [OF p(2)] assms(2) obtain h where
    h: "kinit (s_kheap s) = Inr h" "free_list h [(b, PAGESIZE)]" by auto
  have w: "wf_runs [(b, PAGESIZE)]" using p by (simp add: PAGESIZE_def)
  from kpool_list [OF h(2) w] have k: "kpool h (block b PAGESIZE)" by simp
  have f: "kfits h PAGESIZE" using kfits_list [OF h(2)] by simp
  have n: "0 < SIZEOF_LWT" "SIZEOF_LWT \<le> PAGESIZE" by (simp_all add: SIZEOF_LWT_def PAGESIZE_def)
  from kp.alloc_fits [OF k n kfits_mono [OF f n(2)]] obtain t h2 where
    a: "kalloc h SIZEOF_LWT = Inr (t, h2)" "0 < t" "kpool h2 (block b PAGESIZE - block t SIZEOF_LWT)"
    by blast
  define s1 where "s1 = (upd_lwt t (\<lambda>l. l\<lparr>l_state := RUNNABLE, l_ip := IpNull, l_sp := NULL,
            l_tid := lwt_tid_counter s\<rparr>) s)
          \<lparr>s_kheap := h2, current_thread := t, s_links := ps_list_ll_init t (s_links s),
            lwt_tid_counter := lwt_tid_counter s + 1, n_runnable := n_runnable s + 1\<rparr>"
  have "lwt_init s = Inr s1" using h(1) a(1,2) by (simp add: lwt_init_def s1_def)
  then show thesis
    using a k f assms(1) ring_init [of t "s_links s"]
    by (intro that [of h t s1]) (simp_all add: s1_def loaded_def)
qed

lemma join_answers:
  assumes inv: "minv main m xs A k" and t: "t \<in> m_live m" "t \<noteq> m_cur m"
    and nb: "l_state (s_lwt (m_sys m) t) \<noteq> BLOCKED"
  shows "\<exists>r. lwt_join t (m_sys m) = Inr r"
proof -
  note i = minvD [OF inv]
  from minv_split [OF inv t] obtain us vs where xs: "xs = m_cur m # us @ t # vs" .
  have tx: "t \<in> set xs" "t \<noteq> NULL" using xs placed_outside(2) [OF i(5)] by auto
  have q: "runq (m_sys m) (m_cur m # us @ t # vs)" using i(1) xs by simp
  show ?thesis
  proof (cases "l_flag (s_lwt (m_sys m) t)")
    case LWT_NOJOIN
    then show ?thesis using tx(2) by (simp add: lwt_join_def)
  next
    case LWT_DEFAULT
    consider "ready (m_sys m) t" | "l_state (s_lwt (m_sys m) t) = DEAD"
      using joins_okD(6,7) [OF i(8), of t] tx(1) nb
      by (cases "m_join m t = NULL") (auto split: if_splits)
    then show ?thesis
    proof cases
      case 1
      show ?thesis by (rule lwt_join_explicit [OF q 1 LWT_DEFAULT tx(2)]) blast
    next
      case 2
      then show ?thesis
        using lwt_join_dead [OF q 2 LWT_DEFAULT i(4) placedD(1,2) [OF i(5) tx(1)]] by blast
    qed
  qed
qed

lemma boot_minv:
  assumes "loaded s" and "mboot s = Inr m"
  shows "\<exists>A. minv (m_cur m) m [m_cur m] A 0"
proof -
  have "sys_blocks (s_kheap s) \<noteq> []"
    using assms kinit_single_run [of "s_kheap s"]
    by (auto simp: loaded_def mboot_def lwt_init_def split: list.splits)
  then obtain b bs where "sys_blocks (s_kheap s) = b # bs" by (meson list.exhaust)
  from lwt_init_runs [OF assms(1) this] obtain t h s' where
    r: "lwt_init s = Inr s'" "current_thread s' = t" "0 < t"
      "kpool (s_kheap s') (block b PAGESIZE - block t SIZEOF_LWT)" "ring (s_links s') [t]"
      "n_runnable s' = 1" "ready s' t" "\<forall>u. l_joinedfrom (s_lwt s' u) = NULL" by metis
  have m: "m = \<lparr>m_sys = s', m_live = {t}, m_join = (\<lambda>_. NULL), m_died = (\<lambda>_. NULL), m_stranger = False\<rparr>"
    using assms(2) r(1,2) by (simp add: mboot_def)
  have "waits (\<lambda>_. NULL) = {}" by (auto simp: waits_def)
  then have "acyclic (waits (\<lambda>_. NULL))" by (simp add: wf_acyclic)
  then have j: "joins_ok s' {t} (\<lambda>_. NULL)" using r(7,8) by (simp add: joins_ok_def)
  have "minv t m [t] (block b PAGESIZE - block t SIZEOF_LWT) 0"
    by (rule minvI) (use r j in \<open>auto simp: m runq_def placed_def deaths_ok_def joiners_def\<close>)
  then show ?thesis using r(2) by (auto simp: m)
qed

lemma reaches_minv:
  assumes "loaded s" and "runs_to s main m" and "\<not> m_stranger m"
  obtains xs A k where "minv main m xs A k"
proof -
  from assms(2) obtain m0 where m0: "mboot s = Inr m0" "main = m_cur m0" "(mstep main)\<^sup>*\<^sup>* m0 m"
    by (auto simp: runs_to_def)
  from m0(3) assms(3) have "\<exists>xs A k. minv main m xs A k"
  proof (induction rule: rtranclp_induct)
    case base
    from boot_minv [OF assms(1) m0(1)] m0(2) show ?case by auto
  next
    case (step x y)
    then show ?case using mstep_keeps mstep_flag by blast
  qed
  then show thesis using that by blast
qed

lemma runs_to_step: "runs_to s main m \<Longrightarrow> mstep main m m' \<Longrightarrow> runs_to s main m'"
  by (auto simp: runs_to_def intro: rtranclp.rtrancl_into_rtrancl)

subsection \<open>A run\<close>

text \<open>A thread is created, joined, and dies with 42; the first thread is then back in its join.\<close>

definition load_ex :: lwt_sys where
  "load_ex = sys_ex\<lparr>s_kheap := boot_ex, s_lwt := (\<lambda>_. lwt_ex), n_runnable := 0, n_zombies := 0,
     current_thread := NULL, lwt_tid_counter := 1\<rparr>"

lemma load_ex_loaded: "loaded load_ex"
  by (simp add: loaded_def load_ex_def boot_ex_def lwt_ex_def)

lemma create_step:
  assumes inv: "minv main m xs A k" and cur: "m_join m (m_cur m) = NULL"
    and fit: "kfits (s_kheap (m_sys m)) SIZEOF_LWT"
  obtains t m' ys B where "mstep main m m'" and "minv main m' ys B k" and "m_cur m' = m_cur m"
    and "m_live m' = insert t (m_live m)" and "m_join m' = m_join m" and "t \<notin> m_live m" and "t \<noteq> NULL"
    and "ready (m_sys m') t" and "l_flag (s_lwt (m_sys m') t) = LWT_DEFAULT"
    and "m_stranger m' = m_stranger m"
proof -
  from minv_list [OF inv] obtain cs where xs: "xs = m_cur m # cs" .
  note i = minvD [OF inv]
  have q: "runq (m_sys m) (m_cur m # cs)" and o: "set (m_cur m # cs) \<inter> A = {}"
    using i(1) placed_outside(1) [OF i(5)] xs by simp_all
  from lwt_create_pool [OF q i(4) fit o] obtain t h where
    a: "kalloc (s_kheap (m_sys m)) SIZEOF_LWT = Inr (t, h)" "0 < t" "t \<notin> set (m_cur m # cs)" by metis
  from lwt_create_runs [OF q a, of 7 8 LWT_DEFAULT] obtain s1 where
    c: "lwt_create 7 8 LWT_DEFAULT (m_sys m) = Inr (t, s1)" by blast
  note k = minv_create [OF inv disjI1 [OF fit] c]
  obtain B where "minv main (m\<lparr>m_sys := upd_lwt t (\<lambda>l. l\<lparr>l_joinedfrom := NULL\<rparr>) s1,
      m_live := insert t (m_live m)\<rparr>) (xs @ [t]) B k" using k(1) [of NULL] by blast
  with call_create [OF cur disjI1 [OF fit] c] show thesis
    by (rule that) (use k(2-6) in auto)
qed

lemma join_step:
  assumes inv: "minv main m xs A k" and cur: "m_join m (m_cur m) = NULL"
    and t: "t \<in> m_live m" "t \<noteq> m_cur m" "t \<notin> range (m_join m)" "t \<noteq> main" "ready (m_sys m) t"
    and fl: "l_flag (s_lwt (m_sys m) t) = LWT_DEFAULT"
  obtains m' ys where "mstep main m m'" and "minv main m' ys A k" and "m_cur m' = t"
    and "m_live m' = m_live m" and "m_join m' = (m_join m)(m_cur m := t)"
    and "l_flag (s_lwt (m_sys m') t) = LWT_DEFAULT" and "m_stranger m' = m_stranger m"
    and "l_joinedfrom (s_lwt (m_sys m') t) = m_cur m"
proof -
  from minv_split [OF inv t(1,2)] obtain us vs where xs: "xs = m_cur m # us @ t # vs" .
  have q: "runq (m_sys m) (m_cur m # us @ t # vs)" using minvD(1) [OF inv] xs by simp
  have tn: "t \<noteq> NULL" using t(1) minvD(2) [OF inv] placed_outside(2) [OF minvD(5) [OF inv]] by auto
  from lwt_join_explicit [OF q t(5) fl tn] obtain s2 where
    j: "lwt_join t (m_sys m) = Inr (Switched, s2)" "runq s2 (t # vs @ m_cur m # us)"
      "\<forall>u. l_state (s_lwt s2 u) = (if u = m_cur m then BLOCKED else l_state (s_lwt (m_sys m) u))"
      "\<forall>u. l_joinedfrom (s_lwt s2 u) = (if u = t then m_cur m else l_joinedfrom (s_lwt (m_sys m) u))"
      "\<forall>u. l_flag (s_lwt s2 u) = l_flag (s_lwt (m_sys m) u)"
      "\<forall>u. l_ret (s_lwt s2 u) = l_ret (s_lwt (m_sys m) u)"
      "\<forall>u. l_ip (s_lwt s2 u) = (if u = m_cur m then AfterSwitch else l_ip (s_lwt (m_sys m) u))"
      "s_kheap s2 = s_kheap (m_sys m)" "n_runnable s2 = n_runnable (m_sys m) - 1" .
  from minv_join [OF inv cur t(1-3) fl j(1)] obtain ys where
    "minv main (m\<lparr>m_sys := s2, m_join := (m_join m)(m_cur m := t)\<rparr>) ys A k" by blast
  with call_join [OF cur t(1-3) fl t(4) j(1)] show thesis
    by (rule that) (use j(2,4,5) fl in \<open>simp_all add: runq_def\<close>)
qed

lemma die_step:
  assumes inv: "minv main m xs A k" and cur: "m_join m (m_cur m) = NULL" "m_cur m \<noteq> main"
    and fl: "l_flag (s_lwt (m_sys m) (m_cur m)) = LWT_DEFAULT" and ns: "\<not> stranger m"
  obtains m' ys where "mstep main m m'" and "minv main m' ys A k" and "m_cur m' \<noteq> m_cur m"
    and "m_live m' = m_live m" and "m_join m' = m_join m" and "m_died m' (m_cur m) = v"
    and "m_stranger m' = m_stranger m"
proof -
  obtain s3 ys where e: "lwt_die v (m_sys m) = Inr (Switched, s3)" "current_thread s3 \<noteq> m_cur m"
      "minv main (m\<lparr>m_sys := s3, m_died := (m_died m)(m_cur m := v)\<rparr>) ys A k"
    by (rule dies_runs [OF inv cur fl ns])
  have "lwt_trampoline (\<lambda>_ _. v) (m_sys m) = Inr (Switched, s3)"
    using e(1) by (simp add: lwt_trampoline_def)
  from dies [OF cur fl this] minv_flag [OF e(3)] show thesis by (rule that) (use e(2) ns in simp_all)
qed

lemma boot_ex_fits:
  obtains m0 A where "mboot load_ex = Inr m0" and "minv (m_cur m0) m0 [m_cur m0] A 0"
    and "kfits (s_kheap (m_sys m0)) SIZEOF_LWT" and "\<not> m_stranger m0"
    and "m_join m0 = (\<lambda>_. NULL)" and "m_live m0 = {m_cur m0}"
proof -
  have b: "sys_blocks (s_kheap load_ex) = 65536 # []" by (simp add: load_ex_def boot_ex_def)
  from lwt_init_runs [OF load_ex_loaded b] obtain main h s0 where
    r: "kalloc h SIZEOF_LWT = Inr (main, s_kheap s0)" "kpool h (block 65536 PAGESIZE)" "kfits h PAGESIZE"
      "lwt_init load_ex = Inr s0" "current_thread s0 = main" "\<forall>u. l_joinedfrom (s_lwt s0 u) = NULL"
    by metis
  let ?m0 = "\<lparr>m_sys = s0, m_live = {main}, m_join = (\<lambda>_. NULL), m_died = (\<lambda>_. NULL), m_stranger = False\<rparr>"
  have boot: "mboot load_ex = Inr ?m0" using r(4,5) by (simp add: mboot_def)
  from boot_minv [OF load_ex_loaded boot] obtain A where "minv (m_cur ?m0) ?m0 [m_cur ?m0] A 0" by blast
  moreover have n: "0 < SIZEOF_LWT" "SIZEOF_LWT \<le> PAGESIZE" "SIZEOF_LWT + SIZEOF_LWT \<le> PAGESIZE"
    by (simp_all add: SIZEOF_LWT_def PAGESIZE_def)
  have "kfits (s_kheap s0) SIZEOF_LWT"
    using kalloc_leaves [OF r(2) kfits_mono [OF r(3) n(3)] n(1,2,1) r(1)] .
  ultimately show thesis by (intro that [OF boot]) (use r(5,6) in simp_all)
qed

lemma run_ex:
  obtains main m t where "runs_to load_ex main m" and "\<not> m_stranger m" and "m_join m (m_cur m) = t" and "t \<noteq> NULL"
    and "m_died m t = 42"
proof -
  obtain m0 A where m0: "mboot load_ex = Inr m0" "minv (m_cur m0) m0 [m_cur m0] A 0"
    "kfits (s_kheap (m_sys m0)) SIZEOF_LWT" "\<not> m_stranger m0"
    "m_join m0 = (\<lambda>_. NULL)" "m_live m0 = {m_cur m0}" by (rule boot_ex_fits)
  let ?main = "m_cur m0"
  have "runs_to load_ex ?main m0" using m0(1) by (auto simp: runs_to_def)
  note run = runs_to_step [OF this]
  have n0: "m_join m0 ?main = NULL" using m0(5) by simp
  obtain t m1 xs B where m1: "mstep ?main m0 m1" "minv ?main m1 xs B 0" "m_cur m1 = ?main"
    "m_live m1 = insert t (m_live m0)" "m_join m1 = m_join m0" "t \<notin> m_live m0" "t \<noteq> NULL"
    "ready (m_sys m1) t" "l_flag (s_lwt (m_sys m1) t) = LWT_DEFAULT"
    "m_stranger m1 = m_stranger m0" by (rule create_step [OF m0(2) n0 m0(3)])
  have j: "m_join m1 (m_cur m1) = NULL" "t \<in> m_live m1" "t \<noteq> m_cur m1" "t \<notin> range (m_join m1)" "t \<noteq> ?main"
    using m1(3-7) m0(5,6) by auto
  obtain m2 ys where m2: "mstep ?main m1 m2" "minv ?main m2 ys B 0" "m_cur m2 = t"
    "m_live m2 = m_live m1" "m_join m2 = (m_join m1)(m_cur m1 := t)"
    "l_flag (s_lwt (m_sys m2) t) = LWT_DEFAULT" "m_stranger m2 = m_stranger m1"
    "l_joinedfrom (s_lwt (m_sys m2) t) = m_cur m1" by (rule join_step [OF m1(2) j m1(8,9)])
  have e: "m_join m2 (m_cur m2) = NULL" "m_cur m2 \<noteq> ?main"
    "l_flag (s_lwt (m_sys m2) (m_cur m2)) = LWT_DEFAULT" using m2(3,5,6) m1(3,5) m0(5) j(5) by simp_all
  have ns: "\<not> stranger m2" using m2(3,5,8) by (simp add: stranger_def Let_def)
  obtain m3 zs where m3: "mstep ?main m2 m3" "minv ?main m3 zs B 0" "m_cur m3 \<noteq> m_cur m2"
    "m_live m3 = m_live m2" "m_join m3 = m_join m2" "m_died m3 (m_cur m2) = 42"
    "m_stranger m3 = m_stranger m2" by (rule die_step [OF m2(2) e ns])
  have "m_cur m3 = ?main"
    using minv_cur [OF m3(2)] minvD(2) [OF m3(2)] m3(3,4) m2(3,4) m1(4) m0(6) by auto
  moreover have "runs_to load_ex ?main m3"
    by (rule runs_to_step [OF runs_to_step [OF run [OF m1(1)] m2(1)] m3(1)])
  ultimately show thesis using m3(5,6,7) m2(3,5,7) m1(3,7,10) m0(4) by (intro that) simp_all
qed

subsection \<open>Properties\<close>

text \<open>C2: memory safety. After any sequence of calls by any threads, whatever the memory that
  \<open>lwt_create\<close> hands out held (also a \<open>joinedfrom\<close> left over from a thread that was joined there), and
  as long as no death has followed such a left-over pointer to a thread that was not waiting for
  it (\<open>m_stranger\<close>), the run queue is a ring that starts with the running thread and holds exactly
  the live threads; their structures, with the stacks inside, are pairwise disjoint and disjoint
  from the free bytes of the pool.\<close>

theorem machine_memory_safe:
  assumes "loaded s" and "runs_to s main m" and "\<not> m_stranger m"
  shows "\<exists>xs A. ring (s_links (m_sys m)) xs \<and> hd xs = m_cur m \<and> set xs = m_live m \<and>
    main \<in> m_live m \<and> kpool (s_kheap (m_sys m)) A \<and>
    (\<forall>t\<in>m_live m. block t SIZEOF_LWT \<inter> A = {} \<and>
       (\<forall>u\<in>m_live m. t \<noteq> u \<longrightarrow> block t SIZEOF_LWT \<inter> block u SIZEOF_LWT = {}))"
proof -
  from reaches_minv [OF assms] obtain xs A k where i: "minv main m xs A k" .
  note d = minvD [OF i]
  have "hd xs = m_cur m" using d(1) by (simp add: runq_def)
  moreover have "\<forall>t\<in>m_live m. block t SIZEOF_LWT \<inter> A = {} \<and>
       (\<forall>u\<in>m_live m. t \<noteq> u \<longrightarrow> block t SIZEOF_LWT \<inter> block u SIZEOF_LWT = {})"
    using d(5) unfolding placed_def d(2) by blast
  ultimately show ?thesis using runq_ring [OF d(1)] d(2,4) d(3) [unfolded d(2)]
    by (intro exI [of _ xs] exI [of _ A] conjI)
qed

theorem machine_memory_safe_witness:
  "\<exists>main m xs A. runs_to load_ex main m \<and> m_join m (m_cur m) \<noteq> NULL \<and>
    ring (s_links (m_sys m)) xs \<and> set xs = m_live m \<and> kpool (s_kheap (m_sys m)) A \<and>
    block main SIZEOF_LWT \<inter> A = {}"
proof -
  obtain main m t where r: "runs_to load_ex main m" "\<not> m_stranger m" "m_join m (m_cur m) = t" "t \<noteq> NULL"
    by (rule run_ex)
  from machine_memory_safe [OF load_ex_loaded r(1,2)] r show ?thesis by blast
qed

text \<open>C5: as long as no death has followed a left-over \<open>joinedfrom\<close> to a thread that was not waiting for
  it, the states of the threads conform to what the program does. The running thread is RUNNABLE;
  no thread is WAITING; a thread is BLOCKED exactly while it is inside \<open>lwt_join\<close> for a live thread
  that has not died, whose \<open>joinedfrom\<close> names it; a DEAD thread holds its return value; and no
  threads join each other in a cycle.\<close>

theorem machine_states_conform:
  assumes "loaded s" and "runs_to s main m" and "\<not> m_stranger m"
  shows "ready (m_sys m) (m_cur m) \<and> acyclic (waits (m_join m)) \<and>
    (\<forall>t\<in>m_live m. case l_state (s_lwt (m_sys m) t) of
       RUNNABLE \<Rightarrow> m_join m t = NULL \<or> l_state (s_lwt (m_sys m) (m_join m t)) = DEAD
     | DEAD \<Rightarrow> m_join m t = NULL \<and> t \<noteq> main \<and> l_ret (s_lwt (m_sys m) t) = m_died m t
     | BLOCKED \<Rightarrow> m_join m t \<in> m_live m \<and> l_joinedfrom (s_lwt (m_sys m) (m_join m t)) = t \<and>
         l_state (s_lwt (m_sys m) (m_join m t)) \<noteq> DEAD
     | WAITING \<Rightarrow> False)"
proof -
  from reaches_minv [OF assms] obtain xs A k where i: "minv main m xs A k" .
  note d = minvD [OF i] and j = joins_okD [OF minvD(8) [OF i]]
  have "case l_state (s_lwt (m_sys m) t) of
       RUNNABLE \<Rightarrow> m_join m t = NULL \<or> l_state (s_lwt (m_sys m) (m_join m t)) = DEAD
     | DEAD \<Rightarrow> m_join m t = NULL \<and> t \<noteq> main \<and> l_ret (s_lwt (m_sys m) t) = m_died m t
     | BLOCKED \<Rightarrow> m_join m t \<in> m_live m \<and> l_joinedfrom (s_lwt (m_sys m) (m_join m t)) = t \<and>
         l_state (s_lwt (m_sys m) (m_join m t)) \<noteq> DEAD
     | WAITING \<Rightarrow> False" if t: "t \<in> set xs" for t
  proof (cases "m_join m t = NULL")
    case True
    then show ?thesis using j(7) [OF t] d(9) t by (auto simp: deaths_ok_def)
  next
    case False
    then show ?thesis using j(3,4,6) [OF False] d(2)
      by (cases "l_state (s_lwt (m_sys m) (m_join m t)) = DEAD") simp_all
  qed
  with d(2,6) j(1) show ?thesis by simp
qed

theorem machine_states_conform_witness:
  "\<exists>main m. runs_to load_ex main m \<and> m_join m (m_cur m) \<noteq> NULL \<and> ready (m_sys m) (m_cur m) \<and>
    acyclic (waits (m_join m))"
proof -
  obtain main m t where r: "runs_to load_ex main m" "\<not> m_stranger m" "m_join m (m_cur m) = t" "t \<noteq> NULL"
    by (rule run_ex)
  from machine_states_conform [OF load_ex_loaded r(1,2)] r show ?thesis by blast
qed

text \<open>C3: no program gets stuck in the library, as long as no death has followed a left-over
  \<open>joinedfrom\<close> to a thread that was not waiting for it. The running thread's \<open>lwt_yield\<close> returns or
  switches; its death switches to another thread unless it is itself the first to follow such a
  pointer, which it never is when some thread waits for it in \<open>lwt_join\<close>; when the running thread
  comes back inside \<open>lwt_join\<close>, the join returns, with the value its target died with; a join of a
  thread that is not itself BLOCKED returns or switches.\<close>

theorem machine_never_stuck:
  assumes "loaded s" and "runs_to s main m" and "\<not> m_stranger m"
  shows "(\<forall>t. t = NULL \<or> t \<in> m_live m \<longrightarrow> (\<exists>r. lwt_yield t (m_sys m) = Inr r)) \<and>
    (m_join m (m_cur m) = NULL \<and> m_cur m \<noteq> main \<and> \<not> stranger m \<longrightarrow>
       (\<exists>s'. lwt_trampoline run (m_sys m) = Inr (Switched, s'))) \<and>
    (m_join m (m_cur m) \<noteq> NULL \<longrightarrow> (\<exists>s'. lwt_join_resume (m_join m (m_cur m)) (m_sys m) =
       Inr (Returned (m_died m (m_join m (m_cur m))), s'))) \<and>
    (\<forall>t\<in>m_live m. t \<noteq> m_cur m \<and> l_state (s_lwt (m_sys m) t) \<noteq> BLOCKED \<longrightarrow>
       (\<exists>r. lwt_join t (m_sys m) = Inr r)) \<and>
    (\<forall>p. p \<noteq> NULL \<and> m_join m p = m_cur m \<longrightarrow> \<not> stranger m)"
proof -
  from reaches_minv [OF assms] obtain xs A k where i: "minv main m xs A k" .
  note d = minvD [OF i]
  have "\<exists>r. lwt_schedule (m_sys m) = Inr r"
    by (rule schedule_any [OF d(1) minv_cur [OF i] d(6) counts_one [OF i]]) blast
  then have y: "\<exists>r. lwt_yield t (m_sys m) = Inr r" for t
    by (cases "t = NULL") (auto simp: lwt_yield_def Let_def)
  have e: "\<exists>s'. lwt_trampoline run (m_sys m) = Inr (Switched, s')"
    if c: "m_join m (m_cur m) = NULL" "m_cur m \<noteq> main" and ns: "\<not> stranger m"
  proof (cases "l_flag (s_lwt (m_sys m) (m_cur m))")
    case LWT_DEFAULT
    show ?thesis unfolding lwt_trampoline_def Let_def
      by (rule dies_runs [OF i c LWT_DEFAULT ns]) (erule exI)
  next
    case LWT_NOJOIN
    show ?thesis unfolding lwt_trampoline_def Let_def
      by (rule dies_unjoined_runs [OF i c LWT_NOJOIN]) (erule exI)
  qed
  have r: "\<exists>s'. lwt_join_resume (m_join m (m_cur m)) (m_sys m) =
       Inr (Returned (m_died m (m_join m (m_cur m))), s')" if "m_join m (m_cur m) \<noteq> NULL"
    using join_resumes [OF i refl that] by metis
  have j: "\<exists>r. lwt_join t (m_sys m) = Inr r"
    if "t \<in> m_live m" "t \<noteq> m_cur m" "l_state (s_lwt (m_sys m) t) \<noteq> BLOCKED" for t
    using join_answers [OF i that] .
  have g: "\<not> stranger m" if p: "p \<noteq> NULL" "m_join m p = m_cur m" for p
  proof -
    have "m_cur m \<noteq> NULL" using minv_cur [OF i] placed_outside(2) [OF d(5)] by auto
    with joins_okD(4) [OF d(8), of p] p show ?thesis by (simp add: stranger_def Let_def)
  qed
  show ?thesis by (intro conjI allI ballI impI; (elim conjE)?) (rule y e r j g; assumption?)+
qed

theorem machine_never_stuck_witness:
  "\<exists>main m t s' r. runs_to load_ex main m \<and> m_join m (m_cur m) = t \<and> t \<noteq> NULL \<and>
    lwt_join_resume t (m_sys m) = Inr (Returned 42, s') \<and> lwt_yield NULL (m_sys m) = Inr r"
proof -
  obtain main m t where r: "runs_to load_ex main m" "\<not> m_stranger m" "m_join m (m_cur m) = t" "t \<noteq> NULL"
    "m_died m t = 42" by (rule run_ex)
  from machine_never_stuck [OF load_ex_loaded r(1,2)] r(3-5) have
    "\<exists>s'. lwt_join_resume t (m_sys m) = Inr (Returned 42, s')" "\<exists>r. lwt_yield NULL (m_sys m) = Inr r"
    by auto
  with r(1,3,4) show ?thesis by blast
qed

end
