(* ===== verification/KallocMem.thy ===== *)
theory KallocMem
  imports Kalloc "HOL-Library.Word"
begin

text \<open>
  \<open>kalloc.c\<close> over the bytes of memory. \<open>Kalloc\<close> keeps the header of a run (\<open>next\<close>, \<open>len\<close>) in maps
  beside the memory; in the program it lies in the first eight bytes of the run itself, where the
  client of a block, or the header of a neighbour, can overwrite it. Here the header is read and
  written byte by byte, little endian, and the client may write any byte of its blocks.

  The maps are faithful as long as no free run is shorter than a header: \<open>kfree_lockstep\<close> and
  \<open>kalloc_lockstep\<close> take the loops over bytes and the loops over maps side by side. What happens below
  eight bytes is \<open>kalloc_residue_overlaps_header\<close> of \<open>Kalloc\<close>.
\<close>

type_synonym byte = "8 word"

record bmem =
  bytes :: "addr \<Rightarrow> byte"
  b_freelist :: addr
  b_sys :: "addr list"

subsection \<open>Words in memory\<close>

definition load32 :: "(addr \<Rightarrow> byte) \<Rightarrow> addr \<Rightarrow> int" where
  "load32 m a = uint (m a) + 2 ^ 8 * uint (m (a + 1)) + 2 ^ 16 * uint (m (a + 2)) + 2 ^ 24 * uint (m (a + 3))"

definition load_int :: "(addr \<Rightarrow> byte) \<Rightarrow> addr \<Rightarrow> int" where
  "load_int m a = (let v = load32 m a in if v < 2 ^ 31 then v else v - 2 ^ 32)"

definition store32 :: "addr \<Rightarrow> int \<Rightarrow> (addr \<Rightarrow> byte) \<Rightarrow> addr \<Rightarrow> byte" where
  "store32 a v m = m(a := word_of_int v, a + 1 := word_of_int (v div 2 ^ 8),
     a + 2 := word_of_int (v div 2 ^ 16), a + 3 := word_of_int (v div 2 ^ 24))"

lemma load_store:
  assumes "0 \<le> v" and "v < 2 ^ 32"
  shows "load32 (store32 a v m) a = v"
proof -
  let ?q = "v div 256" and ?r = "v div 65536" and ?s = "v div 16777216"
  have "?r = ?q div 256" "?s = ?r div 256" by (simp_all flip: zdiv_zmult2_eq)
  then have "v = v mod 256 + 256 * ?q" "?q = ?q mod 256 + 256 * ?r" "?r = ?r mod 256 + 256 * ?s"
    by (simp_all only: mod_mult_div_eq)
  moreover have "?s mod 256 = ?s"
    using assms by (intro mod_pos_pos_trivial) (simp_all add: div_less_iff_less_mult pos_imp_zdiv_nonneg_iff)
  moreover have "load32 (store32 a v m) a =
      v mod 256 + 256 * (?q mod 256) + 65536 * (?r mod 256) + 16777216 * (?s mod 256)"
    by (simp add: load32_def store32_def uint_word_of_int)
  ultimately show ?thesis by linarith
qed

lemma load_int_store: "0 \<le> v \<Longrightarrow> v < 2 ^ 31 \<Longrightarrow> load_int (store32 a v m) a = v"
  by (simp add: load_int_def load_store)

lemma load_frame: "b + 4 \<le> a \<or> a + 4 \<le> b \<Longrightarrow> load32 (store32 b v m) a = load32 m a"
  by (auto simp: load32_def store32_def)

lemma load_int_frame: "b + 4 \<le> a \<or> a + 4 \<le> b \<Longrightarrow> load_int (store32 b v m) a = load_int m a"
  by (simp add: load_int_def load_frame)

lemma store_frame: "x \<notin> block b 4 \<Longrightarrow> store32 b v m x = m x"
  by (auto simp: store32_def)

subsection \<open>The code\<close>

fun mem_deref :: "bmem \<Rightarrow> rcell \<Rightarrow> addr" where
  "mem_deref M FreeHead = b_freelist M"
| "mem_deref M (NextOf r) = load32 (bytes M) r"

fun mem_store :: "rcell \<Rightarrow> addr \<Rightarrow> bmem \<Rightarrow> bmem" where
  "mem_store FreeHead v M = M\<lparr>b_freelist := v\<rparr>"
| "mem_store (NextOf r) v M = M\<lparr>bytes := store32 r v (bytes M)\<rparr>"

definition mem_len :: "bmem \<Rightarrow> addr \<Rightarrow> int" where
  "mem_len M r = load_int (bytes M) (r + 4)"

definition mem_set_len :: "addr \<Rightarrow> int \<Rightarrow> bmem \<Rightarrow> bmem" where
  "mem_set_len r l M = M\<lparr>bytes := store32 (r + 4) l (bytes M)\<rparr>"

definition mem_malloc :: "bmem \<Rightarrow> addr \<times> bmem" where
  "mem_malloc M = (case b_sys M of [] \<Rightarrow> (NULL, M) | b # bs \<Rightarrow> (b, M\<lparr>b_sys := bs\<rparr>))"

partial_function (option) mem_kfree_loop :: "bmem \<Rightarrow> addr \<Rightarrow> int \<Rightarrow> rcell \<Rightarrow> bmem option" where
  "mem_kfree_loop M p len rp =
     (let r = mem_deref M rp; pend = p + len in
      if r \<noteq> NULL \<and> r \<le> pend then
        let rend = r + mem_len M r in
        if pend = r then
          let M1 = mem_set_len p (len + mem_len M r) M;
              M2 = mem_store (NextOf p) (mem_deref M1 (NextOf r)) M1
          in Some (mem_store rp p M2)
        else if rend = p then
          let M1 = mem_set_len r (mem_len M r + len) M;
              nx = mem_deref M1 (NextOf r)
          in if nx \<noteq> NULL \<and> nx = pend then
               let M2 = mem_set_len r (mem_len M1 r + mem_len M1 nx) M1
               in Some (mem_store (NextOf r) (mem_deref M2 (NextOf (mem_deref M2 (NextOf r)))) M2)
             else Some M1
        else mem_kfree_loop M p len (NextOf r)
      else
        let M1 = mem_set_len p len M;
            M2 = mem_store (NextOf p) r M1
        in Some (mem_store rp p M2))"

definition mem_kfree :: "bmem \<Rightarrow> addr \<Rightarrow> int \<Rightarrow> bmem result" where
  "mem_kfree M v len =
     rbind (assertion (len > 0 \<and> len \<le> PAGESIZE))
       (\<lambda>_. terminating (mem_kfree_loop M v len FreeHead))"

partial_function (option) mem_kalloc_loop :: "bmem \<Rightarrow> int \<Rightarrow> rcell \<Rightarrow> (addr option \<times> bmem) option" where
  "mem_kalloc_loop M n rp =
     (let r = mem_deref M rp in
      if r \<noteq> NULL then
        if mem_len M r = n then Some (Some r, mem_store rp (mem_deref M (NextOf r)) M)
        else if mem_len M r > n then
          let M1 = mem_set_len r (mem_len M r - n) M
          in Some (Some (r + mem_len M1 r), M1)
        else mem_kalloc_loop M n (NextOf r)
      else Some (None, M))"

definition mem_kalloc :: "bmem \<Rightarrow> int \<Rightarrow> (addr \<times> bmem) result" where
  "mem_kalloc M n =
     rbind (assertion (n \<le> PAGESIZE \<and> n > 0))
       (\<lambda>_. rbind (terminating (mem_kalloc_loop M n FreeHead))
         (\<lambda>(q, M1). case q of Some p \<Rightarrow> Inr (p, M1) | None \<Rightarrow> Inr (mem_malloc M1)))"

definition mem_kinit :: "bmem \<Rightarrow> bmem result" where
  "mem_kinit M = (let (start, M1) = mem_malloc M
     in rbind (assertion (start \<noteq> NULL)) (\<lambda>_. mem_kfree M1 start PAGESIZE))"

subsection \<open>Bytes and maps agree on headers that lie apart\<close>

text \<open>\<open>heap_of M\<close> reads a header at every address; \<open>agree S h M\<close>: the maps hold the headers at \<open>S\<close>.\<close>

definition heap_of :: "bmem \<Rightarrow> kheap" where
  "heap_of M = \<lparr>run_next = load32 (bytes M), run_len = mem_len M, freelist = b_freelist M, sys_blocks = b_sys M\<rparr>"

definition headers_apart :: "addr set \<Rightarrow> bool" where
  "headers_apart S \<longleftrightarrow> (\<forall>a\<in>S. \<forall>b\<in>S. a \<noteq> b \<longrightarrow> a + SIZEOF_RUN \<le> b \<or> b + SIZEOF_RUN \<le> a)"

definition agree :: "addr set \<Rightarrow> kheap \<Rightarrow> bmem \<Rightarrow> bool" where
  "agree S h M \<longleftrightarrow> freelist h = b_freelist M \<and> sys_blocks h = b_sys M \<and>
     (\<forall>a\<in>S. run_next h a = load32 (bytes M) a \<and> run_len h a = mem_len M a)"

definition only_headers :: "addr set \<Rightarrow> bmem \<Rightarrow> bmem \<Rightarrow> bool" where
  "only_headers S M M' \<longleftrightarrow> (\<forall>x. (\<forall>a\<in>S. x \<notin> block a SIZEOF_RUN) \<longrightarrow> bytes M' x = bytes M x)"

lemma agree_heap_of: "agree S (heap_of M) M"
  by (simp add: agree_def heap_of_def)

lemma agree_store:
  assumes "agree S h M" and "headers_apart S" and "r \<in> S" and "0 \<le> v" and "v < 2 ^ 32"
  shows "agree S (store (NextOf r) v h) (mem_store (NextOf r) v M)"
    and "only_headers S M (mem_store (NextOf r) v M)"
proof -
  have n: "load32 (store32 r v (bytes M)) a = (if a = r then v else load32 (bytes M) a)"
    "load_int (store32 r v (bytes M)) (a + 4) = load_int (bytes M) (a + 4)" if "a \<in> S" for a
  proof -
    have "a \<noteq> r \<Longrightarrow> a + 8 \<le> r \<or> r + 8 \<le> a"
      using assms(2,3) that by (auto simp: headers_apart_def SIZEOF_RUN_def)
    then show "load32 (store32 r v (bytes M)) a = (if a = r then v else load32 (bytes M) a)"
      "load_int (store32 r v (bytes M)) (a + 4) = load_int (bytes M) (a + 4)"
      using load_store [OF assms(4,5)] load_frame [of r a] load_int_frame [of r "a + 4"] by (cases "a = r"; auto)+
  qed
  then show "agree S (store (NextOf r) v h) (mem_store (NextOf r) v M)"
    using assms(1) by (simp add: agree_def mem_len_def)
  show "only_headers S M (mem_store (NextOf r) v M)"
    using assms(3) by (force simp: only_headers_def SIZEOF_RUN_def intro: store_frame)
qed

lemma agree_set_len:
  assumes "agree S h M" and "headers_apart S" and "r \<in> S" and "0 \<le> v" and "v < 2 ^ 31"
  shows "agree S (set_len r v h) (mem_set_len r v M)" and "only_headers S M (mem_set_len r v M)"
proof -
  have n: "load_int (store32 (r + 4) v (bytes M)) (a + 4) = (if a = r then v else load_int (bytes M) (a + 4))"
    "load32 (store32 (r + 4) v (bytes M)) a = load32 (bytes M) a" if "a \<in> S" for a
  proof -
    have "a \<noteq> r \<Longrightarrow> a + 8 \<le> r \<or> r + 8 \<le> a"
      using assms(2,3) that by (auto simp: headers_apart_def SIZEOF_RUN_def)
    then show "load_int (store32 (r + 4) v (bytes M)) (a + 4) = (if a = r then v else load_int (bytes M) (a + 4))"
      "load32 (store32 (r + 4) v (bytes M)) a = load32 (bytes M) a"
      using load_int_store [OF assms(4,5)] load_frame [of "r + 4" a] load_int_frame [of "r + 4" "a + 4"] by (cases "a = r"; auto)+
  qed
  then show "agree S (set_len r v h) (mem_set_len r v M)"
    using assms(1) by (simp add: agree_def mem_len_def mem_set_len_def set_len_def)
  show "only_headers S M (mem_set_len r v M)"
    using assms(3) by (force simp: only_headers_def SIZEOF_RUN_def mem_set_len_def intro: store_frame)
qed

lemma agree_head: "agree S h M \<Longrightarrow> agree S (store FreeHead v h) (mem_store FreeHead v M)"
  "only_headers S M (mem_store FreeHead v M)"
  by (simp_all add: agree_def only_headers_def mem_len_def)

lemma only_headers_trans [trans]: "only_headers S M M1 \<Longrightarrow> only_headers S M1 M2 \<Longrightarrow> only_headers S M M2"
  by (simp add: only_headers_def)

lemma only_headers_refl: "only_headers S M M"
  by (simp add: only_headers_def)

text \<open>The cursor of the loops points to \<open>freelist\<close> or into a header.\<close>

fun cell_in :: "addr set \<Rightarrow> rcell \<Rightarrow> bool" where
  "cell_in S FreeHead = True"
| "cell_in S (NextOf r) = (r \<in> S)"

definition small :: "addr set \<Rightarrow> bool" where
  "small S \<longleftrightarrow> (\<forall>a\<in>S. 0 < a \<and> a < 2 ^ 32)"

definition total :: "run list \<Rightarrow> int" where
  "total rs = sum_list (map snd rs)"

lemma total_simps [simp]: "total [] = 0" "total ((a, l) # rs) = l + total rs"
  by (simp_all add: total_def)

lemma agree_deref: "agree S h M \<Longrightarrow> cell_in S rp \<Longrightarrow> mem_deref M rp = deref h rp"
  by (cases rp) (simp_all add: agree_def)

lemma agree_len: "agree S h M \<Longrightarrow> r \<in> S \<Longrightarrow> mem_len M r = run_len h r"
  by (simp add: agree_def)

lemma agree_cell:
  assumes "agree S h M" and "headers_apart S" and "cell_in S rp" and "0 \<le> v" and "v < 2 ^ 32"
  shows "agree S (store rp v h) (mem_store rp v M)" and "only_headers S M (mem_store rp v M)"
  using assms agree_store [OF assms(1,2) _ assms(4,5)] agree_head by (cases rp; simp del: store.simps mem_store.simps)+

lemma last_cell_in: "fst ` set pre \<subseteq> S \<Longrightarrow> cell_in S (last_cell pre)"
  by (cases pre rule: rev_cases) auto

lemma agree_link:
  assumes a: "agree S h M" and S: "headers_apart S" "small S" and rp: "cell_in S rp" and v: "v \<in> S"
    and x: "x = 0 \<or> x \<in> S" and l: "0 \<le> l" "l < 2 ^ 31"
  shows "agree S (store rp v (store (NextOf v) x (set_len v l h)))
      (mem_store rp v (mem_store (NextOf v) x (mem_set_len v l M)))"
    and "only_headers S M (mem_store rp v (mem_store (NextOf v) x (mem_set_len v l M)))"
proof -
  have xs: "0 \<le> x" "x < 2 ^ 32" using x S(2) by (auto simp: small_def)
  have vs: "0 \<le> v" "v < 2 ^ 32" using v S(2) by (auto simp: small_def)
  note 1 = agree_set_len [OF a S(1) v l]
  note 2 = agree_store [OF 1(1) S(1) v xs]
  note 3 = agree_cell [OF 2(1) S(1) rp vs]
  show "agree S (store rp v (store (NextOf v) x (set_len v l h)))
      (mem_store rp v (mem_store (NextOf v) x (mem_set_len v l M)))" by (rule 3(1))
  show "only_headers S M (mem_store rp v (mem_store (NextOf v) x (mem_set_len v l M)))"
    by (rule only_headers_trans [OF 1(2) only_headers_trans [OF 2(2) 3(2)]])
qed

lemma runs_head: "runs h p rs NULL \<Longrightarrow> p = NULL \<or> p \<in> fst ` set rs"
  by (cases rs) auto

lemma total_nonneg: "\<forall>(a, l)\<in>set rs. 0 \<le> l \<Longrightarrow> 0 \<le> total rs"
  by (induction rs) auto

subsection \<open>The loops in step\<close>

lemma kfree_lockstep:
  assumes "free_list h (pre @ rs)" and a: "agree S h M" and S: "headers_apart S" "small S"
    and "insert v (fst ` set (pre @ rs)) \<subseteq> S" and "\<forall>(a, l)\<in>set rs. 0 \<le> l" and "0 < n" and "n + total rs < 2 ^ 31"
  shows "\<exists>h' M'. kfree_loop h v n (last_cell pre) = Some h' \<and> mem_kfree_loop M v n (last_cell pre) = Some M' \<and>
    agree S h' M' \<and> only_headers S M M'"
  using assms(1,5-8)
proof (induction rs arbitrary: pre)
  case Nil
  have rp: "cell_in S (last_cell pre)" using Nil.prems(2) by (intro last_cell_in) auto
  have r: "deref h (last_cell pre) = NULL" using free_list_split [OF Nil.prems(1)] by simp
  with agree_deref [OF a rp] have m: "mem_deref M (last_cell pre) = NULL" by simp
  have "v \<in> S" using Nil.prems(2) by simp
  from agree_link [OF a S rp this, of NULL n] Nil.prems(4,5) r m show ?case
    by (simp add: kfree_loop.simps mem_kfree_loop.simps Let_def del: store.simps mem_store.simps)
next
  case (Cons x rs)
  obtain b l where x: "x = (b, l)" by force
  note sp = free_list_split [OF Cons.prems(1)]
  from sp x have r: "deref h (last_cell pre) = b" "b \<noteq> NULL" "run_len h b = l"
    "runs h (run_next h b) rs NULL" by auto
  have rp: "cell_in S (last_cell pre)" using Cons.prems(2) by (intro last_cell_in) auto
  have bv: "b \<in> S" "v \<in> S" and rsS: "fst ` set rs \<subseteq> S" using Cons.prems(2) x by auto
  have m: "mem_deref M (last_cell pre) = b" "mem_len M b = l"
    using agree_deref [OF a rp] r agree_len [OF a bv(1)] by simp_all
  have l0: "0 \<le> l" "0 \<le> total rs" using Cons.prems(3) x total_nonneg [of rs] by auto
  have nx: "run_next h b = 0 \<or> run_next h b \<in> S" using runs_head [OF r(4)] rsS by auto
  have tot: "n + l + total rs < 2 ^ 31" using Cons.prems(5) x by simp
  consider "b > v + n" | "v + n = b" | "b < v + n" "b + l = v" | "b < v + n" "b + l \<noteq> v" by linarith
  then show ?case
  proof cases
    case 1
    from agree_link [OF a S rp bv(2), of b n] bv(1) Cons.prems(4) tot l0 1 r m show ?thesis
      by (simp add: kfree_loop.simps mem_kfree_loop.simps Let_def del: store.simps mem_store.simps)
  next
    case 2
    have b31: "0 \<le> n + l" "n + l < 2 ^ 31" using Cons.prems(4) tot l0 by simp_all
    have d: "mem_deref (mem_set_len v (n + l) M) (NextOf b) = run_next h b"
      using agree_deref [OF agree_set_len(1) [OF a S(1) bv(2) b31], of "NextOf b"] bv(1) by (simp add: set_len_def)
    from agree_link [OF a S rp bv(2) nx b31] 2 r m d show ?thesis
      by (simp add: kfree_loop.simps mem_kfree_loop.simps Let_def set_len_def del: store.simps mem_store.simps mem_deref.simps)
  next
    case 3
    have b31: "0 \<le> l + n" "l + n < 2 ^ 31" using Cons.prems(4) tot l0 by simp_all
    let ?h1 = "set_len b (l + n) h" and ?M1 = "mem_set_len b (l + n) M"
    note a1 = agree_set_len [OF a S(1) bv(1) b31]
    have d: "mem_deref ?M1 (NextOf b) = run_next h b"
      using agree_deref [OF a1(1), of "NextOf b"] bv(1) by (simp add: set_len_def)
    show ?thesis
    proof (cases "run_next h b \<noteq> NULL \<and> run_next h b = v + n")
      case False
      have "kfree_loop h v n (last_cell pre) = Some ?h1"
        using 3 False r by (subst kfree_loop.simps) (auto simp: Let_def set_len_def)
      moreover have "mem_kfree_loop M v n (last_cell pre) = Some ?M1"
        using 3 False m d by (subst mem_kfree_loop.simps) (auto simp: Let_def r(2) simp del: mem_deref.simps)
      ultimately show ?thesis using a1 by blast
    next
      case True
      with r(4) obtain c k rs' where y: "rs = (c, k) # rs'" "run_next h b = c" "run_len h c = k"
        "runs h (run_next h c) rs' NULL" by (cases rs) auto
      have c: "c \<in> S" "c \<noteq> b" using y(1) rsS Cons.prems(1) x by (auto simp: free_list_def)
      have nx': "run_next h c = 0 \<or> run_next h c \<in> S" using runs_head [OF y(4)] rsS y(1) by auto
      have k0: "0 \<le> k" "0 \<le> total rs'" using Cons.prems(3) y(1) x total_nonneg [of rs'] by auto
      have k31: "0 \<le> l + n + k" "l + n + k < 2 ^ 31" using k0 b31(1) tot y(1) by simp_all
      have ln: "run_len ?h1 b = l + n" "run_len ?h1 c = k" "mem_len ?M1 b = l + n" "mem_len ?M1 c = k"
        using c y(3) agree_len [OF a1(1)] bv(1) by (simp_all add: set_len_def)
      note a2 = agree_set_len [OF a1(1) S(1) bv(1) k31]
      let ?h2 = "set_len b (l + n + k) ?h1" and ?M2 = "mem_set_len b (l + n + k) ?M1"
      have d2: "mem_deref ?M2 (NextOf b) = c" "mem_deref ?M2 (NextOf c) = run_next h c"
        using agree_deref [OF a2(1), of "NextOf b"] agree_deref [OF a2(1), of "NextOf c"] bv(1) c(1) y(2)
        by (simp_all add: set_len_def)
      have nr: "0 \<le> run_next h c" "run_next h c < 2 ^ 32" using nx' S(2) by (auto simp: small_def)
      note a3 = agree_store [OF a2(1) S(1) bv(1) nr]
      have K: "kfree_loop h v n (last_cell pre) = Some (store (NextOf b) (run_next h c) ?h2)"
        using 3 True r y ln by (subst kfree_loop.simps) (simp add: Let_def set_len_def)
      have "mem_kfree_loop M v n (last_cell pre) = Some (mem_store (NextOf b) (run_next h c) ?M2)"
        using 3 True m d d2 ln y(2)
        by (subst mem_kfree_loop.simps) (simp add: Let_def r(2) del: mem_deref.simps mem_store.simps)
      with K a3 a1(2) a2(2) show ?thesis by (blast intro: only_headers_trans)
    qed
  next
    case 4
    have "free_list h ((pre @ [x]) @ rs)" "insert v (fst ` set ((pre @ [x]) @ rs)) \<subseteq> S"
      using Cons.prems(1,2) by auto
    moreover have "\<forall>(a, l)\<in>set rs. 0 \<le> l" "n + total rs < 2 ^ 31" using Cons.prems(3) l0 tot by auto
    ultimately obtain h' M' where "kfree_loop h v n (NextOf b) = Some h'" "mem_kfree_loop M v n (NextOf b) = Some M'"
      "agree S h' M'" "only_headers S M M'" using Cons.IH [of "pre @ [x]"] Cons.prems(4) x by auto
    with 4 r m show ?thesis
      by (subst kfree_loop.simps, subst mem_kfree_loop.simps) (simp add: Let_def)
  qed
qed

lemma kalloc_lockstep:
  assumes "free_list h (pre @ rs)" and a: "agree S h M" and S: "headers_apart S" "small S"
    and "fst ` set (pre @ rs) \<subseteq> S" and "\<forall>(a, l)\<in>set rs. 0 \<le> l \<and> l < 2 ^ 31" and "0 < n"
  shows "\<exists>q h' M'. kalloc_loop h n (last_cell pre) = Some (q, h') \<and> mem_kalloc_loop M n (last_cell pre) = Some (q, M') \<and>
    agree S h' M' \<and> only_headers S M M'"
  using assms(1,5-7)
proof (induction rs arbitrary: pre)
  case Nil
  have rp: "cell_in S (last_cell pre)" using Nil.prems(2) by (intro last_cell_in) auto
  have r: "deref h (last_cell pre) = NULL" using free_list_split [OF Nil.prems(1)] by simp
  with agree_deref [OF a rp] a show ?case
    by (simp add: kalloc_loop.simps mem_kalloc_loop.simps only_headers_refl)
next
  case (Cons x rs)
  obtain b l where x: "x = (b, l)" by force
  note sp = free_list_split [OF Cons.prems(1)]
  from sp x have r: "deref h (last_cell pre) = b" "b \<noteq> NULL" "run_len h b = l"
    "runs h (run_next h b) rs NULL" by auto
  have rp: "cell_in S (last_cell pre)" using Cons.prems(2) by (intro last_cell_in) auto
  have bv: "b \<in> S" and rsS: "fst ` set rs \<subseteq> S" using Cons.prems(2) x by auto
  have m: "mem_deref M (last_cell pre) = b" "mem_len M b = l" "mem_deref M (NextOf b) = run_next h b"
    using agree_deref [OF a rp] r agree_len [OF a bv] agree_deref [OF a, of "NextOf b"] bv by simp_all
  have l0: "0 \<le> l" "l < 2 ^ 31" using Cons.prems(3) x by auto
  have nr: "0 \<le> run_next h b" "run_next h b < 2 ^ 32"
    using runs_head [OF r(4)] rsS S(2) unfolding small_def by (fastforce, fastforce)
  consider "l = n" | "l > n" | "l < n" by linarith
  then show ?case
  proof cases
    case 1
    from agree_cell [OF a S(1) rp nr] 1 r m show ?thesis
      by (simp add: kalloc_loop.simps mem_kalloc_loop.simps Let_def del: store.simps mem_store.simps mem_deref.simps)
  next
    case 2
    have b31: "0 \<le> l - n" "l - n < 2 ^ 31" using 2 l0 Cons.prems(4) by simp_all
    note a1 = agree_set_len [OF a S(1) bv b31]
    have "run_len (set_len b (l - n) h) b = l - n" by (simp add: set_len_def)
    with agree_len [OF a1(1) bv] 2 r m a1 show ?thesis
      by (simp add: kalloc_loop.simps mem_kalloc_loop.simps Let_def del: mem_deref.simps)
  next
    case 3
    have "free_list h ((pre @ [x]) @ rs)" "fst ` set ((pre @ [x]) @ rs) \<subseteq> S"
      "\<forall>(a, l)\<in>set rs. 0 \<le> l \<and> l < 2 ^ 31" using Cons.prems(1-3) by auto
    from Cons.IH [OF this Cons.prems(4)] x obtain q h' M' where "kalloc_loop h n (NextOf b) = Some (q, h')"
      "mem_kalloc_loop M n (NextOf b) = Some (q, M')" "agree S h' M'" "only_headers S M M'" by auto
    with 3 r m show ?thesis
      by (subst kalloc_loop.simps, subst mem_kalloc_loop.simps) (simp add: Let_def)
  qed
qed

subsection \<open>The pool in memory\<close>

definition roomy :: "run list \<Rightarrow> bool" where
  "roomy rs \<longleftrightarrow> (\<forall>(a, l)\<in>set rs. SIZEOF_RUN \<le> l)"

text \<open>The bytes \<open>A\<close> have addresses of 32 bits and are few enough to be counted by an \<open>int\<close>.\<close>

definition in_memory :: "addr set \<Rightarrow> bool" where
  "in_memory A \<longleftrightarrow> finite A \<and> A \<subseteq> {0<..<2 ^ 32} \<and> int (card A) < 2 ^ 31"

definition mem_pool :: "bmem \<Rightarrow> addr set \<Rightarrow> bool" where
  "mem_pool M A \<longleftrightarrow> (\<exists>rs. free_list (heap_of M) rs \<and> wf_runs rs \<and> roomy rs \<and> span rs = A)"

text \<open>The pool serves the request, and leaves no run that is too short for its header.\<close>

definition clean_request :: "bmem \<Rightarrow> int \<Rightarrow> bool" where
  "clean_request M n \<longleftrightarrow> (\<exists>rs p rs'. free_list (heap_of M) rs \<and> a_alloc rs n = Some (p, rs') \<and> roomy rs')"

lemma in_memory_subset: "in_memory B \<Longrightarrow> A \<subseteq> B \<Longrightarrow> in_memory A"
  unfolding in_memory_def by (meson card_mono finite_subset le_less_trans of_nat_mono order_trans)

lemma wf_runs_total: "wf_runs rs \<Longrightarrow> finite (span rs) \<and> total rs = int (card (span rs))"
proof (induction rs)
  case (Cons x rs)
  obtain a l where x: "x = (a, l)" by force
  with Cons have IH: "finite (span rs)" "total rs = int (card (span rs))" and l: "0 < l" by auto
  have "block a l \<inter> span rs = {}" using wf_runs_after [of a l rs] Cons.prems x by fastforce
  then have "card (span (x # rs)) = card (block a l) + card (span rs)"
    using IH(1) x by (simp add: card_Un_disjoint block_def)
  then show ?case using IH l x by (simp add: block_def)
qed simp

lemma blocks_headers:
  assumes "block a l \<inter> block b m = {}" and "SIZEOF_RUN \<le> l" and "SIZEOF_RUN \<le> m"
  shows "a + SIZEOF_RUN \<le> b \<or> b + SIZEOF_RUN \<le> a"
proof (rule ccontr)
  assume "\<not> ?thesis"
  then have "max a b \<in> block a l \<inter> block b m" using assms(2,3) by (auto simp: SIZEOF_RUN_def)
  with assms(1) show False by blast
qed

lemma run_in_span: "(a, l) \<in> set rs \<Longrightarrow> block a l \<subseteq> span rs"
  by (auto simp: span_def)

lemma wf_runs_disjoint:
  "wf_runs rs \<Longrightarrow> (a, l) \<in> set rs \<Longrightarrow> (b, m) \<in> set rs \<Longrightarrow> a \<noteq> b \<Longrightarrow> block a l \<inter> block b m = {}"
  by (induction rs) fastforce+

lemma runs_headers: "wf_runs rs \<Longrightarrow> roomy rs \<Longrightarrow> headers_apart (fst ` set rs)"
  unfolding headers_apart_def
proof (intro ballI impI)
  fix a b assume w: "wf_runs rs" "roomy rs" and ab: "a \<in> fst ` set rs" "b \<in> fst ` set rs" "a \<noteq> b"
  then obtain l m where lm: "(a, l) \<in> set rs" "(b, m) \<in> set rs" by auto
  with w(2) have "SIZEOF_RUN \<le> l" "SIZEOF_RUN \<le> m" by (auto simp: roomy_def)
  with wf_runs_disjoint [OF w(1) lm ab(3)] show "a + SIZEOF_RUN \<le> b \<or> b + SIZEOF_RUN \<le> a"
    by (rule blocks_headers)
qed

lemma small_heads:
  assumes "wf_runs rs" and "in_memory (span rs)"
  shows "small (fst ` set rs)"
  using wf_runs_start [OF assms(1)] assms(2) by (fastforce simp: small_def in_memory_def)

lemma agree_free_list: "agree S h M \<Longrightarrow> free_list h rs \<Longrightarrow> fst ` set rs \<subseteq> S \<Longrightarrow> free_list (heap_of M) rs"
  using runs_frame [of rs "heap_of M" h] by (auto simp: free_list_def agree_def heap_of_def subset_iff)

lemma roomy_header: "roomy rs \<Longrightarrow> a \<in> fst ` set rs \<Longrightarrow> block a SIZEOF_RUN \<subseteq> span rs"
  using run_in_span by (fastforce simp: roomy_def)

text \<open>A state with the same bytes at \<open>A\<close> has the same free list.\<close>

lemma mem_pool_cong:
  assumes "mem_pool M A" and "\<forall>x\<in>A. bytes M' x = bytes M x" and "b_freelist M' = b_freelist M"
  shows "mem_pool M' A"
proof -
  from assms(1) obtain rs where rs: "free_list (heap_of M) rs" "wf_runs rs" "roomy rs" "span rs = A"
    by (auto simp: mem_pool_def)
  have same: "load32 (bytes M') a = load32 (bytes M) a \<and> mem_len M' a = mem_len M a" if "a \<in> fst ` set rs" for a
  proof -
    have "bytes M' (a + i) = bytes M (a + i)" if "0 \<le> i" "i < 8" for i
    proof -
      have "a + i \<in> block a SIZEOF_RUN" using that by (simp add: SIZEOF_RUN_def)
      then show ?thesis using roomy_header [OF rs(3) \<open>a \<in> fst ` set rs\<close>] rs(4) assms(2) by blast
    qed
    from this [of 0] this [of 1] this [of 2] this [of 3] this [of 4] this [of 5] this [of 6] this [of 7]
    show ?thesis by (simp add: load32_def mem_len_def load_int_def add.assoc)
  qed
  have "free_list (heap_of M') rs"
    using rs(1) runs_frame [of rs "heap_of M'" "heap_of M"] same assms(3) by (simp add: free_list_def heap_of_def)
  with rs show ?thesis by (auto simp: mem_pool_def)
qed

lemma mem_alloc_ok:
  assumes "mem_pool M A" and "in_memory A" and "0 < n" and "n \<le> PAGESIZE" and "clean_request M n"
  shows "\<exists>p M'. mem_kalloc M n = Inr (p, M') \<and> 0 < p \<and> block p n \<subseteq> A \<and> mem_pool M' (A - block p n) \<and>
    (\<forall>x. x \<notin> A \<longrightarrow> bytes M' x = bytes M x)"
proof -
  from assms(1) obtain rs where rs: "free_list (heap_of M) rs" "wf_runs rs" "roomy rs" "span rs = A"
    by (auto simp: mem_pool_def)
  from assms(5) free_list_unique [OF rs(1)] obtain p rs' where
    al: "a_alloc rs n = Some (p, rs')" "roomy rs'" by (auto simp: clean_request_def)
  let ?S = "fst ` set rs"
  have lens: "\<forall>(a, l)\<in>set rs. 0 \<le> l \<and> l < 2 ^ 31"
  proof (intro ballI, clarify)
    fix a l assume r: "(a, l) \<in> set rs"
    have "card (block a l) \<le> card A" using run_in_span [OF r] rs(4) assms(2) by (auto simp: in_memory_def intro: card_mono)
    then have "l \<le> int (card A)" by (simp add: block_def nat_le_iff)
    with wf_runs_pos [OF rs(2) r] assms(2) show "0 \<le> l \<and> l < 2 ^ 31" unfolding in_memory_def by linarith
  qed
  have mem: "in_memory (span rs)" using assms(2) rs(4) by simp
  from kalloc_loop_refines [of "heap_of M" "[]" rs n] rs(1) al(1) obtain h' where
    h': "kalloc_loop (heap_of M) n FreeHead = Some (Some p, h')" "free_list h' rs'" by (auto simp: alloc_matches_def)
  from kalloc_lockstep [of "heap_of M" "[]" rs ?S M n] rs(1) agree_heap_of runs_headers [OF rs(2,3)]
    small_heads [OF rs(2) mem] lens assms(3) h'(1) obtain M' where
    M': "mem_kalloc_loop M n FreeHead = Some (Some p, M')" "agree ?S h' M'" "only_headers ?S M M'" by auto
  have "free_list (heap_of M') rs'" by (rule agree_free_list [OF M'(2) h'(2) a_alloc_mem [OF al(1)]])
  moreover have "\<forall>x. x \<notin> A \<longrightarrow> bytes M' x = bytes M x"
    using M'(3) roomy_header [OF rs(3)] rs(4) unfolding only_headers_def by blast
  ultimately show ?thesis
    using M'(1) a_alloc_wf [OF rs(2) assms(3) al(1)] al(2) rs(4) assms(3,4)
    by (auto simp: mem_kalloc_def mem_pool_def simp del: mem_block)
qed

lemma a_free_roomy: "roomy rs \<Longrightarrow> SIZEOF_RUN \<le> n \<Longrightarrow> roomy (a_free rs v n)"
proof (induction rs)
  case (Cons x rs)
  obtain a l where x: "x = (a, l)" by force
  have "roomy (a_join a (l + n) rs)" if "SIZEOF_RUN \<le> l" "roomy rs"
    using that Cons.prems(2) by (cases rs) (auto simp: roomy_def SIZEOF_RUN_def split: if_splits)
  with Cons x show ?case by (auto simp: roomy_def SIZEOF_RUN_def)
qed (simp add: roomy_def)

lemma mem_free_ok:
  assumes "mem_pool M A" and "0 < p" and "SIZEOF_RUN \<le> n" and "n \<le> PAGESIZE" and "block p n \<inter> A = {}"
    and "in_memory (A \<union> block p n)"
  shows "\<exists>M'. mem_kfree M p n = Inr M' \<and> mem_pool M' (A \<union> block p n) \<and>
    (\<forall>x. x \<notin> A \<union> block p n \<longrightarrow> bytes M' x = bytes M x)"
proof -
  from assms(1) obtain rs where rs: "free_list (heap_of M) rs" "wf_runs rs" "roomy rs" "span rs = A"
    by (auto simp: mem_pool_def)
  let ?S = "insert p (fst ` set rs)"
  have n: "0 < n" using assms(3) by (simp add: SIZEOF_RUN_def)
  have pb: "p \<in> block p n" using n by simp
  then have new: "p \<notin> fst ` set rs" using wf_runs_start [OF rs(2)] rs(4) assms(5) by blast
  have mem: "in_memory (span rs)" using in_memory_subset [OF assms(6)] rs(4) by simp
  have "p + SIZEOF_RUN \<le> a \<or> a + SIZEOF_RUN \<le> p" if a: "a \<in> fst ` set rs" for a
  proof -
    from a obtain l where al: "(a, l) \<in> set rs" by auto
    then have "SIZEOF_RUN \<le> l" using rs(3) by (auto simp: roomy_def)
    moreover have "block p n \<inter> block a l = {}" using run_in_span [OF al] rs(4) assms(5) by blast
    ultimately show ?thesis using blocks_headers [of p n a l] assms(3) by blast
  qed
  then have apart: "headers_apart ?S" using runs_headers [OF rs(2,3)] unfolding headers_apart_def by blast
  have "p \<in> {0<..<2 ^ 32}" using assms(6) pb unfolding in_memory_def by blast
  then have "p < 2 ^ 32" by simp
  then have small: "small ?S" using small_heads [OF rs(2) mem] assms(2) by (simp add: small_def)
  have "card (A \<union> block p n) = card A + card (block p n)"
    using assms(5,6) by (intro card_Un_disjoint) (auto simp: in_memory_def)
  then have tot: "n + total rs < 2 ^ 31"
    using wf_runs_total [OF rs(2)] rs(4) n assms(6) by (simp add: in_memory_def block_def)
  have lens: "\<forall>(a, l)\<in>set rs. 0 \<le> l" using wf_runs_pos [OF rs(2)] by fastforce
  from kfree_lockstep [of "heap_of M" "[]" rs ?S M p n] rs(1) agree_heap_of apart small lens n tot obtain h' M' where
    L: "kfree_loop (heap_of M) p n FreeHead = Some h'" "mem_kfree_loop M p n FreeHead = Some M'"
      "agree ?S h' M'" "only_headers ?S M M'" by auto
  from kfree_loop_refines [of "heap_of M" "[]" rs p n] rs(1) new assms(2) L(1) have
    "free_list h' (a_free rs p n)" by auto
  from agree_free_list [OF L(3) this a_free_mem] have fl: "free_list (heap_of M') (a_free rs p n)" .
  have "block p SIZEOF_RUN \<subseteq> block p n" using assms(3) by auto
  then have "\<forall>x. x \<notin> A \<union> block p n \<longrightarrow> bytes M' x = bytes M x"
    using L(4) roomy_header [OF rs(3)] rs(4) unfolding only_headers_def by blast
  with fl L(2) a_free_wf [OF rs(2) assms(2) n] a_free_roomy [OF rs(3) assms(3)] rs(4) assms(4,5) n show ?thesis
    by (auto simp: mem_kfree_def mem_pool_def Int_commute simp del: mem_block)
qed

subsection \<open>Clients that use their blocks\<close>

text \<open>
  From \<open>M0\<close> the client has allocated, freed blocks that it holds, and written bytes of its blocks;
  it holds the blocks \<open>bs\<close>. Its requests are at least as long as a header, and the pool serves them
  without leaving a shorter run.
\<close>

inductive mem_client :: "bmem \<Rightarrow> bmem \<Rightarrow> run list \<Rightarrow> bool" for M0 where
  m_start: "mem_client M0 M0 []"
| m_get: "mem_client M0 M bs \<Longrightarrow> SIZEOF_RUN \<le> n \<Longrightarrow> n \<le> PAGESIZE \<Longrightarrow> clean_request M n \<Longrightarrow>
    mem_kalloc M n = Inr (p, M') \<Longrightarrow> mem_client M0 M' ((p, n) # bs)"
| m_put: "mem_client M0 M (us @ (p, n) # vs) \<Longrightarrow> mem_kfree M p n = Inr M' \<Longrightarrow> mem_client M0 M' (us @ vs)"
| m_write: "mem_client M0 M bs \<Longrightarrow> x \<in> span bs \<Longrightarrow> mem_client M0 (M\<lparr>bytes := (bytes M)(x := v)\<rparr>) bs"

lemma mem_client_inv:
  assumes "mem_client M0 M bs" and "mem_pool M0 A" and "in_memory A"
  shows "mem_pool M (A - span bs) \<and> span bs \<subseteq> A \<and> apart PAGESIZE bs \<and> roomy bs"
  using assms
proof (induction rule: mem_client.induct)
  case m_start
  then show ?case by (simp add: roomy_def)
next
  case (m_get M bs n p M')
  then have IH: "mem_pool M (A - span bs)" "span bs \<subseteq> A" "apart PAGESIZE bs" "roomy bs" by auto
  have n: "0 < n" using m_get(2) by (simp add: SIZEOF_RUN_def)
  have "in_memory (A - span bs)" using in_memory_subset [OF m_get.prems(2)] by blast
  from mem_alloc_ok [OF IH(1) this n m_get(3,4)] m_get(5) have
    r: "0 < p" "block p n \<subseteq> A - span bs" "mem_pool M' (A - span bs - block p n)" by auto
  have "A - span bs - block p n = A - span ((p, n) # bs)" by auto
  with r IH n m_get(2,3) show ?case by (auto simp: roomy_def simp del: mem_block)
next
  case (m_put M us p n vs M')
  then have IH: "mem_pool M (A - span (us @ (p, n) # vs))" "span (us @ (p, n) # vs) \<subseteq> A"
    "apart PAGESIZE ((p, n) # us @ vs)" "roomy (us @ (p, n) # vs)" using apart_middle by auto
  then have pn: "0 < p" "0 < n" "n \<le> PAGESIZE" "block p n \<inter> (span us \<union> span vs) = {}" by auto
  have n8: "SIZEOF_RUN \<le> n" using IH(4) by (simp add: roomy_def)
  have B: "A - span (us @ (p, n) # vs) \<union> block p n = A - span (us @ vs)" using IH(2) pn(4) by auto
  have "in_memory (A - span (us @ (p, n) # vs) \<union> block p n)"
    unfolding B using in_memory_subset [OF m_put.prems(2)] by blast
  from mem_free_ok [OF IH(1) pn(1) n8 pn(3) _ this] m_put(2) have "mem_pool M' (A - span (us @ vs))"
    unfolding B by auto
  then show ?case using IH by (auto simp: roomy_def)
next
  case (m_write M bs x v)
  then have "mem_pool M (A - span bs)" "x \<notin> A - span bs" by auto
  then have "mem_pool (M\<lparr>bytes := (bytes M)(x := v)\<rparr>) (A - span bs)" by (elim mem_pool_cong) auto
  with m_write show ?case by blast
qed

text \<open>The pool that \<open>kinit\<close> makes is one run, whatever the page held.\<close>

lemma mem_kinit_run:
  assumes "b_freelist M = NULL" and "b_sys M = b # bs" and "0 < b" and "b + PAGESIZE \<le> 2 ^ 32"
  shows "\<exists>M0. mem_kinit M = Inr M0 \<and> free_list (heap_of M0) [(b, PAGESIZE)] \<and>
    wf_runs [(b, PAGESIZE)] \<and> roomy [(b, PAGESIZE)] \<and> in_memory (span [(b, PAGESIZE)])"
proof -
  let ?M = "M\<lparr>b_sys := bs\<rparr>"
  have "free_list (heap_of ?M) []" using assms(1) by (simp add: free_list_def heap_of_def)
  then have pool: "mem_pool ?M {}" unfolding mem_pool_def by (intro exI [of _ "[]"]) (simp add: roomy_def)
  have ok: "wf_runs [(b, PAGESIZE)]" "roomy [(b, PAGESIZE)]" "SIZEOF_RUN \<le> PAGESIZE"
    using assms(3) by (simp_all add: roomy_def SIZEOF_RUN_def PAGESIZE_def)
  have mem: "in_memory (block b PAGESIZE)"
    using assms(3,4) by (auto simp: in_memory_def block_def PAGESIZE_def)
  with mem_free_ok [OF pool assms(3) ok(3)] obtain M0 where
    M0: "mem_kfree ?M b PAGESIZE = Inr M0" "mem_pool M0 (block b PAGESIZE)" by auto
  from M0(2) obtain rs where "free_list (heap_of M0) rs" "wf_runs rs" "span rs = span [(b, PAGESIZE)]"
    by (auto simp: mem_pool_def)
  with wf_runs_unique [OF _ ok(1)] have "free_list (heap_of M0) [(b, PAGESIZE)]" by blast
  with M0(1) ok(1,2) mem assms(2,3) show ?thesis by (simp add: mem_kinit_def mem_malloc_def)
qed

text \<open>A client of one size that divides every free run up to nothing or at least a header: its requests
  are clean (\<open>struct lwt\<close> and the page: \<open>10485760 mod 564 = 436\<close>).\<close>

lemma one_size_clean:
  assumes "free_list (heap_of M) rs" and "wf_runs rs" and "roomy rs" and "SIZEOF_RUN \<le> n"
    and "\<forall>(a, l)\<in>set rs. l mod n = 0 \<or> SIZEOF_RUN \<le> l mod n" and "\<exists>(a, l)\<in>set rs. n \<le> l"
  shows "clean_request M n"
proof -
  have "\<exists>p rs'. a_alloc rs n = Some (p, rs') \<and> roomy rs'" using assms(2,3,5,6)
  proof (induction rs)
    case (Cons x rs)
    obtain a l where x: "x = (a, l)" by force
    consider "l = n" | "n < l" | "l < n" by linarith
    then show ?case
    proof cases
      case 2
      have "(l - n) mod n = l mod n" by (simp add: mod_diff_eq)
      moreover have "(l - n) mod n \<le> l - n" by (rule zmod_le_nonneg_dividend) (use 2 in simp)
      moreover have "n \<le> l - n" if "(l - n) mod n = 0"
        using that 2 by (meson zdvd_imp_le mod_eq_0_iff_dvd diff_gt_0_iff_gt)
      ultimately have "SIZEOF_RUN \<le> l - n" using Cons.prems(3) x assms(4) by fastforce
      with 2 x Cons.prems(2) show ?thesis by (auto simp: roomy_def)
    next
      case 3
      with Cons.prems x obtain p rs' where "a_alloc rs n = Some (p, rs')" "roomy rs'"
        using Cons.IH by (auto simp: roomy_def)
      with 3 x Cons.prems(2) show ?thesis by (auto simp: roomy_def)
    qed (use x Cons.prems(2) in \<open>auto simp: roomy_def\<close>)
  qed simp
  with assms(1) show ?thesis by (auto simp: clean_request_def)
qed

lemma client_free:
  assumes "mem_pool M (A - span bs) \<and> span bs \<subseteq> A \<and> apart PAGESIZE bs \<and> roomy bs" and "in_memory A"
    and b: "bs = us @ (p, n) # vs"
  shows "\<exists>M'. mem_kfree M p n = Inr M' \<and> (\<forall>x\<in>span (us @ vs). bytes M' x = bytes M x)"
proof -
  have pool: "mem_pool M (A - span bs)" and sub: "span bs \<subseteq> A" and ap: "apart PAGESIZE bs" and ro: "roomy bs"
    using assms(1) by blast+
  have "apart PAGESIZE ((p, n) # us @ vs)" using ap apart_middle b by simp
  then have pn: "0 < p" "n \<le> PAGESIZE" "block p n \<inter> span (us @ vs) = {}" by (simp_all only: apart.simps)
  have pb: "block p n \<subseteq> span bs" unfolding b by (simp del: mem_block) blast
  have n: "SIZEOF_RUN \<le> n" using ro b by (simp add: roomy_def)
  have "in_memory (A - span bs \<union> block p n)" by (rule in_memory_subset [OF assms(2)]) (use pb sub in blast)
  moreover have "block p n \<inter> (A - span bs) = {}" using pb by blast
  ultimately obtain M' where M': "mem_kfree M p n = Inr M'" "\<forall>x. x \<notin> A - span bs \<union> block p n \<longrightarrow> bytes M' x = bytes M x"
    using mem_free_ok [OF pool pn(1) n pn(2)] by blast
  have "span (us @ vs) \<subseteq> span bs" unfolding b by auto
  then have "\<forall>x\<in>span (us @ vs). bytes M' x = bytes M x" using M'(2) pn(3) by blast
  with M'(1) show ?thesis by blast
qed

lemma client_serve:
  assumes "mem_pool M (A - span bs)" and "in_memory A" and n: "SIZEOF_RUN \<le> n \<and> n \<le> PAGESIZE \<and> clean_request M n"
  shows "\<exists>p M'. mem_kalloc M n = Inr (p, M') \<and> block p n \<subseteq> A - span bs \<and> (\<forall>x\<in>span bs. bytes M' x = bytes M x)"
proof -
  have "0 < n" using n by (simp add: SIZEOF_RUN_def)
  moreover have "in_memory (A - span bs)" by (rule in_memory_subset [OF assms(2)]) blast
  ultimately obtain p M' where "mem_kalloc M n = Inr (p, M')" "block p n \<subseteq> A - span bs"
    "\<forall>x. x \<notin> A - span bs \<longrightarrow> bytes M' x = bytes M x" using mem_alloc_ok [OF assms(1)] n by blast
  then show ?thesis by blast
qed

subsection \<open>Properties\<close>

text \<open>C11: the pool on the bytes of memory. A client allocates, frees blocks that it holds, and writes
  whatever it likes into its blocks; its requests are no shorter than a header (eight bytes), and the
  pool serves them without leaving a shorter run. Then the blocks it holds are pairwise disjoint, the
  free list, whose headers lie in the free bytes, is intact and accounts for exactly the bytes that
  the client does not hold; every free succeeds and every further request of that kind is served,
  and neither changes a byte of the other blocks; and when the client holds nothing the free list is
  again the original one.\<close>

theorem pool_memory_safe:
  assumes "free_list (heap_of M0) rs" and "wf_runs rs" and "roomy rs" and "in_memory (span rs)"
    and "mem_client M0 M bs"
  shows "apart PAGESIZE bs \<and> span bs \<subseteq> span rs \<and>
    (\<exists>qs. free_list (heap_of M) qs \<and> wf_runs qs \<and> span qs = span rs - span bs) \<and>
    (\<forall>us p n vs. bs = us @ (p, n) # vs \<longrightarrow>
       (\<exists>M'. mem_kfree M p n = Inr M' \<and> (\<forall>x\<in>span (us @ vs). bytes M' x = bytes M x))) \<and>
    (\<forall>n. SIZEOF_RUN \<le> n \<and> n \<le> PAGESIZE \<and> clean_request M n \<longrightarrow>
       (\<exists>p M'. mem_kalloc M n = Inr (p, M') \<and> block p n \<subseteq> span rs - span bs \<and>
         (\<forall>x\<in>span bs. bytes M' x = bytes M x))) \<and>
    (bs = [] \<longrightarrow> free_list (heap_of M) rs)"
proof -
  have "mem_pool M0 (span rs)" using assms(1-3) by (auto simp: mem_pool_def)
  note i = mem_client_inv [OF assms(5) this assms(4)]
  from i obtain qs where qs: "free_list (heap_of M) qs" "wf_runs qs" "span qs = span rs - span bs"
    by (auto simp: mem_pool_def)
  note serve = client_serve [OF conjunct1 [OF i] assms(4)]
  show ?thesis
  proof (intro conjI allI impI)
    show "\<exists>qs. free_list (heap_of M) qs \<and> wf_runs qs \<and> span qs = span rs - span bs" using qs by blast
    show "free_list (heap_of M) rs" if "bs = []" using qs wf_runs_unique [OF qs(2) assms(2)] that by simp
    show "\<exists>M'. mem_kfree M p n = Inr M' \<and> (\<forall>x\<in>span (us @ vs). bytes M' x = bytes M x)"
      if "bs = us @ (p, n) # vs" for us p n vs using client_free [OF i assms(4) that] .
  qed (use i serve in blast)+
qed

definition mem_ex :: bmem where
  "mem_ex = mem_set_len 4096 64 \<lparr>bytes = (\<lambda>_. 0), b_freelist = 4096, b_sys = []\<rparr>"

lemma mem_ex_list: "free_list (heap_of mem_ex) [(4096, 64)]"
proof -
  have "mem_len mem_ex 4096 = 64" by (simp add: mem_len_def mem_ex_def mem_set_len_def load_int_store)
  moreover have "load32 (bytes mem_ex) 4096 = 0"
    by (simp add: mem_ex_def mem_set_len_def load_frame) (simp add: load32_def)
  moreover have "b_freelist mem_ex = 4096" by (simp add: mem_ex_def mem_set_len_def)
  ultimately show ?thesis by (simp add: free_list_def heap_of_def)
qed

lemma mem_ex_ok: "wf_runs [(4096, 64)]" "roomy [(4096, 64)]" "in_memory (span [(4096, 64)])"
  by (auto simp: roomy_def SIZEOF_RUN_def in_memory_def block_def)

theorem pool_memory_safe_witness:
  "\<exists>p M M'. mem_client mem_ex M [(p, 16)] \<and> bytes M p = 255 \<and>
    (\<exists>qs. free_list (heap_of M) qs \<and> span qs = block 4096 64 - block p 16) \<and> mem_kfree M p 16 = Inr M'"
proof -
  have pool: "mem_pool mem_ex (span [(4096, 64)])" using mem_ex_list mem_ex_ok(1,2) unfolding mem_pool_def by blast
  have c: "clean_request mem_ex 16"
    by (rule one_size_clean [OF mem_ex_list mem_ex_ok(1,2)]) (simp_all add: SIZEOF_RUN_def)
  have n: "0 < (16 :: int)" "SIZEOF_RUN \<le> 16" "16 \<le> PAGESIZE" by (simp_all add: SIZEOF_RUN_def PAGESIZE_def)
  from mem_alloc_ok [OF pool mem_ex_ok(3) n(1,3) c] obtain p M1 where
    "mem_kalloc mem_ex 16 = Inr (p, M1)" by blast
  from m_get [OF m_start n(2,3) c this] have "mem_client mem_ex M1 [(p, 16)]" .
  from m_write [OF this, of p 255] have m: "mem_client mem_ex (M1\<lparr>bytes := (bytes M1)(p := 255)\<rparr>) [(p, 16)]" by simp
  let ?M = "M1\<lparr>bytes := (bytes M1)(p := 255)\<rparr>"
  note s = pool_memory_safe [OF mem_ex_list mem_ex_ok m]
  obtain qs where q: "free_list (heap_of ?M) qs" "span qs = block 4096 64 - block p 16"
    using s [THEN conjunct2, THEN conjunct2, THEN conjunct1] by auto
  obtain M' where "mem_kfree ?M p 16 = Inr M'"
    using s [THEN conjunct2, THEN conjunct2, THEN conjunct2, THEN conjunct1, rule_format, of "[]" p 16 "[]"] by auto
  note q = q this
  have "bytes (M1\<lparr>bytes := (bytes M1)(p := 255)\<rparr>) p = 255" by simp
  with m q show ?thesis by blast
qed

end
