(* ===== verification/TestRbuf.thy ===== *)
theory TestRbuf
  imports ChanGroup
begin

text \<open>
  The ring buffer test of \<open>main.c\<close>, \<open>test_ringbuffer\<close>, as a client of \<open>rbuf.c\<close> and \<open>kalloc.c\<close>. Its
  assertions hold whatever the memory contains, it prints what it means to print, and it leaves the
  pool as it found it.
\<close>

subsection \<open>The code\<close>

text \<open>The loop of writes, and the loop of reads with what it reads.\<close>

fun write_all :: "rbuf \<Rightarrow> addr list \<Rightarrow> rbuf result" where
  "write_all rb [] = Inr rb"
| "write_all rb (x # xs) =
     rbind (rbuf_write rb x) (\<lambda>(w, rb1).
     rbind (assertion (w = WRITERBUF_OK)) (\<lambda>_. write_all rb1 xs))"

fun read_n :: "nat \<Rightarrow> rbuf \<Rightarrow> (addr list \<times> rbuf) result" where
  "read_n 0 rb = Inr ([], rb)"
| "read_n (Suc n) rb =
     rbind (rbuf_read rb) (\<lambda>(x, rb1). rbind (read_n n rb1) (\<lambda>(xs, rb2). Inr (x # xs, rb2)))"

fun read_expect :: "rbuf \<Rightarrow> addr list \<Rightarrow> rbuf result" where
  "read_expect rb [] = Inr rb"
| "read_expect rb (x # xs) =
     rbind (rbuf_read rb) (\<lambda>(ret, rb1). rbind (assertion (ret = x)) (\<lambda>_. read_expect rb1 xs))"

definition SUCCESS :: string where
  "SUCCESS = ''SUCCESS''"

text \<open>
  \<open>res\<close> is the address of the local array; \<open>*(char *)ret\<close> reads it. The value returned is what the
  test prints.
\<close>

definition test_ringbuffer :: "(nat \<Rightarrow> addr) \<Rightarrow> (nat \<Rightarrow> addr) \<Rightarrow> addr \<Rightarrow> kheap \<Rightarrow> (string \<times> kheap) result" where
  "test_ringbuffer junk1 junk2 res h =
     rbind (rbuf_init h junk1 7) (\<lambda>((p, rb0), h1).
     rbind (assertion (rbuf_isempty rb0 \<and> \<not> rbuf_isfull rb0)) (\<lambda>_.
     rbind (assertion (rbuf_capacity rb0 = 7)) (\<lambda>_.
     rbind (assertion (rbuf_size rb0 = 0)) (\<lambda>_.
     rbind (write_all rb0 (map (\<lambda>i. res + int i) [0..<7])) (\<lambda>rb1.
     rbind (assertion (\<not> rbuf_isempty rb1 \<and> rbuf_isfull rb1)) (\<lambda>_.
     rbind (assertion (rbuf_capacity rb1 = 7)) (\<lambda>_.
     rbind (assertion (rbuf_size rb1 = 7)) (\<lambda>_.
     rbind (read_n 7 rb1) (\<lambda>(out, rb2).
     rbind (assertion (rbuf_isempty rb2 \<and> \<not> rbuf_isfull rb2)) (\<lambda>_.
     rbind (assertion (rbuf_capacity rb2 = 7)) (\<lambda>_.
     rbind (assertion (rbuf_size rb2 = 0)) (\<lambda>_.
     rbind (rbuf_free h1 p rb2) (\<lambda>h2.
     rbind (rbuf_init h2 junk2 0) (\<lambda>((q, rb3), h3).
     rbind (write_all rb3 (map (\<lambda>i. int i + 1) [0..<1000])) (\<lambda>rb4.
     rbind (read_expect rb4 (map (\<lambda>i. int i + 1) [0..<1000])) (\<lambda>rb5.
     rbind (rbuf_free h3 q rb5) (\<lambda>h4.
       Inr (map (\<lambda>ret. SUCCESS ! nat (ret - res)) out, h4))))))))))))))))))"

subsection \<open>The loops\<close>

lemma rbuf_ops_keep:
  "rbuf_write rb x = Inr (w, rb') \<Longrightarrow> rb_buf rb' = rb_buf rb \<and> rb_capacity rb' = rb_capacity rb"
  "rbuf_read rb = Inr (y, rb') \<Longrightarrow> rb_buf rb' = rb_buf rb \<and> rb_capacity rb' = rb_capacity rb"
  by (auto simp: rbuf_write_def rbuf_read_def split: if_splits)

lemma write_all_ok:
  assumes "rbuf_ok rb" and "NULL \<notin> set xs"
    and "length (contents rb) + length xs \<le> unat (rbuf_capacity rb)"
  shows "\<exists>rb'. write_all rb xs = Inr rb' \<and> rbuf_ok rb' \<and> contents rb' = contents rb @ xs \<and>
    rb_buf rb' = rb_buf rb \<and> rb_capacity rb' = rb_capacity rb"
  using assms
proof (induction xs arbitrary: rb)
  case Nil
  then show ?case by simp
next
  case (Cons x xs)
  have "\<not> rbuf_isfull rb" using rbuf_isfull_contents [OF Cons.prems(1)] Cons.prems(3) by simp
  with rbuf_write_contents [OF Cons.prems(1)] Cons.prems(2) obtain rb1 where
    w: "rbuf_write rb x = Inr (WRITERBUF_OK, rb1)" "rbuf_ok rb1" "contents rb1 = contents rb @ [x]"
      "rbuf_capacity rb1 = rbuf_capacity rb" by auto
  have "length (contents rb1) + length xs \<le> unat (rbuf_capacity rb1)"
    using Cons.prems(3) unfolding w(3,4) by simp
  with Cons.IH [OF w(2)] Cons.prems(2) w(1,3) rbuf_ops_keep(1) [OF w(1)] show ?case by auto
qed

lemma read_n_ok:
  assumes "rbuf_ok rb" and "contents rb = xs @ ys"
  shows "\<exists>rb'. read_n (length xs) rb = Inr (xs, rb') \<and> rbuf_ok rb' \<and> contents rb' = ys \<and>
    rb_buf rb' = rb_buf rb \<and> rb_capacity rb' = rb_capacity rb"
  using assms
proof (induction xs arbitrary: rb)
  case (Cons x xs)
  from rbuf_read_contents [OF Cons.prems(1), of x "xs @ ys"] Cons.prems(2) obtain rb1 where
    r: "rbuf_read rb = Inr (x, rb1)" "rbuf_ok rb1" "contents rb1 = xs @ ys" by auto
  with Cons.IH [OF r(2,3)] rbuf_ops_keep(2) [OF r(1)] show ?case by auto
qed simp

lemma read_expect_read_n: "read_n (length xs) rb = Inr (xs, rb') \<Longrightarrow> read_expect rb xs = Inr rb'"
proof (induction xs arbitrary: rb)
  case (Cons x xs)
  then show ?case by (auto simp: rbind_eq_Inr split: prod.splits)
qed simp

subsection \<open>A buffer from its creation to its release\<close>

lemma buffer_life:
  assumes "kpool h A" and "kfits h (SIZEOF_RBUF + 4 * (if c = 0 then 1025 else c + 1))" and "0 \<le> c" and "c < 1000000"
  obtains p rb h1 where "rbuf_init h junk (word_of_int c) = Inr ((p, rb), h1)" and "rbuf_ok rb"
    and "contents rb = []" and "rbuf_capacity rb = (if c = 0 then 1024 else word_of_int c)"
    and "\<And>rb'. rb_buf rb' = rb_buf rb \<Longrightarrow> rb_capacity rb' = rb_capacity rb \<Longrightarrow>
      \<exists>h2. rbuf_free h1 p rb' = Inr h2 \<and> kpool h2 A"
proof -
  let ?w = "word_of_int c :: u32"
  let ?cap = "if ?w = 0 then INFINITE_CAP + 1 else ?w + 1 :: u32"
  let ?b = "4 * (if c = 0 then 1025 else c + 1)"
  note cb = chan_bytes [OF assms(3,4)]
  have b: "0 < ?b" "?b \<le> PAGESIZE" using assms(3,4) by (auto simp: PAGESIZE_def)
  have bb: "?b = rbuf_bytes ?cap" using cb(1) by simp
  from rbuf_pair [OF assms(1,2) b bb, of junk] obtain r a h' B where
    r: "rbuf_init h junk ?w = Inr ((r, \<lparr>rb_buf = a, rb_mem = junk, rb_slots = nat ?b div 4,
      rb_head = 0, rb_tail = 0, rb_capacity = ?cap\<rparr>), h')" "kpool h' B" "0 < r"
      "\<And>k. kpool k B \<Longrightarrow> \<exists>k1 k2. kfree k a ?b = Inr k1 \<and> kfree k1 r SIZEOF_RBUF = Inr k2 \<and> kpool k2 A"
    by metis
  note ok = rbuf_init_ok [OF r(1) cb(3)]
  from r(4) [OF r(2)] obtain k1 k2 where k: "kfree h' a ?b = Inr k1" "kfree k1 r SIZEOF_RBUF = Inr k2"
    "kpool k2 A" by blast
  show thesis
  proof (rule that [OF r(1)])
    show "rbuf_capacity \<lparr>rb_buf = a, rb_mem = junk, rb_slots = nat ?b div 4, rb_head = 0, rb_tail = 0,
        rb_capacity = ?cap\<rparr> = (if c = 0 then 1024 else word_of_int c)"
      using ok cb(2) by (simp add: INFINITE_CAP_def)
    show "\<exists>h2. rbuf_free h' r rb' = Inr h2 \<and> kpool h2 A"
      if "rb_buf rb' = rb_buf \<lparr>rb_buf = a, rb_mem = junk, rb_slots = nat ?b div 4, rb_head = 0,
        rb_tail = 0, rb_capacity = ?cap\<rparr>" "rb_capacity rb' = rb_capacity \<lparr>rb_buf = a, rb_mem = junk,
        rb_slots = nat ?b div 4, rb_head = 0, rb_tail = 0, rb_capacity = ?cap\<rparr>" for rb'
      using that k r(3) bb by (simp add: rbuf_free_def)
  qed (use ok in simp_all)
qed

subsection \<open>The test over any buffers\<close>

text \<open>
  The test needs of the functions that create and release a buffer only what \<open>buffer_life\<close> says: this is
  the interface \<open>buffers\<close>.
\<close>

definition ring_test :: "(kheap \<Rightarrow> (nat \<Rightarrow> addr) \<Rightarrow> u32 \<Rightarrow> ((addr \<times> rbuf) \<times> kheap) result) \<Rightarrow>
    (kheap \<Rightarrow> addr \<Rightarrow> rbuf \<Rightarrow> kheap result) \<Rightarrow> (nat \<Rightarrow> addr) \<Rightarrow> (nat \<Rightarrow> addr) \<Rightarrow> addr \<Rightarrow> kheap \<Rightarrow>
    (string \<times> kheap) result" where
  "ring_test init free junk1 junk2 res h =
     rbind (init h junk1 7) (\<lambda>((p, rb0), h1).
     rbind (assertion (rbuf_isempty rb0 \<and> \<not> rbuf_isfull rb0)) (\<lambda>_.
     rbind (assertion (rbuf_capacity rb0 = 7)) (\<lambda>_.
     rbind (assertion (rbuf_size rb0 = 0)) (\<lambda>_.
     rbind (write_all rb0 (map (\<lambda>i. res + int i) [0..<7])) (\<lambda>rb1.
     rbind (assertion (\<not> rbuf_isempty rb1 \<and> rbuf_isfull rb1)) (\<lambda>_.
     rbind (assertion (rbuf_capacity rb1 = 7)) (\<lambda>_.
     rbind (assertion (rbuf_size rb1 = 7)) (\<lambda>_.
     rbind (read_n 7 rb1) (\<lambda>(out, rb2).
     rbind (assertion (rbuf_isempty rb2 \<and> \<not> rbuf_isfull rb2)) (\<lambda>_.
     rbind (assertion (rbuf_capacity rb2 = 7)) (\<lambda>_.
     rbind (assertion (rbuf_size rb2 = 0)) (\<lambda>_.
     rbind (free h1 p rb2) (\<lambda>h2.
     rbind (init h2 junk2 0) (\<lambda>((q, rb3), h3).
     rbind (write_all rb3 (map (\<lambda>i. int i + 1) [0..<1000])) (\<lambda>rb4.
     rbind (read_expect rb4 (map (\<lambda>i. int i + 1) [0..<1000])) (\<lambda>rb5.
     rbind (free h3 q rb5) (\<lambda>h4.
       Inr (map (\<lambda>ret. SUCCESS ! nat (ret - res)) out, h4))))))))))))))))))"

lemma size_word: "rbuf_ok rb \<Longrightarrow> length (contents rb) = n \<Longrightarrow> n < 2 ^ 32 \<Longrightarrow> rbuf_size rb = of_nat n"
  using rbuf_size_contents [of rb] by (simp add: word_unat_eq_iff unat_of_nat take_bit_eq_mod)

lemma tests_of_buffer:
  assumes "rbuf_ok rb" and "rbuf_capacity rb = 7"
  shows "contents rb = [] \<Longrightarrow> rbuf_isempty rb \<and> \<not> rbuf_isfull rb \<and> rbuf_size rb = 0"
    "length (contents rb) = 7 \<Longrightarrow> \<not> rbuf_isempty rb \<and> rbuf_isfull rb \<and> rbuf_size rb = 7"
  using rbuf_isempty_contents [OF assms(1)] rbuf_isfull_contents [OF assms(1)]
    size_word [OF assms(1), of 0] size_word [OF assms(1), of 7] assms(2)
    by (auto simp: contents_Nil_iff)

locale buffers =
  fixes init :: "kheap \<Rightarrow> (nat \<Rightarrow> addr) \<Rightarrow> u32 \<Rightarrow> ((addr \<times> rbuf) \<times> kheap) result"
    and free :: "kheap \<Rightarrow> addr \<Rightarrow> rbuf \<Rightarrow> kheap result"
  assumes buffer: "kpool h A \<Longrightarrow> kfits h (SIZEOF_RBUF + 4 * (if c = 0 then 1025 else c + 1)) \<Longrightarrow> 0 \<le> c \<Longrightarrow> c < 1000000 \<Longrightarrow>
    \<exists>p rb h1. init h junk (word_of_int c) = Inr ((p, rb), h1) \<and> rbuf_ok rb \<and> contents rb = [] \<and>
      rbuf_capacity rb = (if c = 0 then 1024 else word_of_int c) \<and>
      (\<forall>rb'. rb_buf rb' = rb_buf rb \<longrightarrow> rb_capacity rb' = rb_capacity rb \<longrightarrow>
        (\<exists>h2. free h1 p rb' = Inr h2 \<and> kpool h2 A))"
begin

lemma life:
  assumes "kpool h A" and "kfits h (SIZEOF_RBUF + 4 * (if c = 0 then 1025 else c + 1))" and "0 \<le> c" and "c < 1000000"
  obtains p rb h1 where "init h junk (word_of_int c) = Inr ((p, rb), h1)" and "rbuf_ok rb"
    and "contents rb = []" and "rbuf_capacity rb = (if c = 0 then 1024 else word_of_int c)"
    and "\<And>rb'. rb_buf rb' = rb_buf rb \<Longrightarrow> rb_capacity rb' = rb_capacity rb \<Longrightarrow>
      \<exists>h2. free h1 p rb' = Inr h2 \<and> kpool h2 A"
  using buffer [OF assms, of junk] by blast

lemma ring_test_passes:
  assumes "kpool h A" and "kfits h (SIZEOF_RBUF + 4 * 1025)" and "0 < res"
  shows "\<exists>h'. ring_test init free junk1 junk2 res h = Inr (''SUCCESS'', h') \<and> kpool h' A"
proof -
  have f1: "kfits h (SIZEOF_RBUF + 4 * (if (7::int) = 0 then 1025 else 7 + 1))"
    by (rule kfits_mono [OF assms(2)]) simp
  obtain p rb0 h1 where b0: "init h junk1 (word_of_int 7) = Inr ((p, rb0), h1)" "rbuf_ok rb0"
    "contents rb0 = []" "rbuf_capacity rb0 = (if (7::int) = 0 then 1024 else word_of_int 7)"
    "\<And>rb'. rb_buf rb' = rb_buf rb0 \<Longrightarrow> rb_capacity rb' = rb_capacity rb0 \<Longrightarrow>
      \<exists>h2. free h1 p rb' = Inr h2 \<and> kpool h2 A"
    by (rule life [OF assms(1) f1, of junk1]) simp_all
  have c0: "rbuf_capacity rb0 = 7" using b0(4) by simp
  let ?xs = "map (\<lambda>i. res + int i) [0..<7]"
  have "NULL \<notin> set ?xs" using assms(3) by auto
  from write_all_ok [OF b0(2) this] b0(3) c0 obtain rb1 where
    w: "write_all rb0 ?xs = Inr rb1" "rbuf_ok rb1" "contents rb1 = ?xs" "rb_buf rb1 = rb_buf rb0"
      "rb_capacity rb1 = rb_capacity rb0" by auto
  from read_n_ok [OF w(2), of ?xs "[]"] w(3-5) obtain rb2 where
    r: "read_n 7 rb1 = Inr (?xs, rb2)" "rbuf_ok rb2" "contents rb2 = []" "rb_buf rb2 = rb_buf rb0"
      "rb_capacity rb2 = rb_capacity rb0" by auto
  have c: "rbuf_capacity rb1 = 7" "rbuf_capacity rb2 = 7" using c0 w(5) r(5) by (simp_all add: rbuf_capacity_def)
  have l1: "length (contents rb1) = 7" unfolding w(3) by simp
  note t = tests_of_buffer(1) [OF b0(2) c0 b0(3)] tests_of_buffer(2) [OF w(2) c(1) l1]
    tests_of_buffer(1) [OF r(2) c(2) r(3)]
  from b0(5) [OF r(4,5)] obtain h2 where h2: "free h1 p rb2 = Inr h2" "kpool h2 A" by blast
  have f2: "kfits h2 (SIZEOF_RBUF + 4 * (if (0::int) = 0 then 1025 else 0 + 1))"
    using kpool_kfits [OF assms(1) h2(2) assms(2)] by simp
  obtain q rb3 h3 where b3: "init h2 junk2 (word_of_int 0) = Inr ((q, rb3), h3)" "rbuf_ok rb3"
    "contents rb3 = []" "rbuf_capacity rb3 = (if (0::int) = 0 then 1024 else word_of_int 0)"
    "\<And>rb'. rb_buf rb' = rb_buf rb3 \<Longrightarrow> rb_capacity rb' = rb_capacity rb3 \<Longrightarrow>
      \<exists>h4. free h3 q rb' = Inr h4 \<and> kpool h4 A"
    by (rule life [OF h2(2) f2, of junk2]) simp_all
  let ?ys = "map (\<lambda>i. int i + 1) [0..<1000]"
  have "NULL \<notin> set ?ys" by auto
  from write_all_ok [OF b3(2) this] b3(3,4) obtain rb4 where
    w4: "write_all rb3 ?ys = Inr rb4" "rbuf_ok rb4" "contents rb4 = ?ys" "rb_buf rb4 = rb_buf rb3"
      "rb_capacity rb4 = rb_capacity rb3" by (auto simp del: upt_rec_numeral)
  from read_n_ok [OF w4(2), of ?ys "[]"] w4(3-5) obtain rb5 where
    "read_n (length ?ys) rb4 = Inr (?ys, rb5)" "rb_buf rb5 = rb_buf rb3" "rb_capacity rb5 = rb_capacity rb3"
    by (auto simp del: upt_rec_numeral)
  note r5 = read_expect_read_n [OF this(1)] this(2,3)
  from b3(5) [OF r5(2,3)] obtain h4 where h4: "free h3 q rb5 = Inr h4" "kpool h4 A" by blast
  have chars: "map (\<lambda>ret. SUCCESS ! nat (ret - res)) ?xs = ''SUCCESS''"
    by (simp add: SUCCESS_def upt_rec)
  show ?thesis
    using b0(1) b3(1) w(1) r(1) t c c0 h2(1) w4(1) r5(1) h4 chars
    by (simp add: ring_test_def del: upt_rec_numeral)
qed

end

interpretation root: buffers rbuf_init rbuf_free
proof
  fix h A c junk
  assume "kpool h A" and "kfits h (SIZEOF_RBUF + 4 * (if c = 0 then 1025 else c + 1))" and "0 \<le> c" and "c < 1000000"
  then show "\<exists>p rb h1. rbuf_init h junk (word_of_int c) = Inr ((p, rb), h1) \<and> rbuf_ok rb \<and> contents rb = [] \<and>
      rbuf_capacity rb = (if c = 0 then 1024 else word_of_int c) \<and>
      (\<forall>rb'. rb_buf rb' = rb_buf rb \<longrightarrow> rb_capacity rb' = rb_capacity rb \<longrightarrow>
        (\<exists>h2. rbuf_free h1 p rb' = Inr h2 \<and> kpool h2 A))"
    by (rule buffer_life [of h A c junk]) blast
qed

subsection \<open>Properties\<close>

lemma test_ringbuffer_eq: "test_ringbuffer = ring_test rbuf_init rbuf_free"
  by (intro ext) (simp only: test_ringbuffer_def ring_test_def)

text \<open>C14: the ring buffer test of the repository passes from every state of the pool with room for its
  buffers: no assertion fails, it prints SUCCESS, and every byte goes back to the pool.\<close>

theorem test_ringbuffer_passes:
  assumes "kpool h A" and "kfits h (SIZEOF_RBUF + 4 * 1025)" and "0 < res"
  shows "\<exists>h'. test_ringbuffer junk1 junk2 res h = Inr (''SUCCESS'', h') \<and> kpool h' A"
  using root.ring_test_passes [OF assms] by (simp only: test_ringbuffer_eq)

theorem test_ringbuffer_passes_witness:
  "\<exists>h'. test_ringbuffer (\<lambda>_. 0) (\<lambda>_. 0) 90000 (s_kheap sys_ex) = Inr (''SUCCESS'', h') \<and>
    kpool h' (block 4096 8000)"
proof -
  have "free_list (s_kheap sys_ex) [(4096, 8000)]" by (simp add: free_list_def sys_ex_def pool_ex_def)
  from kfits_list [OF this] have "kfits (s_kheap sys_ex) (SIZEOF_RBUF + 4 * 1025)"
    by (simp add: SIZEOF_RBUF_def)
  from test_ringbuffer_passes [OF sys_ex_pool(1) this] show ?thesis by simp
qed

end
