(* ===== verification/TestRbufDev.thy ===== *)
theory TestRbufDev
  imports TestRbuf KthdFlow
begin

text \<open>
  The ring buffer test of the port, \<open>test_ringbuffer\<close> of \<open>lwt_test.c\<close>, on the pool of the port. The
  buffers are another provider of the interface \<open>buffers\<close>: the port's pool serves them as the one of
  the root does.
\<close>

definition dev_test_ringbuffer :: "(nat \<Rightarrow> addr) \<Rightarrow> (nat \<Rightarrow> addr) \<Rightarrow> addr \<Rightarrow> kheap \<Rightarrow> (string \<times> kheap) result" where
  "dev_test_ringbuffer junk1 junk2 res h =
     rbind (dev_rbuf_init h junk1 7) (\<lambda>((p, rb0), h1).
     rbind (assertion (rbuf_isempty rb0 \<and> \<not> rbuf_isfull rb0)) (\<lambda>_.
     rbind (assertion (rbuf_capacity rb0 = 7)) (\<lambda>_.
     rbind (assertion (rbuf_size rb0 = 0)) (\<lambda>_.
     rbind (write_all rb0 (map (\<lambda>i. res + int i) [0..<7])) (\<lambda>rb1.
     rbind (assertion (\<not> rbuf_isempty rb1 \<and> rbuf_isfull rb1)) (\<lambda>_.
     rbind (assertion (rbuf_capacity rb1 = 7)) (\<lambda>_.
     rbind (assertion (rbuf_size rb1 = 7)) (\<lambda>_.
     rbind (read_n 7 rb1) (\<lambda>(out, rb2).
     rbind (assertion (rbuf_isempty rb2 \<and> \<not> rbuf_isfull rb2)) (\<lambda>_.
     rbind (assertion (rbuf_capacity rb2 = 7)) (\<lambda>_.
     rbind (assertion (rbuf_size rb2 = 0)) (\<lambda>_.
     rbind (dev_rbuf_free h1 p rb2) (\<lambda>h2.
     rbind (dev_rbuf_init h2 junk2 0) (\<lambda>((q, rb3), h3).
     rbind (write_all rb3 (map (\<lambda>i. int i + 1) [0..<1000])) (\<lambda>rb4.
     rbind (read_expect rb4 (map (\<lambda>i. int i + 1) [0..<1000])) (\<lambda>rb5.
     rbind (dev_rbuf_free h3 q rb5) (\<lambda>h4.
       Inr (map (\<lambda>ret. SUCCESS ! nat (ret - res)) out, h4))))))))))))))))))"

subsection \<open>The buffers of the port\<close>

lemma dev_kalloc_eq:
  assumes "kpool h A" and "kfits h n" and "0 < n" and "n \<le> PAGESIZE"
  obtains p h' where "dev_kalloc h n = Inr (p, h')" and "kalloc h n = Inr (p, h')" and "0 < p"
proof -
  have "n \<le> POOL_BYTES" using assms(4) by (simp add: PAGESIZE_def POOL_BYTES_def NPAGES_def)
  from kd.alloc_fits [OF assms(1,3) this assms(2)] obtain p h' where
    "dev_kalloc h n = Inr (p, h')" "0 < p" by blast
  with kalloc_of_dev [OF this(1) _ assms(4)] show thesis by (intro that [of p h']) simp_all
qed

lemma SIZEOF_RBUF_small: "0 < SIZEOF_RBUF" "SIZEOF_RBUF \<le> PAGESIZE"
  by (simp_all add: SIZEOF_RBUF_def PAGESIZE_def)

lemma dev_rbuf_init_eq:
  assumes "kpool h A" and "kfits h (SIZEOF_RBUF + b)" and "0 < b" and "b \<le> PAGESIZE"
    and "b = rbuf_bytes (if 0 = w then INFINITE_CAP + 1 else w + 1)"
  shows "dev_rbuf_init h junk w = rbuf_init h junk w"
proof -
  have f: "kfits h SIZEOF_RBUF" by (rule kfits_mono [OF assms(2)]) (use assms(3) in simp)
  obtain r h1 where r: "dev_kalloc h SIZEOF_RBUF = Inr (r, h1)" "kalloc h SIZEOF_RBUF = Inr (r, h1)" "0 < r"
    by (rule dev_kalloc_eq [OF assms(1) f SIZEOF_RBUF_small])
  have f1: "kfits h1 b" by (rule kalloc_leaves [OF assms(1,2) SIZEOF_RBUF_small assms(3) r(2)])
  from kp.alloc_fits [OF assms(1) SIZEOF_RBUF_small f] r(2) have "kpool h1 (A - block r SIZEOF_RBUF)" by auto
  then obtain a h2 where "dev_kalloc h1 b = Inr (a, h2)" "kalloc h1 b = Inr (a, h2)" "0 < a"
    by (rule dev_kalloc_eq [OF _ f1 assms(3,4)])
  with r show ?thesis by (simp add: dev_rbuf_init_def rbuf_init_def Let_def assms(5))
qed

lemma dev_rbuf_free_eq:
  assumes "0 < rbuf_bytes (rb_capacity r)" and "rbuf_bytes (rb_capacity r) \<le> PAGESIZE"
  shows "dev_rbuf_free h p r = rbuf_free h p r"
  using assms by (simp add: dev_rbuf_free_def rbuf_free_def dev_kfree_small SIZEOF_RBUF_small)

lemma rbuf_init_capacity:
  "rbuf_init h junk w = Inr ((p, rb), h1) \<Longrightarrow> rb_capacity rb = (if 0 = w then INFINITE_CAP + 1 else w + 1)"
  by (auto simp: rbuf_init_def Let_def rbind_eq_Inr rbind_assertion split: if_splits)

interpretation port: buffers dev_rbuf_init dev_rbuf_free
proof
  fix h A c junk
  assume a: "kpool h A" "kfits h (SIZEOF_RBUF + 4 * (if c = 0 then 1025 else c + 1))" "0 \<le> c" "c < 1000000"
  let ?w = "word_of_int c :: u32" and ?b = "4 * (if c = 0 then 1025 else c + 1)"
  note cb = chan_bytes [OF a(3,4)]
  have b: "0 < ?b" "?b \<le> PAGESIZE" using a(3,4) by (auto simp: PAGESIZE_def)
  have bb: "?b = rbuf_bytes (if 0 = ?w then INFINITE_CAP + 1 else ?w + 1)" unfolding eq_commute [of "0 :: u32" ?w] by (rule cb(1) [symmetric])
  obtain p rb h1 where r: "rbuf_init h junk ?w = Inr ((p, rb), h1)" "rbuf_ok rb" "contents rb = []"
    "rbuf_capacity rb = (if c = 0 then 1024 else word_of_int c)"
    "\<forall>rb'. rb_buf rb' = rb_buf rb \<longrightarrow> rb_capacity rb' = rb_capacity rb \<longrightarrow>
      (\<exists>h2. rbuf_free h1 p rb' = Inr h2 \<and> kpool h2 A)"
    by (rule buffer_life [OF a, of junk]) blast
  have c: "rbuf_bytes (rb_capacity rb) = ?b" unfolding rbuf_init_capacity [OF r(1)] by (rule bb [symmetric])
  have f: "\<exists>h2. dev_rbuf_free h1 p rb' = Inr h2 \<and> kpool h2 A"
    if "rb_buf rb' = rb_buf rb" "rb_capacity rb' = rb_capacity rb" for rb'
  proof -
    have "dev_rbuf_free h1 p rb' = rbuf_free h1 p rb'"
      by (rule dev_rbuf_free_eq; simp only: that(2) c b)
    with r(5) [rule_format, OF that] show ?thesis by (simp only:)
  qed
  have "dev_rbuf_init h junk ?w = Inr ((p, rb), h1)"
    using dev_rbuf_init_eq [OF a(1,2) b bb, of junk] r(1) by (rule trans)
  with r(2-4) f show "\<exists>p rb h1. dev_rbuf_init h junk ?w = Inr ((p, rb), h1) \<and> rbuf_ok rb \<and> contents rb = [] \<and>
      rbuf_capacity rb = (if c = 0 then 1024 else word_of_int c) \<and>
      (\<forall>rb'. rb_buf rb' = rb_buf rb \<longrightarrow> rb_capacity rb' = rb_capacity rb \<longrightarrow>
        (\<exists>h2. dev_rbuf_free h1 p rb' = Inr h2 \<and> kpool h2 A))"
    by (intro exI [of _ p] exI [of _ rb] exI [of _ h1] conjI) blast+
qed

lemma dev_test_ringbuffer_passes:
  assumes "kpool h A" and "kfits h (SIZEOF_RBUF + 4 * 1025)" and "0 < res"
  shows "\<exists>h'. dev_test_ringbuffer junk1 junk2 res h = Inr (''SUCCESS'', h') \<and> kpool h' A"
  using port.ring_test_passes [OF assms, of junk1 junk2]
  unfolding dev_test_ringbuffer_def ring_test_def .

end
