(* ===== verification/LwtSpec.thy ===== *)
theory LwtSpec
  imports LwtLife
begin

text \<open>
  What \<open>lwt.c\<close> promises its clients, without links, stacks and free lists: a run queue that is a
  list with the running thread first, the set of free bytes, and for each thread its state, return
  value, joiner, entry function and whether it has run yet. Each operation has its abstract
  counterpart, with \<open>None\<close> where the abstract operation promises nothing, and the code refines it.
\<close>

record thd =
  t_state :: lwt_state
  t_ret :: addr
  t_jf :: addr
  t_fn :: addr
  t_data :: addr
  t_flag :: lwt_flags
  t_ip :: code

record view =
  v_ring :: "addr list"
  v_free :: "addr set"
  v_thd :: "addr \<Rightarrow> thd"
  v_run :: int
  v_zom :: int
  v_blk :: int

definition thd_of :: "lwt \<Rightarrow> thd" where
  "thd_of l = \<lparr>t_state = l_state l, t_ret = l_ret l, t_jf = l_joinedfrom l, t_fn = l_fn l,
     t_data = l_data l, t_flag = l_flag l, t_ip = l_ip l\<rparr>"

definition views :: "'z lwt_sys_scheme \<Rightarrow> 'y view_scheme \<Rightarrow> bool" where
  "views s v \<longleftrightarrow> runq s (v_ring v) \<and> kpool (s_kheap s) (v_free v) \<and>
     v_thd v = (\<lambda>u. thd_of (s_lwt s u)) \<and> v_run v = n_runnable s \<and> v_zom v = n_zombies s \<and>
     v_blk v = n_blocked s"

lemma viewsD:
  assumes "views s v"
  shows "runq s (v_ring v)" "kpool (s_kheap s) (v_free v)" "v_thd v = (\<lambda>u. thd_of (s_lwt s u))"
    "v_run v = n_runnable s" "v_zom v = n_zombies s" "v_blk v = n_blocked s"
    "current_thread s = hd (v_ring v)"
  using assms by (auto simp: views_def runq_def)

lemma thd_of_sel [simp]:
  "t_state (thd_of l) = l_state l" "t_ret (thd_of l) = l_ret l" "t_jf (thd_of l) = l_joinedfrom l"
  "t_fn (thd_of l) = l_fn l" "t_data (thd_of l) = l_data l" "t_flag (thd_of l) = l_flag l"
  "t_ip (thd_of l) = l_ip l"
  by (simp_all add: thd_of_def)

subsection \<open>The abstract operations\<close>

abbreviation a_ready :: "'y view_scheme \<Rightarrow> addr \<Rightarrow> bool" where
  "a_ready v t \<equiv> t_state (v_thd v t) = RUNNABLE"

definition a_set :: "addr \<Rightarrow> (thd \<Rightarrow> thd) \<Rightarrow> 'y view_scheme \<Rightarrow> 'y view_scheme" where
  "a_set t f v = v\<lparr>v_thd := (v_thd v)(t := f (v_thd v t))\<rparr>"

fun split_at :: "('a \<Rightarrow> bool) \<Rightarrow> 'a list \<Rightarrow> ('a list \<times> 'a \<times> 'a list) option" where
  "split_at P [] = None"
| "split_at P (x # xs) =
     (if P x then Some ([], x, xs)
      else case split_at P xs of None \<Rightarrow> None | Some (us, z, vs) \<Rightarrow> Some (x # us, z, vs))"

text \<open>The switch from the first of \<open>c # us @ z # vs\<close> to \<open>z\<close>.\<close>

definition a_switch :: "addr \<Rightarrow> addr list \<Rightarrow> addr \<Rightarrow> addr list \<Rightarrow> 'y view_scheme \<Rightarrow> 'y view_scheme" where
  "a_switch c us z vs v = a_set c (\<lambda>t. t\<lparr>t_ip := AfterSwitch\<rparr>) (v\<lparr>v_ring := z # vs @ c # us\<rparr>)"

fun a_goto :: "(addr \<Rightarrow> bool) \<Rightarrow> 'y view_scheme \<Rightarrow> 'y view_scheme option" where
  "a_goto P v = (case v_ring v of [] \<Rightarrow> None
     | c # xs \<Rightarrow> (case split_at P xs of None \<Rightarrow> None
         | Some (us, z, vs) \<Rightarrow> Some (a_switch c us z vs v)))"

definition a_schedule :: "'y view_scheme \<Rightarrow> (unit outcome \<times> 'y view_scheme) option" where
  "a_schedule v =
     (if v_run v = 0 then Some (Returned (), v)
      else case a_goto (a_ready v) v of
        Some w \<Rightarrow> Some (Switched, w)
      | None \<Rightarrow> if a_ready v (hd (v_ring v)) then Some (Returned (), v) else None)"

definition a_yield :: "addr \<Rightarrow> 'y view_scheme \<Rightarrow> (unit outcome \<times> 'y view_scheme) option" where
  "a_yield t v =
     (if t = NULL then a_schedule v
      else if a_ready v t then
        (case a_goto (\<lambda>u. u = t) v of None \<Rightarrow> None | Some w \<Rightarrow> Some (Switched, w))
      else Some (Returned (), v))"

definition a_create :: "addr \<Rightarrow> addr \<Rightarrow> addr \<Rightarrow> lwt_flags \<Rightarrow> 'y view_scheme \<Rightarrow> 'y view_scheme" where
  "a_create t fn data fl v =
     (a_set t (\<lambda>x. x\<lparr>t_state := RUNNABLE, t_fn := fn, t_data := data, t_flag := fl, t_ip := Trampoline\<rparr>) v)
       \<lparr>v_ring := v_ring v @ [t], v_free := v_free v - block t SIZEOF_LWT,
        v_run := v_run v + 1, v_zom := v_zom v + 1\<rparr>"

definition a_reap :: "addr \<Rightarrow> 'y view_scheme \<Rightarrow> 'y view_scheme" where
  "a_reap t v = v\<lparr>v_ring := remove1 t (v_ring v), v_free := v_free v \<union> block t SIZEOF_LWT\<rparr>"

definition a_join_resume :: "addr \<Rightarrow> 'y view_scheme \<Rightarrow> (addr outcome \<times> 'y view_scheme) option" where
  "a_join_resume t v =
     (if t_state (v_thd v (hd (v_ring v))) \<noteq> BLOCKED then
        Some (Returned (t_ret (v_thd v t)),
          a_reap t (v\<lparr>v_blk := v_blk v - 1, v_zom := v_zom v - 1\<rparr>))
      else if a_ready v t then
        (case a_goto (\<lambda>u. u = t) (v\<lparr>v_run := v_run v - 1, v_blk := v_blk v + 1\<rparr>) of
           None \<Rightarrow> None | Some w \<Rightarrow> Some (Switched, w))
      else None)"

definition a_lwt_join :: "addr \<Rightarrow> 'y view_scheme \<Rightarrow> (addr outcome \<times> 'y view_scheme) option" where
  "a_lwt_join t v =
     (if t_flag (v_thd v t) = LWT_NOJOIN then Some (Returned NULL, v)
      else
        let c = hd (v_ring v); w = a_set t (\<lambda>x. x\<lparr>t_jf := c\<rparr>) v in
        if t_state (v_thd w t) = DEAD then
          Some (Returned (t_ret (v_thd w t)), a_reap t (w\<lparr>v_zom := v_zom w - 1, v_run := v_run w - 1\<rparr>))
        else a_join_resume t (a_set c (\<lambda>x. x\<lparr>t_state := BLOCKED\<rparr>) w))"

definition wake :: "addr \<Rightarrow> (addr \<Rightarrow> thd) \<Rightarrow> addr \<Rightarrow> thd" where
  "wake j T = (if j \<noteq> NULL then T(j := (T j)\<lparr>t_state := RUNNABLE\<rparr>) else T)"

definition a_die :: "addr \<Rightarrow> 'y view_scheme \<Rightarrow> (unit outcome \<times> 'y view_scheme) option" where
  "a_die data v =
     (let c = hd (v_ring v) in
      if t_flag (v_thd v c) = LWT_NOJOIN then
        (case a_goto (a_ready v) v of None \<Rightarrow> None
         | Some w \<Rightarrow> Some (Switched, w\<lparr>v_ring := remove1 c (v_ring w)\<rparr>))
      else
        let w = a_set c (\<lambda>x. x\<lparr>t_state := DEAD\<rparr>) v;
            w2 = w\<lparr>v_thd := wake (t_jf (v_thd v c)) (v_thd w)\<rparr>
        in a_schedule (a_set c (\<lambda>x. x\<lparr>t_ret := data\<rparr>) w2))"

lemma wake_sel [simp]:
  "t_ret (wake j T u) = t_ret (T u)" "t_jf (wake j T u) = t_jf (T u)" "t_fn (wake j T u) = t_fn (T u)"
  "t_data (wake j T u) = t_data (T u)" "t_flag (wake j T u) = t_flag (T u)" "t_ip (wake j T u) = t_ip (T u)"
  "wake NULL T = T" "j \<noteq> u \<Longrightarrow> wake j T u = T u"
  "j \<noteq> NULL \<Longrightarrow> wake j T j = (T j)\<lparr>t_state := RUNNABLE\<rparr>"
  "t_state (T u) = RUNNABLE \<Longrightarrow> t_state (wake j T u) = RUNNABLE"
  by (auto simp: wake_def)

lemma a_set_sel [simp]:
  "v_ring (a_set t f v) = v_ring v" "v_free (a_set t f v) = v_free v"
  "v_thd (a_set t f v) = (v_thd v)(t := f (v_thd v t))" "v_run (a_set t f v) = v_run v"
  "v_zom (a_set t f v) = v_zom v" "v_blk (a_set t f v) = v_blk v"
  by (simp_all add: a_set_def)

subsection \<open>The code refines them\<close>

lemma split_at_None: "split_at P xs = None \<longleftrightarrow> (\<forall>x\<in>set xs. \<not> P x)"
  by (induction xs) (auto split: option.splits)

lemma split_at_Some:
  "split_at P xs = Some (us, z, vs) \<Longrightarrow> xs = us @ z # vs \<and> (\<forall>u\<in>set us. \<not> P u) \<and> P z"
  by (induction xs arbitrary: us) (auto split: if_splits option.splits)

lemma views_upd:
  assumes "views s v" and "\<And>l. thd_of (f l) = g (thd_of l)"
  shows "views (upd_lwt t f s) (a_set t g v)"
  using assms by (auto simp: views_def fun_eq_iff)

lemma views_counts:
  assumes "views s v"
  shows "views (s\<lparr>n_runnable := a, n_blocked := b\<rparr>) (v\<lparr>v_run := a, v_blk := b\<rparr>)"
    "views (s\<lparr>n_zombies := a, n_runnable := b\<rparr>) (v\<lparr>v_zom := a, v_run := b\<rparr>)"
  using assms by (auto simp: views_def)

lemma views_switch:
  assumes "views s v" and "v_ring v = c # us @ z # vs"
  shows "views (lwt_dispatch z c (s\<lparr>current_thread := z\<rparr>)) (a_switch c us z vs v)"
    "eip (lwt_dispatch z c (s\<lparr>current_thread := z\<rparr>)) = t_ip (v_thd v z)"
proof -
  have q: "runq s (c # us @ z # vs)" using viewsD(1) [OF assms(1)] assms(2) by simp
  then have ne: "c \<noteq> z" using ring_distinct [OF runq_ring [OF q]] by auto
  have "thd_of (s_lwt (lwt_dispatch z c (s\<lparr>current_thread := z\<rparr>)) u) =
      (if u = c then (thd_of (s_lwt s c))\<lparr>t_ip := AfterSwitch\<rparr> else thd_of (s_lwt s u))" for u
    by (simp add: thd_of_def lwt_dispatch_def Let_def)
  then show "views (lwt_dispatch z c (s\<lparr>current_thread := z\<rparr>)) (a_switch c us z vs v)"
    using runq_switch [OF q] viewsD [OF assms(1)] by (simp add: views_def a_switch_def fun_eq_iff)
  show "eip (lwt_dispatch z c (s\<lparr>current_thread := z\<rparr>)) = t_ip (v_thd v z)"
    using ne viewsD(3) [OF assms(1)] by (simp add: lwt_dispatch_def Let_def)
qed

text \<open>\<open>refines s r v q\<close>: the run \<open>r\<close> from \<open>s\<close> does what \<open>q\<close> says from \<open>v\<close>, and leaves the fields
  of a larger state, such as that of \<open>channel.c\<close>, as they are.\<close>

definition refines :: "'z lwt_sys_scheme \<Rightarrow> ('a outcome \<times> 'z lwt_sys_scheme) result \<Rightarrow> 'y view_scheme \<Rightarrow> ('a outcome \<times> 'y view_scheme) \<Rightarrow> bool" where
  "refines s r v q \<longleftrightarrow> (\<exists>s'. r = Inr (fst q, s') \<and> views s' (snd q) \<and>
     lwt_sys.more s' = lwt_sys.more s \<and>
     (fst q = Switched \<longrightarrow> eip s' = t_ip (v_thd v (hd (v_ring (snd q))))))"

lemma a_gotoD:
  assumes "a_goto P v = Some w"
  obtains c us z vs where "v_ring v = c # us @ z # vs" and "w = a_switch c us z vs v" and "P z"
    and "\<forall>u\<in>set us. \<not> P u"
  using assms by (auto split: list.splits option.splits prod.splits dest!: split_at_Some)

lemma refines_cong: "refines s r v q \<Longrightarrow> lwt_sys.more s = lwt_sys.more s0 \<Longrightarrow> refines s0 r v q"
  by (simp add: refines_def)

lemma schedule_refines:
  assumes "views s v" and "a_schedule v = Some q"
  shows "refines s (lwt_schedule s) v q"
proof -
  note d = viewsD [OF assms(1)]
  have rd: "a_ready v = ready s" by (simp add: d(3) fun_eq_iff)
  show ?thesis
  proof (cases "n_runnable s = 0")
    case True
    then show ?thesis using assms d(4) by (auto simp: a_schedule_def lwt_schedule_def refines_def)
  next
    case False
    show ?thesis
    proof (cases "a_goto (a_ready v) v")
      case (Some w)
      from a_gotoD [OF Some [unfolded rd]] obtain c us z vs where
        g: "v_ring v = c # us @ z # vs" "w = a_switch c us z vs v" "ready s z" "\<forall>u\<in>set us. \<not> ready s u" .
      have q: "q = (Switched, w)" using assms(2) Some False d(4) by (simp add: a_schedule_def)
      have "lwt_schedule s = Inr (Switched, lwt_dispatch z c (s\<lparr>current_thread := z\<rparr>))"
        by (rule lwt_schedule_switch [OF _ g(4,3) False]) (use d(1) g(1) in simp)
      with views_switch [OF assms(1) g(1)] show ?thesis
        by (simp add: refines_def q g(2)) (simp add: a_switch_def)
    next
      case None
      then have q: "q = (Returned (), v)" "a_ready v (hd (v_ring v))"
        using assms(2) False d(4) by (auto simp: a_schedule_def split: if_splits)
      obtain c cs where cs: "v_ring v = c # cs"
        using ring_nonempty [OF runq_ring [OF d(1)]] by (cases "v_ring v") auto
      have "split_at (ready s) cs = None" using None cs rd by (auto split: option.splits)
      then have "\<forall>u\<in>set cs. \<not> ready s u" by (simp add: split_at_None)
      moreover have "ready s c" using q(2) cs d(3) by simp
      ultimately have "next_runnable s = Some c" using next_runnable_self [of s c cs] d(1) cs by simp
      with False d(7) cs have "lwt_schedule s = Inr (Returned (), s)"
        by (simp add: lwt_schedule_def Let_def)
      with assms(1) q(1) show ?thesis by (simp add: refines_def)
    qed
  qed
qed

lemma goto_refines:
  assumes "views s v" and "t \<noteq> NULL" and "a_ready v t" and "a_goto (\<lambda>u. u = t) v = Some w"
  shows "refines s (lwt_yield t s) v (Switched, w)"
proof -
  note d = viewsD [OF assms(1)]
  from a_gotoD [OF assms(4)] obtain c us vs where
    g: "v_ring v = c # us @ t # vs" "w = a_switch c us t vs v" by metis
  have ne: "c \<noteq> t" using ring_distinct [OF runq_ring [OF d(1)]] g(1) by auto
  have "lwt_yield t s = Inr (Switched, lwt_dispatch t c (s\<lparr>current_thread := t\<rparr>))"
    using assms(2,3) d(3,7) g(1) ne by (simp add: lwt_yield_def Let_def)
  with views_switch [OF assms(1) g(1)] show ?thesis
    by (simp add: refines_def g(2)) (simp add: a_switch_def)
qed

lemma yield_refines:
  assumes "views s v" and "a_yield t v = Some q"
  shows "refines s (lwt_yield t s) v q"
proof -
  note d = viewsD [OF assms(1)]
  consider "t = NULL" | "t \<noteq> NULL" "a_ready v t" | "t \<noteq> NULL" "\<not> a_ready v t" by blast
  then show ?thesis
  proof cases
    case 1
    with schedule_refines [OF assms(1)] assms(2) show ?thesis by (simp add: a_yield_def)
  next
    case 2
    with goto_refines [OF assms(1)] assms(2) show ?thesis
      by (auto simp: a_yield_def split: option.splits)
  next
    case 3
    with assms d(3) show ?thesis by (auto simp: a_yield_def lwt_yield_def refines_def)
  qed
qed

lemma create_refines:
  assumes "views s v" and "kfits (s_kheap s) SIZEOF_LWT" and "set (v_ring v) \<inter> v_free v = {}"
  obtains t s' where "lwt_create fn data fl s = Inr (t, s')" and "views s' (a_create t fn data fl v)"
    and "0 < t" and "t \<notin> set (v_ring v)" and "block t SIZEOF_LWT \<subseteq> v_free v"
    and "\<And>n. 0 < n \<Longrightarrow> kfits (s_kheap s) (SIZEOF_LWT + n) \<Longrightarrow> kfits (s_kheap s') n"
proof -
  note d = viewsD [OF assms(1)]
  obtain c cs where cs: "v_ring v = c # cs"
    using ring_nonempty [OF runq_ring [OF d(1)]] by (cases "v_ring v") auto
  have q: "runq s (c # cs)" and o: "set (c # cs) \<inter> v_free v = {}" using d(1) assms(3) cs by simp_all
  from lwt_create_pool [OF q d(2) assms(2) o] obtain t k where
    t: "kalloc (s_kheap s) SIZEOF_LWT = Inr (t, k)" "0 < t" "block t SIZEOF_LWT \<subseteq> v_free v"
      "kpool k (v_free v - block t SIZEOF_LWT)" "t \<notin> set (c # cs)" .
  obtain s' where s': "lwt_create fn data fl s = Inr (t, s')" "runq s' (c # cs @ [t])"
    "s_lwt s' = (s_lwt s)(t := fresh_lwt t fn data fl s)" "s_kheap s' = k"
    "n_runnable s' = n_runnable s + 1" "n_zombies s' = n_zombies s + 1" "n_blocked s' = n_blocked s"
    using lwt_create_runs [OF q t(1,2,5), of fn data fl] by metis
  have "views s' (a_create t fn data fl v)"
    unfolding views_def a_create_def using s' t(4) d(3-6) cs
    by (simp add: fun_eq_iff) (simp add: thd_of_def fresh_lwt_def)
  moreover have "kfits (s_kheap s') n" if "0 < n" "kfits (s_kheap s) (SIZEOF_LWT + n)" for n
    using kalloc_leaves [OF d(2) that(2) _ _ that(1) t(1)] s'(4) by (simp add: SIZEOF_LWT_def PAGESIZE_def)
  ultimately show thesis using s'(1) t(2,3,5) cs by (intro that) simp_all
qed

lemma reap_refines:
  assumes "views s v" and "v_ring v = c # us @ t # vs" and "0 < t"
    and "block t SIZEOF_LWT \<inter> v_free v = {}"
  shows "refines s (lwt_reap t s) w (Returned (t_ret (v_thd v t)), a_reap t v)"
proof -
  note d = viewsD [OF assms(1)]
  have q: "runq s ((c # us) @ t # vs)" using d(1) assms(2) by simp
  have dist: "t \<noteq> c" "t \<notin> set us" using ring_distinct [OF runq_ring [OF q]] by auto
  from lwt_reap_runs [OF q list.distinct(2) d(2) assms(3,4)] obtain k s' where
    r: "lwt_reap t s = Inr (Returned (l_ret (s_lwt s t)), s')"
      "s' = s\<lparr>s_links := ps_list_ll_rem t (s_links s), s_kheap := k\<rparr>"
      "kpool k (v_free v \<union> block t SIZEOF_LWT)" "runq s' ((c # us) @ vs)" .
  have "remove1 t (v_ring v) = (c # us) @ vs" using assms(2) dist by (simp add: remove1_append)
  then have "views s' (a_reap t v)"
    unfolding views_def a_reap_def using r d(3-6) by simp
  with r(1,2) show ?thesis by (simp add: refines_def d(3))
qed

definition a_target :: "addr \<Rightarrow> 'y view_scheme \<Rightarrow> bool" where
  "a_target t v \<longleftrightarrow> t \<in> set (tl (v_ring v)) \<and> 0 < t \<and> block t SIZEOF_LWT \<inter> v_free v = {}"

lemma a_targetD:
  assumes "a_target t v" and "views s v"
  obtains c us vs where "v_ring v = c # us @ t # vs" and "current_thread s = c" and "t \<noteq> c"
proof -
  obtain c cs where cs: "v_ring v = c # cs"
    using ring_nonempty [OF runq_ring [OF viewsD(1) [OF assms(2)]]] by (cases "v_ring v") auto
  with assms(1) have "t \<in> set cs" by (simp add: a_target_def)
  then obtain us vs where "cs = us @ t # vs" by (meson split_list)
  with cs viewsD(7) [OF assms(2)] ring_distinct [OF runq_ring [OF viewsD(1) [OF assms(2)]]] show thesis
    by (intro that) auto
qed

lemma join_resume_refines:
  assumes "views s v" and "a_target t v" and "a_join_resume t v = Some q"
  shows "refines s (lwt_join_resume t s) v q"
proof -
  note d = viewsD [OF assms(1)]
  from a_targetD [OF assms(2,1)] obtain c us vs where
    r: "v_ring v = c # us @ t # vs" "current_thread s = c" "t \<noteq> c" .
  have t: "0 < t" "t \<noteq> NULL" "block t SIZEOF_LWT \<inter> v_free v = {}" using assms(2) by (auto simp: a_target_def)
  have st: "t_state (v_thd v (hd (v_ring v))) = l_state (s_lwt s c)" using r(1) d(3) by simp
  show ?thesis
  proof (cases "l_state (s_lwt s c) = BLOCKED")
    case False
    let ?s = "s\<lparr>n_runnable := n_runnable s + 1, n_blocked := n_blocked s - 1\<rparr>"
    let ?s2 = "?s\<lparr>n_runnable := n_runnable ?s - 1, n_zombies := n_zombies ?s - 1\<rparr>"
    let ?v = "v\<lparr>v_blk := v_blk v - 1, v_zom := v_zom v - 1\<rparr>"
    have e: "lwt_join_resume t s = lwt_reap t ?s2"
      using False r(2) by (simp add: lwt_join_resume_def Let_def)
    have "views ?s2 ?v" using assms(1) by (simp add: views_def)
    from reap_refines [OF this, of c us t vs] r(1) t have
      "refines ?s2 (lwt_reap t ?s2) v (Returned (t_ret (v_thd ?v t)), a_reap t ?v)" by simp
    then have "refines s (lwt_reap t ?s2) v (Returned (t_ret (v_thd ?v t)), a_reap t ?v)"
      by (rule refines_cong) simp
    with e False assms(3) st show ?thesis by (simp add: a_join_resume_def)
  next
    case True
    let ?s = "s\<lparr>n_runnable := n_runnable s - 1, n_blocked := n_blocked s + 1\<rparr>"
    let ?v = "v\<lparr>v_run := v_run v - 1, v_blk := v_blk v + 1\<rparr>"
    from assms(3) True st obtain w where w: "a_ready v t" "a_goto (\<lambda>u. u = t) ?v = Some w" "q = (Switched, w)"
      by (auto simp: a_join_resume_def split: if_splits option.splits)
    have v: "views ?s ?v" using views_counts(1) [OF assms(1)] d(4,6) by simp
    have rd: "a_ready ?v t" using w(1) by simp
    from goto_refines [OF v t(2) rd w(2)] obtain s' where
      y: "lwt_yield t ?s = Inr (Switched, s')" "views s' w" "eip s' = t_ip (v_thd v (hd (v_ring w)))"
        "lwt_sys.more s' = lwt_sys.more s"
      by (auto simp: refines_def)
    have "lwt_join_loop t s = Some (Inr (Switched, s'))"
      using True r(2) y(1) by (subst lwt_join_loop.simps) (simp add: Let_def)
    then have "lwt_join_resume t s = Inr (Switched, s')" by (simp add: lwt_join_resume_def)
    with y(2-4) w(3) show ?thesis by (simp add: refines_def)
  qed
qed

lemma join_refines:
  assumes "views s v" and "a_target t v" and "a_lwt_join t v = Some q"
  shows "refines s (lwt_join t s) v q"
proof -
  note d = viewsD [OF assms(1)]
  from a_targetD [OF assms(2,1)] obtain c us vs where
    r: "v_ring v = c # us @ t # vs" "current_thread s = c" "t \<noteq> c" .
  have t: "0 < t" "t \<noteq> NULL" "block t SIZEOF_LWT \<inter> v_free v = {}" using assms(2) by (auto simp: a_target_def)
  have h: "hd (v_ring v) = c" using r(1) by simp
  show ?thesis
  proof (cases "l_flag (s_lwt s t) = LWT_NOJOIN")
    case True
    then show ?thesis using assms(1,3) d(3) t(2) by (auto simp: a_lwt_join_def lwt_join_def refines_def)
  next
    case False
    let ?s = "upd_lwt t (\<lambda>l. l\<lparr>l_joinedfrom := c\<rparr>) (upd_lwt c (\<lambda>l. l\<lparr>l_joiningto := t\<rparr>) s)"
    let ?v = "a_set t (\<lambda>x. x\<lparr>t_jf := c\<rparr>) v"
    have "views (upd_lwt c (\<lambda>l. l\<lparr>l_joiningto := t\<rparr>) s) v"
      using assms(1) by (simp add: views_def fun_eq_iff thd_of_def)
    then have v: "views ?s ?v" by (rule views_upd) (simp add: thd_of_def)
    show ?thesis
    proof (cases "l_state (s_lwt s t) = DEAD")
      case True
      let ?s2 = "?s\<lparr>n_zombies := n_zombies ?s - 1, n_runnable := n_runnable ?s - 1\<rparr>"
      let ?v2 = "?v\<lparr>v_zom := v_zom ?v - 1, v_run := v_run ?v - 1\<rparr>"
      have "views ?s2 ?v2" using views_counts(2) [OF v] d(4,5) by simp
      from reap_refines [OF this, of c us t vs v] r(1) t have
        "refines ?s2 (lwt_reap t ?s2) v (Returned (t_ret (v_thd ?v2 t)), a_reap t ?v2)" by simp
      then have "refines s (lwt_reap t ?s2) v (Returned (t_ret (v_thd ?v2 t)), a_reap t ?v2)"
        by (rule refines_cong) simp
      moreover have "lwt_join t s = lwt_reap t ?s2"
        using False True r(2,3) t(2) by (simp add: lwt_join_def Let_def)
      moreover have "q = (Returned (t_ret (v_thd ?v2 t)), a_reap t ?v2)"
        using assms(3) False True d(3) h by (simp add: a_lwt_join_def Let_def)
      ultimately show ?thesis by simp
    next
      case nd: False
      let ?s2 = "upd_lwt c (\<lambda>l. l\<lparr>l_state := BLOCKED\<rparr>) ?s"
      let ?v2 = "a_set c (\<lambda>x. x\<lparr>t_state := BLOCKED\<rparr>) ?v"
      have v2: "views ?s2 ?v2" by (rule views_upd [OF v]) (simp add: thd_of_def)
      have "a_target t ?v2" using assms(2) by (simp add: a_target_def)
      moreover have "a_join_resume t ?v2 = Some q"
        using assms(3) False nd d(3) h by (simp add: a_lwt_join_def Let_def)
      ultimately have "refines ?s2 (lwt_join_resume t ?s2) ?v2 q" by (rule join_resume_refines [OF v2])
      moreover have "lwt_join t s = lwt_join_resume t ?s2"
        using False nd r(2,3) t(2) by (simp add: lwt_join_def Let_def)
      moreover have "t_ip (v_thd ?v2 u) = t_ip (v_thd v u)" for u by simp
      ultimately show ?thesis unfolding refines_def by simp
    qed
  qed
qed

lemma die_refines:
  assumes "views s v" and "a_die data v = Some q"
  shows "refines s (lwt_die data s) v q"
proof -
  note d = viewsD [OF assms(1)]
  obtain c cs where cs: "v_ring v = c # cs"
    using ring_nonempty [OF runq_ring [OF d(1)]] by (cases "v_ring v") auto
  have cur: "current_thread s = c" using d(7) cs by simp
  show ?thesis
  proof (cases "l_flag (s_lwt s c) = LWT_NOJOIN")
    case True
    then obtain w where w: "a_goto (a_ready v) v = Some w" "q = (Switched, w\<lparr>v_ring := remove1 c (v_ring w)\<rparr>)"
      using assms(2) cs d(3) by (auto simp: a_die_def split: option.splits)
    have rd: "a_ready v = ready s" by (simp add: d(3) fun_eq_iff)
    from a_gotoD [OF w(1) [unfolded rd]] obtain c' us z vs where
      "v_ring v = c' # us @ z # vs" "w = a_switch c' us z vs v" "ready s z" "\<forall>u\<in>set us. \<not> ready s u" .
    with cs have g: "v_ring v = c # us @ z # vs" "w = a_switch c us z vs v" "ready s z"
      "\<forall>u\<in>set us. \<not> ready s u" by simp_all
    have rq: "runq s (c # us @ z # vs)" using d(1) g(1) by simp
    obtain s1 where r: "lwt_die data s = Inr (Switched, lwt_dispatch z c s1)"
      "s1 = s\<lparr>current_thread := z, s_links := ps_list_ll_rem c (s_links s)\<rparr>"
      "runq (lwt_dispatch z c s1) (z # vs @ us)" "c \<noteq> z" by (rule lwt_die_nojoin_runs [OF rq g(4,3) True])
    have "c \<notin> set vs" using ring_distinct [OF runq_ring [OF rq]] by auto
    then have ring: "v_ring (snd q) = z # vs @ us"
      using r(4) by (simp add: w(2) g(2) a_switch_def remove1_append)
    have "thd_of (s_lwt (lwt_dispatch z c s1) u) =
      (if u = c then (thd_of (s_lwt s c))\<lparr>t_ip := AfterSwitch\<rparr> else thd_of (s_lwt s u))" for u
      by (simp add: thd_of_def lwt_dispatch_def Let_def r(2))
    then have "views (lwt_dispatch z c s1) (snd q)"
      unfolding views_def ring using r(2,3) d(2-6) by (simp add: w(2) g(2) a_switch_def fun_eq_iff)
    moreover have "eip (lwt_dispatch z c s1) = t_ip (v_thd v z)"
      using r(2,4) d(3) by (simp add: lwt_dispatch_def Let_def)
    ultimately show ?thesis using r(1,2) ring by (simp add: refines_def w(2))
  next
    case False
    let ?j = "l_joinedfrom (s_lwt s c)"
    let ?s1 = "upd_lwt c (\<lambda>l. l\<lparr>l_state := DEAD\<rparr>) s" and ?v1 = "a_set c (\<lambda>x. x\<lparr>t_state := DEAD\<rparr>) v"
    let ?s2 = "if ?j \<noteq> NULL then upd_lwt ?j (\<lambda>l. l\<lparr>l_state := RUNNABLE\<rparr>) ?s1 else ?s1"
    let ?v2 = "?v1\<lparr>v_thd := wake ?j (v_thd ?v1)\<rparr>"
    let ?s3 = "upd_lwt c (\<lambda>l. l\<lparr>l_ret := data\<rparr>) ?s2" and ?v3 = "a_set c (\<lambda>x. x\<lparr>t_ret := data\<rparr>) ?v2"
    have v1: "views ?s1 ?v1" by (rule views_upd [OF assms(1)]) (simp add: thd_of_def)
    then have "views ?s2 (if ?j \<noteq> NULL then a_set ?j (\<lambda>x. x\<lparr>t_state := RUNNABLE\<rparr>) ?v1 else ?v1)"
      by (auto intro!: views_upd simp: thd_of_def)
    moreover have "(if ?j \<noteq> NULL then a_set ?j (\<lambda>x. x\<lparr>t_state := RUNNABLE\<rparr>) ?v1 else ?v1) = ?v2"
      by (simp add: a_set_def wake_def)
    ultimately have "views ?s2 ?v2" by simp
    then have v3: "views ?s3 ?v3" by (rule views_upd) (simp add: thd_of_def)
    have "a_schedule ?v3 = Some q" using assms(2) False cs d(3) by (simp add: a_die_def Let_def)
    from schedule_refines [OF v3 this] have "refines ?s3 (lwt_schedule ?s3) ?v3 q" .
    then have "refines s (lwt_schedule ?s3) ?v3 q" by (rule refines_cong) simp
    moreover have "lwt_die data s = lwt_schedule ?s3" using False cur by (auto simp: lwt_die_def Let_def)
    moreover have "t_ip (v_thd ?v3 u) = t_ip (v_thd v u)" for u by simp
    ultimately show ?thesis unfolding refines_def by simp
  qed
qed


lemma lwt_create_more: "lwt_create fn d fl s = Inr (t, s') \<Longrightarrow> lwt_sys.more s' = lwt_sys.more s"
  by (auto simp: lwt_create_def rbind_eq_Inr Let_def)

text \<open>Neither do the abstract operations touch the fields of a larger view.\<close>

lemma a_goto_more: "a_goto P v = Some w \<Longrightarrow> view.more w = view.more v"
  by (erule a_gotoD) (simp add: a_switch_def a_set_def)

lemma a_more:
  "a_schedule v = Some q1 \<Longrightarrow> view.more (snd q1) = view.more v"
  "a_yield t v = Some q1 \<Longrightarrow> view.more (snd q1) = view.more v"
  "a_join_resume t v = Some q \<Longrightarrow> view.more (snd q) = view.more v"
  "a_lwt_join t v = Some q \<Longrightarrow> view.more (snd q) = view.more v"
  "a_die x v = Some q1 \<Longrightarrow> view.more (snd q1) = view.more v"
  "view.more (a_create t fn d fl v) = view.more v"
  by (auto simp: a_schedule_def a_yield_def a_join_resume_def a_lwt_join_def a_die_def a_create_def
      a_reap_def a_set_def Let_def simp del: a_goto.simps dest!: a_goto_more split: if_splits option.splits)

subsection \<open>The contract in one statement\<close>

text \<open>C10: the thread library implements its abstract specification. Whatever call a thread makes in
  a state with a given view (a run queue as a list, a set of free bytes, the threads), if the
  specification says what the call does to the view then the code does not fail, returns or switches
  as the specification says, reaches a state with the specified view and, when it switches, goes on
  where the specification says the chosen thread was.\<close>

theorem lwt_implements_spec:
  assumes "views s v"
  shows "(\<forall>q. a_yield t v = Some q \<longrightarrow> refines s (lwt_yield t s) v q) \<and>
    (\<forall>q. a_target t v \<and> a_lwt_join t v = Some q \<longrightarrow> refines s (lwt_join t s) v q) \<and>
    (\<forall>q. a_target t v \<and> a_join_resume t v = Some q \<longrightarrow> refines s (lwt_join_resume t s) v q) \<and>
    (\<forall>q. a_die x v = Some q \<longrightarrow> refines s (lwt_die x s) v q) \<and>
    (kfits (s_kheap s) SIZEOF_LWT \<and> set (v_ring v) \<inter> v_free v = {} \<longrightarrow>
      (\<exists>u s'. lwt_create fn d fl s = Inr (u, s') \<and> views s' (a_create u fn d fl v)))"
proof (intro conjI allI impI)
  assume "kfits (s_kheap s) SIZEOF_LWT \<and> set (v_ring v) \<inter> v_free v = {}"
  then show "\<exists>u s'. lwt_create fn d fl s = Inr (u, s') \<and> views s' (a_create u fn d fl v)"
    using create_refines [OF assms, of fn d fl] by metis
qed (use yield_refines [OF assms] join_refines [OF assms] join_resume_refines [OF assms]
    die_refines [OF assms] in blast)+

definition view_ex :: view where
  "view_ex = \<lparr>v_ring = [100, 200, 300], v_free = block 4096 8000,
     v_thd = (\<lambda>u. thd_of (s_lwt sys_ex u)), v_run = 3, v_zom = 2, v_blk = 0\<rparr>"

lemma view_ex_ok: "views sys_ex view_ex" and view_ex_target: "a_target 300 view_ex"
  using sys_ex_runq sys_ex_pool(1) by (auto simp: views_def view_ex_def sys_ex_def a_target_def SIZEOF_LWT_def)

theorem lwt_implements_spec_witness:
  "refines sys_ex (lwt_yield 300 sys_ex) view_ex (Switched, a_switch 100 [200] 300 [] view_ex) \<and>
   (\<exists>w. refines sys_ex (lwt_join 300 sys_ex) view_ex (Switched, w) \<and> v_ring w = [300, 100, 200]) \<and>
   (\<exists>w. refines sys_ex (lwt_die 5 sys_ex) view_ex (Switched, w) \<and> v_ring w = [300, 100, 200])"
proof -
  note c = lwt_implements_spec [OF view_ex_ok, of 300 5 7 8 LWT_DEFAULT]
  have y: "a_yield 300 view_ex = Some (Switched, a_switch 100 [200] 300 [] view_ex)"
    by (simp add: a_yield_def view_ex_def sys_ex_def lwt_ex_def)
  obtain w1 where j: "a_lwt_join 300 view_ex = Some (Switched, w1)" "v_ring w1 = [300, 100, 200]"
    by (simp add: a_lwt_join_def a_join_resume_def a_switch_def view_ex_def sys_ex_def lwt_ex_def Let_def)
  obtain w2 where d: "a_die 5 view_ex = Some (Switched, w2)" "v_ring w2 = [300, 100, 200]"
    by (simp add: a_die_def a_schedule_def a_switch_def view_ex_def sys_ex_def lwt_ex_def Let_def)
  from c y j d view_ex_target show ?thesis by blast
qed

end
