(* ===== verification/Client.thy ===== *)
theory Client
  imports LwtSpec
begin

text \<open>
  Programs of threads. A C function that runs in a thread is a \<open>prog\<close>: the calls it makes to the
  library, each with what it does next. \<open>exec\<close> runs the program of the current thread on the state
  of \<open>lwt.c\<close>; when a call switches, it goes on with the thread that got the processor, where that
  thread was, or in the trampoline of a new one. \<open>wp\<close> is the weakest precondition of such a run,
  stated over the abstract view of \<open>LwtSpec\<close>; its rules execute a program symbolically.
\<close>

datatype ('s, 'g) prog =
    Done addr
  | Die addr
  | Create addr addr lwt_flags "addr \<Rightarrow> ('s, 'g) prog"
  | Join addr "addr \<Rightarrow> ('s, 'g) prog"
  | Joining addr "addr \<Rightarrow> ('s, 'g) prog"
  | Yield addr "('s, 'g) prog"
  | Op "'s \<Rightarrow> (addr outcome \<times> 's) result" "'s \<Rightarrow> (addr outcome \<times> 's) result" "addr \<Rightarrow> ('s, 'g) prog"
  | Check "'s \<Rightarrow> 'g \<Rightarrow> bool" "('s, 'g) prog"
  | Act "'g \<Rightarrow> 'g" "('s, 'g) prog"
  | Load "'g \<Rightarrow> ('s, 'g) prog"
  | Crash

text \<open>
  \<open>Check\<close> is an assertion, \<open>Act\<close> and \<open>Load\<close> write and read the global variables of the program.
  \<open>Op f r\<close> is a call of another module that works on the same state, such as \<open>lwt_snd\<close>, with \<open>r\<close> where
  it goes on after a switch. \<open>Joining\<close> is a thread suspended inside \<open>lwt_join\<close>. A thread whose \<open>lwt_die\<close> returned would run
  off the end of the trampoline: \<open>Crash\<close>.
\<close>

record ('s, 'g) world =
  w_sys :: 's
  w_glob :: 'g
  w_cont :: "addr \<Rightarrow> ('s, 'g) prog"

type_synonym ('s, 'g) text_segment = "addr \<Rightarrow> addr \<Rightarrow> ('s, 'g) prog"

definition arrive :: "('z lwt_sys_scheme, 'g) text_segment \<Rightarrow> ('z lwt_sys_scheme, 'g) world \<Rightarrow> ('z lwt_sys_scheme, 'g) prog" where
  "arrive code w =
     (let s = w_sys w; t = s_lwt s (current_thread s) in
      if eip s = Trampoline then code (l_fn t) (l_data t) else w_cont w (current_thread s))"

definition landing :: "('z lwt_sys_scheme, 'g) text_segment \<Rightarrow> ('a \<Rightarrow> ('z lwt_sys_scheme, 'g) prog) \<Rightarrow> ('z lwt_sys_scheme, 'g) prog \<Rightarrow> ('z lwt_sys_scheme, 'g) world \<Rightarrow>
    ('a outcome \<times> 'z lwt_sys_scheme) result \<Rightarrow> (('z lwt_sys_scheme, 'g) prog \<times> ('z lwt_sys_scheme, 'g) world) option result" where
  "landing code k saved w r =
     rbind r (\<lambda>(x, s). case x of
        Returned y \<Rightarrow> Inr (Some (k y, w\<lparr>w_sys := s\<rparr>))
      | Switched \<Rightarrow>
          let w1 = w\<lparr>w_sys := s, w_cont := (w_cont w)(current_thread (w_sys w) := saved)\<rparr>
          in Inr (Some (arrive code w1, w1)))"

fun pstep :: "('z lwt_sys_scheme, 'g) text_segment \<Rightarrow> addr \<Rightarrow> ('z lwt_sys_scheme, 'g) prog \<Rightarrow> ('z lwt_sys_scheme, 'g) world \<Rightarrow> (('z lwt_sys_scheme, 'g) prog \<times> ('z lwt_sys_scheme, 'g) world) option result" where
  "pstep code main (Done v) w =
     (if current_thread (w_sys w) = main then Inr None
      else landing code (\<lambda>_. Crash) Crash w (lwt_die v (w_sys w)))"
| "pstep code main (Die v) w = landing code (\<lambda>_. Crash) Crash w (lwt_die v (w_sys w))"
| "pstep code main (Create fn d fl k) w =
     rbind (lwt_create fn d fl (w_sys w)) (\<lambda>(t, s). Inr (Some (k t, w\<lparr>w_sys := s\<rparr>)))"
| "pstep code main (Join t k) w = landing code k (Joining t k) w (lwt_join t (w_sys w))"
| "pstep code main (Joining t k) w = landing code k (Joining t k) w (lwt_join_resume t (w_sys w))"
| "pstep code main (Yield t p) w = landing code (\<lambda>_. p) p w (lwt_yield t (w_sys w))"
| "pstep code main (Op f r k) w = landing code k (Op r r k) w (f (w_sys w))"
| "pstep code main (Check b p) w =
     rbind (assertion (b (w_sys w) (w_glob w))) (\<lambda>_. Inr (Some (p, w)))"
| "pstep code main (Act f p) w = Inr (Some (p, w\<lparr>w_glob := f (w_glob w)\<rparr>))"
| "pstep code main (Load k) w = Inr (Some (k (w_glob w), w))"
| "pstep code main Crash w = Inl OutOfBounds"

text \<open>A run ends when the first thread's function returns.\<close>

partial_function (option) exec :: "('z lwt_sys_scheme, 'g) text_segment \<Rightarrow> addr \<Rightarrow> ('z lwt_sys_scheme, 'g) prog \<Rightarrow> ('z lwt_sys_scheme, 'g) world \<Rightarrow> ('z lwt_sys_scheme, 'g) world result option" where
  "exec code main p w =
     (case pstep code main p w of
        Inl e \<Rightarrow> Some (Inl e)
      | Inr None \<Rightarrow> Some (Inr w)
      | Inr (Some (q, w1)) \<Rightarrow> exec code main q w1)"

subsection \<open>Weakest preconditions\<close>

text \<open>
  \<open>R\<close> says which abstract view a state has: \<open>views\<close>, or a relation that also describes the state of
  another module.
\<close>

definition wp :: "('z lwt_sys_scheme \<Rightarrow> 'v \<Rightarrow> bool) \<Rightarrow> ('z lwt_sys_scheme, 'g) text_segment \<Rightarrow> addr \<Rightarrow>
    ('z lwt_sys_scheme, 'g) prog \<Rightarrow> 'g \<Rightarrow> (addr \<Rightarrow> ('z lwt_sys_scheme, 'g) prog) \<Rightarrow> 'v \<Rightarrow>
    ('v \<Rightarrow> 'g \<Rightarrow> bool) \<Rightarrow> bool" where
  "wp R code main p g k v Q \<longleftrightarrow> (\<forall>s. R s v \<longrightarrow>
     (\<exists>w v'. exec code main p \<lparr>w_sys = s, w_glob = g, w_cont = k\<rparr> = Some (Inr w) \<and>
        R (w_sys w) v' \<and> Q v' (w_glob w)))"

text \<open>Where the run goes on after an operation that the abstract level describes as \<open>q\<close>.\<close>

definition lands :: "('z lwt_sys_scheme \<Rightarrow> 'y view_scheme \<Rightarrow> bool) \<Rightarrow> ('z lwt_sys_scheme, 'g) text_segment \<Rightarrow>
    addr \<Rightarrow> ('a \<Rightarrow> ('z lwt_sys_scheme, 'g) prog) \<Rightarrow> ('z lwt_sys_scheme, 'g) prog \<Rightarrow> 'g \<Rightarrow>
    (addr \<Rightarrow> ('z lwt_sys_scheme, 'g) prog) \<Rightarrow> 'y view_scheme \<Rightarrow>
    ('y view_scheme \<Rightarrow> 'g \<Rightarrow> bool) \<Rightarrow> 'a outcome \<times> 'y view_scheme \<Rightarrow> bool" where
  "lands R code main kk saved g k v Q q =
     (let w = snd q in case fst q of
        Returned x \<Rightarrow> wp R code main (kk x) g k w Q
      | Switched \<Rightarrow>
          let z = hd (v_ring w); k1 = k(hd (v_ring v) := saved);
              p = (if t_ip (v_thd v z) = Trampoline then code (t_fn (v_thd w z)) (t_data (v_thd w z))
                   else k1 z)
          in wp R code main p g k1 w Q)"

lemma exec_step: "pstep code main p w = Inr (Some (q, w1)) \<Longrightarrow> exec code main p w = exec code main q w1"
  by (subst exec.simps) simp

text \<open>
  What the relation \<open>R\<close> has to satisfy for the rules of the thread library: it implies \<open>views\<close>, and it
  survives every change that leaves what it says beyond \<open>views\<close> alone, on both sides.
\<close>

locale client_view =
  fixes R :: "'z lwt_sys_scheme \<Rightarrow> 'y view_scheme \<Rightarrow> bool"
  assumes R_views: "R s v \<Longrightarrow> views s v"
    and R_keep: "R s v \<Longrightarrow> views s' v' \<Longrightarrow> lwt_sys.more s' = lwt_sys.more s \<Longrightarrow>
      view.more v' = view.more v \<Longrightarrow> R s' v'"
begin

lemma landing_wp:
  assumes step: "\<And>s. R s v \<Longrightarrow> pstep code main p \<lparr>w_sys = s, w_glob = g, w_cont = k\<rparr> =
      landing code kk saved \<lparr>w_sys = s, w_glob = g, w_cont = k\<rparr> (r s)"
    and ref: "\<And>s. R s v \<Longrightarrow> refines s (r s) v q"
    and more: "view.more (snd q) = view.more v"
    and l: "lands R code main kk saved g k v Q q"
  shows "wp R code main p g k v Q"
  unfolding wp_def
proof (intro allI impI)
  fix s :: "'z lwt_sys_scheme" assume v: "R s v"
  from ref [OF v] obtain s' where s': "r s = Inr (fst q, s')" "views s' (snd q)"
    "lwt_sys.more s' = lwt_sys.more s"
    "fst q = Switched \<Longrightarrow> eip s' = t_ip (v_thd v (hd (v_ring (snd q))))" by (auto simp: refines_def)
  have R': "R s' (snd q)" by (rule R_keep [OF v s'(2,3) more])
  let ?w = "\<lparr>w_sys = s, w_glob = g, w_cont = k\<rparr>"
  show "\<exists>w v'. exec code main p ?w = Some (Inr w) \<and> R (w_sys w) v' \<and> Q v' (w_glob w)"
  proof (cases "fst q")
    case (Returned x)
    then have "pstep code main p ?w = Inr (Some (kk x, ?w\<lparr>w_sys := s'\<rparr>))"
      using step [OF v] s'(1) by (simp add: landing_def)
    moreover have "wp R code main (kk x) g k (snd q) Q" using l Returned by (simp add: lands_def Let_def)
    ultimately show ?thesis using R' by (simp add: exec_step wp_def)
  next
    case Switched
    let ?k = "k(hd (v_ring v) := saved)" and ?z = "hd (v_ring (snd q))"
    let ?p = "if t_ip (v_thd v ?z) = Trampoline
      then code (t_fn (v_thd (snd q) ?z)) (t_data (v_thd (snd q) ?z)) else ?k ?z"
    let ?w1 = "\<lparr>w_sys = s', w_glob = g, w_cont = ?k\<rparr>"
    have "arrive code ?w1 = ?p"
      using viewsD(3,7) [OF s'(2)] s'(4) [OF Switched] by (simp add: arrive_def Let_def)
    then have "pstep code main p ?w = Inr (Some (?p, ?w1))"
      using step [OF v] s'(1) Switched viewsD(7) [OF R_views [OF v]] by (simp add: landing_def Let_def)
    moreover have "wp R code main ?p g ?k (snd q) Q" using l Switched by (simp add: lands_def Let_def)
    ultimately show ?thesis using R' by (simp add: exec_step wp_def)
  qed
qed

lemma wp_done: "hd (v_ring v) = main \<Longrightarrow> Q v g \<Longrightarrow> wp R code main (Done x) g k v Q"
  unfolding wp_def
proof (intro allI impI)
  fix s :: "'z lwt_sys_scheme" assume "hd (v_ring v) = main" "Q v g" "R s v"
  moreover from this have "exec code main (Done x) \<lparr>w_sys = s, w_glob = g, w_cont = k\<rparr> =
      Some (Inr \<lparr>w_sys = s, w_glob = g, w_cont = k\<rparr>)"
    using viewsD(7) [OF R_views [OF \<open>R s v\<close>]] by (subst exec.simps) simp
  ultimately show "\<exists>w v'. exec code main (Done x) \<lparr>w_sys = s, w_glob = g, w_cont = k\<rparr> = Some (Inr w) \<and>
      R (w_sys w) v' \<and> Q v' (w_glob w)" by auto
qed

lemma wp_exit:
  "hd (v_ring v) \<noteq> main \<Longrightarrow> a_die x v = Some q \<Longrightarrow> lands R code main (\<lambda>_. Crash) Crash g k v Q q \<Longrightarrow>
     wp R code main (Done x) g k v Q"
  by (rule landing_wp [where r = "\<lambda>s. lwt_die x s", OF _ die_refines [OF R_views] a_more(5)])
    (simp_all add: viewsD(7) [OF R_views])

lemma wp_die:
  "a_die x v = Some q \<Longrightarrow> lands R code main (\<lambda>_. Crash) Crash g k v Q q \<Longrightarrow> wp R code main (Die x) g k v Q"
  by (rule landing_wp [where r = "\<lambda>s. lwt_die x s", OF _ die_refines [OF R_views] a_more(5)]) simp_all

lemma wp_yield:
  "a_yield t v = Some q \<Longrightarrow> lands R code main (\<lambda>_. p) p g k v Q q \<Longrightarrow> wp R code main (Yield t p) g k v Q"
  by (rule landing_wp [where r = "\<lambda>s. lwt_yield t s", OF _ yield_refines [OF R_views] a_more(2)]) simp_all

lemma wp_join:
  "a_target t v \<Longrightarrow> a_lwt_join t v = Some q \<Longrightarrow> lands R code main kk (Joining t kk) g k v Q q \<Longrightarrow>
     wp R code main (Join t kk) g k v Q"
  by (rule landing_wp [where r = "\<lambda>s. lwt_join t s", OF _ join_refines [OF R_views] a_more(4)]) simp_all

lemma wp_joining:
  "a_target t v \<Longrightarrow> a_join_resume t v = Some q \<Longrightarrow> lands R code main kk (Joining t kk) g k v Q q \<Longrightarrow>
     wp R code main (Joining t kk) g k v Q"
  by (rule landing_wp [where r = "\<lambda>s. lwt_join_resume t s", OF _ join_resume_refines [OF R_views] a_more(3)])
    simp_all

lemma wp_check: "(\<And>s. R s v \<Longrightarrow> b s g) \<Longrightarrow> wp R code main p g k v Q \<Longrightarrow> wp R code main (Check b p) g k v Q"
  by (simp add: wp_def exec_step [of code main "Check b p" _ p])

lemma wp_act: "wp R code main p (f g) k v Q \<Longrightarrow> wp R code main (Act f p) g k v Q"
  by (simp add: wp_def exec_step [of code main "Act f p" _ p])

lemma wp_load: "wp R code main (kk g) g k v Q \<Longrightarrow> wp R code main (Load kk) g k v Q"
  by (simp add: wp_def exec_step [of code main "Load kk" _ "kk g"])

lemma wp_counts:
  "v_zom v = i \<Longrightarrow> wp R code main p g k v Q \<Longrightarrow> wp R code main (Check (\<lambda>s _. n_zombies s = i) p) g k v Q"
  "v_run v = i \<Longrightarrow> wp R code main p g k v Q \<Longrightarrow> wp R code main (Check (\<lambda>s _. n_runnable s = i) p) g k v Q"
  "c g \<Longrightarrow> wp R code main p g k v Q \<Longrightarrow> wp R code main (Check (\<lambda>_ g. c g) p) g k v Q"
  by (rule wp_check; simp add: viewsD [OF R_views])+

end

text \<open>Room for \<open>n\<close> bytes in a set of free bytes, which is room in every pool made of them.\<close>

definition room :: "addr set \<Rightarrow> int \<Rightarrow> bool" where
  "room A n \<longleftrightarrow> (\<exists>p. block p n \<subseteq> A)"

lemma room_fits: "kpool h A \<Longrightarrow> 0 < n \<Longrightarrow> room A n \<longleftrightarrow> kfits h n"
  by (simp add: room_def kpool_fits_iff)

lemma room_mono: "room A n \<Longrightarrow> m \<le> n \<Longrightarrow> A \<subseteq> B \<Longrightarrow> room B m"
  unfolding room_def by (force simp: block_def)

context client_view begin

lemma wp_create:
  assumes "room (v_free v) SIZEOF_LWT" and "set (v_ring v) \<inter> v_free v = {}"
    and next_wp: "\<And>t. 0 < t \<Longrightarrow> t \<notin> set (v_ring v) \<Longrightarrow> block t SIZEOF_LWT \<subseteq> v_free v \<Longrightarrow>
      \<forall>n. 0 < n \<longrightarrow> room (v_free v) (SIZEOF_LWT + n) \<longrightarrow> room (v_free v - block t SIZEOF_LWT) n \<Longrightarrow>
      wp R code main (kk t) g k (a_create t fn d fl v) Q"
  shows "wp R code main (Create fn d fl kk) g k v Q"
  unfolding wp_def
proof (intro allI impI)
  fix s :: "'z lwt_sys_scheme" assume v: "R s v"
  note k = viewsD(2) [OF R_views [OF v]]
  have "kfits (s_kheap s) SIZEOF_LWT" using assms(1) room_fits [OF k] by (simp add: SIZEOF_LWT_def)
  from create_refines [OF R_views [OF v] this assms(2), of fn d fl] obtain t s' where
    c: "lwt_create fn d fl s = Inr (t, s')" "views s' (a_create t fn d fl v)" "0 < t" "t \<notin> set (v_ring v)"
      "block t SIZEOF_LWT \<subseteq> v_free v"
      "\<And>n. 0 < n \<Longrightarrow> kfits (s_kheap s) (SIZEOF_LWT + n) \<Longrightarrow> kfits (s_kheap s') n" by metis
  have "kpool (s_kheap s') (v_free v - block t SIZEOF_LWT)"
    using viewsD(2) [OF c(2)] by (simp add: a_create_def)
  with c(6) have "\<forall>n. 0 < n \<longrightarrow> room (v_free v) (SIZEOF_LWT + n) \<longrightarrow> room (v_free v - block t SIZEOF_LWT) n"
    using room_fits [OF k] room_fits by (simp add: SIZEOF_LWT_def)
  moreover have "R s' (a_create t fn d fl v)"
    by (rule R_keep [OF v c(2) lwt_create_more [OF c(1)] a_more(6)])
  ultimately have "\<exists>w v'. exec code main (kk t) \<lparr>w_sys = s', w_glob = g, w_cont = k\<rparr> =
      Some (Inr w) \<and> R (w_sys w) v' \<and> Q v' (w_glob w)"
    using next_wp [OF c(3-5)] unfolding wp_def by blast
  then show "\<exists>w v'. exec code main (Create fn d fl kk) \<lparr>w_sys = s, w_glob = g, w_cont = k\<rparr> = Some (Inr w) \<and>
      R (w_sys w) v' \<and> Q v' (w_glob w)"
    using c(1) by (subst exec_step) auto
qed

end

text \<open>For programs that use the thread library alone.\<close>

interpretation th: client_view "views :: lwt_sys \<Rightarrow> view \<Rightarrow> bool"
  by unfold_locales simp_all

end
