(* ===== verification/ChanSpec.thy ===== *)
theory ChanSpec
  imports Client ChanGroup
begin

text \<open>
  The view of \<open>channel.c\<close> for programs of threads: the view of \<open>LwtSpec\<close> with the channels, the
  messages, and for each ring buffer in use the list of what it holds and its capacity. The rules say
  what a send, a receive, the creation of a channel and the release of a reference do to it.
\<close>

record cview = view +
  cv_chan :: "addr \<Rightarrow> lwt_channel"
  cv_msg :: "addr \<Rightarrow> clist_head"
  cv_buf :: "addr \<Rightarrow> (addr list \<times> nat) option"

definition cviews :: "chan_sys \<Rightarrow> cview \<Rightarrow> bool" where
  "cviews s v \<longleftrightarrow> views s v \<and> cv_chan v = s_chan s \<and> cv_msg v = s_msg s \<and>
     (\<forall>b ms n. cv_buf v b = Some (ms, n) \<longrightarrow> rbuf_ok (s_rbuf s b) \<and> contents (s_rbuf s b) = ms \<and>
        unat (rbuf_capacity (s_rbuf s b)) = n)"

lemma cviewsD:
  assumes "cviews s v"
  shows "views s v" "cv_chan v = s_chan s" "cv_msg v = s_msg s"
    "cv_buf v b = Some (ms, n) \<Longrightarrow> rbuf_ok (s_rbuf s b)"
    "cv_buf v b = Some (ms, n) \<Longrightarrow> contents (s_rbuf s b) = ms"
    "cv_buf v b = Some (ms, n) \<Longrightarrow> unat (rbuf_capacity (s_rbuf s b)) = n"
  using assms by (auto simp: cviews_def)

lemma cviewsI:
  assumes "views s v" and "cv_chan v = s_chan s" and "cv_msg v = s_msg s"
    and "\<And>b ms n. cv_buf v b = Some (ms, n) \<Longrightarrow> rbuf_ok (s_rbuf s b) \<and> contents (s_rbuf s b) = ms \<and>
        unat (rbuf_capacity (s_rbuf s b)) = n"
  shows "cviews s v"
  using assms by (auto simp: cviews_def)

lemma chan_more:
  fixes s s' :: chan_sys
  assumes "lwt_sys.more s' = lwt_sys.more s"
  shows "s_chan s' = s_chan s \<and> s_rbuf s' = s_rbuf s \<and> s_msg s' = s_msg s"
  using assms by (cases s, cases s') simp

lemma cview_more:
  fixes v v' :: cview
  assumes "view.more v' = view.more v"
  shows "cv_chan v' = cv_chan v \<and> cv_msg v' = cv_msg v \<and> cv_buf v' = cv_buf v"
  using assms by (cases v, cases v') simp

text \<open>For programs that use channels.\<close>

interpretation ch: client_view cviews
proof
  fix s s' v v'
  assume "cviews s v" "views s' v'" "lwt_sys.more s' = lwt_sys.more s" "view.more v' = view.more v"
  then show "cviews s' v'" using chan_more [of s' s] cview_more [of v' v] by (simp add: cviews_def)
qed (simp add: cviews_def)

text \<open>A call that returns, whatever it does inside.\<close>

definition wp_ret where
  "wp_ret f kk code main g k v Q \<longleftrightarrow> (\<forall>s. cviews s v \<longrightarrow>
     (\<exists>x s' v'. f s = Inr (Returned x, s') \<and> cviews s' v' \<and> wp cviews code main (kk x) g k v' Q))"

lemma wp_op_returns:
  assumes "wp_ret f kk code main g k v Q"
  shows "wp cviews code main (Op f r kk) g k v Q"
  unfolding wp_def
proof (intro allI impI)
  fix s assume v: "cviews s v"
  with assms obtain x s' v' where f: "f s = Inr (Returned x, s')" "cviews s' v'"
    "wp cviews code main (kk x) g k v' Q" unfolding wp_ret_def by blast
  have "pstep code main (Op f r kk) \<lparr>w_sys = s, w_glob = g, w_cont = k\<rparr> =
      Inr (Some (kk x, \<lparr>w_sys = s', w_glob = g, w_cont = k\<rparr>))" using f(1) by (simp add: landing_def)
  from exec_step [OF this] f(2,3)
  show "\<exists>w v'. exec code main (Op f r kk) \<lparr>w_sys = s, w_glob = g, w_cont = k\<rparr> = Some (Inr w) \<and>
      cviews (w_sys w) v' \<and> Q v' (w_glob w)" unfolding wp_def by simp
qed

text \<open>A call that switches as \<open>lwt_schedule\<close> does.\<close>

lemma wp_op_switches:
  assumes f: "\<And>s. cviews s v \<Longrightarrow> \<exists>s0. views s0 v \<and> lwt_sys.more s0 = lwt_sys.more s \<and>
      (\<forall>s'. lwt_schedule s0 = Inr (Switched, s') \<longrightarrow> f s = Inr (Switched, s'))"
    and q: "a_schedule v = Some (Switched, w)"
    and l: "lands cviews code main kk (Op r r kk) g k v Q (Switched, w)"
  shows "wp cviews code main (Op f r kk) g k v Q"
proof (rule ch.landing_wp [OF _ _ _ l])
  fix s assume v: "cviews s v"
  from f [OF v] obtain s0 where s0: "views s0 v" "lwt_sys.more s0 = lwt_sys.more s"
    "\<And>s'. lwt_schedule s0 = Inr (Switched, s') \<Longrightarrow> f s = Inr (Switched, s')" by blast
  from schedule_refines [OF s0(1) q] s0(2,3) show "refines s (f s) v (Switched, w)"
    by (auto simp: refines_def)
next
  show "view.more (snd (Switched, w)) = view.more v" using a_more(1) [OF q] by simp
qed simp_all

subsection \<open>Free places\<close>

text \<open>
  \<open>places A k\<close>: there is room for \<open>k\<close> messages in \<open>A\<close>, so far apart that one more message takes away
  at most one of them, wherever the allocator puts it.
\<close>

definition places :: "addr set \<Rightarrow> nat \<Rightarrow> bool" where
  "places A k \<longleftrightarrow> (\<exists>S. finite S \<and> k \<le> card S \<and> (\<forall>a\<in>S. block a SIZEOF_MSG \<subseteq> A) \<and>
     (\<forall>a\<in>S. \<forall>b\<in>S. a \<noteq> b \<longrightarrow> 2 * SIZEOF_MSG \<le> \<bar>a - b\<bar>))"

lemma places_block:
  assumes "block p (2 * SIZEOF_MSG * int k) \<subseteq> A"
  shows "places A k"
proof -
  let ?f = "\<lambda>i. p + 2 * SIZEOF_MSG * int i"
  have inj: "inj_on ?f {..<k}" by (auto simp: inj_on_def SIZEOF_MSG_def)
  have "block (?f i) SIZEOF_MSG \<subseteq> A" if "i < k" for i
  proof -
    have "2 * SIZEOF_MSG * int i + 2 * SIZEOF_MSG \<le> 2 * SIZEOF_MSG * int k"
      using that by (simp add: SIZEOF_MSG_def)
    then have "block (?f i) SIZEOF_MSG \<subseteq> block p (2 * SIZEOF_MSG * int k)"
      by (auto simp: block_def SIZEOF_MSG_def)
    with assms show ?thesis by blast
  qed
  moreover have "2 * SIZEOF_MSG \<le> \<bar>?f i - ?f j\<bar>" if "?f i \<noteq> ?f j" for i j
    using that by (auto simp: SIZEOF_MSG_def abs_if)
  ultimately show ?thesis
    unfolding places_def using inj
    by (intro exI [of _ "?f ` {..<k}"]) (auto simp: card_image)
qed

lemma places_take:
  assumes "places A (Suc k)"
  shows "places (A - block t SIZEOF_MSG) k"
proof -
  from assms obtain S where S: "finite S" "Suc k \<le> card S" "\<forall>a\<in>S. block a SIZEOF_MSG \<subseteq> A"
    "\<forall>a\<in>S. \<forall>b\<in>S. a \<noteq> b \<longrightarrow> 2 * SIZEOF_MSG \<le> \<bar>a - b\<bar>" by (auto simp: places_def)
  let ?H = "{a\<in>S. block a SIZEOF_MSG \<inter> block t SIZEOF_MSG \<noteq> {}}"
  have one: "a = b" if "a \<in> ?H" "b \<in> ?H" for a b
  proof (rule ccontr)
    assume "a \<noteq> b"
    with S(4) that have "2 * SIZEOF_MSG \<le> \<bar>a - b\<bar>" by blast
    with that show False by (auto simp: block_def abs_if split: if_splits)
  qed
  have c1: "card ?H \<le> 1"
    by (cases "?H = {}") (use one in \<open>auto simp: card_le_Suc0_iff_eq S(1)\<close>)
  have "card (S - ?H) = card S - card ?H" using S(1) by (intro card_Diff_subset) auto
  then have "k \<le> card (S - ?H)" using S(2) c1 by simp
  then show ?thesis unfolding places_def using S by (intro exI [of _ "S - ?H"]) auto
qed

lemma places_mono: "places A k \<Longrightarrow> A \<subseteq> B \<Longrightarrow> j \<le> k \<Longrightarrow> places B j"
  unfolding places_def by (meson order.trans)

lemma places_one: "places A k \<Longrightarrow> 0 < k \<Longrightarrow> \<exists>p. block p SIZEOF_MSG \<subseteq> A"
  unfolding places_def by (metis card.empty ex_in_conv le_zero_eq less_irrefl_nat)


subsection \<open>Sending and receiving\<close>

definition a_snd :: "addr \<Rightarrow> addr \<Rightarrow> addr \<Rightarrow> cview \<Rightarrow> cview" where
  "a_snd c d t v =
     (let ch = cv_chan v c; (ms, n) = the (cv_buf v (c_rbuf ch)) in
      v\<lparr>v_free := v_free v - block t SIZEOF_MSG,
        cv_msg := (cv_msg v)(t := \<lparr>m_data = d, m_thd = hd (v_ring v)\<rparr>),
        cv_buf := (cv_buf v)(c_rbuf ch \<mapsto> (ms @ [t], n)),
        cv_chan := (cv_chan v)(c := ch\<lparr>c_snd_cnt := c_snd_cnt ch + 1\<rparr>)\<rparr>)"

definition a_rcv :: "addr \<Rightarrow> cview \<Rightarrow> addr \<times> cview" where
  "a_rcv c v =
     (let b = c_rbuf (cv_chan v c); (ms, n) = the (cv_buf v b); m = hd ms in
      (m_data (cv_msg v m),
       v\<lparr>v_free := v_free v \<union> block m SIZEOF_MSG, cv_buf := (cv_buf v)(b \<mapsto> (tl ms, n))\<rparr>))"

text \<open>A channel that has a receiver, with its buffer.\<close>

definition open_chan :: "cview \<Rightarrow> addr \<Rightarrow> addr list \<Rightarrow> nat \<Rightarrow> bool" where
  "open_chan v c ms n \<longleftrightarrow> c \<noteq> NULL \<and> c_rcv_thd (cv_chan v c) \<noteq> NULL \<and>
     cv_buf v (c_rbuf (cv_chan v c)) = Some (ms, n)"

lemma open_chanD:
  assumes "open_chan v c ms n" and "cviews s v"
  shows "c \<noteq> NULL" "c_rcv_thd (s_chan s c) \<noteq> NULL" "rbuf_ok (rbuf_of s c)" "contents (rbuf_of s c) = ms"
    "rbuf_isfull (rbuf_of s c) \<longleftrightarrow> length ms = n" "rbuf_isempty (rbuf_of s c) \<longleftrightarrow> ms = []"
    "unat (rbuf_capacity (rbuf_of s c)) = n"
proof -
  note d = cviewsD [OF assms(2)]
  have b: "cv_buf v (c_rbuf (s_chan s c)) = Some (ms, n)" using assms(1) d(2) by (simp add: open_chan_def)
  show "c \<noteq> NULL" "c_rcv_thd (s_chan s c) \<noteq> NULL" using assms(1) d(2) by (simp_all add: open_chan_def)
  show ok: "rbuf_ok (rbuf_of s c)" and ct: "contents (rbuf_of s c) = ms"
    and cap: "unat (rbuf_capacity (rbuf_of s c)) = n" using d(4-6) [OF b] by blast+
  show "rbuf_isfull (rbuf_of s c) \<longleftrightarrow> length ms = n" using rbuf_isfull_contents [OF ok] ct cap by simp
  show "rbuf_isempty (rbuf_of s c) \<longleftrightarrow> ms = []" using rbuf_isempty_contents [OF ok] ct by simp
qed

lemma snd_resume_view:
  assumes v: "cviews s v" and o: "open_chan v c ms n" and "length ms < n"
    and p: "block p SIZEOF_MSG \<subseteq> v_free v"
  shows "\<exists>t s'. lwt_snd_resume c d s = Inr (Returned 0, s') \<and> cviews s' (a_snd c d t v) \<and> 0 < t \<and>
    block t SIZEOF_MSG \<subseteq> v_free v"
proof -
  note dv = cviewsD [OF v] and oc = open_chanD [OF o v] and w = viewsD [OF cviewsD(1) [OF v]]
  have nf: "\<not> rbuf_isfull (rbuf_of s c)" using oc(5) assms(3) by simp
  from kp.alloc_fits [OF w(2) SIZEOF_MSG_pos kpool_room [OF w(2) SIZEOF_MSG_pos(1) p]] obtain t h where
    t: "kalloc (s_kheap s) SIZEOF_MSG = Inr (t, h)" "0 < t" "block t SIZEOF_MSG \<subseteq> v_free v"
      "kpool h (v_free v - block t SIZEOF_MSG)" by blast
  have "t \<noteq> NULL" using t(2) by simp
  from rbuf_write_contents [OF oc(3) this nf] obtain rb where
    rb: "rbuf_write (rbuf_of s c) t = Inr (WRITERBUF_OK, rb)" "rbuf_ok rb"
      "contents rb = contents (rbuf_of s c) @ [t]" "rbuf_capacity rb = rbuf_capacity (rbuf_of s c)" by blast
  have b: "cv_buf v (c_rbuf (s_chan s c)) = Some (ms, n)" using o dv(2) by (simp add: open_chan_def)
  have "lwt_snd_resume c d s = Inr (Returned 0, sent c d t h rb s)"
    using snd_write_eq [OF t(1,2) rb(1)] nf by (simp add: lwt_snd_resume_def)
  moreover have "cviews (sent c d t h rb s) (a_snd c d t v)"
  proof (rule cviewsI)
    show "views (sent c d t h rb s) (a_snd c d t v)"
      using w t(4) by (simp add: views_def a_snd_def sent_def Let_def runq_def b dv(2))
    show "cv_chan (a_snd c d t v) = s_chan (sent c d t h rb s)"
      by (simp add: a_snd_def sent_def Let_def b dv(2))
    show "cv_msg (a_snd c d t v) = s_msg (sent c d t h rb s)"
      by (simp add: a_snd_def sent_def Let_def b dv(2,3) w(7))
    fix b' ms' n' assume "cv_buf (a_snd c d t v) b' = Some (ms', n')"
    then show "rbuf_ok (s_rbuf (sent c d t h rb s) b') \<and> contents (s_rbuf (sent c d t h rb s) b') = ms' \<and>
        unat (rbuf_capacity (s_rbuf (sent c d t h rb s) b')) = n'"
      using rb(2-4) oc(4,7) dv(4-6)
      by (auto simp: a_snd_def sent_def Let_def b dv(2) split: if_splits)
  qed
  ultimately show ?thesis using t(2,3) by blast
qed


lemma rcv_resume_view:
  assumes v: "cviews s v" and o: "open_chan v c (m # ms) n" and "0 < m"
    and p: "block m SIZEOF_MSG \<inter> v_free v = {}"
  shows "\<exists>s'. lwt_rcv_resume c s = Inr (Returned (fst (a_rcv c v)), s') \<and> cviews s' (snd (a_rcv c v))"
proof -
  note dv = cviewsD [OF v] and oc = open_chanD [OF o v] and w = viewsD [OF cviewsD(1) [OF v]]
  have ne: "\<not> rbuf_isempty (rbuf_of s c)" using oc(6) by simp
  from rbuf_read_contents [OF oc(3,4)] obtain rb where
    rb: "rbuf_read (rbuf_of s c) = Inr (m, rb)" "rbuf_ok rb" "contents rb = ms"
      "rbuf_capacity rb = rbuf_capacity (rbuf_of s c)" by blast
  from kp.free_ok [OF w(2) assms(3) SIZEOF_MSG_pos p] obtain h where
    h: "kfree (s_kheap s) m SIZEOF_MSG = Inr h" "kpool h (v_free v \<union> block m SIZEOF_MSG)" by blast
  have b: "cv_buf v (c_rbuf (s_chan s c)) = Some (m # ms, n)" using o dv(2) by (simp add: open_chan_def)
  have "lwt_rcv_resume c s = Inr (Returned (m_data (s_msg s m)), received c h rb s)"
    using rcv_read_eq [OF rb(1) assms(3) h(1)] ne by (simp add: lwt_rcv_resume_def)
  moreover have "fst (a_rcv c v) = m_data (s_msg s m)" using dv(2,3) b by (simp add: a_rcv_def Let_def)
  moreover have "cviews (received c h rb s) (snd (a_rcv c v))"
  proof (rule cviewsI)
    show "views (received c h rb s) (snd (a_rcv c v))"
      using w h(2) by (simp add: views_def a_rcv_def received_def Let_def runq_def b dv(2))
    show "cv_chan (snd (a_rcv c v)) = s_chan (received c h rb s)"
      "cv_msg (snd (a_rcv c v)) = s_msg (received c h rb s)"
      by (simp_all add: a_rcv_def received_def Let_def b dv(2,3))
    fix b' ms' n' assume "cv_buf (snd (a_rcv c v)) b' = Some (ms', n')"
    then show "rbuf_ok (s_rbuf (received c h rb s) b') \<and> contents (s_rbuf (received c h rb s) b') = ms' \<and>
        unat (rbuf_capacity (s_rbuf (received c h rb s) b')) = n'"
      using rb(2-4) oc(4,7) dv(4-6)
      by (auto simp: a_rcv_def received_def Let_def b dv(2) split: if_splits)
  qed
  ultimately show ?thesis by auto
qed

lemma wp_snd:
  assumes o: "open_chan v c ms n" and "length ms < n" and p: "block p SIZEOF_MSG \<subseteq> v_free v" and "d \<noteq> NULL"
    and next_wp: "\<And>t. 0 < t \<Longrightarrow> block t SIZEOF_MSG \<subseteq> v_free v \<Longrightarrow>
      wp cviews code main (kk 0) g k (a_snd c d t v) Q"
  shows "wp cviews code main (Op (lwt_snd_resume c d) r kk) g k v Q"
    and "wp cviews code main (Op (lwt_snd c d) r kk) g k v Q"
proof -
  have e: "lwt_snd c d s = lwt_snd_resume c d s" if "cviews s v" for s
    using open_chanD(1,2) [OF o that] assms(4) by (simp add: lwt_snd_def)
  show r: "wp cviews code main (Op (lwt_snd_resume c d) r kk) g k v Q"
    by (rule wp_op_returns) (use snd_resume_view [OF _ o assms(2) p, of _ d] next_wp in \<open>auto simp: wp_ret_def, blast\<close>)
  show "wp cviews code main (Op (lwt_snd c d) r kk) g k v Q"
    by (rule wp_op_returns) (use snd_resume_view [OF _ o assms(2) p, of _ d] next_wp e in \<open>auto simp: wp_ret_def, blast\<close>)
qed

lemma views_rcving:
  fixes s :: chan_sys
  assumes "cviews s v"
  shows "cviews (s\<lparr>n_rcving := i\<rparr>) v"
  using assms by (auto simp: cviews_def views_def runq_def)

lemma wp_rcv:
  assumes o: "open_chan v c (m # ms) n" and "0 < m" and p: "block m SIZEOF_MSG \<inter> v_free v = {}"
    and next_wp: "wp cviews code main (kk (fst (a_rcv c v))) g k (snd (a_rcv c v)) Q"
  shows "wp cviews code main (Op (lwt_rcv_resume c) r kk) g k v Q"
    and "wp cviews code main (Op (lwt_rcv c) r kk) g k v Q"
proof -
  have e: "lwt_rcv c s = lwt_rcv_resume c (s\<lparr>n_rcving := n_rcving s + 1\<rparr>)" if "cviews s v" for s
    using open_chanD(1,2) [OF o that] by (simp add: lwt_rcv_def)
  show "wp cviews code main (Op (lwt_rcv_resume c) r kk) g k v Q"
    by (rule wp_op_returns) (use rcv_resume_view [OF _ o assms(2) p] next_wp in \<open>auto simp: wp_ret_def, blast\<close>)
  show "wp cviews code main (Op (lwt_rcv c) r kk) g k v Q"
    by (rule wp_op_returns) (use rcv_resume_view [OF views_rcving o assms(2) p] next_wp e in \<open>auto simp: wp_ret_def, blast\<close>)
qed

lemma waiting_schedules:
  "busy s \<Longrightarrow> lwt_schedule s = Inr (Switched, s') \<Longrightarrow> waiting busy (lwt_yield NULL) kk s = Inr (Switched, s')"
  by (rule waiting_switch) (simp_all add: lwt_yield_def)

lemma wp_snd_full:
  assumes o: "open_chan v c ms n" and "length ms = n" and "d \<noteq> NULL"
    and q: "a_schedule v = Some (Switched, w)"
    and l: "lands cviews code main kk (Op (lwt_snd_resume c d) (lwt_snd_resume c d) kk) g k v Q (Switched, w)"
  shows "wp cviews code main (Op (lwt_snd_resume c d) (lwt_snd_resume c d) kk) g k v Q"
    and "wp cviews code main (Op (lwt_snd c d) (lwt_snd_resume c d) kk) g k v Q"
proof -
  have r: "\<exists>s0. views s0 v \<and> lwt_sys.more s0 = lwt_sys.more s \<and>
      (\<forall>s'. lwt_schedule s0 = Inr (Switched, s') \<longrightarrow> lwt_snd_resume c d s = Inr (Switched, s'))"
    and e: "lwt_snd c d s = lwt_snd_resume c d s" if "cviews s v" for s
  proof -
    have "rbuf_isfull (rbuf_of s c)" using open_chanD(5) [OF o that] assms(2) by simp
    then show "\<exists>s0. views s0 v \<and> lwt_sys.more s0 = lwt_sys.more s \<and>
      (\<forall>s'. lwt_schedule s0 = Inr (Switched, s') \<longrightarrow> lwt_snd_resume c d s = Inr (Switched, s'))"
      using cviewsD(1) [OF that] by (intro exI [of _ s]) (simp add: lwt_snd_resume_def waiting_schedules)
    show "lwt_snd c d s = lwt_snd_resume c d s"
      using open_chanD(1,2) [OF o that] assms(3) by (simp add: lwt_snd_def)
  qed
  show "wp cviews code main (Op (lwt_snd_resume c d) (lwt_snd_resume c d) kk) g k v Q"
    by (rule wp_op_switches [OF _ q l]) (rule r)
  show "wp cviews code main (Op (lwt_snd c d) (lwt_snd_resume c d) kk) g k v Q"
    by (rule wp_op_switches [OF _ q l]) (simp add: r e)
qed

lemma wp_rcv_empty:
  assumes o: "open_chan v c [] n"
    and q: "a_schedule v = Some (Switched, w)"
    and l: "lands cviews code main kk (Op (lwt_rcv_resume c) (lwt_rcv_resume c) kk) g k v Q (Switched, w)"
  shows "wp cviews code main (Op (lwt_rcv_resume c) (lwt_rcv_resume c) kk) g k v Q"
    and "wp cviews code main (Op (lwt_rcv c) (lwt_rcv_resume c) kk) g k v Q"
proof -
  have r: "\<exists>s0. views s0 v \<and> lwt_sys.more s0 = lwt_sys.more s \<and>
      (\<forall>s'. lwt_schedule s0 = Inr (Switched, s') \<longrightarrow> lwt_rcv_resume c s = Inr (Switched, s'))"
    if "cviews s v" for s
    using open_chanD(6) [OF o that] cviewsD(1) [OF that]
    by (intro exI [of _ s]) (simp add: lwt_rcv_resume_def waiting_schedules)
  show "wp cviews code main (Op (lwt_rcv_resume c) (lwt_rcv_resume c) kk) g k v Q"
    by (rule wp_op_switches [OF _ q l]) (rule r)
  have "\<exists>s0. views s0 v \<and> lwt_sys.more s0 = lwt_sys.more s \<and>
      (\<forall>s'. lwt_schedule s0 = Inr (Switched, s') \<longrightarrow> lwt_rcv c s = Inr (Switched, s'))"
    if "cviews s v" for s
    using r [OF views_rcving [OF that]] open_chanD(1,2) [OF o that] by (simp add: lwt_rcv_def)
  then show "wp cviews code main (Op (lwt_rcv c) (lwt_rcv_resume c) kk) g k v Q"
    by (rule wp_op_switches [OF _ q l])
qed


subsection \<open>Creating and releasing\<close>

lemma kalloc_take:
  assumes "kpool h A" and "kfits h (n + m)" and "0 < n" and "n \<le> PAGESIZE" and "0 < m"
  obtains p h' where "kalloc h n = Inr (p, h')" and "0 < p" and "block p n \<subseteq> A"
    and "kpool h' (A - block p n)" and "kfits h' m"
proof -
  have "kfits h n" by (rule kfits_mono [OF assms(2)]) (use assms(5) in simp)
  from kp.alloc_fits [OF assms(1,3,4) this] obtain p h' where
    "kalloc h n = Inr (p, h')" "0 < p" "block p n \<subseteq> A" "kpool h' (A - block p n)" by blast
  with kalloc_leaves [OF assms] show thesis by (intro that)
qed

definition CHAN_BYTES :: "int \<Rightarrow> int" where
  "CHAN_BYTES sz = SIZEOF_CHANNEL + (SIZEOF_RBUF + 4 * (if sz = 0 then 1025 else sz + 1))"

definition fresh_chan :: "int \<Rightarrow> u32 \<Rightarrow> addr \<Rightarrow> addr \<Rightarrow> lwt_channel \<Rightarrow> lwt_channel" where
  "fresh_chan sz i r t ch = ch\<lparr>c_size := sz, c_snd_cnt := 0, c_id := i, c_rbuf := r, c_rcv_thd := t,
     c_cgrp := NULL, c_mark := NULL\<rparr>"

definition a_chan :: "addr \<Rightarrow> addr \<Rightarrow> addr set \<Rightarrow> u32 \<Rightarrow> int \<Rightarrow> cview \<Rightarrow> cview" where
  "a_chan c r B i sz v =
     v\<lparr>v_free := B, cv_chan := (cv_chan v)(c := fresh_chan sz i r (hd (v_ring v)) (cv_chan v c)),
       cv_buf := (cv_buf v)(r \<mapsto> ([], if sz = 0 then 1024 else nat sz))\<rparr>"

definition call :: "('s \<Rightarrow> (addr \<times> 's) result) \<Rightarrow> 's \<Rightarrow> (addr outcome \<times> 's) result" where
  "call f s = rbind (f s) (\<lambda>(x, s'). Inr (Returned x, s'))"

definition proc :: "('s \<Rightarrow> 's result) \<Rightarrow> 's \<Rightarrow> (addr outcome \<times> 's) result" where
  "proc f s = rbind (f s) (\<lambda>s'. Inr (Returned NULL, s'))"

lemma chan_view:
  assumes v: "cviews s v" and sz: "0 \<le> sz" "sz < 1000000"
    and room: "room (v_free v) (CHAN_BYTES sz + m)" and m: "0 < m"
  shows "\<exists>c r B i s'. lwt_chan junk sz s = Inr (c, s') \<and> cviews s' (a_chan c r B i sz v) \<and> 0 < c \<and> 0 < r \<and>
    block c SIZEOF_CHANNEL \<subseteq> v_free v \<and> block r SIZEOF_RBUF \<subseteq> v_free v - block c SIZEOF_CHANNEL \<and>
    B \<subseteq> v_free v - block c SIZEOF_CHANNEL - block r SIZEOF_RBUF \<and> room B m"
proof -
  let ?w = "word_of_int sz :: u32"
  let ?cap = "if ?w = 0 then INFINITE_CAP + 1 else ?w + 1 :: u32"
  let ?b = "4 * (if sz = 0 then 1025 else sz + 1)"
  note dv = cviewsD [OF v] and w = viewsD [OF cviewsD(1) [OF v]]
  note cb = chan_bytes [OF sz]
  have z: "0 < SIZEOF_CHANNEL" "SIZEOF_CHANNEL \<le> PAGESIZE" "0 < ?b" "?b \<le> PAGESIZE" "0 < SIZEOF_RBUF"
    "SIZEOF_RBUF \<le> PAGESIZE" "0 < SIZEOF_RBUF + (?b + m)" "0 < ?b + m"
    using sz m by (auto simp: SIZEOF_CHANNEL_def SIZEOF_RBUF_def PAGESIZE_def)
  have "kfits (s_kheap s) (SIZEOF_CHANNEL + (SIZEOF_RBUF + (?b + m)))"
    using room z(1,7) room_fits [OF w(2), of "SIZEOF_CHANNEL + (SIZEOF_RBUF + (?b + m))"]
    unfolding CHAN_BYTES_def add.assoc by linarith
  from kalloc_take [OF w(2) this z(1,2,7)] obtain c h1 where
    c: "kalloc (s_kheap s) SIZEOF_CHANNEL = Inr (c, h1)" "0 < c" "block c SIZEOF_CHANNEL \<subseteq> v_free v"
      "kpool h1 (v_free v - block c SIZEOF_CHANNEL)" "kfits h1 (SIZEOF_RBUF + (?b + m))" .
  from kalloc_take [OF c(4,5) z(5,6,8)] obtain r h2 where
    r: "kalloc h1 SIZEOF_RBUF = Inr (r, h2)" "0 < r" "block r SIZEOF_RBUF \<subseteq> v_free v - block c SIZEOF_CHANNEL"
      "kpool h2 (v_free v - block c SIZEOF_CHANNEL - block r SIZEOF_RBUF)" "kfits h2 (?b + m)" .
  from kalloc_take [OF r(4,5) z(3,4) m] obtain a h3 where
    a: "kalloc h2 ?b = Inr (a, h3)" "0 < a"
      "kpool h3 (v_free v - block c SIZEOF_CHANNEL - block r SIZEOF_RBUF - block a ?b)" "kfits h3 m" .
  let ?B = "v_free v - block c SIZEOF_CHANNEL - block r SIZEOF_RBUF - block a ?b"
  let ?rb = "\<lparr>rb_buf = a, rb_mem = junk, rb_slots = nat ?b div 4, rb_head = 0, rb_tail = 0, rb_capacity = ?cap\<rparr>"
  have i: "rbuf_init h1 junk ?w = Inr ((r, ?rb), h3)"
    using r(1,2) a(1,2) cb(1) by (simp add: rbuf_init_def Let_def eq_commute [of 0])
  note ok = rbuf_init_ok [OF i cb(3)]
  let ?i = "lwt_chanid_counter s"
  let ?s = "(upd_chan c (\<lambda>ch. fresh_chan sz ?i r (current_thread s) ch) s)
    \<lparr>s_kheap := h3, s_rbuf := (s_rbuf s)(r := ?rb), lwt_chanid_counter := ?i + 1, n_chan := n_chan s + 1\<rparr>"
  have "lwt_chan junk sz s = Inr (c, ?s)"
    using sz(1) c(1,2) i by (simp add: lwt_chan_def upd_chan_def fresh_chan_def)
  moreover have "cviews ?s (a_chan c r ?B ?i sz v)"
  proof (rule cviewsI)
    show "views ?s (a_chan c r ?B ?i sz v)"
      using w a(3) by (simp add: views_def a_chan_def runq_def upd_chan_def)
    show "cv_chan (a_chan c r ?B ?i sz v) = s_chan ?s" "cv_msg (a_chan c r ?B ?i sz v) = s_msg ?s"
      using dv(2,3) w(7) by (simp_all add: a_chan_def upd_chan_def)
    obtain j where j: "sz = int j" using sz(1) by (metis nonneg_int_cases)
    have "unat (word_of_nat j :: u32) = j" using sz(2) j by (simp only: unat_of_nat) simp
    then have "unat ?w = nat sz" by (simp add: j)
    then have cap: "unat (rbuf_capacity ?rb) = (if sz = 0 then 1024 else nat sz)"
      using ok cb(2) sz by (auto simp: INFINITE_CAP_def)
    fix b ms n assume "cv_buf (a_chan c r ?B ?i sz v) b = Some (ms, n)"
    then show "rbuf_ok (s_rbuf ?s b) \<and> contents (s_rbuf ?s b) = ms \<and> unat (rbuf_capacity (s_rbuf ?s b)) = n"
      using ok cap dv(4-6) by (auto simp: a_chan_def split: if_splits)
  qed
  moreover have "room ?B m" using a(4) room_fits [OF a(3) m] by simp
  ultimately show ?thesis using c(2,3) r(2,3) by blast
qed

lemma wp_chan:
  assumes "0 \<le> sz" and "sz < 1000000" and "room (v_free v) (CHAN_BYTES sz + m)" and "0 < m"
    and next_wp: "\<And>c r B i. 0 < c \<Longrightarrow> 0 < r \<Longrightarrow> block c SIZEOF_CHANNEL \<subseteq> v_free v \<Longrightarrow>
      block r SIZEOF_RBUF \<subseteq> v_free v - block c SIZEOF_CHANNEL \<Longrightarrow>
      B \<subseteq> v_free v - block c SIZEOF_CHANNEL - block r SIZEOF_RBUF \<Longrightarrow> room B m \<Longrightarrow>
      wp cviews code main (kk c) g k (a_chan c r B i sz v) Q"
  shows "wp cviews code main (Op (call (lwt_chan junk sz)) r0 kk) g k v Q"
proof (rule wp_op_returns)
  show "wp_ret (call (lwt_chan junk sz)) kk code main g k v Q"
    unfolding wp_ret_def
  proof (intro allI impI)
    fix s assume v: "cviews s v"
    from chan_view [OF v assms(1-4), of junk] obtain c r B i s' where
      c: "lwt_chan junk sz s = Inr (c, s')" "cviews s' (a_chan c r B i sz v)" "0 < c" "0 < r"
        "block c SIZEOF_CHANNEL \<subseteq> v_free v" "block r SIZEOF_RBUF \<subseteq> v_free v - block c SIZEOF_CHANNEL"
        "B \<subseteq> v_free v - block c SIZEOF_CHANNEL - block r SIZEOF_RBUF" "room B m" by blast
    from next_wp [OF c(3-8)] c(1,2)
    show "\<exists>x s' v'. call (lwt_chan junk sz) s = Inr (Returned x, s') \<and> cviews s' v' \<and>
        wp cviews code main (kk x) g k v' Q" by (auto simp: call_def)
  qed
qed

definition a_cnt :: "(int \<Rightarrow> int) \<Rightarrow> addr \<Rightarrow> cview \<Rightarrow> cview" where
  "a_cnt f c v = v\<lparr>cv_chan := (cv_chan v)(c := (cv_chan v c)\<lparr>c_snd_cnt := f (c_snd_cnt (cv_chan v c))\<rparr>)\<rparr>"

lemma cnt_view:
  assumes "cviews s v"
  shows "cviews (upd_chan c (\<lambda>ch. ch\<lparr>c_snd_cnt := f (c_snd_cnt ch)\<rparr>) s) (a_cnt f c v)"
  using assms by (auto simp: cviews_def views_def runq_def a_cnt_def upd_chan_def)

text \<open>A reference is given back while the channel stays.\<close>

lemma wp_deref:
  assumes "c \<noteq> NULL" and "c_rcv_thd (cv_chan v c) = hd (v_ring v) \<Longrightarrow> c_snd_cnt (cv_chan v c) \<noteq> 0"
    and next_wp: "wp cviews code main (kk NULL) g k (a_cnt (\<lambda>n. n - 1) c v) Q"
  shows "wp cviews code main (Op (proc (lwt_chan_deref c)) r kk) g k v Q"
proof (rule wp_op_returns)
  have "lwt_chan_deref c s = Inr (upd_chan c (\<lambda>ch. ch\<lparr>c_snd_cnt := c_snd_cnt ch - 1\<rparr>) s)"
    if "cviews s v" for s
    using assms(1,2) cviewsD(2) [OF that] viewsD(7) [OF cviewsD(1) [OF that]]
    by (auto simp: lwt_chan_deref_def)
  with cnt_view [of _ v c "\<lambda>n. n - 1"] next_wp
  show "wp_ret (proc (lwt_chan_deref c)) kk code main g k v Q"
    by (simp add: wp_ret_def proc_def) blast
qed

lemma landing_goes_on: "landing code kk saved w q \<noteq> Inr None"
  by (auto simp: landing_def rbind_eq_Inr Let_def split: outcome.splits prod.splits)

text \<open>Sending a channel counts a sender of it first.\<close>

lemma wp_snd_chan:
  assumes "x \<noteq> NULL" and "wp cviews code main (Op (lwt_snd c x) r kk) g k (a_cnt (\<lambda>n. n + 1) x v) Q"
  shows "wp cviews code main (Op (lwt_snd_chan c x) r kk) g k v Q"
  unfolding wp_def
proof (intro allI impI)
  fix s assume v: "cviews s v"
  let ?s = "upd_chan x (\<lambda>ch. ch\<lparr>c_snd_cnt := c_snd_cnt ch + 1\<rparr>) s"
  have "lwt_snd_chan c x s = lwt_snd c x ?s" using assms(1) by (simp add: lwt_snd_chan_def)
  moreover have "current_thread ?s = current_thread s" by (simp add: upd_chan_def)
  ultimately have "pstep code main (Op (lwt_snd_chan c x) r kk) \<lparr>w_sys = s, w_glob = g, w_cont = k\<rparr> =
      pstep code main (Op (lwt_snd c x) r kk) \<lparr>w_sys = ?s, w_glob = g, w_cont = k\<rparr>"
    by (cases "lwt_snd c x ?s") (auto simp: landing_def split: outcome.splits)
  then have "exec code main (Op (lwt_snd_chan c x) r kk) \<lparr>w_sys = s, w_glob = g, w_cont = k\<rparr> =
      exec code main (Op (lwt_snd c x) r kk) \<lparr>w_sys = ?s, w_glob = g, w_cont = k\<rparr>"
    using landing_goes_on [of code kk "Op r r kk"] by (subst (1 2) exec.simps) (auto split: sum.splits option.splits)
  with assms(2) cnt_view [OF v, of x "\<lambda>n. n + 1"]
  show "\<exists>w v'. exec code main (Op (lwt_snd_chan c x) r kk) \<lparr>w_sys = s, w_glob = g, w_cont = k\<rparr> = Some (Inr w) \<and>
      cviews (w_sys w) v' \<and> Q v' (w_glob w)" unfolding wp_def by fastforce
qed


subsection \<open>What is on the way\<close>

text \<open>
  \<open>owing F ms A\<close>: of the free bytes \<open>F\<close>, the blocks of the messages \<open>ms\<close> are in use and the bytes \<open>A\<close>
  are left.
\<close>

fun owing :: "addr set \<Rightarrow> addr list \<Rightarrow> addr set \<Rightarrow> bool" where
  "owing F [] A \<longleftrightarrow> A = F"
| "owing F (m # ms) A \<longleftrightarrow> 0 < m \<and> block m SIZEOF_MSG \<inter> A = {} \<and> owing F ms (A \<union> block m SIZEOF_MSG)"

lemma owing_sub: "owing F ms A \<Longrightarrow> A \<subseteq> F"
  by (induction ms arbitrary: A) auto

lemma owing_more:
  "owing F ms A \<Longrightarrow> 0 < t \<Longrightarrow> block t SIZEOF_MSG \<subseteq> A \<Longrightarrow> owing F (ms @ [t]) (A - block t SIZEOF_MSG)"
proof (induction ms arbitrary: A)
  case (Cons m ms)
  let ?M = "block m SIZEOF_MSG" and ?T = "block t SIZEOF_MSG"
  have p: "0 < m" "?M \<inter> A = {}" "owing F ms (A \<union> ?M)" "?T \<subseteq> A" using Cons.prems by simp_all
  then have "?T \<subseteq> A \<union> ?M" by blast
  with Cons.IH p(3) Cons.prems(2) have "owing F (ms @ [t]) (A \<union> ?M - ?T)" by blast
  moreover have "A \<union> ?M - ?T = A - ?T \<union> ?M" using p(2,4) by blast
  moreover have "?M \<inter> (A - ?T) = {}" using p(2) by blast
  ultimately show ?case using p(1) by simp
next
  case Nil
  then have "A - block t SIZEOF_MSG \<union> block t SIZEOF_MSG = F" by auto
  with Nil show ?case by auto
qed

lemma owing_places:
  "owing F ms A \<Longrightarrow> places F (length ms + k) \<Longrightarrow> places A k"
proof (induction ms arbitrary: A k)
  case (Cons m ms)
  then have "places (A \<union> block m SIZEOF_MSG) (Suc k)" by simp
  then have "places (A \<union> block m SIZEOF_MSG - block m SIZEOF_MSG) k" by (rule places_take)
  moreover have "A \<union> block m SIZEOF_MSG - block m SIZEOF_MSG = A" using Cons.prems(1) by auto
  ultimately show ?case by simp
qed simp

lemma owing_new: "owing F ms A \<Longrightarrow> block t SIZEOF_MSG \<subseteq> A \<Longrightarrow> t \<notin> set ms"
proof (induction ms arbitrary: A)
  case (Cons m ms)
  have d: "block m SIZEOF_MSG \<inter> A = {}" using Cons.prems(1) by simp
  have "t \<in> A" using Cons.prems(2) start_in_block [OF SIZEOF_MSG_pos(1), of t] by blast
  then have "t \<noteq> m" using d start_in_block [OF SIZEOF_MSG_pos(1), of m] by blast
  moreover have "t \<notin> set ms"
    by (rule Cons.IH [of "A \<union> block m SIZEOF_MSG"]) (use Cons.prems in auto)
  ultimately show ?case by simp
qed simp

text \<open>The channel \<open>c\<close> holds the data \<open>ds\<close>, and nothing else is on the way.\<close>

definition queue :: "addr set \<Rightarrow> cview \<Rightarrow> addr \<Rightarrow> addr list \<Rightarrow> nat \<Rightarrow> bool" where
  "queue F v c ds n \<longleftrightarrow> (\<exists>ms. open_chan v c ms n \<and> owing F ms (v_free v) \<and>
     map (\<lambda>m. m_data (cv_msg v m)) ms = ds)"

text \<open>What a transfer over \<open>c\<close> leaves as it was.\<close>

definition kept :: "addr \<Rightarrow> cview \<Rightarrow> cview \<Rightarrow> bool" where
  "kept c v v' \<longleftrightarrow> v_ring v' = v_ring v \<and> v_thd v' = v_thd v \<and> v_run v' = v_run v \<and> v_zom v' = v_zom v \<and>
     v_blk v' = v_blk v \<and> (\<forall>x. c_rbuf (cv_chan v' x) = c_rbuf (cv_chan v x) \<and>
       c_rcv_thd (cv_chan v' x) = c_rcv_thd (cv_chan v x) \<and> c_snd_cnt (cv_chan v x) \<le> c_snd_cnt (cv_chan v' x)) \<and>
     (\<forall>b. b \<noteq> c_rbuf (cv_chan v c) \<longrightarrow> cv_buf v' b = cv_buf v b)"

lemma queue_sent:
  assumes "queue F v c ds n" and "0 < t" and "block t SIZEOF_MSG \<subseteq> v_free v"
  shows "queue F (a_snd c d t v) c (ds @ [d]) n" and "kept c v (a_snd c d t v)"
    and "c_snd_cnt (cv_chan (a_snd c d t v) c) = c_snd_cnt (cv_chan v c) + 1"
proof -
  from assms(1) obtain ms where q: "open_chan v c ms n" "owing F ms (v_free v)"
    "map (\<lambda>m. m_data (cv_msg v m)) ms = ds" by (auto simp: queue_def)
  have b: "cv_buf v (c_rbuf (cv_chan v c)) = Some (ms, n)" using q(1) by (simp add: open_chan_def)
  have "owing F (ms @ [t]) (v_free v - block t SIZEOF_MSG)" by (rule owing_more [OF q(2) assms(2,3)])
  moreover have "map (\<lambda>m. m_data (((cv_msg v)(t := \<lparr>m_data = d, m_thd = hd (v_ring v)\<rparr>)) m)) (ms @ [t]) = ds @ [d]"
    using q(3) owing_new [OF q(2) assms(3)] by auto
  ultimately show "queue F (a_snd c d t v) c (ds @ [d]) n" using q(1) b
    unfolding queue_def by (intro exI [of _ "ms @ [t]"]) (simp add: a_snd_def open_chan_def Let_def)
  show "kept c v (a_snd c d t v)" using b by (simp add: kept_def a_snd_def Let_def)
  show "c_snd_cnt (cv_chan (a_snd c d t v) c) = c_snd_cnt (cv_chan v c) + 1"
    using b by (simp add: a_snd_def Let_def)
qed

lemma queue_received:
  assumes "queue F v c (d # ds) n"
  obtains m ms where "open_chan v c (m # ms) n" and "0 < m" and "block m SIZEOF_MSG \<inter> v_free v = {}"
    and "fst (a_rcv c v) = d" and "queue F (snd (a_rcv c v)) c ds n" and "kept c v (snd (a_rcv c v))"
proof -
  from assms obtain m ms where q: "open_chan v c (m # ms) n" "owing F (m # ms) (v_free v)"
    "m_data (cv_msg v m) = d" "map (\<lambda>m. m_data (cv_msg v m)) ms = ds" by (auto simp: queue_def Cons_eq_map_conv)
  have b: "cv_buf v (c_rbuf (cv_chan v c)) = Some (m # ms, n)" using q(1) by (simp add: open_chan_def)
  show thesis
  proof (rule that [OF q(1)])
    show "0 < m" "block m SIZEOF_MSG \<inter> v_free v = {}" using q(2) by simp_all
    show "fst (a_rcv c v) = d" using b q(3) by (simp add: a_rcv_def Let_def)
    show "queue F (snd (a_rcv c v)) c ds n" using b q(1,2,4)
      unfolding queue_def by (intro exI [of _ ms]) (simp add: a_rcv_def open_chan_def Let_def)
    show "kept c v (snd (a_rcv c v))" using b by (simp add: kept_def a_rcv_def Let_def)
  qed
qed

lemma wp_send:
  assumes q: "queue F v c ds n" and "length ds < n" and "places F (Suc (length ds))" and "d \<noteq> NULL"
    and next_wp: "\<And>v'. queue F v' c (ds @ [d]) n \<Longrightarrow> kept c v v' \<Longrightarrow>
      c_snd_cnt (cv_chan v' c) = c_snd_cnt (cv_chan v c) + 1 \<Longrightarrow> wp cviews code main (kk 0) g k v' Q"
  shows "wp cviews code main (Op (lwt_snd_resume c d) r kk) g k v Q"
    and "wp cviews code main (Op (lwt_snd c d) r kk) g k v Q"
proof -
  from q obtain ms where ms: "open_chan v c ms n" "owing F ms (v_free v)" "length ms = length ds"
    by (auto simp: queue_def)
  have "places (v_free v) 1" by (rule owing_places [OF ms(2)]) (use assms(3) ms(3) in simp)
  then obtain p where p: "block p SIZEOF_MSG \<subseteq> v_free v" using places_one [OF _ zero_less_one] by blast
  have l: "length ms < n" using assms(2) ms(3) by simp
  note nx = next_wp [OF queue_sent [OF q]]
  show "wp cviews code main (Op (lwt_snd_resume c d) r kk) g k v Q"
    "wp cviews code main (Op (lwt_snd c d) r kk) g k v Q"
    using wp_snd [where kk = kk, OF ms(1) l p assms(4) nx] by blast+
qed

lemma wp_receive:
  assumes q: "queue F v c (d # ds) n"
    and next_wp: "\<And>v'. queue F v' c ds n \<Longrightarrow> kept c v v' \<Longrightarrow> wp cviews code main (kk d) g k v' Q"
  shows "wp cviews code main (Op (lwt_rcv_resume c) r kk) g k v Q"
    and "wp cviews code main (Op (lwt_rcv c) r kk) g k v Q"
proof -
  from queue_received [OF q] obtain m ms where
    m: "open_chan v c (m # ms) n" "0 < m" "block m SIZEOF_MSG \<inter> v_free v = {}" "fst (a_rcv c v) = d"
      "queue F (snd (a_rcv c v)) c ds n" "kept c v (snd (a_rcv c v))" .
  have "wp cviews code main (kk (fst (a_rcv c v))) g k (snd (a_rcv c v)) Q"
    using next_wp [OF m(5,6)] m(4) by simp
  from wp_rcv [where kk = kk, OF m(1-3) this] show "wp cviews code main (Op (lwt_rcv_resume c) r kk) g k v Q"
    "wp cviews code main (Op (lwt_rcv c) r kk) g k v Q" by blast+
qed

end
