(* ===== verification/ThreadLogic.thy ===== *)
theory ThreadLogic
  imports Client
begin

text \<open>
  A program logic for programs of threads that does not depend on which library runs them. The
  relation \<open>awp\<close> runs a program on the abstract view of \<open>LwtSpec\<close>, for every address that an allocator
  might choose for a new thread; its number is how many threads the program creates. That a library
  is \<open>adequate\<close>, that its runs do what \<open>awp\<close> says, is proved once: here for \<open>lwt.c\<close>, in \<open>ClientDev\<close> for
  the port.
\<close>

subsection \<open>Symbolic runs\<close>

text \<open>Where a run goes on after an operation of the abstract view with the outcome \<open>q\<close>.\<close>

definition go_on :: "('z lwt_sys_scheme, 'g) text_segment \<Rightarrow> ('a \<Rightarrow> ('z lwt_sys_scheme, 'g) prog) \<Rightarrow>
    ('z lwt_sys_scheme, 'g) prog \<Rightarrow> (addr \<Rightarrow> ('z lwt_sys_scheme, 'g) prog) \<Rightarrow> view \<Rightarrow> 'a outcome \<times> view \<Rightarrow>
    ('z lwt_sys_scheme, 'g) prog \<times> (addr \<Rightarrow> ('z lwt_sys_scheme, 'g) prog)" where
  "go_on code kk saved k v q =
     (let w = snd q in case fst q of
        Returned x \<Rightarrow> (kk x, k)
      | Switched \<Rightarrow>
          let z = hd (v_ring w); k1 = k(hd (v_ring v) := saved)
          in (if t_ip (v_thd v z) = Trampoline then code (t_fn (v_thd w z)) (t_data (v_thd w z)) else k1 z, k1))"

definition joinable :: "view \<Rightarrow> bool" where
  "joinable v \<longleftrightarrow> t_flag (v_thd v (hd (v_ring v))) = LWT_DEFAULT"

text \<open>The three counters are what an assertion of a program looks at.\<close>

definition counters :: "view \<Rightarrow> 'z lwt_sys_scheme \<Rightarrow> bool" where
  "counters v s \<longleftrightarrow> v_run v = n_runnable s \<and> v_zom v = n_zombies s \<and> v_blk v = n_blocked s"

inductive awp :: "('z lwt_sys_scheme, 'g) text_segment \<Rightarrow> addr \<Rightarrow> (view \<Rightarrow> 'g \<Rightarrow> bool) \<Rightarrow> nat \<Rightarrow>
    ('z lwt_sys_scheme, 'g) prog \<Rightarrow> 'g \<Rightarrow> (addr \<Rightarrow> ('z lwt_sys_scheme, 'g) prog) \<Rightarrow> view \<Rightarrow> bool"
  for code :: "('z lwt_sys_scheme, 'g) text_segment" and main :: addr and Q :: "view \<Rightarrow> 'g \<Rightarrow> bool"
where
  aw_done: "hd (v_ring v) = main \<Longrightarrow> Q v g \<Longrightarrow> awp code main Q 0 (Done x) g k v"
| aw_exit: "hd (v_ring v) \<noteq> main \<Longrightarrow> joinable v \<Longrightarrow> a_die x v = Some q \<Longrightarrow>
    go_on code (\<lambda>_. Crash) Crash k v q = (p', k') \<Longrightarrow> awp code main Q n p' g k' (snd q) \<Longrightarrow>
    awp code main Q n (Done x) g k v"
| aw_die: "joinable v \<Longrightarrow> a_die x v = Some q \<Longrightarrow>
    go_on code (\<lambda>_. Crash) Crash k v q = (p', k') \<Longrightarrow> awp code main Q n p' g k' (snd q) \<Longrightarrow>
    awp code main Q n (Die x) g k v"
| aw_yield: "a_yield t v = Some q \<Longrightarrow> go_on code (\<lambda>_. p) p k v q = (p', k') \<Longrightarrow>
    awp code main Q n p' g k' (snd q) \<Longrightarrow> awp code main Q n (Yield t p) g k v"
| aw_join: "a_target t v \<Longrightarrow> a_lwt_join t v = Some q \<Longrightarrow> go_on code kk (Joining t kk) k v q = (p', k') \<Longrightarrow>
    awp code main Q n p' g k' (snd q) \<Longrightarrow> awp code main Q n (Join t kk) g k v"
| aw_joining: "a_target t v \<Longrightarrow> a_join_resume t v = Some q \<Longrightarrow> go_on code kk (Joining t kk) k v q = (p', k') \<Longrightarrow>
    awp code main Q n p' g k' (snd q) \<Longrightarrow> awp code main Q n (Joining t kk) g k v"
| aw_check: "(\<And>s. counters v s \<Longrightarrow> b s g) \<Longrightarrow> awp code main Q n p g k v \<Longrightarrow> awp code main Q n (Check b p) g k v"
| aw_act: "awp code main Q n p (f g) k v \<Longrightarrow> awp code main Q n (Act f p) g k v"
| aw_load: "awp code main Q n (kk g) g k v \<Longrightarrow> awp code main Q n (Load kk) g k v"
| aw_create: "room (v_free v) SIZEOF_LWT \<Longrightarrow> set (v_ring v) \<inter> v_free v = {} \<Longrightarrow>
    (\<And>t. 0 < t \<Longrightarrow> t \<notin> set (v_ring v) \<Longrightarrow> block t SIZEOF_LWT \<subseteq> v_free v \<Longrightarrow>
      \<forall>m. 0 < m \<longrightarrow> room (v_free v) (SIZEOF_LWT + m) \<longrightarrow> room (v_free v - block t SIZEOF_LWT) m \<Longrightarrow>
      awp code main Q n (kk t) g k (a_create t fn d LWT_DEFAULT v)) \<Longrightarrow>
    awp code main Q (Suc n) (Create fn d LWT_DEFAULT kk) g k v"

text \<open>The rules as the proofs use them.\<close>

definition alands :: "nat \<Rightarrow> ('z lwt_sys_scheme, 'g) text_segment \<Rightarrow> addr \<Rightarrow> ('a \<Rightarrow> ('z lwt_sys_scheme, 'g) prog) \<Rightarrow>
    ('z lwt_sys_scheme, 'g) prog \<Rightarrow> 'g \<Rightarrow> (addr \<Rightarrow> ('z lwt_sys_scheme, 'g) prog) \<Rightarrow> view \<Rightarrow>
    (view \<Rightarrow> 'g \<Rightarrow> bool) \<Rightarrow> 'a outcome \<times> view \<Rightarrow> bool" where
  "alands n code main kk saved g k v Q q =
     (let w = snd q in case fst q of
        Returned x \<Rightarrow> awp code main Q n (kk x) g k w
      | Switched \<Rightarrow>
          let z = hd (v_ring w); k1 = k(hd (v_ring v) := saved);
              p = (if t_ip (v_thd v z) = Trampoline then code (t_fn (v_thd w z)) (t_data (v_thd w z))
                   else k1 z)
          in awp code main Q n p g k1 w)"

lemma alands_go_on:
  "alands n code main kk saved g k v Q q \<longleftrightarrow>
     (case go_on code kk saved k v q of (p', k') \<Rightarrow> awp code main Q n p' g k' (snd q))"
  by (auto simp: alands_def go_on_def Let_def split: outcome.splits)

lemma wl_exit:
  "hd (v_ring v) \<noteq> main \<Longrightarrow> joinable v \<Longrightarrow> a_die x v = Some q \<Longrightarrow>
     alands n code main (\<lambda>_. Crash) Crash g k v Q q \<Longrightarrow> awp code main Q n (Done x) g k v"
  by (auto simp: alands_go_on intro: aw_exit split: prod.splits)

lemma wl_die:
  "joinable v \<Longrightarrow> a_die x v = Some q \<Longrightarrow> alands n code main (\<lambda>_. Crash) Crash g k v Q q \<Longrightarrow>
     awp code main Q n (Die x) g k v"
  by (auto simp: alands_go_on intro: aw_die split: prod.splits)

lemma wl_yield:
  "a_yield t v = Some q \<Longrightarrow> alands n code main (\<lambda>_. p) p g k v Q q \<Longrightarrow> awp code main Q n (Yield t p) g k v"
  by (auto simp: alands_go_on intro: aw_yield split: prod.splits)

lemma wl_join:
  "a_target t v \<Longrightarrow> a_lwt_join t v = Some q \<Longrightarrow> alands n code main kk (Joining t kk) g k v Q q \<Longrightarrow>
     awp code main Q n (Join t kk) g k v"
  by (auto simp: alands_go_on intro: aw_join split: prod.splits)

lemma wl_joining:
  "a_target t v \<Longrightarrow> a_join_resume t v = Some q \<Longrightarrow> alands n code main kk (Joining t kk) g k v Q q \<Longrightarrow>
     awp code main Q n (Joining t kk) g k v"
  by (auto simp: alands_go_on intro: aw_joining split: prod.splits)

lemma wl_counts:
  "v_zom v = i \<Longrightarrow> awp code main Q n p g k v \<Longrightarrow> awp code main Q n (Check (\<lambda>s _. n_zombies s = i) p) g k v"
  "v_run v = i \<Longrightarrow> awp code main Q n p g k v \<Longrightarrow> awp code main Q n (Check (\<lambda>s _. n_runnable s = i) p) g k v"
  "c g \<Longrightarrow> awp code main Q n p g k v \<Longrightarrow> awp code main Q n (Check (\<lambda>_ g. c g) p) g k v"
  by (auto intro!: aw_check simp: counters_def)

lemmas wl_rules = wl_yield wl_join wl_joining wl_exit wl_die wl_counts aw_act aw_load

subsection \<open>lwt.c is adequate\<close>

lemma lands_go_on:
  "lands R code main kk saved g k v Q q \<longleftrightarrow>
     (case go_on code kk saved k v q of (p', k') \<Rightarrow> wp R code main p' g k' (snd q) Q)"
  by (auto simp: lands_def go_on_def Let_def split: outcome.splits)

theorem awp_lwt:
  "awp code main Q n p g k v \<Longrightarrow> wp (views :: lwt_sys \<Rightarrow> view \<Rightarrow> bool) code main p g k v Q"
proof (induction rule: awp.induct)
  case (aw_done v g x k)
  then show ?case by (rule th.wp_done)
next
  case (aw_exit v x q k p' k' n g)
  show ?case by (rule th.wp_exit) (use aw_exit in \<open>auto simp: lands_go_on split: prod.splits\<close>)
next
  case (aw_die v x q k p' k' n g)
  show ?case by (rule th.wp_die) (use aw_die in \<open>auto simp: lands_go_on split: prod.splits\<close>)
next
  case (aw_yield t v q p k p' k' n g)
  show ?case by (rule th.wp_yield) (use aw_yield in \<open>auto simp: lands_go_on split: prod.splits\<close>)
next
  case (aw_join t v q kk k p' k' n g)
  show ?case by (rule th.wp_join) (use aw_join in \<open>auto simp: lands_go_on split: prod.splits\<close>)
next
  case (aw_joining t v q kk k p' k' n g)
  show ?case by (rule th.wp_joining) (use aw_joining in \<open>auto simp: lands_go_on split: prod.splits\<close>)
next
  case (aw_check v b g n p k)
  then show ?case by (intro th.wp_check) (auto simp: counters_def viewsD)
next
  case (aw_act n p f g k v)
  then show ?case by (intro th.wp_act)
next
  case (aw_load n kk g k v)
  then show ?case by (intro th.wp_load)
next
  case (aw_create v n kk g k fn d)
  then show ?case by (intro th.wp_create)
qed

end
