(* ===== verification/TestThreads.thy ===== *)
theory TestThreads
  imports ThreadLogic MachineRuns
begin

text \<open>
  The tests of threads in \<open>main.c\<close>, \<open>test_perf\<close> and \<open>test_crt_join_sched\<close>, as programs of \<open>Client\<close>.
  Reading the time stamp counter and printing have no effect on the library and are left out.
  \<open>junk\<close> is what a function that ends without a return statement returns.
\<close>

subsection \<open>The code\<close>

record glob =
  g_sched :: "nat \<Rightarrow> int"
  g_curr :: nat

definition ITER :: nat where
  "ITER = 10000"

definition FN_NULL :: addr where "FN_NULL = 1"
definition FN_BOUNCE :: addr where "FN_BOUNCE = 2"
definition FN_IDENTITY :: addr where "FN_IDENTITY = 3"
definition FN_NESTED_JOINS :: addr where "FN_NESTED_JOINS = 4"
definition FN_SEQUENCE :: addr where "FN_SEQUENCE = 5"
definition FN_JOIN :: addr where "FN_JOIN = 6"

lemmas FN_defs = FN_NULL_def FN_BOUNCE_def FN_IDENTITY_def FN_NESTED_JOINS_def FN_SEQUENCE_def FN_JOIN_def

definition IS_RESET :: "('z lwt_sys_scheme, glob) prog \<Rightarrow> ('z lwt_sys_scheme, glob) prog" where
  "IS_RESET p = Check (\<lambda>s _. n_runnable s = 1 \<and> n_zombies s = 0 \<and> n_blocked s = 0) p"

fun yield_loop :: "nat \<Rightarrow> ('z lwt_sys_scheme, glob) prog \<Rightarrow> ('z lwt_sys_scheme, glob) prog" where
  "yield_loop 0 p = p"
| "yield_loop (Suc n) p = Yield NULL (yield_loop n p)"

definition fn_bounce :: "addr \<Rightarrow> ('z lwt_sys_scheme, glob) prog" where
  "fn_bounce d = Yield NULL (Yield NULL (yield_loop ITER (Yield NULL (Yield NULL (Done NULL)))))"

definition fn_null :: "addr \<Rightarrow> ('z lwt_sys_scheme, glob) prog" where
  "fn_null d = Done NULL"

definition fn_identity :: "addr \<Rightarrow> ('z lwt_sys_scheme, glob) prog" where
  "fn_identity d = Done d"

definition fn_nested_joins :: "addr \<Rightarrow> addr \<Rightarrow> ('z lwt_sys_scheme, glob) prog" where
  "fn_nested_joins junk d =
     (if d \<noteq> NULL then
        Yield NULL (Yield NULL (Check (\<lambda>s _. n_runnable s = 1) (Die NULL)))
      else Create FN_NESTED_JOINS 1 LWT_DEFAULT (\<lambda>chld. Join chld (\<lambda>_. Done junk)))"

fun sequence_loop :: "nat \<Rightarrow> int \<Rightarrow> ('z lwt_sys_scheme, glob) prog" where
  "sequence_loop 0 val = Done NULL"
| "sequence_loop (Suc n) val =
     Load (\<lambda>g. let other = g_curr g in
       Act (\<lambda>g. g\<lparr>g_curr := (g_curr g + 1) mod 2\<rparr>)
      (Act (\<lambda>g. g\<lparr>g_sched := (g_sched g)(g_curr g := val)\<rparr>)
      (Check (\<lambda>_ g. g_sched g other \<noteq> val)
      (Yield NULL (sequence_loop n val)))))"

definition fn_sequence :: "addr \<Rightarrow> ('z lwt_sys_scheme, glob) prog" where
  "fn_sequence d = sequence_loop ITER d"

definition fn_join :: "addr \<Rightarrow> addr \<Rightarrow> ('z lwt_sys_scheme, glob) prog" where
  "fn_join junk d = Join d (\<lambda>r. Check (\<lambda>_ _. r = 0x37337) (Done junk))"

definition main_code :: "addr \<Rightarrow> ('z lwt_sys_scheme, glob) text_segment" where
  "main_code junk f d =
     (if f = FN_NULL then fn_null d
      else if f = FN_BOUNCE then fn_bounce d
      else if f = FN_IDENTITY then fn_identity d
      else if f = FN_NESTED_JOINS then fn_nested_joins junk d
      else if f = FN_SEQUENCE then fn_sequence d
      else if f = FN_JOIN then fn_join junk d
      else Crash)"

fun fork_join_loop :: "nat \<Rightarrow> ('z lwt_sys_scheme, glob) prog \<Rightarrow> ('z lwt_sys_scheme, glob) prog" where
  "fork_join_loop 0 p = p"
| "fork_join_loop (Suc n) p =
     Create FN_NULL NULL LWT_DEFAULT (\<lambda>chld1. Join chld1 (\<lambda>_. fork_join_loop n p))"

definition test_perf :: "('z lwt_sys_scheme, glob) prog \<Rightarrow> ('z lwt_sys_scheme, glob) prog" where
  "test_perf p =
     fork_join_loop ITER (IS_RESET (
     Create FN_BOUNCE 1 LWT_DEFAULT (\<lambda>chld1.
     Create FN_BOUNCE NULL LWT_DEFAULT (\<lambda>chld2.
     Join chld1 (\<lambda>_.
     Join chld2 (\<lambda>_.
     IS_RESET p))))))"

definition test_sequence :: "('z lwt_sys_scheme, glob) prog \<Rightarrow> ('z lwt_sys_scheme, glob) prog" where
  "test_sequence p =
     Create FN_SEQUENCE 1 LWT_DEFAULT (\<lambda>chld1.
     Create FN_SEQUENCE 2 LWT_DEFAULT (\<lambda>chld2.
     Join chld2 (\<lambda>_. Join chld1 (\<lambda>_. IS_RESET p))))"

definition test_joins :: "('z lwt_sys_scheme, glob) prog \<Rightarrow> ('z lwt_sys_scheme, glob) prog" where
  "test_joins p =
     Create FN_NULL NULL LWT_DEFAULT (\<lambda>chld1. Join chld1 (\<lambda>_. IS_RESET (
     Create FN_NULL NULL LWT_DEFAULT (\<lambda>chld1. Yield NULL (Join chld1 (\<lambda>_. IS_RESET (
     Create FN_NESTED_JOINS NULL LWT_DEFAULT (\<lambda>chld1. Join chld1 (\<lambda>_. IS_RESET p)))))))))"

definition test_parents :: "('z lwt_sys_scheme, glob) prog \<Rightarrow> ('z lwt_sys_scheme, glob) prog" where
  "test_parents p =
     Create FN_IDENTITY 0x37337 LWT_DEFAULT (\<lambda>chld1.
     Create FN_JOIN chld1 LWT_DEFAULT (\<lambda>chld2.
     Yield NULL (Yield NULL (Join chld2 (\<lambda>_. IS_RESET p)))))"

definition test_data_and_yield :: "('z lwt_sys_scheme, glob) prog \<Rightarrow> ('z lwt_sys_scheme, glob) prog" where
  "test_data_and_yield p =
     Create FN_IDENTITY 0x37337 LWT_DEFAULT (\<lambda>chld1.
     Join chld1 (\<lambda>r. Check (\<lambda>_ _. 0x37337 = r) (IS_RESET (
     Create FN_NULL NULL LWT_DEFAULT (\<lambda>chld1.
     Yield chld1 (Check (\<lambda>s _. n_zombies s = 1)
     (Join chld1 (\<lambda>_. IS_RESET p))))))))"

definition test_crt_join_sched :: "('z lwt_sys_scheme, glob) prog \<Rightarrow> ('z lwt_sys_scheme, glob) prog" where
  "test_crt_join_sched p =
     Yield NULL (test_sequence (test_joins (test_parents (test_data_and_yield p))))"

subsection \<open>Quiet states\<close>

text \<open>Only the first thread is left, and no structure names itself as its joiner.\<close>

definition quiet :: "addr \<Rightarrow> addr set \<Rightarrow> view \<Rightarrow> bool" where
  "quiet main A v \<longleftrightarrow> v_ring v = [main] \<and> v_free v = A \<and> a_ready v main \<and> v_run v = 1 \<and>
     v_zom v = 0 \<and> v_blk v = 0 \<and> (\<forall>u. u \<noteq> NULL \<longrightarrow> t_jf (v_thd v u) \<noteq> u)"

definition stage :: "addr \<Rightarrow> addr set \<Rightarrow> bool" where
  "stage main A \<longleftrightarrow> main \<noteq> NULL \<and> main \<notin> A \<and> room A (SIZEOF_LWT + SIZEOF_LWT)"

lemma quietE:
  assumes "quiet main A v"
  obtains T where "v = \<lparr>v_ring = [main], v_free = A, v_thd = T, v_run = 1, v_zom = 0, v_blk = 0\<rparr>"
    and "t_state (T main) = RUNNABLE" and "\<And>u. u \<noteq> NULL \<Longrightarrow> t_jf (T u) \<noteq> u"
  using assms by (cases v) (auto simp: quiet_def)

abbreviation twp where
  "twp m code main p g k v Q \<equiv> awp code main Q m p g k v"

lemma wp_reset:
  "v_run v = 1 \<Longrightarrow> v_zom v = 0 \<Longrightarrow> v_blk v = 0 \<Longrightarrow> twp m code main p g k v Q \<Longrightarrow>
     twp m code main (IS_RESET p) g k v Q"
  unfolding IS_RESET_def by (rule aw_check) (simp_all add: counters_def)

lemmas wp_rules = wl_rules wp_reset

lemmas a_defs = a_yield_def a_schedule_def a_goto.simps a_switch_def a_lwt_join_def a_join_resume_def
  a_die_def a_reap_def a_target_def a_create_def a_set_def alands_def joinable_def Let_def

lemma stage_room: "stage main A \<Longrightarrow> room A SIZEOF_LWT"
  by (auto simp: stage_def SIZEOF_LWT_def intro: room_mono)

lemma wp_create1:
  assumes "stage main A" and "v_free v = A" and "v_ring v = [main]"
    and "\<And>t. 0 < t \<Longrightarrow> t \<noteq> main \<Longrightarrow> t \<noteq> NULL \<Longrightarrow> block t SIZEOF_LWT \<subseteq> A \<Longrightarrow>
      room (A - block t SIZEOF_LWT) SIZEOF_LWT \<Longrightarrow> twp m code main (kk t) g k (a_create t fn d LWT_DEFAULT v) Q"
  shows "twp (Suc m) code main (Create fn d LWT_DEFAULT kk) g k v Q"
proof (rule aw_create)
  show "room (v_free v) SIZEOF_LWT" using stage_room assms(1,2) by simp
  show "set (v_ring v) \<inter> v_free v = {}" using assms(1-3) by (simp add: stage_def)
  fix t assume t: "0 < t" "t \<notin> set (v_ring v)" "block t SIZEOF_LWT \<subseteq> v_free v"
    "\<forall>n. 0 < n \<longrightarrow> room (v_free v) (SIZEOF_LWT + n) \<longrightarrow> room (v_free v - block t SIZEOF_LWT) n"
  have "room (A - block t SIZEOF_LWT) SIZEOF_LWT"
    using t(4) assms(1,2) by (simp add: stage_def SIZEOF_LWT_def)
  with t(1-3) assms(2,3) show "twp m code main (kk t) g k (a_create t fn d LWT_DEFAULT v) Q"
    by (intro assms(4)) auto
qed

text \<open>Creating one thread in a quiet state, and a second one after it.\<close>

lemma quiet_create:
  assumes st: "stage main A" and q: "quiet main A v"
    and next_wp: "\<And>t T. 0 < t \<Longrightarrow> t \<noteq> main \<Longrightarrow> main \<noteq> t \<Longrightarrow> t \<noteq> NULL \<Longrightarrow> main \<noteq> NULL \<Longrightarrow>
      block t SIZEOF_LWT \<subseteq> A \<Longrightarrow> A \<union> block t SIZEOF_LWT = A \<Longrightarrow> main \<notin> A \<Longrightarrow>
      room (A - block t SIZEOF_LWT) SIZEOF_LWT \<Longrightarrow>
      t_state (T main) = RUNNABLE \<Longrightarrow> (\<And>u. u \<noteq> NULL \<Longrightarrow> t_jf (T u) \<noteq> u) \<Longrightarrow> t \<noteq> t_jf (T t) \<Longrightarrow>
      twp m code main (kk t) g k \<lparr>v_ring = [main, t], v_free = A - block t SIZEOF_LWT,
        v_thd = T(t := (T t)\<lparr>t_state := RUNNABLE, t_fn := fn, t_data := d, t_flag := LWT_DEFAULT, t_ip := Trampoline\<rparr>),
        v_run = 2, v_zom = 1, v_blk = 0\<rparr> Q"
  shows "twp (Suc m) code main (Create fn d LWT_DEFAULT kk) g k v Q"
proof (rule wp_create1 [OF st])
  from q show "v_free v = A" "v_ring v = [main]" by (simp_all add: quiet_def)
  fix t assume t: "0 < t" "t \<noteq> main" "t \<noteq> NULL" "block t SIZEOF_LWT \<subseteq> A"
    "room (A - block t SIZEOF_LWT) SIZEOF_LWT"
  from quietE [OF q] obtain T where
    v: "v = \<lparr>v_ring = [main], v_free = A, v_thd = T, v_run = 1, v_zom = 0, v_blk = 0\<rparr>"
    and T: "t_state (T main) = RUNNABLE" "\<And>u. u \<noteq> NULL \<Longrightarrow> t_jf (T u) \<noteq> u" by blast
  have B: "A \<union> block t SIZEOF_LWT = A" using t(4) by blast
  have m: "main \<noteq> t" "main \<noteq> NULL" "main \<notin> A" using st t(2) by (auto simp: stage_def)
  have s: "t \<noteq> t_jf (T t)" using T(2) [OF t(3)] by simp
  from next_wp [OF t(1,2) m(1) t(3) m(2) t(4) B m(3) t(5) T s]
  show "twp m code main (kk t) g k (a_create t fn d LWT_DEFAULT v) Q" by (simp add: v a_create_def a_set_def)
qed

lemma pair_create:
  assumes rs: "set rs = {main, c}" and "room (A - block c SIZEOF_LWT) SIZEOF_LWT" and "main \<notin> A" and "block c SIZEOF_LWT \<subseteq> A"
    and self: "\<And>u. u \<noteq> NULL \<Longrightarrow> t_jf (T u) \<noteq> u"
    and next_wp: "\<And>t. 0 < t \<Longrightarrow> t \<noteq> main \<Longrightarrow> main \<noteq> t \<Longrightarrow> t \<noteq> c \<Longrightarrow> c \<noteq> t \<Longrightarrow> t \<noteq> NULL \<Longrightarrow> t \<noteq> t_jf (T t) \<Longrightarrow>
      A - block c SIZEOF_LWT - block t SIZEOF_LWT \<union> block t SIZEOF_LWT \<union> block c SIZEOF_LWT = A \<Longrightarrow>
      A - block c SIZEOF_LWT - block t SIZEOF_LWT \<union> block c SIZEOF_LWT \<union> block t SIZEOF_LWT = A \<Longrightarrow>
      block t SIZEOF_LWT \<subseteq> A \<Longrightarrow> block c SIZEOF_LWT \<inter> block t SIZEOF_LWT = {} \<Longrightarrow> block t SIZEOF_LWT \<inter> block c SIZEOF_LWT = {} \<Longrightarrow>
      twp m code main (kk t) g k \<lparr>v_ring = rs @ [t], v_free = A - block c SIZEOF_LWT - block t SIZEOF_LWT,
        v_thd = T(t := (T t)\<lparr>t_state := RUNNABLE, t_fn := fn, t_data := d, t_flag := LWT_DEFAULT, t_ip := Trampoline\<rparr>),
        v_run = r + 1, v_zom = z + 1, v_blk = b\<rparr> Q"
  shows "twp (Suc m) code main (Create fn d LWT_DEFAULT kk) g k \<lparr>v_ring = rs, v_free = A - block c SIZEOF_LWT,
    v_thd = T, v_run = r, v_zom = z, v_blk = b\<rparr> Q"
proof (rule aw_create)
  have c: "c \<in> block c SIZEOF_LWT" by (simp add: SIZEOF_LWT_def)
  show "room (v_free \<lparr>v_ring = rs, v_free = A - block c SIZEOF_LWT, v_thd = T, v_run = r,
      v_zom = z, v_blk = b\<rparr>) SIZEOF_LWT" using assms(2) by simp
  show "set (v_ring \<lparr>v_ring = rs, v_free = A - block c SIZEOF_LWT, v_thd = T, v_run = r,
      v_zom = z, v_blk = b\<rparr>) \<inter> v_free \<lparr>v_ring = rs, v_free = A - block c SIZEOF_LWT, v_thd = T,
      v_run = r, v_zom = z, v_blk = b\<rparr> = {}" using c assms(3) rs by simp
  fix t assume t: "0 < t" "t \<notin> set (v_ring \<lparr>v_ring = rs, v_free = A - block c SIZEOF_LWT,
      v_thd = T, v_run = r, v_zom = z, v_blk = b\<rparr>)" "block t SIZEOF_LWT \<subseteq> v_free \<lparr>v_ring = rs,
      v_free = A - block c SIZEOF_LWT, v_thd = T, v_run = r, v_zom = z, v_blk = b\<rparr>"
  have b: "block t SIZEOF_LWT \<subseteq> A - block c SIZEOF_LWT" using t(3) by simp
  show "twp m code main (kk t) g k (a_create t fn d LWT_DEFAULT \<lparr>v_ring = rs, v_free = A - block c SIZEOF_LWT,
      v_thd = T, v_run = r, v_zom = z, v_blk = b\<rparr>) Q"
    unfolding a_create_def a_set_def
  proof (simp, rule next_wp)
    show "t \<noteq> t_jf (T t)" using self [of t] t(1) by simp
  qed (use t(1,2) b assms(4) rs in \<open>auto simp del: block_def\<close>)
qed

subsection \<open>The tests pass\<close>

lemma fork_join_wp:
  assumes st: "stage main A" and q: "quiet main A v" and code: "code fn d = Done r"
    and next_wp: "\<And>w l. quiet main A w \<Longrightarrow> twp m code main (kk r) g l w Q"
  shows "twp (Suc m) code main (Create fn d LWT_DEFAULT (\<lambda>t. Join t kk)) g k v Q"
  by (rule quiet_create [OF st q]) (rule next_wp wp_rules | simp add: a_defs quiet_def code)+

lemma fork_join_loop_wp:
  assumes st: "stage main A" and q: "quiet main A v"
    and next_wp: "\<And>w l. quiet main A w \<Longrightarrow> twp m (main_code junk) main p g l w Q"
  shows "twp (n + m) (main_code junk) main (fork_join_loop n p) g k v Q"
  using q
proof (induction n arbitrary: v k)
  case 0
  then show ?case by (simp add: next_wp)
next
  case (Suc n)
  note fj = fork_join_wp [where code = "main_code junk" and fn = FN_NULL and d = NULL and r = NULL,
      OF st Suc.prems]
  show ?case by (simp, rule fj) (simp_all add: main_code_def fn_null_def Suc.IH)
qed

lemma quiet_reset: "quiet main A v \<Longrightarrow> twp m code main p g k v Q \<Longrightarrow> twp m code main (IS_RESET p) g k v Q"
  by (rule wp_reset) (simp_all add: quiet_def)

lemma code_null: "main_code junk FN_NULL d = Done NULL"
  and code_identity: "main_code junk FN_IDENTITY d = Done d"
  and code_nested: "main_code junk FN_NESTED_JOINS d = fn_nested_joins junk d"
  and code_join: "main_code junk FN_JOIN d = fn_join junk d"
  and code_sequence: "main_code junk FN_SEQUENCE d = fn_sequence d"
  and code_bounce: "main_code junk FN_BOUNCE d = fn_bounce d"
  by (simp_all add: main_code_def FN_defs fn_null_def fn_identity_def)

lemmas codes = code_null code_identity code_nested code_join code_sequence code_bounce

lemma directed_yield_wp:
  assumes st: "stage main A" and q: "quiet main A v"
    and next_wp: "\<And>w l. quiet main A w \<Longrightarrow> twp m (main_code junk) main p g l w Q"
  shows "twp (Suc m) (main_code junk) main (Create FN_NULL NULL LWT_DEFAULT (\<lambda>c. Yield c
    (Check (\<lambda>s _. n_zombies s = 1) (Join c (\<lambda>_. IS_RESET p))))) g k v Q"
  by (rule quiet_create [OF st q]) (rule next_wp wp_rules | simp add: a_defs quiet_def codes)+

lemma late_join_wp:
  assumes st: "stage main A" and q: "quiet main A v"
    and next_wp: "\<And>w l. quiet main A w \<Longrightarrow> twp m (main_code junk) main p g l w Q"
  shows "twp (Suc m) (main_code junk) main (Create FN_NULL NULL LWT_DEFAULT (\<lambda>c. Yield NULL
    (Join c (\<lambda>_. IS_RESET p)))) g k v Q"
  by (rule quiet_create [OF st q]) (rule next_wp wp_rules | simp add: a_defs quiet_def codes)+

lemma nested_joins_wp:
  assumes st: "stage main A" and q: "quiet main A v"
    and next_wp: "\<And>w l. quiet main A w \<Longrightarrow> twp m (main_code junk) main p g l w Q"
  shows "twp (Suc (Suc m)) (main_code junk) main (Create FN_NESTED_JOINS NULL LWT_DEFAULT
    (\<lambda>c. Join c (\<lambda>_. IS_RESET p))) g k v Q"
proof (rule quiet_create [OF st q])
  fix t and T :: "addr \<Rightarrow> thd"
  assume f: "0 < t" "t \<noteq> main" "main \<noteq> t" "t \<noteq> NULL" "main \<noteq> NULL" "block t SIZEOF_LWT \<subseteq> A"
    "A \<union> block t SIZEOF_LWT = A" "main \<notin> A" "room (A - block t SIZEOF_LWT) SIZEOF_LWT"
    "t_state (T main) = RUNNABLE" "\<And>u. u \<noteq> NULL \<Longrightarrow> t_jf (T u) \<noteq> u" "t \<noteq> t_jf (T t)"
  show "twp (Suc m) (main_code junk) main (Join t (\<lambda>_. IS_RESET p)) g k \<lparr>v_ring = [main, t],
    v_free = A - block t SIZEOF_LWT, v_thd = T(t := (T t)\<lparr>t_state := RUNNABLE, t_fn := FN_NESTED_JOINS,
      t_data := NULL, t_flag := LWT_DEFAULT, t_ip := Trampoline\<rparr>), v_run = 2, v_zom = 1, v_blk = 0\<rparr> Q"
    by (rule wp_rules | simp add: a_defs f codes fn_nested_joins_def
      | rule pair_create [where main = main], (use f in \<open>auto simp: insert_commute\<close>)[5]
      | rule next_wp | simp add: quiet_def Int_Un_distrib)+
qed

lemma apart: "X \<inter> (A - X - Y) = {}" "X \<inter> (A - Y - X) = {}"
  by blast+

lemma pair_union:
  assumes "X \<subseteq> A" and "Y \<subseteq> A"
  shows "A - X - Y \<union> X \<union> Y = A" and "A - X - Y \<union> Y \<union> X = A" and "A - X \<union> Y \<union> X = A"
    and "A - X \<union> X \<union> Y = A" and "A \<union> X \<union> Y = A"
  using assms by blast+

lemma single_union: "X \<subseteq> A \<Longrightarrow> A - X \<union> X = A" "X \<subseteq> A \<Longrightarrow> A \<union> X = A"
  by blast+

lemma parents_wp:
  assumes st: "stage main A" and q: "quiet main A v"
    and next_wp: "\<And>w l. quiet main A w \<Longrightarrow> twp m (main_code junk) main p g l w Q"
  shows "twp (Suc (Suc m)) (main_code junk) main (test_parents p) g k v Q"
  unfolding test_parents_def
proof (rule quiet_create [OF st q])
  fix t and T :: "addr \<Rightarrow> thd"
  assume f: "0 < t" "t \<noteq> main" "main \<noteq> t" "t \<noteq> NULL" "main \<noteq> NULL" "block t SIZEOF_LWT \<subseteq> A"
    "A \<union> block t SIZEOF_LWT = A" "main \<notin> A" "room (A - block t SIZEOF_LWT) SIZEOF_LWT"
    "t_state (T main) = RUNNABLE" "\<And>u. u \<noteq> NULL \<Longrightarrow> t_jf (T u) \<noteq> u" "t \<noteq> t_jf (T t)"
  show "twp (Suc m) (main_code junk) main (Create FN_JOIN t LWT_DEFAULT (\<lambda>chld2.
    Yield NULL (Yield NULL (Join chld2 (\<lambda>_. IS_RESET p))))) g k \<lparr>v_ring = [main, t],
    v_free = A - block t SIZEOF_LWT, v_thd = T(t := (T t)\<lparr>t_state := RUNNABLE, t_fn := FN_IDENTITY,
      t_data := 0x37337, t_flag := LWT_DEFAULT, t_ip := Trampoline\<rparr>), v_run = 2, v_zom = 1, v_blk = 0\<rparr> Q"
    by (rule wp_rules | simp add: a_defs f codes fn_join_def apart
      | rule pair_create [where main = main], (use f in \<open>auto simp: insert_commute\<close>)[5]
      | rule next_wp | simp add: quiet_def Int_Un_distrib apart)+
qed


lemma test_joins_wp:
  assumes st: "stage main A" and q: "quiet main A v"
    and next_wp: "\<And>w l. quiet main A w \<Longrightarrow> twp m (main_code junk) main p g l w Q"
  shows "twp (Suc (Suc (Suc (Suc m)))) (main_code junk) main (test_joins p) g k v Q"
  unfolding test_joins_def
  by (rule fork_join_wp [OF st q, where r = NULL] late_join_wp [OF st] nested_joins_wp [OF st]
      quiet_reset next_wp | assumption | simp add: codes)+

lemma test_data_and_yield_wp:
  assumes st: "stage main A" and q: "quiet main A v"
    and next_wp: "\<And>w l. quiet main A w \<Longrightarrow> twp m (main_code junk) main p g l w Q"
  shows "twp (Suc (Suc m)) (main_code junk) main (test_data_and_yield p) g k v Q"
  unfolding test_data_and_yield_def
proof (rule fork_join_wp [OF st q, where r = "0x37337"])
  fix w l
  assume w: "quiet main A w"
  show "twp (Suc m) (main_code junk) main (Check (\<lambda>_ _. 0x37337 = (0x37337 :: int)) (IS_RESET (
     Create FN_NULL NULL LWT_DEFAULT (\<lambda>chld1.
     Yield chld1 (Check (\<lambda>s _. n_zombies s = 1)
     (Join chld1 (\<lambda>_. IS_RESET p))))))) g l w Q"
    by (rule wl_counts quiet_reset [OF w] directed_yield_wp [OF st w] next_wp | assumption | simp)+
qed (simp add: codes)


text \<open>The two threads of \<open>test_sequence\<close> take turns while the first thread waits for the second.\<close>

lemma sequence_turns_wp:
  fixes T :: "addr \<Rightarrow> thd"
  assumes f: "main \<noteq> NULL" "0 < c" "0 < d" "c \<noteq> NULL" "d \<noteq> NULL" "c \<noteq> main" "main \<noteq> c" "d \<noteq> main" "main \<noteq> d" "c \<noteq> d" "d \<noteq> c"
    and B: "block c SIZEOF_LWT \<subseteq> A" "block d SIZEOF_LWT \<subseteq> A"
      "block d SIZEOF_LWT \<inter> block c SIZEOF_LWT = {}" "block c SIZEOF_LWT \<inter> block d SIZEOF_LWT = {}"
    and next_wp: "\<And>w g l. quiet main A w \<Longrightarrow> twp m code main p g l w Q"
  shows "g_curr g = 0 \<Longrightarrow> g_sched g 0 \<noteq> 2 \<Longrightarrow> k c = sequence_loop n 1 \<Longrightarrow>
    k main = Joining d (\<lambda>_. Join c (\<lambda>_. IS_RESET p)) \<Longrightarrow>
    t_state (T main) = BLOCKED \<Longrightarrow> t_state (T c) = RUNNABLE \<Longrightarrow> t_state (T d) = RUNNABLE \<Longrightarrow>
    t_ip (T main) = AfterSwitch \<Longrightarrow> t_ip (T c) = AfterSwitch \<Longrightarrow> t_jf (T d) = main \<Longrightarrow>
    t_flag (T c) = LWT_DEFAULT \<Longrightarrow> t_flag (T d) = LWT_DEFAULT \<Longrightarrow>
    (\<And>u. u \<noteq> NULL \<Longrightarrow> t_jf (T u) \<noteq> u) \<Longrightarrow>
    twp m code main (sequence_loop n 2) g k \<lparr>v_ring = [d, main, c],
      v_free = A - block c SIZEOF_LWT - block d SIZEOF_LWT, v_thd = T, v_run = 2, v_zom = 2, v_blk = 1\<rparr> Q"
proof (induction n arbitrary: g k T)
  case 0
  note A = B(3,4) pair_union [OF B(1,2)] pair_union [OF B(2,1)] single_union [OF B(1)] single_union [OF B(2)]
  show ?case
    by (rule wp_rules | simp add: a_defs f A 0 apart | rule next_wp | simp add: quiet_def Int_Un_distrib apart f A 0)+
next
  case (Suc n)
  show ?case
    by (rule Suc.IH wp_rules | simp add: a_defs f Suc.prems)+
qed


lemma ITER_Suc: obtains n where "ITER = Suc n"
  by (rule that [of 9999]) (simp add: ITER_def)

lemma test_sequence_wp:
  assumes st: "stage main A" and q: "quiet main A v" and g: "g_curr g = 0" "g_sched g 0 = 0" "g_sched g 1 = 0"
    and next_wp: "\<And>w g l. quiet main A w \<Longrightarrow> twp m (main_code junk) main p g l w Q"
  shows "twp (Suc (Suc m)) (main_code junk) main (test_sequence p) g k v Q"
  unfolding test_sequence_def
proof (rule quiet_create [OF st q])
  fix t and T :: "addr \<Rightarrow> thd"
  assume f: "0 < t" "t \<noteq> main" "main \<noteq> t" "t \<noteq> NULL" "main \<noteq> NULL" "block t SIZEOF_LWT \<subseteq> A"
    "A \<union> block t SIZEOF_LWT = A" "main \<notin> A" "room (A - block t SIZEOF_LWT) SIZEOF_LWT"
    "t_state (T main) = RUNNABLE" "\<And>u. u \<noteq> NULL \<Longrightarrow> t_jf (T u) \<noteq> u" "t \<noteq> t_jf (T t)"
  obtain n where n: "ITER = Suc n" by (rule ITER_Suc)
  show "twp (Suc m) (main_code junk) main (Create FN_SEQUENCE 2 LWT_DEFAULT (\<lambda>chld2.
     Join chld2 (\<lambda>_. Join t (\<lambda>_. IS_RESET p)))) g k \<lparr>v_ring = [main, t],
    v_free = A - block t SIZEOF_LWT, v_thd = T(t := (T t)\<lparr>t_state := RUNNABLE, t_fn := FN_SEQUENCE,
      t_data := 1, t_flag := LWT_DEFAULT, t_ip := Trampoline\<rparr>), v_run = 2, v_zom = 1, v_blk = 0\<rparr> Q"
    by (rule pair_create [where main = main], (use f in \<open>auto simp: insert_commute\<close>)[5])
      (rule sequence_turns_wp [where p = p] wp_rules next_wp | simp add: a_defs f g codes fn_sequence_def n apart)+
qed


text \<open>The two threads of \<open>test_perf\<close> yield to each other while the first thread waits for the first of them.\<close>

lemma yield_loop_add: "yield_loop m (yield_loop n p) = yield_loop (m + n) p"
  by (induction m) simp_all

lemma fn_bounce_loop: "fn_bounce d = yield_loop (Suc (ITER + 3)) (Done NULL)"
proof -
  have "fn_bounce d = yield_loop 2 (yield_loop ITER (yield_loop 2 (Done NULL)))"
    by (simp add: fn_bounce_def eval_nat_numeral)
  also have "\<dots> = yield_loop (Suc (ITER + 3)) (Done NULL)"
    by (simp only: yield_loop_add) (simp add: eval_nat_numeral)
  finally show ?thesis .
qed

lemma bounce_turns_wp:
  fixes T :: "addr \<Rightarrow> thd"
  assumes f: "main \<noteq> NULL" "0 < c" "0 < d" "c \<noteq> NULL" "d \<noteq> NULL" "c \<noteq> main" "main \<noteq> c" "d \<noteq> main" "main \<noteq> d" "c \<noteq> d" "d \<noteq> c"
    and B: "block c SIZEOF_LWT \<subseteq> A" "block d SIZEOF_LWT \<subseteq> A"
      "block d SIZEOF_LWT \<inter> block c SIZEOF_LWT = {}" "block c SIZEOF_LWT \<inter> block d SIZEOF_LWT = {}"
    and next_wp: "\<And>w l. quiet main A w \<Longrightarrow> twp m code main p g l w Q"
  shows "k d = yield_loop n (Done NULL) \<Longrightarrow> k main = Joining c (\<lambda>_. Join d (\<lambda>_. IS_RESET p)) \<Longrightarrow>
    t_state (T main) = BLOCKED \<Longrightarrow> t_state (T c) = RUNNABLE \<Longrightarrow> t_state (T d) = RUNNABLE \<Longrightarrow>
    t_ip (T main) = AfterSwitch \<Longrightarrow> t_ip (T d) = AfterSwitch \<Longrightarrow> t_jf (T c) = main \<Longrightarrow>
    t_flag (T c) = LWT_DEFAULT \<Longrightarrow> t_flag (T d) = LWT_DEFAULT \<Longrightarrow>
    (\<And>u. u \<noteq> NULL \<Longrightarrow> t_jf (T u) \<noteq> u) \<Longrightarrow>
    twp m code main (yield_loop n (Done NULL)) g k \<lparr>v_ring = [c, d, main],
      v_free = A - block c SIZEOF_LWT - block d SIZEOF_LWT, v_thd = T, v_run = 2, v_zom = 2, v_blk = 1\<rparr> Q"
proof (induction n arbitrary: k T)
  case 0
  note A = B(3,4) pair_union [OF B(1,2)] pair_union [OF B(2,1)] single_union [OF B(1)] single_union [OF B(2)]
  show ?case
    by (rule wp_rules | simp add: a_defs f A 0 apart | rule next_wp | simp add: quiet_def Int_Un_distrib apart f A 0)+
next
  case (Suc n)
  show ?case
    by (rule Suc.IH wp_rules | simp add: a_defs f Suc.prems)+
qed


lemma bounce_pair_wp:
  fixes p :: "('z lwt_sys_scheme, glob) prog"
  assumes st: "stage main A" and q: "quiet main A v"
    and next_wp: "\<And>w l. quiet main A w \<Longrightarrow> twp m (main_code junk) main p g l w Q"
  shows "twp (Suc (Suc m)) (main_code junk) main (Create FN_BOUNCE 1 LWT_DEFAULT (\<lambda>chld1.
     Create FN_BOUNCE NULL LWT_DEFAULT (\<lambda>chld2.
     Join chld1 (\<lambda>_. Join chld2 (\<lambda>_. IS_RESET p))))) g k v Q"
proof (rule quiet_create [OF st q])
  fix t and T :: "addr \<Rightarrow> thd"
  assume f: "0 < t" "t \<noteq> main" "main \<noteq> t" "t \<noteq> NULL" "main \<noteq> NULL" "block t SIZEOF_LWT \<subseteq> A"
    "A \<union> block t SIZEOF_LWT = A" "main \<notin> A" "room (A - block t SIZEOF_LWT) SIZEOF_LWT"
    "t_state (T main) = RUNNABLE" "\<And>u. u \<noteq> NULL \<Longrightarrow> t_jf (T u) \<noteq> u" "t \<noteq> t_jf (T t)"
  obtain n where n: "\<And>d. fn_bounce d = (yield_loop (Suc n) (Done NULL) :: ('z lwt_sys_scheme, glob) prog)"
    using fn_bounce_loop by blast
  show "twp (Suc m) (main_code junk) main (Create FN_BOUNCE NULL LWT_DEFAULT (\<lambda>chld2.
     Join t (\<lambda>_. Join chld2 (\<lambda>_. IS_RESET p)))) g k \<lparr>v_ring = [main, t],
    v_free = A - block t SIZEOF_LWT, v_thd = T(t := (T t)\<lparr>t_state := RUNNABLE, t_fn := FN_BOUNCE,
      t_data := 1, t_flag := LWT_DEFAULT, t_ip := Trampoline\<rparr>), v_run = 2, v_zom = 1, v_blk = 0\<rparr> Q"
    by (rule pair_create [where main = main], (use f in \<open>auto simp: insert_commute\<close>)[5])
      (rule bounce_turns_wp [where p = p] wp_rules next_wp | simp add: a_defs f codes n apart)+
qed

lemma test_perf_wp:
  assumes st: "stage main A" and q: "quiet main A v"
    and next_wp: "\<And>w l. quiet main A w \<Longrightarrow> twp m (main_code junk) main p g l w Q"
  shows "twp (ITER + Suc (Suc m)) (main_code junk) main (test_perf p) g k v Q"
  unfolding test_perf_def
  by (rule fork_join_loop_wp [OF st q] bounce_pair_wp [OF st] quiet_reset next_wp | assumption)+

lemma quiet_yield:
  assumes "quiet main A v" and "twp m code main p g k v Q"
  shows "twp m code main (Yield NULL p) g k v Q"
proof (rule quietE [OF assms(1)])
  fix T :: "addr \<Rightarrow> thd"
  assume v: "v = \<lparr>v_ring = [main], v_free = A, v_thd = T, v_run = 1, v_zom = 0, v_blk = 0\<rparr>"
    and r: "t_state (T main) = RUNNABLE"
  show ?thesis by (rule wl_yield | simp add: a_defs r v assms(2) [unfolded v])+
qed

lemma test_crt_join_sched_wp:
  assumes st: "stage main A" and q: "quiet main A v" and g: "g_curr g = 0" "g_sched g 0 = 0" "g_sched g 1 = 0"
    and next_wp: "\<And>w g l. quiet main A w \<Longrightarrow> twp m (main_code junk) main p g l w Q"
  shows "twp (Suc (Suc (Suc (Suc (Suc (Suc (Suc (Suc (Suc (Suc m)))))))))) (main_code junk) main (test_crt_join_sched p) g k v Q"
  unfolding test_crt_join_sched_def
  by (rule quiet_yield [OF q] test_sequence_wp [OF st q g] test_joins_wp [OF st] parents_wp [OF st]
      test_data_and_yield_wp [OF st] next_wp | assumption)+

subsection \<open>From the constructor on\<close>

lemma lwt_init_counts: "lwt_init s = Inr s' \<Longrightarrow> n_zombies s' = n_zombies s \<and> n_blocked s' = n_blocked s"
  by (auto simp: lwt_init_def rbind_eq_Inr split: if_splits prod.splits)

lemma boot_quiet:
  assumes "loaded s" and "sys_blocks (s_kheap s) = b # bs" and "n_zombies s = 0" and "n_blocked s = 0"
  obtains s' v where "lwt_init s = Inr s'" and "views s' v"
    and "stage (current_thread s') (block b PAGESIZE - block (current_thread s') SIZEOF_LWT)"
    and "quiet (current_thread s') (block b PAGESIZE - block (current_thread s') SIZEOF_LWT) v"
proof -
  from lwt_init_runs [OF assms(1,2)] obtain t h s' where
    r: "kalloc h SIZEOF_LWT = Inr (t, s_kheap s')" "kpool h (block b PAGESIZE)" "kfits h PAGESIZE"
      "lwt_init s = Inr s'" "current_thread s' = t" "0 < t"
      "kpool (s_kheap s') (block b PAGESIZE - block t SIZEOF_LWT)" "ring (s_links s') [t]"
      "n_runnable s' = 1" "ready s' t" "\<forall>u. l_joinedfrom (s_lwt s' u) = NULL" by metis
  let ?A = "block b PAGESIZE - block t SIZEOF_LWT"
  let ?v = "\<lparr>v_ring = [t], v_free = ?A, v_thd = (\<lambda>u. thd_of (s_lwt s' u)), v_run = 1, v_zom = 0, v_blk = 0\<rparr>"
  have n: "0 < SIZEOF_LWT" "SIZEOF_LWT \<le> PAGESIZE" "0 < SIZEOF_LWT + SIZEOF_LWT"
    "SIZEOF_LWT + (SIZEOF_LWT + SIZEOF_LWT) \<le> PAGESIZE"
    by (simp_all add: SIZEOF_LWT_def PAGESIZE_def)
  have "kfits (s_kheap s') (SIZEOF_LWT + SIZEOF_LWT)"
    using kalloc_leaves [OF r(2) kfits_mono [OF r(3) n(4)] n(1,2,3) r(1)] .
  then have "stage t ?A" using room_fits [OF r(7)] r(6) by (simp add: stage_def SIZEOF_LWT_def)
  moreover have "views s' ?v"
    using r lwt_init_counts [OF r(4)] assms(3,4) by (simp add: views_def runq_def)
  moreover have "quiet t ?A ?v" using r(10,11) by (simp add: quiet_def)
  ultimately show thesis using that [OF r(4)] r(5) by simp
qed

definition passes :: "addr \<Rightarrow> ((lwt_sys, glob) prog \<Rightarrow> (lwt_sys, glob) prog) \<Rightarrow> addr \<Rightarrow> (lwt_sys, glob) world \<Rightarrow> bool" where
  "passes junk test b w0 \<longleftrightarrow>
     (let main = current_thread (w_sys w0) in
      \<exists>w. exec (main_code junk) main (test (Done NULL)) w0 = Some (Inr w) \<and> runq (w_sys w) [main] \<and>
        kpool (s_kheap (w_sys w)) (block b PAGESIZE - block main SIZEOF_LWT) \<and>
        n_runnable (w_sys w) = 1 \<and> n_zombies (w_sys w) = 0 \<and> n_blocked (w_sys w) = 0)"

lemma passesI:
  assumes "views s v" and "main = current_thread s"
    and "twp m (main_code junk) main (test (Done NULL)) g k v (\<lambda>w g. quiet main (block b PAGESIZE - block main SIZEOF_LWT) w)"
  shows "passes junk test b \<lparr>w_sys = s, w_glob = g, w_cont = k\<rparr>"
proof -
  from assms(1) awp_lwt [OF assms(3)] obtain w v' where
    w: "exec (main_code junk) main (test (Done NULL)) \<lparr>w_sys = s, w_glob = g, w_cont = k\<rparr> = Some (Inr w)"
    and v: "views (w_sys w) v'" and q: "quiet main (block b PAGESIZE - block main SIZEOF_LWT) v'"
    unfolding wp_def by blast
  from q have "v_ring v' = [main]" "v_free v' = block b PAGESIZE - block main SIZEOF_LWT"
    "v_run v' = 1" "v_zom v' = 0" "v_blk v' = 0" by (simp_all add: quiet_def)
  with viewsD [OF v] w assms(2) show ?thesis by (simp add: passes_def Let_def)
qed

lemma quiet_done: "quiet main A w \<Longrightarrow> twp 0 code main (Done x) g k w (\<lambda>w g. quiet main A w)"
  by (rule aw_done) (simp_all add: quiet_def)

text \<open>C6: the thread tests of \<open>main.c\<close> pass. Started by the constructor \<open>lwt_init\<close> from any
  memory, \<open>test_perf\<close> and then \<open>test_crt_join_sched\<close> run to their end, for the value of \<open>ITER\<close> in the
  source and whatever the functions without a return statement return: 10000 forks and joins, two threads yielding to each
  other, two threads taking turns, joins before and after the death of the target, nested joins,
  joins by another thread than the parent, return values and directed yields. No assertion fails, no call fails, and afterwards
  only the first thread is left, the counters are those of the start and every byte of the pool that was
  free is free again.\<close>

theorem thread_tests_pass:
  assumes "loaded s" and "sys_blocks (s_kheap s) = b # bs" and "n_zombies s = 0" and "n_blocked s = 0"
    and "g_curr g = 0" and "g_sched g 0 = 0" and "g_sched g 1 = 0"
  shows "\<exists>s'. lwt_init s = Inr s' \<and>
    passes junk (\<lambda>p. test_perf (test_crt_join_sched p)) b \<lparr>w_sys = s', w_glob = g, w_cont = k\<rparr>"
  by (rule boot_quiet [OF assms(1-4)], rule exI, rule conjI, assumption, rule passesI, assumption, rule refl)
    (rule test_perf_wp test_crt_join_sched_wp [OF _ _ assms(5-7)] quiet_done | assumption)+

theorem thread_tests_pass_witness:
  "\<exists>s'. lwt_init load_ex = Inr s' \<and> passes 77 (\<lambda>p. test_perf (test_crt_join_sched p)) 65536
    \<lparr>w_sys = s', w_glob = \<lparr>g_sched = \<lambda>_. 0, g_curr = 0\<rparr>, w_cont = \<lambda>_. Crash\<rparr>"
  by (rule thread_tests_pass [where bs = "[]", OF load_ex_loaded]) (simp_all add: load_ex_def boot_ex_def sys_ex_def)

end
