(* ===== verification/TestChannels.thy ===== *)
theory TestChannels
  imports ChanSpec TestThreads
begin

text \<open>
  The tests of channels in \<open>main.c\<close>, \<open>test_perf_channels\<close>, \<open>test_perf_async_steam\<close> and \<open>test_multisend\<close>,
  as programs of \<open>Client\<close> over the view of \<open>ChanSpec\<close>. \<open>jm\<close> is what fresh memory holds.
\<close>

subsection \<open>The code\<close>

record cglob =
  sndrcv_cnt :: int
  async_sz :: int

type_synonym cprog = "(chan_sys, cglob) prog"

definition FN_CHAN :: addr where "FN_CHAN = 11"
definition FN_ASYNC_STEAM :: addr where "FN_ASYNC_STEAM = 12"
definition FN_SNDER_1 :: addr where "FN_SNDER_1 = 13"
definition FN_SNDER_2 :: addr where "FN_SNDER_2 = 14"

abbreviation New_chan :: "(nat \<Rightarrow> addr) \<Rightarrow> int \<Rightarrow> (addr \<Rightarrow> cprog) \<Rightarrow> cprog" where
  "New_chan jm sz k \<equiv> Op (call (lwt_chan jm sz)) (call (lwt_chan jm sz)) k"

abbreviation Deref :: "addr \<Rightarrow> cprog \<Rightarrow> cprog" where
  "Deref c p \<equiv> Op (proc (lwt_chan_deref c)) (proc (lwt_chan_deref c)) (\<lambda>_. p)"

abbreviation Snd :: "addr \<Rightarrow> addr \<Rightarrow> cprog \<Rightarrow> cprog" where
  "Snd c d p \<equiv> Op (lwt_snd c d) (lwt_snd_resume c d) (\<lambda>_. p)"

abbreviation Sending :: "addr \<Rightarrow> addr \<Rightarrow> cprog \<Rightarrow> cprog" where
  "Sending c d p \<equiv> Op (lwt_snd_resume c d) (lwt_snd_resume c d) (\<lambda>_. p)"

abbreviation Snd_chan :: "addr \<Rightarrow> addr \<Rightarrow> cprog \<Rightarrow> cprog" where
  "Snd_chan c x p \<equiv> Op (lwt_snd_chan c x) (lwt_snd_resume c x) (\<lambda>_. p)"

abbreviation Rcv :: "addr \<Rightarrow> (addr \<Rightarrow> cprog) \<Rightarrow> cprog" where
  "Rcv c k \<equiv> Op (lwt_rcv c) (lwt_rcv_resume c) k"

abbreviation Receiving :: "addr \<Rightarrow> (addr \<Rightarrow> cprog) \<Rightarrow> cprog" where
  "Receiving c k \<equiv> Op (lwt_rcv_resume c) (lwt_rcv_resume c) k"

abbreviation Rcv_chan :: "addr \<Rightarrow> (addr \<Rightarrow> cprog) \<Rightarrow> cprog" where
  "Rcv_chan c k \<equiv> Op (lwt_rcv_chan c) (lwt_rcv_resume c) k"

fun fn_chan_loop :: "nat \<Rightarrow> addr \<Rightarrow> addr \<Rightarrow> cprog \<Rightarrow> cprog" where
  "fn_chan_loop 0 to frm p = p"
| "fn_chan_loop (Suc n) to frm p =
     Snd to 1 (Rcv frm (\<lambda>r. Check (\<lambda>_ _. 2 = r) (fn_chan_loop n to frm p)))"

definition fn_chan :: "(nat \<Rightarrow> addr) \<Rightarrow> addr \<Rightarrow> cprog" where
  "fn_chan jm to =
     New_chan jm 0 (\<lambda>frm.
     Snd_chan to frm
    (Check (\<lambda>s _. c_snd_cnt (s_chan s frm) \<noteq> 0)
    (fn_chan_loop ITER to frm (Deref frm (Done NULL)))))"

fun perf_channels_loop :: "nat \<Rightarrow> addr \<Rightarrow> addr \<Rightarrow> cprog \<Rightarrow> cprog" where
  "perf_channels_loop 0 frm to p = p"
| "perf_channels_loop (Suc n) frm to p =
     Rcv frm (\<lambda>r. Check (\<lambda>_ _. 1 = r) (Snd to 2 (perf_channels_loop n frm to p)))"

definition test_perf_channels :: "(nat \<Rightarrow> addr) \<Rightarrow> int \<Rightarrow> cprog \<Rightarrow> cprog" where
  "test_perf_channels jm chsz p =
     Check (\<lambda>s _. RUNNABLE = l_state (s_lwt s (lwt_current s)))
    (New_chan jm chsz (\<lambda>frm.
     Check (\<lambda>_ _. frm \<noteq> NULL)
    (Create FN_CHAN frm LWT_DEFAULT (\<lambda>t.
     Rcv_chan frm (\<lambda>to.
     Check (\<lambda>s _. c_snd_cnt (s_chan s to) \<noteq> 0)
    (perf_channels_loop ITER frm to (Deref to (Join t (\<lambda>_. p)))))))))"

fun snder_loop :: "nat \<Rightarrow> addr \<Rightarrow> addr \<Rightarrow> cprog" where
  "snder_loop 0 c v = Done NULL"
| "snder_loop (Suc n) c v =
     Snd c v (Act (\<lambda>g. g\<lparr>sndrcv_cnt := sndrcv_cnt g + 1\<rparr>) (snder_loop n c v))"

definition fn_snder :: "addr \<Rightarrow> addr \<Rightarrow> cprog" where
  "fn_snder c v = snder_loop ITER c v"

definition fn_snder_1 :: "addr \<Rightarrow> cprog" where "fn_snder_1 c = fn_snder c 1"
definition fn_snder_2 :: "addr \<Rightarrow> cprog" where "fn_snder_2 c = fn_snder c 2"

fun multisend_loop :: "nat \<Rightarrow> addr \<Rightarrow> addr list \<Rightarrow> int \<Rightarrow> (addr list \<Rightarrow> int \<Rightarrow> cprog) \<Rightarrow> cprog" where
  "multisend_loop 0 c ret maxcnt k = k ret maxcnt"
| "multisend_loop (Suc n) c ret maxcnt k =
     Rcv c (\<lambda>r. Load (\<lambda>g.
     let maxcnt1 = (if sndrcv_cnt g > maxcnt then sndrcv_cnt g else maxcnt) in
     Act (\<lambda>g. g\<lparr>sndrcv_cnt := sndrcv_cnt g - 1\<rparr>) (multisend_loop n c (ret @ [r]) maxcnt1 k)))"

definition test_multisend :: "(nat \<Rightarrow> addr) \<Rightarrow> int \<Rightarrow> cprog \<Rightarrow> cprog" where
  "test_multisend jm chsz p =
     New_chan jm chsz (\<lambda>c.
     Check (\<lambda>_ _. c \<noteq> NULL)
    (Create FN_SNDER_2 c LWT_DEFAULT (\<lambda>t1.
     Create FN_SNDER_1 c LWT_DEFAULT (\<lambda>t2.
     multisend_loop (ITER * 2) c [] 0 (\<lambda>ret maxcnt.
     Join t1 (\<lambda>_. Join t2 (\<lambda>_.
     Check (\<lambda>_ _. \<forall>r\<in>set ret. r = 1 \<or> r = 2)
    (Check (\<lambda>_ _. sum_list ret = int ITER * 1 + int ITER * 2)
    (Check (\<lambda>_ _. maxcnt \<ge> chsz) p)))))))))"

fun async_steam_loop :: "nat \<Rightarrow> nat \<Rightarrow> addr \<Rightarrow> cprog \<Rightarrow> cprog" where
  "async_steam_loop i 0 to p = p"
| "async_steam_loop i (Suc n) to p = Snd to (int i + 1) (async_steam_loop (Suc i) n to p)"

definition fn_async_steam :: "addr \<Rightarrow> cprog" where
  "fn_async_steam to = async_steam_loop 0 ITER to (Deref to (Done NULL))"

fun async_rcv_loop :: "nat \<Rightarrow> nat \<Rightarrow> addr \<Rightarrow> cprog \<Rightarrow> cprog" where
  "async_rcv_loop i 0 frm p = p"
| "async_rcv_loop i (Suc n) frm p =
     Rcv frm (\<lambda>r. Check (\<lambda>_ _. int i + 1 = r) (async_rcv_loop (Suc i) n frm p))"

definition test_perf_async_steam :: "(nat \<Rightarrow> addr) \<Rightarrow> int \<Rightarrow> cprog \<Rightarrow> cprog" where
  "test_perf_async_steam jm chsz p =
     Act (\<lambda>g. g\<lparr>async_sz := chsz\<rparr>)
    (Check (\<lambda>s _. RUNNABLE = l_state (s_lwt s (lwt_current s)))
    (New_chan jm chsz (\<lambda>frm.
     Check (\<lambda>_ _. frm \<noteq> NULL)
    (Create FN_ASYNC_STEAM frm LWT_DEFAULT (\<lambda>t.
     Check (\<lambda>s _. n_runnable s = 2)
    (async_rcv_loop 0 ITER frm (Join t (\<lambda>_. p))))))))"

definition chan_code :: "(nat \<Rightarrow> addr) \<Rightarrow> (chan_sys, cglob) text_segment" where
  "chan_code jm f d =
     (if f = FN_CHAN then fn_chan jm d
      else if f = FN_ASYNC_STEAM then fn_async_steam d
      else if f = FN_SNDER_1 then fn_snder_1 d
      else if f = FN_SNDER_2 then fn_snder_2 d
      else Crash)"

subsection \<open>Two threads\<close>

abbreviation cwp where
  "cwp \<equiv> wp (cviews :: chan_sys \<Rightarrow> cview \<Rightarrow> bool)"

text \<open>\<open>a\<close> runs and \<open>b\<close> is ready; only \<open>main\<close> has joined threads.\<close>

definition duo :: "addr \<Rightarrow> addr \<Rightarrow> cview \<Rightarrow> bool" where
  "duo a b v \<longleftrightarrow> v_ring v = [a, b] \<and> a \<noteq> b \<and> a \<noteq> NULL \<and> b \<noteq> NULL \<and> a_ready v a \<and> a_ready v b \<and>
     v_run v = 2 \<and> v_zom v = 1 \<and> v_blk v = 0"

definition joins :: "addr \<Rightarrow> (addr \<Rightarrow> thd) \<Rightarrow> bool" where
  "joins main T \<longleftrightarrow> (\<forall>u. t_jf (T u) = NULL \<or> u \<noteq> main \<and> t_jf (T u) = main)"

lemma joins_same: "(\<And>u. t_jf (T' u) = t_jf (T u)) \<Longrightarrow> joins main T' = joins main T"
  by (simp add: joins_def)

definition child :: "addr \<Rightarrow> addr \<Rightarrow> cview \<Rightarrow> bool" where
  "child main t v \<longleftrightarrow> t_flag (v_thd v t) = LWT_DEFAULT \<and> joins main (v_thd v)"

lemma switch_sel [simp]:
  "v_ring (a_switch c us z vs v) = z # vs @ c # us"
  "v_thd (a_switch c us z vs v) = (v_thd v)(c := (v_thd v c)\<lparr>t_ip := AfterSwitch\<rparr>)"
  "v_free (a_switch c us z vs v) = v_free v" "v_run (a_switch c us z vs v) = v_run v"
  "v_zom (a_switch c us z vs v) = v_zom v" "v_blk (a_switch c us z vs v) = v_blk v"
  by (simp_all add: a_switch_def)

lemma switch_csel [simp]:
  "cv_chan (a_switch c us z vs v) = cv_chan v" "cv_msg (a_switch c us z vs v) = cv_msg v"
  "cv_buf (a_switch c us z vs v) = cv_buf v"
  "open_chan (a_switch c us z vs v) = open_chan v" "queue F (a_switch c us z vs v) = queue F v"
  by (simp_all add: a_switch_def a_set_def open_chan_def queue_def fun_eq_iff)

lemma set_csel [simp]:
  "cv_chan (a_set t f v) = cv_chan v" "cv_msg (a_set t f v) = cv_msg v" "cv_buf (a_set t f v) = cv_buf v"
  "open_chan (a_set t f v) = open_chan v" "queue F (a_set t f v) = queue F v"
  "open_chan (v\<lparr>v_run := i, v_blk := j\<rparr>) = open_chan v" "queue F (v\<lparr>v_run := i, v_blk := j\<rparr>) = queue F v"
  by (simp_all add: a_set_def open_chan_def queue_def fun_eq_iff)

lemma duo_switch: "duo a b v \<Longrightarrow> duo b a (a_switch a [] b [] v)"
  by (auto simp: duo_def)

lemma child_switch [simp]: "child main t (a_switch c us z vs v) = child main t v"
  using joins_same [of "v_thd (a_switch c us z vs v)" "v_thd v" main] by (simp add: child_def)

lemma duo_schedule: "duo a b v \<Longrightarrow> a_schedule v = Some (Switched, a_switch a [] b [] v)"
  by (simp add: duo_def a_schedule_def)

lemma duo_lands:
  assumes "duo a b v" and "t_ip (v_thd v b) \<noteq> Trampoline"
    and "cwp code main (k b) g (k(a := saved)) (a_switch a [] b [] v) Q"
  shows "lands cviews code main kk saved g k v Q (Switched, a_switch a [] b [] v)"
  using assms by (simp add: lands_def Let_def duo_def)

lemma duo_starts:
  assumes "duo a b v" and "t_ip (v_thd v b) = Trampoline"
    and "cwp code main (code (t_fn (v_thd v b)) (t_data (v_thd v b))) g (k(a := saved)) (a_switch a [] b [] v) Q"
  shows "lands cviews code main kk saved g k v Q (Switched, a_switch a [] b [] v)"
  using assms by (auto simp: lands_def Let_def duo_def)

lemma wp_await:
  assumes "duo a b v" and "open_chan v c [] n"
    and l: "lands cviews code main kk (Receiving c kk) g k v Q (Switched, a_switch a [] b [] v)"
  shows "cwp code main (Rcv c kk) g k v Q" and "cwp code main (Receiving c kk) g k v Q"
  using wp_rcv_empty [OF assms(2) duo_schedule [OF assms(1)] l] by blast+

lemma kept_duo: "kept c v v' \<Longrightarrow> duo a b v' = duo a b v"
  by (simp add: kept_def duo_def)

lemma kept_child: "kept c v v' \<Longrightarrow> child main t v' = child main t v"
  by (simp add: kept_def child_def)

lemma queue_open: "queue F v c [] n \<longleftrightarrow> open_chan v c [] n \<and> v_free v = F"
  by (auto simp: queue_def)

lemma kept_open:
  assumes "kept c v v'" and "c_rbuf (cv_chan v d) \<noteq> c_rbuf (cv_chan v c)"
  shows "open_chan v' d ms n = open_chan v d ms n"
  using assms by (simp add: kept_def open_chan_def)


text \<open>The end of a test: the first thread is alone, with its counters and the free bytes \<open>A\<close>.\<close>

definition cquiet :: "addr \<Rightarrow> addr set \<Rightarrow> cview \<Rightarrow> bool" where
  "cquiet main A v \<longleftrightarrow> v_ring v = [main] \<and> v_free v = A \<and> a_ready v main \<and> v_run v = 1 \<and> v_zom v = 0 \<and>
     v_blk v = 0 \<and> joins main (v_thd v)"

lemma cnt_sel [simp]:
  "v_ring (a_cnt f c v) = v_ring v" "v_free (a_cnt f c v) = v_free v" "v_thd (a_cnt f c v) = v_thd v"
  "v_run (a_cnt f c v) = v_run v" "v_zom (a_cnt f c v) = v_zom v" "v_blk (a_cnt f c v) = v_blk v"
  "cv_msg (a_cnt f c v) = cv_msg v" "cv_buf (a_cnt f c v) = cv_buf v"
  "c_rbuf (cv_chan (a_cnt f c v) d) = c_rbuf (cv_chan v d)"
  "c_rcv_thd (cv_chan (a_cnt f c v) d) = c_rcv_thd (cv_chan v d)"
  "c_snd_cnt (cv_chan (a_cnt f c v) d) = (if d = c then f (c_snd_cnt (cv_chan v c)) else c_snd_cnt (cv_chan v d))"
  "open_chan (a_cnt f c v) = open_chan v" "queue F (a_cnt f c v) = queue F v"
  "duo a b (a_cnt f c v) = duo a b v" "child main t (a_cnt f c v) = child main t v"
  by (simp_all add: a_cnt_def open_chan_def queue_def duo_def child_def fun_eq_iff)

text \<open>The last thread but the first ends, and the first comes back from its join.\<close>

lemma child_ends_wp:
  assumes f: "v_ring v = [t, main]" "t_state (v_thd v main) = BLOCKED" "a_ready v t" "v_run v = 1" "v_zom v = 1"
      "v_blk v = 1" "t_flag (v_thd v t) = LWT_DEFAULT" "t_jf (v_thd v t) = main"
      "t_ip (v_thd v main) = AfterSwitch" "joins main (v_thd v)"
      "k main = Joining t (\<lambda>_. p)" "0 < t" "t \<noteq> NULL" "t \<noteq> main" "main \<noteq> t" "main \<noteq> NULL"
      "block t SIZEOF_LWT \<inter> v_free v = {}"
    and next_wp: "\<And>w l. cquiet main (v_free v \<union> block t SIZEOF_LWT) w \<Longrightarrow> cwp code main p g l w Q"
  shows "cwp code main (Done x) g k v Q"
  by (rule ch.wp_exit ch.wp_joining next_wp | simp add: a_die_def a_schedule_def a_join_resume_def a_reap_def
      a_target_def lands_def Let_def cquiet_def f Int_Un_distrib joins_same [of _ "v_thd v"])+

text \<open>The first thread gives its reference back and joins; the other one takes the last message and ends.\<close>

lemma last_turn_wp:
  assumes d: "duo main t v" and ch: "child main t v" and ip: "t_ip (v_thd v t) = AfterSwitch"
    and q: "queue F v y [2] n" and "0 < t" and "block t SIZEOF_LWT \<inter> v_free v = {}"
    and "c_rcv_thd (cv_chan v y) = t" and "2 \<le> c_snd_cnt (cv_chan v y)"
    and k: "k t = Receiving y (\<lambda>r. Check (\<lambda>_ _. 2 = r) (Deref y (Done NULL)))"
    and F: "block t SIZEOF_LWT \<inter> F = {}"
    and next_wp: "\<And>v l. cquiet main (F \<union> block t SIZEOF_LWT) v \<Longrightarrow> cwp code main p g l v Q"
  shows "cwp code main (Deref y (Join t (\<lambda>_. p))) g k v Q"
proof -
  note f = d [unfolded duo_def] ch [unfolded child_def]
  have y: "y \<noteq> NULL" using q by (auto simp: queue_def open_chan_def)
  let ?v = "a_cnt (\<lambda>n. n - 1) y v"
  have "cwp code main (Join t (\<lambda>_. p)) g k ?v Q"
  proof (rule ch.wp_join)
    show "a_target t ?v" using f assms(5,6) by (simp add: a_target_def)
    show "a_lwt_join t ?v = Some (Switched, a_switch main [] t [] (a_set main (\<lambda>x. x\<lparr>t_state := BLOCKED\<rparr>)
        (a_set t (\<lambda>x. x\<lparr>t_jf := main\<rparr>) ?v)\<lparr>v_run := 1, v_blk := 1\<rparr>))"
      using f by (auto simp: a_lwt_join_def a_join_resume_def Let_def a_set_def)
    show "lands cviews code main (\<lambda>_. p) (Joining t (\<lambda>_. p)) g k ?v Q (Switched, a_switch main [] t []
        (a_set main (\<lambda>x. x\<lparr>t_state := BLOCKED\<rparr>) (a_set t (\<lambda>x. x\<lparr>t_jf := main\<rparr>) ?v)\<lparr>v_run := 1, v_blk := 1\<rparr>))"
      (is "lands _ _ _ _ _ _ _ _ _ (Switched, ?w)")
    proof -
      have w: "v_ring ?w = [t, main]" "t_state (v_thd ?w main) = BLOCKED" "a_ready ?w t" "v_run ?w = 1"
        "v_zom ?w = 1" "v_blk ?w = 1" "t_flag (v_thd ?w t) = LWT_DEFAULT" "t_jf (v_thd ?w t) = main"
        "t_ip (v_thd ?w main) = AfterSwitch" "joins main (v_thd ?w)"
        "c_rcv_thd (cv_chan ?w y) = t" "1 \<le> c_snd_cnt (cv_chan ?w y)"
        using f assms(7,8) by (auto simp: joins_def)
      have qw: "queue F ?w y [2] n" using q by simp
      let ?k = "k(main := Joining t (\<lambda>_. p))"
      have "cwp code main (Receiving y (\<lambda>r. Check (\<lambda>_ _. 2 = r) (Deref y (Done NULL)))) g ?k ?w Q"
      proof (rule wp_receive(1) [OF qw], rule ch.wp_check, simp)
        fix v1 assume "queue F v1 y [] n" and kp: "kept y ?w v1"
        then have F1: "v_free v1 = F" by (simp add: queue_open)
        from kp w have w1: "v_ring v1 = [t, main]" "t_state (v_thd v1 main) = BLOCKED" "a_ready v1 t"
          "v_run v1 = 1" "v_zom v1 = 1" "v_blk v1 = 1" "t_flag (v_thd v1 t) = LWT_DEFAULT"
          "t_jf (v_thd v1 t) = main" "t_ip (v_thd v1 main) = AfterSwitch"
          "joins main (v_thd v1)" "c_rcv_thd (cv_chan v1 y) = t"
          "c_snd_cnt (cv_chan v1 y) \<noteq> 0"
          unfolding kept_def by (auto dest: spec [of _ y])
        have "cwp code main (Done NULL) g ?k (a_cnt (\<lambda>n. n - 1) y v1) Q"
          by (rule child_ends_wp [where t = t and p = p]) (use w1 f assms(5) F F1 next_wp in auto)
        then show "cwp code main (Deref y (Done NULL)) g ?k v1 Q" using y w1 by (intro wp_deref) auto
      qed
      then show ?thesis using f k ip by (simp add: lands_def Let_def)
    qed
  qed
  then show ?thesis using y f assms(7) by (intro wp_deref) auto
qed


subsection \<open>Sending and receiving in turn\<close>

text \<open>
  The steady state of \<open>test_perf_channels\<close>: the first thread is about to receive the 1 in \<open>x\<close>, the
  other waits for the answer in \<open>y\<close>.
\<close>

definition pingpong :: "addr \<Rightarrow> addr \<Rightarrow> addr \<Rightarrow> addr \<Rightarrow> nat \<Rightarrow> nat \<Rightarrow> addr set \<Rightarrow> cview \<Rightarrow> bool" where
  "pingpong main t x y i j F v \<longleftrightarrow> duo main t v \<and> child main t v \<and> t_ip (v_thd v t) = AfterSwitch \<and>
     queue F v x [1] i \<and> open_chan v y [] j \<and> c_rbuf (cv_chan v x) \<noteq> c_rbuf (cv_chan v y) \<and>
     c_rcv_thd (cv_chan v y) = t \<and> 1 \<le> c_snd_cnt (cv_chan v y)"

lemma kept_fields:
  assumes "kept c v v'"
  shows "v_thd v' = v_thd v" "c_rbuf (cv_chan v' x) = c_rbuf (cv_chan v x)"
    "c_rcv_thd (cv_chan v' x) = c_rcv_thd (cv_chan v x)" "c_snd_cnt (cv_chan v x) \<le> c_snd_cnt (cv_chan v' x)"
  using assms by (simp_all add: kept_def)

lemma main_turn_wp:
  assumes pp: "pingpong main t x y i j F v" and F: "places F 1" and j: "0 < j"
    and op: "op = lwt_rcv \<or> op = lwt_rcv_resume"
    and next_wp: "\<And>w. duo main t w \<Longrightarrow> child main t w \<Longrightarrow> t_ip (v_thd w t) = AfterSwitch \<Longrightarrow> queue F w y [2] j \<Longrightarrow>
      open_chan w x [] i \<Longrightarrow> c_rbuf (cv_chan w x) \<noteq> c_rbuf (cv_chan w y) \<Longrightarrow> c_rcv_thd (cv_chan w y) = t \<Longrightarrow>
      2 \<le> c_snd_cnt (cv_chan w y) \<Longrightarrow> cwp code main p g k w Q"
  shows "cwp code main (Op (op x) (lwt_rcv_resume x) (\<lambda>r. Check (\<lambda>_ _. 1 = r) (Snd y 2 p))) g k v Q"
proof -
  note pp = pp [unfolded pingpong_def]
  have qx: "queue F v x [1] i" using pp by blast
  have "cwp code main (Snd y 2 p) g k v1 Q" if q1: "queue F v1 x [] i" and k1: "kept x v v1" for v1
  proof -
    note kf = kept_fields [OF k1]
    have o1: "open_chan v1 y [] j" using kept_open [OF k1] pp by simp
    then have q: "queue F v1 y [] j" using q1 by (simp add: queue_open)
    show ?thesis
    proof (rule wp_send(2) [OF q])
      fix w assume qw: "queue F w y ([] @ [2]) j" and k2: "kept y v1 w"
        and c: "c_snd_cnt (cv_chan w y) = c_snd_cnt (cv_chan v1 y) + 1"
      have "open_chan w x [] i" using kept_open [OF k2, of x] q1 pp kf by (simp add: queue_open)
      moreover have "2 \<le> c_snd_cnt (cv_chan w y)" using c kf(4) [of y] pp by simp
      ultimately show "cwp code main p g k w Q"
        using pp kf kept_fields [OF k2] qw kept_duo [OF k1] kept_duo [OF k2] kept_child [OF k1] kept_child [OF k2]
        by (intro next_wp) simp_all
    qed (use F j in simp_all)
  qed
  then have "cwp code main (Check (\<lambda>_ _. 1 = (1 :: int)) (Snd y 2 p)) g k v1 Q"
    if "queue F v1 x [] i" "kept x v v1" for v1 using that by (intro ch.wp_check) simp_all
  note turn = this
  from op show ?thesis
  proof
    assume "op = lwt_rcv"
    then show ?thesis by (simp only:) (rule wp_receive(2) [OF qx], rule turn)
  next
    assume "op = lwt_rcv_resume"
    then show ?thesis by (simp only:) (rule wp_receive(1) [OF qx], rule turn)
  qed
qed

lemma child_turn_wp:
  assumes d: "duo t main v" and ch: "child main t v" and ip: "t_ip (v_thd v main) = AfterSwitch"
    and q: "queue F v y [2] j" and o: "open_chan v x [] i" and rb: "c_rbuf (cv_chan v x) \<noteq> c_rbuf (cv_chan v y)"
    and rt: "c_rcv_thd (cv_chan v y) = t" and sc: "2 \<le> c_snd_cnt (cv_chan v y)"
    and F: "places F 1" and i: "0 < i"
    and next_wp: "\<And>w. pingpong main t x y i j F w \<Longrightarrow> cwp code main (k main) g (k(t := Receiving y kk)) w Q"
  shows "cwp code main (Receiving y (\<lambda>r. Check (\<lambda>_ _. 2 = r) (Snd x 1 (Rcv y kk)))) g k v Q"
proof (rule wp_receive(1) [OF q], rule ch.wp_check, simp)
  fix v1 assume q1: "queue F v1 y [] j" and k1: "kept y v v1"
  note kf = kept_fields [OF k1]
  have "open_chan v1 x [] i" using kept_open [OF k1, of x] o rb by simp
  then have qx: "queue F v1 x [] i" using q1 by (simp add: queue_open)
  show "cwp code main (Snd x 1 (Rcv y kk)) g k v1 Q"
  proof (rule wp_send(2) [OF qx])
    fix w assume qw: "queue F w x ([] @ [1]) i" and k2: "kept x v1 w"
    note kw = kept_fields [OF k2]
    have dw: "duo t main w" using d kept_duo [OF k1] kept_duo [OF k2] by simp
    have ow: "open_chan w y [] j" using kept_open [OF k2, of y] q1 rb kf by (simp add: queue_open)
    have ipw: "t_ip (v_thd w main) = AfterSwitch" using ip kf kw by simp
    let ?w = "a_switch t [] main [] w"
    have ne: "t \<noteq> main" using dw by (simp add: duo_def)
    have sw: "1 \<le> c_snd_cnt (cv_chan w y)" using sc kf(4) [of y] kw(4) [of y] by simp
    have "pingpong main t x y i j F ?w"
      unfolding pingpong_def using dw qw ow ch kept_child [OF k1] kept_child [OF k2] rb rt sw kf(1-3) kw(1-3)
      by (auto intro: duo_switch)
    from next_wp [OF this] have "lands cviews code main kk (Receiving y kk) g k w Q (Switched, ?w)"
      using dw ipw ne by (intro duo_lands) simp_all
    from wp_await(1) [OF dw ow this] show "cwp code main (Rcv y kk) g k w Q" .
  qed (use F i in simp_all)
qed

lemma pingpong_wp:
  assumes F: "places F 1" and b: "block t SIZEOF_LWT \<inter> F = {}" and t: "0 < t" and ij: "0 < i" "0 < j"
    and next_wp: "\<And>v l. cquiet main (F \<union> block t SIZEOF_LWT) v \<Longrightarrow> cwp code main p g l v Q"
  shows "pingpong main t x y i j F v \<Longrightarrow>
    k t = Receiving y (\<lambda>r. Check (\<lambda>_ _. 2 = r) (fn_chan_loop n x y (Deref y (Done NULL)))) \<Longrightarrow>
    op = lwt_rcv \<or> op = lwt_rcv_resume \<Longrightarrow>
    cwp code main (Op (op x) (lwt_rcv_resume x) (\<lambda>r. Check (\<lambda>_ _. 1 = r) (Snd y 2
      (perf_channels_loop n x y (Deref y (Join t (\<lambda>_. p))))))) g k v Q"
proof (induction n arbitrary: v k op)
  case (0 v k op)
  have "cwp code main (Deref y (Join t (\<lambda>_. p))) g k w Q"
    if w: "duo main t w" "child main t w" "t_ip (v_thd w t) = AfterSwitch" "queue F w y [2] j"
      "c_rcv_thd (cv_chan w y) = t" "2 \<le> c_snd_cnt (cv_chan w y)" for w
  proof (rule last_turn_wp [OF w(1-4) t _ w(5,6) _ b next_wp])
    show "k t = Receiving y (\<lambda>r. Check (\<lambda>_ _. 2 = r) (Deref y (Done NULL)))" using 0(2) by simp
    show "block t SIZEOF_LWT \<inter> v_free w = {}" using w(4) b owing_sub unfolding queue_def by blast
  qed
  then have "cwp code main (Op (op x) (lwt_rcv_resume x) (\<lambda>r. Check (\<lambda>_ _. 1 = r) (Snd y 2
      (Deref y (Join t (\<lambda>_. p)))))) g k v Q"
    by (intro main_turn_wp [OF 0(1) F ij(2) 0(3)])
  then show ?case by simp
next
  case (Suc n v k op)
  let ?P = "\<lambda>r. Check (\<lambda>_ _. 1 = r) (Snd y 2 (perf_channels_loop n x y (Deref y (Join t (\<lambda>_. p)))))"
  let ?R = "\<lambda>r. Check (\<lambda>_ _. 2 = r) (fn_chan_loop n x y (Deref y (Done NULL)))"
  have "cwp code main (Rcv x ?P) g k w Q"
    if w: "duo main t w" "child main t w" "t_ip (v_thd w t) = AfterSwitch" "queue F w y [2] j" "open_chan w x [] i"
      "c_rbuf (cv_chan w x) \<noteq> c_rbuf (cv_chan w y)" "c_rcv_thd (cv_chan w y) = t"
      "2 \<le> c_snd_cnt (cv_chan w y)" for w
  proof -
    let ?w = "a_switch main [] t [] w" and ?k = "k(main := Receiving x ?P)"
    have ne: "t \<noteq> main" using w(1) by (simp add: duo_def)
    have "cwp code main (Receiving y (\<lambda>r. Check (\<lambda>_ _. 2 = r) (Snd x 1 (Rcv y ?R)))) g ?k ?w Q"
    proof (rule child_turn_wp [OF duo_switch [OF w(1)] _ _ _ _ _ _ _ F ij(1)])
      fix u assume u: "pingpong main t x y i j F u"
      have "(?k(t := Receiving y ?R)) t = Receiving y ?R" by simp
      from Suc.IH [where k = "?k(t := Receiving y ?R)" and op = lwt_rcv_resume, OF u this disjI2 [OF refl]]
      show "cwp code main (?k main) g (?k(t := Receiving y ?R)) u Q" by (simp only: fun_upd_same)
    qed (use w in simp_all)
    then have "lands cviews code main ?P (Receiving x ?P) g k w Q (Switched, ?w)"
      using w(1,3) ne Suc.prems(2) by (intro duo_lands) simp_all
    from wp_await(1) [OF w(1,5) this] show ?thesis .
  qed
  then have "cwp code main (Op (op x) (lwt_rcv_resume x) (\<lambda>r. Check (\<lambda>_ _. 1 = r) (Snd y 2 (Rcv x ?P)))) g k v Q"
    by (intro main_turn_wp [OF Suc.prems(1) F ij(2) Suc.prems(3)])
  then show ?case by simp
qed


text \<open>
  The first round. The other thread has sent its channel \<open>y\<close> and now sends the first 1: with room for
  it the two messages are in \<open>x\<close> when the first thread runs again, without room it waits for the
  first thread to take the channel.
\<close>

definition early :: "addr \<Rightarrow> addr \<Rightarrow> addr \<Rightarrow> addr \<Rightarrow> addr \<Rightarrow> nat \<Rightarrow> nat \<Rightarrow> addr set \<Rightarrow> addr list \<Rightarrow> cview \<Rightarrow> bool" where
  "early main a t x y i j F ds v \<longleftrightarrow> child main t v \<and> t_ip (v_thd v a) = AfterSwitch \<and>
     queue F v x ds i \<and> open_chan v y [] j \<and> c_rbuf (cv_chan v x) \<noteq> c_rbuf (cv_chan v y) \<and>
     c_rcv_thd (cv_chan v y) = t \<and> 1 \<le> c_snd_cnt (cv_chan v y)"

lemma early_kept:
  assumes "early main a t x y i j F ds v" and "kept x v w" and "queue F w x es i"
  shows "early main a t x y i j F es w"
  using assms kept_open [OF assms(2), of y] kept_child [OF assms(2)] kept_fields [OF assms(2)]
    order_trans [OF _ kept_fields(4) [OF assms(2), of y], of 1] unfolding early_def by simp

lemma early_switch:
  "early main a t x y i j F ds v \<Longrightarrow> a \<noteq> b \<Longrightarrow> early main b t x y i j F ds (a_switch b [] a [] v)"
  unfolding early_def by simp

lemma early_pingpong:
  "early main t t x y i j F [1] v \<Longrightarrow> duo main t v \<Longrightarrow> pingpong main t x y i j F v"
  unfolding early_def pingpong_def by simp

lemma await_wp:
  assumes "duo a b v" and "open_chan v c [] n" and "t_ip (v_thd v b) = AfterSwitch"
    and "cwp code main (k b) g (k(a := Receiving c kk)) (a_switch a [] b [] v) Q"
  shows "cwp code main (Rcv c kk) g k v Q" and "cwp code main (Receiving c kk) g k v Q"
proof -
  have "lands cviews code main kk (Receiving c kk) g k v Q (Switched, a_switch a [] b [] v)"
    by (rule duo_lands [OF assms(1)]) (use assms(3,4) in simp_all)
  from wp_await [OF assms(1,2) this]
  show "cwp code main (Rcv c kk) g k v Q" and "cwp code main (Receiving c kk) g k v Q" .
qed

lemma full_wp:
  assumes "duo a b v" and "queue F v c ds n" and "length ds = n" and "d \<noteq> NULL"
    and "t_ip (v_thd v b) = AfterSwitch"
    and "cwp code main (k b) g (k(a := Sending c d p)) (a_switch a [] b [] v) Q"
  shows "cwp code main (Snd c d p) g k v Q" and "cwp code main (Sending c d p) g k v Q"
proof -
  from assms(2) obtain ms where ms: "open_chan v c ms n" "length ms = length ds" by (auto simp: queue_def)
  have "lands cviews code main (\<lambda>_. p) (Sending c d p) g k v Q (Switched, a_switch a [] b [] v)"
    by (rule duo_lands [OF assms(1)]) (use assms(5,6) in simp_all)
  from wp_snd_full [OF ms(1) _ assms(4) duo_schedule [OF assms(1)] this] ms(2) assms(3)
  show "cwp code main (Snd c d p) g k v Q" and "cwp code main (Sending c d p) g k v Q" by simp_all
qed

lemma first_round_wp:
  fixes p :: cprog and n :: nat
  assumes F: "places F 2" and b: "block t SIZEOF_LWT \<inter> F = {}" and t: "0 < t" and ij: "0 < i" "0 < j"
    and d: "duo t main v" and op: "early main main t x y i j F [y] v"
    and next_wp: "\<And>v l. cquiet main (F \<union> block t SIZEOF_LWT) v \<Longrightarrow> cwp code main p g l v Q"
  defines "MP \<equiv> \<lambda>to :: addr. Check (\<lambda>s _. c_snd_cnt (s_chan s to) \<noteq> 0)
      (perf_channels_loop (Suc n) x to (Deref to (Join t (\<lambda>_. p))))"
    and "TP \<equiv> \<lambda>r :: addr. Check (\<lambda>_ _. 2 = r) (fn_chan_loop n x y (Deref y (Done NULL)))"
  assumes k: "k main = Receiving x MP"
  shows "cwp code main (fn_chan_loop (Suc n) x y (Deref y (Done NULL))) g k v Q"
proof -
  let ?Q = "\<lambda>r. Check (\<lambda>_ _. 1 = r) (Snd y 2 (perf_channels_loop n x y (Deref y (Join t (\<lambda>_. p)))))"
  have F1: "places F 1" by (rule places_mono [OF F]) simp_all
  have ne: "t \<noteq> main" "main \<noteq> t" using d by (auto simp: duo_def)
  have got: "cwp code main (MP y) g l w Q"
    if "early main t t x y i j F ds w" "cwp code main (Rcv x ?Q) g l w Q" for l w ds
    unfolding MP_def by (rule ch.wp_check) (use that in \<open>auto simp: early_def cviewsD(2)\<close>)
  show ?thesis
  proof (cases "i = 1")
    case True
    have "cwp code main (Receiving x MP) g (k(t := Sending x 1 (Rcv y TP))) (a_switch t [] main [] v) Q"
    proof (rule wp_receive(1))
      show "queue F (a_switch t [] main [] v) x [y] i" using op by (simp add: early_def)
      fix w assume w: "queue F w x [] i" "kept x (a_switch t [] main [] v) w"
      have ow: "early main t t x y i j F [] w"
        by (rule early_kept [OF early_switch [OF op ne(2)] w(2,1)])
      have dw: "duo main t w" using kept_duo [OF w(2)] duo_switch [OF d] by simp
      show "cwp code main (MP y) g (k(t := Sending x 1 (Rcv y TP))) w Q"
      proof (rule got [OF ow], rule await_wp(1) [OF dw])
        show "open_chan w x [] i" using w(1) by (simp add: queue_open)
        show "t_ip (v_thd w t) = AfterSwitch" using ow by (simp add: early_def)
        let ?k = "k(t := Sending x 1 (Rcv y TP), main := Receiving x ?Q)" and ?w = "a_switch main [] t [] w"
        have "cwp code main (Sending x 1 (Rcv y TP)) g ?k ?w Q"
        proof (rule wp_send(1))
          show "queue F ?w x [] i" using w(1) by simp
          fix u assume u: "queue F u x ([] @ [1]) i" "kept x ?w u"
          have u1: "queue F u x [1] i" using u(1) by simp
          have ou: "early main main t x y i j F [1] u"
            by (rule early_kept [OF early_switch [OF ow ne(1)] u(2) u1])
          have du: "duo t main u" using kept_duo [OF u(2)] duo_switch [OF dw] by simp
          show "cwp code main (Rcv y TP) g ?k u Q"
          proof (rule await_wp(1) [OF du])
            show "open_chan u y [] j" "t_ip (v_thd u main) = AfterSwitch" using ou by (simp_all add: early_def)
            let ?l = "?k(t := Receiving y TP)" and ?u = "a_switch t [] main [] u"
            have "pingpong main t x y i j F ?u"
              by (rule early_pingpong [OF early_switch [OF ou ne(2)] duo_switch [OF du]])
            from pingpong_wp [where k = ?l and op = lwt_rcv_resume, OF F1 b t ij next_wp this _ disjI2 [OF refl]]
            have "cwp code main (Receiving x ?Q) g ?l ?u Q" by (simp add: TP_def)
            then show "cwp code main (?k main) g ?l ?u Q" by (simp only: fun_upd_same)
          qed
        qed (use F1 ij in simp_all)
        then show "cwp code main ((k(t := Sending x 1 (Rcv y TP))) t) g ?k ?w Q" by (simp only: fun_upd_same)
      qed
    qed
    then have "cwp code main (Snd x 1 (Rcv y TP)) g k v Q"
      using op True by (intro full_wp(1) [OF d, of F x "[y]" i]) (auto simp: early_def k)
    then show ?thesis by (simp add: TP_def)
  next
    case False
    have "cwp code main (Snd x 1 (Rcv y TP)) g k v Q"
    proof (rule wp_send(2))
      show "queue F v x [y] i" using op by (simp add: early_def)
      fix w assume w: "queue F w x ([y] @ [1]) i" "kept x v w"
      have w1: "queue F w x [y, 1] i" using w(1) by simp
      have ow: "early main main t x y i j F [y, 1] w" by (rule early_kept [OF op w(2) w1])
      have dw: "duo t main w" using kept_duo [OF w(2)] d by simp
      let ?w = "a_switch t [] main [] w" and ?l = "k(t := Receiving y TP)"
      have "cwp code main (Receiving x MP) g ?l ?w Q"
      proof (rule wp_receive(1))
        show "queue F ?w x [y, 1] i" using w1 by simp
        fix u assume u: "queue F u x [1] i" "kept x ?w u"
        have ou: "early main t t x y i j F [1] u" by (rule early_kept [OF early_switch [OF ow ne(2)] u(2,1)])
        have "duo main t u" using kept_duo [OF u(2)] duo_switch [OF dw] by simp
        from pingpong_wp [where k = ?l and op = lwt_rcv, OF F1 b t ij next_wp early_pingpong [OF ou this] _ disjI1 [OF refl]]
        have "cwp code main (Rcv x ?Q) g ?l u Q" by (simp add: TP_def)
        then show "cwp code main (MP y) g ?l u Q" by (rule got [OF ou])
      qed
      then show "cwp code main (Rcv y TP) g k w Q"
        using ow by (intro await_wp(1) [OF dw]) (auto simp: early_def k)
    qed (use F ij False in \<open>simp_all add: numeral_2_eq_2\<close>)
    then show ?thesis by (simp add: TP_def)
  qed
qed


subsection \<open>The setup\<close>

definition CAP :: "int \<Rightarrow> nat" where
  "CAP sz = (if sz = 0 then 1024 else nat sz)"

lemma CAP_pos: "0 \<le> sz \<Longrightarrow> 0 < CAP sz"
  by (simp add: CAP_def)

lemma chan_sel [simp]:
  "v_ring (a_chan c r B i sz v) = v_ring v" "v_free (a_chan c r B i sz v) = B"
  "v_thd (a_chan c r B i sz v) = v_thd v" "v_run (a_chan c r B i sz v) = v_run v"
  "v_zom (a_chan c r B i sz v) = v_zom v" "v_blk (a_chan c r B i sz v) = v_blk v"
  "c_rbuf (cv_chan (a_chan c r B i sz v) d) = (if d = c then r else c_rbuf (cv_chan v d))"
  "c_rcv_thd (cv_chan (a_chan c r B i sz v) d) = (if d = c then hd (v_ring v) else c_rcv_thd (cv_chan v d))"
  "c_snd_cnt (cv_chan (a_chan c r B i sz v) d) = (if d = c then 0 else c_snd_cnt (cv_chan v d))"
  "duo a b (a_chan c r B i sz v) = duo a b v" "child main t (a_chan c r B i sz v) = child main t v"
  "cquiet main A (a_chan c r B i sz v) \<longleftrightarrow> B = A \<and> cquiet main (v_free v) v"
  by (auto simp: a_chan_def fresh_chan_def duo_def child_def cquiet_def)

lemma chan_open:
  "c \<noteq> NULL \<Longrightarrow> hd (v_ring v) \<noteq> NULL \<Longrightarrow> open_chan (a_chan c r B i sz v) c [] (CAP sz)"
  "open_chan v d ms n \<Longrightarrow> d \<noteq> c \<Longrightarrow> c_rbuf (cv_chan v d) \<noteq> r \<Longrightarrow> open_chan (a_chan c r B i sz v) d ms n"
  by (simp_all add: open_chan_def a_chan_def fresh_chan_def CAP_def)

lemma create_csel [simp]:
  "cv_chan (a_create t fn d fl v) = cv_chan v" "open_chan (a_create t fn d fl v) = open_chan v"
  "v_free (a_create t fn d fl v) = v_free v - block t SIZEOF_LWT"
  "t_ip (v_thd (a_create t fn d fl v) t) = Trampoline" "t_fn (v_thd (a_create t fn d fl v) t) = fn"
  "t_data (v_thd (a_create t fn d fl v) t) = d"
  by (simp_all add: a_create_def a_set_def open_chan_def fun_eq_iff)

lemma cquiet_create:
  assumes "cquiet main (v_free v) v" and "main \<noteq> NULL" and "t \<noteq> NULL" and "t \<noteq> main"
  shows "duo main t (a_create t fn d LWT_DEFAULT v)" and "child main t (a_create t fn d LWT_DEFAULT v)"
  using assms by (auto simp: cquiet_def duo_def child_def a_create_def a_set_def joins_def)

lemma open_null: "open_chan v c ms n \<Longrightarrow> c \<noteq> NULL"
  by (simp add: open_chan_def)

lemma block_starts: "block c SIZEOF_CHANNEL \<subseteq> A \<Longrightarrow> c \<in> A" "block r SIZEOF_RBUF \<subseteq> A \<Longrightarrow> r \<in> A"
  "block t SIZEOF_LWT \<subseteq> A \<Longrightarrow> t \<in> A"
  by (auto simp: SIZEOF_CHANNEL_def SIZEOF_RBUF_def SIZEOF_LWT_def block_def)

definition PERF_BYTES :: "int \<Rightarrow> int" where
  "PERF_BYTES sz = CHAN_BYTES sz + (SIZEOF_LWT + CHAN_BYTES 0)"

lemma chan_code_sel:
  "chan_code jm FN_CHAN d = fn_chan jm d" "chan_code jm FN_ASYNC_STEAM d = fn_async_steam d"
  "chan_code jm FN_SNDER_1 d = fn_snder_1 d" "chan_code jm FN_SNDER_2 d = fn_snder_2 d"
  by (simp_all add: chan_code_def FN_CHAN_def FN_ASYNC_STEAM_def FN_SNDER_1_def FN_SNDER_2_def)

lemma lwt_rcv_chan_eq: "lwt_rcv_chan c = lwt_rcv c"
  by (simp add: fun_eq_iff lwt_rcv_chan_def)

text \<open>The other thread of \<open>test_perf_channels\<close> from its start.\<close>

lemma fn_chan_wp:
  fixes p :: cprog
  assumes d: "duo t main v" and ch: "child main t v" and ip: "t_ip (v_thd v main) = AfterSwitch"
    and o: "open_chan v x [] i" and i: "0 < i" and m: "32 \<le> m" and rm: "room (v_free v) (CHAN_BYTES 0 + m)"
    and fr: "x \<notin> v_free v" "c_rbuf (cv_chan v x) \<notin> v_free v" and t: "0 < t" and b: "block t SIZEOF_LWT \<inter> v_free v = {}"
    and next_wp: "\<And>F w l. F \<subseteq> v_free v \<Longrightarrow> room F m \<Longrightarrow> cquiet main (F \<union> block t SIZEOF_LWT) w \<Longrightarrow>
      cwp code main p g l w Q"
    and k: "k main = Receiving x (\<lambda>to. Check (\<lambda>s _. c_snd_cnt (s_chan s to) \<noteq> 0)
      (perf_channels_loop ITER x to (Deref to (Join t (\<lambda>_. p)))))"
  shows "cwp code main (fn_chan jm x) g k v Q"
  unfolding fn_chan_def
proof (rule wp_chan [OF _ _ rm])
  fix y ry F c
  assume y: "0 < y" "0 < ry" "block y SIZEOF_CHANNEL \<subseteq> v_free v"
    "block ry SIZEOF_RBUF \<subseteq> v_free v - block y SIZEOF_CHANNEL"
    "F \<subseteq> v_free v - block y SIZEOF_CHANNEL - block ry SIZEOF_RBUF" and rF: "room F m"
  let ?v = "a_chan y ry F c 0 v" and ?j = "CAP 0"
  let ?fin = "Deref y (Done NULL)"
  have ne: "x \<noteq> y" "c_rbuf (cv_chan v x) \<noteq> ry"
    using block_starts(1) [OF y(3)] block_starts(2) [OF y(4)] fr by auto
  have hd: "hd (v_ring v) = t" "t \<noteq> NULL" using d by (simp_all add: duo_def)
  have oy: "open_chan ?v y [] ?j" using chan_open(1) y(1) hd by simp
  have ox: "open_chan ?v x [] i" by (rule chan_open(2) [OF o ne])
  let ?w = "a_cnt (\<lambda>n. n + 1) y ?v"
  obtain q where "block q 32 \<subseteq> F" using room_mono [OF rF m subset_refl] unfolding room_def by blast
  then have "block q (2 * SIZEOF_MSG * int 2) \<subseteq> F" by (simp add: SIZEOF_MSG_def)
  from places_block [OF this] have pl: "places F 2" .
  have bF: "block t SIZEOF_LWT \<inter> F = {}" using b y(5) by blast
  have FA: "F \<subseteq> v_free v" using y(5) by blast
  have qx: "queue F ?w x [] i" using ox by (simp add: queue_open)
  obtain n where n: "ITER = Suc n" by (rule ITER_Suc)
  have "cwp code main (Check (\<lambda>s _. c_snd_cnt (s_chan s y) \<noteq> 0) (fn_chan_loop ITER x y ?fin)) g k u Q"
    if u: "queue F u x ([] @ [y]) i" "kept x ?w u" for u
  proof (rule ch.wp_check)
    have u1: "1 \<le> c_snd_cnt (cv_chan u y)" using kept_fields(4) [OF u(2), of y] by simp
    then show "c_snd_cnt (s_chan s y) \<noteq> 0" if "cviews s u" for s using cviewsD(2) [OF that] by simp
    have du: "duo t main u" using kept_duo [OF u(2)] d by simp
    have "open_chan u y [] ?j" using kept_open [OF u(2), of y] oy ne by simp
    then have "early main main t x y i ?j F [y] u"
      using u u1 kept_fields(1-3) [OF u(2)] kept_child [OF u(2)] ch ip hd ne by (simp add: early_def)
    moreover have "0 < ?j" by (simp add: CAP_def)
    ultimately show "cwp code main (fn_chan_loop ITER x y ?fin) g k u Q"
      unfolding n using k n by (intro first_round_wp [OF pl bF t i _ du]) (auto intro: next_wp [OF FA rF])
  qed
  then have "cwp code main (Snd x y (Check (\<lambda>s _. c_snd_cnt (s_chan s y) \<noteq> 0)
      (fn_chan_loop ITER x y ?fin))) g k ?w Q"
    using y(1) i places_mono [OF pl, of F 1] by (intro wp_send(2) [OF qx]) auto
  then show "cwp code main (Snd_chan x y (Check (\<lambda>s _. c_snd_cnt (s_chan s y) \<noteq> 0)
      (fn_chan_loop ITER x y ?fin))) g k ?v Q"
    using y(1) by (intro wp_snd_chan) simp_all
qed (use m in simp_all)

text \<open>A channel and a thread that gets it, as all the tests start.\<close>

lemma chan_thread_wp:
  fixes kk :: "addr \<Rightarrow> addr \<Rightarrow> cprog"
  assumes q: "cquiet main A v" and ne: "main \<noteq> NULL" "main \<notin> A" and sz: "0 \<le> sz" "sz < 1000000"
    and r: "room A (CHAN_BYTES sz + (SIZEOF_LWT + m))" and m: "0 < m"
    and next_wp: "\<And>x t w. 0 < x \<Longrightarrow> 0 < t \<Longrightarrow> duo main t w \<Longrightarrow> child main t w \<Longrightarrow> open_chan w x [] (CAP sz) \<Longrightarrow>
      c_rcv_thd (cv_chan w x) = main \<Longrightarrow> t_ip (v_thd w t) = Trampoline \<Longrightarrow> t_fn (v_thd w t) = fn \<Longrightarrow>
      t_data (v_thd w t) = x \<Longrightarrow> v_free w \<union> block t SIZEOF_LWT \<subseteq> A \<Longrightarrow> block t SIZEOF_LWT \<inter> v_free w = {} \<Longrightarrow>
      room (v_free w) m \<Longrightarrow> x \<notin> v_free w \<Longrightarrow> c_rbuf (cv_chan w x) \<notin> v_free w \<Longrightarrow> cwp code main (kk x t) g k w Q"
  shows "cwp code main (New_chan jm sz (\<lambda>x. Check (\<lambda>_ _. x \<noteq> NULL) (Create fn x LWT_DEFAULT (kk x)))) g k v Q"
proof (rule wp_chan [OF sz])
  have A: "v_free v = A" "v_ring v = [main]" using q by (simp_all add: cquiet_def)
  show "room (v_free v) (CHAN_BYTES sz + (SIZEOF_LWT + m))" using r by (simp add: A)
  fix x rx B i
  assume x: "0 < x" "block x SIZEOF_CHANNEL \<subseteq> v_free v" "block rx SIZEOF_RBUF \<subseteq> v_free v - block x SIZEOF_CHANNEL"
    "B \<subseteq> v_free v - block x SIZEOF_CHANNEL - block rx SIZEOF_RBUF" and rB: "room B (SIZEOF_LWT + m)"
  let ?v = "a_chan x rx B i sz v"
  have BA: "B \<subseteq> A" using x(4) A by blast
  have out: "x \<notin> B" "rx \<notin> B" using x(4) block_starts(1) [of x] block_starts(2) [of rx] by blast+
  have qv: "cquiet main B ?v" using q A by simp
  have "cwp code main (Create fn x LWT_DEFAULT (kk x)) g k ?v Q"
  proof (rule ch.wp_create)
    show "room (v_free ?v) SIZEOF_LWT" using room_mono [OF rB, of SIZEOF_LWT B] m by simp
    show "set (v_ring ?v) \<inter> v_free ?v = {}" using ne(2) BA A by auto
    fix t
    assume t: "0 < t" "t \<notin> set (v_ring ?v)" "block t SIZEOF_LWT \<subseteq> v_free ?v"
      and left: "\<forall>n. 0 < n \<longrightarrow> room (v_free ?v) (SIZEOF_LWT + n) \<longrightarrow> room (v_free ?v - block t SIZEOF_LWT) n"
    have t1: "t \<noteq> NULL" "t \<noteq> main" using t(1,2) A by auto
    let ?w = "a_create t fn x LWT_DEFAULT ?v"
    show "cwp code main (kk x t) g k ?w Q"
    proof (rule next_wp [OF x(1) t(1)])
      show "duo main t ?w" "child main t ?w" using cquiet_create [OF _ ne(1) t1, of ?v fn x] qv by simp_all
      show "v_free ?w \<union> block t SIZEOF_LWT \<subseteq> A" using t(3) BA by auto
    qed (use x(1) ne(1) A left m rB out in \<open>simp_all add: chan_open(1)\<close>)
  qed
  then show "cwp code main (Check (\<lambda>_ _. x \<noteq> NULL) (Create fn x LWT_DEFAULT (kk x))) g k ?v Q"
    using x(1) by (intro ch.wp_check) simp_all
qed (use m in \<open>simp_all add: SIZEOF_LWT_def\<close>)

lemma wp_is_runnable:
  assumes "cquiet main A v" and "cwp code main p g k v Q"
  shows "cwp code main (Check (\<lambda>s _. RUNNABLE = l_state (s_lwt s (lwt_current s))) p) g k v Q"
proof (rule ch.wp_check [OF _ assms(2)])
  fix s assume "cviews s v"
  from viewsD [OF cviewsD(1) [OF this]] assms(1)
  show "RUNNABLE = l_state (s_lwt s (lwt_current s))" by (simp add: cquiet_def lwt_current_def)
qed

lemma test_perf_channels_wp:
  fixes p :: cprog
  assumes q: "cquiet main A v" and ne: "main \<noteq> NULL" "main \<notin> A" and r: "room A (PERF_BYTES sz + m)" and m: "32 \<le> m"
    and sz: "0 \<le> sz" "sz < 1000000"
    and next_wp: "\<And>B w l. B \<subseteq> A \<Longrightarrow> room B m \<Longrightarrow> cquiet main B w \<Longrightarrow> cwp (chan_code jm) main p g l w Q"
  shows "cwp (chan_code jm) main (test_perf_channels jm sz p) g k v Q"
  unfolding test_perf_channels_def
proof (rule wp_is_runnable [OF q], rule chan_thread_wp [OF q ne sz])
  show "room A (CHAN_BYTES sz + (SIZEOF_LWT + (CHAN_BYTES 0 + m)))" using r by (simp add: PERF_BYTES_def algebra_simps)
  show "0 < CHAN_BYTES 0 + m" using m by (simp add: CHAN_BYTES_def SIZEOF_CHANNEL_def SIZEOF_RBUF_def)
  fix x t w
  assume a: "0 < t" "duo main t w" "child main t w" "open_chan w x [] (CAP sz)" "t_ip (v_thd w t) = Trampoline"
    "t_fn (v_thd w t) = FN_CHAN" "t_data (v_thd w t) = x" "v_free w \<union> block t SIZEOF_LWT \<subseteq> A"
    "block t SIZEOF_LWT \<inter> v_free w = {}" "room (v_free w) (CHAN_BYTES 0 + m)" "x \<notin> v_free w"
    "c_rbuf (cv_chan w x) \<notin> v_free w"
  let ?K = "\<lambda>to. Check (\<lambda>s _. c_snd_cnt (s_chan s to) \<noteq> 0) (perf_channels_loop ITER x to (Deref to (Join t (\<lambda>_. p))))"
  have "cwp (chan_code jm) main (fn_chan jm x) g (k(main := Receiving x ?K)) (a_switch main [] t [] w) Q"
  proof (rule fn_chan_wp [OF duo_switch [OF a(2)] _ _ _ CAP_pos [OF sz(1)] m])
    fix F u l
    assume F: "F \<subseteq> v_free (a_switch main [] t [] w)" "room F m" "cquiet main (F \<union> block t SIZEOF_LWT) u"
    have "F \<union> block t SIZEOF_LWT \<subseteq> A" using F(1) a(8) by auto
    moreover have "room (F \<union> block t SIZEOF_LWT) m" by (rule room_mono [OF F(2)]) auto
    ultimately show "cwp (chan_code jm) main p g l u Q" using next_wp F(3) by blast
  qed (use a in simp_all)
  then have "cwp (chan_code jm) main (chan_code jm (t_fn (v_thd w t)) (t_data (v_thd w t))) g (k(main := Receiving x ?K)) (a_switch main [] t [] w) Q"
    using a(6,7) by (simp add: chan_code_sel)
  from wp_await(1) [OF a(2,4) duo_starts [OF a(2,5) this]]
  show "cwp (chan_code jm) main (Rcv_chan x ?K) g k w Q" by (simp add: lwt_rcv_chan_eq)
qed

end
