(* ===== verification/TestStreams.thy ===== *)
theory TestStreams
  imports TestChannels
begin

text \<open>
  The tests in which the senders run ahead of the receiver, \<open>test_perf_async_steam\<close> and
  \<open>test_multisend\<close>: a sender goes on until the buffer is full, the receiver takes out all there is.
\<close>

subsection \<open>Threads in a ring\<close>

text \<open>
  \<open>crew main rs D v\<close>: the threads of the run queue are \<open>rs\<close>, created and not yet joined; those in \<open>D\<close>
  are dead and the others ready.
\<close>

definition crew :: "addr \<Rightarrow> addr list \<Rightarrow> addr set \<Rightarrow> cview \<Rightarrow> bool" where
  "crew main rs D v \<longleftrightarrow> v_ring v = rs \<and> distinct rs \<and> NULL \<notin> set rs \<and> v_run v = int (length rs) \<and>
     v_zom v = int (length rs) - 1 \<and> v_blk v = 0 \<and>
     (\<forall>u\<in>set rs. t_state (v_thd v u) = (if u \<in> D then DEAD else RUNNABLE)) \<and>
     (\<forall>u\<in>set rs. u \<noteq> main \<longrightarrow> t_flag (v_thd v u) = LWT_DEFAULT) \<and>
     joins main (v_thd v)"

text \<open>Where a thread goes on.\<close>

definition pos :: "(chan_sys, cglob) text_segment \<Rightarrow> (addr \<Rightarrow> cprog) \<Rightarrow> cview \<Rightarrow> addr \<Rightarrow> cprog" where
  "pos code k v z = (if t_ip (v_thd v z) = Trampoline then code (t_fn (v_thd v z)) (t_data (v_thd v z)) else k z)"

lemma crew_switch:
  "crew main (c # us @ z # vs) D v \<Longrightarrow> crew main (z # vs @ c # us) D (a_switch c us z vs v)"
  using joins_same [of "v_thd (a_switch c us z vs v)" "v_thd v" main]
  by (simp add: crew_def ball_Un Int_Un_distrib Int_Un_distrib2 insert_commute) (simp add: Int_commute Un_commute)

lemma crew_csel [simp]:
  "crew main rs D (a_cnt f c v) = crew main rs D v" "pos code k (a_cnt f c v) z = pos code k v z"
  by (simp_all add: crew_def pos_def)

lemma kept_crew: "kept x v w \<Longrightarrow> crew main rs D w = crew main rs D v"
  by (simp add: kept_def crew_def)

lemma kept_pos: "kept x v w \<Longrightarrow> pos code k w z = pos code k v z"
  by (simp add: kept_def pos_def)

lemma kept_refl: "kept x v v"
  by (simp add: kept_def)

lemma kept_trans: "kept x u v \<Longrightarrow> kept x v w \<Longrightarrow> kept x u w"
  unfolding kept_def by (auto intro: order_trans)

lemma split_at_dead:
  "(\<forall>u\<in>set us. \<not> P u) \<Longrightarrow> P z \<Longrightarrow> split_at P (us @ z # vs) = Some (us, z, vs)"
  by (induction us) simp_all

lemma crew_schedule:
  assumes "crew main (c # us @ z # vs) D v" and "set us \<subseteq> D" and "z \<notin> D"
  shows "a_schedule v = Some (Switched, a_switch c us z vs v)"
proof -
  have "split_at (a_ready v) (us @ z # vs) = Some (us, z, vs)"
    by (rule split_at_dead) (use assms in \<open>auto simp: crew_def\<close>)
  then show ?thesis using assms(1) by (simp add: crew_def a_schedule_def)
qed

lemma crew_lands:
  assumes "crew main (c # us @ z # vs) D v"
    and "cwp code main (pos code k v z) g (k(c := saved)) (a_switch c us z vs v) Q"
  shows "lands cviews code main kk saved g k v Q (Switched, a_switch c us z vs v)"
proof -
  have "z \<noteq> c" "v_ring v = c # us @ z # vs" using assms(1) by (auto simp: crew_def)
  with assms(2) show ?thesis by (simp add: lands_def Let_def pos_def split: if_splits)
qed

lemma await_to:
  assumes "crew main (c # us @ z # vs) D v" and "set us \<subseteq> D" and "z \<notin> D" and "open_chan v x [] n"
    and "cwp code main (pos code k v z) g (k(c := Receiving x kk)) (a_switch c us z vs v) Q"
  shows "cwp code main (Rcv x kk) g k v Q"
  by (rule wp_rcv_empty(2) [OF assms(4) crew_schedule [OF assms(1-3)] crew_lands [OF assms(1,5)]])

lemma full_to:
  assumes "crew main (c # us @ z # vs) D v" and "set us \<subseteq> D" and "z \<notin> D"
    and q: "queue F v x ds n" and "length ds = n" and "d \<noteq> NULL"
    and "cwp code main (pos code k v z) g (k(c := Sending x d p)) (a_switch c us z vs v) Q"
  shows "cwp code main (Snd x d p) g k v Q" and "cwp code main (Sending x d p) g k v Q"
proof -
  from q obtain ms where ms: "open_chan v x ms n" "length ms = length ds" by (auto simp: queue_def)
  have "length ms = n" using ms(2) assms(5) by simp
  from wp_snd_full [OF ms(1) this assms(6) crew_schedule [OF assms(1-3)] crew_lands [OF assms(1,7)]]
  show "cwp code main (Snd x d p) g k v Q" and "cwp code main (Sending x d p) g k v Q" by blast+
qed

text \<open>What the other threads see of a thread that ended.\<close>

definition gone :: "addr \<Rightarrow> cview \<Rightarrow> cview \<Rightarrow> bool" where
  "gone c v w \<longleftrightarrow> cv_chan w = cv_chan v \<and> cv_msg w = cv_msg v \<and> cv_buf w = cv_buf v \<and> v_free w = v_free v \<and>
     t_ip (v_thd w c) = AfterSwitch \<and> (\<forall>u. u \<noteq> c \<longrightarrow> t_ip (v_thd w u) = t_ip (v_thd v u) \<and>
       t_fn (v_thd w u) = t_fn (v_thd v u) \<and> t_data (v_thd w u) = t_data (v_thd v u))"

lemma gone_queue: "gone c v w \<Longrightarrow> queue F w x ds n = queue F v x ds n"
  by (simp add: gone_def queue_def open_chan_def)

lemma gone_pos: "gone c v w \<Longrightarrow> u \<noteq> c \<Longrightarrow> pos code k w u = pos code k v u"
  by (simp add: gone_def pos_def)

lemma die_to:
  assumes cr: "crew main (c # us @ z # vs) D v" and "c \<noteq> main" and D: "set us \<subseteq> D" "z \<notin> D" "main \<notin> D" "c \<notin> D"
    and next_wp: "\<And>w. crew main (z # vs @ c # us) (insert c D) w \<Longrightarrow> gone c v w \<Longrightarrow>
      cwp code main (pos code k v z) g (k(c := Crash)) w Q"
  shows "cwp code main (Done r) g k v Q"
proof -
  let ?w = "a_set c (\<lambda>x. x\<lparr>t_state := DEAD\<rparr>) v"
  let ?j = "t_jf (v_thd v c)"
  let ?u = "a_set c (\<lambda>x. x\<lparr>t_ret := r\<rparr>) (?w\<lparr>v_thd := wake ?j (v_thd ?w)\<rparr>)"
  have c: "v_ring v = c # us @ z # vs" "t_flag (v_thd v c) = LWT_DEFAULT" "?j = NULL \<or> ?j = main" "c \<noteq> z"
    using cr assms(2) by (simp_all add: crew_def joins_def) blast
  have die: "a_die r v = a_schedule ?u" using c(1,2) by (simp add: a_die_def Let_def)
  have j: "joins main (v_thd ?u)" using cr joins_same [of "v_thd ?u" "v_thd v" main] by (simp add: crew_def)
  have st: "t_state (v_thd ?u x) = (if x \<in> insert c D then DEAD else RUNNABLE)" if "x \<in> set (c # us @ z # vs)" for x
  proof -
    have "t_state (v_thd v x) = (if x \<in> D then DEAD else RUNNABLE)" using cr that unfolding crew_def by blast
    with c(3) assms(2) D(3) show ?thesis by (cases "x = main") (auto simp: wake_def)
  qed
  have cu: "crew main (c # us @ z # vs) (insert c D) ?u"
    using cr j st by (simp add: crew_def del: set_append)
  have "a_die r v = Some (Switched, a_switch c us z vs ?u)"
    unfolding die by (rule crew_schedule [OF cu]) (use D(1,2) c(4) in auto)
  moreover have "lands cviews code main (\<lambda>_. Crash) Crash g k v Q (Switched, a_switch c us z vs ?u)"
  proof -
    have "crew main (z # vs @ c # us) (insert c D) (a_switch c us z vs ?u)" by (rule crew_switch [OF cu])
    moreover have "gone c v (a_switch c us z vs ?u)" by (simp add: gone_def)
    ultimately have "cwp code main (pos code k v z) g (k(c := Crash)) (a_switch c us z vs ?u) Q" by (rule next_wp)
    then show ?thesis using c(1,4) by (simp add: lands_def Let_def pos_def split: if_splits)
  qed
  ultimately show ?thesis using c(1) assms(2) by (intro ch.wp_exit) simp_all
qed

lemma join_dead:
  assumes cr: "crew main (main # us @ t # vs) D v" and "t \<in> D" and "0 < t" and "block t SIZEOF_LWT \<inter> v_free v = {}"
    and next_wp: "\<And>r w. crew main (main # us @ vs) D w \<Longrightarrow> v_free w = v_free v \<union> block t SIZEOF_LWT \<Longrightarrow>
      cwp code main (kk r) g k w Q"
  shows "cwp code main (Join t kk) g k v Q"
proof -
  have f: "v_ring v = main # us @ t # vs" "t_flag (v_thd v t) = LWT_DEFAULT" "t_state (v_thd v t) = DEAD"
    "t \<noteq> main" "main \<noteq> t" "t \<notin> set us" "main \<noteq> NULL"
    using cr assms(2) by (auto simp: crew_def)
  let ?w = "a_reap t ((a_set t (\<lambda>x. x\<lparr>t_jf := main\<rparr>) v)\<lparr>v_zom := v_zom v - 1, v_run := v_run v - 1\<rparr>)"
  have j: "a_lwt_join t v = Some (Returned (t_ret (v_thd v t)), ?w)"
    using f by (simp add: a_lwt_join_def Let_def)
  have "crew main (main # us @ vs) D ?w"
    using cr f by (auto simp: crew_def a_reap_def remove1_append joins_def)
  then have "cwp code main (kk (t_ret (v_thd v t))) g k ?w Q"
    by (rule next_wp) (simp add: a_reap_def)
  moreover have "a_target t v" using f assms(3,4) by (simp add: a_target_def)
  ultimately show ?thesis using j by (intro ch.wp_join [OF _ j]) (simp_all add: lands_def Let_def)
qed

lemma crew_quiet: "crew main [main] D v \<Longrightarrow> main \<notin> D \<Longrightarrow> cquiet main (v_free v) v"
  by (simp add: crew_def cquiet_def)

lemma quiet_crew: "cquiet main A v \<Longrightarrow> main \<noteq> NULL \<Longrightarrow> crew main [main] {} v"
  by (simp add: crew_def cquiet_def)

lemma crew_create:
  assumes "crew main rs {} v" and "t \<notin> set rs" and "t \<noteq> NULL" and "main \<noteq> t"
  shows "crew main (rs @ [t]) {} (a_create t fn d LWT_DEFAULT v)"
  using assms by (auto simp: crew_def a_create_def a_set_def joins_def)


subsection \<open>One sender\<close>

text \<open>The data of the messages \<open>a\<close>, ..., \<open>b - 1\<close>.\<close>

definition nums :: "nat \<Rightarrow> nat \<Rightarrow> addr list" where
  "nums a b = map (\<lambda>i. int i + 1) [a..<b]"

lemma nums_simps [simp]:
  "nums a a = []" "length (nums a b) = b - a" "a \<le> b \<Longrightarrow> nums a (Suc b) = nums a b @ [int b + 1]"
  by (simp_all add: nums_def)

lemma nums_Cons: "a < b \<Longrightarrow> nums a b = (int a + 1) # nums (Suc a) b"
  by (simp add: nums_def upt_conv_Cons)

text \<open>The receiver takes out what there is.\<close>

lemma drain_nums_wp:
  assumes "j \<le> i" and "queue F v x (nums j i) n"
    and "\<And>w. queue F w x [] n \<Longrightarrow> kept x v w \<Longrightarrow> cwp code main (async_rcv_loop i m x p) g k w Q"
  shows "cwp code main (async_rcv_loop j (i - j + m) x p) g k v Q"
  using assms
proof (induction "i - j" arbitrary: j v)
  case 0
  then show ?case using kept_refl [of x v] by simp
next
  case (Suc l)
  then have j: "j < i" and e: "i - j + m = Suc (i - Suc j + m)" by simp_all
  have "queue F v x ((int j + 1) # nums (Suc j) i) n" using Suc.prems(2) nums_Cons [OF j] by simp
  then have "cwp code main (Rcv x (\<lambda>r. Check (\<lambda>_ _. int j + 1 = r) (async_rcv_loop (Suc j) (i - Suc j + m) x p))) g k v Q"
  proof (rule wp_receive(2), intro ch.wp_check)
    fix w assume w: "queue F w x (nums (Suc j) i) n" "kept x v w"
    show "cwp code main (async_rcv_loop (Suc j) (i - Suc j + m) x p) g k w Q"
      by (rule Suc.hyps(1) [OF _ _ w(1)]) (use Suc.hyps(2) j Suc.prems(3) kept_trans [OF w(2)] in auto)
  qed simp
  then show ?case by (simp add: e)
qed

lemma resume_nums_wp:
  assumes "j < i" and "queue F v x (nums j i) n"
    and "\<And>w. queue F w x [] n \<Longrightarrow> kept x v w \<Longrightarrow> cwp code main (async_rcv_loop i m x p) g k w Q"
  shows "cwp code main (Receiving x (\<lambda>r. Check (\<lambda>_ _. int j + 1 = r)
    (async_rcv_loop (Suc j) (i - Suc j + m) x p))) g k v Q"
proof -
  have "queue F v x ((int j + 1) # nums (Suc j) i) n" using assms(2) nums_Cons [OF assms(1)] by simp
  then show ?thesis
  proof (rule wp_receive(1), intro ch.wp_check)
    fix w assume w: "queue F w x (nums (Suc j) i) n" "kept x v w"
    show "cwp code main (async_rcv_loop (Suc j) (i - Suc j + m) x p) g k w Q"
      by (rule drain_nums_wp [OF _ w(1)]) (use assms(1,3) kept_trans [OF w(2)] in auto)
  qed simp
qed

lemma async_wp:
  assumes F: "places F n" "0 < n" and b: "block t SIZEOF_LWT \<inter> F = {}" and t: "0 < t" and ne: "t \<noteq> main"
    and next_wp: "\<And>w l. cquiet main (F \<union> block t SIZEOF_LWT) w \<Longrightarrow> cwp code main p g l w Q"
  shows "crew main [t, main] {} v \<Longrightarrow> t_ip (v_thd v main) = AfterSwitch \<Longrightarrow>
    queue F v x (nums j i) n \<Longrightarrow> c_rcv_thd (cv_chan v x) = main \<Longrightarrow> j \<le> i \<Longrightarrow> i - j \<le> n \<Longrightarrow> j < N \<Longrightarrow> i + m = N \<Longrightarrow>
    k main = Receiving x (\<lambda>r. Check (\<lambda>_ _. int j + 1 = r) (async_rcv_loop (Suc j) (N - Suc j) x (Join t (\<lambda>_. p)))) \<Longrightarrow>
    cwp code main (async_steam_loop i m x (Deref x (Done NULL))) g k v Q"
proof (induction m arbitrary: v k i j)
  case 0
  have x: "x \<noteq> NULL" using 0(3) by (auto simp: queue_def open_chan_def)
  let ?v = "a_cnt (\<lambda>n. n - 1) x v"
  have "cwp code main (Done NULL) g k ?v Q"
  proof (rule die_to [where us = "[]" and vs = "[]" and z = main and D = "{}" and c = t and k = k])
    fix w assume w: "crew main (main # [] @ t # []) {t} w" "gone t ?v w"
    have ij: "j < i" "N - Suc j = i - Suc j + 0" using 0(7,8) by auto
    have q: "queue F w x (nums j i) n" using gone_queue [OF w(2)] 0(3) by simp
    have "cwp code main (Join t (\<lambda>_. p)) g (k(t := Crash)) u Q" if u: "queue F u x [] n" "kept x w u" for u
    proof (rule join_dead [where us = "[]" and vs = "[]" and D = "{t}"])
      show "crew main (main # [] @ t # []) {t} u" using kept_crew [OF u(2)] w(1) by simp
      show "block t SIZEOF_LWT \<inter> v_free u = {}" using u(1) b by (simp add: queue_open)
      fix r y assume y: "crew main (main # [] @ []) {t} y" "v_free y = v_free u \<union> block t SIZEOF_LWT"
      then have "cquiet main (F \<union> block t SIZEOF_LWT) y"
        using crew_quiet [of main "{t}" y] u(1) ne by (simp add: queue_open)
      then show "cwp code main p g (k(t := Crash)) y Q" by (rule next_wp)
    qed (use t in simp_all)
    then have "cwp code main (Receiving x (\<lambda>r. Check (\<lambda>_ _. int j + 1 = r)
        (async_rcv_loop (Suc j) (i - Suc j + 0) x (Join t (\<lambda>_. p))))) g (k(t := Crash)) w Q"
      by (intro resume_nums_wp [OF ij(1) q]) simp
    then show "cwp code main (pos code k ?v main) g (k(t := Crash)) w Q"
      using 0(2,9) ij(2) by (simp add: pos_def)
  qed (use 0(1) ne in simp_all)
  moreover have "c_rcv_thd (cv_chan v x) \<noteq> hd (v_ring v)" using 0(1,4) ne by (simp add: crew_def)
  ultimately have "cwp code main (Deref x (Done NULL)) g k v Q" using x by (intro wp_deref) simp_all
  then show ?case by simp
next
  case (Suc m)
  let ?rest = "async_steam_loop (Suc i) m x (Deref x (Done NULL))"
  have snd: "cwp code main ?rest g k' w Q" if "queue F w x (nums j' i @ [int i + 1]) n" "kept x u w"
    "crew main [t, main] {} u" "t_ip (v_thd u main) = AfterSwitch" "c_rcv_thd (cv_chan u x) = main" "j' \<le> i" "i - j' < n"
    "k' main = Receiving x (\<lambda>r. Check (\<lambda>_ _. int j' + 1 = r) (async_rcv_loop (Suc j') (N - Suc j') x (Join t (\<lambda>_. p))))"
    for j' u w k'
    by (rule Suc.IH [where j = j']) (use that(1,3-8) Suc.prems(8) in \<open>simp_all add: kept_crew [OF that(2)] kept_fields(1,3) [OF that(2)]\<close>)
  show ?case
  proof (cases "i - j < n")
    case True
    have "cwp code main (Snd x (int i + 1) ?rest) g k v Q"
    proof (rule wp_send(2) [OF Suc.prems(3)])
      fix w assume "queue F w x (nums j i @ [int i + 1]) n" "kept x v w"
      then show "cwp code main ?rest g k w Q" by (rule snd) (use Suc.prems True in simp_all)
    qed (use True places_mono [OF F(1), of F "Suc (i - j)"] in simp_all)
    then show ?thesis by simp
  next
    case False
    then have full: "length (nums j i) = n" and ij: "j < i" using Suc.prems(6) F(2) by simp_all
    let ?w = "a_switch t [] main [] v" and ?k = "k(t := Sending x (int i + 1) ?rest)"
    have e: "N - Suc j = i - Suc j + Suc m" using Suc.prems(8) ij by simp
    have q: "queue F ?w x (nums j i) n" using Suc.prems(3) by simp
    have ip: "t_ip (v_thd ?w t) = AfterSwitch" by simp
    have cw: "crew main [main, t] {} ?w" using crew_switch [of main t "[]" main "[]" "{}" v] Suc.prems(1) by simp
    have "cwp code main (async_rcv_loop i (Suc m) x (Join t (\<lambda>_. p))) g ?k u Q"
      if u: "queue F u x [] n" "kept x ?w u" for u
    proof -
      have cu: "crew main (main # [] @ t # []) {} u" using kept_crew [OF u(2)] cw by simp
      let ?R = "\<lambda>r. Check (\<lambda>_ _. int i + 1 = r) (async_rcv_loop (Suc i) m x (Join t (\<lambda>_. p)))"
      let ?l = "?k(main := Receiving x ?R)" and ?u = "a_switch main [] t [] u"
      have qu: "queue F ?u x [] n" using u(1) by simp
      have "cwp code main (Sending x (int i + 1) ?rest) g ?l ?u Q"
      proof (rule wp_send(1) [OF qu])
        fix w assume w: "queue F w x ([] @ [int i + 1]) n" "kept x ?u w"
        show "cwp code main ?rest g ?l w Q"
        proof (rule snd [where j' = i, OF _ w(2)])
          show "crew main [t, main] {} ?u" using crew_switch [OF cu] by simp
          have "N - Suc i = m" using Suc.prems(8) by simp
          then show "?l main = Receiving x (\<lambda>r. Check (\<lambda>_ _. int i + 1 = r)
            (async_rcv_loop (Suc i) (N - Suc i) x (Join t (\<lambda>_. p))))" by simp
        qed (use w(1) Suc.prems(4) kept_fields [OF u(2)] F(2) in simp_all)
      qed (use F places_mono [OF F(1), of F 1] in simp_all)
      moreover have "pos code ?k u t = Sending x (int i + 1) ?rest"
        using kept_fields(1) [OF u(2)] ip by (simp add: pos_def)
      ultimately have "cwp code main (Rcv x ?R) g ?k u Q"
        using u(1) by (intro await_to [where n = n, OF cu]) (simp_all add: queue_open)
      then show ?thesis by simp
    qed
    then have "cwp code main (Receiving x (\<lambda>r. Check (\<lambda>_ _. int j + 1 = r)
        (async_rcv_loop (Suc j) (i - Suc j + Suc m) x (Join t (\<lambda>_. p))))) g ?k ?w Q"
      by (rule resume_nums_wp [OF ij q])
    then have "cwp code main (pos code k v main) g ?k ?w Q" using Suc.prems(2,9) e by (simp add: pos_def)
    then have "cwp code main (Snd x (int i + 1) ?rest) g k v Q"
      using Suc.prems(1) by (intro full_to(1) [where us = "[]" and vs = "[]" and z = main and D = "{}", OF _ _ _ Suc.prems(3) full]) simp_all
    then show ?thesis by simp
  qed
qed


lemma duo_crew:
  "duo main t v \<Longrightarrow> child main t v \<Longrightarrow> crew main [main, t] {} v"
  by (auto simp: duo_def child_def crew_def)

lemma test_perf_async_steam_wp:
  fixes p :: cprog
  assumes q: "cquiet main A v" and ne: "main \<noteq> NULL" "main \<notin> A" and sz: "0 \<le> sz" "sz < 1000000"
    and r: "room A (CHAN_BYTES sz + (SIZEOF_LWT + m))" and m: "2 * SIZEOF_MSG * int (CAP sz) \<le> m"
    and next_wp: "\<And>B w l. B \<subseteq> A \<Longrightarrow> room B m \<Longrightarrow> cquiet main B w \<Longrightarrow>
      cwp (chan_code jm) main p (g\<lparr>async_sz := sz\<rparr>) l w Q"
  shows "cwp (chan_code jm) main (test_perf_async_steam jm sz p) g k v Q"
  unfolding test_perf_async_steam_def
proof (rule ch.wp_act, rule wp_is_runnable [OF q], rule chan_thread_wp [OF q ne sz r])
  let ?g = "g\<lparr>async_sz := sz\<rparr>"
  show m0: "0 < m" using m CAP_pos [OF sz(1)] by (simp add: SIZEOF_MSG_def)
  fix x t w
  assume a: "0 < t" "duo main t w" "child main t w" "open_chan w x [] (CAP sz)" "t_ip (v_thd w t) = Trampoline"
    "t_fn (v_thd w t) = FN_ASYNC_STEAM" "t_data (v_thd w t) = x" "v_free w \<union> block t SIZEOF_LWT \<subseteq> A"
    "block t SIZEOF_LWT \<inter> v_free w = {}" "room (v_free w) m" "c_rcv_thd (cv_chan w x) = main"
  let ?F = "v_free w"
  have ne: "t \<noteq> main" using a(2) by (simp add: duo_def)
  obtain q where "block q (2 * SIZEOF_MSG * int (CAP sz)) \<subseteq> ?F"
    using room_mono [OF a(10) m subset_refl] unfolding room_def by blast
  from places_block [OF this] have pl: "places ?F (CAP sz)" .
  obtain n where n: "ITER = Suc n" by (rule ITER_Suc)
  let ?K = "\<lambda>r. Check (\<lambda>_ _. int 0 + 1 = r) (async_rcv_loop (Suc 0) n x (Join t (\<lambda>_. p)))"
  have end_wp: "cwp (chan_code jm) main p ?g l u Q" if "cquiet main (?F \<union> block t SIZEOF_LWT) u" for l u
    by (rule next_wp [OF a(8) _ that]) (rule room_mono [OF a(10)], auto)
  have "cwp (chan_code jm) main (async_steam_loop 0 ITER x (Deref x (Done NULL))) ?g
      (k(main := Receiving x ?K)) (a_switch main [] t [] w) Q"
  proof (rule async_wp [where j = 0 and N = ITER, OF pl CAP_pos [OF sz(1)] _ a(1) ne end_wp])
    show "crew main [t, main] {} (a_switch main [] t [] w)"
      using crew_switch [of main main "[]" t "[]" "{}" w] duo_crew [OF a(2,3)] by simp
  qed (use a in \<open>simp_all add: n queue_open Int_commute\<close>)
  then have "cwp (chan_code jm) main (chan_code jm (t_fn (v_thd w t)) (t_data (v_thd w t))) ?g
      (k(main := Receiving x ?K)) (a_switch main [] t [] w) Q"
    using a(6,7) by (simp add: chan_code_sel fn_async_steam_def)
  from wp_await(1) [OF a(2,4) duo_starts [OF a(2,5) this]]
  have "cwp (chan_code jm) main (async_rcv_loop 0 ITER x (Join t (\<lambda>_. p))) ?g k w Q" by (simp add: n)
  then show "cwp (chan_code jm) main (Check (\<lambda>s _. n_runnable s = 2) (async_rcv_loop 0 ITER x (Join t (\<lambda>_. p)))) ?g k w Q"
    using a(2) by (intro ch.wp_counts(2)) (simp_all add: duo_def)
qed


subsection \<open>Two senders\<close>

lemma pos_simps [simp]:
  "z \<noteq> c \<Longrightarrow> pos code k (a_switch c us y vs v) z = pos code k v z"
  "z \<noteq> c \<Longrightarrow> pos code (k(c := q)) v z = pos code k v z"
  "pos code (k(c := q)) (a_switch c us y vs v) c = q"
  by (simp_all add: pos_def)

abbreviation Got :: "nat \<Rightarrow> addr \<Rightarrow> addr list \<Rightarrow> int \<Rightarrow> (addr list \<Rightarrow> int \<Rightarrow> cprog) \<Rightarrow> addr \<Rightarrow> cprog" where
  "Got n c ret maxcnt kk \<equiv> \<lambda>r. Load (\<lambda>g.
     let maxcnt1 = (if sndrcv_cnt g > maxcnt then sndrcv_cnt g else maxcnt) in
     Act (\<lambda>g. g\<lparr>sndrcv_cnt := sndrcv_cnt g - 1\<rparr>) (multisend_loop n c (ret @ [r]) maxcnt1 kk))"

lemma got_wp:
  "cwp code main (multisend_loop n c (ret @ [r]) (max i mx) kk) (g\<lparr>sndrcv_cnt := i - 1\<rparr>) k v Q \<Longrightarrow>
     cwp code main (Got n c ret mx kk r) (g\<lparr>sndrcv_cnt := i\<rparr>) k v Q"
  by (rule ch.wp_load) (auto simp: Let_def max_def not_less intro!: ch.wp_act)

lemma drain_wp:
  assumes "queue F v x ds n"
    and "\<And>w mx'. queue F w x [] n \<Longrightarrow> kept x v w \<Longrightarrow> mx \<le> mx' \<Longrightarrow> ds \<noteq> [] \<longrightarrow> int (length ds) \<le> mx' \<Longrightarrow>
      cwp code main (multisend_loop m x (ret @ ds) mx' kk) (g\<lparr>sndrcv_cnt := 0\<rparr>) k w Q"
  shows "cwp code main (multisend_loop (length ds + m) x ret mx kk) (g\<lparr>sndrcv_cnt := int (length ds)\<rparr>) k v Q"
  using assms
proof (induction ds arbitrary: v ret mx)
  case Nil
  then show ?case using kept_refl [of x v] by simp
next
  case (Cons d ds)
  have "cwp code main (Rcv x (Got (length ds + m) x ret mx kk)) (g\<lparr>sndrcv_cnt := 1 + int (length ds)\<rparr>) k v Q"
  proof (rule wp_receive(2) [OF Cons.prems(1)], rule got_wp)
    fix w assume w: "queue F w x ds n" "kept x v w"
    have "cwp code main (multisend_loop (length ds + m) x (ret @ [d]) (max (1 + int (length ds)) mx) kk)
        (g\<lparr>sndrcv_cnt := int (length ds)\<rparr>) k w Q"
      by (rule Cons.IH [OF w(1)]) (use Cons.prems(2) kept_trans [OF w(2)] in auto)
    then show "cwp code main (multisend_loop (length ds + m) x (ret @ [d]) (max (1 + int (length ds)) mx) kk)
        (g\<lparr>sndrcv_cnt := 1 + int (length ds) - 1\<rparr>) k w Q" by simp
  qed
  then show ?case by simp
qed

lemma resume_wp:
  assumes "queue F v x ds n" and "ds \<noteq> []"
    and "\<And>w mx'. queue F w x [] n \<Longrightarrow> kept x v w \<Longrightarrow> mx \<le> mx' \<Longrightarrow> int (length ds) \<le> mx' \<Longrightarrow>
      cwp code main (multisend_loop m x (ret @ ds) mx' kk) (g\<lparr>sndrcv_cnt := 0\<rparr>) k w Q"
  shows "cwp code main (Receiving x (Got (length ds + m - 1) x ret mx kk)) (g\<lparr>sndrcv_cnt := int (length ds)\<rparr>) k v Q"
proof -
  obtain d es where ds: "ds = d # es" using assms(2) by (cases ds) auto
  have "cwp code main (Receiving x (Got (length es + m) x ret mx kk)) (g\<lparr>sndrcv_cnt := 1 + int (length es)\<rparr>) k v Q"
  proof (rule wp_receive(1) [OF assms(1) [unfolded ds]], rule got_wp)
    fix w assume w: "queue F w x es n" "kept x v w"
    have "cwp code main (multisend_loop (length es + m) x (ret @ [d]) (max (1 + int (length es)) mx) kk)
        (g\<lparr>sndrcv_cnt := int (length es)\<rparr>) k w Q"
      by (rule drain_wp [OF w(1)]) (use assms(3) ds kept_trans [OF w(2)] in auto)
    then show "cwp code main (multisend_loop (length es + m) x (ret @ [d]) (max (1 + int (length es)) mx) kk)
        (g\<lparr>sndrcv_cnt := 1 + int (length es) - 1\<rparr>) k w Q" by simp
  qed
  then show ?thesis by (simp add: ds)
qed

text \<open>A sender that starts, or goes on, with a send.\<close>

fun sends :: "(addr \<Rightarrow> addr \<Rightarrow> chan_sys \<Rightarrow> (addr outcome \<times> chan_sys) result) \<Rightarrow> nat \<Rightarrow> addr \<Rightarrow> addr \<Rightarrow> cprog" where
  "sends op 0 c d = Done NULL"
| "sends op (Suc n) c d = Op (op c d) (lwt_snd_resume c d)
     (\<lambda>_. Act (\<lambda>g. g\<lparr>sndrcv_cnt := sndrcv_cnt g + 1\<rparr>) (snder_loop n c d))"

lemma snder_sends: "snder_loop n c d = sends lwt_snd n c d"
  by (cases n) simp_all

abbreviation send_op :: "(addr \<Rightarrow> addr \<Rightarrow> chan_sys \<Rightarrow> (addr outcome \<times> chan_sys) result) \<Rightarrow> bool" where
  "send_op op \<equiv> op = lwt_snd \<or> op = lwt_snd_resume"

lemma sends_room:
  assumes "queue F v x ds n" and "length ds < n" and F: "places F n" and "d \<noteq> NULL" and op: "send_op op"
    and next_wp: "\<And>w. queue F w x (ds @ [d]) n \<Longrightarrow> kept x v w \<Longrightarrow>
      cwp code main (snder_loop b x d) (g\<lparr>sndrcv_cnt := int (length (ds @ [d]))\<rparr>) k w Q"
  shows "cwp code main (sends op (Suc b) x d) (g\<lparr>sndrcv_cnt := int (length ds)\<rparr>) k v Q"
proof -
  have pl: "places F (Suc (length ds))" using places_mono [OF F, of F "Suc (length ds)"] assms(2) by simp
  have "cwp code main (Act (\<lambda>g. g\<lparr>sndrcv_cnt := sndrcv_cnt g + 1\<rparr>) (snder_loop b x d))
      (g\<lparr>sndrcv_cnt := int (length ds)\<rparr>) k w Q" if "queue F w x (ds @ [d]) n" "kept x v w" for w
    using next_wp [OF that] by (intro ch.wp_act) (simp add: add.commute)
  with op show ?thesis
    using wp_send [OF assms(1,2) pl assms(4), where kk = "\<lambda>_. Act (\<lambda>g. g\<lparr>sndrcv_cnt := sndrcv_cnt g + 1\<rparr>) (snder_loop b x d)"]
    by auto
qed

lemma sends_full:
  assumes "crew main (c # us @ z # vs) D v" and "set us \<subseteq> D" and "z \<notin> D"
    and "queue F v x ds n" and "length ds = n" and "d \<noteq> NULL" and op: "send_op op"
    and "cwp code main (pos code k v z) g (k(c := sends lwt_snd_resume (Suc b) x d)) (a_switch c us z vs v) Q"
  shows "cwp code main (sends op (Suc b) x d) g k v Q"
  using op full_to [OF assms(1-6), where k = k and code = code and g = g and Q = Q
      and p = "Act (\<lambda>g. g\<lparr>sndrcv_cnt := sndrcv_cnt g + 1\<rparr>) (snder_loop b x d)"] assms(8)
  by auto


abbreviation Sum_up :: "addr \<Rightarrow> addr \<Rightarrow> int \<Rightarrow> cprog \<Rightarrow> addr list \<Rightarrow> int \<Rightarrow> cprog" where
  "Sum_up t1 t2 chsz p \<equiv> \<lambda>ret maxcnt. Join t1 (\<lambda>_. Join t2 (\<lambda>_.
     Check (\<lambda>_ _. \<forall>r\<in>set ret. r = 1 \<or> r = 2)
    (Check (\<lambda>_ _. sum_list ret = int ITER * 1 + int ITER * 2)
    (Check (\<lambda>_ _. maxcnt \<ge> chsz) p))))"

text \<open>All that is sent, in the order of the sends.\<close>

definition SENT :: "addr list" where
  "SENT = replicate ITER 2 @ replicate ITER 1"

lemma SENT_facts: "length SENT = 2 * ITER" "\<forall>r\<in>set SENT. r = 1 \<or> r = 2"
  "sum_list SENT = int ITER * 1 + int ITER * 2"
  by (auto simp: SENT_def sum_list_replicate)

lemma sum_up_wp:
  assumes "crew main [main, t1, t2] {t1, t2} v" and "queue F v x [] n" and "0 < t1" "0 < t2"
    and "block t1 SIZEOF_LWT \<inter> F = {}" "block t2 SIZEOF_LWT \<inter> F = {}" "block t1 SIZEOF_LWT \<inter> block t2 SIZEOF_LWT = {}"
    and "chsz \<le> mx" and "main \<noteq> t1" "main \<noteq> t2"
    and next_wp: "\<And>w. cquiet main (F \<union> block t1 SIZEOF_LWT \<union> block t2 SIZEOF_LWT) w \<Longrightarrow> cwp code main p g k w Q"
  shows "cwp code main (Sum_up t1 t2 chsz p SENT mx) g k v Q"
proof (rule join_dead [where us = "[]" and vs = "[t2]" and D = "{t1, t2}"])
  have F: "v_free v = F" using assms(2) by (simp add: queue_open)
  show "block t1 SIZEOF_LWT \<inter> v_free v = {}" using assms(5) F by simp
  fix w assume w: "crew main (main # [] @ [t2]) {t1, t2} w" "v_free w = v_free v \<union> block t1 SIZEOF_LWT"
  let ?C = "Check (\<lambda>_ _. \<forall>r\<in>set SENT. r = 1 \<or> r = 2)
    (Check (\<lambda>_ _. sum_list SENT = int ITER * 1 + int ITER * 2) (Check (\<lambda>_ _. mx \<ge> chsz) p))"
  show "cwp code main (Join t2 (\<lambda>_. ?C)) g k w Q"
  proof (rule join_dead [where us = "[]" and vs = "[]" and D = "{t1, t2}"])
    show "block t2 SIZEOF_LWT \<inter> v_free w = {}" using w(2) assms(6,7) F by (simp add: Int_Un_distrib Int_commute)
    fix u assume u: "crew main (main # [] @ []) {t1, t2} u" "v_free u = v_free w \<union> block t2 SIZEOF_LWT"
    have "cquiet main (F \<union> block t1 SIZEOF_LWT \<union> block t2 SIZEOF_LWT) u"
      using crew_quiet [of main "{t1, t2}" u] u w(2) F assms(9,10) by simp
    then have "cwp code main p g k u Q" by (rule next_wp)
    then show "cwp code main ?C g k u Q" using SENT_facts(2,3) assms(8) by (intro ch.wp_check) simp_all
  qed (use w(1) assms(4) in simp_all)
qed (use assms in simp_all)

text \<open>\<open>main\<close> waits after the messages \<open>ret\<close>.\<close>

abbreviation Awaits :: "addr \<Rightarrow> addr list \<Rightarrow> int \<Rightarrow> (addr list \<Rightarrow> int \<Rightarrow> cprog) \<Rightarrow> cprog" where
  "Awaits x ret mx kk \<equiv> Receiving x (Got (2 * ITER - Suc (length ret)) x ret mx kk)"

lemma second_sender_wp:
  assumes F: "places F n" "0 < n" and sz: "chsz \<le> int n" "chsz \<le> 2 * int ITER" and t: "0 < t1" "0 < t2"
    and b: "block t1 SIZEOF_LWT \<inter> F = {}" "block t2 SIZEOF_LWT \<inter> F = {}" "block t1 SIZEOF_LWT \<inter> block t2 SIZEOF_LWT = {}"
    and ne: "main \<noteq> t1" "main \<noteq> t2" "t1 \<noteq> t2"
    and next_wp: "\<And>w l. cquiet main (F \<union> block t1 SIZEOF_LWT \<union> block t2 SIZEOF_LWT) w \<Longrightarrow>
      cwp code main p (g\<lparr>sndrcv_cnt := 0\<rparr>) l w Q"
  shows "crew main [t2, main, t1] {t1} v \<Longrightarrow> queue F v x ds n \<Longrightarrow> length ds \<le> n \<Longrightarrow>
    ret @ ds @ replicate r 1 = SENT \<Longrightarrow> length ret < 2 * ITER \<Longrightarrow> chsz \<le> mx \<or> ret = [] \<Longrightarrow>
    pos code k v main = Awaits x ret mx (Sum_up t1 t2 chsz p) \<Longrightarrow> send_op op \<Longrightarrow>
    cwp code main (sends op r x 1) (g\<lparr>sndrcv_cnt := int (length ds)\<rparr>) k v Q"
proof (induction r arbitrary: v k ds ret mx op)
  case 0
  note S = 0(4) [THEN arg_cong, of length]
  have "cwp code main (Done NULL) (g\<lparr>sndrcv_cnt := int (length ds)\<rparr>) k v Q"
  proof (rule die_to [where us = "[]" and vs = "[t1]" and z = main and D = "{t1}" and c = t2])
    fix w assume w: "crew main (main # [t1] @ t2 # []) (insert t2 {t1}) w" "gone t2 v w"
    have q: "queue F w x ds n" using gone_queue [OF w(2)] 0(2) by simp
    have ds: "ds \<noteq> []" "2 * ITER - Suc (length ret) = length ds + 0 - 1" using S 0(5) SENT_facts(1) by auto
    have "cwp code main (Receiving x (Got (length ds + 0 - 1) x ret mx (Sum_up t1 t2 chsz p)))
        (g\<lparr>sndrcv_cnt := int (length ds)\<rparr>) (k(t2 := Crash)) w Q"
    proof (rule resume_wp [OF q ds(1)])
      fix u mx' assume u: "queue F u x [] n" "kept x w u" "mx \<le> mx'" "int (length ds) \<le> mx'"
      have "chsz \<le> mx'" using 0(6) u(3,4) S SENT_facts(1) sz(2) by auto
      then have "cwp code main (Sum_up t1 t2 chsz p SENT mx') (g\<lparr>sndrcv_cnt := 0\<rparr>) (k(t2 := Crash)) u Q"
        using w(1) kept_crew [OF u(2)] t b ne next_wp
        by (intro sum_up_wp [OF _ u(1)]) (simp_all add: insert_commute)
      then show "cwp code main (multisend_loop 0 x (ret @ ds) mx' (Sum_up t1 t2 chsz p))
          (g\<lparr>sndrcv_cnt := 0\<rparr>) (k(t2 := Crash)) u Q" using 0(4) by simp
    qed
    then show "cwp code main (pos code k v main) (g\<lparr>sndrcv_cnt := int (length ds)\<rparr>) (k(t2 := Crash)) w Q"
      using 0(7) ds(2) by simp
  qed (use 0(1) ne in simp_all)
  then show ?case by simp
next
  case (Suc r)
  note S = Suc.prems(4) [THEN arg_cong, of length]
  have cr: "crew main (t2 # [] @ main # [t1]) {t1} v" using Suc.prems(1) by simp
  show ?case
  proof (cases "length ds < n")
    case True
    show ?thesis
    proof (rule sends_room [OF Suc.prems(2) True F(1) _ Suc.prems(8)])
      fix w assume w: "queue F w x (ds @ [1]) n" "kept x v w"
      show "cwp code main (snder_loop r x 1) (g\<lparr>sndrcv_cnt := int (length (ds @ [1]))\<rparr>) k w Q"
        unfolding snder_sends
        by (rule Suc.IH [OF _ w(1), where ret = ret and mx = mx])
          (use Suc.prems True kept_crew [OF w(2)] kept_pos [OF w(2)] in simp_all)
    qed simp
  next
    case False
    then have full: "length ds = n" "ds \<noteq> []" using Suc.prems(3) F(2) by auto
    let ?w = "a_switch t2 [] main [t1] v" and ?k = "k(t2 := sends lwt_snd_resume (Suc r) x 1)"
    have q: "queue F ?w x ds n" using Suc.prems(2) by simp
    have e: "2 * ITER - Suc (length ret) = length ds + Suc r - 1" using S SENT_facts(1) by simp
    have "cwp code main (Receiving x (Got (length ds + Suc r - 1) x ret mx (Sum_up t1 t2 chsz p)))
        (g\<lparr>sndrcv_cnt := int (length ds)\<rparr>) ?k ?w Q"
    proof (rule resume_wp [OF q full(2)])
      fix u mx' assume u: "queue F u x [] n" "kept x ?w u" "mx \<le> mx'" "int (length ds) \<le> mx'"
      have cu: "crew main (main # [t1] @ t2 # []) {t1} u" using kept_crew [OF u(2)] crew_switch [OF cr] by simp
      let ?ret = "ret @ ds"
      have e2: "2 * ITER - Suc (length ?ret) = r" "length ?ret < 2 * ITER" using S SENT_facts(1) by simp_all
      let ?u = "a_switch main [t1] t2 [] u" and ?l = "?k(main := Awaits x ?ret mx' (Sum_up t1 t2 chsz p))"
      have qu: "queue F ?u x [] n" using u(1) by simp
      have "cwp code main (sends lwt_snd_resume (Suc r) x 1) (g\<lparr>sndrcv_cnt := int (length ([] :: addr list))\<rparr>) ?l ?u Q"
      proof (rule sends_room [OF qu])
        fix y assume y: "queue F y x ([] @ [1]) n" "kept x ?u y"
        show "cwp code main (snder_loop r x 1) (g\<lparr>sndrcv_cnt := int (length ([] @ [1 :: addr]))\<rparr>) ?l y Q"
          unfolding snder_sends
        proof (rule Suc.IH [OF _ y(1), where ret = ?ret and mx = mx'])
          show "crew main [t2, main, t1] {t1} y" using kept_crew [OF y(2)] crew_switch [OF cu] by simp
          show "chsz \<le> mx' \<or> ?ret = []" using sz(1) u(4) full(1) by simp
          show "pos code ?l y main = Awaits x ?ret mx' (Sum_up t1 t2 chsz p)" by (simp add: kept_pos [OF y(2)])
        qed (use Suc.prems(4) F(2) e2(2) in simp_all)
      qed (use F in simp_all)
      moreover have "pos code ?k u t2 = sends lwt_snd_resume (Suc r) x 1" by (simp add: kept_pos [OF u(2)])
      ultimately have "cwp code main (Rcv x (Got r x ?ret mx' (Sum_up t1 t2 chsz p))) (g\<lparr>sndrcv_cnt := 0\<rparr>) ?k u Q"
        using u(1) ne e2(1) by (intro await_to [where n = n, OF cu]) (simp_all add: queue_open)
      then show "cwp code main (multisend_loop (Suc r) x ?ret mx' (Sum_up t1 t2 chsz p)) (g\<lparr>sndrcv_cnt := 0\<rparr>) ?k u Q"
        by simp
    qed
    then show ?thesis
      using Suc.prems(7,8) e ne full(1) by (intro sends_full [OF cr _ _ Suc.prems(2)]) simp_all
  qed
qed

lemma first_sender_wp:
  assumes F: "places F n" "0 < n" and sz: "chsz \<le> int n" "chsz \<le> 2 * int ITER" and t: "0 < t1" "0 < t2"
    and b: "block t1 SIZEOF_LWT \<inter> F = {}" "block t2 SIZEOF_LWT \<inter> F = {}" "block t1 SIZEOF_LWT \<inter> block t2 SIZEOF_LWT = {}"
    and ne: "main \<noteq> t1" "main \<noteq> t2" "t1 \<noteq> t2"
    and next_wp: "\<And>w l. cquiet main (F \<union> block t1 SIZEOF_LWT \<union> block t2 SIZEOF_LWT) w \<Longrightarrow>
      cwp code main p (g\<lparr>sndrcv_cnt := 0\<rparr>) l w Q"
  shows "crew main [t1, t2, main] {} v \<Longrightarrow> queue F v x ds n \<Longrightarrow> length ds \<le> n \<Longrightarrow>
    ret @ ds @ replicate r 2 @ replicate ITER 1 = SENT \<Longrightarrow> chsz \<le> mx \<or> ret = [] \<Longrightarrow>
    pos code k v main = Awaits x ret mx (Sum_up t1 t2 chsz p) \<Longrightarrow> pos code k v t2 = sends op2 ITER x 1 \<Longrightarrow>
    send_op op2 \<Longrightarrow> send_op op \<Longrightarrow>
    cwp code main (sends op r x 2) (g\<lparr>sndrcv_cnt := int (length ds)\<rparr>) k v Q"
proof (induction r arbitrary: v k ds ret mx op op2)
  case 0
  note S = 0(4) [THEN arg_cong, of length]
  have L: "length ret < 2 * ITER" using S SENT_facts(1) by (simp add: ITER_def)
  have "cwp code main (Done NULL) (g\<lparr>sndrcv_cnt := int (length ds)\<rparr>) k v Q"
  proof (rule die_to [where us = "[]" and vs = "[main]" and z = t2 and D = "{}" and c = t1])
    fix w assume w: "crew main (t2 # [main] @ t1 # []) {t1} w" "gone t1 v w"
    have "cwp code main (sends op2 ITER x 1) (g\<lparr>sndrcv_cnt := int (length ds)\<rparr>) (k(t1 := Crash)) w Q"
      by (rule second_sender_wp [where ret = ret and mx = mx, OF F sz t b ne next_wp])
        (use 0 w gone_queue [OF w(2)] gone_pos [OF w(2)] ne L in simp_all)
    then show "cwp code main (pos code k v t2) (g\<lparr>sndrcv_cnt := int (length ds)\<rparr>) (k(t1 := Crash)) w Q"
      using 0(7) by simp
  qed (use 0(1) ne in simp_all)
  then show ?case by simp
next
  case (Suc r)
  note S = Suc.prems(4) [THEN arg_cong, of length]
  obtain N where N: "ITER = Suc N" by (rule ITER_Suc)
  have cr: "crew main (t1 # [] @ t2 # [main]) {} v" using Suc.prems(1) by simp
  show ?case
  proof (cases "length ds < n")
    case True
    show ?thesis
    proof (rule sends_room [OF Suc.prems(2) True F(1) _ Suc.prems(9)])
      fix w assume w: "queue F w x (ds @ [2]) n" "kept x v w"
      show "cwp code main (snder_loop r x 2) (g\<lparr>sndrcv_cnt := int (length (ds @ [2]))\<rparr>) k w Q"
        unfolding snder_sends
        by (rule Suc.IH [OF _ w(1), where ret = ret and mx = mx and ?op2.0 = op2])
          (use Suc.prems True kept_crew [OF w(2)] kept_pos [OF w(2)] in simp_all)
    qed simp
  next
    case False
    then have full: "length ds = n" "ds \<noteq> []" using Suc.prems(3) F(2) by auto
    let ?w = "a_switch t1 [] t2 [main] v" and ?k = "k(t1 := sends lwt_snd_resume (Suc r) x 2)"
    have cw: "crew main (t2 # [] @ main # [t1]) {} ?w" using crew_switch [OF cr] by simp
    let ?z = "a_switch t2 [] main [t1] ?w" and ?l = "?k(t2 := sends lwt_snd_resume (Suc N) x 1)"
    have cz: "crew main [main, t1, t2] {} ?z" using crew_switch [OF cw] by simp
    have q: "queue F ?w x ds n" and qz: "queue F ?z x ds n" using Suc.prems(2) by simp_all
    have e: "2 * ITER - Suc (length ret) = length ds + (Suc r + ITER) - 1" using S SENT_facts(1) by simp
    have "cwp code main (Receiving x (Got (length ds + (Suc r + ITER) - 1) x ret mx (Sum_up t1 t2 chsz p)))
        (g\<lparr>sndrcv_cnt := int (length ds)\<rparr>) ?l ?z Q"
    proof (rule resume_wp [OF qz full(2)])
      fix u mx' assume u: "queue F u x [] n" "kept x ?z u" "mx \<le> mx'" "int (length ds) \<le> mx'"
      have cu: "crew main (main # [] @ t1 # [t2]) {} u" using kept_crew [OF u(2)] cz by simp
      let ?ret = "ret @ ds"
      have e2: "2 * ITER - Suc (length ?ret) = r + ITER" using S SENT_facts(1) by simp
      let ?u = "a_switch main [] t1 [t2] u" and ?m = "?l(main := Awaits x ?ret mx' (Sum_up t1 t2 chsz p))"
      have qu: "queue F ?u x [] n" using u(1) by simp
      have "cwp code main (sends lwt_snd_resume (Suc r) x 2) (g\<lparr>sndrcv_cnt := int (length ([] :: addr list))\<rparr>) ?m ?u Q"
      proof (rule sends_room [OF qu])
        fix y assume y: "queue F y x ([] @ [2]) n" "kept x ?u y"
        show "cwp code main (snder_loop r x 2) (g\<lparr>sndrcv_cnt := int (length ([] @ [2 :: addr]))\<rparr>) ?m y Q"
          unfolding snder_sends
        proof (rule Suc.IH [OF _ y(1), where ret = ?ret and mx = mx' and ?op2.0 = lwt_snd_resume])
          show "crew main [t1, t2, main] {} y" using kept_crew [OF y(2)] crew_switch [OF cu] by simp
          show "chsz \<le> mx' \<or> ?ret = []" using sz(1) u(4) full(1) by simp
          show "pos code ?m y main = Awaits x ?ret mx' (Sum_up t1 t2 chsz p)" by (simp add: kept_pos [OF y(2)])
          show "pos code ?m y t2 = sends lwt_snd_resume ITER x 1"
            using ne by (simp add: N kept_pos [OF y(2)] kept_pos [OF u(2)])
        qed (use Suc.prems(4) F(2) in simp_all)
      qed (use F in simp_all)
      moreover have "pos code ?l u t1 = sends lwt_snd_resume (Suc r) x 2"
        using ne by (simp add: kept_pos [OF u(2)])
      ultimately have "cwp code main (Rcv x (Got (r + ITER) x ?ret mx' (Sum_up t1 t2 chsz p))) (g\<lparr>sndrcv_cnt := 0\<rparr>) ?l u Q"
        using u(1) ne e2 by (intro await_to [where n = n, OF cu]) (simp_all add: queue_open)
      then show "cwp code main (multisend_loop (Suc r + ITER) x ?ret mx' (Sum_up t1 t2 chsz p)) (g\<lparr>sndrcv_cnt := 0\<rparr>) ?l u Q"
        by simp
    qed
    then have "cwp code main (sends op2 (Suc N) x 1) (g\<lparr>sndrcv_cnt := int (length ds)\<rparr>) ?k ?w Q"
      using Suc.prems(6,8) e ne full(1) by (intro sends_full [OF cw _ _ q]) simp_all
    then show ?thesis
      using Suc.prems(7,9) ne full(1) N by (intro sends_full [OF cr _ _ Suc.prems(2)]) simp_all
  qed
qed

lemma test_multisend_wp:
  fixes p :: cprog
  assumes q: "cquiet main A v" and ne: "main \<noteq> NULL" "main \<notin> A" and sz: "0 \<le> sz" "sz < 1000000" "sz \<le> 2 * int ITER"
    and r: "room A (CHAN_BYTES sz + (SIZEOF_LWT + (SIZEOF_LWT + m)))" and m: "2 * SIZEOF_MSG * int (CAP sz) \<le> m"
    and g: "sndrcv_cnt g = 0"
    and next_wp: "\<And>B w l. B \<subseteq> A \<Longrightarrow> room B m \<Longrightarrow> cquiet main B w \<Longrightarrow> cwp (chan_code jm) main p g l w Q"
  shows "cwp (chan_code jm) main (test_multisend jm sz p) g k v Q"
  unfolding test_multisend_def
proof (rule chan_thread_wp [OF q ne sz(1,2) r])
  have m0: "0 < m" using m CAP_pos [OF sz(1)] by (simp add: SIZEOF_MSG_def)
  then show "0 < SIZEOF_LWT + m" by (simp add: SIZEOF_LWT_def)
  have gg: "g\<lparr>sndrcv_cnt := 0\<rparr> = g" using g by (cases g) simp
  fix x t1 w
  assume a: "0 < x" "0 < t1" "duo main t1 w" "child main t1 w" "open_chan w x [] (CAP sz)" "t_ip (v_thd w t1) = Trampoline"
    "t_fn (v_thd w t1) = FN_SNDER_2" "t_data (v_thd w t1) = x" "v_free w \<union> block t1 SIZEOF_LWT \<subseteq> A"
    "block t1 SIZEOF_LWT \<inter> v_free w = {}" "room (v_free w) (SIZEOF_LWT + m)"
  have ring: "v_ring w = [main, t1]" "main \<noteq> t1" using a(3) by (auto simp: duo_def)
  have t1w: "t1 \<notin> v_free w" using a(10) block_starts(3) [of t1, OF subset_refl] by blast
  show "cwp (chan_code jm) main (Create FN_SNDER_1 x LWT_DEFAULT (\<lambda>t2.
      multisend_loop (ITER * 2) x [] 0 (Sum_up t1 t2 sz p))) g k w Q"
  proof (rule ch.wp_create)
    show "room (v_free w) SIZEOF_LWT" using room_mono [OF a(11), of SIZEOF_LWT] m0 by simp
    show "set (v_ring w) \<inter> v_free w = {}" using ring t1w ne(2) a(9) by auto
    fix t2
    assume t: "0 < t2" "t2 \<notin> set (v_ring w)" "block t2 SIZEOF_LWT \<subseteq> v_free w"
      and left: "\<forall>n. 0 < n \<longrightarrow> room (v_free w) (SIZEOF_LWT + n) \<longrightarrow> room (v_free w - block t2 SIZEOF_LWT) n"
    let ?w = "a_create t2 FN_SNDER_1 x LWT_DEFAULT w" and ?F = "v_free w - block t2 SIZEOF_LWT"
    have tn: "main \<noteq> t2" "t1 \<noteq> t2" "t2 \<noteq> NULL" using t ring by auto
    have cr: "crew main (main # [] @ t1 # [t2]) {} ?w"
      using crew_create [OF duo_crew [OF a(3,4)] _ tn(3,1), of FN_SNDER_1 x] t(2) ring(1) by simp
    have rF: "room ?F m" using left m0 a(11) by blast
    obtain b where "block b (2 * SIZEOF_MSG * int (CAP sz)) \<subseteq> ?F"
      using room_mono [OF rF m subset_refl] unfolding room_def by blast
    from places_block [OF this] have pl: "places ?F (CAP sz)" .
    have e: "?F \<union> block t1 SIZEOF_LWT \<union> block t2 SIZEOF_LWT = v_free w \<union> block t1 SIZEOF_LWT" using t(3) by blast
    have end_wp: "cwp (chan_code jm) main p (g\<lparr>sndrcv_cnt := 0\<rparr>) l u Q"
      if "cquiet main (?F \<union> block t1 SIZEOF_LWT \<union> block t2 SIZEOF_LWT) u" for l u
    proof -
      have "room (v_free w \<union> block t1 SIZEOF_LWT) m" by (rule room_mono [OF rF]) auto
      from next_wp [OF a(9) this] that show ?thesis unfolding e gg .
    qed
    have bl: "block t1 SIZEOF_LWT \<inter> ?F = {}" "block t2 SIZEOF_LWT \<inter> ?F = {}"
      "block t1 SIZEOF_LWT \<inter> block t2 SIZEOF_LWT = {}" using a(10) t(3) by auto
    obtain N where N: "ITER = Suc N" by (rule ITER_Suc)
    let ?K = "Sum_up t1 t2 sz p" and ?z = "a_switch main [] t1 [t2] ?w"
    let ?k = "k(main := Awaits x [] 0 ?K)"
    have "cwp (chan_code jm) main (sends lwt_snd ITER x 2) (g\<lparr>sndrcv_cnt := int (length ([] :: addr list))\<rparr>) ?k ?z Q"
    proof (rule first_sender_wp [OF pl CAP_pos [OF sz(1)] _ sz(3) a(2) t(1) bl ring(2) tn(1,2) end_wp, where ret = "[]" and mx = 0
        and ?op2.0 = lwt_snd])
      show "crew main [t1, t2, main] {} ?z" using crew_switch [OF cr] by simp
      show "queue ?F ?z x [] (CAP sz)" using a(5) by (simp add: queue_open)
      show "sz \<le> int (CAP sz)" using sz(1) by (simp add: CAP_def)
      show "pos (chan_code jm) ?k ?z t2 = sends lwt_snd ITER x 1"
        using tn by (simp add: pos_def chan_code_sel fn_snder_1_def fn_snder_def snder_sends)
    qed (simp_all add: SENT_def)
    moreover have "pos (chan_code jm) k ?w t1 = sends lwt_snd ITER x 2"
      using a(6-8) tn(2) by (simp add: pos_def chan_code_sel fn_snder_2_def fn_snder_def snder_sends a_create_def a_set_def)
    ultimately have "cwp (chan_code jm) main (Rcv x (Got (2 * ITER - Suc 0) x [] 0 ?K)) (g\<lparr>sndrcv_cnt := 0\<rparr>) k ?w Q"
      using a(5) ring(2) by (intro await_to [where n = "CAP sz", OF cr]) simp_all
    moreover have "ITER * 2 = Suc (2 * ITER - Suc 0)" by (simp add: N)
    ultimately show "cwp (chan_code jm) main (multisend_loop (ITER * 2) x [] 0 ?K) g k ?w Q"
      unfolding gg by (simp only: multisend_loop.simps)
  qed
qed


subsection \<open>From the constructor on\<close>

text \<open>The first thread is alone and \<open>n\<close> bytes in a row are free.\<close>

definition ready_for :: "addr \<Rightarrow> int \<Rightarrow> cview \<Rightarrow> bool" where
  "ready_for main n v \<longleftrightarrow> (\<exists>A. cquiet main A v \<and> main \<noteq> NULL \<and> main \<notin> A \<and> room A n)"

definition ASYNC_BYTES :: "int \<Rightarrow> int" where
  "ASYNC_BYTES sz = CHAN_BYTES sz + SIZEOF_LWT + 2 * SIZEOF_MSG * int (CAP sz)"

definition MULTI_BYTES :: "int \<Rightarrow> int" where
  "MULTI_BYTES sz = CHAN_BYTES sz + SIZEOF_LWT + SIZEOF_LWT + 2 * SIZEOF_MSG * int (CAP sz)"

lemma perf_step:
  assumes v: "ready_for main (PERF_BYTES sz + m) v" and "32 \<le> m" and "0 \<le> sz" "sz < 1000000"
    and next_wp: "\<And>w l. ready_for main m w \<Longrightarrow> cwp (chan_code jm) main p g l w Q"
  shows "cwp (chan_code jm) main (test_perf_channels jm sz p) g k v Q"
proof -
  from v obtain A where A: "cquiet main A v" "main \<noteq> NULL" "main \<notin> A" "room A (PERF_BYTES sz + m)"
    by (auto simp: ready_for_def)
  show ?thesis
    by (rule test_perf_channels_wp [OF A assms(2-4)], rule next_wp) (use A(2,3) in \<open>auto simp: ready_for_def\<close>)
qed

lemma async_step:
  assumes v: "ready_for main (ASYNC_BYTES sz + m) v" and "0 \<le> m" and "0 \<le> sz" "sz < 1000000"
    and next_wp: "\<And>w l. ready_for main m w \<Longrightarrow> cwp (chan_code jm) main p (g\<lparr>async_sz := sz\<rparr>) l w Q"
  shows "cwp (chan_code jm) main (test_perf_async_steam jm sz p) g k v Q"
proof -
  let ?m = "2 * SIZEOF_MSG * int (CAP sz) + m"
  from v obtain A where A: "cquiet main A v" "main \<noteq> NULL" "main \<notin> A" "room A (CHAN_BYTES sz + (SIZEOF_LWT + ?m))"
    by (auto simp: ready_for_def ASYNC_BYTES_def add.assoc)
  have n: "2 * SIZEOF_MSG * int (CAP sz) \<le> ?m" "m \<le> ?m" using assms(2) by (simp_all add: SIZEOF_MSG_def)
  show ?thesis
    by (rule test_perf_async_steam_wp [OF A(1-3) assms(3,4) A(4) n(1)], rule next_wp)
      (use A(2,3) room_mono [OF _ n(2) subset_refl] in \<open>auto simp: ready_for_def\<close>)
qed

lemma multi_step:
  assumes v: "ready_for main (MULTI_BYTES sz + m) v" and "0 \<le> m" and "0 \<le> sz" "sz < 1000000" "sz \<le> 2 * int ITER"
    and "sndrcv_cnt g = 0" and next_wp: "\<And>w l. ready_for main m w \<Longrightarrow> cwp (chan_code jm) main p g l w Q"
  shows "cwp (chan_code jm) main (test_multisend jm sz p) g k v Q"
proof -
  let ?m = "2 * SIZEOF_MSG * int (CAP sz) + m"
  from v obtain A where A: "cquiet main A v" "main \<noteq> NULL" "main \<notin> A"
      "room A (CHAN_BYTES sz + (SIZEOF_LWT + (SIZEOF_LWT + ?m)))"
    by (auto simp: ready_for_def MULTI_BYTES_def add.assoc)
  have n: "2 * SIZEOF_MSG * int (CAP sz) \<le> ?m" "m \<le> ?m" using assms(2) by (simp_all add: SIZEOF_MSG_def)
  show ?thesis
    by (rule test_multisend_wp [OF A(1-3) assms(3-5) A(4) n(1) assms(6)], rule next_wp)
      (use A(2,3) room_mono [OF _ n(2) subset_refl] in \<open>auto simp: ready_for_def\<close>)
qed

lemma boot_channels:
  fixes s :: chan_sys
  assumes "loaded s" and "sys_blocks (s_kheap s) = b # bs" and "n_zombies s = 0" and "n_blocked s = 0"
    and "0 < n" and "SIZEOF_LWT + n \<le> PAGESIZE"
  obtains s' v where "lwt_init s = Inr s'" and "cviews s' v" and "ready_for (current_thread s') n v"
proof -
  from lwt_init_runs [OF assms(1,2)] obtain t h s' where
    r: "kalloc h SIZEOF_LWT = Inr (t, s_kheap s')" "kpool h (block b PAGESIZE)" "kfits h PAGESIZE"
      "lwt_init s = Inr s'" "current_thread s' = t" "0 < t"
      "kpool (s_kheap s') (block b PAGESIZE - block t SIZEOF_LWT)" "ring (s_links s') [t]"
      "n_runnable s' = 1" "ready s' t" "\<forall>u. l_joinedfrom (s_lwt s' u) = NULL" by metis
  let ?A = "block b PAGESIZE - block t SIZEOF_LWT"
  let ?v = "\<lparr>v_ring = [t], v_free = ?A, v_thd = (\<lambda>u. thd_of (s_lwt s' u)), v_run = 1, v_zom = 0, v_blk = 0,
    cv_chan = s_chan s', cv_msg = s_msg s', cv_buf = Map.empty\<rparr>"
  have z: "0 < SIZEOF_LWT" "SIZEOF_LWT \<le> PAGESIZE" by (simp_all add: SIZEOF_LWT_def PAGESIZE_def)
  have "kfits (s_kheap s') n" using kalloc_leaves [OF r(2) kfits_mono [OF r(3) assms(6)] z assms(5) r(1)] .
  then have "room ?A n" using room_fits [OF r(7)] assms(5) by simp
  then have "ready_for t n ?v" using r(6,10,11) block_starts(3) [of t, OF subset_refl]
    unfolding ready_for_def by (intro exI [of _ ?A]) (auto simp: cquiet_def joins_def)
  moreover have "cviews s' ?v"
    using r lwt_init_counts [OF r(4)] assms(3,4) by (simp add: cviews_def views_def runq_def)
  ultimately show thesis using that [OF r(4)] r(5) by simp
qed

text \<open>The tests of channels in the order of \<open>main\<close>.\<close>

definition channel_tests :: "(nat \<Rightarrow> addr) \<Rightarrow> cprog \<Rightarrow> cprog" where
  "channel_tests jm p =
     test_perf_channels jm 0 (test_perf_channels jm 1 (test_perf_channels jm 2
    (let n = (if ITER div 10 < 100 then int ITER div 10 else 100) in
     test_perf_async_steam jm n (test_multisend jm 0 (test_multisend jm n p)))))"

text \<open>C7: the tests of channels pass. Started by the constructor \<open>lwt_init\<close> from any memory,
  \<open>test_perf_channels\<close> with buffers of 0 (1024), 1 and 2 messages, \<open>test_perf_async_steam\<close> with a buffer
  of 100 and \<open>test_multisend\<close> with buffers of 0 (1024) and 100 run to their end, for the value of \<open>ITER\<close>
  in the source and whatever fresh memory holds. Every assertion holds: each side gets the answers of the
  other, the stream arrives complete and in order, the sums are right and a sender runs ahead by the size of
  the buffer. Afterwards only the first thread is left and the counters are those of the start.\<close>

theorem channel_tests_pass:
  fixes s :: chan_sys
  assumes "loaded s" and "sys_blocks (s_kheap s) = b # bs" and "n_zombies s = 0" and "n_blocked s = 0"
    and "sndrcv_cnt g = 0"
  shows "\<exists>s' w. lwt_init s = Inr s' \<and>
    exec (chan_code jm) (current_thread s') (channel_tests jm (Done NULL)) \<lparr>w_sys = s', w_glob = g, w_cont = k\<rparr> =
      Some (Inr w) \<and> runq (w_sys w) [current_thread s'] \<and> n_runnable (w_sys w) = 1 \<and>
      n_zombies (w_sys w) = 0 \<and> n_blocked (w_sys w) = 0 \<and> sndrcv_cnt (w_glob w) = 0"
proof -
  let ?n = "PERF_BYTES 0 + (PERF_BYTES 1 + (PERF_BYTES 2 + (ASYNC_BYTES 100 + (MULTI_BYTES 0 + (MULTI_BYTES 100 + 0)))))"
  note sizes = PERF_BYTES_def ASYNC_BYTES_def MULTI_BYTES_def CHAN_BYTES_def SIZEOF_CHANNEL_def SIZEOF_RBUF_def
    SIZEOF_MSG_def SIZEOF_LWT_def CAP_def
  have "0 < ?n" "SIZEOF_LWT + ?n \<le> PAGESIZE" by (simp_all add: sizes PAGESIZE_def)
  from boot_channels [OF assms(1-4) this] obtain s' v where
    s': "lwt_init s = Inr s'" "cviews s' v" "ready_for (current_thread s') ?n v" by blast
  let ?main = "current_thread s'"
  let ?Q = "\<lambda>w g. v_ring w = [?main] \<and> v_run w = 1 \<and> v_zom w = 0 \<and> v_blk w = 0 \<and> sndrcv_cnt g = 0"
  have fin: "cwp (chan_code jm) ?main (Done NULL) (g\<lparr>async_sz := 100\<rparr>) l w ?Q" if "ready_for ?main 0 w" for l w
    using that assms(5) by (intro ch.wp_done) (auto simp: ready_for_def cquiet_def)
  let ?g = "g\<lparr>async_sz := 100\<rparr>" and ?p6 = "test_multisend jm 100 (Done NULL)"
  let ?p5 = "test_multisend jm 0 ?p6"
  let ?p4 = "test_perf_async_steam jm 100 ?p5"
  have tests: "channel_tests jm (Done NULL) =
      test_perf_channels jm 0 (test_perf_channels jm 1 (test_perf_channels jm 2 ?p4))"
    by (simp add: channel_tests_def ITER_def)
  have t6: "cwp (chan_code jm) ?main ?p6 ?g l w ?Q" if "ready_for ?main (MULTI_BYTES 100 + 0) w" for l w
    by (rule multi_step [OF that]) (use fin assms(5) in \<open>simp_all add: ITER_def\<close>)
  have t5: "cwp (chan_code jm) ?main ?p5 ?g l w ?Q" if "ready_for ?main (MULTI_BYTES 0 + (MULTI_BYTES 100 + 0)) w" for l w
    by (rule multi_step [OF that]) (use t6 assms(5) in \<open>simp_all add: sizes\<close>)
  have t4: "cwp (chan_code jm) ?main ?p4 g l w ?Q"
    if "ready_for ?main (ASYNC_BYTES 100 + (MULTI_BYTES 0 + (MULTI_BYTES 100 + 0))) w" for l w
    by (rule async_step [OF that]) (use t5 in \<open>simp_all add: sizes\<close>)
  have "cwp (chan_code jm) ?main (channel_tests jm (Done NULL)) g k v ?Q"
    unfolding tests
  proof (rule perf_step [OF s'(3)], goal_cases)
    case (4 w l)
    show ?case
    proof (rule perf_step [OF 4], goal_cases)
      case (4 w l)
      show ?case by (rule perf_step [OF 4 _ _ _ t4]) (simp_all add: sizes)
    qed (simp_all add: sizes)
  qed (simp_all add: sizes)
  with s'(2) obtain w v' where w: "exec (chan_code jm) ?main (channel_tests jm (Done NULL))
      \<lparr>w_sys = s', w_glob = g, w_cont = k\<rparr> = Some (Inr w)" "cviews (w_sys w) v'" "?Q v' (w_glob w)"
    unfolding wp_def by blast
  then show ?thesis using s'(1) viewsD [OF cviewsD(1) [OF w(2)]] by auto
qed

definition chan_load_ex :: chan_sys where
  "chan_load_ex = lwt_sys.extend load_ex (lwt_sys.more chan_ex)"

theorem channel_tests_pass_witness:
  "\<exists>s' w. lwt_init chan_load_ex = Inr s' \<and>
    exec (chan_code (\<lambda>_. 77)) (current_thread s') (channel_tests (\<lambda>_. 77) (Done NULL))
        \<lparr>w_sys = s', w_glob = \<lparr>sndrcv_cnt = 0, async_sz = 0\<rparr>, w_cont = \<lambda>_. Crash\<rparr> =
      Some (Inr w) \<and> runq (w_sys w) [current_thread s'] \<and> n_runnable (w_sys w) = 1 \<and>
      n_zombies (w_sys w) = 0 \<and> n_blocked (w_sys w) = 0 \<and> sndrcv_cnt (w_glob w) = 0"
  by (rule channel_tests_pass [where b = 65536 and bs = "[]"])
    (simp_all add: loaded_def chan_load_ex_def load_ex_def boot_ex_def sys_ex_def lwt_ex_def lwt_sys.defs)

end
