(* ===== verification/PsWalk.thy ===== *)
theory PsWalk
  imports PsList
begin

text \<open>
  The rest of \<open>ps_list.h\<close>: list heads and the two iteration macros. The body of a loop is a function
  on a state that contains the links (\<open>links\<close>); the loops are partial functions, so that an endless
  walk is the value \<open>None\<close>.
\<close>

subsection \<open>Heads and object-level macros\<close>

definition ps_list_head_init :: "'a \<Rightarrow> 'a ps_heap \<Rightarrow> 'a ps_heap" where
  "ps_list_head_init lh h = ps_list_ll_init lh h"

definition ps_list_head_empty :: "'a \<Rightarrow> 'a ps_heap \<Rightarrow> bool" where
  "ps_list_head_empty lh h = ps_list_ll_empty lh h"

definition ps_list_is_head :: "'a \<Rightarrow> 'a \<Rightarrow> bool" where
  "ps_list_is_head lh ob \<longleftrightarrow> lh = ob"

definition ps_list_singleton :: "'a \<Rightarrow> 'a ps_heap \<Rightarrow> bool" where
  "ps_list_singleton ob h = ps_list_ll_empty ob h"

definition ps_list_init :: "'a \<Rightarrow> 'a ps_heap \<Rightarrow> 'a ps_heap" where
  "ps_list_init ob h = ps_list_ll_init ob h"

definition ps_list_add :: "'a \<Rightarrow> 'a \<Rightarrow> 'a ps_heap \<Rightarrow> 'a ps_heap" where
  "ps_list_add ob n h = ps_list_ll_add ob n h"

definition ps_list_rem :: "'a \<Rightarrow> 'a ps_heap \<Rightarrow> 'a ps_heap" where
  "ps_list_rem ob h = ps_list_ll_rem ob h"

definition ps_list_head_add :: "'a \<Rightarrow> 'a \<Rightarrow> 'a ps_heap \<Rightarrow> 'a ps_heap" where
  "ps_list_head_add lh ob h = ps_list_ll_add lh ob h"

subsection \<open>Iteration\<close>

partial_function (option) foreach_loop ::
    "('s \<Rightarrow> 'a ps_heap) \<Rightarrow> 'a \<Rightarrow> ('a \<Rightarrow> 's \<Rightarrow> 's) \<Rightarrow> 'a \<Rightarrow> 's \<Rightarrow> 's option" where
  "foreach_loop links lh body iter s =
     (if ps_list_is_head lh iter then Some s
      else let s1 = body iter s in foreach_loop links lh body (ps_list_next iter (links s1)) s1)"

definition ps_list_foreach :: "('s \<Rightarrow> 'a ps_heap) \<Rightarrow> 'a \<Rightarrow> ('a \<Rightarrow> 's \<Rightarrow> 's) \<Rightarrow> 's \<Rightarrow> 's option" where
  "ps_list_foreach links lh body s = foreach_loop links lh body (ps_list_head_first lh (links s)) s"

partial_function (option) foreach_del_loop ::
    "('s \<Rightarrow> 'a ps_heap) \<Rightarrow> 'a \<Rightarrow> ('a \<Rightarrow> 's \<Rightarrow> 's) \<Rightarrow> 'a \<Rightarrow> 'a \<Rightarrow> 's \<Rightarrow> 's option" where
  "foreach_del_loop links lh body iter tmp s =
     (if ps_list_is_head lh iter then Some s
      else let s1 = body iter s
        in foreach_del_loop links lh body tmp (ps_list_next tmp (links s1)) s1)"

definition ps_list_foreach_del :: "('s \<Rightarrow> 'a ps_heap) \<Rightarrow> 'a \<Rightarrow> ('a \<Rightarrow> 's \<Rightarrow> 's) \<Rightarrow> 's \<Rightarrow> 's option" where
  "ps_list_foreach_del links lh body s =
     (let iter = ps_list_head_first lh (links s)
      in foreach_del_loop links lh body iter (ps_list_next iter (links s)) s)"

text \<open>
  What the loops ask of a body: it leaves the list alone, but for the node it is called for, which it
  may take out. \<open>keep\<close> says which nodes stay.
\<close>

locale list_body =
  fixes links :: "'s \<Rightarrow> 'a ps_heap" and body :: "'a \<Rightarrow> 's \<Rightarrow> 's" and keep :: "'a \<Rightarrow> bool"
  assumes body_ring: "ring (links s) (us @ x # vs) \<Longrightarrow> us \<noteq> [] \<Longrightarrow>
    ring (links (body x s)) (us @ (if keep x then x # vs else vs))"
begin

lemma next_in_ring:
  "ring h (us @ x # vs) \<Longrightarrow> us \<noteq> [] \<Longrightarrow> ps_list_next x h = hd (vs @ us)"
  using ring_next [of h x "vs @ us"] ring_rotate [of h us "x # vs"] by (cases "vs @ us") auto

lemma foreach_del_loop_runs:
  assumes "lh \<notin> set xs" and "ring (links s) (us @ xs)" and "us \<noteq> []" and "hd us = lh"
  shows "foreach_del_loop links lh body (hd (xs @ us)) (ps_list_next (hd (xs @ us)) (links s)) s =
      Some (fold body xs s) \<and> ring (links (fold body xs s)) (us @ filter keep xs)"
  using assms
proof (induction xs arbitrary: us s)
  case Nil
  then show ?case by (subst foreach_del_loop.simps) (simp add: ps_list_is_head_def)
next
  case (Cons x xs)
  let ?s = "body x s" and ?us = "us @ (if keep x then [x] else [])"
  have r: "ring (links ?s) (?us @ xs)" using body_ring [of s us x xs] Cons.prems(2,3) by (cases "keep x") simp_all
  have tmp: "ps_list_next x (links s) = hd (xs @ ?us)"
    using next_in_ring [OF Cons.prems(2,3)] Cons.prems(3) by (cases xs) auto
  have IH: "foreach_del_loop links lh body (hd (xs @ ?us)) (ps_list_next (hd (xs @ ?us)) (links ?s)) ?s =
      Some (fold body xs ?s) \<and> ring (links (fold body xs ?s)) (?us @ filter keep xs)"
    by (rule Cons.IH [OF _ r]) (use Cons.prems in auto)
  have "foreach_del_loop links lh body x (hd (xs @ ?us)) s =
      foreach_del_loop links lh body (hd (xs @ ?us)) (ps_list_next (hd (xs @ ?us)) (links ?s)) ?s"
    by (subst foreach_del_loop.simps) (use Cons.prems(1) in \<open>auto simp: ps_list_is_head_def Let_def\<close>)
  then show ?case using IH tmp by auto
qed

lemma foreach_del_visits:
  assumes "ring (links s) (lh # xs)"
  shows "ps_list_foreach_del links lh body s = Some (fold body xs s) \<and>
    ring (links (fold body xs s)) (lh # filter keep xs)"
proof -
  have "ps_list_head_first lh (links s) = hd (xs @ [lh])"
    using ring_next [OF assms] by (simp add: ps_list_defs)
  then show ?thesis
    using foreach_del_loop_runs [of lh xs s "[lh]"] assms ring_distinct [OF assms]
    by (simp add: ps_list_foreach_del_def Let_def)
qed

lemma foreach_loop_runs:
  assumes "lh \<notin> set xs" and "ring (links s) (us @ xs)" and "us \<noteq> []" and "hd us = lh"
    and "\<And>x. x \<in> set xs \<Longrightarrow> keep x"
  shows "foreach_loop links lh body (hd (xs @ us)) s = Some (fold body xs s)"
  using assms
proof (induction xs arbitrary: us s)
  case Nil
  then show ?case by (subst foreach_loop.simps) (simp add: ps_list_is_head_def)
next
  case (Cons x xs)
  let ?s = "body x s"
  have r: "ring (links ?s) (us @ x # xs)" using body_ring [of s us x xs] Cons.prems by simp
  have "ps_list_next x (links ?s) = hd (xs @ us @ [x])"
    using next_in_ring [OF r Cons.prems(3)] Cons.prems(3) by (cases xs) auto
  moreover have "foreach_loop links lh body (hd (xs @ us @ [x])) ?s = Some (fold body xs ?s)"
    by (rule Cons.IH) (use Cons.prems r in auto)
  ultimately show ?case
    by (subst foreach_loop.simps) (use Cons.prems(1) in \<open>auto simp: ps_list_is_head_def Let_def\<close>)
qed

lemma foreach_visits:
  assumes "ring (links s) (lh # xs)" and "\<And>x. x \<in> set xs \<Longrightarrow> keep x"
  shows "ps_list_foreach links lh body s = Some (fold body xs s)"
proof -
  have "ps_list_head_first lh (links s) = hd (xs @ [lh])"
    using ring_next [OF assms(1)] by (simp add: ps_list_defs)
  then show ?thesis
    using foreach_loop_runs [of lh xs s "[lh]"] assms ring_distinct [OF assms(1)]
    by (simp add: ps_list_foreach_def)
qed

end

text \<open>A body that notes the node and takes it out unless it is to stay.\<close>

definition sweep :: "('a \<Rightarrow> bool) \<Rightarrow> 'a \<Rightarrow> 'a list \<times> 'a ps_heap \<Rightarrow> 'a list \<times> 'a ps_heap" where
  "sweep keep x = (\<lambda>(log, h). (log @ [x], if keep x then h else ps_list_rem x h))"

interpretation sw: list_body snd "sweep keep" keep for keep :: "'a \<Rightarrow> bool"
proof
  fix s :: "'a list \<times> 'a ps_heap" and us vs x
  assume "ring (snd s) (us @ x # vs)" and "us \<noteq> []"
  then show "ring (snd (sweep keep x s)) (us @ (if keep x then x # vs else vs))"
    using ring_rem [of "snd s" us x vs] by (auto simp: sweep_def ps_list_rem_def split: prod.splits)
qed

lemma fold_sweep: "fst (fold (sweep keep) xs (log, h)) = log @ xs"
proof (induction xs arbitrary: log h)
  case (Cons x xs)
  then show ?case by (cases "sweep keep x (log, h)") (simp add: sweep_def)
qed simp

text \<open>
  The plain loop reads the links of a node after the body: a body that takes its node out (which
  points to itself from then on) is called with the same node for ever.
\<close>

lemma foreach_same_node:
  assumes step: "\<And>s. R s \<Longrightarrow> R (body x s) \<and> ps_list_next x (links (body x s)) = x" and "x \<noteq> lh" and "R s"
  shows "foreach_loop links lh body x s = None"
proof (rule ccontr)
  assume "foreach_loop links lh body x s \<noteq> None"
  then obtain r where r: "foreach_loop links lh body x s = Some r" by auto
  define P where "P = (\<lambda>l h b c s (r :: 'a). l = links \<longrightarrow> h = lh \<longrightarrow> b = body \<longrightarrow> c = x \<longrightarrow> \<not> R s)"
  have "P links lh body x s r"
  proof (rule foreach_loop.raw_induct [where P = P, OF _ r])
    fix f l h b c s r
    assume IH: "\<And>l h b c s r. f l h b c s = Some r \<Longrightarrow> P l h b c s r"
      and eq: "(if ps_list_is_head h c then Some s
        else let s1 = b c s in f l h b (ps_list_next c (l s1)) s1) = Some r"
    from eq show "P l h b c s r"
      using IH [of links lh body x "body x s" r] step [of s] assms(2)
      by (auto simp: P_def ps_list_is_head_def Let_def split: if_splits)
  qed
  then show False using assms(3) by (simp add: P_def)
qed

lemma foreach_removing_loops:
  assumes "ring (snd s) (lh # x # xs)" and "\<not> keep x"
  shows "ps_list_foreach snd lh (sweep keep) s = None"
proof -
  have r: "\<not> keep x \<Longrightarrow> ps_list_next x (snd (sweep keep x u)) = x" for u
    by (cases u) (simp add: sweep_def ps_list_rem_def ps_list_ll_rem_def ps_list_defs Let_def)
  have "ps_list_head_first lh (snd s) = x" "x \<noteq> lh" using assms(1) by (auto simp: ps_list_defs)
  then show ?thesis
    using foreach_same_node [of "\<lambda>_. True" "sweep keep" x snd lh s] r [OF assms(2)]
    by (simp add: ps_list_foreach_def)
qed

text \<open>\<open>ps_list_foreach_del\<close> visits the nodes of a list once each, in order, while the body takes nodes out:
  what it took out is gone and the rest is the list that is left. \<open>ps_list_foreach\<close> with the same body does the same when
  every node stays, and does not come back when the first node is taken out.\<close>

theorem foreach_del_sweeps:
  assumes "ring h (lh # xs)"
  shows "(\<exists>h'. ps_list_foreach_del snd lh (sweep keep) ([], h) = Some (xs, h') \<and> ring h' (lh # filter keep xs)) \<and>
    (case xs of [] \<Rightarrow> True | x # _ \<Rightarrow> keep x \<or> ps_list_foreach snd lh (sweep keep) ([], h) = None) \<and>
    ps_list_foreach snd lh (sweep (\<lambda>_. True)) ([], h) = Some (xs, h)"
proof (intro conjI)
  from assms have "ring (snd ([], h)) (lh # xs)" by simp
  from sw.foreach_del_visits [OF this, of keep]
  show "\<exists>h'. ps_list_foreach_del snd lh (sweep keep) ([], h) = Some (xs, h') \<and> ring h' (lh # filter keep xs)"
    using fold_sweep [of keep xs "[]" h] by (cases "fold (sweep keep) xs ([], h)") auto
  show "case xs of [] \<Rightarrow> True | x # _ \<Rightarrow> keep x \<or> ps_list_foreach snd lh (sweep keep) ([], h) = None"
  proof (cases xs)
    case (Cons y ys)
    with foreach_removing_loops [of "([], h)" lh y ys keep] assms show ?thesis by (cases "keep y") (simp_all del: ring.simps)
  qed simp
  have "fold (sweep (\<lambda>_. True)) xs (l, h) = (l @ xs, h)" for l
    by (induction xs arbitrary: l) (simp_all add: sweep_def)
  moreover have "ring (snd ([], h)) (lh # xs)" using assms by simp
  ultimately show "ps_list_foreach snd lh (sweep (\<lambda>_. True)) ([], h) = Some (xs, h)"
    using sw.foreach_visits [of "([], h)" lh xs "\<lambda>_. True"] by simp
qed

definition four_ex :: "nat ps_heap" where
  "four_ex = \<lparr>ps_n = (\<lambda>i. (i + 1) mod 4), ps_p = (\<lambda>i. (i + 3) mod 4)\<rparr>"

theorem foreach_del_sweeps_witness:
  "(\<exists>h'. ps_list_foreach_del snd 0 (sweep even) ([], four_ex) = Some ([1, 2, 3], h') \<and> ring h' [0, 2]) \<and>
    ps_list_foreach snd 0 (sweep even) ([], four_ex) = None"
proof -
  have "ring four_ex (0 # [1, 2, 3])" by (simp add: four_ex_def)
  from foreach_del_sweeps [OF this, of even] show ?thesis by simp
qed

end
