(* ===== verification/Queues.thy ===== *)
theory Queues
  imports Tailq PsWalk
begin

text \<open>
  The other list families of \<open>queue.h\<close> and the iteration macros. A \<open>LIST\<close> is a tail queue without the
  pointer to the last cell, a \<open>SIMPLEQ\<close> one without the back pointers, an \<open>SLIST\<close> one without either:
  every macro of theirs does to the projection of a tail queue what the \<open>TAILQ\<close> macro does to the queue.
  A \<open>CIRCLEQ\<close> is a ring of \<open>PsList\<close> through its head. The locales say what a program may rely on
  in each family; the loops are proved once, inside them.
\<close>

subsection \<open>Interfaces\<close>

text \<open>The nodes a loop visits that goes from \<open>c\<close> to \<open>stop\<close>.\<close>

partial_function (option) walk :: "(addr \<Rightarrow> addr) \<Rightarrow> addr \<Rightarrow> addr \<Rightarrow> addr list option" where
  "walk nxt stop c = (if c = stop then Some [] else
     Option.bind (walk nxt stop (nxt c)) (\<lambda>xs. Some (c # xs)))"

definition fresh :: "addr \<Rightarrow> addr \<Rightarrow> addr list \<Rightarrow> bool" where
  "fresh q e xs \<longleftrightarrow> e \<notin> set xs \<and> e \<noteq> NULL \<and> e \<noteq> q"

locale listq =
  fixes holds :: "'h \<Rightarrow> addr \<Rightarrow> addr list \<Rightarrow> bool"
    and init :: "addr \<Rightarrow> 'h \<Rightarrow> 'h"
    and insert_head :: "addr \<Rightarrow> addr \<Rightarrow> 'h \<Rightarrow> 'h"
    and insert_after :: "addr \<Rightarrow> addr \<Rightarrow> addr \<Rightarrow> 'h \<Rightarrow> 'h"
    and first_of :: "addr \<Rightarrow> 'h \<Rightarrow> addr"
    and next_of :: "addr \<Rightarrow> 'h \<Rightarrow> addr"
    and stop :: "addr \<Rightarrow> addr"
  assumes init_empty: "holds (init q h) q []"
    and insert_head_list: "holds h q xs \<Longrightarrow> fresh q e xs \<Longrightarrow> holds (insert_head q e h) q (e # xs)"
    and insert_after_list: "holds h q (us @ l # vs) \<Longrightarrow> fresh q e (us @ l # vs) \<Longrightarrow>
      holds (insert_after q l e h) q (us @ l # e # vs)"
    and first_hd: "holds h q xs \<Longrightarrow> first_of q h = hd (xs @ [stop q])"
    and next_hd: "holds h q (us @ x # vs) \<Longrightarrow> next_of x h = hd (vs @ [stop q])"
    and stop_out: "holds h q xs \<Longrightarrow> stop q \<notin> set xs"
begin

lemma walk_from: "holds h q (us @ xs) \<Longrightarrow> walk (\<lambda>e. next_of e h) (stop q) (hd (xs @ [stop q])) = Some xs"
proof (induction xs arbitrary: us)
  case Nil
  then show ?case by (subst walk.simps) simp
next
  case (Cons x xs)
  have "x \<noteq> stop q" using stop_out [OF Cons.prems] by auto
  moreover have "next_of x h = hd (xs @ [stop q])" by (rule next_hd [OF Cons.prems])
  ultimately show ?case using Cons.IH [of "us @ [x]"] Cons.prems by (subst walk.simps) simp
qed

lemma walk_all: "holds h q xs \<Longrightarrow> walk (\<lambda>e. next_of e h) (stop q) (first_of q h) = Some xs"
  using walk_from [of h q "[]" xs] first_hd [of h q xs] by simp

lemma empty_iff: "holds h q xs \<Longrightarrow> first_of q h = stop q \<longleftrightarrow> xs = []"
  using first_hd [of h q xs] stop_out [of h q xs] by (cases xs) auto

text \<open>A list built by inserting at the head.\<close>

lemma fill_head:
  "distinct es \<Longrightarrow> NULL \<notin> set es \<Longrightarrow> q \<notin> set es \<Longrightarrow> holds (fold (insert_head q) es (init q h)) q (rev es)"
proof (induction es rule: rev_induct)
  case Nil
  then show ?case by (simp add: init_empty)
next
  case (snoc e es)
  then show ?case by (auto intro!: insert_head_list simp: fresh_def)
qed

end

locale two_way = listq +
  fixes remove :: "addr \<Rightarrow> addr \<Rightarrow> 'h \<Rightarrow> 'h"
    and last_of :: "addr \<Rightarrow> 'h \<Rightarrow> addr"
    and prev_of :: "addr \<Rightarrow> 'h \<Rightarrow> addr"
  assumes remove_list: "holds h q (us @ e # vs) \<Longrightarrow> holds (remove q e h) q (us @ vs)"
    and last_last: "holds h q xs \<Longrightarrow> last_of q h = last (stop q # xs)"
    and prev_last: "holds h q (us @ x # vs) \<Longrightarrow> prev_of x h = last (stop q # us)"
begin

lemma walk_back_from: "holds h q (xs @ vs) \<Longrightarrow> walk (\<lambda>e. prev_of e h) (stop q) (last (stop q # xs)) = Some (rev xs)"
proof (induction xs arbitrary: vs rule: rev_induct)
  case Nil
  then show ?case by (subst walk.simps) simp
next
  case (snoc x xs)
  have "x \<noteq> stop q" using stop_out [OF snoc.prems] by auto
  moreover have "prev_of x h = last (stop q # xs)" by (rule prev_last [of _ _ _ _ vs]) (use snoc.prems in simp)
  ultimately show ?case using snoc.IH [of "x # vs"] snoc.prems by (subst walk.simps) simp
qed

lemma walk_back: "holds h q xs \<Longrightarrow> walk (\<lambda>e. prev_of e h) (stop q) (last_of q h) = Some (rev xs)"
  using walk_back_from [of h q xs "[]"] last_last [of h q xs] by simp

text \<open>Elements are removed in any order.\<close>

lemma remove_all:
  "holds h q xs \<Longrightarrow> distinct es \<Longrightarrow> set es \<subseteq> set xs \<Longrightarrow> distinct xs \<Longrightarrow>
     holds (fold (remove q) es h) q (filter (\<lambda>x. x \<notin> set es) xs)"
proof (induction es arbitrary: h xs)
  case (Cons e es)
  from Cons.prems(3) obtain us vs where xs: "xs = us @ e # vs" by (meson list.set_intros(1) split_list subsetD)
  have d: "e \<notin> set us" "e \<notin> set vs" using Cons.prems(4) xs by auto
  have "holds (fold (remove q) es (remove q e h)) q (filter (\<lambda>x. x \<notin> set es) (us @ vs))"
    by (rule Cons.IH [OF remove_list]) (use Cons.prems xs in auto)
  moreover have "filter (\<lambda>x. x \<noteq> e \<and> x \<notin> set es) us = filter (\<lambda>x. x \<notin> set es) us"
    "filter (\<lambda>x. x \<noteq> e \<and> x \<notin> set es) vs = filter (\<lambda>x. x \<notin> set es) vs"
    by (rule filter_cong; use d in auto)+
  then have "filter (\<lambda>x. x \<notin> set es) (us @ vs) = filter (\<lambda>x. x \<notin> set (e # es)) xs" using xs by simp
  ultimately show ?case by simp
qed (simp add: filter_id_conv)

end

locale fifo = listq +
  fixes insert_tail :: "addr \<Rightarrow> addr \<Rightarrow> 'h \<Rightarrow> 'h"
    and remove_first :: "addr \<Rightarrow> 'h \<Rightarrow> 'h"
  assumes insert_tail_list: "holds h q xs \<Longrightarrow> fresh q e xs \<Longrightarrow> holds (insert_tail q e h) q (xs @ [e])"
    and remove_first_list: "holds h q (x # xs) \<Longrightarrow> holds (remove_first q h) q xs"
begin

lemma fill_tail:
  "holds h q xs \<Longrightarrow> distinct (xs @ es) \<Longrightarrow> NULL \<notin> set es \<Longrightarrow> q \<notin> set es \<Longrightarrow>
     holds (fold (insert_tail q) es h) q (xs @ es)"
proof (induction es arbitrary: h xs)
  case (Cons e es)
  have "holds (insert_tail q e h) q (xs @ [e])"
    by (rule insert_tail_list) (use Cons.prems in \<open>auto simp: fresh_def\<close>)
  from Cons.IH [OF this] Cons.prems show ?case by simp
qed simp

lemma drain: "holds h q (xs @ ys) \<Longrightarrow> holds ((remove_first q ^^ length xs) h) q ys"
proof (induction xs arbitrary: h)
  case (Cons x xs)
  then have "holds (remove_first q h) q (xs @ ys)" by (intro remove_first_list) simp
  from Cons.IH [OF this] show ?case by (simp add: funpow_swap1)
qed simp

end

subsection \<open>Tail queues\<close>

definition TAILQ_FOREACH :: "addr \<Rightarrow> tq_heap \<Rightarrow> addr list option" where
  "TAILQ_FOREACH q h = walk (tqe_next h) NULL (tqh_first h q)"

definition TAILQ_FOREACH_REVERSE :: "addr \<Rightarrow> tq_heap \<Rightarrow> addr list option" where
  "TAILQ_FOREACH_REVERSE q h = walk (\<lambda>var. tq_get h (second_field h (tqe_prev h var))) NULL
     (tq_get h (second_field h (tqh_last h q)))"

lemma tailq_no_null: "tailq h q xs \<Longrightarrow> NULL \<notin> set xs"
proof -
  have "tseg h c xs d v \<Longrightarrow> NULL \<notin> set xs" for c d v by (induction xs arbitrary: c) auto
  then show "tailq h q xs \<Longrightarrow> NULL \<notin> set xs" unfolding tailq_def by blast
qed

lemma TAILQ_LAST_list: "tailq h q xs \<Longrightarrow> TAILQ_LAST q h = last (NULL # xs)"
  using TAILQ_LAST_last [of h q "butlast xs" "last xs"]
  by (cases "xs = []") (auto simp: tailq_def TAILQ_LAST_def dest!: sym [of "TqFirst q"])

lemma TAILQ_PREV_list: "tailq h q (us @ x # vs) \<Longrightarrow> TAILQ_PREV x h = last (NULL # us)"
proof (cases us rule: rev_cases)
  case Nil
  assume "tailq h q (us @ x # vs)"
  then show ?thesis using Nil tseg_val by (auto simp: tailq_def TAILQ_PREV_def)
next
  case (snoc ys y)
  assume "tailq h q (us @ x # vs)"
  then show ?thesis using snoc TAILQ_PREV_prev [of h q ys y x vs] by simp
qed

interpretation tq: two_way tailq TAILQ_INIT TAILQ_INSERT_HEAD TAILQ_INSERT_AFTER TAILQ_FIRST TAILQ_NEXT "\<lambda>_. NULL"
    TAILQ_REMOVE TAILQ_LAST TAILQ_PREV
proof
  fix h q xs
  assume "tailq h q xs"
  then show "TAILQ_FIRST q h = hd (xs @ [NULL])" by (cases xs) (auto simp: TAILQ_FIRST_def tailq_def)
next
  fix h q us x vs
  assume "tailq h q (us @ x # vs)"
  from TAILQ_NEXT_next [OF this] show "TAILQ_NEXT x h = hd (vs @ [NULL])" by (cases vs) simp_all
qed (simp_all add: TAILQ_INIT_empty TAILQ_INSERT_HEAD_list TAILQ_INSERT_AFTER_list TAILQ_REMOVE_list
    TAILQ_LAST_list TAILQ_PREV_list tailq_no_null fresh_def)

interpretation tqf: fifo tailq TAILQ_INIT TAILQ_INSERT_HEAD TAILQ_INSERT_AFTER TAILQ_FIRST TAILQ_NEXT "\<lambda>_. NULL"
    TAILQ_INSERT_TAIL "\<lambda>q h. TAILQ_REMOVE q (TAILQ_FIRST q h) h"
proof
  fix h q x xs
  assume t: "tailq h q (x # xs)"
  then show "tailq (TAILQ_REMOVE q (TAILQ_FIRST q h) h) q xs"
    using TAILQ_REMOVE_list [of h q "[]" x xs] TAILQ_FIRST_hd [OF t] by simp
qed (simp add: TAILQ_INSERT_TAIL_list fresh_def)

subsection \<open>Doubly linked lists\<close>

record li_heap =
  lh_first :: "addr \<Rightarrow> addr"
  le_next :: "addr \<Rightarrow> addr"
  le_prev :: "addr \<Rightarrow> tcell"

fun li_put :: "tcell \<Rightarrow> addr \<Rightarrow> li_heap \<Rightarrow> li_heap" where
  "li_put (TqFirst q) v h = h\<lparr>lh_first := (lh_first h)(q := v)\<rparr>"
| "li_put (TqNext e) v h = h\<lparr>le_next := (le_next h)(e := v)\<rparr>"

definition li_prev :: "addr \<Rightarrow> tcell \<Rightarrow> li_heap \<Rightarrow> li_heap" where
  "li_prev e c h = h\<lparr>le_prev := (le_prev h)(e := c)\<rparr>"

definition LIST_INIT :: "addr \<Rightarrow> li_heap \<Rightarrow> li_heap" where
  "LIST_INIT q h = li_put (TqFirst q) NULL h"

definition LIST_INSERT_AFTER :: "addr \<Rightarrow> addr \<Rightarrow> li_heap \<Rightarrow> li_heap" where
  "LIST_INSERT_AFTER l e h =
     (let h1 = li_put (TqNext e) (le_next h l) h;
          h2 = (if le_next h1 e \<noteq> NULL then li_prev (le_next h1 l) (TqNext e) h1 else h1);
          h3 = li_put (TqNext l) e h2
      in li_prev e (TqNext l) h3)"

definition LIST_INSERT_BEFORE :: "addr \<Rightarrow> addr \<Rightarrow> li_heap \<Rightarrow> li_heap" where
  "LIST_INSERT_BEFORE l e h =
     (let h1 = li_prev e (le_prev h l) h;
          h2 = li_put (TqNext e) l h1;
          h3 = li_put (le_prev h2 l) e h2
      in li_prev l (TqNext e) h3)"

definition LIST_INSERT_HEAD :: "addr \<Rightarrow> addr \<Rightarrow> li_heap \<Rightarrow> li_heap" where
  "LIST_INSERT_HEAD q e h =
     (let h1 = li_put (TqNext e) (lh_first h q) h;
          h2 = (if le_next h1 e \<noteq> NULL then li_prev (lh_first h1 q) (TqNext e) h1 else h1);
          h3 = li_put (TqFirst q) e h2
      in li_prev e (TqFirst q) h3)"

definition LIST_REMOVE :: "addr \<Rightarrow> li_heap \<Rightarrow> li_heap" where
  "LIST_REMOVE e h =
     (let h1 = (if le_next h e \<noteq> NULL then li_prev (le_next h e) (le_prev h e) h else h)
      in li_put (le_prev h1 e) (le_next h1 e) h1)"

definition LIST_FOREACH :: "addr \<Rightarrow> li_heap \<Rightarrow> addr list option" where
  "LIST_FOREACH q h = walk (le_next h) NULL (lh_first h q)"

definition LIST_EMPTY :: "addr \<Rightarrow> li_heap \<Rightarrow> bool" where
  "LIST_EMPTY q h \<longleftrightarrow> lh_first h q = NULL"

definition LIST_FIRST :: "addr \<Rightarrow> li_heap \<Rightarrow> addr" where
  "LIST_FIRST q h = lh_first h q"

definition LIST_NEXT :: "addr \<Rightarrow> li_heap \<Rightarrow> addr" where
  "LIST_NEXT e h = le_next h e"

text \<open>What is left of a tail queue without \<open>tqh_last\<close>.\<close>

definition li_of :: "tq_heap \<Rightarrow> li_heap" where
  "li_of t = \<lparr>lh_first = tqh_first t, le_next = tqe_next t, le_prev = tqe_prev t\<rparr>"

definition lis :: "li_heap \<Rightarrow> addr \<Rightarrow> addr list \<Rightarrow> bool" where
  "lis h q xs \<longleftrightarrow> (\<exists>t. h = li_of t \<and> tailq t q xs)"

lemma li_of_sel [simp]:
  "lh_first (li_of t) q = tq_get t (TqFirst q)" "le_next (li_of t) e = tq_get t (TqNext e)"
  "le_prev (li_of t) e = tqe_prev t e"
  "li_of (tq_put c v t) = li_put c v (li_of t)" "li_of (put_prev e c t) = li_prev e c (li_of t)"
  "li_of (put_last q c t) = li_of t"
  by (simp_all add: li_of_def li_prev_def put_prev_def put_last_def) (cases c; simp add: tq_put.simps)

lemma li_put_sel [simp]:
  "le_prev (li_put c v h) = le_prev h" "le_next (li_prev e c h) = le_next h" "lh_first (li_prev e c h) = lh_first h"
  "le_prev (li_prev e c h) = (le_prev h)(e := c)"
  by (cases c; simp add: li_prev_def)+

lemma li_of_if: "li_of (if b then s else t) = (if b then li_of s else li_of t)"
  by simp

lemma list_is_tailq:
  "LIST_INIT q (li_of t) = li_of (TAILQ_INIT q t)"
  "LIST_INSERT_HEAD q e (li_of t) = li_of (TAILQ_INSERT_HEAD q e t)"
  "l \<noteq> e \<Longrightarrow> LIST_INSERT_AFTER l e (li_of t) = li_of (TAILQ_INSERT_AFTER q l e t)"
  "LIST_INSERT_BEFORE l e (li_of t) = li_of (TAILQ_INSERT_BEFORE l e t)"
  "LIST_REMOVE e (li_of t) = li_of (TAILQ_REMOVE q e t)"
  by (simp_all add: LIST_INIT_def TAILQ_INIT_def LIST_INSERT_HEAD_def TAILQ_INSERT_HEAD_def LIST_INSERT_AFTER_def
      TAILQ_INSERT_AFTER_def LIST_INSERT_BEFORE_def TAILQ_INSERT_BEFORE_def LIST_REMOVE_def TAILQ_REMOVE_def
      Let_def li_of_if)

interpretation li: listq lis LIST_INIT LIST_INSERT_HEAD "\<lambda>_. LIST_INSERT_AFTER" LIST_FIRST LIST_NEXT "\<lambda>_. NULL"
proof
  fix q h
  obtain t where "h = li_of t"
    by (rule that [of "\<lparr>tqh_first = lh_first h, tqh_last = \<lambda>_. TqFirst q, tqe_next = le_next h, tqe_prev = le_prev h\<rparr>"])
      (simp add: li_of_def)
  then show "lis (LIST_INIT q h) q []" using list_is_tailq(1) TAILQ_INIT_empty by (auto simp: lis_def)
next
  fix h q xs e
  assume "lis h q xs" "fresh q e xs"
  then show "lis (LIST_INSERT_HEAD q e h) q (e # xs)"
    using list_is_tailq(2) tq.insert_head_list unfolding lis_def by blast
next
  fix h q us l vs e
  assume a: "lis h q (us @ l # vs)" "fresh q e (us @ l # vs)"
  then have "l \<noteq> e" by (auto simp: fresh_def)
  with a show "lis (LIST_INSERT_AFTER l e h) q (us @ l # e # vs)"
    using list_is_tailq(3) tq.insert_after_list unfolding lis_def by blast
next
  fix h q xs
  assume "lis h q xs"
  then show "LIST_FIRST q h = hd (xs @ [NULL])" "NULL \<notin> set xs"
    using tq.first_hd tq.stop_out by (auto simp: lis_def LIST_FIRST_def TAILQ_FIRST_def)
next
  fix h q us x vs
  assume "lis h q (us @ x # vs)"
  then show "LIST_NEXT x h = hd (vs @ [NULL])"
    using tq.next_hd by (auto simp: lis_def LIST_NEXT_def TAILQ_NEXT_def)
qed

lemma LIST_edit:
  "lis h q (us @ l # vs) \<Longrightarrow> fresh q e (us @ l # vs) \<Longrightarrow> lis (LIST_INSERT_BEFORE l e h) q (us @ e # l # vs)"
  "lis h q (us @ l # vs) \<Longrightarrow> lis (LIST_REMOVE l h) q (us @ vs)"
  unfolding lis_def using list_is_tailq(4) list_is_tailq(5) [of l _ q] TAILQ_INSERT_BEFORE_list TAILQ_REMOVE_list
  by (auto simp: fresh_def)

subsection \<open>Simple queues\<close>

record sq_heap =
  sqh_first :: "addr \<Rightarrow> addr"
  sqh_last :: "addr \<Rightarrow> tcell"
  sqe_next :: "addr \<Rightarrow> addr"

fun sq_put :: "tcell \<Rightarrow> addr \<Rightarrow> sq_heap \<Rightarrow> sq_heap" where
  "sq_put (TqFirst q) v h = h\<lparr>sqh_first := (sqh_first h)(q := v)\<rparr>"
| "sq_put (TqNext e) v h = h\<lparr>sqe_next := (sqe_next h)(e := v)\<rparr>"

definition sq_last :: "addr \<Rightarrow> tcell \<Rightarrow> sq_heap \<Rightarrow> sq_heap" where
  "sq_last q c h = h\<lparr>sqh_last := (sqh_last h)(q := c)\<rparr>"

definition SIMPLEQ_INIT :: "addr \<Rightarrow> sq_heap \<Rightarrow> sq_heap" where
  "SIMPLEQ_INIT q h = sq_last q (TqFirst q) (sq_put (TqFirst q) NULL h)"

definition SIMPLEQ_INSERT_HEAD :: "addr \<Rightarrow> addr \<Rightarrow> sq_heap \<Rightarrow> sq_heap" where
  "SIMPLEQ_INSERT_HEAD q e h =
     (let h1 = sq_put (TqNext e) (sqh_first h q) h;
          h2 = (if sqe_next h1 e = NULL then sq_last q (TqNext e) h1 else h1)
      in sq_put (TqFirst q) e h2)"

definition SIMPLEQ_INSERT_TAIL :: "addr \<Rightarrow> addr \<Rightarrow> sq_heap \<Rightarrow> sq_heap" where
  "SIMPLEQ_INSERT_TAIL q e h =
     (let h1 = sq_put (TqNext e) NULL h;
          h2 = sq_put (sqh_last h1 q) e h1
      in sq_last q (TqNext e) h2)"

definition SIMPLEQ_INSERT_AFTER :: "addr \<Rightarrow> addr \<Rightarrow> addr \<Rightarrow> sq_heap \<Rightarrow> sq_heap" where
  "SIMPLEQ_INSERT_AFTER q l e h =
     (let h1 = sq_put (TqNext e) (sqe_next h l) h;
          h2 = (if sqe_next h1 e = NULL then sq_last q (TqNext e) h1 else h1)
      in sq_put (TqNext l) e h2)"

definition SIMPLEQ_REMOVE_HEAD :: "addr \<Rightarrow> addr \<Rightarrow> sq_heap \<Rightarrow> sq_heap" where
  "SIMPLEQ_REMOVE_HEAD q e h =
     (let h1 = sq_put (TqFirst q) (sqe_next h e) h
      in if sqh_first h1 q = NULL then sq_last q (TqFirst q) h1 else h1)"

definition SIMPLEQ_FOREACH :: "addr \<Rightarrow> sq_heap \<Rightarrow> addr list option" where
  "SIMPLEQ_FOREACH q h = walk (sqe_next h) NULL (sqh_first h q)"

definition SIMPLEQ_EMPTY :: "addr \<Rightarrow> sq_heap \<Rightarrow> bool" where
  "SIMPLEQ_EMPTY q h \<longleftrightarrow> sqh_first h q = NULL"

definition SIMPLEQ_FIRST :: "addr \<Rightarrow> sq_heap \<Rightarrow> addr" where
  "SIMPLEQ_FIRST q h = sqh_first h q"

definition SIMPLEQ_NEXT :: "addr \<Rightarrow> sq_heap \<Rightarrow> addr" where
  "SIMPLEQ_NEXT e h = sqe_next h e"

text \<open>What is left of a tail queue without \<open>tqe_prev\<close>.\<close>

definition sq_of :: "tq_heap \<Rightarrow> sq_heap" where
  "sq_of t = \<lparr>sqh_first = tqh_first t, sqh_last = tqh_last t, sqe_next = tqe_next t\<rparr>"

definition simpleq :: "sq_heap \<Rightarrow> addr \<Rightarrow> addr list \<Rightarrow> bool" where
  "simpleq h q xs \<longleftrightarrow> (\<exists>t. h = sq_of t \<and> tailq t q xs)"

lemma sq_of_sel [simp]:
  "sqh_first (sq_of t) q = tq_get t (TqFirst q)" "sqe_next (sq_of t) e = tq_get t (TqNext e)"
  "sqh_last (sq_of t) q = tqh_last t q"
  "sq_of (tq_put c v t) = sq_put c v (sq_of t)" "sq_of (put_last q c t) = sq_last q c (sq_of t)"
  "sq_of (put_prev e c t) = sq_of t"
  by (simp_all add: sq_of_def sq_last_def put_prev_def put_last_def) (cases c; simp add: tq_put.simps)

lemma sq_put_sel [simp]:
  "sqh_last (sq_put c v h) = sqh_last h" "sqe_next (sq_last q c h) = sqe_next h" "sqh_first (sq_last q c h) = sqh_first h"
  by (cases c; simp add: sq_last_def)+

lemma sq_of_if: "sq_of (if b then s else t) = (if b then sq_of s else sq_of t)"
  by simp

lemma simpleq_is_tailq:
  "SIMPLEQ_INIT q (sq_of t) = sq_of (TAILQ_INIT q t)"
  "SIMPLEQ_INSERT_HEAD q e (sq_of t) = sq_of (TAILQ_INSERT_HEAD q e t)"
  "SIMPLEQ_INSERT_TAIL q e (sq_of t) = sq_of (TAILQ_INSERT_TAIL q e t)"
  "SIMPLEQ_INSERT_AFTER q l e (sq_of t) = sq_of (TAILQ_INSERT_AFTER q l e t)"
  "tqe_prev t e = TqFirst q \<Longrightarrow> SIMPLEQ_REMOVE_HEAD q e (sq_of t) = sq_of (TAILQ_REMOVE q e t)"
  by (simp_all add: SIMPLEQ_INIT_def TAILQ_INIT_def SIMPLEQ_INSERT_HEAD_def TAILQ_INSERT_HEAD_def SIMPLEQ_INSERT_TAIL_def
      TAILQ_INSERT_TAIL_def SIMPLEQ_INSERT_AFTER_def TAILQ_INSERT_AFTER_def SIMPLEQ_REMOVE_HEAD_def TAILQ_REMOVE_def
      Let_def sq_of_if sq_last_def)

interpretation sq: fifo simpleq SIMPLEQ_INIT SIMPLEQ_INSERT_HEAD SIMPLEQ_INSERT_AFTER SIMPLEQ_FIRST SIMPLEQ_NEXT "\<lambda>_. NULL"
    SIMPLEQ_INSERT_TAIL "\<lambda>q h. SIMPLEQ_REMOVE_HEAD q (SIMPLEQ_FIRST q h) h"
proof
  fix q h
  obtain t where "h = sq_of t"
    by (rule that [of "\<lparr>tqh_first = sqh_first h, tqh_last = sqh_last h, tqe_next = sqe_next h, tqe_prev = \<lambda>_. TqFirst q\<rparr>"])
      (simp add: sq_of_def)
  then show "simpleq (SIMPLEQ_INIT q h) q []" using simpleq_is_tailq(1) TAILQ_INIT_empty by (auto simp: simpleq_def)
next
  fix h q xs e
  assume a: "simpleq h q xs" "fresh q e xs"
  then show "simpleq (SIMPLEQ_INSERT_HEAD q e h) q (e # xs)"
    using simpleq_is_tailq(2) tq.insert_head_list unfolding simpleq_def by blast
  from a show "simpleq (SIMPLEQ_INSERT_TAIL q e h) q (xs @ [e])"
    using simpleq_is_tailq(3) tqf.insert_tail_list unfolding simpleq_def by blast
next
  fix h q us l vs e
  assume "simpleq h q (us @ l # vs)" "fresh q e (us @ l # vs)"
  then show "simpleq (SIMPLEQ_INSERT_AFTER q l e h) q (us @ l # e # vs)"
    using simpleq_is_tailq(4) tq.insert_after_list unfolding simpleq_def by blast
next
  fix h q xs
  assume "simpleq h q xs"
  then show "SIMPLEQ_FIRST q h = hd (xs @ [NULL])" "NULL \<notin> set xs"
    using tq.first_hd tq.stop_out by (auto simp: simpleq_def SIMPLEQ_FIRST_def TAILQ_FIRST_def)
next
  fix h q us x vs
  assume "simpleq h q (us @ x # vs)"
  then show "SIMPLEQ_NEXT x h = hd (vs @ [NULL])"
    using tq.next_hd by (auto simp: simpleq_def SIMPLEQ_NEXT_def TAILQ_NEXT_def)
next
  fix h q x xs
  assume "simpleq h q (x # xs)"
  then obtain t where t: "h = sq_of t" "tailq t q (x # xs)" by (auto simp: simpleq_def)
  then have "tqe_prev t x = TqFirst q" "SIMPLEQ_FIRST q h = x" by (auto simp: tailq_def SIMPLEQ_FIRST_def)
  then show "simpleq (SIMPLEQ_REMOVE_HEAD q (SIMPLEQ_FIRST q h) h) q xs"
    using t simpleq_is_tailq(5) TAILQ_REMOVE_list [of t q "[]" x xs] by (auto simp: simpleq_def)
qed

subsection \<open>Singly linked lists\<close>

record sl_heap =
  slh_first :: "addr \<Rightarrow> addr"
  sle_next :: "addr \<Rightarrow> addr"

definition SLIST_INIT :: "addr \<Rightarrow> sl_heap \<Rightarrow> sl_heap" where
  "SLIST_INIT q h = h\<lparr>slh_first := (slh_first h)(q := NULL)\<rparr>"

definition SLIST_INSERT_AFTER :: "addr \<Rightarrow> addr \<Rightarrow> sl_heap \<Rightarrow> sl_heap" where
  "SLIST_INSERT_AFTER l e h =
     (let h1 = h\<lparr>sle_next := (sle_next h)(e := sle_next h l)\<rparr>
      in h1\<lparr>sle_next := (sle_next h1)(l := e)\<rparr>)"

definition SLIST_INSERT_HEAD :: "addr \<Rightarrow> addr \<Rightarrow> sl_heap \<Rightarrow> sl_heap" where
  "SLIST_INSERT_HEAD q e h =
     (let h1 = h\<lparr>sle_next := (sle_next h)(e := slh_first h q)\<rparr>
      in h1\<lparr>slh_first := (slh_first h1)(q := e)\<rparr>)"

definition SLIST_REMOVE_HEAD :: "addr \<Rightarrow> sl_heap \<Rightarrow> sl_heap result" where
  "SLIST_REMOVE_HEAD q h =
     (if slh_first h q = NULL then Inl NullDeref
      else Inr (h\<lparr>slh_first := (slh_first h)(q := sle_next h (slh_first h q))\<rparr>))"

text \<open>The search for the element before \<open>elm\<close>, which runs into the null pointer without it.\<close>

partial_function (option) slist_before :: "(addr \<Rightarrow> addr) \<Rightarrow> addr \<Rightarrow> addr \<Rightarrow> addr result option" where
  "slist_before nxt elm curelm =
     (if curelm = NULL then Some (Inl NullDeref)
      else if nxt curelm = elm then Some (Inr curelm) else slist_before nxt elm (nxt curelm))"

definition SLIST_REMOVE :: "addr \<Rightarrow> addr \<Rightarrow> sl_heap \<Rightarrow> sl_heap result option" where
  "SLIST_REMOVE q elm h =
     (if slh_first h q = elm then Some (SLIST_REMOVE_HEAD q h)
      else Option.bind (slist_before (sle_next h) elm (slh_first h q)) (\<lambda>r. Some (
        rbind r (\<lambda>c. if sle_next h c = NULL then Inl NullDeref
          else Inr (h\<lparr>sle_next := (sle_next h)(c := sle_next h (sle_next h c))\<rparr>)))))"

definition SLIST_FOREACH :: "addr \<Rightarrow> sl_heap \<Rightarrow> addr list option" where
  "SLIST_FOREACH q h = walk (sle_next h) NULL (slh_first h q)"

definition SLIST_EMPTY :: "addr \<Rightarrow> sl_heap \<Rightarrow> bool" where
  "SLIST_EMPTY q h \<longleftrightarrow> slh_first h q = NULL"

definition SLIST_FIRST :: "addr \<Rightarrow> sl_heap \<Rightarrow> addr" where
  "SLIST_FIRST q h = slh_first h q"

definition SLIST_NEXT :: "addr \<Rightarrow> sl_heap \<Rightarrow> addr" where
  "SLIST_NEXT e h = sle_next h e"

text \<open>What is left of a simple queue without \<open>sqh_last\<close>.\<close>

definition sl_of :: "sq_heap \<Rightarrow> sl_heap" where
  "sl_of t = \<lparr>slh_first = sqh_first t, sle_next = sqe_next t\<rparr>"

definition slist :: "sl_heap \<Rightarrow> addr \<Rightarrow> addr list \<Rightarrow> bool" where
  "slist h q xs \<longleftrightarrow> (\<exists>t. h = sl_of t \<and> simpleq t q xs)"

lemma sl_of_sel [simp]:
  "slh_first (sl_of t) = sqh_first t" "sle_next (sl_of t) = sqe_next t" "sl_of (sq_last q c t) = sl_of t"
  by (simp_all add: sl_of_def sq_last_def)

lemma slist_is_simpleq:
  "SLIST_INIT q (sl_of t) = sl_of (SIMPLEQ_INIT q t)"
  "SLIST_INSERT_HEAD q e (sl_of t) = sl_of (SIMPLEQ_INSERT_HEAD q e t)"
  "SLIST_INSERT_AFTER l e (sl_of t) = sl_of (SIMPLEQ_INSERT_AFTER q l e t)"
  "sqh_first t q \<noteq> NULL \<Longrightarrow> SLIST_REMOVE_HEAD q (sl_of t) = Inr (sl_of (SIMPLEQ_REMOVE_HEAD q (SIMPLEQ_FIRST q t) t))"
  by (simp_all add: SLIST_INIT_def SIMPLEQ_INIT_def SLIST_INSERT_HEAD_def SIMPLEQ_INSERT_HEAD_def SLIST_INSERT_AFTER_def
      SIMPLEQ_INSERT_AFTER_def SLIST_REMOVE_HEAD_def SIMPLEQ_REMOVE_HEAD_def SIMPLEQ_FIRST_def Let_def sl_of_def sq_last_def)

interpretation sl: listq slist SLIST_INIT SLIST_INSERT_HEAD "\<lambda>_. SLIST_INSERT_AFTER" SLIST_FIRST SLIST_NEXT "\<lambda>_. NULL"
proof
  fix q h
  obtain t where "h = sl_of t"
    by (rule that [of "\<lparr>sqh_first = slh_first h, sqh_last = \<lambda>_. TqFirst q, sqe_next = sle_next h\<rparr>"]) (simp add: sl_of_def)
  then show "slist (SLIST_INIT q h) q []" using slist_is_simpleq(1) sq.init_empty by (auto simp: slist_def)
next
  fix h q xs e
  assume "slist h q xs" "fresh q e xs"
  then show "slist (SLIST_INSERT_HEAD q e h) q (e # xs)"
    using slist_is_simpleq(2) sq.insert_head_list unfolding slist_def by blast
next
  fix h q us l vs e
  assume "slist h q (us @ l # vs)" "fresh q e (us @ l # vs)"
  then show "slist (SLIST_INSERT_AFTER l e h) q (us @ l # e # vs)"
    using slist_is_simpleq(3) sq.insert_after_list unfolding slist_def by blast
next
  fix h q xs
  assume "slist h q xs"
  then show "SLIST_FIRST q h = hd (xs @ [NULL])" "NULL \<notin> set xs"
    using sq.first_hd sq.stop_out by (auto simp: slist_def SLIST_FIRST_def SIMPLEQ_FIRST_def)
next
  fix h q us x vs
  assume "slist h q (us @ x # vs)"
  then show "SLIST_NEXT x h = hd (vs @ [NULL])"
    using sq.next_hd by (auto simp: slist_def SLIST_NEXT_def SIMPLEQ_NEXT_def)
qed

lemma before_found:
  "slist h q (us @ ys @ b # e # vs) \<Longrightarrow> e \<notin> set ys \<Longrightarrow> e \<noteq> b \<Longrightarrow>
     slist_before (sle_next h) e (hd (ys @ [b])) = Some (Inr b)"
proof (induction ys arbitrary: us)
  case Nil
  then have "b \<noteq> NULL" using sl.stop_out by force
  moreover have "sle_next h b = e" using sl.next_hd [of h q us b "e # vs"] Nil(1) by (simp add: SLIST_NEXT_def)
  ultimately show ?case by (subst slist_before.simps) simp
next
  case (Cons y ys)
  then have "y \<noteq> NULL" using sl.stop_out by force
  moreover have "sle_next h y = hd (ys @ [b])"
    using sl.next_hd [of h q us y "ys @ b # e # vs"] Cons.prems(1) by (cases ys) (simp_all add: SLIST_NEXT_def)
  moreover have "hd (ys @ [b]) \<noteq> e" using Cons.prems(2,3) by (cases ys) auto
  ultimately show ?case using Cons.IH [of "us @ [y]"] Cons.prems by (subst slist_before.simps) simp
qed

lemma before_missing:
  "slist h q (us @ ys) \<Longrightarrow> e \<notin> set (tl ys) \<Longrightarrow> e \<noteq> NULL \<Longrightarrow>
     slist_before (sle_next h) e (hd (ys @ [NULL])) = Some (Inl NullDeref)"
proof (induction ys arbitrary: us)
  case Nil
  then show ?case by (subst slist_before.simps) simp
next
  case (Cons y ys)
  then have "y \<noteq> NULL" using sl.stop_out by force
  moreover have n: "sle_next h y = hd (ys @ [NULL])"
    using sl.next_hd [of h q us y ys] Cons.prems(1) by (simp add: SLIST_NEXT_def)
  moreover have "hd (ys @ [NULL]) \<noteq> e" using Cons.prems(2,3) by (cases ys) auto
  moreover have "e \<notin> set (tl ys)" using Cons.prems(2) by (cases ys) auto
  ultimately show ?case using Cons.IH [of "us @ [y]"] Cons.prems by (subst slist_before.simps) simp
qed

lemma SLIST_REMOVE_missing:
  assumes "slist h q xs" and "e \<notin> set xs" and "e \<noteq> NULL"
  shows "SLIST_REMOVE q e h = Some (Inl NullDeref)"
proof -
  have f: "slh_first h q = hd (xs @ [NULL])" using sl.first_hd [OF assms(1)] by (simp add: SLIST_FIRST_def)
  then have "slh_first h q \<noteq> e" using assms(2,3) by (cases xs) auto
  moreover have "e \<notin> set (tl xs)" using assms(2) by (cases xs) auto
  ultimately show ?thesis using before_missing [of h q "[]" xs e] assms f by (simp add: SLIST_REMOVE_def)
qed

lemma SLIST_REMOVE_list:
  assumes "slist h q (us @ e # vs)"
  shows "\<exists>h'. SLIST_REMOVE q e h = Some (Inr h') \<and> slist h' q (us @ vs)"
proof -
  from assms obtain t where t: "h = sl_of (sq_of t)" "tailq t q (us @ e # vs)"
    by (auto simp: slist_def simpleq_def)
  have wf: "slist (sl_of (sq_of (TAILQ_REMOVE q e t))) q (us @ vs)"
    using TAILQ_REMOVE_list [OF t(2)] by (auto simp: slist_def simpleq_def)
  have f: "slh_first h q = hd ((us @ e # vs) @ [NULL])" using sl.first_hd [OF assms] by (simp add: SLIST_FIRST_def)
  from t(2) have d: "distinct (us @ e # vs)" by (simp add: tailq_def)
  from t(2) obtain p where p: "tqe_prev t e = p" "e \<noteq> NULL" "tseg t (TqFirst q) us p e"
    "p = (if us = [] then TqFirst q else TqNext (last us))" by (rule tailq_split)
  show ?thesis
  proof (cases us rule: rev_cases)
    case Nil
    then have "SLIST_REMOVE q e h = Some (Inr (sl_of (sq_of (TAILQ_REMOVE q e t))))"
      using f p t(1) by (auto simp: SLIST_REMOVE_def SLIST_REMOVE_HEAD_def TAILQ_REMOVE_def Let_def sl_of_def sq_last_def)
    with wf show ?thesis by blast
  next
    case (snoc ys b)
    have n: "sle_next h b = e" using sl.next_hd [of h q ys b "e # vs"] assms snoc by (simp add: SLIST_NEXT_def)
    have f1: "slh_first h q = hd (ys @ [b])" "slh_first h q \<noteq> e" using f d snoc by (cases ys; auto)+
    have "slist_before (sle_next h) e (slh_first h q) = Some (Inr b)"
      using before_found [of h q "[]" ys b e vs] assms snoc d f1 by simp
    then have "SLIST_REMOVE q e h = Some (Inr (sl_of (sq_of (TAILQ_REMOVE q e t))))"
      using f1(2) n p snoc t(1) by (auto simp: SLIST_REMOVE_def TAILQ_REMOVE_def Let_def sl_of_def sq_last_def)
    with wf show ?thesis by blast
  qed
qed

subsection \<open>Circular queues\<close>

record cq_heap =
  cqh_first :: "addr \<Rightarrow> addr"
  cqh_last :: "addr \<Rightarrow> addr"
  cqe_next :: "addr \<Rightarrow> addr"
  cqe_prev :: "addr \<Rightarrow> addr"

definition cq_first :: "addr \<Rightarrow> addr \<Rightarrow> cq_heap \<Rightarrow> cq_heap" where
  "cq_first q v h = h\<lparr>cqh_first := (cqh_first h)(q := v)\<rparr>"

definition cq_last :: "addr \<Rightarrow> addr \<Rightarrow> cq_heap \<Rightarrow> cq_heap" where
  "cq_last q v h = h\<lparr>cqh_last := (cqh_last h)(q := v)\<rparr>"

definition cq_next :: "addr \<Rightarrow> addr \<Rightarrow> cq_heap \<Rightarrow> cq_heap" where
  "cq_next e v h = h\<lparr>cqe_next := (cqe_next h)(e := v)\<rparr>"

definition cq_prev :: "addr \<Rightarrow> addr \<Rightarrow> cq_heap \<Rightarrow> cq_heap" where
  "cq_prev e v h = h\<lparr>cqe_prev := (cqe_prev h)(e := v)\<rparr>"

text \<open>The end of the queue is the address of its head.\<close>

definition CIRCLEQ_INIT :: "addr \<Rightarrow> cq_heap \<Rightarrow> cq_heap" where
  "CIRCLEQ_INIT q h = cq_last q q (cq_first q q h)"

definition CIRCLEQ_INSERT_AFTER :: "addr \<Rightarrow> addr \<Rightarrow> addr \<Rightarrow> cq_heap \<Rightarrow> cq_heap" where
  "CIRCLEQ_INSERT_AFTER q l e h =
     (let h1 = cq_next e (cqe_next h l) h;
          h2 = cq_prev e l h1;
          h3 = (if cqe_next h2 l = q then cq_last q e h2 else cq_prev (cqe_next h2 l) e h2)
      in cq_next l e h3)"

definition CIRCLEQ_INSERT_BEFORE :: "addr \<Rightarrow> addr \<Rightarrow> addr \<Rightarrow> cq_heap \<Rightarrow> cq_heap" where
  "CIRCLEQ_INSERT_BEFORE q l e h =
     (let h1 = cq_next e l h;
          h2 = cq_prev e (cqe_prev h1 l) h1;
          h3 = (if cqe_prev h2 l = q then cq_first q e h2 else cq_next (cqe_prev h2 l) e h2)
      in cq_prev l e h3)"

definition CIRCLEQ_INSERT_HEAD :: "addr \<Rightarrow> addr \<Rightarrow> cq_heap \<Rightarrow> cq_heap" where
  "CIRCLEQ_INSERT_HEAD q e h =
     (let h1 = cq_next e (cqh_first h q) h;
          h2 = cq_prev e q h1;
          h3 = (if cqh_last h2 q = q then cq_last q e h2 else cq_prev (cqh_first h2 q) e h2)
      in cq_first q e h3)"

definition CIRCLEQ_INSERT_TAIL :: "addr \<Rightarrow> addr \<Rightarrow> cq_heap \<Rightarrow> cq_heap" where
  "CIRCLEQ_INSERT_TAIL q e h =
     (let h1 = cq_next e q h;
          h2 = cq_prev e (cqh_last h1 q) h1;
          h3 = (if cqh_first h2 q = q then cq_first q e h2 else cq_next (cqh_last h2 q) e h2)
      in cq_last q e h3)"

definition CIRCLEQ_REMOVE :: "addr \<Rightarrow> addr \<Rightarrow> cq_heap \<Rightarrow> cq_heap" where
  "CIRCLEQ_REMOVE q e h =
     (let h1 = (if cqe_next h e = q then cq_last q (cqe_prev h e) h
                else cq_prev (cqe_next h e) (cqe_prev h e) h)
      in if cqe_prev h1 e = q then cq_first q (cqe_next h1 e) h1
         else cq_next (cqe_prev h1 e) (cqe_next h1 e) h1)"

definition CIRCLEQ_FOREACH :: "addr \<Rightarrow> cq_heap \<Rightarrow> addr list option" where
  "CIRCLEQ_FOREACH q h = walk (cqe_next h) q (cqh_first h q)"

definition CIRCLEQ_FOREACH_REVERSE :: "addr \<Rightarrow> cq_heap \<Rightarrow> addr list option" where
  "CIRCLEQ_FOREACH_REVERSE q h = walk (cqe_prev h) q (cqh_last h q)"

definition CIRCLEQ_EMPTY :: "addr \<Rightarrow> cq_heap \<Rightarrow> bool" where
  "CIRCLEQ_EMPTY q h \<longleftrightarrow> cqh_first h q = q"

definition CIRCLEQ_FIRST :: "addr \<Rightarrow> cq_heap \<Rightarrow> addr" where
  "CIRCLEQ_FIRST q h = cqh_first h q"

definition CIRCLEQ_LAST :: "addr \<Rightarrow> cq_heap \<Rightarrow> addr" where
  "CIRCLEQ_LAST q h = cqh_last h q"

definition CIRCLEQ_NEXT :: "addr \<Rightarrow> cq_heap \<Rightarrow> addr" where
  "CIRCLEQ_NEXT e h = cqe_next h e"

definition CIRCLEQ_PREV :: "addr \<Rightarrow> cq_heap \<Rightarrow> addr" where
  "CIRCLEQ_PREV e h = cqe_prev h e"

text \<open>The ring through the head.\<close>

definition cq_ring :: "addr \<Rightarrow> cq_heap \<Rightarrow> addr ps_heap" where
  "cq_ring q h = \<lparr>ps_n = (\<lambda>x. if x = q then cqh_first h q else cqe_next h x),
     ps_p = (\<lambda>x. if x = q then cqh_last h q else cqe_prev h x)\<rparr>"

definition circleq :: "cq_heap \<Rightarrow> addr \<Rightarrow> addr list \<Rightarrow> bool" where
  "circleq h q xs \<longleftrightarrow> ring (cq_ring q h) (q # xs)"

lemma cq_sel [simp]:
  "cqh_first (cq_first q v h) = (cqh_first h)(q := v)" "cqh_last (cq_first q v h) = cqh_last h"
  "cqe_next (cq_first q v h) = cqe_next h" "cqe_prev (cq_first q v h) = cqe_prev h"
  "cqh_last (cq_last q v h) = (cqh_last h)(q := v)" "cqh_first (cq_last q v h) = cqh_first h"
  "cqe_next (cq_last q v h) = cqe_next h" "cqe_prev (cq_last q v h) = cqe_prev h"
  "cqe_next (cq_next e v h) = (cqe_next h)(e := v)" "cqh_first (cq_next e v h) = cqh_first h"
  "cqh_last (cq_next e v h) = cqh_last h" "cqe_prev (cq_next e v h) = cqe_prev h"
  "cqe_prev (cq_prev e v h) = (cqe_prev h)(e := v)" "cqh_first (cq_prev e v h) = cqh_first h"
  "cqh_last (cq_prev e v h) = cqh_last h" "cqe_next (cq_prev e v h) = cqe_next h"
  by (simp_all add: cq_first_def cq_last_def cq_next_def cq_prev_def)

lemma cq_ring_sel [simp]:
  "ps_n (cq_ring q h) x = (if x = q then cqh_first h q else cqe_next h x)"
  "ps_p (cq_ring q h) x = (if x = q then cqh_last h q else cqe_prev h x)"
  by (simp_all add: cq_ring_def)

text \<open>Each macro changes the ring as the operation of \<open>ps_list.h\<close> does.\<close>

lemma ps_heap_eqI:
  fixes h h' :: "addr ps_heap"
  shows "(\<And>x. ps_n h x = ps_n h' x) \<Longrightarrow> (\<And>x. ps_p h x = ps_p h' x) \<Longrightarrow> h = h'"
  by (cases h, cases h') auto

lemma cq_after_ring:
  "l \<noteq> q \<Longrightarrow> e \<noteq> q \<Longrightarrow> e \<noteq> l \<Longrightarrow>
     cq_ring q (CIRCLEQ_INSERT_AFTER q l e h) = ps_list_ll_add l e (cq_ring q h)"
  by (rule ps_heap_eqI) (simp_all add: CIRCLEQ_INSERT_AFTER_def ps_list_ll_add_def Let_def)

lemma cq_head_ring:
  "cqh_last h q = q \<longleftrightarrow> cqh_first h q = q \<Longrightarrow> e \<noteq> q \<Longrightarrow>
     cq_ring q (CIRCLEQ_INSERT_HEAD q e h) = ps_list_ll_add q e (cq_ring q h)"
  by (rule ps_heap_eqI) (simp_all add: CIRCLEQ_INSERT_HEAD_def ps_list_ll_add_def Let_def)

lemma cq_tail_ring:
  "cqh_last h q = q \<longleftrightarrow> cqh_first h q = q \<Longrightarrow> ps_n (cq_ring q h) (cqh_last h q) = q \<Longrightarrow> e \<noteq> q \<Longrightarrow> e \<noteq> cqh_last h q \<Longrightarrow>
     cq_ring q (CIRCLEQ_INSERT_TAIL q e h) = ps_list_ll_add (cqh_last h q) e (cq_ring q h)"
  by (rule ps_heap_eqI) (auto simp: CIRCLEQ_INSERT_TAIL_def ps_list_ll_add_def Let_def)

lemma cq_before_ring:
  "l \<noteq> q \<Longrightarrow> e \<noteq> q \<Longrightarrow> e \<noteq> l \<Longrightarrow> ps_n (cq_ring q h) (cqe_prev h l) = l \<Longrightarrow> e \<noteq> cqe_prev h l \<Longrightarrow>
     cq_ring q (CIRCLEQ_INSERT_BEFORE q l e h) = ps_list_ll_add (cqe_prev h l) e (cq_ring q h)"
  by (rule ps_heap_eqI) (auto simp: CIRCLEQ_INSERT_BEFORE_def ps_list_ll_add_def Let_def split: if_splits)

lemma cq_remove_ring:
  "e \<noteq> q \<Longrightarrow> cqe_next h e \<noteq> e \<Longrightarrow> cqe_prev h e \<noteq> e \<Longrightarrow> x \<noteq> e \<Longrightarrow>
     ps_n (cq_ring q (CIRCLEQ_REMOVE q e h)) x = ps_n (ps_list_ll_rem e (cq_ring q h)) x \<and>
     ps_p (cq_ring q (CIRCLEQ_REMOVE q e h)) x = ps_p (ps_list_ll_rem e (cq_ring q h)) x"
  by (auto simp: CIRCLEQ_REMOVE_def ps_list_ll_rem_def Let_def)

text \<open>The neighbours in a ring.\<close>

lemma ring_neighbours:
  assumes "ring h (q # us @ x # vs)"
  shows "ps_n h x = hd (vs @ [q])" and "ps_p h x = last (q # us)" and "ps_n h (last (q # us)) = x" and "ps_p h (hd (vs @ [q])) = x"
proof -
  from assms have d: "dseg h q us x" "dseg h x vs q" by (simp_all add: dseg_append)
  show "ps_n h x = hd (vs @ [q])" "ps_p h (hd (vs @ [q])) = x" using d(2) by (cases vs; simp)+
  have "dseg h a us x \<Longrightarrow> ps_p h x = last (a # us) \<and> ps_n h (last (a # us)) = x" for a
    by (induction us arbitrary: a) auto
  with d(1) show "ps_p h x = last (q # us)" "ps_n h (last (q # us)) = x" by blast+
qed

lemma circleqD:
  assumes "circleq h q xs"
  shows "cqh_first h q = hd (xs @ [q])" and "cqh_last h q = last (q # xs)" and "q \<notin> set xs" and "distinct xs"
    and "cqh_last h q = q \<longleftrightarrow> cqh_first h q = q"
proof -
  note r = assms [unfolded circleq_def]
  show f: "cqh_first h q = hd (xs @ [q])" using ring_next [OF r] by (simp add: ps_list_defs)
  show l: "cqh_last h q = last (q # xs)" using ring_prev [OF r] by (simp add: ps_list_defs)
  show q: "q \<notin> set xs" "distinct xs" using ring_distinct [OF r] by simp_all
  show "cqh_last h q = q \<longleftrightarrow> cqh_first h q = q" using f l q(1) last_in_set [of xs] by (cases xs) (auto split: if_splits)
qed

lemma CIRCLEQ_INSERT_AFTER_list:
  assumes "circleq h q (us @ l # vs)" and "e \<notin> set (us @ l # vs)" and "e \<noteq> q"
  shows "circleq (CIRCLEQ_INSERT_AFTER q l e h) q (us @ l # e # vs)"
proof -
  have n: "l \<noteq> q" "e \<noteq> l" using circleqD(3) [OF assms(1)] assms(2) by auto
  have "ring (cq_ring q h) (l # vs @ q # us)"
    using ring_rotate [of "cq_ring q h" "q # us" "l # vs"] assms(1) by (simp add: circleq_def del: ring.simps)
  then have "ring (ps_list_ll_add l e (cq_ring q h)) (l # e # vs @ q # us)"
    by (rule ring_add) (use assms in auto)
  then have "ring (ps_list_ll_add l e (cq_ring q h)) (q # us @ l # e # vs)"
    using ring_rotate [of _ "l # e # vs" "q # us"] by (simp del: ring.simps)
  then show ?thesis using cq_after_ring [OF n(1) assms(3) n(2)] by (simp add: circleq_def)
qed

lemma CIRCLEQ_INSERT_BEFORE_list:
  assumes "circleq h q (us @ l # vs)" and "e \<notin> set (us @ l # vs)" and "e \<noteq> q"
  shows "circleq (CIRCLEQ_INSERT_BEFORE q l e h) q (us @ e # l # vs)"
proof -
  have n: "l \<noteq> q" "e \<noteq> l" using circleqD(3) [OF assms(1)] assms(2) by auto
  note r = assms(1) [unfolded circleq_def]
  have p: "cqe_prev h l = last (q # us)" using ring_neighbours(2) [OF r] n(1) by simp
  have nx: "ps_n (cq_ring q h) (cqe_prev h l) = l" using ring_neighbours(3) [OF r] p by simp
  have "e \<noteq> cqe_prev h l" using p assms(2,3) last_in_set [of us] by (auto split: if_splits)
  note e = cq_before_ring [OF n(1) assms(3) n(2) nx this]
  obtain ys where ys: "q # us = ys @ [last (q # us)]" by (metis append_butlast_last_id list.distinct(1))
  then have "ring (cq_ring q h) (ys @ last (q # us) # l # vs)" using r by (metis append.assoc append_Cons append_Nil)
  then have "ring (cq_ring q h) (last (q # us) # l # vs @ ys)"
    using ring_rotate [of _ ys "last (q # us) # l # vs"] by (simp del: ring.simps last.simps)
  then have "ring (ps_list_ll_add (last (q # us)) e (cq_ring q h)) (last (q # us) # e # l # vs @ ys)"
  proof (rule ring_add)
    have "set (last (q # us) # l # vs @ ys) \<subseteq> insert q (set (us @ l # vs))"
      using arg_cong [OF ys, of set] by auto
    then show "e \<notin> set (last (q # us) # l # vs @ ys)" using assms(2,3) by blast
  qed
  then have "ring (ps_list_ll_add (last (q # us)) e (cq_ring q h)) (ys @ last (q # us) # e # l # vs)"
    using ring_rotate [of _ "last (q # us) # e # l # vs" ys] by (simp del: ring.simps last.simps)
  then have "ring (ps_list_ll_add (last (q # us)) e (cq_ring q h)) (q # us @ e # l # vs)"
    using ys by (metis append.assoc append_Cons append_Nil)
  then show ?thesis using e p by (simp add: circleq_def)
qed

lemma CIRCLEQ_REMOVE_list:
  assumes "circleq h q (us @ e # vs)"
  shows "circleq (CIRCLEQ_REMOVE q e h) q (us @ vs)"
proof -
  note r = assms [unfolded circleq_def] and d = circleqD(3,4) [OF assms]
  have n: "e \<noteq> q" using d by auto
  have "cqe_next h e = hd (vs @ [q])" "cqe_prev h e = last (q # us)"
    using ring_neighbours(1,2) [OF r] n by simp_all
  then have ne: "cqe_next h e \<noteq> e" "cqe_prev h e \<noteq> e"
    using d n last_in_set [of us] by (cases vs; auto split: if_splits)+
  have "ring (ps_list_ll_rem e (cq_ring q h)) ((q # us) @ vs)"
    using ring_rem [of _ "q # us" e vs] r by simp
  moreover have "ring (cq_ring q (CIRCLEQ_REMOVE q e h)) (q # us @ vs) =
      ring (ps_list_ll_rem e (cq_ring q h)) (q # us @ vs)"
    by (rule ring_frame, rule ballI, rule cq_remove_ring [OF n ne]) (use d n in auto)
  ultimately show ?thesis by (simp add: circleq_def)
qed

interpretation cq: two_way circleq CIRCLEQ_INIT CIRCLEQ_INSERT_HEAD CIRCLEQ_INSERT_AFTER CIRCLEQ_FIRST CIRCLEQ_NEXT "\<lambda>q. q"
    CIRCLEQ_REMOVE CIRCLEQ_LAST CIRCLEQ_PREV
proof
  fix q h show "circleq (CIRCLEQ_INIT q h) q []" by (simp add: circleq_def CIRCLEQ_INIT_def)
next
  fix h q xs e
  assume a: "circleq h q xs" "fresh q e xs"
  then have "ring (ps_list_ll_add q e (cq_ring q h)) (q # e # xs)"
    unfolding circleq_def by (intro ring_add) (auto simp: fresh_def)
  then show "circleq (CIRCLEQ_INSERT_HEAD q e h) q (e # xs)"
    using cq_head_ring [OF circleqD(5) [OF a(1)], of e] a(2) by (simp add: circleq_def fresh_def)
next
  fix h q us l vs e
  assume "circleq h q (us @ l # vs)" "fresh q e (us @ l # vs)"
  then show "circleq (CIRCLEQ_INSERT_AFTER q l e h) q (us @ l # e # vs)"
    by (intro CIRCLEQ_INSERT_AFTER_list) (simp_all add: fresh_def)
next
  fix h q xs
  assume a: "circleq h q xs"
  show "CIRCLEQ_FIRST q h = hd (xs @ [q])" using circleqD(1) [OF a] by (simp add: CIRCLEQ_FIRST_def)
  show "q \<notin> set xs" by (rule circleqD(3) [OF a])
  show "CIRCLEQ_LAST q h = last (q # xs)" using circleqD(2) [OF a] by (simp add: CIRCLEQ_LAST_def)
next
  fix h q us x vs
  assume a: "circleq h q (us @ x # vs)"
  then have n: "x \<noteq> q" using circleqD(3) by fastforce
  note r = ring_neighbours [OF a [unfolded circleq_def]]
  show "CIRCLEQ_NEXT x h = hd (vs @ [q])" using r(1) n by (simp add: CIRCLEQ_NEXT_def)
  show "CIRCLEQ_PREV x h = last (q # us)" using r(2) n by (simp add: CIRCLEQ_PREV_def)
qed (simp_all add: CIRCLEQ_REMOVE_list)

interpretation cqf: fifo circleq CIRCLEQ_INIT CIRCLEQ_INSERT_HEAD CIRCLEQ_INSERT_AFTER CIRCLEQ_FIRST CIRCLEQ_NEXT "\<lambda>q. q"
    CIRCLEQ_INSERT_TAIL "\<lambda>q h. CIRCLEQ_REMOVE q (CIRCLEQ_FIRST q h) h"
proof
  fix h q xs e
  assume a: "circleq h q xs" "fresh q e xs"
  note d = circleqD [OF a(1)]
  have l: "e \<noteq> cqh_last h q" using a(2) d(2) last_in_set [of xs] by (auto simp: fresh_def split: if_splits)
  have n: "ps_n (cq_ring q h) (cqh_last h q) = q"
  proof (cases xs rule: rev_cases)
    case Nil
    then show ?thesis using d(1,2) by simp
  next
    case (snoc ys y)
    then show ?thesis using ring_neighbours(1) [of "cq_ring q h" q ys y "[]"] a(1) d(2) by (simp add: circleq_def)
  qed
  have "ring (ps_list_ll_add (ps_p (cq_ring q h) q) e (cq_ring q h)) (q # xs @ [e])"
    using a unfolding circleq_def by (intro ring_append) (auto simp: fresh_def)
  then show "circleq (CIRCLEQ_INSERT_TAIL q e h) q (xs @ [e])"
    using cq_tail_ring [OF d(5) n _ l] a(2) by (simp add: circleq_def fresh_def)
next
  fix h q x xs
  assume a: "circleq h q (x # xs)"
  then show "circleq (CIRCLEQ_REMOVE q (CIRCLEQ_FIRST q h) h) q xs"
    using CIRCLEQ_REMOVE_list [of h q "[]" x xs] circleqD(1) [OF a] by (simp add: CIRCLEQ_FIRST_def)
qed

subsection \<open>Properties\<close>

lemma foreach_eqs:
  "lis h q xs \<Longrightarrow> LIST_FOREACH q h = Some xs" "slist g q xs \<Longrightarrow> SLIST_FOREACH q g = Some xs"
  "simpleq f q xs \<Longrightarrow> SIMPLEQ_FOREACH q f = Some xs" "tailq t q xs \<Longrightarrow> TAILQ_FOREACH q t = Some xs"
  "circleq c q xs \<Longrightarrow> CIRCLEQ_FOREACH q c = Some xs"
  "tailq t q xs \<Longrightarrow> TAILQ_FOREACH_REVERSE q t = Some (rev xs)"
  "circleq c q xs \<Longrightarrow> CIRCLEQ_FOREACH_REVERSE q c = Some (rev xs)"
proof -
  have n: "tqe_next t = (\<lambda>e. tq_get t (TqNext e))" by (rule ext) simp
  show "tailq t q xs \<Longrightarrow> TAILQ_FOREACH q t = Some xs" "tailq t q xs \<Longrightarrow> TAILQ_FOREACH_REVERSE q t = Some (rev xs)"
    using tq.walk_all [of t q xs] tq.walk_back [of t q xs]
    by (simp_all add: TAILQ_FOREACH_def TAILQ_FIRST_def TAILQ_NEXT_def TAILQ_FOREACH_REVERSE_def TAILQ_LAST_def
        TAILQ_PREV_def n)
qed (use li.walk_all [of h q xs] sl.walk_all [of g q xs] sq.walk_all [of f q xs] cq.walk_all [of c q xs]
    cq.walk_back [of c q xs] in \<open>simp_all add: LIST_FOREACH_def LIST_FIRST_def LIST_NEXT_def SLIST_FOREACH_def
      SLIST_FIRST_def SLIST_NEXT_def SIMPLEQ_FOREACH_def SIMPLEQ_FIRST_def SIMPLEQ_NEXT_def CIRCLEQ_FOREACH_def
      CIRCLEQ_FIRST_def CIRCLEQ_NEXT_def CIRCLEQ_FOREACH_REVERSE_def CIRCLEQ_LAST_def CIRCLEQ_PREV_def\<close>)

lemma families_agree:
  assumes "distinct es" and "NULL \<notin> set es" and "q \<notin> set es"
  shows "LIST_FOREACH q (fold (LIST_INSERT_HEAD q) es (LIST_INIT q l)) = Some (rev es)"
    and "SLIST_FOREACH q (fold (SLIST_INSERT_HEAD q) es (SLIST_INIT q g)) = Some (rev es)"
    and "SIMPLEQ_FOREACH q (fold (SIMPLEQ_INSERT_HEAD q) es (SIMPLEQ_INIT q f)) = Some (rev es)"
    and "TAILQ_FOREACH q (fold (TAILQ_INSERT_HEAD q) es (TAILQ_INIT q t)) = Some (rev es)"
    and "CIRCLEQ_FOREACH q (fold (CIRCLEQ_INSERT_HEAD q) es (CIRCLEQ_INIT q c)) = Some (rev es)"
  by (intro foreach_eqs li.fill_head sl.fill_head sq.fill_head tq.fill_head cq.fill_head; use assms in simp)+

text \<open>C40: the queues with two ends. Whatever the memory held, a simple queue, a tail queue and a circular queue
  that get the elements \<open>es\<close> at the tail hold them in that order. When the elements \<open>rs\<close> are then removed from the
  tail queue and from the circular queue, in any order, the forward loop visits the others in order and the
  backward loop visits them in the opposite order; a simple queue gives up its elements in the order they came.\<close>

theorem queues_walk_both_ways:
  assumes "distinct es" and "NULL \<notin> set es" and "q \<notin> set es" and "distinct rs" and "set rs \<subseteq> set es"
    and "t' = fold (TAILQ_REMOVE q) rs (fold (TAILQ_INSERT_TAIL q) es (TAILQ_INIT q t))"
    and "c' = fold (CIRCLEQ_REMOVE q) rs (fold (CIRCLEQ_INSERT_TAIL q) es (CIRCLEQ_INIT q c))"
    and "f' = fold (SIMPLEQ_INSERT_TAIL q) es (SIMPLEQ_INIT q f)" and "es = es1 @ es2"
  shows "let left = filter (\<lambda>x. x \<notin> set rs) es in
    TAILQ_FOREACH q t' = Some left \<and> TAILQ_FOREACH_REVERSE q t' = Some (rev left) \<and>
    CIRCLEQ_FOREACH q c' = Some left \<and> CIRCLEQ_FOREACH_REVERSE q c' = Some (rev left) \<and>
    SIMPLEQ_FOREACH q f' = Some es \<and>
    SIMPLEQ_FOREACH q (((\<lambda>h. SIMPLEQ_REMOVE_HEAD q (SIMPLEQ_FIRST q h) h) ^^ length es1) f') = Some es2"
proof -
  let ?left = "filter (\<lambda>x. x \<notin> set rs) es"
  have t: "tailq t' q ?left"
    using tqf.fill_tail [OF TAILQ_INIT_empty, of es q t] tq.remove_all [of _ q es rs] assms(1-6) by simp
  have c: "circleq c' q ?left"
    using cqf.fill_tail [OF cq.init_empty, of es q c] cq.remove_all [of _ q es rs] assms(1-5,7) by simp
  have f: "simpleq f' q (es1 @ es2)"
    using sq.fill_tail [OF sq.init_empty, of es q f] assms(1-3,8,9) by simp
  show ?thesis
    unfolding Let_def using foreach_eqs(4,6) [OF t] foreach_eqs(5,7) [OF c] foreach_eqs(3) [OF f]
      foreach_eqs(3) [OF sq.drain [OF f]] assms(9) by (simp del: rev_filter)
qed

theorem queues_walk_both_ways_witness:
  "\<exists>t c. TAILQ_FOREACH_REVERSE 100 t = Some [3, 1] \<and> CIRCLEQ_FOREACH 100 c = Some [1, 3]"
proof -
  define T where "T = fold (TAILQ_REMOVE 100) [2] (fold (TAILQ_INSERT_TAIL 100) [1, 2, 3] (TAILQ_INIT 100
    \<lparr>tqh_first = \<lambda>_. 7, tqh_last = \<lambda>_. TqFirst 7, tqe_next = \<lambda>_. 7, tqe_prev = \<lambda>_. TqNext 7\<rparr>))"
  define C where "C = fold (CIRCLEQ_REMOVE 100) [2] (fold (CIRCLEQ_INSERT_TAIL 100) [1, 2, 3] (CIRCLEQ_INIT 100
    \<lparr>cqh_first = \<lambda>_. 7, cqh_last = \<lambda>_. 7, cqe_next = \<lambda>_. 7, cqe_prev = \<lambda>_. 7\<rparr>))"
  define F where "F = fold (SIMPLEQ_INSERT_TAIL 100) [1, 2, 3] (SIMPLEQ_INIT 100
    \<lparr>sqh_first = \<lambda>_. 7, sqh_last = \<lambda>_. TqNext 7, sqe_next = \<lambda>_. 7\<rparr>)"
  have p: "distinct [1, 2, 3 :: addr]" "NULL \<notin> set [1, 2, 3]" "100 \<notin> set [1, 2, 3 :: addr]" "distinct [2 :: addr]"
    "set [2 :: addr] \<subseteq> set [1, 2, 3]" "[1, 2, 3 :: addr] = [1, 2] @ [3]" by simp_all
  have f: "filter (\<lambda>x. x \<notin> set [2 :: addr]) [1, 2, 3] = [1, 3]" "rev [1, 3 :: addr] = [3, 1]" by simp_all
  from queues_walk_both_ways [OF p(1-5) T_def C_def F_def p(6)]
  have "TAILQ_FOREACH_REVERSE 100 T = Some [3, 1] \<and> CIRCLEQ_FOREACH 100 C = Some [1, 3]"
    unfolding Let_def f by blast
  then show ?thesis by blast
qed

text \<open>Removal from a singly linked list. \<open>SLIST_REMOVE\<close> always comes back; an element of the list is taken out
  and the others stay in order; for an address that is not in the list the search runs into the null
  pointer and dereferences it.\<close>

theorem slist_remove_exact:
  assumes "slist h q xs" and "e \<noteq> NULL"
  shows "case SLIST_REMOVE q e h of None \<Rightarrow> False
    | Some (Inl f) \<Rightarrow> f = NullDeref \<and> e \<notin> set xs
    | Some (Inr h') \<Rightarrow> e \<in> set xs \<and> slist h' q (remove1 e xs) \<and> SLIST_FOREACH q h' = Some (remove1 e xs)"
proof (cases "e \<in> set xs")
  case True
  then obtain us vs where xs: "xs = us @ e # vs" "e \<notin> set us" by (meson split_list_first)
  from SLIST_REMOVE_list assms(1) xs(1) obtain h' where
    h': "SLIST_REMOVE q e h = Some (Inr h')" "slist h' q (us @ vs)" by blast
  then show ?thesis using xs foreach_eqs(2) [OF h'(2)] by (simp add: remove1_append)
next
  case False
  then show ?thesis using SLIST_REMOVE_missing [OF assms(1) False assms(2)] by simp
qed

theorem slist_remove_exact_witness:
  "\<exists>h h'. SLIST_REMOVE 100 2 h = Some (Inr h') \<and> SLIST_FOREACH 100 h' = Some [3, 1] \<and>
    SLIST_REMOVE 100 9 h = Some (Inl NullDeref)"
proof -
  define h where "h = fold (SLIST_INSERT_HEAD 100) [1, 2, 3] (SLIST_INIT 100 \<lparr>slh_first = \<lambda>_. 7, sle_next = \<lambda>_. 7\<rparr>)"
  have "slist h 100 (rev [1, 2, 3])" unfolding h_def by (rule sl.fill_head) simp_all
  then have h: "slist h 100 [3, 2, 1]" by (simp only: rev.simps append.simps)
  have "\<exists>h'. SLIST_REMOVE 100 2 h = Some (Inr h') \<and> SLIST_FOREACH 100 h' = Some [3, 1]"
    using slist_remove_exact [OF h, of 2] by (auto split: option.splits sum.splits)
  moreover have "SLIST_REMOVE 100 9 h = Some (Inl NullDeref)"
    using slist_remove_exact [OF h, of 9] by (auto split: option.splits sum.splits)
  ultimately show ?thesis by blast
qed

end
