(* ===== verification/ClientDev.thy ===== *)
theory ClientDev
  imports ThreadLogic LwtDev "HOL-Library.Multiset"
begin

text \<open>
  Programs of threads on the port: the steps of \<open>Client\<close> with the operations of \<open>scheddev/lwt.c\<close>.
  A run of \<open>ThreadLogic\<close> is a run of the port too, from every state whose pool has room for the
  threads the program creates. The view that the run sees has a set of free bytes of its own, all
  bytes that no thread has claimed, since the port does not give back what it allocates; what
  the real pool loses is kept in the relation between states and views, byte by byte.
\<close>

subsection \<open>The code\<close>

fun dev_pstep :: "('z dev_sys_scheme, 'g) text_segment \<Rightarrow> addr \<Rightarrow> ('z dev_sys_scheme, 'g) prog \<Rightarrow> ('z dev_sys_scheme, 'g) world \<Rightarrow>
    (('z dev_sys_scheme, 'g) prog \<times> ('z dev_sys_scheme, 'g) world) option result" where
  "dev_pstep code main (Done v) w =
     (if current_thread (w_sys w) = main then Inr None
      else landing code (\<lambda>_. Crash) Crash w (dev_lwt_die v (w_sys w)))"
| "dev_pstep code main (Die v) w = landing code (\<lambda>_. Crash) Crash w (dev_lwt_die v (w_sys w))"
| "dev_pstep code main (Create fn d fl k) w =
     rbind (dev_lwt_create fn d fl (w_sys w)) (\<lambda>(t, s). Inr (Some (k t, w\<lparr>w_sys := s\<rparr>)))"
| "dev_pstep code main (Join t k) w = landing code k (Joining t k) w (dev_lwt_join t (w_sys w))"
| "dev_pstep code main (Joining t k) w = landing code k (Joining t k) w (dev_lwt_join_resume t (w_sys w))"
| "dev_pstep code main (Yield t p) w = landing code (\<lambda>_. p) p w (dev_lwt_yield t (w_sys w))"
| "dev_pstep code main (Op f r k) w = landing code k (Op r r k) w (f (w_sys w))"
| "dev_pstep code main (Check b p) w =
     rbind (assertion (b (w_sys w) (w_glob w))) (\<lambda>_. Inr (Some (p, w)))"
| "dev_pstep code main (Act f p) w = Inr (Some (p, w\<lparr>w_glob := f (w_glob w)\<rparr>))"
| "dev_pstep code main (Load k) w = Inr (Some (k (w_glob w), w))"
| "dev_pstep code main Crash w = Inl OutOfBounds"

partial_function (option) dev_exec :: "('z dev_sys_scheme, 'g) text_segment \<Rightarrow> addr \<Rightarrow> ('z dev_sys_scheme, 'g) prog \<Rightarrow>
    ('z dev_sys_scheme, 'g) world \<Rightarrow> ('z dev_sys_scheme, 'g) world result option" where
  "dev_exec code main p w =
     (case dev_pstep code main p w of
        Inl e \<Rightarrow> Some (Inl e)
      | Inr None \<Rightarrow> Some (Inr w)
      | Inr (Some (q, w1)) \<Rightarrow> dev_exec code main q w1)"

lemma dev_exec_step:
  "dev_pstep code main p w = Inr (Some (q, w1)) \<Longrightarrow> dev_exec code main p w = dev_exec code main q w1"
  by (subst dev_exec.simps) simp

subsection \<open>The abstract operations do not look at the free bytes\<close>

lemma split_goto: "a_goto P (v\<lparr>v_free := F\<rparr>) = map_option (\<lambda>w. w\<lparr>v_free := F\<rparr>) (a_goto P v)"
  by (auto simp: a_switch_def a_set_def split: list.splits option.splits)

lemma a_goto_keeps: "a_goto P v = Some w \<Longrightarrow> mset (v_ring w) = mset (v_ring v) \<and> v_free w = v_free v"
  by (erule a_gotoD) (simp add: a_switch_def ac_simps)

definition keeps :: "view \<Rightarrow> 'a outcome \<times> view \<Rightarrow> bool" where
  "keeps v q \<longleftrightarrow> mset (v_ring (snd q)) = mset (v_ring v) \<and> v_free (snd q) = v_free v"

definition with_free :: "addr set \<Rightarrow> 'a outcome \<times> view \<Rightarrow> 'a outcome \<times> view" where
  "with_free F q = (fst q, (snd q)\<lparr>v_free := F\<rparr>)"

lemmas free_defs = keeps_def with_free_def

lemma view_free_inward:
  "(v\<lparr>v_thd := T\<rparr>)\<lparr>v_free := F\<rparr> = (v\<lparr>v_free := F\<rparr>)\<lparr>v_thd := T\<rparr>"
  "(v\<lparr>v_run := i\<rparr>)\<lparr>v_free := F\<rparr> = (v\<lparr>v_free := F\<rparr>)\<lparr>v_run := i\<rparr>"
  "(v\<lparr>v_blk := i\<rparr>)\<lparr>v_free := F\<rparr> = (v\<lparr>v_free := F\<rparr>)\<lparr>v_blk := i\<rparr>"
  by simp_all

lemma schedule_frame:
  assumes "a_schedule v = Some q"
  shows "a_schedule (v\<lparr>v_free := F\<rparr>) = Some (with_free F q) \<and> keeps v q"
proof (cases "v_run v = 0")
  case True
  with assms have "q = (Returned (), v)" by (simp add: a_schedule_def)
  with True show ?thesis by (simp add: a_schedule_def free_defs)
next
  case nz: False
  have g: "a_goto (a_ready (v\<lparr>v_free := F\<rparr>)) (v\<lparr>v_free := F\<rparr>) =
      map_option (\<lambda>w. w\<lparr>v_free := F\<rparr>) (a_goto (a_ready v) v)"
    unfolding split_goto by simp
  show ?thesis
  proof (cases "a_goto (a_ready v) v")
    case None
    then have "a_ready v (hd (v_ring v))" "q = (Returned (), v)"
      using assms nz unfolding a_schedule_def by (simp_all split: if_splits)
    then show ?thesis using None nz g unfolding a_schedule_def free_defs by simp
  next
    case (Some w)
    then have "q = (Switched, w)" using assms nz unfolding a_schedule_def by simp
    then show ?thesis using Some nz g a_goto_keeps [OF Some] unfolding a_schedule_def free_defs by simp
  qed
qed

lemma yield_frame:
  assumes "a_yield t v = Some q"
  shows "a_yield t (v\<lparr>v_free := F\<rparr>) = Some (with_free F q) \<and> keeps v q"
proof (cases "t = NULL")
  case True
  with assms schedule_frame [of v q F] show ?thesis by (simp add: a_yield_def)
next
  case ne: False
  show ?thesis
  proof (cases "a_ready v t")
    case False
    with assms ne have "q = (Returned (), v)" by (simp add: a_yield_def)
    with False ne show ?thesis by (simp add: a_yield_def free_defs)
  next
    case True
    with assms ne obtain w where w: "a_goto (\<lambda>u. u = t) v = Some w" "q = (Switched, w)"
      unfolding a_yield_def by (auto split: option.splits)
    with ne True a_goto_keeps [OF w(1)] show ?thesis
      unfolding a_yield_def split_goto free_defs by simp
  qed
qed

lemma die_frame:
  assumes "a_die x v = Some q" and "joinable v"
  shows "a_die x (v\<lparr>v_free := F\<rparr>) = Some (with_free F q) \<and> keeps v q"
proof
  define w where "w = a_set (hd (v_ring v)) (\<lambda>t. t\<lparr>t_ret := x\<rparr>)
    ((a_set (hd (v_ring v)) (\<lambda>t. t\<lparr>t_state := DEAD\<rparr>) v)\<lparr>v_thd := wake (t_jf (v_thd v (hd (v_ring v))))
      (v_thd (a_set (hd (v_ring v)) (\<lambda>t. t\<lparr>t_state := DEAD\<rparr>) v))\<rparr>)"
  have "a_schedule w = Some q" using assms by (simp add: a_die_def joinable_def w_def Let_def)
  note f = schedule_frame [OF this, of F]
  have "a_die x (v\<lparr>v_free := F\<rparr>) = a_schedule (w\<lparr>v_free := F\<rparr>)"
    using assms(2) by (simp add: a_die_def joinable_def w_def Let_def a_set_def view_free_inward)
  with f show "a_die x (v\<lparr>v_free := F\<rparr>) = Some (with_free F q)" by simp
  show "keeps v q" using f by (simp add: keeps_def w_def)
qed

lemma resume_frame:
  assumes "a_join_resume t v = Some (Switched, w)"
  shows "a_join_resume t (v\<lparr>v_free := F\<rparr>) = Some (Switched, w\<lparr>v_free := F\<rparr>)" and "keeps v (Switched, w)"
proof -
  let ?v = "v\<lparr>v_run := v_run v - 1, v_blk := v_blk v + 1\<rparr>"
  have g: "t_state (v_thd v (hd (v_ring v))) = BLOCKED" "a_ready v t" "a_goto (\<lambda>u. u = t) ?v = Some w"
    using assms by (auto simp: a_join_resume_def simp del: a_goto.simps split: if_splits option.splits)
  have "a_goto (\<lambda>u. u = t) (?v\<lparr>v_free := F\<rparr>) = Some (w\<lparr>v_free := F\<rparr>)" by (simp only: split_goto g(3)) simp
  then show "a_join_resume t (v\<lparr>v_free := F\<rparr>) = Some (Switched, w\<lparr>v_free := F\<rparr>)"
    using g(1,2) by (simp add: a_join_resume_def view_free_inward del: a_goto.simps)
  show "keeps v (Switched, w)" using a_goto_keeps [OF g(3)] by (simp add: keeps_def)
qed

lemma join_frame:
  assumes "a_lwt_join t v = Some (Switched, w)"
  shows "a_lwt_join t (v\<lparr>v_free := F\<rparr>) = Some (Switched, w\<lparr>v_free := F\<rparr>)" and "keeps v (Switched, w)"
proof -
  let ?c = "hd (v_ring v)"
  define v1 where "v1 = a_set ?c (\<lambda>x. x\<lparr>t_state := BLOCKED\<rparr>) (a_set t (\<lambda>x. x\<lparr>t_jf := ?c\<rparr>) v)"
  have g: "t_flag (v_thd v t) \<noteq> LWT_NOJOIN" "t_state (v_thd v t) \<noteq> DEAD" "a_join_resume t v1 = Some (Switched, w)"
    using assms by (auto simp: a_lwt_join_def v1_def Let_def split: if_splits)
  note f = resume_frame [OF g(3)]
  have "a_lwt_join t (v\<lparr>v_free := F\<rparr>) = a_join_resume t (v1\<lparr>v_free := F\<rparr>)"
    using g(1,2) by (simp add: a_lwt_join_def v1_def Let_def a_set_def view_free_inward)
  with f(1) show "a_lwt_join t (v\<lparr>v_free := F\<rparr>) = Some (Switched, w\<lparr>v_free := F\<rparr>)" by simp
  show "keeps v (Switched, w)" using f(2) by (simp add: keeps_def v1_def)
qed

subsection \<open>What a state of the port has in common with a view\<close>

abbreviation DEV_BLOCK :: int where
  "DEV_BLOCK \<equiv> DEV_SIZEOF_LWT + DEV_LWT_EXTRA"

definition unclaimed :: "addr list \<Rightarrow> addr set" where
  "unclaimed xs = {1..} - (\<Union>u\<in>set xs. block u SIZEOF_LWT)"

definition spaced :: "addr set \<Rightarrow> addr list \<Rightarrow> bool" where
  "spaced F xs \<longleftrightarrow> (\<forall>u\<in>set xs. 0 < u \<and> block u DEV_BLOCK \<inter> F = {}) \<and>
     (\<forall>u\<in>set xs. \<forall>w\<in>set xs. u \<noteq> w \<longrightarrow> block u DEV_BLOCK \<inter> block w DEV_BLOCK = {})"

text \<open>
  \<open>ported C N n s v\<close>: the real free bytes \<open>F\<close> lie apart from the blocks of the threads, there is
  room for the \<open>n\<close> threads that the program still creates out of \<open>N\<close>, and of \<open>C\<close> bytes a thread that
  lives holds its block and a thread that was joined has cost what its block is larger than its structure.
\<close>

definition ported :: "int \<Rightarrow> nat \<Rightarrow> nat \<Rightarrow> dev_sys \<Rightarrow> view \<Rightarrow> bool" where
  "ported C N n s v \<longleftrightarrow> (\<exists>F. views s (v\<lparr>v_free := F\<rparr>) \<and> v_free v = unclaimed (v_ring v) \<and>
     spaced F (v_ring v) \<and> (0 < n \<longrightarrow> room F (DEV_BLOCK * int n)) \<and> finite F \<and>
     int (card F) = C - DEV_BLOCK * int (length (v_ring v)) -
       DEV_LWT_EXTRA * (1 + int N - int n - int (length (v_ring v))))"

lemma portedE:
  assumes "ported C N n s v"
  obtains F where "views s (v\<lparr>v_free := F\<rparr>)" and "v_free v = unclaimed (v_ring v)" and "spaced F (v_ring v)"
    and "0 < n \<longrightarrow> room F (DEV_BLOCK * int n)" and "finite F"
    and "int (card F) = C - DEV_BLOCK * int (length (v_ring v)) -
       DEV_LWT_EXTRA * (1 + int N - int n - int (length (v_ring v)))"
  using assms unfolding ported_def by blast

lemma portedD:
  assumes "ported C N n s v"
  shows "runq s (v_ring v)" "v_thd v = (\<lambda>u. thd_of (s_lwt s u))" "v_run v = n_runnable s"
    "v_zom v = n_zombies s" "v_blk v = n_blocked s" "current_thread s = hd (v_ring v)" "counters v s"
proof -
  from portedE [OF assms] obtain F where "views s (v\<lparr>v_free := F\<rparr>)" by metis
  note d = viewsD [OF this]
  show "runq s (v_ring v)" "v_thd v = (\<lambda>u. thd_of (s_lwt s u))" "v_run v = n_runnable s"
    "v_zom v = n_zombies s" "v_blk v = n_blocked s" "current_thread s = hd (v_ring v)"
    using d by simp_all
  then show "counters v s" by (simp add: counters_def)
qed

text \<open>\<open>dev_refines\<close>: what \<open>refines\<close> is for the port.\<close>

definition dev_refines :: "int \<Rightarrow> nat \<Rightarrow> nat \<Rightarrow> ('a outcome \<times> dev_sys) result \<Rightarrow> view \<Rightarrow> 'a outcome \<times> view \<Rightarrow> bool" where
  "dev_refines C N n r v q \<longleftrightarrow> (\<exists>s'. r = Inr (fst q, s') \<and> ported C N n s' (snd q) \<and>
     (fst q = Switched \<longrightarrow> eip s' = t_ip (v_thd v (hd (v_ring (snd q))))))"

lemma ported_keeps:
  assumes "views s (v\<lparr>v_free := F\<rparr>)" and "v_free v = unclaimed (v_ring v)" and "spaced F (v_ring v)"
    and "0 < n \<longrightarrow> room F (DEV_BLOCK * int n)" and "finite F"
    and "int (card F) = C - DEV_BLOCK * int (length (v_ring v)) -
       DEV_LWT_EXTRA * (1 + int N - int n - int (length (v_ring v)))"
    and "keeps v q" and "views s' (snd (with_free F q))"
  shows "ported C N n s' (snd q)"
proof -
  have "set (v_ring (snd q)) = set (v_ring v)" "length (v_ring (snd q)) = length (v_ring v)"
    using assms(7) by (auto simp: keeps_def dest: mset_eq_setD mset_eq_length)
  with assms show ?thesis unfolding ported_def
    by (intro exI [of _ F]) (simp add: keeps_def with_free_def unclaimed_def spaced_def)
qed

lemma dev_refines_lift:
  assumes p: "ported C N n s v"
    and f: "\<And>F. views s (v\<lparr>v_free := F\<rparr>) \<Longrightarrow> spaced F (v_ring v) \<Longrightarrow> refines s r (v\<lparr>v_free := F\<rparr>) (with_free F q)"
    and k: "keeps v q"
  shows "dev_refines C N n r v q"
proof (rule portedE [OF p])
  fix F
  assume F: "views s (v\<lparr>v_free := F\<rparr>)" "v_free v = unclaimed (v_ring v)" "spaced F (v_ring v)"
    "0 < n \<longrightarrow> room F (DEV_BLOCK * int n)" "finite F"
    "int (card F) = C - DEV_BLOCK * int (length (v_ring v)) -
       DEV_LWT_EXTRA * (1 + int N - int n - int (length (v_ring v)))"
  from f [OF F(1,3)] obtain s' where s': "r = Inr (fst q, s')" "views s' (snd (with_free F q))"
    "fst q = Switched \<longrightarrow> eip s' = t_ip (v_thd v (hd (v_ring (snd q))))"
    by (auto simp: refines_def with_free_def)
  with ported_keeps [OF F k s'(2)] show ?thesis by (simp add: dev_refines_def)
qed

subsection \<open>The operations of the port refine the abstract ones\<close>

lemma dev_yield_refines:
  assumes "ported C N n s v" and "a_yield t v = Some q"
  shows "dev_refines C N n (dev_lwt_yield t s) v q"
  unfolding dev_lwt_yield_eq using yield_frame [OF assms(2)]
  by (intro dev_refines_lift [OF assms(1)] yield_refines) auto

lemma dev_die_refines:
  assumes "ported C N n s v" and "a_die x v = Some q" and "joinable v"
  shows "dev_refines C N n (dev_lwt_die x s) v q"
proof -
  have "l_flag (s_lwt s (current_thread s)) = LWT_DEFAULT"
    using assms(3) portedD(2,6) [OF assms(1)] by (simp add: joinable_def)
  then have "dev_lwt_die x s = lwt_die x s" by (rule dev_lwt_die_default)
  with die_frame [OF assms(2,3)] show ?thesis
    by (simp only:) (intro dev_refines_lift [OF assms(1)] die_refines, auto)
qed

lemma spaced_target: "spaced F xs \<Longrightarrow> t \<in> set xs \<Longrightarrow> block t SIZEOF_LWT \<inter> F = {}"
  unfolding spaced_def by (fastforce simp: dev_sizes SIZEOF_LWT_def)

lemma a_target_free: "a_target t v \<Longrightarrow> spaced F (v_ring v) \<Longrightarrow> a_target t (v\<lparr>v_free := F\<rparr>)"
  using spaced_target [of F "v_ring v" t] by (cases "v_ring v") (auto simp: a_target_def)

lemma resume_switch_iff:
  "dev_lwt_join_resume t s = Inr (Switched, s') \<longleftrightarrow> lwt_join_resume t s = Inr (Switched, s')"
  by (auto simp: Let_def lwt_join_resume_def dev_lwt_join_resume_def rbind_eq_Inr dev_eqs lwt_reap_returns
      dev_lwt_reap_returns split: outcome.splits)

lemma unclaimed_reap:
  assumes "spaced F xs" and "t \<in> set xs" and "distinct xs"
  shows "unclaimed xs \<union> block t SIZEOF_LWT = unclaimed (remove1 t xs)"
proof -
  have "block t SIZEOF_LWT \<inter> block u SIZEOF_LWT = {}" if "u \<in> set xs" "u \<noteq> t" for u
  proof -
    have "block t DEV_BLOCK \<inter> block u DEV_BLOCK = {}" using assms(1,2) that by (auto simp: spaced_def)
    moreover have "block x SIZEOF_LWT \<subseteq> block x DEV_BLOCK" for x by (auto simp: dev_sizes SIZEOF_LWT_def)
    ultimately show ?thesis by blast
  qed
  moreover have "block t SIZEOF_LWT \<subseteq> {1..}" using assms(1,2) by (auto simp: spaced_def)
  ultimately show ?thesis using assms(3) by (auto simp: unclaimed_def)
qed

lemma card_block: "card (block a n) = nat n"
  by (simp add: block_def)

lemma ported_upd:
  assumes "ported C N n s v" and "\<And>F. views s (v\<lparr>v_free := F\<rparr>) \<Longrightarrow> views s' (v'\<lparr>v_free := F\<rparr>)"
    and "v_ring v' = v_ring v" and "v_free v' = v_free v"
  shows "ported C N n s' v'"
  using assms unfolding ported_def by auto

lemma dev_reap_refines:
  assumes p: "ported C N n s v" and r: "v_ring v = c # us @ t # vs"
  shows "dev_refines C N n (dev_lwt_reap t s) w (Returned (t_ret (v_thd v t)), a_reap t v)"
proof (rule portedE [OF p])
  fix F
  assume F: "views s (v\<lparr>v_free := F\<rparr>)" "v_free v = unclaimed (v_ring v)" "spaced F (v_ring v)"
    "0 < n \<longrightarrow> room F (DEV_BLOCK * int n)" "finite F"
    "int (card F) = C - DEV_BLOCK * int (length (v_ring v)) -
       DEV_LWT_EXTRA * (1 + int N - int n - int (length (v_ring v)))"
  note d = viewsD [OF F(1), simplified]
  have q: "runq s ((c # us) @ t # vs)" using d(1) r by simp
  have dist: "distinct (v_ring v)" using ring_distinct [OF runq_ring [OF d(1)]] .
  have t: "t \<in> set (v_ring v)" "0 < t" "block t DEV_BLOCK \<inter> F = {}" using F(3) r by (auto simp: spaced_def)
  have "block t DEV_SIZEOF_LWT \<subseteq> block t DEV_BLOCK" by (auto simp: dev_sizes)
  with t(3) have disj: "block t DEV_SIZEOF_LWT \<inter> F = {}" by blast
  from kd.free_ok [OF d(2) t(2) dev_pool_sizes(3,4) disj] obtain k where
    k: "dev_kfree (s_kheap s) t DEV_SIZEOF_LWT = Inr k" "kpool k (F \<union> block t DEV_SIZEOF_LWT)" by blast
  let ?s = "s\<lparr>s_links := ps_list_ll_rem t (s_links s), s_kheap := k\<rparr>" and ?F = "F \<union> block t DEV_SIZEOF_LWT"
  have rem: "remove1 t (v_ring v) = (c # us) @ vs" using dist r by (simp add: remove1_append)
  have "ring (ps_list_ll_rem t (s_links s)) ((c # us) @ vs)"
    using ring_rem [of "s_links s" "c # us" t vs] q by (simp add: runq_def del: ring.simps)
  then have "views ?s ((a_reap t v)\<lparr>v_free := ?F\<rparr>)"
    using k(2) d(2-6) q rem by (simp add: views_def a_reap_def runq_def del: ring.simps)
  moreover have "v_free (a_reap t v) = unclaimed (v_ring (a_reap t v))"
    using unclaimed_reap [OF F(3) t(1) dist] F(2) by (simp add: a_reap_def)
  moreover have "spaced ?F (v_ring (a_reap t v))"
  proof -
    have "block u DEV_BLOCK \<inter> block t DEV_SIZEOF_LWT = {}" if "u \<in> set (remove1 t (v_ring v))" for u
    proof -
      have "u \<in> set (v_ring v)" "u \<noteq> t" using that dist by simp_all
      then have "block u DEV_BLOCK \<inter> block t DEV_BLOCK = {}" using F(3) t(1) by (auto simp: spaced_def)
      with \<open>block t DEV_SIZEOF_LWT \<subseteq> block t DEV_BLOCK\<close> show ?thesis by blast
    qed
    then show ?thesis using F(3) set_remove1_subset [of t "v_ring v"]
      by (simp add: spaced_def a_reap_def Int_Un_distrib subset_iff)
  qed
  moreover have "0 < n \<longrightarrow> room ?F (DEV_BLOCK * int n)" using F(4) room_mono by blast
  moreover have "int (card ?F) = C - DEV_BLOCK * int (length (v_ring (a_reap t v))) -
       DEV_LWT_EXTRA * (1 + int N - int n - int (length (v_ring (a_reap t v))))"
  proof -
    have fb: "finite (block t DEV_SIZEOF_LWT)" by (simp add: block_def)
    have "card ?F = card F + card (block t DEV_SIZEOF_LWT)"
      by (rule card_Un_disjoint [OF F(5) fb]) (use disj in blast)
    moreover have "card (block t DEV_SIZEOF_LWT) = 692" by (simp add: card_block dev_sizes)
    moreover have "length (v_ring v) = Suc (length (v_ring (a_reap t v)))" using rem r by (simp add: a_reap_def)
    ultimately show ?thesis using F(6) by (simp add: dev_sizes)
  qed
  ultimately have "ported C N n ?s (a_reap t v)"
    unfolding ported_def by (intro exI [of _ ?F]) (use F(5) in \<open>simp add: block_def\<close>)
  moreover have "dev_lwt_reap t s = Inr (Returned (t_ret (v_thd v t)), ?s)"
    using k(1) d(3) by (simp add: dev_lwt_reap_def Let_def)
  ultimately show ?thesis by (simp add: dev_refines_def)
qed

lemma dev_resume_refines:
  assumes p: "ported C N n s v" and t: "a_target t v" and a: "a_join_resume t v = Some q"
  shows "dev_refines C N n (dev_lwt_join_resume t s) v q"
proof (cases "fst q")
  case Switched
  then obtain w where q: "q = (Switched, w)" by (cases q) auto
  note f = resume_frame [OF a [unfolded q]]
  have "refines s (lwt_join_resume t s) (v\<lparr>v_free := F\<rparr>) (with_free F q)"
    if "views s (v\<lparr>v_free := F\<rparr>)" "spaced F (v_ring v)" for F
    using join_resume_refines [OF that(1) a_target_free [OF t that(2)] f(1)] by (simp add: q with_free_def)
  moreover have "keeps v q" using f(2) by (simp add: q keeps_def)
  ultimately have "dev_refines C N n (lwt_join_resume t s) v q" by (rule dev_refines_lift [OF p])
  then show ?thesis
    by (simp add: dev_refines_def q resume_switch_iff)
next
  case (Returned x)
  note d = portedD [OF p]
  have nb: "l_state (s_lwt s (current_thread s)) \<noteq> BLOCKED"
    and q: "q = (Returned (t_ret (v_thd v t)), a_reap t (v\<lparr>v_blk := v_blk v - 1, v_zom := v_zom v - 1\<rparr>))"
    using a Returned d(2,6) by (auto simp: a_join_resume_def simp del: a_goto.simps split: if_splits option.splits)
  let ?v = "v\<lparr>v_blk := v_blk v - 1, v_zom := v_zom v - 1\<rparr>"
  let ?s = "s\<lparr>n_runnable := n_runnable s + 1, n_blocked := n_blocked s - 1\<rparr>"
  let ?s2 = "?s\<lparr>n_runnable := n_runnable ?s - 1, n_zombies := n_zombies ?s - 1\<rparr>"
  have p2: "ported C N n ?s2 ?v" by (rule ported_upd [OF p]) (simp_all add: views_def)
  obtain c us vs where "v_ring v = c # us @ t # vs"
    using t unfolding a_target_def by (cases "v_ring v") (auto dest: split_list)
  then have r: "v_ring ?v = c # us @ t # vs" by simp
  have "dev_lwt_join_resume t s = dev_lwt_reap t ?s2"
    using nb by (simp add: dev_lwt_join_resume_def dev_eqs Let_def)
  with dev_reap_refines [OF p2 r, of v] show ?thesis by (simp add: q)
qed

lemma dev_join_refines:
  assumes p: "ported C N n s v" and t: "a_target t v" and a: "a_lwt_join t v = Some q"
  shows "dev_refines C N n (dev_lwt_join t s) v q"
proof (cases "fst q")
  case Switched
  then obtain w where q: "q = (Switched, w)" by (cases q) auto
  note f = join_frame [OF a [unfolded q]]
  have "refines s (lwt_join t s) (v\<lparr>v_free := F\<rparr>) (with_free F q)"
    if "views s (v\<lparr>v_free := F\<rparr>)" "spaced F (v_ring v)" for F
    using join_refines [OF that(1) a_target_free [OF t that(2)] f(1)] by (simp add: q with_free_def)
  moreover have "keeps v q" using f(2) by (simp add: q keeps_def)
  ultimately have "dev_refines C N n (lwt_join t s) v q" by (rule dev_refines_lift [OF p])
  then show ?thesis
    by (simp add: dev_refines_def q join_switch_iff)
next
  case (Returned x)
  note d = portedD [OF p]
  obtain c us vs where r: "v_ring v = c # us @ t # vs"
    using t unfolding a_target_def by (cases "v_ring v") (auto dest: split_list)
  have c: "current_thread s = c" "hd (v_ring v) = c" "t \<noteq> c" "t \<noteq> NULL"
    using d(6) r ring_distinct [OF runq_ring [OF d(1)]] t by (auto simp: a_target_def)
  show ?thesis
  proof (cases "l_flag (s_lwt s t) = LWT_NOJOIN")
    case True
    then show ?thesis using p a d(2) c(4) by (auto simp: a_lwt_join_def dev_lwt_join_def dev_refines_def)
  next
    case False
    let ?s = "upd_lwt t (\<lambda>l. l\<lparr>l_joinedfrom := c\<rparr>) (upd_lwt c (\<lambda>l. l\<lparr>l_joiningto := t\<rparr>) s)"
    let ?v = "a_set t (\<lambda>x. x\<lparr>t_jf := c\<rparr>) v"
    let ?s2 = "?s\<lparr>n_zombies := n_zombies ?s - 1, n_runnable := n_runnable ?s - 1\<rparr>"
    let ?v2 = "?v\<lparr>v_zom := v_zom ?v - 1, v_run := v_run ?v - 1\<rparr>"
    have dead: "l_state (s_lwt s t) = DEAD"
    proof (rule ccontr)
      assume "l_state (s_lwt s t) \<noteq> DEAD"
      then have "a_join_resume t (a_set c (\<lambda>x. x\<lparr>t_state := BLOCKED\<rparr>) ?v) = Some q"
        using a False d(2) c(2) by (simp add: a_lwt_join_def Let_def)
      then show False using Returned c(2)
        by (auto simp: a_join_resume_def simp del: a_goto.simps split: if_splits option.splits)
    qed
    have q: "q = (Returned (t_ret (v_thd ?v2 t)), a_reap t ?v2)"
      using a False dead d(2) c(2) by (simp add: a_lwt_join_def Let_def)
    have "ported C N n ?s2 ?v2"
    proof (rule ported_upd [OF p])
      fix F assume "views s (v\<lparr>v_free := F\<rparr>)"
      then show "views ?s2 (?v2\<lparr>v_free := F\<rparr>)" by (auto simp: views_def fun_eq_iff thd_of_def)
    qed simp_all
    from dev_reap_refines [OF this, of c us t vs v] r have
      "dev_refines C N n (dev_lwt_reap t ?s2) v (Returned (t_ret (v_thd ?v2 t)), a_reap t ?v2)" by simp
    moreover have "dev_lwt_join t s = dev_lwt_reap t ?s2"
      using False dead c by (simp add: dev_lwt_join_def Let_def)
    ultimately show ?thesis by (simp add: q)
  qed
qed

lemma dev_kalloc_leaves:
  assumes "kpool h A" and "kfits h (n + m)" and "0 < n" and "n \<le> POOL_BYTES" and "0 < m"
    and "dev_kalloc h n = Inr (p, h')"
  shows "kfits h' m"
proof -
  from assms(1) obtain rs where rs: "free_list h rs" "wf_runs rs" by (auto simp: kpool_def)
  have big: "\<exists>(a, l)\<in>set rs. n + m \<le> l" using assms(2) kfits_list [OF rs(1)] by simp
  then obtain a l where "(a, l) \<in> set rs" "\<not> l < n" using assms(5) by force
  then have "a_alloc rs n \<noteq> None" unfolding a_alloc_None by blast
  then obtain q rs' where al: "a_alloc rs n = Some (q, rs')" by auto
  with kalloc_loop_refines [of h "[]" rs n] rs(1) obtain h2 where
    "kalloc_loop h n FreeHead = Some (Some q, h2)" "free_list h2 rs'" by (auto simp: alloc_matches_def)
  with assms(3,4,6) have "free_list h' rs'" by (simp add: dev_kalloc_def)
  with a_alloc_leaves [OF al big assms(5,3)] show ?thesis by (auto simp: kfits_def)
qed

lemma unclaimed_create: "unclaimed xs - block t SIZEOF_LWT = unclaimed (xs @ [t])"
  by (auto simp: unclaimed_def)

lemma dev_create_refines:
  assumes p: "ported C N (Suc n) s v"
  obtains t s' where "dev_lwt_create fn d LWT_DEFAULT s = Inr (t, s')" and "0 < t"
    and "t \<notin> set (v_ring v)" and "block t SIZEOF_LWT \<subseteq> v_free v"
    and "ported C N n s' (a_create t fn d LWT_DEFAULT v)"
proof (rule portedE [OF p])
  fix F
  assume F: "views s (v\<lparr>v_free := F\<rparr>)" "v_free v = unclaimed (v_ring v)" "spaced F (v_ring v)"
    "0 < Suc n \<longrightarrow> room F (DEV_BLOCK * int (Suc n))" "finite F"
    "int (card F) = C - DEV_BLOCK * int (length (v_ring v)) -
       DEV_LWT_EXTRA * (1 + int N - int (Suc n) - int (length (v_ring v)))"
  note dd = viewsD [OF F(1), simplified]
  obtain c cs where cs: "v_ring v = c # cs"
    using ring_nonempty [OF runq_ring [OF dd(1)]] by (cases "v_ring v") auto
  have q: "runq s (c # cs)" using dd(1) cs by simp
  have D: "DEV_BLOCK = 792" by (simp add: dev_sizes)
  have "room F DEV_BLOCK" by (rule room_mono [OF F(4) [rule_format]]) (simp_all add: D)
  then have fit: "kfits (s_kheap s) DEV_BLOCK" using room_fits [OF dd(2)] dev_pool_sizes(1) by simp
  have "set (c # cs) \<inter> F = {}"
  proof -
    have "u \<in> block u DEV_BLOCK" for u using dev_pool_sizes(1) by simp
    then show ?thesis using F(3) cs by (auto simp: spaced_def simp del: mem_block)
  qed
  from dev_create_pool [OF dd(2) fit this] obtain t k where
    t: "dev_kalloc (s_kheap s) DEV_BLOCK = Inr (t, k)" "0 < t" "block t DEV_BLOCK \<subseteq> F"
      "kpool k (F - block t DEV_BLOCK)" "t \<notin> set (c # cs)" .
  from dev_create_runs [OF q t(1,2,5), of fn d LWT_DEFAULT] obtain s' where
    s': "dev_lwt_create fn d LWT_DEFAULT s = Inr (t, s')" "runq s' (c # cs @ [t])"
      "s_lwt s' = (s_lwt s)(t := dev_fresh_lwt t fn d LWT_DEFAULT s)" "s_kheap s' = k"
      "n_runnable s' = n_runnable s + 1" "n_zombies s' = n_zombies s + 1" "n_blocked s' = n_blocked s" by blast
  let ?v = "a_create t fn d LWT_DEFAULT v" and ?F = "F - block t DEV_BLOCK"
  have "thd_of (s_lwt s' u) = v_thd ?v u" for u
    using s'(3) dd(3) by (simp add: a_create_def thd_of_def dev_fresh_lwt_def)
  then have "views s' (?v\<lparr>v_free := ?F\<rparr>)"
    using s' t(4) dd(4-6) cs by (simp add: views_def a_create_def fun_eq_iff)
  moreover have "v_free ?v = unclaimed (v_ring ?v)"
    using F(2) unclaimed_create by (simp add: a_create_def)
  moreover have "spaced ?F (v_ring ?v)"
  proof -
    have "block u DEV_BLOCK \<inter> block t DEV_BLOCK = {}" if "u \<in> set (v_ring v)" for u
      using F(3) t(3) that unfolding spaced_def by blast
    with F(3) t(2) show ?thesis unfolding spaced_def by (auto simp: a_create_def simp del: mem_block)
  qed
  moreover have "0 < n \<longrightarrow> room ?F (DEV_BLOCK * int n)"
  proof
    assume n: "0 < n"
    have "0 < DEV_BLOCK * int (Suc n)" "0 < DEV_BLOCK * int n" using n by (simp_all add: D)
    then have "kfits (s_kheap s) (DEV_BLOCK + DEV_BLOCK * int n)"
      using F(4) room_fits [OF dd(2)] by (simp add: algebra_simps)
    from dev_kalloc_leaves [OF dd(2) this dev_pool_sizes(1,2) _ t(1)] n
    have "kfits k (DEV_BLOCK * int n)" by (simp add: D)
    then show "room ?F (DEV_BLOCK * int n)" using room_fits [OF t(4)] n by (simp add: D)
  qed
  moreover have "int (card ?F) = C - DEV_BLOCK * int (length (v_ring ?v)) -
       DEV_LWT_EXTRA * (1 + int N - int n - int (length (v_ring ?v)))"
  proof -
    have "card ?F = card F - card (block t DEV_BLOCK)" "card (block t DEV_BLOCK) \<le> card F"
      using t(3) F(5) by (simp_all add: card_Diff_subset finite_subset card_mono)
    moreover have "card (block t DEV_BLOCK) = 792" by (simp add: card_block D)
    moreover have "length (v_ring ?v) = Suc (length (v_ring v))" by (simp add: a_create_def)
    ultimately show ?thesis using F(6) by (simp add: dev_sizes)
  qed
  ultimately have "ported C N n s' ?v"
    unfolding ported_def by (intro exI [of _ ?F]) (use F(5) in simp)
  moreover have "block t SIZEOF_LWT \<subseteq> v_free v"
  proof -
    have "block t SIZEOF_LWT \<inter> block u SIZEOF_LWT = {}" if "u \<in> set (v_ring v)" for u
    proof -
      have "block u DEV_BLOCK \<inter> F = {}" using F(3) that by (simp add: spaced_def)
      moreover have "block x SIZEOF_LWT \<subseteq> block x DEV_BLOCK" for x by (auto simp: dev_sizes SIZEOF_LWT_def)
      ultimately show ?thesis using t(3) by blast
    qed
    moreover have "block t SIZEOF_LWT \<subseteq> {1..}" using t(2) by auto
    ultimately show ?thesis unfolding F(2) unclaimed_def by blast
  qed
  ultimately show thesis using that s'(1) t(2,5) cs by simp
qed

lemma unclaimed_room: "room (unclaimed xs) n"
proof -
  let ?M = "Max (insert 1 ((\<lambda>u. u + SIZEOF_LWT) ` set xs))"
  have "1 \<le> ?M" "\<And>u. u \<in> set xs \<Longrightarrow> u + SIZEOF_LWT \<le> ?M" by (auto intro: Max_ge)
  then have "block ?M n \<subseteq> unclaimed xs" by (force simp: unclaimed_def)
  then show ?thesis by (auto simp: room_def)
qed

subsection \<open>The port is adequate\<close>

definition dev_wp :: "int \<Rightarrow> nat \<Rightarrow> (dev_sys, 'g) text_segment \<Rightarrow> addr \<Rightarrow> nat \<Rightarrow> (dev_sys, 'g) prog \<Rightarrow> 'g \<Rightarrow>
    (addr \<Rightarrow> (dev_sys, 'g) prog) \<Rightarrow> view \<Rightarrow> (view \<Rightarrow> 'g \<Rightarrow> bool) \<Rightarrow> bool" where
  "dev_wp C N code main n p g k v Q \<longleftrightarrow> (\<forall>s. ported C N n s v \<longrightarrow>
     (\<exists>w v'. dev_exec code main p \<lparr>w_sys = s, w_glob = g, w_cont = k\<rparr> = Some (Inr w) \<and>
        ported C N 0 (w_sys w) v' \<and> Q v' (w_glob w)))"

lemma dev_landing_wp:
  assumes step: "\<And>s. ported C N n s v \<Longrightarrow> dev_pstep code main p \<lparr>w_sys = s, w_glob = g, w_cont = k\<rparr> =
      landing code kk saved \<lparr>w_sys = s, w_glob = g, w_cont = k\<rparr> (r s)"
    and ref: "\<And>s. ported C N n s v \<Longrightarrow> dev_refines C N n (r s) v q"
    and l: "go_on code kk saved k v q = (p', k')"
    and next_wp: "dev_wp C N code main n p' g k' (snd q) Q"
  shows "dev_wp C N code main n p g k v Q"
  unfolding dev_wp_def
proof (intro allI impI)
  fix s assume v: "ported C N n s v"
  from ref [OF v] obtain s' where s': "r s = Inr (fst q, s')" "ported C N n s' (snd q)"
    "fst q = Switched \<Longrightarrow> eip s' = t_ip (v_thd v (hd (v_ring (snd q))))" by (auto simp: dev_refines_def)
  note d = portedD [OF s'(2)]
  let ?w = "\<lparr>w_sys = s, w_glob = g, w_cont = k\<rparr>"
  have "dev_pstep code main p ?w = Inr (Some (p', \<lparr>w_sys = s', w_glob = g, w_cont = k'\<rparr>))"
  proof (cases "fst q")
    case (Returned x)
    then show ?thesis using step [OF v] s'(1) l by (simp add: landing_def go_on_def Let_def)
  next
    case Switched
    then show ?thesis using step [OF v] s'(1) s'(3) [OF Switched] l d(2,6) portedD(6) [OF v]
      by (auto simp: landing_def go_on_def arrive_def Let_def)
  qed
  then show "\<exists>w v'. dev_exec code main p ?w = Some (Inr w) \<and> ported C N 0 (w_sys w) v' \<and> Q v' (w_glob w)"
    using next_wp s'(2) by (simp add: dev_exec_step dev_wp_def)
qed

theorem awp_dev: "awp code main Q n p g k v \<Longrightarrow> dev_wp C N code main n p g k v Q"
proof (induction rule: awp.induct)
  case (aw_done v g x k)
  show ?case unfolding dev_wp_def
  proof (intro allI impI)
    fix s assume s: "ported C N 0 s v"
    have "dev_exec code main (Done x) \<lparr>w_sys = s, w_glob = g, w_cont = k\<rparr> =
        Some (Inr \<lparr>w_sys = s, w_glob = g, w_cont = k\<rparr>)"
      using aw_done portedD(6) [OF s] by (subst dev_exec.simps) simp
    then show "\<exists>w v'. dev_exec code main (Done x) \<lparr>w_sys = s, w_glob = g, w_cont = k\<rparr> = Some (Inr w) \<and>
        ported C N 0 (w_sys w) v' \<and> Q v' (w_glob w)" using s aw_done(2) by auto
  qed
next
  case (aw_exit v x q k p' k' n g)
  show ?case by (rule dev_landing_wp [where r = "dev_lwt_die x", OF _ dev_die_refines aw_exit(4,6)])
    (use aw_exit in \<open>auto simp: portedD(6)\<close>)
next
  case (aw_die v x q k p' k' n g)
  show ?case by (rule dev_landing_wp [where r = "dev_lwt_die x", OF _ dev_die_refines aw_die(3,5)])
    (use aw_die in auto)
next
  case (aw_yield t v q p k p' k' n g)
  show ?case by (rule dev_landing_wp [where r = "dev_lwt_yield t", OF _ dev_yield_refines aw_yield(2,4)])
    (use aw_yield in auto)
next
  case (aw_join t v q kk k p' k' n g)
  show ?case by (rule dev_landing_wp [where r = "dev_lwt_join t", OF _ dev_join_refines aw_join(3,5)])
    (use aw_join in auto)
next
  case (aw_joining t v q kk k p' k' n g)
  show ?case by (rule dev_landing_wp [where r = "dev_lwt_join_resume t", OF _ dev_resume_refines aw_joining(3,5)])
    (use aw_joining in auto)
next
  case (aw_check v b g n p k)
  then show ?case by (simp add: dev_wp_def dev_exec_step [of code main "Check b p" _ p] portedD(7))
next
  case (aw_act n p f g k v)
  then show ?case by (simp add: dev_wp_def dev_exec_step [of code main "Act f p" _ p])
next
  case (aw_load n kk g k v)
  then show ?case by (simp add: dev_wp_def dev_exec_step [of code main "Load kk" _ "kk g"])
next
  case (aw_create v n kk g k fn d)
  show ?case unfolding dev_wp_def
  proof (intro allI impI)
    fix s assume s: "ported C N (Suc n) s v"
    from dev_create_refines [OF s, of fn d] obtain t s' where
      c: "dev_lwt_create fn d LWT_DEFAULT s = Inr (t, s')" "0 < t" "t \<notin> set (v_ring v)"
        "block t SIZEOF_LWT \<subseteq> v_free v" "ported C N n s' (a_create t fn d LWT_DEFAULT v)" .
    have "v_free v = unclaimed (v_ring v)" using s by (auto simp: ported_def)
    then have "\<forall>m. 0 < m \<longrightarrow> room (v_free v) (SIZEOF_LWT + m) \<longrightarrow> room (v_free v - block t SIZEOF_LWT) m"
      by (simp add: unclaimed_create unclaimed_room)
    from aw_create(4) [OF c(2-4) this] c(5) have
      "\<exists>w v'. dev_exec code main (kk t) \<lparr>w_sys = s', w_glob = g, w_cont = k\<rparr> = Some (Inr w) \<and>
        ported C N 0 (w_sys w) v' \<and> Q v' (w_glob w)" unfolding dev_wp_def by blast
    then show "\<exists>w v'. dev_exec code main (Create fn d LWT_DEFAULT kk) \<lparr>w_sys = s, w_glob = g, w_cont = k\<rparr> =
        Some (Inr w) \<and> ported C N 0 (w_sys w) v' \<and> Q v' (w_glob w)"
      using c(1) by (subst dev_exec_step) auto
  qed
qed

end
