(* ===== verification/SlLoop.thy ===== *)
theory SlLoop
  imports SlThd
begin

text \<open>
  The scheduler's own thread: what one turn of \<open>sl_sched_loop\<close> does with the notifications of the
  kernel (\<open>tid\<close> has blocked or woken up, \<open>cycles\<close> it has used). \<open>notified\<close> is the specification: the
  notifications act on the queues alone. A turn refines it, and then switches to the top of the
  queues.
\<close>

type_synonym notification = "nat \<times> bool \<times> u64"

fun notified :: "(nat \<Rightarrow> nat) \<Rightarrow> nat \<Rightarrow> notification list \<Rightarrow> queues \<Rightarrow> queues option" where
  "notified prio idle [] q = Some q"
| "notified prio idle ((t, blocked, cycles) # evs) q =
     (if t = 0 \<or> t = idle then notified prio idle evs q
      else if blocked then notified prio idle evs (dequeued t q)
      else if t \<in> set (q (prio t)) then None
      else notified prio idle evs (enqueued (prio t) t q))"

text \<open>The notifications are about threads that the policy knows, the idle thread, or nobody.\<close>

definition known :: "cos_env \<Rightarrow> nat set \<Rightarrow> nat \<Rightarrow> notification list \<Rightarrow> bool" where
  "known k T idle evs \<longleftrightarrow>
     (\<forall>(t, b, c)\<in>set evs. t = 0 \<or> t < max_num_threads k \<and> (t = idle \<or> t \<in> T))"

lemma wakeup_queued:
  assumes "fprr_ok f T q" and "t \<in> T" and "t \<in> set (q (f_priority f t))"
  shows "sl_mod_wakeup t f = Inl AssertFail"
proof -
  from assms(3) obtain us vs where "q (f_priority f t) = us @ t # vs" by (meson split_list)
  with fprr_okD(1) [OF assms(1) fprr_okD(4) [OF assms(1,2)]]
  have "ring (f_links f) ((RHead (f_priority f t) # map RThd us) @ RThd t # map RThd vs)" by simp
  from ring_rotate [OF this]
  have "ring (f_links f) (RThd t # map RThd vs @ RHead (f_priority f t) # map RThd us)" by simp
  from ring_empty_iff [OF this] show ?thesis by (simp add: sl_mod_wakeup_def)
qed

lemma sched_events_refines [refine]:
  assumes "fprr_ok (sl_policy s) T q" and "known k T (idle_thd s) evs"
  shows "case notified (f_priority (sl_policy s)) (idle_thd s) evs q of
      None \<Rightarrow> sched_events k evs s = Inl AssertFail
    | Some q' \<Rightarrow> \<exists>f. sched_events k evs s = Inr (s\<lparr>sl_policy := f\<rparr>) \<and> fprr_ok f T q' \<and>
        f_priority f = f_priority (sl_policy s)"
  using assms
proof (induction k evs s arbitrary: q rule: sched_events.induct)
  case (1 k s)
  then show ?case by (auto intro: exI [of _ "sl_policy s"])
next
  case (2 k t blocked cycles evs s)
  from "2.prems"(2) have known: "known k T (idle_thd s) evs" by (simp add: known_def)
  show ?case
  proof (cases "t = 0 \<or> t = idle_thd s")
    case True
    have "sched_events k ((t, blocked, cycles) # evs) s = sched_events k evs s"
      using True "2.prems"(2) by (auto simp: known_def sl_thd_lkup_def sl_thd_lookup_backend_def)
    moreover have "t \<noteq> 0 \<Longrightarrow> sl_thd_lkup k t = Inr t"
      using "2.prems"(2) by (auto simp: known_def sl_thd_lkup_def sl_thd_lookup_backend_def)
    then have "case notified (f_priority (sl_policy s)) (idle_thd s) evs q of
      None \<Rightarrow> sched_events k evs s = Inl AssertFail
    | Some q' \<Rightarrow> \<exists>f. sched_events k evs s = Inr (s\<lparr>sl_policy := f\<rparr>) \<and> fprr_ok f T q' \<and>
        f_priority f = f_priority (sl_policy s)"
      using "2.IH"(1) [OF _ "2.prems"(1) known] "2.IH"(2) [OF _ _ "2.prems"(1) known] True by blast
    ultimately show ?thesis using True by (simp split: option.splits)
  next
    case False
    with "2.prems"(2) have t: "t \<in> T" and lk: "sl_thd_lkup k t = Inr t"
      by (auto simp: known_def sl_thd_lkup_def sl_thd_lookup_backend_def)
    let ?f = "sl_policy s"
    show ?thesis
    proof (cases blocked)
      case True
      have "fprr_ok (sl_mod_block t ?f) T (dequeued t q)" "f_priority (sl_mod_block t ?f) = f_priority ?f"
        using fprr.block_keeps [OF "2.prems"(1) t] by simp_all
      with "2.IH"(3) [of t "s\<lparr>sl_policy := sl_mod_execution t cycles ?f\<rparr>" "dequeued t q"] False True lk known
      show ?thesis by (simp add: sl_mod_execution_def split: option.splits)
    next
      case wake: False
      show ?thesis
      proof (cases "t \<in> set (q (f_priority ?f t))")
        case True
        with wakeup_queued [OF "2.prems"(1) t] False wake lk show ?thesis by (simp add: sl_mod_execution_def)
      next
        case off: False
        from wakeup_ok [OF "2.prems"(1) t off] obtain f where f: "sl_mod_wakeup t ?f = Inr f"
          "fprr_ok f T (enqueued (f_priority ?f t) t q)" "f_priority f = f_priority ?f" by blast
        with "2.IH"(4) [of t "s\<lparr>sl_policy := sl_mod_execution t cycles ?f\<rparr>" f
            "enqueued (f_priority ?f t) t q"] False wake off lk known
        show ?thesis by (simp add: sl_mod_execution_def split: option.splits)
      qed
    qed
  qed
qed

subsection \<open>One turn of the loop\<close>

lemma turn_runs:
  assumes "fprr_ok (sl_policy s) T q" and "unlocked s" and "running k s T' m" and "timer_fine k s"
    and "known k T (idle_thd s) evs" and "notified (f_priority (sl_policy s)) (idle_thd s) evs q = Some q'"
    and "top_thread q' u"
  obtains f n w where "sl_sched_loop_turn k evs s =
      Inr (SlSwitched, [Switch (t_thdcap (sl_threads s u)) (t_prio (sl_threads s u)) w],
        s\<lparr>sl_policy := f, timer_next := n, timeout_next := w, cs_owner := 0, cs_contention := False\<rparr>)"
    and "fprr_ok f T q'" and "f_priority f = f_priority (sl_policy s)" and "timer_after k s n"
proof -
  let ?s0 = "s\<lparr>cs_owner := t_thdcap (sl_threads s m)\<rparr>"
  obtain f where f: "sched_events k evs ?s0 = Inr (?s0\<lparr>sl_policy := f\<rparr>)" "fprr_ok f T q'"
    "f_priority f = f_priority (sl_policy s)"
    using sched_events_refines [of ?s0 T q k evs] assms(1,5,6) by auto
  let ?s2 = "?s0\<lparr>sl_policy := f\<rparr>"
  have "running k ?s2 T' m" "timer_fine k ?s2" "cs_owner ?s2 = t_thdcap (sl_threads ?s2 m)"
    "\<not> cs_contention ?s2"
    using assms(2-4) by (auto simp: running_def timer_fine_def timer_expired_def unlocked_def)
  moreover have "fprr_ok (sl_policy ?s2) T q'" using f(2) by simp
  ultimately obtain n w where x: "sl_cs_exit_schedule k ?s2 =
      Inr (SlSwitched, [Switch (t_thdcap (sl_threads ?s2 u)) (t_prio (sl_threads ?s2 u)) w],
      ?s2\<lparr>timer_next := n, timeout_next := w, cs_owner := 0, cs_contention := False\<rparr>)" "timer_after k ?s2 n"
    using exit_schedule_top [OF _ assms(7)] by blast
  with f show thesis
    by (intro that [of w n f]) (simp_all add: timer_after_def sl_sched_loop_turn_def
      in_cs_free [OF assms(2,3)] sl_cs_exit_schedule_def)
qed

lemma turn_stops:
  assumes "fprr_ok (sl_policy s) T q" and "unlocked s" and "running k s T' m"
    and "known k T (idle_thd s) evs" and "notified (f_priority (sl_policy s)) (idle_thd s) evs q = None"
  shows "sl_sched_loop_turn k evs s = Inl AssertFail"
proof -
  let ?s0 = "s\<lparr>cs_owner := t_thdcap (sl_threads s m)\<rparr>"
  have "sched_events k evs ?s0 = Inl AssertFail"
    using sched_events_refines [of ?s0 T q k evs] assms(1,4,5) by simp
  then show ?thesis by (simp add: sl_sched_loop_turn_def in_cs_free [OF assms(2,3)])
qed

lemma top_exists:
  assumes "p < SL_FPRR_NPRIOS" and "q p \<noteq> []"
  obtains u where "top_thread q u"
proof -
  obtain p where p: "p < SL_FPRR_NPRIOS \<and> q p \<noteq> []"
    and least: "\<forall>r<p. \<not> (r < SL_FPRR_NPRIOS \<and> q r \<noteq> [])"
    using assms exists_least_iff [of "\<lambda>p. p < SL_FPRR_NPRIOS \<and> q p \<noteq> []"] by blast
  obtain u ts where "q p = u # ts" using p by (cases "q p") auto
  with p least that show thesis unfolding top_thread_def by (meson dual_order.strict_trans)
qed

lemma turn_idle:
  assumes "fprr_ok (sl_policy s) T q" and "unlocked s" and "running k s T' m" and "timer_fine k s"
    and "known k T (idle_thd s) evs" and "notified (f_priority (sl_policy s)) (idle_thd s) evs q = Some q'"
    and "\<forall>p<SL_FPRR_NPRIOS. q' p = []"
  shows "sl_sched_loop_turn k evs s = Inl AssertFail"
proof -
  let ?s0 = "s\<lparr>cs_owner := t_thdcap (sl_threads s m)\<rparr>"
  obtain f where f: "sched_events k evs ?s0 = Inr (?s0\<lparr>sl_policy := f\<rparr>)" "fprr_ok f T q'"
    using sched_events_refines [of ?s0 T q k evs] assms(1,5,6) by auto
  let ?s2 = "?s0\<lparr>sl_policy := f\<rparr>"
  have none: "sl_mod_schedule f = Inl AssertFail" using fprr.sched_none [OF f(2) assms(7)] .
  have "timer_fine k ?s2" using assms(4) by (simp add: timer_fine_def timer_expired_def)
  from timeout_check_ok [OF this] obtain n w where
    "timeout_check k ?s2 = Inr (?s2\<lparr>timer_next := n, timeout_next := w\<rparr>)" .
  then show ?thesis using none f(1)
    by (simp add: sl_sched_loop_turn_def in_cs_free [OF assms(2,3)] sl_cs_exit_schedule_nospin_def
        sl_cs_exit_schedule_nospin_arg_def sl_cs_owner_def exit_schedule_locked_def pick_thread_def
        sl_thd_curr_running [OF assms(3)])
qed

text \<open>C17: a turn of the scheduler's loop refines the notifications on the queues. It stops at an
  assertion of the policy exactly when a notification says that a thread woke up which is already
  in a queue, or when the notifications leave no thread in any queue; otherwise it leaves the
  queues as the notifications make them, the lock free and every thread's state as it was, and
  switches to the first thread of the highest ready priority.\<close>

theorem sched_loop_turn_refines:
  assumes "fprr_ok (sl_policy s) T q" and "unlocked s" and "running k s T' m" and "timer_fine k s"
    and "known k T (idle_thd s) evs"
  shows "(case notified (f_priority (sl_policy s)) (idle_thd s) evs q of
      None \<Rightarrow> True
    | Some q' \<Rightarrow> \<forall>u. top_thread q' u \<longrightarrow> (\<exists>s' w. sl_sched_loop_turn k evs s =
        Inr (SlSwitched, [Switch (t_thdcap (sl_threads s u)) (t_prio (sl_threads s u)) w], s') \<and>
        fprr_ok (sl_policy s') T q' \<and> unlocked s' \<and> sl_threads s' = sl_threads s)) \<and>
    (sl_sched_loop_turn k evs s = Inl AssertFail \<longleftrightarrow>
      (case notified (f_priority (sl_policy s)) (idle_thd s) evs q of
         None \<Rightarrow> True | Some q' \<Rightarrow> \<forall>p<SL_FPRR_NPRIOS. q' p = []))"
proof (cases "notified (f_priority (sl_policy s)) (idle_thd s) evs q")
  case None
  with turn_stops [OF assms(1-3,5)] show ?thesis by simp
next
  case (Some q')
  have up: "\<exists>s' w. sl_sched_loop_turn k evs s =
      Inr (SlSwitched, [Switch (t_thdcap (sl_threads s u)) (t_prio (sl_threads s u)) w], s') \<and>
      fprr_ok (sl_policy s') T q' \<and> unlocked s' \<and> sl_threads s' = sl_threads s" if "top_thread q' u" for u
    using turn_runs [OF assms Some that] by (fastforce simp: unlocked_def)
  have "\<forall>p<SL_FPRR_NPRIOS. q' p = []" if "sl_sched_loop_turn k evs s = Inl AssertFail"
  proof (rule ccontr)
    assume "\<not> (\<forall>p<SL_FPRR_NPRIOS. q' p = [])"
    then obtain u where "top_thread q' u" by (meson top_exists)
    from up [OF this] that show False by auto
  qed
  with turn_idle [OF assms Some] up show ?thesis unfolding Some option.case by blast
qed

subsection \<open>Time\<close>

text \<open>
  The timer code compares 64-bit cycle counts. \<open>before_wrap k\<close>: the machine has not run for \<open>2^62\<close> cycles
  yet, decades at any real clock; with \<open>clock_ok\<close> the comparisons are those of the natural
  numbers, and every operation keeps \<open>clock_ok\<close>. \<open>kernel_as N t k\<close>: the kernel as thread \<open>t\<close> sees it.
\<close>

definition before_wrap :: "cos_env \<Rightarrow> bool" where
  "before_wrap k \<longleftrightarrow> unat (ps_tsc k) < 2 ^ 62"

definition clock_ok :: "'z sl_timer_scheme \<Rightarrow> bool" where
  "clock_ok s \<longleftrightarrow> period s \<noteq> 0 \<and> unat (period s) < 2 ^ 62 \<and> unat (timer_next s) < 2 ^ 63"

definition kernel_as :: "nat \<Rightarrow> nat \<Rightarrow> cos_env \<Rightarrow> bool" where
  "kernel_as N t k \<longleftrightarrow> cos_thdid k = t \<and> max_num_threads k = N \<and> before_wrap k"

lemma sint_small:
  assumes "unat (x :: u64) < 2 ^ 63"
  shows "sint x = int (unat x)"
proof -
  have "int (unat x) < int (2 ^ 63)" using assms by (simp only: of_nat_less_iff)
  then have u: "uint x < 2 ^ 63" by simp
  have "- (2 ^ 63) \<le> uint x" by (rule order_trans [OF _ uint_ge_0]) simp
  from signed_take_bit_int_eq_self [OF this u] show ?thesis by (simp add: sint_uint)
qed

lemma clock_fine:
  assumes "clock_ok s" and "before_wrap k"
  shows "timer_fine k s"
proof -
  have "timer_next s \<le> ps_tsc k" if e: "sint (timer_next s - ps_tsc k) \<le> 0"
  proof (rule ccontr)
    assume "\<not> timer_next s \<le> ps_tsc k"
    then have less: "ps_tsc k < timer_next s" by simp
    then have d: "unat (timer_next s - ps_tsc k) = unat (timer_next s) - unat (ps_tsc k)"
      by (intro unat_sub) simp
    have pos: "0 < unat (timer_next s) - unat (ps_tsc k)"
      using less by (simp add: word_less_nat_alt)
    have "unat (timer_next s - ps_tsc k) < 2 ^ 63"
      unfolding d using assms(1) by (intro less_imp_diff_less) (simp add: clock_ok_def)
    from sint_small [OF this] e d pos show False by linarith
  qed
  with assms(1) show ?thesis by (simp add: timer_fine_def timer_expired_def sl_now_def clock_ok_def)
qed

lemma clock_after:
  assumes "clock_ok s" and "before_wrap k" and "timer_after k s n"
  shows "unat n < 2 ^ 63"
proof (cases "n = timer_next s")
  case True
  with assms(1) show ?thesis by (simp add: clock_ok_def)
next
  case False
  let ?d = "(ps_tsc k - timer_next s) mod period s"
  have n: "n = ps_tsc k + period s - ?d" and p: "period s \<noteq> 0"
    using assms(3) False by (simp_all add: timer_after_def sl_now_def)
  have s: "unat (ps_tsc k + period s) = unat (ps_tsc k) + unat (period s)"
    using assms(1,2) by (subst unat_add_lem [THEN iffD1]) (simp_all add: clock_ok_def before_wrap_def)
  have "unat ?d < unat (period s)" using p by (simp add: unat_mod unat_gt_0)
  then have "?d \<le> ps_tsc k + period s" by (simp add: word_le_nat_alt s)
  then have "unat n \<le> unat (ps_tsc k + period s)" unfolding n by (subst unat_sub) simp_all
  with s assms(1,2) show ?thesis by (simp add: clock_ok_def before_wrap_def)
qed

subsection \<open>The scheduler as the running threads see it\<close>

text \<open>
  \<open>sl_view N s T q\<close>: between two operations, in a table of \<open>N\<close> threads, the policy holds the queues
  \<open>q\<close> over the threads \<open>T\<close>, the lock is free, the timer is sound, and the capabilities of
  the threads are distinct, so that a switch names one thread. \<open>threads_kept\<close>: what the
  operations below leave as it was.
\<close>

definition sl_view :: "nat \<Rightarrow> sl_sys \<Rightarrow> nat set \<Rightarrow> queues \<Rightarrow> bool" where
  "sl_view N s T q \<longleftrightarrow> fprr_ok (sl_policy s) T q \<and> unlocked s \<and> clock_ok s \<and>
     (\<forall>t\<in>insert (sched_thd s) T. t < N \<and> t_thdcap (sl_threads s t) \<noteq> 0) \<and>
     inj_on (\<lambda>t. t_thdcap (sl_threads s t)) {t. t < N \<and> t_thdcap (sl_threads s t) \<noteq> 0} \<and>
     (\<forall>t\<in>T. t \<noteq> 0 \<and> t \<noteq> idle_thd s)"

definition threads_kept :: "sl_sys \<Rightarrow> sl_sys \<Rightarrow> bool" where
  "threads_kept s s' \<longleftrightarrow> sl_threads s' = sl_threads s \<and> sched_thd s' = sched_thd s \<and>
     idle_thd s' = idle_thd s \<and> f_priority (sl_policy s') = f_priority (sl_policy s)"

lemma sl_viewD:
  assumes "sl_view N s T q"
  shows "fprr_ok (sl_policy s) T q" "unlocked s" "clock_ok s"
    "kernel_as N (sched_thd s) k \<Longrightarrow> running k s {sched_thd s} (sched_thd s)"
    "kernel_as N t k \<Longrightarrow> t \<in> T \<Longrightarrow> running k s T t"
    "kernel_as N t k \<Longrightarrow> timer_fine k s"
    "t \<in> T \<Longrightarrow> t < N" "t \<in> T \<Longrightarrow> t \<noteq> 0" "t \<in> T \<Longrightarrow> t \<noteq> idle_thd s"
  using assms by (auto simp: sl_view_def running_def kernel_as_def intro: clock_fine)

text \<open>What an operation that ends in a switch leaves.\<close>

lemma sl_view_after:
  assumes "sl_view N s T q" and "kernel_as N t k" and "timer_after k s n"
    and "fprr_ok f T q'" and "f_priority f = f_priority (sl_policy s)"
  shows "sl_view N (s\<lparr>sl_policy := f, timer_next := n, timeout_next := w, cs_owner := 0, cs_contention := False\<rparr>) T q'"
    and "threads_kept s (s\<lparr>sl_policy := f, timer_next := n, timeout_next := w, cs_owner := 0, cs_contention := False\<rparr>)"
  using assms clock_after [OF sl_viewD(3) [OF assms(1)] _ assms(3)]
  by (auto simp: sl_view_def threads_kept_def unlocked_def clock_ok_def kernel_as_def)

definition switched :: "sl_sys \<Rightarrow> nat \<Rightarrow> u32 \<Rightarrow> switch" where
  "switched s u w = Switch (t_thdcap (sl_threads s u)) (t_prio (sl_threads s u)) w"

lemma view_turn:
  assumes "sl_view N s T q" and "kernel_as N (sched_thd s) k" and "known k T (idle_thd s) evs"
    and "notified (f_priority (sl_policy s)) (idle_thd s) evs q = Some q'" and "top_thread q' u"
  obtains s' w where "sl_sched_loop_turn k evs s = Inr (SlSwitched, [switched s u w], s')"
    and "sl_view N s' T q'" and "threads_kept s s'"
  using turn_runs [OF sl_viewD(1,2,4,6) [OF assms(1)] assms(3-5)] assms(2)
    sl_view_after [OF assms(1,2)] unfolding switched_def by metis

lemma view_yield:
  assumes "sl_view N s T q" and "kernel_as N t k" and "t \<in> T"
    and "top_thread (enqueued (f_priority (sl_policy s) t) t (dequeued t q)) u"
  obtains s' w where "sl_thd_yield k 0 s = Inr (SlSwitched, [switched s u w], s')"
    and "sl_view N s' T (enqueued (f_priority (sl_policy s) t) t (dequeued t q))" and "threads_kept s s'"
  using yield_runs [OF sl_viewD(1,2,5,6) [OF assms(1)] assms(4)] assms(2,3)
    sl_view_after [OF assms(1,2)] unfolding switched_def by metis

lemma view_directed:
  assumes "sl_view N s T q" and "kernel_as N t k" and "t \<in> T" and "v \<in> T" and "st s v = SL_THD_RUNNABLE"
  obtains s' w where "sl_thd_yield k v s = Inr (SlSwitched, [switched s v w], s')"
    and "sl_view N s' T q" and "threads_kept s s'"
proof -
  have "v \<noteq> 0" "v < max_num_threads k" using assms sl_viewD(7,8) [OF assms(1,4)] by (auto simp: kernel_as_def)
  from directed_yield_runs [OF sl_viewD(2) [OF assms(1)] sl_viewD(5,6) [OF assms(1)] this assms(5)] assms(2,3)
  obtain n w where r: "sl_thd_yield k v s = Inr (SlSwitched, [switched s v w],
      s\<lparr>timer_next := n, timeout_next := w, cs_owner := 0, cs_contention := False\<rparr>)" "timer_after k s n"
    unfolding switched_def by metis
  have "s\<lparr>sl_policy := sl_policy s, timer_next := n, timeout_next := w, cs_owner := 0, cs_contention := False\<rparr> =
      s\<lparr>timer_next := n, timeout_next := w, cs_owner := 0, cs_contention := False\<rparr>" by simp
  with r sl_view_after [OF assms(1,2) r(2) sl_viewD(1) [OF assms(1)] refl, of w] show thesis
    by (intro that [of w "s\<lparr>timer_next := n, timeout_next := w, cs_owner := 0, cs_contention := False\<rparr>"]) simp_all
qed

subsection \<open>A thread that the kernel reported blocked\<close>

text \<open>C28: the notifications change the queues but not \<open>t->state\<close>. A thread \<open>v\<close> that the kernel
  reported blocked is therefore still RUNNABLE, a directed yield of the thread that runs next
  switches to it, and when \<open>v\<close> then yields it puts itself back into its queue: the notification of
  its wakeup, which is still to come, stops the scheduler at the assertion of the policy.\<close>

theorem stale_state_stops_scheduler:
  assumes "sl_view N s T q" and "kernel_as N (sched_thd s) k1" and "kernel_as N t k2" and "kernel_as N v k3"
    and "kernel_as N (sched_thd s) k4"
    and "v \<in> T" and "st s v = SL_THD_RUNNABLE" and "top_thread (dequeued v q) t"
  shows "\<exists>s1 s2 s3 w1 w2 sw. sl_sched_loop_turn k1 [(v, True, c)] s = Inr (SlSwitched, [switched s t w1], s1) \<and>
    sl_thd_yield k2 v s1 = Inr (SlSwitched, [switched s v w2], s2) \<and>
    sl_thd_yield k3 0 s2 = Inr (SlSwitched, [sw], s3) \<and>
    sl_sched_loop_turn k4 [(v, False, d)] s3 = Inl AssertFail"
proof -
  note view = sl_viewD [OF assms(1)]
  let ?p = "f_priority (sl_policy s) v" and ?q1 = "dequeued v q"
  let ?q2 = "enqueued ?p v (dequeued v ?q1)"
  have p: "?p < SL_FPRR_NPRIOS" using fprr_okD(4) [OF view(1) assms(6)] .
  have v: "v < N" "v \<noteq> 0" "v \<noteq> idle_thd s" using view(7-9) [OF assms(6)] by auto
  have k: "known k1 T (idle_thd s) [(v, True, c)]" "known k4 T (idle_thd s) [(v, False, d)]"
    using assms(2,5,6) v by (simp_all add: known_def kernel_as_def)
  have n1: "notified (f_priority (sl_policy s)) (idle_thd s) [(v, True, c)] q = Some ?q1" using v by simp
  obtain s1 w1 where s1: "sl_sched_loop_turn k1 [(v, True, c)] s = Inr (SlSwitched, [switched s t w1], s1)"
    "sl_view N s1 T ?q1" "threads_kept s s1"
    by (rule view_turn [OF assms(1,2) k(1) n1 assms(8)])
  have t: "t \<in> T" using assms(8) fprr_okD(3) [OF sl_viewD(1) [OF s1(2)]] by (auto simp: top_thread_def)
  have "st s1 v = SL_THD_RUNNABLE" using s1(3) assms(7) by (simp add: threads_kept_def)
  then obtain s2 w2 where s2: "sl_thd_yield k2 v s1 = Inr (SlSwitched, [switched s1 v w2], s2)"
    "sl_view N s2 T ?q1" "threads_kept s1 s2"
    by (rule view_directed [OF s1(2) assms(3) t assms(6)])
  have eq2: "f_priority (sl_policy s2) v = ?p" using s1(3) s2(3) by (simp add: threads_kept_def)
  have "?q2 ?p \<noteq> []" by (simp add: enqueued_def)
  then obtain u where u: "top_thread ?q2 u" by (rule top_exists [OF p])
  obtain s3 w3 where s3: "sl_thd_yield k3 0 s2 = Inr (SlSwitched, [switched s2 u w3], s3)"
    "sl_view N s3 T ?q2" "threads_kept s2 s3"
    using view_yield [OF s2(2) assms(4,6)] u unfolding eq2 by blast
  have eq3: "f_priority (sl_policy s3) v = ?p" "sched_thd s3 = sched_thd s" "idle_thd s3 = idle_thd s"
    using eq2 s1(3) s2(3) s3(3) by (simp_all add: threads_kept_def)
  have "sl_sched_loop_turn k4 [(v, False, d)] s3 = Inl AssertFail"
  proof (rule turn_stops [OF sl_viewD(1,2,4) [OF s3(2)]])
    show "notified (f_priority (sl_policy s3)) (idle_thd s3) [(v, False, d)] ?q2 = None"
      using v eq3 by (simp add: enqueued_def)
  qed (use assms(5) eq3 k(2) in simp_all)
  moreover have "switched s1 v w2 = switched s v w2" using s1(3) by (simp add: threads_kept_def switched_def)
  ultimately show ?thesis using s1(1) s2(1) s3(1) by (intro exI conjI) simp_all
qed

text \<open>Threads 1 and 2 are ready, thread 3 runs the scheduler's loop, thread 7 is the idle thread.\<close>

definition some_env :: "nat \<Rightarrow> nat \<Rightarrow> cos_env" where
  "some_env N t = \<lparr>cos_thdid = t, ps_tsc = 0, tcap_cyc2time = (\<lambda>_. 0), max_num_threads = N\<rparr>"

lemma some_kernel: "kernel_as N t (some_env N t)"
  by (simp add: kernel_as_def some_env_def before_wrap_def)

definition loop_ex :: "fprr \<Rightarrow> sl_sys" where
  "loop_ex f = (sl_ex f)\<lparr>sched_thd := 3\<rparr>"

lemma loop_ex_reached:
  obtains f where "sl_view 16 (loop_ex f) {1, 2} two_ready" and "f_priority (sl_policy (loop_ex f)) 1 = 10"
    and "idle_thd (loop_ex f) = 7" and "sched_thd (loop_ex f) = 3"
    and "sl_threads (loop_ex f) = (\<lambda>t. \<lparr>t_state = SL_THD_RUNNABLE, t_thdid = t, t_thdcap = t + 100, t_prio = 10\<rparr>)"
proof -
  obtain f where f: "sl_ok (sl_ex f) {1, 2} two_ready" "f_priority f 1 = 10" by (rule sl_ex_reached)
  have i: "idle_thd (loop_ex f) = 7" by (simp add: loop_ex_def sl_ex_def sl_timer.defs sl_sys.defs)
  have "clock_ok (loop_ex f)" by (simp add: clock_ok_def loop_ex_def)
  then have "sl_view 16 (loop_ex f) {1, 2} two_ready"
    using sl_okD(1) [OF f(1)] i by (auto simp: sl_view_def unlocked_def loop_ex_def inj_on_def)
  with that f(2) i show thesis by (simp add: loop_ex_def)
qed

theorem sched_loop_turn_refines_witness:
  "\<exists>f s' w. sl_sched_loop_turn (some_env 16 3) [(1, True, 5), (0, False, 0), (7, True, 9)] (loop_ex f) =
       Inr (SlSwitched, [Switch 102 10 w], s') \<and> fprr_ok (sl_policy s') {1, 2} (two_ready(10 := [2]))"
proof -
  let ?evs = "[(1, True, 5), (0, False, 0), (7, True, 9)] :: notification list" and ?k = "some_env 16 3"
  obtain f where f: "sl_view 16 (loop_ex f) {1, 2} two_ready" "idle_thd (loop_ex f) = 7" "sched_thd (loop_ex f) = 3"
    "sl_threads (loop_ex f) = (\<lambda>t. \<lparr>t_state = SL_THD_RUNNABLE, t_thdid = t, t_thdcap = t + 100, t_prio = 10\<rparr>)"
    by (rule loop_ex_reached)
  have k: "kernel_as 16 (sched_thd (loop_ex f)) ?k" using some_kernel f(3) by simp
  have e: "known ?k {1, 2} (idle_thd (loop_ex f)) ?evs" using f(2) by (simp add: known_def some_env_def)
  have n: "notified (f_priority (sl_policy (loop_ex f))) (idle_thd (loop_ex f)) ?evs two_ready = Some (two_ready(10 := [2]))"
    using two_ready_moves(1) by (simp add: f(2))
  from sched_loop_turn_refines [OF sl_viewD(1,2) [OF f(1)] sl_viewD(4,6) [OF f(1) k] e, unfolded n option.case,
      THEN conjunct1] top_two [of "[]"] f(4) show ?thesis by fastforce
qed

theorem stale_state_stops_scheduler_witness:
  "\<exists>f s1 s2 s3 w1 w2 sw. sl_sched_loop_turn (some_env 16 3) [(1, True, 5)] (loop_ex f) =
       Inr (SlSwitched, [Switch 102 10 w1], s1) \<and>
     sl_thd_yield (some_env 16 2) 1 s1 = Inr (SlSwitched, [Switch 101 10 w2], s2) \<and>
     sl_thd_yield (some_env 16 1) 0 s2 = Inr (SlSwitched, [sw], s3) \<and>
     sl_sched_loop_turn (some_env 16 3) [(1, False, 6)] s3 = Inl AssertFail"
proof -
  obtain f where f: "sl_view 16 (loop_ex f) {1, 2} two_ready" "sched_thd (loop_ex f) = 3"
    "sl_threads (loop_ex f) = (\<lambda>t. \<lparr>t_state = SL_THD_RUNNABLE, t_thdid = t, t_thdcap = t + 100, t_prio = 10\<rparr>)"
    by (rule loop_ex_reached)
  have k: "kernel_as 16 (sched_thd (loop_ex f)) (some_env 16 3)" using some_kernel f(2) by simp
  have "1 \<in> {1, 2 :: nat}" "st (loop_ex f) 1 = SL_THD_RUNNABLE" "top_thread (dequeued 1 two_ready) 2"
    using f(3) top_two [of "[]"] by (simp_all only: two_ready_moves) simp_all
  from stale_state_stops_scheduler [OF f(1) k some_kernel some_kernel k this, of 5 6] f(3)
  show ?thesis by (simp add: switched_def) blast
qed

end
