(* ===== verification/Runs.thy ===== *)
theory Runs
  imports Main
begin

text \<open>
  Runs in which the steps of the running thread and the activations of the scheduler's thread
  are interleaved in any order.
\<close>

text \<open>\<open>iruns own tick n m w w'\<close>: from \<open>w\<close> to \<open>w'\<close> by \<open>n\<close> steps of threads and \<open>m\<close> activations.\<close>

inductive iruns :: "('w \<Rightarrow> 'w \<Rightarrow> bool) \<Rightarrow> ('w \<Rightarrow> 'w \<Rightarrow> bool) \<Rightarrow> nat \<Rightarrow> nat \<Rightarrow> 'w \<Rightarrow> 'w \<Rightarrow> bool"
  for own tick :: "'w \<Rightarrow> 'w \<Rightarrow> bool"
where
  i_refl: "iruns own tick 0 0 w w"
| i_own: "iruns own tick n m w w1 \<Longrightarrow> own w1 w2 \<Longrightarrow> iruns own tick (Suc n) m w w2"
| i_act: "iruns own tick n m w w1 \<Longrightarrow> tick w1 w2 \<Longrightarrow> iruns own tick n (Suc m) w w2"

text \<open>
  A program of threads with an invariant over the two counts: whatever the interleaving, the
  invariant holds, and a run does not get stuck while there is \<open>more n\<close> to do after \<open>n\<close> steps.
\<close>

locale interleaving =
  fixes own tick :: "'w \<Rightarrow> 'w \<Rightarrow> bool"
    and inv :: "nat \<Rightarrow> nat \<Rightarrow> 'w \<Rightarrow> bool"
    and more :: "nat \<Rightarrow> bool"
  assumes own_keeps: "inv n m w \<Longrightarrow> own w w' \<Longrightarrow> inv (Suc n) m w'"
    and tick_keeps: "inv n m w \<Longrightarrow> tick w w' \<Longrightarrow> inv n (Suc m) w'"
    and own_possible: "inv n (Suc m) w \<Longrightarrow> more n \<Longrightarrow> \<exists>w'. own w w'"
    and tick_possible: "inv n m w \<Longrightarrow> \<exists>w'. tick w w'"
begin

lemma runs_keep: "iruns own tick n m w w' \<Longrightarrow> inv 0 0 w \<Longrightarrow> inv n m w'"
proof (induction rule: iruns.induct)
  case (i_own n m w w1 w2)
  from own_keeps [OF i_own(3) [OF i_own(4)] i_own(2)] show ?case .
next
  case (i_act n m w w1 w2)
  from tick_keeps [OF i_act(3) [OF i_act(4)] i_act(2)] show ?case .
qed

lemma runs_tick:
  assumes "iruns own tick n m w w'" and "inv 0 0 w"
  shows "\<exists>w'. iruns own tick n (Suc m) w w'"
  using tick_possible [OF runs_keep [OF assms]] i_act [OF assms(1)] by metis

lemma runs_exist:
  assumes "inv 0 0 w" and "\<And>i. i < n \<Longrightarrow> more i"
  shows "\<exists>w'. iruns own tick n (Suc m) w w'"
  using assms(2)
proof (induction n)
  case 0
  show ?case
  proof (induction m)
    case 0
    show ?case by (rule runs_tick [OF i_refl assms(1)])
  next
    case (Suc m)
    then obtain w' where "iruns own tick 0 (Suc m) w w'" by auto
    then show ?case by (rule runs_tick) (rule assms(1))
  qed
next
  case (Suc n)
  then obtain w' where r: "iruns own tick n (Suc m) w w'" by auto
  from own_possible [OF runs_keep [OF r assms(1)]] Suc.prems [of n] obtain w2 where "own w' w2" by auto
  from i_own [OF r this] show ?case by blast
qed

end

end
