(* ===== verification/TestKthds.thy ===== *)
theory TestKthds
  imports SlLoop Runs
begin

text \<open>
  The tests of the kernel-thread scheduler in \<open>unit_schedlib.c\<close>: \<open>test_yields\<close> and
  \<open>test_blocking_directed_yield\<close> create kernel threads that print, spin and yield for ever. A
  thread's function is the list of actions in the body of its \<open>while (1)\<close>. A run interleaves the
  actions of the running thread with activations of the scheduler's thread, which may come between
  any two actions (the kernel activates it when a timer fires). A scheduler operation is one
  step here; its single accesses to the lock are the theory \<open>SlCs\<close>.
\<close>

datatype kout = Num int | Txt string

datatype kact = KPrint kout | KSpin int | KYield nat

definition N_TESTTHDS :: nat where
  "N_TESTTHDS = 8"

definition WORKITERS :: int where
  "WORKITERS = 10000"

subsection \<open>The functions of the threads\<close>

definition test_thd_fn :: "int \<Rightarrow> kact list" where
  "test_thd_fn data = [KPrint (Num data), KSpin (WORKITERS * data), KYield 0]"

definition test_high :: "nat \<Rightarrow> kact list" where
  "test_high tid = [KYield tid, KPrint (Txt ''h'')]"

definition test_low :: "kact list" where
  "test_low = [KSpin (WORKITERS * 10), KPrint (Txt ''l'')]"

subsection \<open>The functions that create them\<close>

text \<open>
  \<open>news i\<close> is the capability and the identifier that the kernel gives to the \<open>i\<close>-th thread that is
  allocated. The result lists the threads with the functions that they run.
\<close>

fun test_yields_from :: "cos_env \<Rightarrow> (nat \<Rightarrow> nat \<times> nat) \<Rightarrow> nat \<Rightarrow> nat \<Rightarrow> sl_sys \<Rightarrow>
    ((nat \<times> kact list) list \<times> sl_sys) result" where
  "test_yields_from k news i 0 s = Inr ([], s)"
| "test_yields_from k news i (Suc n) s =
     rbind (sl_thd_alloc k (fst (news i)) (snd (news i)) s) (\<lambda>(t, s1). case t of
       None \<Rightarrow> Inl AssertFail
     | Some t \<Rightarrow>
         rbind (sl_thd_param_set t SCHEDP_PRIO 10 s1) (\<lambda>s2.
         rbind (test_yields_from k news (Suc i) n s2) (\<lambda>(ts, s3).
           Inr ((t, test_thd_fn (int i + 1)) # ts, s3))))"

definition test_yields :: "cos_env \<Rightarrow> (nat \<Rightarrow> nat \<times> nat) \<Rightarrow> sl_sys \<Rightarrow>
    ((nat \<times> kact list) list \<times> sl_sys) result" where
  "test_yields k news s = test_yields_from k news 0 N_TESTTHDS s"

definition test_blocking_directed_yield :: "cos_env \<Rightarrow> (nat \<Rightarrow> nat \<times> nat) \<Rightarrow> sl_sys \<Rightarrow>
    ((nat \<times> kact list) list \<times> sl_sys) result" where
  "test_blocking_directed_yield k news s =
     rbind (sl_thd_alloc k (fst (news 0)) (snd (news 0)) s) (\<lambda>(low, s1).
     rbind (sl_thd_alloc k (fst (news 1)) (snd (news 1)) s1) (\<lambda>(high, s2).
     case (low, high) of
       (Some l, Some h) \<Rightarrow>
         rbind (sl_thd_param_set l SCHEDP_PRIO 10 s2) (\<lambda>s3.
         rbind (sl_thd_param_set h SCHEDP_PRIO 5 s3) (\<lambda>s4.
           Inr ([(l, test_low), (h, test_high (t_thdid (sl_threads s4 l)))], s4)))
     | _ \<Rightarrow> Inl NullDeref))"

text \<open>What \<open>cos_init\<close> does with a test, up to \<open>sl_sched_loop\<close>.\<close>

definition cos_init_test :: "cos_env \<Rightarrow> u64 \<Rightarrow> nat \<Rightarrow> nat \<Rightarrow> nat \<Rightarrow>
    (sl_sys \<Rightarrow> ((nat \<times> kact list) list \<times> sl_sys) result) \<Rightarrow> sl_sys \<Rightarrow>
    ((nat \<times> kact list) list \<times> sl_sys) result" where
  "cos_init_test k cyc bootcap icap itid test s = rbind (sl_init k cyc bootcap icap itid s) test"

subsection \<open>Runs\<close>

text \<open>The running thread, how many actions each thread has done, and what was printed.\<close>

record kworld =
  kw_sys :: sl_sys
  kw_cur :: nat
  kw_pc :: "nat \<Rightarrow> nat"
  kw_out :: "kout list"

definition start :: "sl_sys \<Rightarrow> kworld" where
  "start s = \<lparr>kw_sys = s, kw_cur = sched_thd s, kw_pc = (\<lambda>_. 0), kw_out = []\<rparr>"

definition next_act :: "(nat \<times> kact list) list \<Rightarrow> kworld \<Rightarrow> kact option" where
  "next_act code w = (case map_of code (kw_cur w) of
     None \<Rightarrow> None
   | Some b \<Rightarrow> if b = [] then None else Some (b ! (kw_pc w (kw_cur w) mod length b)))"

definition advance :: "kworld \<Rightarrow> kworld" where
  "advance w = w\<lparr>kw_pc := (kw_pc w)(kw_cur w := Suc (kw_pc w (kw_cur w)))\<rparr>"

text \<open>The thread that a switch names.\<close>

definition target :: "nat \<Rightarrow> sl_sys \<Rightarrow> switch \<Rightarrow> nat \<Rightarrow> bool" where
  "target N s sw u \<longleftrightarrow> u < N \<and> t_thdcap (sl_threads s u) = sw_thdcap sw"

text \<open>
  An action of the running thread; \<open>SPIN (n)\<close> with \<open>n \<le> 0\<close> never ends. The scheduler's thread is
  activated with notifications that name nobody or the idle thread: the threads of the tests make
  no call that blocks in the kernel.
\<close>

inductive kown :: "nat \<Rightarrow> (nat \<times> kact list) list \<Rightarrow> kworld \<Rightarrow> kworld \<Rightarrow> bool"
  for N :: nat and code :: "(nat \<times> kact list) list"
where
  k_print: "next_act code w = Some (KPrint x) \<Longrightarrow> kown N code w ((advance w)\<lparr>kw_out := kw_out w @ [x]\<rparr>)"
| k_spin: "next_act code w = Some (KSpin n) \<Longrightarrow> 0 < n \<Longrightarrow> kown N code w (advance w)"
| k_yield: "next_act code w = Some (KYield v) \<Longrightarrow> kernel_as N (kw_cur w) k \<Longrightarrow>
    sl_thd_yield k v (kw_sys w) = Inr (SlSwitched, [sw], s') \<Longrightarrow> target N s' sw u \<Longrightarrow>
    kown N code w ((advance w)\<lparr>kw_sys := s', kw_cur := u\<rparr>)"

inductive ktick :: "nat \<Rightarrow> kworld \<Rightarrow> kworld \<Rightarrow> bool"
  for N :: nat
where
  k_tick: "kernel_as N (sched_thd (kw_sys w)) k \<Longrightarrow>
    \<forall>(t, b, c)\<in>set evs. t = 0 \<or> t < N \<and> t = idle_thd (kw_sys w) \<Longrightarrow>
    sl_sched_loop_turn k evs (kw_sys w) = Inr (SlSwitched, [sw], s') \<Longrightarrow> target N s' sw u \<Longrightarrow>
    ktick N w (w\<lparr>kw_sys := s', kw_cur := u\<rparr>)"

abbreviation kruns :: "nat \<Rightarrow> (nat \<times> kact list) list \<Rightarrow> nat \<Rightarrow> nat \<Rightarrow> kworld \<Rightarrow> kworld \<Rightarrow> bool" where
  "kruns N code \<equiv> iruns (kown N code) (ktick N)"

subsection \<open>The steps over the queues\<close>

lemma top_mem: "top_thread q u \<Longrightarrow> fprr_ok f T q \<Longrightarrow> u \<in> T"
  by (auto simp: top_thread_def dest: fprr_okD(3))

lemma target_switched:
  assumes "sl_view N s T q" and "u \<in> T" and "threads_kept s s'"
  shows "target N s' (switched s u w) v \<longleftrightarrow> v = u"
proof
  have u: "u < N" "t_thdcap (sl_threads s u) \<noteq> 0" using assms(1,2) by (auto simp: sl_view_def)
  then show "v = u \<Longrightarrow> target N s' (switched s u w) v"
    using assms(3) by (simp add: target_def switched_def threads_kept_def)
  assume "target N s' (switched s u w) v"
  then have "v < N" "t_thdcap (sl_threads s v) = t_thdcap (sl_threads s u)"
    using assms(3) by (simp_all add: target_def switched_def threads_kept_def)
  with u assms(1) show "v = u" by (auto simp: sl_view_def dest: inj_onD)
qed

lemma kown_print: "next_act code w = Some (KPrint x) \<Longrightarrow>
    kown N code w w' \<longleftrightarrow> w' = (advance w)\<lparr>kw_out := kw_out w @ [x]\<rparr>"
  by (auto simp: kown.simps)

lemma kown_spin: "next_act code w = Some (KSpin n) \<Longrightarrow> 0 < n \<Longrightarrow> kown N code w w' \<longleftrightarrow> w' = advance w"
  by (auto simp: kown.simps)

text \<open>\<open>goes\<close>: the step ends with \<open>u\<close> running and the queues \<open>q\<close>, and changes nothing else.\<close>

definition goes :: "nat \<Rightarrow> kworld \<Rightarrow> nat set \<Rightarrow> queues \<Rightarrow> nat \<Rightarrow> kworld \<Rightarrow> bool" where
  "goes N w T q u w' \<longleftrightarrow> sl_view N (kw_sys w') T q \<and> threads_kept (kw_sys w) (kw_sys w') \<and>
     kw_cur w' = u \<and> kw_pc w' = kw_pc w \<and> kw_out w' = kw_out w"

lemma tick_goes:
  assumes "sl_view N (kw_sys w) T q" and "top_thread q u"
  shows "\<exists>w'. ktick N w w'" and "ktick N w w' \<Longrightarrow> goes N w T q u w'"
proof -
  let ?s = "kw_sys w"
  have u: "u \<in> T" by (rule top_mem [OF assms(2) sl_viewD(1) [OF assms(1)]])
  have none: "notified p i evs q = Some q" if "\<forall>(t, b, c)\<in>set evs. t = 0 \<or> t < N \<and> t = i"
    for p i and evs :: "notification list" using that by (induction evs) auto
  have turn: "\<exists>s' x. sl_sched_loop_turn k evs ?s = Inr (SlSwitched, [switched ?s u x], s') \<and>
      sl_view N s' T q \<and> threads_kept ?s s'"
    if "kernel_as N (sched_thd ?s) k" and e: "\<forall>(t, b, c)\<in>set evs. t = 0 \<or> t < N \<and> t = idle_thd ?s" for k evs
  proof -
    have "known k T (idle_thd ?s) evs" using that by (auto simp: known_def kernel_as_def)
    from view_turn [OF assms(1) that(1) this none [OF e] assms(2)] show ?thesis by metis
  qed
  from turn [OF some_kernel, of "[]"] obtain s' x where
    r: "sl_sched_loop_turn (some_env N (sched_thd ?s)) [] ?s = Inr (SlSwitched, [switched ?s u x], s')"
    "threads_kept ?s s'" by auto
  have "target N s' (switched ?s u x) u" using target_switched [OF assms(1) u r(2)] by simp
  from k_tick [OF some_kernel _ r(1) this] show "\<exists>w'. ktick N w w'" by auto
  assume "ktick N w w'"
  then show "goes N w T q u w'"
  proof (cases rule: ktick.cases)
    case (k_tick k evs sw s' v)
    from turn [OF this(2,3)] k_tick(4) obtain x where
      r: "sw = switched ?s u x" "sl_view N s' T q" "threads_kept ?s s'" by auto
    with target_switched [OF assms(1) u r(3)] k_tick(5) have "v = u" by simp
    with r k_tick(1) show ?thesis by (simp add: goes_def)
  qed
qed

lemma yield_goes:
  assumes "sl_view N (kw_sys w) T q" and "next_act code w = Some (KYield 0)" and "kw_cur w = t" and "t \<in> T"
    and "q' = enqueued (f_priority (sl_policy (kw_sys w)) t) t (dequeued t q)" and "top_thread q' u"
  shows "\<exists>w'. kown N code w w'" and "kown N code w w' \<Longrightarrow> goes N (advance w) T q' u w'"
proof -
  let ?s = "kw_sys w"
  have yield: "\<exists>s' x. sl_thd_yield k 0 ?s = Inr (SlSwitched, [switched ?s u x], s') \<and>
      sl_view N s' T q' \<and> threads_kept ?s s'" if "kernel_as N t k" for k
    using view_yield [OF assms(1) that assms(4), of u] assms(5,6) by metis
  have u: "u \<in> T" using yield [OF some_kernel] top_mem [OF assms(6)] sl_viewD(1) by blast
  from yield [OF some_kernel] obtain s' x where
    r: "sl_thd_yield (some_env N t) 0 ?s = Inr (SlSwitched, [switched ?s u x], s')"
    "threads_kept ?s s'" by auto
  have "target N s' (switched ?s u x) u" using target_switched [OF assms(1) u r(2)] by simp
  from k_yield [OF assms(2) _ r(1) this] some_kernel [of N t] assms(3) show "\<exists>w'. kown N code w w'" by auto
  assume "kown N code w w'"
  then show "goes N (advance w) T q' u w'"
  proof (cases rule: kown.cases)
    case (k_yield v k sw s' x)
    then have "v = 0" "kernel_as N t k" using assms(2,3) by simp_all
    with yield k_yield(4) obtain y where
      r: "sw = switched ?s u y" "sl_view N s' T q'" "threads_kept ?s s'" by fastforce
    with target_switched [OF assms(1) u r(3)] k_yield(5) have "x = u" by simp
    with r k_yield(1) show ?thesis by (simp add: goes_def advance_def)
  qed (use assms(2) in simp_all)
qed

lemma directed_goes:
  assumes "sl_view N (kw_sys w) T q" and "next_act code w = Some (KYield v)" and "kw_cur w = t" and "t \<in> T"
    and "v \<in> T" and "st (kw_sys w) v = SL_THD_RUNNABLE"
  shows "\<exists>w'. kown N code w w'" and "kown N code w w' \<Longrightarrow> goes N (advance w) T q v w'"
proof -
  let ?s = "kw_sys w"
  have yield: "\<exists>s' x. sl_thd_yield k v ?s = Inr (SlSwitched, [switched ?s v x], s') \<and>
      sl_view N s' T q \<and> threads_kept ?s s'" if "kernel_as N t k" for k
    using view_directed [OF assms(1) that assms(4-6)] by metis
  from yield [OF some_kernel] obtain s' x where
    r: "sl_thd_yield (some_env N t) v ?s = Inr (SlSwitched, [switched ?s v x], s')"
    "threads_kept ?s s'" by auto
  have "target N s' (switched ?s v x) v" using target_switched [OF assms(1,5) r(2)] by simp
  from k_yield [OF assms(2) _ r(1) this] some_kernel [of N t] assms(3) show "\<exists>w'. kown N code w w'" by auto
  assume "kown N code w w'"
  then show "goes N (advance w) T q v w'"
  proof (cases rule: kown.cases)
    case (k_yield v' k sw s' x)
    then have v: "v' = v" "kernel_as N t k" using assms(2,3) by simp_all
    with yield [OF v(2)] k_yield(4) obtain y where
      r: "sw = switched ?s v y" "sl_view N s' T q" "threads_kept ?s s'" by auto
    with target_switched [OF assms(1,5) r(3)] k_yield(5) have "x = v" by simp
    with r k_yield(1) show ?thesis by (simp add: goes_def advance_def)
  qed (use assms(2) in simp_all)
qed

subsection \<open>Creating the threads\<close>

lemma fprr_ok_fewer:
  assumes "fprr_ok f T q" and "S \<subseteq> T" and "\<forall>p<SL_FPRR_NPRIOS. set (q p) \<subseteq> S"
  shows "fprr_ok f S q"
  using assms unfolding fprr_ok_def by (auto simp del: ring.simps)

text \<open>\<open>new_thread N s T cap t\<close>: the kernel's capability and identifier of a new thread are not in use.\<close>

definition new_thread :: "nat \<Rightarrow> sl_sys \<Rightarrow> nat set \<Rightarrow> nat \<Rightarrow> nat \<Rightarrow> bool" where
  "new_thread N s T cap t \<longleftrightarrow> t \<notin> T \<and> t \<noteq> 0 \<and> t \<noteq> sched_thd s \<and> t \<noteq> idle_thd s \<and> t < N \<and> cap \<noteq> 0 \<and>
     (\<forall>u<N. t_thdcap (sl_threads s u) \<noteq> cap)"

definition made :: "nat \<Rightarrow> nat \<Rightarrow> sl_thd \<Rightarrow> sl_thd" where
  "made t cap x = x\<lparr>t_thdid := t, t_thdcap := cap, t_state := SL_THD_RUNNABLE\<rparr>"

lemma alloc_ok:
  assumes "sl_view N s T q" and "kernel_as N m k" and "new_thread N s T cap t"
  obtains s' where "sl_thd_alloc k cap t s = Inr (Some t, s')" and "sl_view N s' (insert t T) q"
    and "sl_threads s' = (sl_threads s)(t := made t cap (sl_threads s t))"
    and "sched_thd s' = sched_thd s" and "idle_thd s' = idle_thd s"
    and "\<forall>u. u \<noteq> t \<longrightarrow> f_priority (sl_policy s') u = f_priority (sl_policy s) u"
proof -
  let ?s = "(upd_thd t (made t cap) s)\<lparr>sl_policy := sl_mod_thd_create t (sl_policy s)\<rparr>"
  have t: "t < max_num_threads k" using assms(2,3) by (simp add: kernel_as_def new_thread_def)
  have "sl_thd_alloc k cap t s = Inr (Some t, ?s)"
    using assms(3) t by (simp add: sl_thd_alloc_def sl_thd_alloc_intern_def sl_thd_alloc_init_def
      sl_thd_alloc_backend_def new_thread_def made_def [abs_def])
  moreover have "fprr_ok (sl_policy ?s) (insert t T) q"
    using create_ok [OF sl_viewD(1) [OF assms(1)]] assms(3) by (simp add: new_thread_def)
  then have "sl_view N ?s (insert t T) q"
    using assms(1,3) unfolding sl_view_def
    by (auto simp: new_thread_def made_def unlocked_def clock_ok_def upd_thd_def inj_on_def)
  ultimately show thesis
    by (rule that) (simp_all add: upd_thd_def sl_mod_thd_create_def)
qed

lemma param_ok:
  assumes "sl_view N s T q" and "t \<in> T" and "v < SL_FPRR_NPRIOS" and "\<forall>p. t \<notin> set (q p)"
  obtains s' where "sl_thd_param_set t SCHEDP_PRIO v s = Inr s'" and "sl_view N s' T (enqueued v t q)"
    and "sl_threads s' = sl_threads s" and "sched_thd s' = sched_thd s" and "idle_thd s' = idle_thd s"
    and "f_priority (sl_policy s') = (f_priority (sl_policy s))(t := v)"
proof -
  have d: "dequeued t q = q" using assms(4) by (simp add: dequeued_def remove1_idem)
  from param_set_ok [OF sl_viewD(1) [OF assms(1)] assms(2,3)] obtain f where
    f: "sl_mod_thd_param_set t SCHEDP_PRIO v (sl_policy s) = Inr f" "fprr_ok f T (enqueued v t q)"
      "f_priority f = (f_priority (sl_policy s))(t := v)" unfolding d by blast
  have "sl_thd_param_set t SCHEDP_PRIO v s = Inr (s\<lparr>sl_policy := f\<rparr>)"
    using f(1) by (simp add: sl_thd_param_set_def)
  moreover have "sl_view N (s\<lparr>sl_policy := f\<rparr>) T (enqueued v t q)"
    using assms(1) f(2) by (simp add: sl_view_def unlocked_def clock_ok_def)
  ultimately show thesis by (rule that) (simp_all add: f(3))
qed

text \<open>
  \<open>booting\<close>: what the kernel hands out during \<open>cos_init\<close>, on a zeroed thread table: identifiers and
  capabilities for the initial thread, the idle thread and \<open>n\<close> others, all distinct; a clock
  that runs, and not so fast that the first periods overflow.
\<close>

definition booting :: "nat \<Rightarrow> cos_env \<Rightarrow> u64 \<Rightarrow> nat \<Rightarrow> nat \<Rightarrow> nat \<Rightarrow> (nat \<Rightarrow> nat \<times> nat) \<Rightarrow> nat \<Rightarrow> sl_sys \<Rightarrow> bool" where
  "booting N k cyc bootcap icap itid news n s \<longleftrightarrow>
     kernel_as N (cos_thdid k) k \<and> cyc \<noteq> 0 \<and> unat cyc < 2 ^ 50 \<and>
     distinct (0 # cos_thdid k # itid # map (snd \<circ> news) [0..<n]) \<and>
     distinct (0 # bootcap # icap # map (fst \<circ> news) [0..<n]) \<and>
     list_all (\<lambda>t. t < N) (cos_thdid k # itid # map (snd \<circ> news) [0..<n]) \<and>
     (\<forall>t. t_thdcap (sl_threads s t) = 0)"

lemma first_period:
  assumes "cyc \<noteq> 0" and "unat (cyc :: u64) < 2 ^ 50"
  shows "SL_PERIOD_US * cyc \<noteq> 0 \<and> unat (SL_PERIOD_US * cyc) < 2 ^ 57"
proof -
  have u: "unat (SL_PERIOD_US * cyc) = 100 * unat cyc"
    unfolding SL_PERIOD_US_def using assms(2) by (subst unat_mult_lem [THEN iffD1]) simp_all
  have "unat cyc \<noteq> 0" using assms(1) by (simp add: unat_eq_zero)
  with u assms(2) show ?thesis by (auto simp flip: unat_eq_zero)
qed

lemma first_timer:
  assumes "cyc \<noteq> 0" and "unat (cyc :: u64) < 2 ^ 50" and "unat now < 2 ^ 62"
  shows "unat (now + SL_PERIOD_US * cyc) < 2 ^ 63"
  using first_period [OF assms(1,2)] assms(3) unat_add_lem [of now "SL_PERIOD_US * cyc"] by simp

lemma sl_init_ok:
  assumes "booting N k cyc bootcap icap itid news n s"
  obtains s' where "sl_init k cyc bootcap icap itid s = Inr s'" and "sl_view N s' {} (\<lambda>_. [])"
    and "sched_thd s' = cos_thdid k" and "idle_thd s' = itid"
    and "\<forall>u. t_thdcap (sl_threads s' u) = (if u = itid then icap else if u = cos_thdid k then bootcap else 0)"
proof -
  let ?m = "cos_thdid k"
  have ids: "?m \<noteq> itid" "itid \<noteq> 0" "?m < N" "itid < N" "bootcap \<noteq> 0" "icap \<noteq> 0" "icap \<noteq> bootcap"
    and k: "kernel_as N ?m k" and c: "cyc \<noteq> 0" "unat cyc < 2 ^ 50" and z: "\<And>t. t_thdcap (sl_threads s t) = 0"
    using assms by (simp_all add: booting_def)
  let ?p = "SL_PERIOD_US * cyc"
  let ?s3 = "s\<lparr>cyc_per_usec := cyc, cs_owner := 0, cs_contention := False, sl_policy := sl_mod_init (sl_policy s),
    period := ?p, timer_next := ps_tsc k + ?p, timeout_next := tcap_cyc2time k (ps_tsc k + ?p)\<rparr>"
  let ?s' = "(upd_thd itid (made itid icap) (upd_thd ?m (made ?m bootcap) ?s3))\<lparr>sched_thd := ?m, sched_thdcap := bootcap,
    sl_policy := sl_mod_thd_create itid (sl_mod_init (sl_policy s)), idle_thd := itid\<rparr>"
  have "sl_init k cyc bootcap icap itid s = Inr ?s'"
    using ids k by (simp add: sl_init_def Let_def sl_timeout_mod_init_def sl_timeout_period_def sl_usec2cyc_def
      sl_timeout_relative_def sl_timeout_oneshot_def sl_now_def sl_thd_alloc_def sl_thd_alloc_intern_def
      sl_thd_alloc_init_def sl_thd_alloc_backend_def kernel_as_def made_def [abs_def] upd_thd_def)
  moreover have "sl_view N ?s' {} (\<lambda>_. [])"
  proof -
    have "fprr_ok (sl_policy ?s') {} (\<lambda>_. [])"
      by (simp, rule fprr_ok_fewer [OF create_ok [OF init_ok]]) simp_all
    moreover have "clock_ok ?s'"
      using first_period [OF c] first_timer [OF c] k by (simp add: clock_ok_def kernel_as_def before_wrap_def upd_thd_def)
    ultimately show ?thesis using ids z
      by (auto simp: sl_view_def unlocked_def upd_thd_def made_def inj_on_def)
  qed
  ultimately show thesis
    by (rule that) (use z ids in \<open>simp_all add: upd_thd_def made_def\<close>)
qed

lemma booting_new:
  assumes "booting N k cyc bootcap icap itid news n s" and "i < n"
  shows "snd (news i) \<notin> {0, cos_thdid k, itid}" "snd (news i) < N" "fst (news i) \<notin> {0, bootcap, icap}"
    "j < n \<Longrightarrow> i \<noteq> j \<Longrightarrow> snd (news i) \<noteq> snd (news j)" "j < n \<Longrightarrow> i \<noteq> j \<Longrightarrow> fst (news i) \<noteq> fst (news j)"
proof -
  have d: "distinct (0 # cos_thdid k # itid # map (snd \<circ> news) [0..<n])"
    "distinct (0 # bootcap # icap # map (fst \<circ> news) [0..<n])"
    "list_all (\<lambda>t. t < N) (map (snd \<circ> news) [0..<n])"
    using assms(1) by (simp_all add: booting_def)
  have in_news: "snd (news i) \<in> set (map (snd \<circ> news) [0..<n])" "fst (news i) \<in> set (map (fst \<circ> news) [0..<n])"
    using assms(2) by simp_all
  show "snd (news i) \<notin> {0, cos_thdid k, itid}" "fst (news i) \<notin> {0, bootcap, icap}"
    using d(1,2) in_news by (metis distinct.simps(2) empty_iff insert_iff list.set_intros(1,2))+
  show "snd (news i) < N" using d(3) assms(2) by (simp add: list_all_iff)
  show "snd (news i) \<noteq> snd (news j)" "fst (news i) \<noteq> fst (news j)" if "j < n" "i \<noteq> j"
  proof -
    have "inj_on (snd \<circ> news) {0..<n}" "inj_on (fst \<circ> news) {0..<n}"
      using d(1,2) by (simp_all add: distinct_map)
    with assms(2) that show "snd (news i) \<noteq> snd (news j)" "fst (news i) \<noteq> fst (news j)"
      using inj_on_eq_iff [of "snd \<circ> news" "{0..<n}" i j] inj_on_eq_iff [of "fst \<circ> news" "{0..<n}" i j]
      by simp_all
  qed
qed

subsection \<open>test_yields\<close>

definition at_10 :: "nat list \<Rightarrow> queues" where
  "at_10 us = (\<lambda>_. [])(10 := us)"

text \<open>What the loop has made of the first \<open>i\<close> threads.\<close>

definition yields_upto :: "nat \<Rightarrow> cos_env \<Rightarrow> nat \<Rightarrow> nat \<Rightarrow> nat \<Rightarrow> (nat \<Rightarrow> nat \<times> nat) \<Rightarrow> nat \<Rightarrow> sl_sys \<Rightarrow> bool" where
  "yields_upto N k bootcap icap itid news i s \<longleftrightarrow>
     sl_view N s (set (map (snd \<circ> news) [0..<i])) (at_10 (map (snd \<circ> news) [0..<i])) \<and>
     sched_thd s = cos_thdid k \<and> idle_thd s = itid \<and>
     (\<forall>j<i. f_priority (sl_policy s) (snd (news j)) = 10 \<and> st s (snd (news j)) = SL_THD_RUNNABLE) \<and>
     (\<forall>u. t_thdcap (sl_threads s u) \<in> {0, bootcap, icap} \<union> fst ` news ` {0..<i})"

lemma yields_one:
  assumes "booting N k cyc bootcap icap itid news n s0" and "i < n"
    and "yields_upto N k bootcap icap itid news i s"
  obtains s1 s2 where "sl_thd_alloc k (fst (news i)) (snd (news i)) s = Inr (Some (snd (news i)), s1)"
    and "sl_thd_param_set (snd (news i)) SCHEDP_PRIO 10 s1 = Inr s2"
    and "yields_upto N k bootcap icap itid news (Suc i) s2"
proof -
  let ?t = "snd (news i)" and ?c = "fst (news i)" and ?us = "map (snd \<circ> news) [0..<i]"
  note new = booting_new [OF assms(1,2)]
  have v: "sl_view N s (set ?us) (at_10 ?us)" "sched_thd s = cos_thdid k" "idle_thd s = itid"
    "\<forall>j<i. f_priority (sl_policy s) (snd (news j)) = 10 \<and> st s (snd (news j)) = SL_THD_RUNNABLE"
    "\<And>u. t_thdcap (sl_threads s u) \<in> {0, bootcap, icap} \<union> fst ` news ` {0..<i}"
    using assms(3) unfolding yields_upto_def by blast+
  have t': "?t \<noteq> snd (news x)" and c': "?c \<noteq> fst (news x)" if "x < i" for x
    using new(4,5) [of x] that assms(2) by simp_all
  have t: "?t \<notin> set ?us"
  proof
    assume "?t \<in> set ?us"
    then obtain x where "x < i" "?t = snd (news x)" by auto
    with t' show False by blast
  qed
  have c: "?c \<notin> {0, bootcap, icap} \<union> fst ` news ` {0..<i}"
  proof
    assume "?c \<in> {0, bootcap, icap} \<union> fst ` news ` {0..<i}"
    then have "?c \<in> fst ` news ` {0..<i}" using new(3) by blast
    then obtain x where "x < i" "?c = fst (news x)" by auto
    with c' show False by blast
  qed
  have "t_thdcap (sl_threads s u) \<noteq> ?c" for u using v(5) [of u] c by metis
  then have fresh: "new_thread N s (set ?us) ?c ?t"
    using new(1,2,3) t v(2,3) unfolding new_thread_def by simp
  have kern: "kernel_as N (cos_thdid k) k" using assms(1) by (simp add: booting_def)
  obtain s1 where s1: "sl_thd_alloc k ?c ?t s = Inr (Some ?t, s1)"
    "sl_view N s1 (insert ?t (set ?us)) (at_10 ?us)"
    "sl_threads s1 = (sl_threads s)(?t := made ?t ?c (sl_threads s ?t))"
    "sched_thd s1 = sched_thd s" "idle_thd s1 = idle_thd s"
    "\<forall>u. u \<noteq> ?t \<longrightarrow> f_priority (sl_policy s1) u = f_priority (sl_policy s) u"
    by (rule alloc_ok [OF v(1) kern fresh])
  have "10 < SL_FPRR_NPRIOS" "\<forall>p. ?t \<notin> set (at_10 ?us p)"
    using t by (auto simp: SL_FPRR_NPRIOS_def at_10_def)
  then obtain s2 where s2: "sl_thd_param_set ?t SCHEDP_PRIO 10 s1 = Inr s2"
    "sl_view N s2 (insert ?t (set ?us)) (enqueued 10 ?t (at_10 ?us))"
    "sl_threads s2 = sl_threads s1" "sched_thd s2 = sched_thd s1" "idle_thd s2 = idle_thd s1"
    "f_priority (sl_policy s2) = (f_priority (sl_policy s1))(?t := 10)"
    using param_ok [OF s1(2)] by blast
  have "enqueued 10 ?t (at_10 ?us) = at_10 (map (snd \<circ> news) [0..<Suc i])"
    by (simp add: enqueued_def at_10_def)
  moreover have "insert ?t (set ?us) = set (map (snd \<circ> news) [0..<Suc i])" by simp
  moreover have "f_priority (sl_policy s2) (snd (news j)) = 10 \<and> st s2 (snd (news j)) = SL_THD_RUNNABLE"
    if "j < Suc i" for j
    using that v(4) s2(3,6) s1(3,6) by (cases "snd (news j) = ?t") (auto simp: less_Suc_eq made_def)
  moreover have "t_thdcap (sl_threads s2 u) \<in> {0, bootcap, icap} \<union> fst ` news ` {0..<Suc i}" for u
    using v(5) [of u] by (auto simp: s2(3) s1(3) made_def)
  ultimately have "yields_upto N k bootcap icap itid news (Suc i) s2"
    using s2(2,4,5) s1(4,5) v(2,3) unfolding yields_upto_def by (simp only: simp_thms) blast
  with s1(1) s2(1) show thesis by (rule that)
qed

lemma test_yields_from_ok:
  assumes "booting N k cyc bootcap icap itid news n s0" and "i + j = n"
    and "yields_upto N k bootcap icap itid news i s"
  obtains s' where "test_yields_from k news i j s =
      Inr (map (\<lambda>j. (snd (news j), test_thd_fn (int j + 1))) [i..<n], s')"
    and "yields_upto N k bootcap icap itid news n s'"
proof -
  have "\<exists>s'. test_yields_from k news i j s =
      Inr (map (\<lambda>j. (snd (news j), test_thd_fn (int j + 1))) [i..<n], s') \<and>
      yields_upto N k bootcap icap itid news n s'"
    using assms(2,3)
  proof (induction j arbitrary: i s)
    case (Suc j)
    then have i: "i < n" by simp
    obtain s1 s2 where s: "sl_thd_alloc k (fst (news i)) (snd (news i)) s = Inr (Some (snd (news i)), s1)"
      "sl_thd_param_set (snd (news i)) SCHEDP_PRIO 10 s1 = Inr s2"
      "yields_upto N k bootcap icap itid news (Suc i) s2"
      by (rule yields_one [OF assms(1) i Suc.prems(2)])
    have "[i..<n] = i # [Suc i..<n]" using i by (rule upt_conv_Cons)
    with s Suc.IH [OF _ s(3)] Suc.prems(1) show ?case by auto
  qed simp
  with that show thesis by blast
qed

text \<open>The threads of \<open>test_yields\<close> with their functions, and the \<open>j\<close>-th number that is printed.\<close>

definition yields_thds :: "(nat \<Rightarrow> nat \<times> nat) \<Rightarrow> nat list" where
  "yields_thds news = map (snd \<circ> news) [0..<N_TESTTHDS]"

definition yields_code :: "(nat \<Rightarrow> nat \<times> nat) \<Rightarrow> (nat \<times> kact list) list" where
  "yields_code news = map (\<lambda>j. (snd (news j), test_thd_fn (int j + 1))) [0..<N_TESTTHDS]"

definition turn_no :: "nat \<Rightarrow> kout" where
  "turn_no j = Num (int (j mod N_TESTTHDS) + 1)"

lemma yields_code_of:
  assumes "distinct (yields_thds news)" and "j < N_TESTTHDS"
  shows "map_of (yields_code news) (yields_thds news ! j) = Some (test_thd_fn (int j + 1))"
proof (rule map_of_is_SomeI)
  show "distinct (map fst (yields_code news))"
    using assms(1) by (simp add: yields_code_def yields_thds_def comp_def)
  show "(yields_thds news ! j, test_thd_fn (int j + 1)) \<in> set (yields_code news)"
    using assms(2) by (auto simp: yields_code_def yields_thds_def)
qed

lemma yields_code_none: "t \<notin> set (yields_thds news) \<Longrightarrow> map_of (yields_code news) t = None"
  by (auto simp: map_of_eq_None_iff yields_code_def yields_thds_def)

text \<open>After \<open>n\<close> actions, \<open>y\<close> yields: the thread at the head of the queue runs, within its round.\<close>

definition yields_inv :: "nat \<Rightarrow> (nat \<Rightarrow> nat \<times> nat) \<Rightarrow> nat \<Rightarrow> nat \<Rightarrow> kworld \<Rightarrow> bool" where
  "yields_inv N news n m w \<longleftrightarrow> distinct (yields_thds news) \<and> (\<exists>y c.
     c = yields_thds news ! (y mod N_TESTTHDS) \<and>
     sl_view N (kw_sys w) (set (yields_thds news)) (at_10 (rotate y (yields_thds news))) \<and>
     (\<forall>t\<in>set (yields_thds news). f_priority (sl_policy (kw_sys w)) t = 10) \<and>
     sched_thd (kw_sys w) \<notin> set (yields_thds news) \<and>
     (if m = 0 then kw_cur w = sched_thd (kw_sys w) \<and> n = 0 else kw_cur w = c) \<and>
     (\<forall>t\<in>set (yields_thds news). t \<noteq> c \<longrightarrow> kw_pc w t mod 3 = 0) \<and>
     n = 3 * y + kw_pc w c mod 3 \<and> kw_out w = map turn_no [0..<(n + 2) div 3])"

lemma yields_invI:
  assumes "distinct (yields_thds news)" and "c = yields_thds news ! (y mod N_TESTTHDS)"
    and "sl_view N (kw_sys w) (set (yields_thds news)) (at_10 (rotate y (yields_thds news)))"
    and "\<forall>t\<in>set (yields_thds news). f_priority (sl_policy (kw_sys w)) t = 10"
    and "sched_thd (kw_sys w) \<notin> set (yields_thds news)"
    and "if m = 0 then kw_cur w = sched_thd (kw_sys w) \<and> n = 0 else kw_cur w = c"
    and "\<forall>t\<in>set (yields_thds news). t \<noteq> c \<longrightarrow> kw_pc w t mod 3 = 0"
    and "n = 3 * y + kw_pc w c mod 3" and "kw_out w = map turn_no [0..<(n + 2) div 3]"
  shows "yields_inv N news n m w"
  using assms unfolding yields_inv_def by blast

lemma yields_head:
  assumes "distinct (yields_thds news)" and "c = yields_thds news ! (y mod N_TESTTHDS)"
  obtains us where "rotate y (yields_thds news) = c # us" and "c \<in> set (yields_thds news)"
    and "rotate (Suc y) (yields_thds news) = us @ [c]"
    and "top_thread (at_10 (rotate y (yields_thds news))) c"
proof -
  have len: "length (yields_thds news) = N_TESTTHDS" "yields_thds news \<noteq> []"
    by (simp_all add: yields_thds_def N_TESTTHDS_def)
  then have "hd (rotate y (yields_thds news)) = c" using assms(2) hd_rotate_conv_nth [OF len(2), of y] by simp
  moreover have "rotate y (yields_thds news) \<noteq> []" using len(2) by simp
  ultimately obtain us where us: "rotate y (yields_thds news) = c # us" by (cases "rotate y (yields_thds news)") auto
  then have "c \<in> set (yields_thds news)" using set_rotate [of y "yields_thds news"] by auto
  moreover have "top_thread (at_10 (rotate y (yields_thds news))) c"
    by (auto simp: top_thread_def at_10_def us SL_FPRR_NPRIOS_def)
  moreover have "rotate (Suc y) (yields_thds news) = us @ [c]" using us by simp
  ultimately show thesis using us that by blast
qed

lemma yields_tick:
  assumes "yields_inv N news n m w"
  shows "\<exists>w'. ktick N w w'" and "ktick N w w' \<Longrightarrow> yields_inv N news n (Suc m) w'"
proof -
  from assms obtain y c where d: "distinct (yields_thds news)" and c: "c = yields_thds news ! (y mod N_TESTTHDS)"
    and v: "sl_view N (kw_sys w) (set (yields_thds news)) (at_10 (rotate y (yields_thds news)))"
    and r: "\<forall>t\<in>set (yields_thds news). f_priority (sl_policy (kw_sys w)) t = 10"
      "sched_thd (kw_sys w) \<notin> set (yields_thds news)"
      "\<forall>t\<in>set (yields_thds news). t \<noteq> c \<longrightarrow> kw_pc w t mod 3 = 0"
      "n = 3 * y + kw_pc w c mod 3" "kw_out w = map turn_no [0..<(n + 2) div 3]"
    unfolding yields_inv_def by blast
  from yields_head [OF d c] have top: "top_thread (at_10 (rotate y (yields_thds news))) c" by blast
  from tick_goes(1) [OF v top] show "\<exists>w'. ktick N w w'" .
  assume "ktick N w w'"
  from tick_goes(2) [OF v top this] show "yields_inv N news n (Suc m) w'"
    using d c r unfolding yields_inv_def goes_def threads_kept_def by (intro conjI exI [of _ y] exI [of _ c]) simp_all
qed

text \<open>A yield starts the round of the next thread in the queue.\<close>

lemma yields_next:
  assumes "distinct (yields_thds news)" and "kw_cur w = c"
    and "\<forall>t\<in>set (yields_thds news). f_priority (sl_policy (kw_sys w)) t = 10"
    and "sched_thd (kw_sys w) \<notin> set (yields_thds news)"
    and "\<forall>t\<in>set (yields_thds news). t \<noteq> c \<longrightarrow> kw_pc w t mod 3 = 0"
    and "kw_pc w c mod 3 = 2" and "n = 3 * y + 2" and "kw_out w = map turn_no [0..<(n + 2) div 3]"
    and "goes N (advance w) (set (yields_thds news)) (at_10 (rotate (Suc y) (yields_thds news)))
      (yields_thds news ! (Suc y mod N_TESTTHDS)) w'"
  shows "yields_inv N news (Suc n) (Suc m) w'"
proof (rule yields_invI [OF assms(1) refl])
  let ?ts = "yields_thds news" and ?c = "yields_thds news ! (Suc y mod N_TESTTHDS)"
  have w: "threads_kept (kw_sys w) (kw_sys w')" "kw_cur w' = ?c" "kw_out w' = kw_out w"
    "kw_pc w' = (kw_pc w)(c := Suc (kw_pc w c))"
    using assms(2,9) by (simp_all add: goes_def advance_def)
  show "sl_view N (kw_sys w') (set ?ts) (at_10 (rotate (Suc y) ?ts))" using assms(9) by (simp add: goes_def)
  show "\<forall>t\<in>set ?ts. f_priority (sl_policy (kw_sys w')) t = 10" "sched_thd (kw_sys w') \<notin> set ?ts"
    using w(1) assms(3,4) by (simp_all add: threads_kept_def)
  show "if Suc m = 0 then kw_cur w' = sched_thd (kw_sys w') \<and> Suc n = 0 else kw_cur w' = ?c" using w(2) by simp
  have zero: "\<forall>t\<in>set ?ts. kw_pc w' t mod 3 = 0" using w(4) assms(5,6) by (simp add: mod_Suc)
  then show "\<forall>t\<in>set ?ts. t \<noteq> ?c \<longrightarrow> kw_pc w' t mod 3 = 0" by blast
  have "kw_pc w' ?c mod 3 = 0" using zero yields_head [OF assms(1) refl] by blast
  then show "Suc n = 3 * Suc y + kw_pc w' ?c mod 3" using assms(7) by simp
  have "(n + 2) div 3 = (Suc n + 2) div 3" using assms(7) by presburger
  then show "kw_out w' = map turn_no [0..<(Suc n + 2) div 3]" using w(3) assms(8) by simp
qed

lemma yields_own:
  assumes "yields_inv N news n (Suc m) w"
  shows "(\<exists>w'. kown N (yields_code news) w w') \<and>
    (\<forall>w'. kown N (yields_code news) w w' \<longrightarrow> yields_inv N news (Suc n) (Suc m) w')"
proof -
  let ?ts = "yields_thds news" and ?code = "yields_code news"
  from assms obtain y c where d: "distinct ?ts" and c: "c = ?ts ! (y mod N_TESTTHDS)"
    and v: "sl_view N (kw_sys w) (set ?ts) (at_10 (rotate y ?ts))"
    and prio: "\<forall>t\<in>set ?ts. f_priority (sl_policy (kw_sys w)) t = 10"
    and sched: "sched_thd (kw_sys w) \<notin> set ?ts" and cur: "kw_cur w = c"
    and others: "\<forall>t\<in>set ?ts. t \<noteq> c \<longrightarrow> kw_pc w t mod 3 = 0"
    and n: "n = 3 * y + kw_pc w c mod 3" and out: "kw_out w = map turn_no [0..<(n + 2) div 3]"
    unfolding yields_inv_def by auto
  from yields_head [OF d c] obtain us where us: "rotate y ?ts = c # us" "c \<in> set ?ts"
    "rotate (Suc y) ?ts = us @ [c]" by blast
  have body: "map_of ?code c = Some (test_thd_fn (int (y mod N_TESTTHDS) + 1))"
    unfolding c by (rule yields_code_of [OF d]) (simp add: N_TESTTHDS_def)
  have act: "next_act ?code w = Some (test_thd_fn (int (y mod N_TESTTHDS) + 1) ! (kw_pc w c mod 3))"
    by (simp add: next_act_def cur body test_thd_fn_def)
  consider "kw_pc w c mod 3 = 0" | "kw_pc w c mod 3 = 1" | "kw_pc w c mod 3 = 2" by linarith
  then show ?thesis
  proof cases
    case 1
    have a: "next_act ?code w = Some (KPrint (turn_no y))"
      by (simp add: act 1 test_thd_fn_def turn_no_def)
    have "(n + 2) div 3 = y" "(Suc n + 2) div 3 = Suc y" using n 1 by presburger+
    then have "yields_inv N news (Suc n) (Suc m) ((advance w)\<lparr>kw_out := kw_out w @ [turn_no y]\<rparr>)"
      using v prio sched cur others n out 1
      by (intro yields_invI [OF d c]) (simp_all add: advance_def mod_Suc)
    then show ?thesis unfolding kown_print [OF a] by blast
  next
    case 2
    have a: "next_act ?code w = Some (KSpin (WORKITERS * (int (y mod N_TESTTHDS) + 1)))"
      "0 < WORKITERS * (int (y mod N_TESTTHDS) + 1)"
      by (simp_all add: act 2 test_thd_fn_def WORKITERS_def)
    have "(n + 2) div 3 = Suc y" "(Suc n + 2) div 3 = Suc y" using n 2 by presburger+
    then have "yields_inv N news (Suc n) (Suc m) (advance w)"
      using v prio sched cur others n out 2
      by (intro yields_invI [OF d c]) (simp_all add: advance_def mod_Suc)
    then show ?thesis unfolding kown_spin [OF a] by blast
  next
    case 3
    let ?c = "?ts ! (Suc y mod N_TESTTHDS)"
    have a: "next_act ?code w = Some (KYield 0)"
      by (simp add: act 3 test_thd_fn_def)
    from yields_head [OF d refl] have top: "top_thread (at_10 (rotate (Suc y) ?ts)) ?c" by blast
    have q: "at_10 (rotate (Suc y) ?ts) =
        enqueued (f_priority (sl_policy (kw_sys w)) c) c (dequeued c (at_10 (rotate y ?ts)))"
      using prio us by (auto simp: enqueued_def dequeued_def at_10_def fun_eq_iff simp del: rotate_Suc)
    note go = yield_goes [OF v a cur us(2) q top]
    have "yields_inv N news (Suc n) (Suc m) w'" if "goes N (advance w) (set ?ts) (at_10 (rotate (Suc y) ?ts)) ?c w'" for w'
      by (rule yields_next [OF d cur prio sched others 3 _ out that]) (simp add: n 3)
    with go show ?thesis by blast
  qed
qed

lemma yields_own_keeps:
  assumes "yields_inv N news n m w" and "kown N (yields_code news) w w'"
  shows "yields_inv N news (Suc n) m w'"
proof (cases m)
  case 0
  with assms(1) have "kw_cur w \<notin> set (yields_thds news)" by (auto simp: yields_inv_def)
  then have "next_act (yields_code news) w = None" by (simp add: next_act_def yields_code_none)
  with assms(2) show ?thesis by (auto elim: kown.cases)
next
  case (Suc m')
  with yields_own assms show ?thesis by blast
qed

interpretation yields: interleaving "kown N (yields_code news)" "ktick N" "yields_inv N news" "\<lambda>_. True" for N news
proof
  fix n m w
  show "\<exists>w'. kown N (yields_code news) w w'" if "yields_inv N news n (Suc m) w"
    using yields_own [OF that] by (rule conjunct1)
qed (fact yields_own_keeps yields_tick)+

text \<open>C18: \<open>test_yields\<close> creates its eight threads, and whatever the interleaving with activations of the
  scheduler: after \<open>n\<close> actions exactly the numbers 1 to 8 have been printed over and over, in
  this order, and a run never gets stuck.\<close>

theorem test_yields_takes_turns:
  assumes "booting N k cyc bootcap icap itid news N_TESTTHDS s"
  shows "\<exists>s'. cos_init_test k cyc bootcap icap itid (test_yields k news) s = Inr (yields_code news, s') \<and>
    (\<forall>n m. \<exists>w. kruns N (yields_code news) n (Suc m) (start s') w) \<and>
    (\<forall>n m w. kruns N (yields_code news) n m (start s') w \<longrightarrow>
      kw_out w = map turn_no [0..<(n + 2) div 3])"
proof -
  let ?ts = "yields_thds news"
  obtain s1 where s1: "sl_init k cyc bootcap icap itid s = Inr s1" "sl_view N s1 {} (\<lambda>_. [])"
    "sched_thd s1 = cos_thdid k" "idle_thd s1 = itid"
    "\<forall>u. t_thdcap (sl_threads s1 u) = (if u = itid then icap else if u = cos_thdid k then bootcap else 0)"
    by (rule sl_init_ok [OF assms])
  have zero: "yields_upto N k bootcap icap itid news 0 s1"
    using s1(2-5) by (simp add: yields_upto_def at_10_def fun_upd_idem)
  obtain s2 where s2: "test_yields_from k news 0 N_TESTTHDS s1 = Inr (yields_code news, s2)"
    "yields_upto N k bootcap icap itid news N_TESTTHDS s2"
    by (rule test_yields_from_ok [OF assms _ zero, of N_TESTTHDS]) (simp_all add: yields_code_def)
  have r: "cos_init_test k cyc bootcap icap itid (test_yields k news) s = Inr (yields_code news, s2)"
    by (simp add: cos_init_test_def s1(1) test_yields_def s2(1))
  have d: "distinct ?ts" using assms by (simp add: booting_def yields_thds_def)
  have "cos_thdid k \<notin> set ?ts" using assms by (simp add: booting_def yields_thds_def)
  then have "yields_inv N news 0 0 (start s2)"
    using s2(2) by (intro yields_invI [OF d refl, where y = 0])
      (auto simp: yields_upto_def start_def yields_thds_def)
  with r yields.runs_exist yields.runs_keep show ?thesis
    unfolding yields_inv_def by (intro exI [of _ s2]) blast
qed

subsection \<open>test_blocking_directed_yield\<close>

definition low_thd :: "(nat \<Rightarrow> nat \<times> nat) \<Rightarrow> nat" where
  "low_thd news = snd (news 0)"

definition high_thd :: "(nat \<Rightarrow> nat \<times> nat) \<Rightarrow> nat" where
  "high_thd news = snd (news 1)"

definition directed_code :: "(nat \<Rightarrow> nat \<times> nat) \<Rightarrow> (nat \<times> kact list) list" where
  "directed_code news = [(low_thd news, test_low), (high_thd news, test_high (low_thd news))]"

definition low_high :: "nat \<Rightarrow> nat \<Rightarrow> queues" where
  "low_high l h = (\<lambda>_. [])(10 := [l], 5 := [h])"

definition printed :: "string \<Rightarrow> kworld \<Rightarrow> nat" where
  "printed x w = count_list (kw_out w) (Txt x)"

text \<open>
  \<open>high\<close> has a round of two actions that starts with the directed yield, so it is inside a round
  exactly while \<open>low\<close> runs in its place; only an activation brings it back.
\<close>

definition directed_inv :: "nat \<Rightarrow> (nat \<Rightarrow> nat \<times> nat) \<Rightarrow> nat \<Rightarrow> nat \<Rightarrow> kworld \<Rightarrow> bool" where
  "directed_inv N news n m w \<longleftrightarrow> (let l = low_thd news; h = high_thd news in
     l \<noteq> h \<and> sl_view N (kw_sys w) {l, h} (low_high l h) \<and> st (kw_sys w) l = SL_THD_RUNNABLE \<and>
     sched_thd (kw_sys w) \<notin> {l, h} \<and>
     (if m = 0 then kw_cur w = sched_thd (kw_sys w) \<and> n = 0
      else kw_cur w = h \<and> kw_pc w h + 2 \<le> 2 * m \<or> kw_cur w = l \<and> odd (kw_pc w h) \<and> kw_pc w h < 2 * m) \<and>
     n = kw_pc w h + kw_pc w l \<and>
     printed ''h'' w = kw_pc w h div 2 \<and> printed ''l'' w = kw_pc w l div 2)"

lemma directed_tick:
  assumes "directed_inv N news n m w"
  shows "\<exists>w'. ktick N w w'" and "ktick N w w' \<Longrightarrow> directed_inv N news n (Suc m) w'"
proof -
  let ?l = "low_thd news" and ?h = "high_thd news"
  have v: "sl_view N (kw_sys w) {?l, ?h} (low_high ?l ?h)" using assms by (simp add: directed_inv_def Let_def)
  have top: "top_thread (low_high ?l ?h) ?h"
    unfolding top_thread_def by (rule exI [of _ 5]) (simp add: low_high_def SL_FPRR_NPRIOS_def)
  from tick_goes(1) [OF v top] show "\<exists>w'. ktick N w w'" .
  assume "ktick N w w'"
  from tick_goes(2) [OF v top this] assms show "directed_inv N news n (Suc m) w'"
    by (auto simp: directed_inv_def goes_def threads_kept_def printed_def Let_def split: if_splits)
qed

lemma odd_room: "odd (x :: nat) \<Longrightarrow> x + 2 \<le> 2 * y \<Longrightarrow> x + 3 \<le> 2 * y"
  by presburger

lemma directed_own:
  assumes "directed_inv N news n (Suc m) w"
  shows "(\<exists>w'. kown N (directed_code news) w w') \<and>
    (\<forall>w'. kown N (directed_code news) w w' \<longrightarrow> directed_inv N news (Suc n) (Suc m) w')"
proof -
  let ?l = "low_thd news" and ?h = "high_thd news" and ?code = "directed_code news"
  have lh: "?l \<noteq> ?h" and v: "sl_view N (kw_sys w) {?l, ?h} (low_high ?l ?h)"
    and run: "st (kw_sys w) ?l = SL_THD_RUNNABLE" and sched: "sched_thd (kw_sys w) \<notin> {?l, ?h}"
    and n: "n = kw_pc w ?h + kw_pc w ?l"
    and out: "printed ''h'' w = kw_pc w ?h div 2" "printed ''l'' w = kw_pc w ?l div 2"
    and cur: "kw_cur w = ?h \<and> kw_pc w ?h + 2 \<le> 2 * Suc m \<or>
      kw_cur w = ?l \<and> odd (kw_pc w ?h) \<and> kw_pc w ?h < 2 * Suc m"
    using assms by (simp_all add: directed_inv_def Let_def)
  have body: "map_of ?code ?l = Some test_low" "map_of ?code ?h = Some (test_high ?l)"
    using lh by (simp_all add: directed_code_def)
  have act: "kw_cur w = ?h \<Longrightarrow> next_act ?code w = Some (test_high ?l ! (kw_pc w ?h mod 2))"
    "kw_cur w = ?l \<Longrightarrow> next_act ?code w = Some (test_low ! (kw_pc w ?l mod 2))"
    by (simp_all add: next_act_def body test_high_def test_low_def numeral_2_eq_2)
  have inv: "directed_inv N news (Suc n) (Suc m) w'"
    if "sl_view N (kw_sys w') {?l, ?h} (low_high ?l ?h)" "threads_kept (kw_sys w) (kw_sys w')"
      "Suc n = kw_pc w' ?h + kw_pc w' ?l"
      "printed ''h'' w' = kw_pc w' ?h div 2" "printed ''l'' w' = kw_pc w' ?l div 2"
      "kw_cur w' = ?h \<and> kw_pc w' ?h + 2 \<le> 2 * Suc m \<or>
        kw_cur w' = ?l \<and> odd (kw_pc w' ?h) \<and> kw_pc w' ?h < 2 * Suc m" for w'
    using that lh run sched by (simp add: directed_inv_def Let_def threads_kept_def)
  have same: "threads_kept (kw_sys w) (kw_sys w)" by (simp add: threads_kept_def)
  consider "kw_cur w = ?h" "even (kw_pc w ?h)" | "kw_cur w = ?h" "odd (kw_pc w ?h)"
    | "kw_cur w = ?l" "even (kw_pc w ?l)" | "kw_cur w = ?l" "odd (kw_pc w ?l)" using cur by blast
  then show ?thesis
  proof cases
    case 1
    then have a: "next_act ?code w = Some (KYield ?l)"
      by (simp add: act test_high_def even_iff_mod_2_eq_zero)
    have "?h \<in> {?l, ?h}" "?l \<in> {?l, ?h}" by simp_all
    note go = directed_goes [OF v a 1(1) this run]
    have "directed_inv N news (Suc n) (Suc m) w'" if "goes N (advance w) {?l, ?h} (low_high ?l ?h) ?l w'" for w'
      by (rule inv) (use that 1 cur lh n out in \<open>auto simp: goes_def advance_def printed_def threads_kept_def\<close>)
    with go show ?thesis by blast
  next
    case 2
    then have a: "next_act ?code w = Some (KPrint (Txt ''h''))"
      by (simp add: act test_high_def odd_iff_mod_2_eq_one)
    have "kw_pc w ?h + 2 \<le> 2 * Suc m" using 2(1) cur lh by auto
    with 2(2) have even3: "kw_pc w ?h + 3 \<le> 2 * Suc m" by (rule odd_room)
    have "directed_inv N news (Suc n) (Suc m) ((advance w)\<lparr>kw_out := kw_out w @ [Txt ''h'']\<rparr>)"
      by (rule inv) (use v same 2 even3 lh n out in \<open>auto simp: advance_def printed_def elim!: oddE\<close>)
    then show ?thesis unfolding kown_print [OF a] by blast
  next
    case 3
    then have a: "next_act ?code w = Some (KSpin (WORKITERS * 10))" "0 < WORKITERS * 10"
      by (simp_all add: act test_low_def even_iff_mod_2_eq_zero WORKITERS_def)
    have "directed_inv N news (Suc n) (Suc m) (advance w)"
      by (rule inv) (use v same 3 cur lh n out in \<open>auto simp: advance_def printed_def\<close>)
    then show ?thesis unfolding kown_spin [OF a] by blast
  next
    case 4
    then have a: "next_act ?code w = Some (KPrint (Txt ''l''))"
      by (simp add: act test_low_def odd_iff_mod_2_eq_one)
    have "directed_inv N news (Suc n) (Suc m) ((advance w)\<lparr>kw_out := kw_out w @ [Txt ''l'']\<rparr>)"
      by (rule inv) (use v same 4 cur lh n out in \<open>auto simp: advance_def printed_def elim!: oddE\<close>)
    then show ?thesis unfolding kown_print [OF a] by blast
  qed
qed

lemma directed_own_keeps:
  assumes "directed_inv N news n m w" and "kown N (directed_code news) w w'"
  shows "directed_inv N news (Suc n) m w'"
proof (cases m)
  case 0
  with assms(1) have "map_of (directed_code news) (kw_cur w) = None"
    by (simp add: directed_inv_def directed_code_def Let_def)
  then have "next_act (directed_code news) w = None" by (simp add: next_act_def)
  with assms(2) show ?thesis by (auto elim: kown.cases)
next
  case (Suc m')
  with directed_own assms show ?thesis by blast
qed

interpretation directed: interleaving "kown N (directed_code news)" "ktick N" "directed_inv N news" "\<lambda>_. True" for N news
proof
  fix n m w
  show "\<exists>w'. kown N (directed_code news) w w'" if "directed_inv N news n (Suc m) w"
    using directed_own [OF that] by (rule conjunct1)
qed (fact directed_own_keeps directed_tick)+

lemma directed_creates:
  assumes "booting N k cyc bootcap icap itid news 2 s"
  obtains s' where "cos_init_test k cyc bootcap icap itid (test_blocking_directed_yield k news) s =
      Inr (directed_code news, s')"
    and "directed_inv N news 0 0 (start s')"
proof -
  let ?l = "low_thd news" and ?h = "high_thd news"
  obtain s1 where s1: "sl_init k cyc bootcap icap itid s = Inr s1" "sl_view N s1 {} (\<lambda>_. [])"
    "sched_thd s1 = cos_thdid k" "idle_thd s1 = itid"
    "\<forall>u. t_thdcap (sl_threads s1 u) = (if u = itid then icap else if u = cos_thdid k then bootcap else 0)"
    by (rule sl_init_ok [OF assms])
  have kern: "kernel_as N (cos_thdid k) k" using assms by (simp add: booting_def)
  have new0: "?l \<notin> {0, cos_thdid k, itid}" "?l < N" "fst (news 0) \<notin> {0, bootcap, icap}"
    and new1: "?h \<notin> {0, cos_thdid k, itid}" "?h < N" "fst (news 1) \<notin> {0, bootcap, icap}"
    and lh: "?l \<noteq> ?h" "fst (news 0) \<noteq> fst (news 1)"
    using booting_new [OF assms, of 0] booting_new [OF assms, of 1] by (simp_all add: low_thd_def high_thd_def)
  have "new_thread N s1 {} (fst (news 0)) ?l" using new0 s1(3-5) by (simp add: new_thread_def)
  then obtain s2 where s2: "sl_thd_alloc k (fst (news 0)) ?l s1 = Inr (Some ?l, s2)"
    "sl_view N s2 {?l} (\<lambda>_. [])" "sl_threads s2 = (sl_threads s1)(?l := made ?l (fst (news 0)) (sl_threads s1 ?l))"
    "sched_thd s2 = sched_thd s1" "idle_thd s2 = idle_thd s1"
    by (rule alloc_ok [OF s1(2) kern])
  have "new_thread N s2 {?l} (fst (news 1)) ?h"
    using new1 lh s1(3-5) s2(3-5) by (simp add: new_thread_def made_def)
  then obtain s3 where s3: "sl_thd_alloc k (fst (news 1)) ?h s2 = Inr (Some ?h, s3)"
    "sl_view N s3 {?h, ?l} (\<lambda>_. [])" "sl_threads s3 = (sl_threads s2)(?h := made ?h (fst (news 1)) (sl_threads s2 ?h))"
    "sched_thd s3 = sched_thd s2" "idle_thd s3 = idle_thd s2"
    by (rule alloc_ok [OF s2(2) kern])
  have 10: "10 < SL_FPRR_NPRIOS" "5 < SL_FPRR_NPRIOS" by (simp_all add: SL_FPRR_NPRIOS_def)
  obtain s4 where s4: "sl_thd_param_set ?l SCHEDP_PRIO 10 s3 = Inr s4"
    "sl_view N s4 {?h, ?l} (enqueued 10 ?l (\<lambda>_. []))" "sl_threads s4 = sl_threads s3"
    "sched_thd s4 = sched_thd s3"
    by (rule param_ok [OF s3(2) _ 10(1), of ?l]) simp_all
  obtain s5 where s5: "sl_thd_param_set ?h SCHEDP_PRIO 5 s4 = Inr s5"
    "sl_view N s5 {?h, ?l} (enqueued 5 ?h (enqueued 10 ?l (\<lambda>_. [])))" "sl_threads s5 = sl_threads s4"
    "sched_thd s5 = sched_thd s4"
    using param_ok [OF s4(2) _ 10(2), of ?h] lh by (auto simp: enqueued_def)
  have l: "t_thdid (sl_threads s5 ?l) = ?l" "st s5 ?l = SL_THD_RUNNABLE"
    using lh s2(3) s3(3) s4(3) s5(3) by (simp_all add: made_def)
  have "cos_init_test k cyc bootcap icap itid (test_blocking_directed_yield k news) s = Inr (directed_code news, s5)"
    using s1(1) s2(1) s3(1) s4(1) s5(1) l(1)
    by (simp add: cos_init_test_def test_blocking_directed_yield_def directed_code_def low_thd_def high_thd_def)
  moreover have "enqueued 5 ?h (enqueued 10 ?l (\<lambda>_. [])) = low_high ?l ?h"
    by (simp add: enqueued_def low_high_def)
  then have "directed_inv N news 0 0 (start s5)"
    using s5(2,4) s4(4) s3(4) s2(4) s1(3) lh(1) l(2) new0(1) new1(1)
    by (simp add: directed_inv_def start_def printed_def insert_commute)
  ultimately show thesis by (rule that)
qed

text \<open>C29: in \<open>test_blocking_directed_yield\<close> the ready thread of the higher priority waits for the one of
  the lower priority that it yields to, although the scheduler always prefers it: it prints at most
  once per activation of the scheduler after the first, and every other action is one of the
  thread of lower priority. Nothing blocks, and a run never gets stuck.\<close>

theorem directed_yield_inverts_priority:
  assumes "booting N k cyc bootcap icap itid news 2 s"
  shows "\<exists>s'. cos_init_test k cyc bootcap icap itid (test_blocking_directed_yield k news) s =
      Inr (directed_code news, s') \<and>
    (\<forall>n m. \<exists>w. kruns N (directed_code news) n (Suc m) (start s') w) \<and>
    (\<forall>n m w. kruns N (directed_code news) n (Suc m) (start s') w \<longrightarrow>
      printed ''h'' w \<le> m \<and> n \<le> 2 * printed ''l'' w + 2 * m + 2)"
proof -
  obtain s' where s': "cos_init_test k cyc bootcap icap itid (test_blocking_directed_yield k news) s =
      Inr (directed_code news, s')" "directed_inv N news 0 0 (start s')"
    by (rule directed_creates [OF assms])
  have "printed ''h'' w \<le> m \<and> n \<le> 2 * printed ''l'' w + 2 * m + 2"
    if "kruns N (directed_code news) n (Suc m) (start s') w" for n m w
    using directed.runs_keep [OF that s'(2)] by (auto simp: directed_inv_def Let_def)
  with s' directed.runs_exist show ?thesis by blast
qed

subsection \<open>A boot\<close>

definition zero_sys :: sl_sys where
  "zero_sys = sl_timer.extend timer_ex (sl_sys.fields
     (\<lambda>t. \<lparr>t_state = SL_THD_FREE, t_thdid = 0, t_thdcap = 0, t_prio = 0\<rparr>) zero_policy 0 False 0 0 0)"

definition boot_news :: "nat \<Rightarrow> nat \<times> nat" where
  "boot_news i = (22 + i, 3 + i)"

lemma booting_ex:
  assumes "n \<le> 8"
  shows "booting 16 (some_env 16 1) 1 20 21 2 boot_news n zero_sys"
proof -
  have "cos_thdid (some_env 16 1) = 1" by (simp add: some_env_def)
  moreover have "sl_threads zero_sys t = \<lparr>t_state = SL_THD_FREE, t_thdid = 0, t_thdcap = 0, t_prio = 0\<rparr>" for t
    by (simp add: zero_sys_def sl_timer.defs sl_sys.defs)
  ultimately show ?thesis
    using assms some_kernel [of 16 1]
    by (auto simp: booting_def boot_news_def distinct_map inj_on_def list_all_iff)
qed

theorem test_yields_takes_turns_witness:
  "\<exists>s' w. cos_init_test (some_env 16 1) 1 20 21 2 (test_yields (some_env 16 1) boot_news) zero_sys =
       Inr (yields_code boot_news, s') \<and> kruns 16 (yields_code boot_news) 25 1 (start s') w \<and>
     kw_out w = map Num [1, 2, 3, 4, 5, 6, 7, 8, 1]"
proof -
  have b: "booting 16 (some_env 16 1) 1 20 21 2 boot_news N_TESTTHDS zero_sys"
    by (rule booting_ex) (simp add: N_TESTTHDS_def)
  from test_yields_takes_turns [OF b] obtain s' where
    s': "cos_init_test (some_env 16 1) 1 20 21 2 (test_yields (some_env 16 1) boot_news) zero_sys =
      Inr (yields_code boot_news, s')"
    "\<exists>w. kruns 16 (yields_code boot_news) 25 (Suc 0) (start s') w"
    "\<And>w. kruns 16 (yields_code boot_news) 25 (Suc 0) (start s') w \<Longrightarrow>
      kw_out w = map turn_no [0..<(25 + 2) div 3]" by blast
  then obtain w where w: "kruns 16 (yields_code boot_news) 25 1 (start s') w"
    "kw_out w = map turn_no [0..<(25 + 2) div 3]" by auto
  have "map turn_no [0..<(25 + 2) div 3] = map Num [1, 2, 3, 4, 5, 6, 7, 8, 1]"
    by (simp add: upt_rec turn_no_def N_TESTTHDS_def)
  with w s'(1) show ?thesis by auto
qed

theorem directed_yield_inverts_priority_witness:
  "\<exists>s' w. cos_init_test (some_env 16 1) 1 20 21 2 (test_blocking_directed_yield (some_env 16 1) boot_news) zero_sys =
       Inr (directed_code boot_news, s') \<and> kruns 16 (directed_code boot_news) 20 1 (start s') w \<and>
     printed ''h'' w = 0 \<and> 9 \<le> printed ''l'' w"
proof -
  have "booting 16 (some_env 16 1) 1 20 21 2 boot_news 2 zero_sys" by (rule booting_ex) simp
  from directed_yield_inverts_priority [OF this] obtain s' where
    s': "cos_init_test (some_env 16 1) 1 20 21 2 (test_blocking_directed_yield (some_env 16 1) boot_news) zero_sys =
      Inr (directed_code boot_news, s')"
    and ex: "\<And>n m. \<exists>w. kruns 16 (directed_code boot_news) n (Suc m) (start s') w"
    and all: "\<And>n m w. kruns 16 (directed_code boot_news) n (Suc m) (start s') w \<Longrightarrow>
      printed ''h'' w \<le> m \<and> n \<le> 2 * printed ''l'' w + 2 * m + 2" by blast
  from ex [of 20 0] obtain w where w: "kruns 16 (directed_code boot_news) 20 (Suc 0) (start s') w" by blast
  with s' all [OF w] show ?thesis by auto
qed

end
