(* ===== verification/KthdRuns.thy ===== *)
theory KthdRuns
  imports ClientDev KthdFlow TestKthds
begin

text \<open>
  The whole of the port: kernel threads that run light-weight threads, under the scheduler of
  kernel threads. A kernel thread is inside \<open>__kthd_entry\<close>: about to start, about to begin a turn of
  its loop, in a light-weight thread of its ring, or back from \<open>lwt_schedule\<close> in its loop. A step
  is what it does up to the next call of the thread library. The processor moves to another kernel
  thread where \<open>sl.c\<close> switches; the scheduler's own thread may be activated between any two steps.
\<close>

subsection \<open>The code\<close>

type_synonym kprog = "(kthd_sys, unit) prog"

type_synonym kcode = "(kthd_sys, unit) text_segment"

datatype kpc = KEntry addr | KTurn addr | KRun addr kprog | KRest addr

text \<open>After a switch the kernel thread is in its loop again when its own thread is the current one.\<close>

definition kland :: "addr \<Rightarrow> kprog \<Rightarrow> kthd_sys \<Rightarrow> kpc" where
  "kland kp p s = (if current_thread s = kp_lwt (s_kp s kp) then KRest kp else KRun kp p)"

fun kthd_step :: "cos_env \<Rightarrow> kcode \<Rightarrow> kpc \<Rightarrow> kthd_sys \<times> (addr \<Rightarrow> kprog) \<Rightarrow>
    (kpc \<times> (sl_out \<times> switch list) option \<times> kthd_sys \<times> (addr \<Rightarrow> kprog)) result" where
  "kthd_step k code (KEntry kp) (s, c) =
     rbind (kthd_start k kp s) (\<lambda>(t, s1). Inr (KTurn kp, None, s1, c))"
| "kthd_step k code (KTurn kp) (s, c) =
     rbind (kthd_turn kp s) (\<lambda>(x, s1). Inr (case x of
         Returned _ \<Rightarrow> KRest kp
       | Switched \<Rightarrow> kland kp (arrive code \<lparr>w_sys = s1, w_glob = (), w_cont = c\<rparr>) s1, None, s1, c))"
| "kthd_step k code (KRun kp p) (s, c) =
     rbind (dev_pstep code NULL p \<lparr>w_sys = s, w_glob = (), w_cont = c\<rparr>) (\<lambda>r. case r of
         None \<Rightarrow> Inl OutOfBounds
       | Some (q, w) \<Rightarrow> Inr (kland kp q (w_sys w), None, w_sys w, w_cont w))"
| "kthd_step k code (KRest kp) (s, c) =
     rbind (kthd_rest k s) (\<lambda>(x, s1). Inr (KTurn kp, Some x, s1, c))"

record kmach =
  km_sys :: kthd_sys
  km_cont :: "addr \<Rightarrow> kprog"
  km_cur :: nat
  km_pc :: "nat \<rightharpoonup> kpc"

text \<open>\<open>mown\<close>: a step of the running kernel thread. \<open>mtick\<close>: an activation of the scheduler's thread.
  \<open>mfails\<close>: the step fails.\<close>

inductive mown :: "nat \<Rightarrow> kcode \<Rightarrow> kmach \<Rightarrow> kmach \<Rightarrow> bool"
  for N :: nat and code :: kcode
where
  m_stay: "km_pc m (km_cur m) = Some pc \<Longrightarrow> kernel_as N (km_cur m) k \<Longrightarrow>
    kthd_step k code pc (km_sys m, km_cont m) = Inr (pc', None, s, c) \<Longrightarrow>
    mown N code m (m\<lparr>km_sys := s, km_cont := c, km_pc := (km_pc m)(km_cur m \<mapsto> pc')\<rparr>)"
| m_switch: "km_pc m (km_cur m) = Some pc \<Longrightarrow> kernel_as N (km_cur m) k \<Longrightarrow>
    kthd_step k code pc (km_sys m, km_cont m) = Inr (pc', Some (SlSwitched, [sw]), s, c) \<Longrightarrow>
    target N (s_kern s) sw u \<Longrightarrow>
    mown N code m (m\<lparr>km_sys := s, km_cont := c, km_pc := (km_pc m)(km_cur m \<mapsto> pc'), km_cur := u\<rparr>)"

definition mfails :: "nat \<Rightarrow> kcode \<Rightarrow> kmach \<Rightarrow> fault \<Rightarrow> bool" where
  "mfails N code m e \<longleftrightarrow> (\<exists>pc k. km_pc m (km_cur m) = Some pc \<and> kernel_as N (km_cur m) k \<and>
     kthd_step k code pc (km_sys m, km_cont m) = Inl e)"

inductive mtick :: "nat \<Rightarrow> kmach \<Rightarrow> kmach \<Rightarrow> bool"
  for N :: nat
where
  m_tick: "kernel_as N (sched_thd (s_kern (km_sys m))) k \<Longrightarrow>
    \<forall>(t, b, c)\<in>set evs. t = 0 \<or> t < N \<and> t = idle_thd (s_kern (km_sys m)) \<Longrightarrow>
    sl_sched_loop_turn k evs (s_kern (km_sys m)) = Inr (SlSwitched, [sw], kern) \<Longrightarrow> target N kern sw u \<Longrightarrow>
    mtick N m (m\<lparr>km_sys := (km_sys m)\<lparr>s_kern := kern\<rparr>, km_cur := u\<rparr>)"

inductive_cases mownE: "mown N code m m'"
inductive_cases mtickE: "mtick N m m'"

subsection \<open>The memory of two kernel threads\<close>

text \<open>
  \<open>mem_ok s F n xs ys\<close>: the rings \<open>xs\<close> of the running kernel thread and \<open>ys\<close> of the other one are
  whole and apart, their structures lie outside the free bytes \<open>F\<close>, and there is room for \<open>n\<close> more
  threads. A kernel thread that has not started has the empty ring.
\<close>

definition mem_ok :: "kthd_sys \<Rightarrow> addr set \<Rightarrow> nat \<Rightarrow> addr list \<Rightarrow> addr list \<Rightarrow> bool" where
  "mem_ok s F n xs ys \<longleftrightarrow> kpool (s_kheap s) F \<and> (0 < n \<longrightarrow> room F (DEV_BLOCK * int n)) \<and>
     spaced F (xs @ ys) \<and> distinct (xs @ ys) \<and> (xs \<noteq> [] \<longrightarrow> ring (s_links s) xs) \<and>
     (ys \<noteq> [] \<longrightarrow> ring (s_links s) ys) \<and> 0 < n_runnable s \<and> (\<forall>u. l_joinedfrom (s_lwt s u) = NULL)"

lemma mem_okD:
  assumes "mem_ok s F n xs ys"
  shows "kpool (s_kheap s) F" "0 < n \<Longrightarrow> room F (DEV_BLOCK * int n)" "spaced F (xs @ ys)"
    "distinct (xs @ ys)" "xs \<noteq> [] \<Longrightarrow> ring (s_links s) xs" "ys \<noteq> [] \<Longrightarrow> ring (s_links s) ys"
    "0 < n_runnable s" "l_joinedfrom (s_lwt s u) = NULL"
  using assms by (auto simp: mem_ok_def)

lemma spaced_cong: "set xs = set ys \<Longrightarrow> spaced F xs = spaced F ys"
  by (simp add: spaced_def)

lemma mem_ok_swap: "mem_ok s F n xs ys \<Longrightarrow> mem_ok s F n ys xs"
  unfolding mem_ok_def using spaced_cong [of "xs @ ys" "ys @ xs"] by auto

lemma mem_ok_cong:
  assumes "mem_ok s F n xs ys" and "s_kheap s' = s_kheap s" and "s_links s' = s_links s"
    and "n_runnable s' = n_runnable s" and "\<And>u. l_joinedfrom (s_lwt s' u) = l_joinedfrom (s_lwt s u)"
  shows "mem_ok s' F n xs ys"
  using assms by (simp add: mem_ok_def)

lemma mem_ok_rotate:
  assumes "mem_ok s F n (us @ vs) ys"
  shows "mem_ok s F n (vs @ us) ys"
proof -
  note a = assms [unfolded mem_ok_def]
  have "spaced F ((vs @ us) @ ys) = spaced F ((us @ vs) @ ys)"
    by (rule spaced_cong) (simp add: ac_simps)
  moreover have "distinct ((vs @ us) @ ys) = distinct ((us @ vs) @ ys)" by auto
  moreover have "vs @ us \<noteq> [] \<longrightarrow> ring (s_links s) (vs @ us)"
  proof
    assume "vs @ us \<noteq> []"
    then have "us @ vs \<noteq> []" by auto
    with a have "ring (s_links s) (us @ vs)" by (elim conjE) (rule mp)
    then show "ring (s_links s) (vs @ us)" by (rule ring_rotate)
  qed
  ultimately show ?thesis unfolding mem_ok_def using a by blast
qed

text \<open>What a step of one kernel thread leaves alone: the scheduler, the parameter blocks and the
  threads of the other kernel thread.\<close>

definition apart_from :: "addr list \<Rightarrow> kthd_sys \<Rightarrow> kthd_sys \<Rightarrow> bool" where
  "apart_from ys s s' \<longleftrightarrow> dev_sys.more s' = dev_sys.more s \<and> (\<forall>u\<in>set ys. s_lwt s' u = s_lwt s u)"

lemma more_sel: "dev_sys.more s' = dev_sys.more s \<Longrightarrow> s_kern s' = s_kern s \<and> s_kp s' = s_kp s"
  by (cases s rule: kthd_sys.cases_scheme; cases s' rule: kthd_sys.cases_scheme) simp

subsection \<open>What the thread library does\<close>

lemma schedule_step:
  assumes "mem_ok s F n (c # us @ z # vs) ys" and "current_thread s = c"
    and "\<forall>u\<in>set us. \<not> ready s u" and "ready s z"
  obtains s' where "dev_lwt_schedule s = Inr (Switched, s')" and "mem_ok s' F n (z # vs @ c # us) ys"
    and "apart_from ys s s'" and "current_thread s' = z" and "eip s' = l_ip (s_lwt s z)"
    and "s_lwt s' = (s_lwt s)(c := (s_lwt s c)\<lparr>l_ip := AfterSwitch, l_sp := esp s - PUSHAL_BYTES\<rparr>)"
proof -
  let ?s = "lwt_dispatch z c (s\<lparr>current_thread := z\<rparr>)"
  have q: "runq s (c # us @ z # vs)" using mem_okD(5) [OF assms(1)] assms(2) by (simp add: runq_def del: ring.simps)
  have ne: "c \<noteq> z" "c \<notin> set ys" using mem_okD(4) [OF assms(1)] by auto
  have nz: "n_runnable s \<noteq> 0" using mem_okD(7) [OF assms(1)] by simp
  have "dev_lwt_schedule s = Inr (Switched, ?s)"
    using lwt_schedule_switch [OF q assms(3,4) nz] by (simp add: dev_lwt_schedule_def dev_eqs)
  moreover have "mem_ok s F n ((z # vs) @ (c # us)) ys" by (rule mem_ok_rotate) (use assms(1) in simp)
  then have "mem_ok ?s F n (z # vs @ c # us) ys"
    by (simp add: mem_ok_def lwt_dispatch_def Let_def del: ring.simps)
  ultimately show thesis
    by (rule that) (use ne in \<open>simp_all add: lwt_dispatch_def Let_def apart_from_def upd_lwt_def\<close>)
qed

text \<open>The death of a thread that nobody joins, and of one that could be joined.\<close>

lemma nojoin_death_step:
  assumes "mem_ok s F n (w # z # vs) ys" and "current_thread s = w" and "ready s z"
    and "l_flag (s_lwt s w) = LWT_NOJOIN"
  obtains s' F' where "dev_lwt_die v s = Inr (Switched, s')" and "mem_ok s' F' n (z # vs) ys"
    and "apart_from ys s s'" and "current_thread s' = z" and "eip s' = l_ip (s_lwt s z)"
    and "s_lwt s' = (s_lwt s)(w := (s_lwt s w)\<lparr>l_ip := AfterSwitch, l_sp := esp s - PUSHAL_BYTES\<rparr>)"
proof -
  note d = mem_okD [OF assms(1)]
  have q: "runq s (w # [] @ z # vs)" using d(5) assms(2) by (simp add: runq_def del: ring.simps)
  have ne: "w \<noteq> z" "w \<notin> set ys" using d(4) by auto
  have w: "0 < w" "block w DEV_BLOCK \<inter> F = {}" using d(3) by (simp_all add: spaced_def)
  have sub: "block w DEV_SIZEOF_LWT \<subseteq> block w DEV_BLOCK" by (auto simp: dev_sizes)
  with w(2) have disj: "block w DEV_SIZEOF_LWT \<inter> F = {}" by blast
  from kd.free_ok [OF d(1) w(1) dev_pool_sizes(3,4) disj] obtain h where
    h: "dev_kfree (s_kheap s) w DEV_SIZEOF_LWT = Inr h" "kpool h (F \<union> block w DEV_SIZEOF_LWT)" by blast
  let ?F = "F \<union> block w DEV_SIZEOF_LWT"
  let ?s = "lwt_dispatch z w (s\<lparr>current_thread := z, s_links := ps_list_ll_rem w (s_links s), s_kheap := h\<rparr>)"
  have "next_runnable s = Some z" by (rule next_runnable_hit [OF q]) (use assms(3) in simp_all)
  then have "dev_lwt_die v s = Inr (Switched, ?s)"
    using assms(2,4) h(1) ne(1) by (simp add: dev_lwt_die_def dev_eqs Let_def)
  moreover have "mem_ok ?s ?F n (z # vs) ys"
    unfolding mem_ok_def
  proof (intro conjI impI allI)
    show "kpool (s_kheap ?s) ?F" using h(2) by (simp add: lwt_dispatch_def Let_def)
    show "room ?F (DEV_BLOCK * int n)" if "0 < n" using d(2) [OF that] room_mono by blast
    show "ring (s_links ?s) (z # vs)"
      using ring_rem [of "s_links s" "[]" w "z # vs"] d(5)
      by (simp add: lwt_dispatch_def Let_def del: ring.simps)
    show "ring (s_links ?s) ys" if "ys \<noteq> []"
    proof -
      have "ring (ps_list_ll_rem w (s_links s)) ys"
        by (rule ring_rem_other [OF d(6) [OF that]]) (use d(4,5) in \<open>auto simp del: ring.simps\<close>)
      then show ?thesis by (simp add: lwt_dispatch_def Let_def)
    qed
    show "spaced ?F ((z # vs) @ ys)"
    proof -
      have "block u DEV_BLOCK \<inter> block w DEV_SIZEOF_LWT = {}" if "u \<in> set ((z # vs) @ ys)" for u
      proof -
        have "u \<noteq> w" "u \<in> set ((w # z # vs) @ ys)" "w \<in> set ((w # z # vs) @ ys)" using that d(4) by auto
        then have "block u DEV_BLOCK \<inter> block w DEV_BLOCK = {}" using d(3) unfolding spaced_def by blast
        with sub show ?thesis by blast
      qed
      moreover have "spaced F ((z # vs) @ ys)" using d(3) unfolding spaced_def by simp
      ultimately show ?thesis unfolding spaced_def by (simp add: Int_Un_distrib)
    qed
  qed (use d(4,7,8) in \<open>simp_all add: lwt_dispatch_def Let_def\<close>)
  ultimately show thesis
    by (rule that) (use ne in \<open>simp_all add: lwt_dispatch_def Let_def apart_from_def upd_lwt_def\<close>)
qed

lemma default_death_step:
  assumes "mem_ok s F n (w # z # vs) ys" and "current_thread s = w" and "ready s z"
    and "l_flag (s_lwt s w) = LWT_DEFAULT"
  obtains s' x where "dev_lwt_die v s = Inr (Switched, s')" and "mem_ok s' F n (z # vs @ [w]) ys"
    and "apart_from ys s s'" and "current_thread s' = z" and "eip s' = l_ip (s_lwt s z)"
    and "s_lwt s' = (s_lwt s)(w := x)" and "l_state x = DEAD"
proof -
  note d = mem_okD [OF assms(1)]
  let ?s = "upd_lwt w (\<lambda>l. l\<lparr>l_ret := v\<rparr>) (upd_lwt w (\<lambda>l. l\<lparr>l_state := DEAD\<rparr>) s)"
  have ne: "w \<noteq> z" "w \<notin> set ys" using d(4) by auto
  have "mem_ok ?s F n (w # [] @ z # vs) ys" using assms(1) by (simp add: mem_ok_def del: ring.simps)
  moreover have "current_thread ?s = w" "ready ?s z" using assms(2,3) ne by simp_all
  ultimately obtain s' where s': "dev_lwt_schedule ?s = Inr (Switched, s')" "mem_ok s' F n (z # vs @ w # []) ys"
    "apart_from ys ?s s'" "current_thread s' = z" "eip s' = l_ip (s_lwt ?s z)"
    "s_lwt s' = (s_lwt ?s)(w := (s_lwt ?s w)\<lparr>l_ip := AfterSwitch, l_sp := esp ?s - PUSHAL_BYTES\<rparr>)"
    using schedule_step [of ?s F n w "[]" z vs ys] by auto
  have "dev_lwt_die v s = dev_lwt_schedule ?s"
    using assms(2,4) d(8) [of w] by (simp add: dev_lwt_die_def Let_def dev_lwt_yield_def dev_lwt_schedule_def)
  with s' ne show thesis by (intro that [of s']) (auto simp: apart_from_def upd_lwt_def)
qed

lemma kthd_create_step:
  assumes "mem_ok s F (Suc n) (p # xs) ys" and "current_thread s = p"
  obtains t s' F' where "dev_lwt_create fn a fl s = Inr (t, s')" and "mem_ok s' F' n (p # xs @ [t]) ys"
    and "apart_from ys s s'" and "current_thread s' = p" and "t \<notin> set (p # xs)"
    and "s_lwt s' = (s_lwt s)(t := dev_fresh_lwt t fn a fl s)"
proof -
  note d = mem_okD [OF assms(1)]
  have D: "DEV_BLOCK = 792" by (simp add: dev_sizes)
  have q: "runq s (p # xs)" using d(5) assms(2) by (simp add: runq_def del: ring.simps)
  have "room F DEV_BLOCK" by (rule room_mono [OF d(2)]) (simp_all add: D)
  then have fit: "kfits (s_kheap s) DEV_BLOCK" using room_fits [OF d(1)] dev_pool_sizes(1) by simp
  have out: "set ((p # xs) @ ys) \<inter> F = {}"
  proof -
    have "u \<in> block u DEV_BLOCK" for u using dev_pool_sizes(1) by simp
    then show ?thesis using d(3) by (auto simp: spaced_def simp del: mem_block)
  qed
  from dev_create_pool [OF d(1) fit out] obtain t h where
    t: "dev_kalloc (s_kheap s) DEV_BLOCK = Inr (t, h)" "0 < t" "block t DEV_BLOCK \<subseteq> F"
      "kpool h (F - block t DEV_BLOCK)" "t \<notin> set ((p # xs) @ ys)" .
  have tx: "t \<notin> set (p # xs)" using t(5) by simp
  from dev_create_runs [OF q t(1,2) tx, of fn a fl] obtain s' where
    s': "dev_lwt_create fn a fl s = Inr (t, s')" "runq s' (p # xs @ [t])"
      "s_lwt s' = (s_lwt s)(t := dev_fresh_lwt t fn a fl s)" "s_kheap s' = h"
      "n_runnable s' = n_runnable s + 1" "s_links s' = ps_list_ll_add (ps_list_prev p (s_links s)) t (s_links s)"
      "dev_sys.more s' = dev_sys.more s" by blast
  let ?F = "F - block t DEV_BLOCK"
  have "mem_ok s' ?F n (p # xs @ [t]) ys"
    unfolding mem_ok_def
  proof (intro conjI impI allI)
    show "kpool (s_kheap s') ?F" using t(4) s'(4) by simp
    show "room ?F (DEV_BLOCK * int n)" if n: "0 < n"
    proof -
      have "0 < DEV_BLOCK * int (Suc n)" by (simp add: D)
      then have "kfits (s_kheap s) (DEV_BLOCK + DEV_BLOCK * int n)"
        using d(2) room_fits [OF d(1)] by (simp add: algebra_simps)
      from dev_kalloc_leaves [OF d(1) this dev_pool_sizes(1,2) _ t(1)] n
      have "kfits h (DEV_BLOCK * int n)" by (simp add: D)
      then show ?thesis using room_fits [OF t(4)] n by (simp add: D)
    qed
    show "spaced ?F ((p # xs @ [t]) @ ys)"
    proof -
      have "block u DEV_BLOCK \<inter> block t DEV_BLOCK = {}" if "u \<in> set ((p # xs) @ ys)" for u
        using d(3) t(3) that unfolding spaced_def by blast
      moreover have "set ((p # xs @ [t]) @ ys) = insert t (set ((p # xs) @ ys))" by auto
      ultimately show ?thesis using d(3) t(2) unfolding spaced_def by (auto simp del: mem_block)
    qed
    show "distinct ((p # xs @ [t]) @ ys)" using d(4) t(5) by auto
    show "ring (s_links s') (p # xs @ [t])" using s'(2) by (simp add: runq_def del: ring.simps)
    show "ring (s_links s') ys" if "ys \<noteq> []"
    proof -
      have r: "ring (s_links s) (p # xs)" using d(5) by simp
      have "last (p # xs) \<in> set (p # xs)" by (rule last_in_set) simp
      moreover have "set ys \<inter> set (p # xs) = {}" using d(4) by auto
      ultimately show ?thesis
        using ring_add_other [OF d(6) [OF that] r, of "last (p # xs)" t] t(5) s'(6) ring_prev [OF r] by auto
    qed
    show "0 < n_runnable s'" using d(7) s'(5) by simp
    show "l_joinedfrom (s_lwt s' u) = NULL" for u using d(8) s'(3) by (simp add: dev_fresh_lwt_def)
  qed
  moreover have "current_thread s' = p" using s'(2) by (simp add: runq_def)
  moreover have "apart_from ys s s'" using s'(3,7) t(5) by (simp add: apart_from_def)
  ultimately show thesis using that s'(1,3) tx by blast
qed

lemma init_step:
  assumes "mem_ok s F (Suc n) [] ys"
  obtains t s' F' x where "dev_lwt_init k s = Inr s'" and "mem_ok s' F' n [t] ys" and "apart_from ys s s'"
    and "current_thread s' = t" and "s_lwt s' = (s_lwt s)(t := x)" and "l_state x = RUNNABLE"
proof -
  note d = mem_okD [OF assms]
  have D: "DEV_BLOCK = 792" by (simp add: dev_sizes)
  have "room F DEV_BLOCK" by (rule room_mono [OF d(2)]) (simp_all add: D)
  then have fit: "kfits (s_kheap s) DEV_BLOCK" using room_fits [OF d(1)] dev_pool_sizes(1) by simp
  have out: "set ys \<inter> F = {}"
  proof -
    have "u \<in> block u DEV_BLOCK" for u using dev_pool_sizes(1) by simp
    then show ?thesis using d(3) by (auto simp: spaced_def simp del: mem_block)
  qed
  from dev_create_pool [OF d(1) fit out] obtain t h where
    t: "dev_kalloc (s_kheap s) DEV_BLOCK = Inr (t, h)" "0 < t" "block t DEV_BLOCK \<subseteq> F"
      "kpool h (F - block t DEV_BLOCK)" "t \<notin> set ys" .
  let ?F = "F - block t DEV_BLOCK"
  let ?x = "(s_lwt s t)\<lparr>l_state := RUNNABLE, l_ip := IpNull, l_sp := NULL, l_tid := lwt_tid_counter s\<rparr>"
  define s' where "s' = (set_kid t (cos_thdid k) (s\<lparr>s_lwt := (s_lwt s)(t := ?x)\<rparr>))
     \<lparr>s_kheap := h, current_thread := t, s_links := ps_list_ll_init t (s_links s),
      lwt_tid_counter := lwt_tid_counter s + 1, n_runnable := n_runnable s + 1\<rparr>"
  have "dev_lwt_init k s = Inr s'"
    using t(1,2) by (simp add: dev_lwt_init_def Let_def s'_def set_kid_def upd_lwt_def)
  moreover have "mem_ok s' ?F n [t] ys"
    unfolding mem_ok_def
  proof (intro conjI impI allI)
    show "kpool (s_kheap s') ?F" using t(4) by (simp add: s'_def)
    show "room ?F (DEV_BLOCK * int n)" if n: "0 < n"
    proof -
      have "0 < DEV_BLOCK * int (Suc n)" by (simp add: D)
      then have "kfits (s_kheap s) (DEV_BLOCK + DEV_BLOCK * int n)"
        using d(2) room_fits [OF d(1)] by (simp add: algebra_simps)
      from dev_kalloc_leaves [OF d(1) this dev_pool_sizes(1,2) _ t(1)] n
      have "kfits h (DEV_BLOCK * int n)" by (simp add: D)
      then show ?thesis using room_fits [OF t(4)] n by (simp add: D)
    qed
    show "spaced ?F ([t] @ ys)"
    proof -
      have "block u DEV_BLOCK \<inter> block t DEV_BLOCK = {}" if "u \<in> set ys" for u
        using d(3) t(3) that unfolding spaced_def by auto
      then show ?thesis using d(3) t(2) unfolding spaced_def by (auto simp del: mem_block)
    qed
    show "ring (s_links s') [t]" using ring_init by (simp add: s'_def del: ring.simps)
    show "ring (s_links s') ys" if "ys \<noteq> []"
      using ring_init_other [OF d(6) [OF that] t(5)] by (simp add: s'_def)
  qed (use d(4,7,8) t(5) in \<open>simp_all add: s'_def set_kid_def\<close>)
  moreover have "apart_from ys s s'" using t(5) by (auto simp: apart_from_def s'_def set_kid_def)
  ultimately show thesis
    by (rule that [of s' ?F t ?x]) (simp_all add: s'_def set_kid_def)
qed

text \<open>The start of a kernel thread: a ring of its own thread and of one that runs the function.\<close>

lemma start_step:
  assumes "mem_ok s F (Suc (Suc n)) [] ys" and "kp \<noteq> NULL"
  obtains m w s' F' where "kthd_start k kp s = Inr (w, s')" and "mem_ok s' F' n [m, w] ys"
    and "\<forall>u\<in>set ys. s_lwt s' u = s_lwt s u" and "s_kern s' = s_kern s"
    and "s_kp s' = (s_kp s)(kp := (s_kp s kp)\<lparr>kp_lwt := m\<rparr>)"
    and "ready s' m" and "ready s' w" and "l_flag (s_lwt s' w) = LWT_NOJOIN" and "l_ip (s_lwt s' w) = Trampoline"
    and "l_fn (s_lwt s' w) = kp_fn (s_kp s kp)" and "l_data (s_lwt s' w) = kp_c (s_kp s kp)"
proof -
  obtain m s1 F1 x where s1: "dev_lwt_init k s = Inr s1" "mem_ok s1 F1 (Suc n) [m] ys" "apart_from ys s s1"
    "current_thread s1 = m" "s_lwt s1 = (s_lwt s)(m := x)" "l_state x = RUNNABLE"
    by (rule init_step [OF assms(1)])
  define s2 where "s2 = s1\<lparr>s_kp := (s_kp s1)(kp := (s_kp s1 kp)\<lparr>kp_lwt := m\<rparr>)\<rparr>"
  have k1: "s_kern s1 = s_kern s" "s_kp s1 = s_kp s" using s1(3) more_sel unfolding apart_from_def by blast+
  have m2: "mem_ok s2 F1 (Suc n) (m # []) ys" using s1(2) by (simp add: mem_ok_def s2_def)
  have c2: "current_thread s2 = m" using s1(4) by (simp add: s2_def)
  obtain w s' F' where s': "dev_lwt_create (kp_fn (s_kp s2 kp)) (kp_c (s_kp s2 kp)) LWT_NOJOIN s2 = Inr (w, s')"
    "mem_ok s' F' n (m # [] @ [w]) ys" "apart_from ys s2 s'" "w \<notin> set (m # [])"
    "s_lwt s' = (s_lwt s2)(w := dev_fresh_lwt w (kp_fn (s_kp s2 kp)) (kp_c (s_kp s2 kp)) LWT_NOJOIN s2)"
    by (rule kthd_create_step [OF m2 c2])
  have k': "s_kern s' = s_kern s" "s_kp s' = (s_kp s)(kp := (s_kp s kp)\<lparr>kp_lwt := m\<rparr>)"
    using s'(3) more_sel [of s' s2] k1 by (simp_all add: apart_from_def s2_def)
  have "kthd_start k kp s = Inr (w, s')"
    using s1(1,4) s'(1) assms(2) by (simp add: kthd_start_def s2_def Let_def)
  moreover have "mem_ok s' F' n [m, w] ys" using s'(2) by simp
  moreover have "\<forall>u\<in>set ys. s_lwt s' u = s_lwt s u"
    using s1(3) s'(3) by (simp add: apart_from_def s2_def)
  ultimately show thesis
    by (rule that [OF _ _ _ k']) (use s'(4,5) s1(5,6) k1 in \<open>simp_all add: s2_def dev_fresh_lwt_def\<close>)
qed

subsection \<open>What the scheduler does\<close>

definition same_caps :: "sl_sys \<Rightarrow> sl_sys \<Rightarrow> bool" where
  "same_caps s s' \<longleftrightarrow> (\<forall>x. t_thdcap (sl_threads s' x) = t_thdcap (sl_threads s x))"

lemma target_same_caps:
  assumes "sl_view N s T q" and "u \<in> T" and "same_caps s s'"
  shows "target N s' (switched s u w) v \<longleftrightarrow> v = u"
proof
  have u: "u < N" "t_thdcap (sl_threads s u) \<noteq> 0" using assms(1,2) by (auto simp: sl_view_def)
  then show "v = u \<Longrightarrow> target N s' (switched s u w) v"
    using assms(3) by (simp add: target_def switched_def same_caps_def)
  assume "target N s' (switched s u w) v"
  then have "v < N" "t_thdcap (sl_threads s v) = t_thdcap (sl_threads s u)"
    using assms(3) by (simp_all add: target_def switched_def same_caps_def)
  with u assms(1) show "v = u" by (auto simp: sl_view_def dest: inj_onD)
qed

lemma view_block:
  assumes "sl_view N s T q" and "kernel_as N t k" and "t \<in> T" and "st s t = SL_THD_RUNNABLE"
    and "top_thread (dequeued t q) u"
  obtains s' w where "sl_thd_block k 0 s = Inr (SlSwitched, [switched s u w], s')"
    and "sl_view N s' T (dequeued t q)" and "same_caps s s'"
    and "f_priority (sl_policy s') = f_priority (sl_policy s)" and "sched_thd s' = sched_thd s"
    and "st s' t = SL_THD_BLOCKED" and "\<forall>x. x \<noteq> t \<longrightarrow> sl_threads s' x = sl_threads s x"
proof -
  note v = sl_viewD [OF assms(1)]
  note run = v(5) [OF assms(2,3)]
  let ?s0 = "s\<lparr>cs_owner := t_thdcap (sl_threads s t)\<rparr>"
  let ?s1 = "upd_thd t (\<lambda>x. x\<lparr>t_state := SL_THD_BLOCKED\<rparr>) ?s0"
  let ?s2 = "?s1\<lparr>sl_policy := sl_mod_block t (sl_policy ?s1)\<rparr>"
  have bok: "fprr_ok (sl_policy ?s2) T (dequeued t q)" using block_ok [OF v(1) assms(3)] by simp
  have "running k ?s2 T t" "timer_fine k ?s2" "cs_owner ?s2 = t_thdcap (sl_threads ?s2 t)" "\<not> cs_contention ?s2"
    using run v(2) v(6) [OF assms(2)] by (simp_all add: running_def timer_fine_def timer_expired_def unlocked_def)
  from exit_schedule_top [OF bok assms(5) this] obtain n w where
    x: "sl_cs_exit_schedule k ?s2 = Inr (SlSwitched, [Switch (t_thdcap (sl_threads ?s2 u)) (t_prio (sl_threads ?s2 u)) w],
      ?s2\<lparr>timer_next := n, timeout_next := w, cs_owner := 0, cs_contention := False\<rparr>)" "timer_after k ?s2 n"
    by blast
  let ?s3 = "?s2\<lparr>timer_next := n, timeout_next := w, cs_owner := 0, cs_contention := False\<rparr>"
  have "sl_thd_block k 0 s = Inr (SlSwitched, [switched s u w], ?s3)"
    using x(1) assms(4) by (simp add: sl_thd_block_def in_cs_free [OF v(2) run] Let_def
        sl_thd_curr_running [OF run] switched_def)
  moreover have "sl_view N ?s3 T (dequeued t q)"
  proof -
    have "timer_after k s n" using x(2) by (simp add: timer_after_def timer_expired_def)
    with assms(2) have "unat n < 2 ^ 63" unfolding kernel_as_def by (elim conjE) (rule clock_after [OF v(3)])
    moreover have "\<And>x. t_thdcap (sl_threads ?s3 x) = t_thdcap (sl_threads s x)" "sched_thd ?s3 = sched_thd s"
      "idle_thd ?s3 = idle_thd s" "period ?s3 = period s" by (simp_all add: upd_thd_def)
    ultimately show ?thesis using assms(1) bok by (simp add: sl_view_def unlocked_def clock_ok_def inj_on_def)
  qed
  ultimately show thesis
    by (rule that) (simp_all add: same_caps_def sl_mod_block_def upd_thd_def)
qed

text \<open>The outcome of a step that ends with a switch, for every kernel.\<close>

lemma switch_outcome:
  assumes pc: "km_pc M (km_cur M) = Some pc" and v: "sl_view N (s_kern (km_sys M)) T q" and u: "u \<in> T"
    and steps: "\<forall>k. kernel_as N (km_cur M) k \<longrightarrow> (\<exists>w kern. kthd_step k code pc (km_sys M, km_cont M) =
      Inr (pc', Some (SlSwitched, [switched (s_kern (km_sys M)) u w]), (km_sys M)\<lparr>s_kern := kern\<rparr>, km_cont M) \<and>
      same_caps (s_kern (km_sys M)) kern \<and> P kern)"
  shows "\<exists>M'. mown N code M M'"
    and "\<not> mfails N code M e"
    and "mown N code M M' \<Longrightarrow> \<exists>kern. P kern \<and> M' = M\<lparr>km_sys := (km_sys M)\<lparr>s_kern := kern\<rparr>,
      km_pc := (km_pc M)(km_cur M \<mapsto> pc'), km_cur := u\<rparr>"
proof -
  let ?k = "some_env N (km_cur M)"
  note step = steps [rule_format]
  from step [OF some_kernel] obtain w kern where k: "kthd_step ?k code pc (km_sys M, km_cont M) =
      Inr (pc', Some (SlSwitched, [switched (s_kern (km_sys M)) u w]), (km_sys M)\<lparr>s_kern := kern\<rparr>, km_cont M)"
    "same_caps (s_kern (km_sys M)) kern" by blast
  have "target N (s_kern ((km_sys M)\<lparr>s_kern := kern\<rparr>)) (switched (s_kern (km_sys M)) u w) u"
    using target_same_caps [OF v u k(2)] by simp
  from m_switch [OF pc some_kernel k(1) this] show "\<exists>M'. mown N code M M'" by blast
  show "\<not> mfails N code M e"
    unfolding mfails_def using pc step by fastforce
  assume "mown N code M M'"
  then show "\<exists>kern. P kern \<and> M' = M\<lparr>km_sys := (km_sys M)\<lparr>s_kern := kern\<rparr>,
      km_pc := (km_pc M)(km_cur M \<mapsto> pc'), km_cur := u\<rparr>"
  proof (cases rule: mown.cases)
    case (m_stay pc2 k pc3 s c)
    with pc step [OF m_stay(3)] show ?thesis by auto
  next
    case (m_switch pc2 k pc3 sw s c x)
    from step [OF m_switch(3)] pc m_switch(2,4) obtain y kern2 where
      r: "pc3 = pc'" "sw = switched (s_kern (km_sys M)) u y" "s = (km_sys M)\<lparr>s_kern := kern2\<rparr>" "c = km_cont M"
      "same_caps (s_kern (km_sys M)) kern2" "P kern2" by auto
    then have "x = u" using target_same_caps [OF v u r(5)] m_switch(5) by simp
    with r m_switch(1) show ?thesis by (intro exI [of _ kern2]) simp
  qed
qed

text \<open>The outcome of a step that does not.\<close>

lemma stay_outcome:
  assumes pc: "km_pc M (km_cur M) = Some pc"
    and step: "\<And>k. kernel_as N (km_cur M) k \<Longrightarrow> \<exists>pc' s c. kthd_step k code pc (km_sys M, km_cont M) =
      Inr (pc', None, s, c) \<and> P pc' s c"
  shows "\<exists>M'. mown N code M M'"
    and "\<not> mfails N code M e"
    and "mown N code M M' \<Longrightarrow> \<exists>pc' s c. P pc' s c \<and> M' = M\<lparr>km_sys := s, km_cont := c,
      km_pc := (km_pc M)(km_cur M \<mapsto> pc')\<rparr>"
proof -
  from step [OF some_kernel] m_stay [OF pc some_kernel] show "\<exists>M'. mown N code M M'" by blast
  show "\<not> mfails N code M e"
    unfolding mfails_def using pc step by fastforce
  assume "mown N code M M'"
  then show "\<exists>pc' s c. P pc' s c \<and> M' = M\<lparr>km_sys := s, km_cont := c, km_pc := (km_pc M)(km_cur M \<mapsto> pc')\<rparr>"
  proof (cases rule: mown.cases)
    case (m_stay pc2 k pc3 s c)
    with pc step [OF m_stay(3)] show ?thesis by auto
  next
    case (m_switch pc2 k pc3 sw s c x)
    with pc step [OF m_switch(3)] show ?thesis by auto
  qed
qed

text \<open>An activation of the scheduler's thread switches to the top of the queues.\<close>

lemma mtick_outcome:
  assumes "sl_view N (s_kern (km_sys M)) T q" and "top_thread q u"
  shows "\<exists>M'. mtick N M M'"
    and "mtick N M M' \<Longrightarrow> \<exists>kern. sl_view N kern T q \<and> threads_kept (s_kern (km_sys M)) kern \<and>
      M' = M\<lparr>km_sys := (km_sys M)\<lparr>s_kern := kern\<rparr>, km_cur := u\<rparr>"
proof -
  let ?w = "\<lparr>kw_sys = s_kern (km_sys M), kw_cur = km_cur M, kw_pc = \<lambda>_. 0, kw_out = []\<rparr>"
  have v: "sl_view N (kw_sys ?w) T q" using assms(1) by simp
  note g = tick_goes [OF v assms(2)]
  from g(1) obtain w' where "ktick N ?w w'" by blast
  then show "\<exists>M'. mtick N M M'"
  proof (cases rule: ktick.cases)
    case (k_tick k evs sw s' x)
    then show ?thesis using m_tick [of N M k evs sw s' x] by auto
  qed
  assume "mtick N M M'"
  then show "\<exists>kern. sl_view N kern T q \<and> threads_kept (s_kern (km_sys M)) kern \<and>
      M' = M\<lparr>km_sys := (km_sys M)\<lparr>s_kern := kern\<rparr>, km_cur := u\<rparr>"
  proof (cases rule: mtick.cases)
    case (m_tick k evs sw kern x)
    have "ktick N ?w (?w\<lparr>kw_sys := kern, kw_cur := x\<rparr>)"
      by (rule k_tick [of N ?w k evs sw kern x]) (use m_tick in simp_all)
    from g(2) [OF this] m_tick(1) show ?thesis by (intro exI [of _ kern]) (simp add: goes_def)
  qed
qed

end
