(* ===== verification/TestKthdLwt.thy ===== *)
theory TestKthdLwt
  imports KthdRuns
begin

text \<open>
  \<open>test_kthd_local_remote_yield\<close> of \<open>unit_schedlib.c\<close>: two kernel threads, each with a light-weight
  thread that yields \<open>ITER + 4\<close> times; the second one's creates another one at its end. The
  functions return nothing: \<open>junk\<close> is what their caller reads. \<open>pl\<close> is a local variable, an argument of
  what follows its assignment.
\<close>

subsection \<open>The code\<close>

definition UNIT_ITER :: nat where
  "UNIT_ITER = 10000"

definition FN_KTHD1 :: addr where "FN_KTHD1 = 21"
definition FN_KTHD2 :: addr where "FN_KTHD2 = 22"
definition FN_KTHD_NULL :: addr where "FN_KTHD_NULL = 23"

fun pl_loop :: "nat \<Rightarrow> int \<Rightarrow> int \<Rightarrow> (int \<Rightarrow> kprog) \<Rightarrow> kprog" where
  "pl_loop 0 step pl p = p pl"
| "pl_loop (Suc n) step pl p = Yield NULL (pl_loop n step (pl + step) p)"

definition kthd_fn_kthd1 :: "addr \<Rightarrow> kprog" where
  "kthd_fn_kthd1 junk =
     Yield NULL (Yield NULL (pl_loop UNIT_ITER (-1) (int UNIT_ITER) (\<lambda>pl.
     Yield NULL (Yield NULL (Check (\<lambda>_ _. pl = 0) (Done junk))))))"

definition kthd_fn_kthd2 :: "addr \<Rightarrow> kprog" where
  "kthd_fn_kthd2 junk =
     Yield NULL (Yield NULL (pl_loop UNIT_ITER 1 0 (\<lambda>pl.
     Yield NULL (Yield NULL (Check (\<lambda>_ _. pl = int UNIT_ITER)
       (Create FN_KTHD1 NULL LWT_DEFAULT (\<lambda>_. Done junk)))))))"

definition kthd_fn_null :: "addr \<Rightarrow> kprog" where
  "kthd_fn_null d = Done NULL"

definition kthd_code :: "addr \<Rightarrow> kcode" where
  "kthd_code junk f d =
     (if f = FN_KTHD1 then kthd_fn_kthd1 junk else if f = FN_KTHD2 then kthd_fn_kthd2 junk
      else if f = FN_KTHD_NULL then kthd_fn_null d else Crash)"

text \<open>The parameter block that \<open>lwt_kthd_create\<close> takes from the pool is the argument of the new
  thread's \<open>__kthd_entry\<close>. The result lists the threads with their arguments.\<close>

definition param_block :: "kthd_sys \<Rightarrow> addr" where
  "param_block s = (case dev_kalloc (s_kheap s) SIZEOF_KTHD_PARAM of Inl _ \<Rightarrow> NULL | Inr (kp, _) \<Rightarrow> kp)"

definition test_kthd_local_remote_yield :: "cos_env \<Rightarrow> (nat \<Rightarrow> nat \<times> nat) \<Rightarrow> kthd_sys \<Rightarrow>
    ((nat \<times> addr) list \<times> kthd_sys) result" where
  "test_kthd_local_remote_yield k news s =
     rbind (lwt_kthd_create k (fst (news 0)) (snd (news 0)) FN_KTHD1 NULL s) (\<lambda>(r, s1).
     rbind (assertion (0 = r)) (\<lambda>_.
     rbind (lwt_kthd_create k (fst (news 1)) (snd (news 1)) FN_KTHD2 NULL s1) (\<lambda>(r, s2).
     rbind (assertion (0 = r)) (\<lambda>_.
       Inr ([(snd (news 0), param_block s), (snd (news 1), param_block s1)], s2)))))"

fun kthd_create_loop :: "cos_env \<Rightarrow> (nat \<Rightarrow> nat \<times> nat) \<Rightarrow> nat \<Rightarrow> nat \<Rightarrow> kthd_sys \<Rightarrow> kthd_sys result" where
  "kthd_create_loop k news i 0 s = Inr s"
| "kthd_create_loop k news i (Suc n) s =
     rbind (lwt_kthd_create k (fst (news i)) (snd (news i)) FN_KTHD_NULL NULL s) (\<lambda>(_, s1).
       kthd_create_loop k news (Suc i) n s1)"

definition test_kthd_create :: "cos_env \<Rightarrow> (nat \<Rightarrow> nat \<times> nat) \<Rightarrow> kthd_sys \<Rightarrow> kthd_sys result" where
  "test_kthd_create k news s = kthd_create_loop k news 0 50 s"

text \<open>
  \<open>cos_init\<close> from \<open>sl_init\<close> up to the first test of kernel threads. What \<open>cos_init\<close> does before is left
  out: \<open>kinit\<close> and \<open>lwt_init\<close> (\<open>cos_init_lwt\<close> in \<open>TestThreadsDev\<close>), and \<open>lwt_test_entry\<close>, whose joins and
  stacks leave words in the free memory that later become fields \<open>joinedfrom\<close>. The property below is
  about memory in which those words are null, as when the call of \<open>lwt_test_entry\<close> is taken out.
\<close>

definition cos_init_kthds :: "cos_env \<Rightarrow> u64 \<Rightarrow> nat \<Rightarrow> nat \<Rightarrow> nat \<Rightarrow> (nat \<Rightarrow> nat \<times> nat) \<Rightarrow> kthd_sys \<Rightarrow>
    ((nat \<times> addr) list \<times> kthd_sys) result" where
  "cos_init_kthds k cyc bootcap icap itid news s =
     rbind (sl_init k cyc bootcap icap itid (s_kern s)) (\<lambda>kern.
       test_kthd_local_remote_yield k news (s\<lparr>s_kern := kern\<rparr>))"

definition mstart :: "(nat \<times> addr) list \<Rightarrow> kthd_sys \<Rightarrow> kmach" where
  "mstart ts s = \<lparr>km_sys = s, km_cont = (\<lambda>_. Crash), km_cur = sched_thd (s_kern s),
     km_pc = map_of (map (\<lambda>(t, kp). (t, KEntry kp)) ts)\<rparr>"

subsection \<open>What is left to do\<close>

fun yields_of :: "nat \<Rightarrow> kprog \<Rightarrow> kprog" where
  "yields_of 0 p = p"
| "yields_of (Suc n) p = Yield NULL (yields_of n p)"

lemma yields_of_add: "yields_of m (yields_of n p) = yields_of (m + n) p"
  by (induction m) simp_all

lemma pl_loop_yields: "pl_loop n d pl p = yields_of n (p (pl + int n * d))"
  by (induction n arbitrary: pl) (simp_all add: algebra_simps)

abbreviation YIELDS :: nat where
  "YIELDS \<equiv> UNIT_ITER + 4"

definition finale :: "addr \<Rightarrow> bool \<Rightarrow> kprog" where
  "finale junk sp = (if sp then Create FN_KTHD1 NULL LWT_DEFAULT (\<lambda>_. Done junk) else Done junk)"

definition job :: "addr \<Rightarrow> nat \<Rightarrow> bool \<Rightarrow> kprog" where
  "job junk r sp = yields_of r (Check (\<lambda>_ _. True) (finale junk sp))"

lemma job_simps: "job junk 0 sp = Check (\<lambda>_ _. True) (finale junk sp)"
  "job junk (Suc r) sp = Yield NULL (job junk r sp)"
  by (simp_all add: job_def)

lemma kthd_fns: "kthd_fn_kthd1 junk = job junk YIELDS False" "kthd_fn_kthd2 junk = job junk YIELDS True"
proof -
  have y: "Yield NULL (Yield NULL (yields_of n (Yield NULL (Yield NULL p)))) = yields_of (n + 4) p" for n p
  proof -
    have "Yield NULL (Yield NULL (yields_of n (Yield NULL (Yield NULL p)))) = yields_of 2 (yields_of n (yields_of 2 p))"
      by (simp add: numeral_2_eq_2)
    also have "\<dots> = yields_of (2 + (n + 2)) p" by (simp only: yields_of_add)
    also have "2 + (n + 2) = n + 4" by simp
    finally show ?thesis .
  qed
  show "kthd_fn_kthd1 junk = job junk YIELDS False" "kthd_fn_kthd2 junk = job junk YIELDS True"
    by (simp_all add: kthd_fn_kthd1_def kthd_fn_kthd2_def pl_loop_yields y job_def finale_def)
qed

text \<open>
  What a kernel thread has before it: it has not started; its light-weight thread has \<open>r\<close> yields
  left, and creates another one at its end (\<open>sp\<close>) or not; it has blocked. \<open>work r sp\<close> and \<open>job_left\<close> count the
  steps left, \<open>job_need\<close> the threads it will still allocate.
\<close>

datatype kjob = Unborn bool | Work nat bool lwt_flags | Over

fun work :: "nat \<Rightarrow> bool \<Rightarrow> nat" where
  "work r False = 3 * r + 4"
| "work r True = 3 * r + 5 + (3 * YIELDS + 4)"

fun job_left :: "kjob \<Rightarrow> nat" where
  "job_left (Unborn sp) = Suc (work YIELDS sp)"
| "job_left (Work r sp fl) = work r sp"
| "job_left Over = 0"

fun job_need :: "kjob \<Rightarrow> nat" where
  "job_need (Unborn sp) = (if sp then 3 else 2)"
| "job_need (Work r sp fl) = (if sp then 1 else 0)"
| "job_need Over = 0"

fun job_pc :: "addr \<Rightarrow> kjob \<Rightarrow> kpc" where
  "job_pc kp (Unborn sp) = KEntry kp"
| "job_pc kp (Work r sp fl) = KTurn kp"
| "job_pc kp Over = KTurn kp"

text \<open>A kernel thread between two turns, with the ring \<open>xs\<close>.\<close>

definition pending :: "kcode \<Rightarrow> (addr \<Rightarrow> kprog) \<Rightarrow> kthd_sys \<Rightarrow> addr \<Rightarrow> kprog" where
  "pending code c s w =
     (if l_ip (s_lwt s w) = Trampoline then code (l_fn (s_lwt s w)) (l_data (s_lwt s w)) else c w)"

definition pair :: "kthd_sys \<Rightarrow> addr \<Rightarrow> addr \<Rightarrow> addr \<Rightarrow> lwt_flags \<Rightarrow> bool" where
  "pair s kp m w fl \<longleftrightarrow> kp_lwt (s_kp s kp) = m \<and> ready s m \<and> ready s w \<and> l_flag (s_lwt s w) = fl"

fun resting :: "addr \<Rightarrow> (addr \<Rightarrow> kprog) \<Rightarrow> kthd_sys \<Rightarrow> addr \<Rightarrow> addr list \<Rightarrow> kjob \<Rightarrow> bool" where
  "resting junk c s kp xs (Unborn sp) \<longleftrightarrow> xs = [] \<and> kp_fn (s_kp s kp) = (if sp then FN_KTHD2 else FN_KTHD1)"
| "resting junk c s kp xs (Work r sp fl) \<longleftrightarrow> (\<exists>m w. xs = [m, w] \<and> pair s kp m w fl \<and>
     pending (kthd_code junk) c s w = job junk r sp \<and> (sp \<longrightarrow> fl = LWT_NOJOIN))"
| "resting junk c s kp xs Over \<longleftrightarrow> True"

lemma resting_frame:
  assumes "resting junk c s kp xs jb" and "s_kp s' kp = s_kp s kp"
    and "\<forall>u\<in>set xs. s_lwt s' u = s_lwt s u \<and> c' u = c u"
  shows "resting junk c' s' kp xs jb"
  using assms by (cases jb) (auto simp: pair_def pending_def)

text \<open>\<open>busy junk c s kp xs pc l nd\<close>: the running kernel thread is at \<open>pc\<close>, with \<open>l\<close> steps left and \<open>nd\<close> threads
  to allocate.\<close>

inductive busy :: "addr \<Rightarrow> (addr \<Rightarrow> kprog) \<Rightarrow> kthd_sys \<Rightarrow> addr \<Rightarrow> addr list \<Rightarrow> kpc \<Rightarrow> nat \<Rightarrow> nat \<Rightarrow> bool"
  for junk :: addr and c :: "addr \<Rightarrow> kprog" and s :: kthd_sys and kp :: addr
where
  b_home: "resting junk c s kp xs jb \<Longrightarrow> jb \<noteq> Over \<Longrightarrow>
    busy junk c s kp xs (job_pc kp jb) (job_left jb) (job_need jb)"
| b_run: "pair s kp m w fl \<Longrightarrow> current_thread s = w \<Longrightarrow> sp \<longrightarrow> fl = LWT_NOJOIN \<Longrightarrow> Suc l = work r sp \<Longrightarrow>
    busy junk c s kp [w, m] (KRun kp (job junk r sp)) l (if sp then 1 else 0)"
| b_checked: "pair s kp m w fl \<Longrightarrow> current_thread s = w \<Longrightarrow> sp \<longrightarrow> fl = LWT_NOJOIN \<Longrightarrow>
    Suc (Suc l) = work 0 sp \<Longrightarrow> busy junk c s kp [w, m] (KRun kp (finale junk sp)) l (if sp then 1 else 0)"
| b_spawned: "pair s kp m w LWT_NOJOIN \<Longrightarrow> current_thread s = w \<Longrightarrow> pair s kp m t LWT_DEFAULT \<Longrightarrow>
    pending (kthd_code junk) c s t = job junk YIELDS False \<Longrightarrow> l = work YIELDS False + 2 \<Longrightarrow>
    busy junk c s kp [w, m, t] (KRun kp (Done junk)) l 0"
| b_rest: "resting junk c s kp xs (Work r sp fl) \<Longrightarrow> current_thread s = kp_lwt (s_kp s kp) \<Longrightarrow>
    busy junk c s kp xs (KRest kp) (Suc (work r sp)) (if sp then 1 else 0)"
| b_last: "current_thread s = m \<Longrightarrow> ready s m \<Longrightarrow> \<forall>u\<in>set ds. \<not> ready s u \<Longrightarrow>
    busy junk c s kp (m # ds) (KRest kp) 1 0"

subsection \<open>The steps of one kernel thread\<close>

lemma schedule_null: "dev_lwt_yield NULL s = dev_lwt_schedule s"
  by (simp add: dev_lwt_yield_def dev_lwt_schedule_def)

text \<open>\<open>stays\<close>: a step that ends without a switch of kernel threads.\<close>

definition stays :: "cos_env \<Rightarrow> addr \<Rightarrow> (addr \<Rightarrow> kprog) \<Rightarrow> kthd_sys \<Rightarrow> addr \<Rightarrow> addr list \<Rightarrow> kpc \<Rightarrow> nat \<Rightarrow> nat \<Rightarrow> bool" where
  "stays k junk c s kp ys pc l no \<longleftrightarrow> (\<exists>pc' s' c' F xs nd. kthd_step k (kthd_code junk) pc (s, c) = Inr (pc', None, s', c') \<and>
     busy junk c' s' kp xs pc' l nd \<and> mem_ok s' F (nd + no) xs ys \<and> s_kern s' = s_kern s \<and>
     (\<forall>u\<in>set ys. s_lwt s' u = s_lwt s u \<and> c' u = c u) \<and> (\<forall>q. q \<noteq> kp \<longrightarrow> s_kp s' q = s_kp s q))"

lemma staysI:
  assumes "kthd_step k (kthd_code junk) pc (s, c) = Inr (pc', None, s', c')" and "busy junk c' s' kp xs pc' l nd"
    and "mem_ok s' F (nd + no) xs ys" and "s_kern s' = s_kern s"
    and "\<forall>u\<in>set ys. s_lwt s' u = s_lwt s u \<and> c' u = c u" and "\<forall>q. q \<noteq> kp \<longrightarrow> s_kp s' q = s_kp s q"
  shows "stays k junk c s kp ys pc l no"
  using assms unfolding stays_def by blast

lemma work_pos: "0 < work r sp"
  by (cases sp) simp_all

lemma entry_stays:
  assumes "resting junk c s kp xs (Unborn sp)" and "mem_ok s F ((if sp then 3 else 2) + no) xs ys" and "kp \<noteq> NULL"
  shows "stays k junk c s kp ys (KEntry kp) (work YIELDS sp) no"
proof -
  have xs: "xs = []" "kp_fn (s_kp s kp) = (if sp then FN_KTHD2 else FN_KTHD1)" using assms(1) by simp_all
  have "mem_ok s F (Suc (Suc ((if sp then 1 else 0) + no))) [] ys" using assms(2) xs(1) by (cases sp) (simp_all add: numeral_3_eq_3 numeral_2_eq_2)
  then obtain m w s' F' where st: "kthd_start k kp s = Inr (w, s')" "mem_ok s' F' ((if sp then 1 else 0) + no) [m, w] ys"
    "\<forall>u\<in>set ys. s_lwt s' u = s_lwt s u" "s_kern s' = s_kern s"
    "s_kp s' = (s_kp s)(kp := (s_kp s kp)\<lparr>kp_lwt := m\<rparr>)"
    "ready s' m" "ready s' w" "l_flag (s_lwt s' w) = LWT_NOJOIN" "l_ip (s_lwt s' w) = Trampoline"
    "l_fn (s_lwt s' w) = kp_fn (s_kp s kp)" "l_data (s_lwt s' w) = kp_c (s_kp s kp)"
    by (rule start_step [OF _ assms(3)])
  have "pending (kthd_code junk) c s' w = job junk YIELDS sp"
    using st(9-11) xs(2) by (simp add: pending_def kthd_code_def kthd_fns FN_KTHD1_def FN_KTHD2_def)
  then have "resting junk c s' kp [m, w] (Work YIELDS sp LWT_NOJOIN)" using st(5-8) by (simp add: pair_def)
  from b_home [OF this] have "busy junk c s' kp [m, w] (KTurn kp) (work YIELDS sp) (if sp then 1 else 0)" by simp
  moreover have "kthd_step k (kthd_code junk) (KEntry kp) (s, c) = Inr (KTurn kp, None, s', c)" using st(1) by simp
  ultimately show ?thesis by (intro staysI [OF _ _ st(2,4)]) (use st(3,5) in auto)
qed

lemma turn_stays:
  assumes "resting junk c s kp xs (Work r sp fl)" and "mem_ok s F ((if sp then 1 else 0) + no) xs ys"
    and "Suc l = work r sp"
  shows "stays k junk c s kp ys (KTurn kp) l no"
proof -
  from assms(1) obtain m w where h: "xs = [m, w]" "pair s kp m w fl" "pending (kthd_code junk) c s w = job junk r sp"
    "sp \<longrightarrow> fl = LWT_NOJOIN" by auto
  let ?s = "s\<lparr>current_thread := m\<rparr>"
  have ne: "m \<noteq> w" using mem_okD(4) [OF assms(2)] h(1) by auto
  have "mem_ok ?s F ((if sp then 1 else 0) + no) (m # [] @ w # []) ys" "current_thread ?s = m" "ready ?s w"
    using assms(2) h(1,2) by (simp_all add: mem_ok_def pair_def del: ring.simps)
  then obtain s' where s': "dev_lwt_schedule ?s = Inr (Switched, s')"
    "mem_ok s' F ((if sp then 1 else 0) + no) (w # [] @ m # []) ys" "apart_from ys ?s s'" "current_thread s' = w"
    "eip s' = l_ip (s_lwt ?s w)"
    "s_lwt s' = (s_lwt ?s)(m := (s_lwt ?s m)\<lparr>l_ip := AfterSwitch, l_sp := esp ?s - PUSHAL_BYTES\<rparr>)"
    using schedule_step [of ?s F _ m "[]" w "[]" ys] by auto
  have more: "s_kern s' = s_kern s" "s_kp s' = s_kp s" using s'(3) more_sel [of s' ?s] by (simp_all add: apart_from_def)
  have "arrive (kthd_code junk) \<lparr>w_sys = s', w_glob = (), w_cont = c\<rparr> = job junk r sp"
    using s'(4-6) h(3) ne by (simp add: arrive_def Let_def pending_def split: if_splits)
  moreover have "kp_lwt (s_kp s' kp) = m" using more(2) h(2) by (simp add: pair_def)
  ultimately have "kthd_step k (kthd_code junk) (KTurn kp) (s, c) = Inr (KRun kp (job junk r sp), None, s', c)"
    using s'(1,4) ne h(2) by (simp add: kthd_turn_def pair_def kland_def)
  moreover have "pair s' kp m w fl" using h(2) s'(6) more(2) ne by (simp add: pair_def)
  from b_run [OF this s'(4) h(4) assms(3)]
  have "busy junk c s' kp [w, m] (KRun kp (job junk r sp)) l (if sp then 1 else 0)" .
  moreover have "mem_ok s' F ((if sp then 1 else 0) + no) [w, m] ys" using s'(2) by simp
  ultimately show ?thesis
    by (intro staysI [OF _ _ _ more(1)]) (use s'(3) more(2) in \<open>auto simp: apart_from_def\<close>)
qed

text \<open>A step of the light-weight thread that goes back to the loop of the kernel thread.\<close>

lemma back_home:
  assumes "kp_lwt (s_kp s' kp) = current_thread s'"
    and "dev_pstep (kthd_code junk) NULL p \<lparr>w_sys = s, w_glob = (), w_cont = c\<rparr> =
      landing (kthd_code junk) kk saved \<lparr>w_sys = s, w_glob = (), w_cont = c\<rparr> (Inr (Switched, s'))"
  shows "kthd_step k (kthd_code junk) (KRun kp p) (s, c) = Inr (KRest kp, None, s', c(current_thread s := saved))"
  using assms by (simp add: landing_def Let_def kland_def)

lemma yield_stays:
  assumes "pair s kp m w fl" and "current_thread s = w" and "sp \<longrightarrow> fl = LWT_NOJOIN" and "Suc l = work (Suc r) sp"
    and "mem_ok s F ((if sp then 1 else 0) + no) [w, m] ys"
  shows "stays k junk c s kp ys (KRun kp (job junk (Suc r) sp)) (l - 1) no"
proof -
  have ne: "w \<noteq> m" "w \<notin> set ys" using mem_okD(4) [OF assms(5)] by auto
  have "mem_ok s F ((if sp then 1 else 0) + no) (w # [] @ m # []) ys" using assms(5) by simp
  moreover have "ready s m" using assms(1) by (simp add: pair_def)
  ultimately obtain s' where s': "dev_lwt_schedule s = Inr (Switched, s')"
    "mem_ok s' F ((if sp then 1 else 0) + no) (m # [] @ w # []) ys" "apart_from ys s s'" "current_thread s' = m"
    "s_lwt s' = (s_lwt s)(w := (s_lwt s w)\<lparr>l_ip := AfterSwitch, l_sp := esp s - PUSHAL_BYTES\<rparr>)"
    using schedule_step [of s F _ w "[]" m "[]" ys] assms(2) by auto
  have more: "s_kern s' = s_kern s" "s_kp s' = s_kp s" using s'(3) more_sel [of s' s] by (simp_all add: apart_from_def)
  have lw: "kp_lwt (s_kp s' kp) = current_thread s'" using more(2) assms(1) s'(4) by (simp add: pair_def)
  have "kthd_step k (kthd_code junk) (KRun kp (job junk (Suc r) sp)) (s, c) =
      Inr (KRest kp, None, s', c(current_thread s := job junk r sp))"
    by (rule back_home [OF lw, where kk = "\<lambda>_. job junk r sp"]) (simp add: job_simps schedule_null s'(1))
  moreover have "resting junk (c(w := job junk r sp)) s' kp [m, w] (Work r sp fl)"
    using assms(1,3) s'(5) more(2) ne(1) by (auto simp: pair_def pending_def)
  from b_rest [OF this lw [symmetric]]
  have "busy junk (c(w := job junk r sp)) s' kp [m, w] (KRest kp) (Suc (work r sp)) (if sp then 1 else 0)" .
  moreover have "l - 1 = Suc (work r sp)" using assms(4) by (cases sp) simp_all
  moreover have "mem_ok s' F ((if sp then 1 else 0) + no) [m, w] ys" using s'(2) by simp
  ultimately show ?thesis using assms(2)
    by (intro staysI [OF _ _ _ more(1)]) (use s'(3) more(2) ne(2) in \<open>auto simp: apart_from_def\<close>)
qed

lemma check_stays:
  assumes "pair s kp m w fl" and "current_thread s = w" and "sp \<longrightarrow> fl = LWT_NOJOIN" and "Suc l = work 0 sp"
    and "mem_ok s F ((if sp then 1 else 0) + no) [w, m] ys"
  shows "stays k junk c s kp ys (KRun kp (job junk 0 sp)) (l - 1) no"
proof -
  have ne: "w \<noteq> m" using mem_okD(4) [OF assms(5)] by auto
  have l: "Suc (Suc (l - 1)) = work 0 sp" using assms(4) by (cases sp) simp_all
  have "current_thread s \<noteq> kp_lwt (s_kp s kp)" using assms(1,2) ne by (simp add: pair_def)
  then have "kthd_step k (kthd_code junk) (KRun kp (job junk 0 sp)) (s, c) = Inr (KRun kp (finale junk sp), None, s, c)"
    by (simp add: job_simps kland_def)
  from staysI [OF this b_checked [OF assms(1-3) l] assms(5)] show ?thesis by simp
qed

lemma spawn_stays:
  assumes "pair s kp m w LWT_NOJOIN" and "current_thread s = w" and "Suc (Suc l) = work 0 True"
    and "mem_ok s F (1 + no) [w, m] ys"
  shows "stays k junk c s kp ys (KRun kp (finale junk True)) (l - 1) no"
proof -
  have m: "mem_ok s F (Suc no) (w # [m]) ys" using assms(4) by simp
  obtain t s' F' where s': "dev_lwt_create FN_KTHD1 NULL LWT_DEFAULT s = Inr (t, s')"
    "mem_ok s' F' no (w # [m] @ [t]) ys" "apart_from ys s s'" "current_thread s' = w" "t \<notin> set (w # [m])"
    "s_lwt s' = (s_lwt s)(t := dev_fresh_lwt t FN_KTHD1 NULL LWT_DEFAULT s)"
    by (rule kthd_create_step [OF m assms(2)])
  have ne: "w \<noteq> m" using mem_okD(4) [OF assms(4)] by auto
  have more: "s_kern s' = s_kern s" "s_kp s' = s_kp s" using s'(3) more_sel [of s' s] by (simp_all add: apart_from_def)
  have "current_thread s' \<noteq> kp_lwt (s_kp s' kp)" using assms(1) s'(4) ne more(2) by (simp add: pair_def)
  then have "kthd_step k (kthd_code junk) (KRun kp (finale junk True)) (s, c) = Inr (KRun kp (Done junk), None, s', c)"
    using s'(1) by (simp add: finale_def kland_def)
  moreover have "pair s' kp m w LWT_NOJOIN" "pair s' kp m t LWT_DEFAULT"
    using assms(1) s'(5,6) more(2) by (simp_all add: pair_def dev_fresh_lwt_def)
  moreover have "pending (kthd_code junk) c s' t = job junk YIELDS False"
    using s'(6) by (simp add: pending_def dev_fresh_lwt_def kthd_code_def kthd_fns)
  moreover have "l - 1 = work YIELDS False + 2" using assms(3) by simp
  ultimately have "kthd_step k (kthd_code junk) (KRun kp (finale junk True)) (s, c) = Inr (KRun kp (Done junk), None, s', c)"
    "busy junk c s' kp [w, m, t] (KRun kp (Done junk)) (l - 1) 0"
    using b_spawned s'(4) by blast+
  moreover have "mem_ok s' F' (0 + no) [w, m, t] ys" using s'(2) by simp
  ultimately show ?thesis
    by (intro staysI [OF _ _ _ more(1)]) (use s'(3) more(2) in \<open>auto simp: apart_from_def\<close>)
qed

lemma die_spawned_stays:
  assumes "pair s kp m w LWT_NOJOIN" and "current_thread s = w" and "pair s kp m t LWT_DEFAULT"
    and "pending (kthd_code junk) c s t = job junk YIELDS False" and "l = work YIELDS False + 2"
    and "mem_ok s F no [w, m, t] ys"
  shows "stays k junk c s kp ys (KRun kp (Done junk)) (l - 1) no"
proof -
  have ne: "w \<noteq> m" "w \<noteq> t" "w \<notin> set ys" "w \<noteq> NULL"
    using mem_okD(3,4) [OF assms(6)] by (auto simp: spaced_def simp del: mem_block)
  obtain s' F' where s': "dev_lwt_die junk s = Inr (Switched, s')" "mem_ok s' F' no (m # [t]) ys"
    "apart_from ys s s'" "current_thread s' = m"
    "s_lwt s' = (s_lwt s)(w := (s_lwt s w)\<lparr>l_ip := AfterSwitch, l_sp := esp s - PUSHAL_BYTES\<rparr>)"
    by (rule nojoin_death_step [OF assms(6,2)]) (use assms(1) in \<open>simp_all add: pair_def\<close>)
  have more: "s_kern s' = s_kern s" "s_kp s' = s_kp s" using s'(3) more_sel [of s' s] by (simp_all add: apart_from_def)
  have lw: "kp_lwt (s_kp s' kp) = current_thread s'" using more(2) assms(1) s'(4) by (simp add: pair_def)
  have "kthd_step k (kthd_code junk) (KRun kp (Done junk)) (s, c) =
      Inr (KRest kp, None, s', c(current_thread s := Crash))"
    by (rule back_home [OF lw, where kk = "\<lambda>_. Crash"]) (use s'(1) assms(2) ne(4) in simp)
  moreover have "resting junk (c(w := Crash)) s' kp [m, t] (Work YIELDS False LWT_DEFAULT)"
    using assms(3,4) s'(5) more(2) ne by (simp add: pair_def pending_def split: if_splits)
  from b_rest [OF this lw [symmetric]]
  have "busy junk (c(w := Crash)) s' kp [m, t] (KRest kp) (Suc (work YIELDS False)) 0" by simp
  moreover have "l - 1 = Suc (work YIELDS False)" using assms(5) by simp
  moreover have "mem_ok s' F' (0 + no) [m, t] ys" using s'(2) by simp
  ultimately show ?thesis using assms(2)
    by (intro staysI [OF _ _ _ more(1)]) (use s'(3) more(2) ne(3) in \<open>auto simp: apart_from_def\<close>)
qed

lemma die_stays:
  assumes "pair s kp m w fl" and "current_thread s = w" and "mem_ok s F no [w, m] ys"
  shows "stays k junk c s kp ys (KRun kp (Done junk)) 1 no"
proof -
  have ne: "w \<noteq> m" "w \<notin> set ys" "w \<noteq> NULL"
    using mem_okD(3,4) [OF assms(3)] by (auto simp: spaced_def simp del: mem_block)
  have m: "mem_ok s F no (w # m # []) ys" "ready s m" using assms(1,3) by (simp_all add: pair_def)
  obtain s' F' ds x where s': "dev_lwt_die junk s = Inr (Switched, s')" "mem_ok s' F' no (m # ds) ys"
    "apart_from ys s s'" "current_thread s' = m" "ready s' m" "\<forall>u\<in>set ds. \<not> ready s' u"
  proof (cases fl)
    case LWT_NOJOIN
    with assms(1) have fl: "l_flag (s_lwt s w) = LWT_NOJOIN" by (simp add: pair_def)
    show thesis
      by (rule nojoin_death_step [OF m(1) assms(2) m(2) fl, of junk]) (use ne(1) m(2) in \<open>auto intro: that\<close>)
  next
    case LWT_DEFAULT
    with assms(1) have fl: "l_flag (s_lwt s w) = LWT_DEFAULT" by (simp add: pair_def)
    obtain s' x where d: "dev_lwt_die junk s = Inr (Switched, s')" "mem_ok s' F no (m # [] @ [w]) ys"
      "apart_from ys s s'" "current_thread s' = m" "s_lwt s' = (s_lwt s)(w := x)" "l_state x = DEAD"
      by (rule default_death_step [OF m(1) assms(2) m(2) fl])
    show thesis by (rule that [of s' F "[w]"]) (use d m(2) ne(1) in simp_all)
  qed
  have more: "s_kern s' = s_kern s" "s_kp s' = s_kp s" using s'(3) more_sel [of s' s] by (simp_all add: apart_from_def)
  have lw: "kp_lwt (s_kp s' kp) = current_thread s'" using more(2) assms(1) s'(4) by (simp add: pair_def)
  have "kthd_step k (kthd_code junk) (KRun kp (Done junk)) (s, c) =
      Inr (KRest kp, None, s', c(current_thread s := Crash))"
    by (rule back_home [OF lw, where kk = "\<lambda>_. Crash"]) (use s'(1) assms(2) ne(3) in simp)
  moreover note b_last [OF s'(4-6)]
  moreover have "mem_ok s' F' (0 + no) (m # ds) ys" using s'(2) by simp
  ultimately show ?thesis using assms(2)
    by (intro staysI [OF _ _ _ more(1)]) (use s'(3) more(2) ne(2) in \<open>auto simp: apart_from_def\<close>)
qed

text \<open>Together: until the rest of a turn, a step is possible and brings the kernel thread nearer to its end.\<close>

lemma busy_stays:
  assumes "busy junk c s kp xs pc l nd" and "mem_ok s F (nd + no) xs ys" and "kp \<noteq> NULL" and "\<forall>q. pc \<noteq> KRest q"
  shows "0 < l \<and> stays k junk c s kp ys pc (l - 1) no"
  using assms(1)
proof cases
  case (b_home jb)
  show ?thesis
  proof (cases jb)
    case (Unborn sp)
    with b_home assms(2,3) entry_stays [of junk c s kp xs sp F no ys k] show ?thesis by simp
  next
    case (Work r sp fl)
    obtain l' where l': "work r sp = Suc l'" using work_pos [of r sp] by (cases "work r sp") auto
    have "stays k junk c s kp ys (KTurn kp) l' no"
      by (rule turn_stays [of junk c s kp xs r sp fl F no ys l']) (use b_home Work assms(2) l' in simp_all)
    with b_home Work l' show ?thesis by simp
  qed (use b_home in simp)
next
  case (b_run m w fl sp r)
  show ?thesis
  proof (cases r)
    case 0
    with b_run check_stays [of s kp m w fl sp l F no ys k junk c] assms(2) show ?thesis by (cases sp) auto
  next
    case (Suc r')
    with b_run yield_stays [of s kp m w fl sp l r' F no ys k junk c] assms(2) show ?thesis by (cases sp) auto
  qed
next
  case (b_checked m w fl sp)
  show ?thesis
  proof (cases sp)
    case True
    with b_checked spawn_stays [of s kp m w l F no ys k junk c] assms(2) show ?thesis by simp
  next
    case False
    with b_checked die_stays [of s kp m w fl F no ys k junk c] assms(2) show ?thesis by (simp add: finale_def)
  qed
next
  case (b_spawned m w t)
  with die_spawned_stays [of s kp m w t junk c l F no ys k] assms(2) show ?thesis by simp
qed (use assms(4) in auto)

text \<open>The rest of a turn: the kernel thread yields while there is a RUNNABLE thread in its ring, and blocks
  when there is none.\<close>

lemma busy_rests:
  assumes "busy junk c s kp xs (KRest kp) l nd" and "mem_ok s F (nd + no) xs ys"
  shows "(\<exists>r sp fl. resting junk c s kp xs (Work r sp fl) \<and> l = Suc (work r sp) \<and> nd = job_need (Work r sp fl) \<and>
      (\<forall>k. kthd_step k (kthd_code junk) (KRest kp) (s, c) =
        rbind (sl_thd_yield k 0 (s_kern s)) (\<lambda>(o1, ws, kern). Inr (KTurn kp, Some (o1, ws), s\<lparr>s_kern := kern\<rparr>, c)))) \<or>
    (l = 1 \<and> nd = 0 \<and> (\<forall>k. kthd_step k (kthd_code junk) (KRest kp) (s, c) =
        rbind (sl_thd_block k 0 (s_kern s)) (\<lambda>(o1, ws, kern). Inr (KTurn kp, Some (o1, ws), s\<lparr>s_kern := kern\<rparr>, c))))"
  using assms(1)
proof cases
  case (b_home jb)
  then show ?thesis by (cases jb) simp_all
next
  case (b_rest r sp fl)
  then obtain m w where h: "xs = [m, w]" "pair s kp m w fl" by auto
  have "runq s (m # [w])" "ready s m" "ready s w"
    using b_rest h mem_okD(5) [OF assms(2)] by (simp_all add: runq_def pair_def del: ring.simps)
  from kthd_blocks_only_when_idle [OF this(1,2)] this(3) have
    "kthd_step k (kthd_code junk) (KRest kp) (s, c) =
      rbind (sl_thd_yield k 0 (s_kern s)) (\<lambda>(o1, ws, kern). Inr (KTurn kp, Some (o1, ws), s\<lparr>s_kern := kern\<rparr>, c))"
    for k by (cases "sl_thd_yield k 0 (s_kern s)") auto
  with b_rest show ?thesis
    by (intro disjI1 exI [of _ r] exI [of _ sp] exI [of _ fl] conjI) (assumption | simp)+
next
  case (b_last m ds)
  have "runq s (m # ds)" using b_last mem_okD(5) [OF assms(2)] by (simp add: runq_def del: ring.simps)
  from kthd_blocks_only_when_idle [OF this] b_last have
    "kthd_step k (kthd_code junk) (KRest kp) (s, c) =
      rbind (sl_thd_block k 0 (s_kern s)) (\<lambda>(o1, ws, kern). Inr (KTurn kp, Some (o1, ws), s\<lparr>s_kern := kern\<rparr>, c))"
    for k by (cases "sl_thd_block k 0 (s_kern s)") auto
  with b_last show ?thesis by simp
qed

subsection \<open>The whole machine\<close>

text \<open>\<open>kinv\<close>: after \<open>n\<close> steps the kernel thread \<open>r\<close> is at the head of the queue and \<open>v\<close>, between two turns, behind
  it or blocked. The steps done and those left make up \<open>TOTAL\<close>.\<close>

definition TOTAL :: nat where
  "TOTAL = job_left (Unborn False) + job_left (Unborn True)"

lemma TOTAL_eq: "TOTAL = 90051"
  by (simp add: TOTAL_def UNIT_ITER_def)

definition at_turn :: "addr \<Rightarrow> nat \<Rightarrow> (nat \<Rightarrow> addr) \<Rightarrow> nat \<Rightarrow> nat \<Rightarrow> kjob \<Rightarrow> kmach \<Rightarrow> bool" where
  "at_turn junk N kp r v jo M \<longleftrightarrow> (let s = s_kern (km_sys M) in
     r \<noteq> v \<and> sl_view N s {r, v} (at_10 (if jo = Over then [r] else [r, v])) \<and>
     f_priority (sl_policy s) r = 10 \<and> f_priority (sl_policy s) v = 10 \<and> sched_thd s \<notin> {r, v} \<and>
     st s r = SL_THD_RUNNABLE \<and> st s v = (if jo = Over then SL_THD_BLOCKED else SL_THD_RUNNABLE) \<and>
     kp r \<noteq> NULL \<and> kp v \<noteq> NULL \<and> kp r \<noteq> kp v \<and> dom (km_pc M) = {r, v} \<and>
     km_pc M v = Some (job_pc (kp v) jo))"

definition in_hand :: "addr \<Rightarrow> (nat \<Rightarrow> addr) \<Rightarrow> nat \<Rightarrow> nat \<Rightarrow> kjob \<Rightarrow> nat \<Rightarrow> kmach \<Rightarrow> bool" where
  "in_hand junk kp r v jo l M \<longleftrightarrow> (\<exists>F xs ys pc nd. km_pc M r = Some pc \<and>
     busy junk (km_cont M) (km_sys M) (kp r) xs pc l nd \<and> resting junk (km_cont M) (km_sys M) (kp v) ys jo \<and>
     mem_ok (km_sys M) F (nd + job_need jo) xs ys)"

definition kinv :: "addr \<Rightarrow> nat \<Rightarrow> (nat \<Rightarrow> addr) \<Rightarrow> nat \<Rightarrow> nat \<Rightarrow> kmach \<Rightarrow> bool" where
  "kinv junk N kp n m M \<longleftrightarrow> (\<exists>r v jo l. at_turn junk N kp r v jo M \<and> in_hand junk kp r v jo l M \<and>
     n + l + job_left jo = TOTAL \<and>
     (if m = 0 then km_cur M = sched_thd (s_kern (km_sys M)) \<and> n = 0 else km_cur M = r))"

lemma kinvI:
  "at_turn junk N kp r v jo M \<Longrightarrow> in_hand junk kp r v jo l M \<Longrightarrow> n + l + job_left jo = TOTAL \<Longrightarrow>
    (if m = 0 then km_cur M = sched_thd (s_kern (km_sys M)) \<and> n = 0 else km_cur M = r) \<Longrightarrow> kinv junk N kp n m M"
  unfolding kinv_def by blast

lemma busy_pos: "busy junk c s kp xs pc l nd \<Longrightarrow> 0 < l"
proof (induction rule: busy.induct)
  case (b_home xs jb)
  then show ?case by (cases jb) (simp_all add: work_pos)
next
  case (b_run m w fl sp l r)
  then show ?case by (cases sp) simp_all
next
  case (b_checked m w fl sp l)
  then show ?case by (cases sp) simp_all
qed simp_all

lemma kinv_short: "kinv junk N kp n m M \<Longrightarrow> n < TOTAL"
  unfolding kinv_def in_hand_def using busy_pos by fastforce

lemma busy_rest_kp:
  assumes "busy junk c s kp xs (KRest q) l nd"
  shows "q = kp"
  using assms
proof cases
  case (b_home jb)
  then show ?thesis by (cases jb) simp_all
qed simp_all

text \<open>The scheduler's state is no part of these.\<close>

lemma resting_kern: "resting junk c s kp xs jb \<Longrightarrow> resting junk c (s\<lparr>s_kern := kern\<rparr>) kp xs jb"
  by (erule resting_frame) simp_all

lemma busy_kern: "busy junk c s kp xs pc l nd \<Longrightarrow> busy junk c (s\<lparr>s_kern := kern\<rparr>) kp xs pc l nd"
proof (induction rule: busy.induct)
  case (b_home xs jb)
  from busy.b_home [OF resting_kern [OF b_home(1)] b_home(2)] show ?case .
next
  case (b_run m w fl sp l r)
  then show ?case by (intro busy.b_run) (simp_all add: pair_def)
next
  case (b_checked m w fl sp l)
  then show ?case by (intro busy.b_checked) (simp_all add: pair_def)
next
  case (b_spawned m w t l)
  then show ?case by (intro busy.b_spawned) (simp_all add: pair_def pending_def split: if_splits)
next
  case (b_rest xs r sp fl)
  from busy.b_rest [OF resting_kern [OF b_rest(1)]] b_rest(2) show ?case by simp
next
  case (b_last m ds)
  then show ?case by (intro busy.b_last) simp_all
qed

lemma mem_ok_kern: "mem_ok s F n xs ys \<Longrightarrow> mem_ok (s\<lparr>s_kern := kern\<rparr>) F n xs ys"
  by (erule mem_ok_cong) simp_all

lemma top_10: "top_thread (at_10 (u # us)) u"
  unfolding top_thread_def by (rule exI [of _ 10]) (simp add: at_10_def SL_FPRR_NPRIOS_def)

lemma at_10_moves:
  "r \<noteq> v \<Longrightarrow> dequeued r (at_10 [r, v]) = at_10 [v]"
  "r \<noteq> v \<Longrightarrow> enqueued 10 r (dequeued r (at_10 [r, v])) = at_10 [v, r]"
  "enqueued 10 r (dequeued r (at_10 [r])) = at_10 [r]"
  by (auto simp: dequeued_def enqueued_def at_10_def fun_eq_iff)

subsection \<open>Its steps\<close>

lemma kinv_tick:
  assumes "kinv junk N kp n m M"
  shows "\<exists>M'. mtick N M M'" and "mtick N M M' \<Longrightarrow> kinv junk N kp n (Suc m) M'"
proof -
  from assms obtain r v jo l where a: "at_turn junk N kp r v jo M" "in_hand junk kp r v jo l M"
    "n + l + job_left jo = TOTAL" unfolding kinv_def by blast
  let ?us = "if jo = Over then [r] else [r, v]"
  have v: "sl_view N (s_kern (km_sys M)) {r, v} (at_10 ?us)" using a(1) by (simp add: at_turn_def Let_def)
  have top: "top_thread (at_10 ?us) r" by (simp add: top_10)
  from mtick_outcome(1) [OF v top] show "\<exists>M'. mtick N M M'" .
  assume "mtick N M M'"
  from mtick_outcome(2) [OF v top this] obtain kern where k: "sl_view N kern {r, v} (at_10 ?us)"
    "threads_kept (s_kern (km_sys M)) kern" "M' = M\<lparr>km_sys := (km_sys M)\<lparr>s_kern := kern\<rparr>, km_cur := r\<rparr>" by blast
  from a(2) obtain F xs ys pc nd where h: "km_pc M r = Some pc"
    "busy junk (km_cont M) (km_sys M) (kp r) xs pc l nd" "resting junk (km_cont M) (km_sys M) (kp v) ys jo"
    "mem_ok (km_sys M) F (nd + job_need jo) xs ys" unfolding in_hand_def by blast
  note h' = busy_kern [OF h(2), of kern] resting_kern [OF h(3), of kern] mem_ok_kern [OF h(4), of kern]
  have "at_turn junk N kp r v jo M'"
    using a(1) k by (simp add: at_turn_def Let_def threads_kept_def)
  moreover have "in_hand junk kp r v jo l M'" unfolding in_hand_def using h(1) h' k(3)
    by (intro exI [of _ F] exI [of _ xs] exI [of _ ys] exI [of _ pc] exI [of _ nd]) simp
  ultimately show "kinv junk N kp n (Suc m) M'" by (rule kinvI) (use a(3) k(3) in simp_all)
qed

text \<open>\<open>goes_on\<close>: the running kernel thread can go on, cannot fail, and keeps the invariant. \<open>ends\<close>: it can
  only fail, with the assertion of the policy.\<close>

definition goes_on :: "addr \<Rightarrow> nat \<Rightarrow> (nat \<Rightarrow> addr) \<Rightarrow> nat \<Rightarrow> nat \<Rightarrow> kmach \<Rightarrow> bool" where
  "goes_on junk N kp n m M \<longleftrightarrow> (\<exists>M'. mown N (kthd_code junk) M M') \<and> (\<forall>e. \<not> mfails N (kthd_code junk) M e) \<and>
     (\<forall>M'. mown N (kthd_code junk) M M' \<longrightarrow> kinv junk N kp (Suc n) (Suc m) M')"

definition ends :: "addr \<Rightarrow> nat \<Rightarrow> (nat \<Rightarrow> addr) \<Rightarrow> kmach \<Rightarrow> bool" where
  "ends junk N kp M \<longleftrightarrow> (\<nexists>M'. mown N (kthd_code junk) M M') \<and>
     (\<forall>e. mfails N (kthd_code junk) M e \<longleftrightarrow> e = AssertFail) \<and> km_pc M (km_cur M) = Some (KRest (kp (km_cur M)))"

lemma at_turnD:
  assumes "at_turn junk N kp r v jo M"
  shows "r \<noteq> v" "sl_view N (s_kern (km_sys M)) {r, v} (at_10 (if jo = Over then [r] else [r, v]))"
    "f_priority (sl_policy (s_kern (km_sys M))) r = 10" "f_priority (sl_policy (s_kern (km_sys M))) v = 10"
    "sched_thd (s_kern (km_sys M)) \<notin> {r, v}" "st (s_kern (km_sys M)) r = SL_THD_RUNNABLE"
    "st (s_kern (km_sys M)) v = (if jo = Over then SL_THD_BLOCKED else SL_THD_RUNNABLE)"
    "kp r \<noteq> NULL" "kp v \<noteq> NULL" "kp r \<noteq> kp v" "dom (km_pc M) = {r, v}" "km_pc M v = Some (job_pc (kp v) jo)"
  using assms by (simp_all add: at_turn_def Let_def)

lemma stay_goes_on:
  assumes a: "at_turn junk N kp r v jo M" and cur: "km_cur M = r" and t: "n + l + job_left jo = TOTAL"
    and pc: "km_pc M r = Some pc" "\<forall>q. pc \<noteq> KRest q"
    and b: "busy junk (km_cont M) (km_sys M) (kp r) xs pc l nd" "resting junk (km_cont M) (km_sys M) (kp v) ys jo"
      "mem_ok (km_sys M) F (nd + job_need jo) xs ys"
  shows "goes_on junk N kp n m M"
proof -
  note d = at_turnD [OF a]
  define P where "P pc' s' c' \<longleftrightarrow> (\<exists>F xs nd. busy junk c' s' (kp r) xs pc' (l - 1) nd \<and>
     mem_ok s' F (nd + job_need jo) xs ys \<and> s_kern s' = s_kern (km_sys M) \<and>
     (\<forall>u\<in>set ys. s_lwt s' u = s_lwt (km_sys M) u \<and> c' u = km_cont M u) \<and>
     (\<forall>q. q \<noteq> kp r \<longrightarrow> s_kp s' q = s_kp (km_sys M) q))" for pc' s' c'
  have l: "0 < l" by (rule busy_pos [OF b(1)])
  have step: "\<exists>pc' s c. kthd_step k (kthd_code junk) pc (km_sys M, km_cont M) = Inr (pc', None, s, c) \<and> P pc' s c" for k
  proof -
    have "stays k junk (km_cont M) (km_sys M) (kp r) ys pc (l - 1) (job_need jo)"
      using busy_stays [OF b(1,3) d(8) pc(2)] by blast
    then show ?thesis unfolding stays_def P_def by blast
  qed
  have pcM: "km_pc M (km_cur M) = Some pc" using pc(1) cur by simp
  have keep: "kinv junk N kp (Suc n) (Suc m) M'" if "mown N (kthd_code junk) M M'" for M'
  proof -
    from stay_outcome(3) [of M pc N "kthd_code junk" P, OF pcM step that] obtain pc' s' c' where
      p: "P pc' s' c'" "M' = M\<lparr>km_sys := s', km_cont := c', km_pc := (km_pc M)(km_cur M \<mapsto> pc')\<rparr>" by blast
    from p(1) obtain F' xs' nd' where q: "busy junk c' s' (kp r) xs' pc' (l - 1) nd'"
      "mem_ok s' F' (nd' + job_need jo) xs' ys" "s_kern s' = s_kern (km_sys M)"
      "\<forall>u\<in>set ys. s_lwt s' u = s_lwt (km_sys M) u \<and> c' u = km_cont M u"
      "\<forall>q. q \<noteq> kp r \<longrightarrow> s_kp s' q = s_kp (km_sys M) q" unfolding P_def by blast
    have "resting junk c' s' (kp v) ys jo" by (rule resting_frame [OF b(2) _ q(4)]) (use q(5) d(10) in simp)
    then have h: "in_hand junk kp r v jo (l - 1) M'" unfolding in_hand_def
      using q(1,2) p(2) cur by (intro exI [of _ F'] exI [of _ xs'] exI [of _ ys] exI [of _ pc'] exI [of _ nd']) simp
    have "at_turn junk N kp r v jo M'"
      using a p(2) q(3) cur d(1) by (auto simp: at_turn_def Let_def)
    from kinvI [OF this h] show ?thesis using t l cur p(2) by simp
  qed
  show ?thesis unfolding goes_on_def
    using stay_outcome(1) [of M pc N "kthd_code junk" P, OF pcM step]
      stay_outcome(2) [of M pc N "kthd_code junk" P, OF pcM step] keep by blast
qed

text \<open>The end of a turn. The other kernel thread is next, or the same one when it is alone.\<close>

lemma yield_goes_on:
  assumes a: "at_turn junk N kp r v jo M" and cur: "km_cur M = r" and t: "n + Suc (work x sp) + job_left jo = TOTAL"
    and pc: "km_pc M r = Some (KRest (kp r))"
    and h: "resting junk (km_cont M) (km_sys M) (kp r) xs (Work x sp fl)" "resting junk (km_cont M) (km_sys M) (kp v) ys jo"
      "mem_ok (km_sys M) F (job_need (Work x sp fl) + job_need jo) xs ys"
    and step: "\<And>k. kthd_step k (kthd_code junk) (KRest (kp r)) (km_sys M, km_cont M) =
        rbind (sl_thd_yield k 0 (s_kern (km_sys M))) (\<lambda>(o1, ws, kern).
          Inr (KTurn (kp r), Some (o1, ws), (km_sys M)\<lparr>s_kern := kern\<rparr>, km_cont M))"
  shows "goes_on junk N kp n m M"
proof -
  note d = at_turnD [OF a]
  let ?s = "s_kern (km_sys M)" and ?u = "if jo = Over then r else v"
  let ?q = "at_10 (if jo = Over then [r] else [v, r])"
  have q: "enqueued (f_priority (sl_policy ?s) r) r (dequeued r (at_10 (if jo = Over then [r] else [r, v]))) = ?q"
    using d(1,3) at_10_moves by simp
  define P where "P kern \<longleftrightarrow> sl_view N kern {r, v} ?q \<and> threads_kept ?s kern" for kern
  have pcM: "km_pc M (km_cur M) = Some (KRest (kp r))" using pc cur by simp
  have u: "?u \<in> {r, v}" by simp
  have st: "\<forall>k. kernel_as N (km_cur M) k \<longrightarrow>
      (\<exists>w kern. kthd_step k (kthd_code junk) (KRest (kp r)) (km_sys M, km_cont M) =
      Inr (KTurn (kp r), Some (SlSwitched, [switched ?s ?u w]), (km_sys M)\<lparr>s_kern := kern\<rparr>, km_cont M) \<and>
      same_caps ?s kern \<and> P kern)"
  proof (intro allI impI)
    fix k assume that: "kernel_as N (km_cur M) k"
    have k: "kernel_as N r k" using that cur by simp
    have "top_thread (enqueued (f_priority (sl_policy ?s) r) r
        (dequeued r (at_10 (if jo = Over then [r] else [r, v])))) ?u"
      unfolding q by (simp add: top_10)
    from view_yield [OF d(2) k insertI1 this, unfolded q] obtain s' w where
      "sl_thd_yield k 0 ?s = Inr (SlSwitched, [switched ?s ?u w], s')" "sl_view N s' {r, v} ?q" "threads_kept ?s s'" .
    then show "\<exists>w kern. kthd_step k (kthd_code junk) (KRest (kp r)) (km_sys M, km_cont M) =
        Inr (KTurn (kp r), Some (SlSwitched, [switched ?s ?u w]), (km_sys M)\<lparr>s_kern := kern\<rparr>, km_cont M) \<and>
        same_caps ?s kern \<and> P kern"
      by (intro exI [of _ w] exI [of _ s']) (simp add: step P_def same_caps_def threads_kept_def del: kthd_step.simps)
  qed
  note out = switch_outcome [of M "KRest (kp r)" N "{r, v}" _ ?u "kthd_code junk" "KTurn (kp r)" P, OF pcM d(2) u st]
  have keep: "kinv junk N kp (Suc n) (Suc m) M'" if "mown N (kthd_code junk) M M'" for M'
  proof -
    from out(3) [OF that] obtain kern where k: "P kern"
      "M' = M\<lparr>km_sys := (km_sys M)\<lparr>s_kern := kern\<rparr>, km_pc := (km_pc M)(km_cur M \<mapsto> KTurn (kp r)), km_cur := ?u\<rparr>"
      by blast
    note kept = k(1) [unfolded P_def threads_kept_def]
    note hk = resting_kern [OF h(1), of kern] resting_kern [OF h(2), of kern] mem_ok_kern [OF h(3), of kern]
    show ?thesis
    proof (cases "jo = Over")
      case True
      have "at_turn junk N kp r v jo M'"
        using d True kept k(2) cur by (auto simp: at_turn_def Let_def)
      moreover have "in_hand junk kp r v jo (work x sp) M'"
        unfolding in_hand_def using b_home [OF hk(1)] hk(2,3) k(2) cur
        by (intro exI [of _ F] exI [of _ xs] exI [of _ ys] exI [of _ "KTurn (kp r)"] exI [of _ "job_need (Work x sp fl)"]) simp
      ultimately show ?thesis by (rule kinvI) (use t k(2) True in simp_all)
    next
      case False
      have "at_turn junk N kp v r (Work x sp fl) M'"
        using d False kept k(2) cur by (auto simp: at_turn_def Let_def insert_commute)
      moreover have "in_hand junk kp v r (Work x sp fl) (job_left jo) M'"
        unfolding in_hand_def using b_home [OF hk(2) False] hk(1) mem_ok_swap [OF hk(3)] k(2) cur d(1,12)
        by (intro exI [of _ F] exI [of _ ys] exI [of _ xs] exI [of _ "job_pc (kp v) jo"] exI [of _ "job_need jo"])
          (simp add: add.commute)
      ultimately show ?thesis by (rule kinvI) (use t k(2) False in simp_all)
    qed
  qed
  show ?thesis unfolding goes_on_def using out(1,2) keep by blast
qed

lemma block_goes_on:
  assumes a: "at_turn junk N kp r v jo M" and cur: "km_cur M = r" and t: "n + 1 + job_left jo = TOTAL"
    and pc: "km_pc M r = Some (KRest (kp r))" and jo: "jo \<noteq> Over"
    and h: "resting junk (km_cont M) (km_sys M) (kp v) ys jo" "mem_ok (km_sys M) F (job_need jo) xs ys"
    and step: "\<And>k. kthd_step k (kthd_code junk) (KRest (kp r)) (km_sys M, km_cont M) =
        rbind (sl_thd_block k 0 (s_kern (km_sys M))) (\<lambda>(o1, ws, kern).
          Inr (KTurn (kp r), Some (o1, ws), (km_sys M)\<lparr>s_kern := kern\<rparr>, km_cont M))"
  shows "goes_on junk N kp n m M"
proof -
  note d = at_turnD [OF a]
  let ?s = "s_kern (km_sys M)"
  have view: "sl_view N ?s {r, v} (at_10 [r, v])" using d(2) jo by simp
  define P where "P kern \<longleftrightarrow> sl_view N kern {r, v} (at_10 [v]) \<and>
     f_priority (sl_policy kern) = f_priority (sl_policy ?s) \<and> sched_thd kern = sched_thd ?s \<and>
     st kern r = SL_THD_BLOCKED \<and> (\<forall>x. x \<noteq> r \<longrightarrow> sl_threads kern x = sl_threads ?s x)" for kern
  have pcM: "km_pc M (km_cur M) = Some (KRest (kp r))" using pc cur by simp
  have st: "\<forall>k. kernel_as N (km_cur M) k \<longrightarrow>
      (\<exists>w kern. kthd_step k (kthd_code junk) (KRest (kp r)) (km_sys M, km_cont M) =
      Inr (KTurn (kp r), Some (SlSwitched, [switched ?s v w]), (km_sys M)\<lparr>s_kern := kern\<rparr>, km_cont M) \<and>
      same_caps ?s kern \<and> P kern)"
  proof (intro allI impI)
    fix k assume that: "kernel_as N (km_cur M) k"
    have k: "kernel_as N r k" using that cur by simp
    have "top_thread (dequeued r (at_10 [r, v])) v" by (simp add: at_10_moves d(1) top_10)
    from view_block [OF view k insertI1 d(6) this] obtain s' w where "sl_thd_block k 0 ?s = Inr (SlSwitched, [switched ?s v w], s')"
      "sl_view N s' {r, v} (dequeued r (at_10 [r, v]))" "same_caps ?s s'"
      "f_priority (sl_policy s') = f_priority (sl_policy ?s)" "sched_thd s' = sched_thd ?s"
      "st s' r = SL_THD_BLOCKED" "\<forall>x. x \<noteq> r \<longrightarrow> sl_threads s' x = sl_threads ?s x" .
    then show "\<exists>w kern. kthd_step k (kthd_code junk) (KRest (kp r)) (km_sys M, km_cont M) =
        Inr (KTurn (kp r), Some (SlSwitched, [switched ?s v w]), (km_sys M)\<lparr>s_kern := kern\<rparr>, km_cont M) \<and>
        same_caps ?s kern \<and> P kern"
      by (intro exI [of _ w] exI [of _ s']) (simp add: step P_def at_10_moves d(1) del: kthd_step.simps)
  qed
  have v: "v \<in> {r, v}" by simp
  note out = switch_outcome [of M "KRest (kp r)" N "{r, v}" _ v "kthd_code junk" "KTurn (kp r)" P, OF pcM d(2) v st]
  have keep: "kinv junk N kp (Suc n) (Suc m) M'" if "mown N (kthd_code junk) M M'" for M'
  proof -
    from out(3) [OF that] obtain kern where k: "P kern"
      "M' = M\<lparr>km_sys := (km_sys M)\<lparr>s_kern := kern\<rparr>, km_pc := (km_pc M)(km_cur M \<mapsto> KTurn (kp r)), km_cur := v\<rparr>"
      by blast
    note kept = k(1) [unfolded P_def]
    note hk = resting_kern [OF h(1), of kern] mem_ok_kern [OF h(2), of kern]
    have "at_turn junk N kp v r Over M'"
      using d jo kept k(2) cur by (auto simp: at_turn_def Let_def insert_commute)
    moreover have "in_hand junk kp v r Over (job_left jo) M'"
      unfolding in_hand_def using b_home [OF hk(1) jo] mem_ok_swap [OF hk(2)] k(2) cur d(1,12)
      by (intro exI [of _ F] exI [of _ ys] exI [of _ xs] exI [of _ "job_pc (kp v) jo"] exI [of _ "job_need jo"]) simp
    ultimately show ?thesis by (rule kinvI) (use t k(2) in simp_all)
  qed
  show ?thesis unfolding goes_on_def using out(1,2) keep by blast
qed

lemma last_ends:
  assumes a: "at_turn junk N kp r v Over M" and cur: "km_cur M = r"
    and pc: "km_pc M r = Some (KRest (kp r))"
    and step: "\<And>k. kthd_step k (kthd_code junk) (KRest (kp r)) (km_sys M, km_cont M) =
        rbind (sl_thd_block k 0 (s_kern (km_sys M))) (\<lambda>(o1, ws, kern).
          Inr (KTurn (kp r), Some (o1, ws), (km_sys M)\<lparr>s_kern := kern\<rparr>, km_cont M))"
  shows "ends junk N kp M"
proof -
  note d = at_turnD [OF a]
  let ?s = "s_kern (km_sys M)"
  have view: "sl_view N ?s {r, v} (at_10 [r])" using d(2) by simp
  note vd = sl_viewD [OF view]
  have ok: "sl_ok ?s {r, v} (at_10 [r])"
    using vd(1) d(1,3,4,6,7) by (auto simp: sl_ok_def queued_def at_10_def SL_FPRR_NPRIOS_def)
  have fails: "kthd_step k (kthd_code junk) (KRest (kp r)) (km_sys M, km_cont M) = Inl AssertFail"
    if "kernel_as N r k" for k
  proof -
    have "sl_thd_block k 0 ?s = Inl AssertFail"
      by (rule last_thread_cannot_block [OF ok vd(2) vd(5) [OF that] vd(6) [OF that] d(6)]) (simp_all add: at_10_def)
    then show ?thesis by (simp add: step del: kthd_step.simps)
  qed
  have "\<not> mown N (kthd_code junk) M M'" for M'
    using fails pc cur by (auto elim!: mownE)
  moreover have "mfails N (kthd_code junk) M e \<longleftrightarrow> e = AssertFail" for e
    using fails some_kernel [of N r] pc cur by (auto simp: mfails_def)
  ultimately show ?thesis using pc cur by (simp add: ends_def)
qed

lemma kinv_own:
  assumes "kinv junk N kp n (Suc m) M"
  shows "goes_on junk N kp n m M \<or> Suc n = TOTAL \<and> ends junk N kp M"
proof -
  from assms obtain r v jo l where a: "at_turn junk N kp r v jo M" "in_hand junk kp r v jo l M"
    and t: "n + l + job_left jo = TOTAL" and cur: "km_cur M = r" unfolding kinv_def by auto
  from a(2) obtain F xs ys pc nd where h: "km_pc M r = Some pc"
    "busy junk (km_cont M) (km_sys M) (kp r) xs pc l nd" "resting junk (km_cont M) (km_sys M) (kp v) ys jo"
    "mem_ok (km_sys M) F (nd + job_need jo) xs ys" unfolding in_hand_def by blast
  show ?thesis
  proof (cases "\<forall>q. pc \<noteq> KRest q")
    case True
    from stay_goes_on [OF a(1) cur t h(1) True h(2-4)] show ?thesis ..
  next
    case False
    then have pc: "pc = KRest (kp r)" using busy_rest_kp h(2) by auto
    note b = h(2) [unfolded pc]
    note pc' = h(1) [unfolded pc]
    let ?yields = "\<lambda>k. kthd_step k (kthd_code junk) (KRest (kp r)) (km_sys M, km_cont M) =
        rbind (sl_thd_yield k 0 (s_kern (km_sys M))) (\<lambda>(o1, ws, kern).
          Inr (KTurn (kp r), Some (o1, ws), (km_sys M)\<lparr>s_kern := kern\<rparr>, km_cont M))"
    let ?blocks = "\<lambda>k. kthd_step k (kthd_code junk) (KRest (kp r)) (km_sys M, km_cont M) =
        rbind (sl_thd_block k 0 (s_kern (km_sys M))) (\<lambda>(o1, ws, kern).
          Inr (KTurn (kp r), Some (o1, ws), (km_sys M)\<lparr>s_kern := kern\<rparr>, km_cont M))"
    from busy_rests [OF b h(4)] consider
        (yields) x sp fl where "resting junk (km_cont M) (km_sys M) (kp r) xs (Work x sp fl)" "l = Suc (work x sp)"
          "nd = job_need (Work x sp fl)" "\<And>k. ?yields k"
      | (blocks) "l = 1" "nd = 0" "\<And>k. ?blocks k" by blast
    then show ?thesis
    proof cases
      case (yields x sp fl)
      have "goes_on junk N kp n m M"
        by (rule yield_goes_on [OF a(1) cur _ pc' yields(1) h(3)]) (use t yields h(4) in simp_all)
      then show ?thesis ..
    next
      case blocks
      show ?thesis
      proof (cases "jo = Over")
        case True
        with last_ends [of junk N kp r v M] a(1) cur pc' blocks(3) t blocks(1) show ?thesis by simp
      next
        case False
        have "goes_on junk N kp n m M"
          by (rule block_goes_on [OF a(1) cur _ pc' False h(3)]) (use t blocks h(4) in simp_all)
        then show ?thesis ..
      qed
    qed
  qed
qed

lemma kinv_own_keeps:
  assumes "kinv junk N kp n m M" and "mown N (kthd_code junk) M M'"
  shows "kinv junk N kp (Suc n) m M'"
proof (cases m)
  case 0
  with assms(1) obtain r v where "sched_thd (s_kern (km_sys M)) \<notin> {r, v}" "dom (km_pc M) = {r, v}"
    "km_cur M = sched_thd (s_kern (km_sys M))" unfolding kinv_def at_turn_def Let_def by auto
  then have "km_cur M \<notin> dom (km_pc M)" by simp
  then have "km_pc M (km_cur M) = None" by (simp only: domIff simp_thms)
  with assms(2) show ?thesis by (auto elim: mown.cases)
next
  case (Suc m')
  with kinv_own [of junk N kp n m' M] assms show ?thesis by (auto simp: goes_on_def ends_def)
qed

interpretation kthds: interleaving "mown N (kthd_code junk)" "mtick N" "kinv junk N kp" "\<lambda>n. Suc n < TOTAL"
  for N junk kp
proof
  fix n m M
  show "\<exists>M'. mown N (kthd_code junk) M M'" if "kinv junk N kp n (Suc m) M" and "Suc n < TOTAL"
    using kinv_own [OF that(1)] that(2) by (auto simp: goes_on_def)
qed (fact kinv_own_keeps kinv_tick)+

lemma kinv_fails:
  assumes "kinv junk N kp n (Suc m) M"
  shows "mfails N (kthd_code junk) M e \<longleftrightarrow> Suc n = TOTAL \<and> e = AssertFail"
    and "Suc n = TOTAL \<Longrightarrow> \<exists>q. km_pc M (km_cur M) = Some (KRest q)"
proof -
  have "Suc n \<noteq> TOTAL" if "goes_on junk N kp n m M"
  proof -
    from that obtain M' where "kinv junk N kp (Suc n) (Suc m) M'" unfolding goes_on_def by blast
    from kinv_short [OF this] show ?thesis by simp
  qed
  with kinv_own [OF assms] consider "goes_on junk N kp n m M" "Suc n \<noteq> TOTAL"
    | "ends junk N kp M" "Suc n = TOTAL" by blast
  then show "mfails N (kthd_code junk) M e \<longleftrightarrow> Suc n = TOTAL \<and> e = AssertFail"
    "Suc n = TOTAL \<Longrightarrow> \<exists>q. km_pc M (km_cur M) = Some (KRest q)"
    by (cases; simp add: goes_on_def ends_def)+
qed

subsection \<open>Creating the kernel threads\<close>

lemma kthd_create_ok:
  assumes "booting N k cyc bootcap icap itid news n s0" and "i < n"
    and "yields_upto N k bootcap icap itid news i (s_kern s)"
    and "kpool (s_kheap s) F" and "room F (SIZEOF_KTHD_PARAM + b)" and "0 < b"
  obtains kp h kern where "lwt_kthd_create k (fst (news i)) (snd (news i)) fn c s =
      Inr (0, s\<lparr>s_kheap := h, s_kp := (s_kp s)(kp := (s_kp s kp)\<lparr>kp_fn := fn, kp_c := c\<rparr>), s_kern := kern\<rparr>)"
    and "param_block s = kp" and "0 < kp" and "kp \<in> F"
    and "yields_upto N k bootcap icap itid news (Suc i) kern"
    and "kpool h (F - block kp SIZEOF_KTHD_PARAM)" and "room (F - block kp SIZEOF_KTHD_PARAM) b"
proof -
  have z: "0 < SIZEOF_KTHD_PARAM" "SIZEOF_KTHD_PARAM \<le> POOL_BYTES"
    by (simp_all add: SIZEOF_KTHD_PARAM_def POOL_BYTES_def NPAGES_def)
  have f: "kfits (s_kheap s) (SIZEOF_KTHD_PARAM + b)"
    using room_fits [OF assms(4)] assms(5,6) z(1) by simp
  have f': "kfits (s_kheap s) SIZEOF_KTHD_PARAM" by (rule kfits_mono [OF f]) (use assms(6) in simp)
  from kd.alloc_fits [OF assms(4) z f'] obtain kp h where
    kp: "dev_kalloc (s_kheap s) SIZEOF_KTHD_PARAM = Inr (kp, h)" "0 < kp" "block kp SIZEOF_KTHD_PARAM \<subseteq> F"
      "kpool h (F - block kp SIZEOF_KTHD_PARAM)" by blast
  have "kfits h b" by (rule dev_kalloc_leaves [OF assms(4) f z assms(6) kp(1)])
  then have room: "room (F - block kp SIZEOF_KTHD_PARAM) b" using room_fits [OF kp(4) assms(6)] by simp
  obtain k1 k2 where t: "sl_thd_alloc k (fst (news i)) (snd (news i)) (s_kern s) = Inr (Some (snd (news i)), k1)"
    "sl_thd_param_set (snd (news i)) SCHEDP_PRIO 10 k1 = Inr k2" "yields_upto N k bootcap icap itid news (Suc i) k2"
    by (rule yields_one [OF assms(1-3)])
  have "lwt_kthd_create k (fst (news i)) (snd (news i)) fn c s =
      Inr (0, s\<lparr>s_kheap := h, s_kp := (s_kp s)(kp := (s_kp s kp)\<lparr>kp_fn := fn, kp_c := c\<rparr>), s_kern := k2\<rparr>)"
    using kp(1,2) t(1,2) by (simp add: lwt_kthd_create_def Let_def KTHD_PRIO_def)
  moreover have "param_block s = kp" using kp(1) by (simp add: param_block_def)
  moreover have "kp \<in> F" using kp(3) z(1) by auto
  ultimately show thesis using that kp(2,4) t(3) room by blast
qed

text \<open>\<open>test_kthd_create\<close>: its 50 kernel threads are created, RUNNABLE and queued in this order at priority 10,
  when the kernel has as many to give and the pool has their parameter blocks.\<close>

lemma kthd_create_loop_ok:
  assumes "booting N k cyc bootcap icap itid news n s0"
  shows "i + j = n \<Longrightarrow> yields_upto N k bootcap icap itid news i (s_kern s) \<Longrightarrow> kpool (s_kheap s) F \<Longrightarrow>
    room F (SIZEOF_KTHD_PARAM * int j + b) \<Longrightarrow> 0 < b \<Longrightarrow>
    \<exists>s'. kthd_create_loop k news i j s = Inr s' \<and> yields_upto N k bootcap icap itid news n (s_kern s')"
proof (induction j arbitrary: i s F)
  case (Suc j)
  let ?b = "SIZEOF_KTHD_PARAM * int j + b"
  have i: "i < n" and b: "0 < ?b" "SIZEOF_KTHD_PARAM * int (Suc j) + b = SIZEOF_KTHD_PARAM + ?b"
    using Suc.prems(1,5) by (simp_all add: SIZEOF_KTHD_PARAM_def)
  have r: "room F (SIZEOF_KTHD_PARAM + ?b)" using Suc.prems(4) by (simp only: b(2))
  obtain kp h kern where c: "lwt_kthd_create k (fst (news i)) (snd (news i)) FN_KTHD_NULL NULL s =
      Inr (0, s\<lparr>s_kheap := h, s_kp := (s_kp s)(kp := (s_kp s kp)\<lparr>kp_fn := FN_KTHD_NULL, kp_c := NULL\<rparr>), s_kern := kern\<rparr>)"
    "yields_upto N k bootcap icap itid news (Suc i) kern" "kpool h (F - block kp SIZEOF_KTHD_PARAM)"
    "room (F - block kp SIZEOF_KTHD_PARAM) ?b"
    by (rule kthd_create_ok [OF assms i Suc.prems(2,3) r b(1)])
  let ?s = "s\<lparr>s_kheap := h, s_kp := (s_kp s)(kp := (s_kp s kp)\<lparr>kp_fn := FN_KTHD_NULL, kp_c := NULL\<rparr>), s_kern := kern\<rparr>"
  from Suc.IH [of "Suc i" ?s, OF _ _ _ c(4) Suc.prems(5)] c(2,3) Suc.prems(1) show ?case by (simp add: c(1))
qed simp

lemma test_kthd_create_queues:
  assumes "booting N k cyc bootcap icap itid news 50 (s_kern s)"
    and "sl_init k cyc bootcap icap itid (s_kern s) = Inr k0"
    and "kpool (s_kheap s) F" and "room F (SIZEOF_KTHD_PARAM * 51)"
  shows "\<exists>s'. test_kthd_create k news (s\<lparr>s_kern := k0\<rparr>) = Inr s' \<and>
    sl_view N (s_kern s') (set (map (snd \<circ> news) [0..<50])) (at_10 (map (snd \<circ> news) [0..<50])) \<and>
    (\<forall>j<50. st (s_kern s') (snd (news j)) = SL_THD_RUNNABLE)"
proof -
  have zero: "yields_upto N k bootcap icap itid news 0 k0"
    by (rule sl_init_ok [OF assms(1)]) (use assms(2) in \<open>simp add: yields_upto_def at_10_def fun_upd_idem\<close>)
  have "room F (SIZEOF_KTHD_PARAM * int 50 + SIZEOF_KTHD_PARAM)" "0 < SIZEOF_KTHD_PARAM"
    using assms(4) by (simp_all add: SIZEOF_KTHD_PARAM_def)
  with kthd_create_loop_ok [OF assms(1), of 0 50 "s\<lparr>s_kern := k0\<rparr>" F SIZEOF_KTHD_PARAM] zero assms(3)
  obtain s' where "kthd_create_loop k news 0 50 (s\<lparr>s_kern := k0\<rparr>) = Inr s'"
    "yields_upto N k bootcap icap itid news 50 (s_kern s')" by auto
  then show ?thesis unfolding test_kthd_create_def yields_upto_def by blast
qed

lemma creates_both:
  assumes "booting N k cyc bootcap icap itid news 2 (s_kern s)"
    and "kpool (s_kheap s) F" and "room F (2 * SIZEOF_KTHD_PARAM + 5 * DEV_BLOCK)"
    and "0 < n_runnable s" and "\<And>u. l_joinedfrom (s_lwt s u) = NULL"
  obtains ts s' kp where "cos_init_kthds k cyc bootcap icap itid news s = Inr (ts, s')"
    and "kinv junk N kp 0 0 (mstart ts s')"
proof -
  let ?b = "5 * DEV_BLOCK" and ?A = "snd (news 0)" and ?B = "snd (news 1)"
  have b: "0 < ?b" "SIZEOF_KTHD_PARAM + (SIZEOF_KTHD_PARAM + ?b) = 2 * SIZEOF_KTHD_PARAM + ?b"
    "0 < SIZEOF_KTHD_PARAM + ?b" by (simp_all add: dev_sizes SIZEOF_KTHD_PARAM_def)
  obtain k0 where k0: "sl_init k cyc bootcap icap itid (s_kern s) = Inr k0" "sl_view N k0 {} (\<lambda>_. [])"
    "sched_thd k0 = cos_thdid k" "idle_thd k0 = itid"
    "\<forall>u. t_thdcap (sl_threads k0 u) = (if u = itid then icap else if u = cos_thdid k then bootcap else 0)"
    by (rule sl_init_ok [OF assms(1)])
  let ?s0 = "s\<lparr>s_kern := k0\<rparr>"
  have zero: "yields_upto N k bootcap icap itid news 0 (s_kern ?s0)"
    using k0(2-5) by (simp add: yields_upto_def at_10_def fun_upd_idem)
  have "kpool (s_kheap ?s0) F" "room F (SIZEOF_KTHD_PARAM + (SIZEOF_KTHD_PARAM + ?b))"
    using assms(2,3) b(2) by simp_all
  from kthd_create_ok [OF assms(1) _ zero this b(3)] obtain kp1 h1 k1 where
    c1: "lwt_kthd_create k (fst (news 0)) ?A FN_KTHD1 NULL ?s0 =
      Inr (0, ?s0\<lparr>s_kheap := h1, s_kp := (s_kp ?s0)(kp1 := (s_kp ?s0 kp1)\<lparr>kp_fn := FN_KTHD1, kp_c := NULL\<rparr>), s_kern := k1\<rparr>)"
      "param_block ?s0 = kp1" "0 < kp1" "yields_upto N k bootcap icap itid news (Suc 0) k1"
      "kpool h1 (F - block kp1 SIZEOF_KTHD_PARAM)" "room (F - block kp1 SIZEOF_KTHD_PARAM) (SIZEOF_KTHD_PARAM + ?b)"
    by (metis zero_less_numeral)
  let ?s1 = "?s0\<lparr>s_kheap := h1, s_kp := (s_kp ?s0)(kp1 := (s_kp ?s0 kp1)\<lparr>kp_fn := FN_KTHD1, kp_c := NULL\<rparr>), s_kern := k1\<rparr>"
  let ?F1 = "F - block kp1 SIZEOF_KTHD_PARAM"
  have one: "yields_upto N k bootcap icap itid news 1 (s_kern ?s1)" "kpool (s_kheap ?s1) ?F1"
    using c1(4,5) by simp_all
  from kthd_create_ok [OF assms(1) _ one c1(6) b(1)] obtain kp2 h2 k2 where
    c2: "lwt_kthd_create k (fst (news 1)) ?B FN_KTHD2 NULL ?s1 =
      Inr (0, ?s1\<lparr>s_kheap := h2, s_kp := (s_kp ?s1)(kp2 := (s_kp ?s1 kp2)\<lparr>kp_fn := FN_KTHD2, kp_c := NULL\<rparr>), s_kern := k2\<rparr>)"
      "param_block ?s1 = kp2" "0 < kp2" "kp2 \<in> ?F1" "yields_upto N k bootcap icap itid news (Suc 1) k2"
      "kpool h2 (?F1 - block kp2 SIZEOF_KTHD_PARAM)" "room (?F1 - block kp2 SIZEOF_KTHD_PARAM) ?b"
    by (metis one_less_numeral_iff semiring_norm(76))
  let ?s2 = "?s1\<lparr>s_kheap := h2, s_kp := (s_kp ?s1)(kp2 := (s_kp ?s1 kp2)\<lparr>kp_fn := FN_KTHD2, kp_c := NULL\<rparr>), s_kern := k2\<rparr>"
  let ?ts = "[(?A, kp1), (?B, kp2)]" and ?kp = "\<lambda>t. if t = ?A then kp1 else kp2"
  have "kp1 \<in> block kp1 SIZEOF_KTHD_PARAM" by (simp add: SIZEOF_KTHD_PARAM_def)
  then have ne: "kp1 \<noteq> kp2" using c2(4) by auto
  have AB: "?A \<noteq> ?B" "cos_thdid k \<notin> {?A, ?B}"
    using booting_new [OF assms(1), of 0] booting_new [OF assms(1), of 1] by auto
  have run: "cos_init_kthds k cyc bootcap icap itid news s = Inr (?ts, ?s2)"
    using k0(1) c1(1,2) c2(1,2) by (simp add: cos_init_kthds_def test_kthd_local_remote_yield_def)
  have up: "[0..<Suc 1] = [0, 1]" by (simp add: upt_rec)
  have "at_turn junk N ?kp ?A ?B (Unborn True) (mstart ?ts ?s2)"
    using c2(5) AB ne c1(3) c2(3) by (auto simp: at_turn_def Let_def mstart_def yields_upto_def up)
  moreover have "in_hand junk ?kp ?A ?B (Unborn True) (job_left (Unborn False)) (mstart ?ts ?s2)"
  proof -
    have "busy junk (\<lambda>_. Crash) ?s2 kp1 [] (job_pc kp1 (Unborn False)) (job_left (Unborn False)) (job_need (Unborn False))"
      by (rule b_home) (simp_all add: ne)
    moreover have "resting junk (\<lambda>_. Crash) ?s2 kp2 [] (Unborn True)" by simp
    moreover have "mem_ok ?s2 (?F1 - block kp2 SIZEOF_KTHD_PARAM) (job_need (Unborn False) + job_need (Unborn True)) [] []"
      using c2(6,7) assms(4,5) by (simp add: mem_ok_def spaced_def mult.commute)
    ultimately show ?thesis unfolding in_hand_def mstart_def using AB(1)
      by (intro exI [of _ "?F1 - block kp2 SIZEOF_KTHD_PARAM"] exI [of _ "[]"] exI [of _ "[]"]
          exI [of _ "KEntry kp1"] exI [of _ "job_need (Unborn False)"]) simp
  qed
  ultimately have "kinv junk N ?kp 0 0 (mstart ?ts ?s2)"
    by (rule kinvI) (simp_all add: TOTAL_def mstart_def)
  with run that show thesis by blast
qed

text \<open>C9: \<open>test_kthd_local_remote_yield\<close> on the whole of the port, from memory in which the fields
  \<open>joinedfrom\<close> of new threads are null and whatever the interleaving with
  activations of the scheduler: its two kernel threads are created, and from then on a run can always
  go on, no assertion of the test and no operation fails, until 90050 steps of the threads have been done.
  By then both kernel threads have run all their light-weight threads; one has blocked, and the other one is
  about to. That step fails in every run: the assertion in \<open>sl_mod_schedule\<close> that there is a thread
  to run.\<close>

theorem local_remote_yield_runs:
  assumes "booting N k cyc bootcap icap itid news 2 (s_kern s)"
    and "kpool (s_kheap s) F" and "room F (2 * SIZEOF_KTHD_PARAM + 5 * DEV_BLOCK)"
    and "0 < n_runnable s" and "\<And>u. l_joinedfrom (s_lwt s u) = NULL"
  shows "\<exists>ts s'. cos_init_kthds k cyc bootcap icap itid news s = Inr (ts, s') \<and>
    (\<forall>n m. (\<exists>M. iruns (mown N (kthd_code junk)) (mtick N) n (Suc m) (mstart ts s') M) \<longleftrightarrow> n \<le> 90050) \<and>
    (\<forall>n m M e. iruns (mown N (kthd_code junk)) (mtick N) n (Suc m) (mstart ts s') M \<longrightarrow>
      (mfails N (kthd_code junk) M e \<longleftrightarrow> n = 90050 \<and> e = AssertFail)) \<and>
    (\<forall>m M. iruns (mown N (kthd_code junk)) (mtick N) 90050 (Suc m) (mstart ts s') M \<longrightarrow>
      (\<exists>kp. km_pc M (km_cur M) = Some (KRest kp)))"
proof -
  obtain ts s' kp where c: "cos_init_kthds k cyc bootcap icap itid news s = Inr (ts, s')"
    "kinv junk N kp 0 0 (mstart ts s')" by (rule creates_both [OF assms])
  note keep = kthds.runs_keep [OF _ c(2)]
  have "(\<exists>M. iruns (mown N (kthd_code junk)) (mtick N) n (Suc m) (mstart ts s') M) \<longleftrightarrow> n \<le> 90050" for n m
  proof
    assume "\<exists>M. iruns (mown N (kthd_code junk)) (mtick N) n (Suc m) (mstart ts s') M"
    then show "n \<le> 90050" using kinv_short [OF keep] by (auto simp: TOTAL_eq less_Suc_eq_le [symmetric])
  next
    assume "n \<le> 90050"
    then show "\<exists>M. iruns (mown N (kthd_code junk)) (mtick N) n (Suc m) (mstart ts s') M"
      by (intro kthds.runs_exist [OF c(2)]) (simp add: TOTAL_eq)
  qed
  moreover have "mfails N (kthd_code junk) M e \<longleftrightarrow> n = 90050 \<and> e = AssertFail"
    "n = 90050 \<Longrightarrow> \<exists>kp. km_pc M (km_cur M) = Some (KRest kp)"
    if "iruns (mown N (kthd_code junk)) (mtick N) n (Suc m) (mstart ts s') M" for n m M e
    using kinv_fails [OF keep [OF that]] by (simp_all add: TOTAL_eq)
  ultimately show ?thesis using c(1) by blast
qed

theorem local_remote_yield_runs_witness:
  "\<exists>ts s' M. cos_init_kthds (some_env 16 1) 1 20 21 2 boot_news (kthd_ex zero_sys) = Inr (ts, s') \<and>
     iruns (mown 16 (kthd_code 77)) (mtick 16) 90050 1 (mstart ts s') M \<and>
     mfails 16 (kthd_code 77) M AssertFail \<and> (\<exists>kp. km_pc M (km_cur M) = Some (KRest kp))"
proof -
  have b: "booting 16 (some_env 16 1) 1 20 21 2 boot_news 2 (s_kern (kthd_ex zero_sys))"
    using booting_ex [of 2] by simp
  have p: "kpool (s_kheap (kthd_ex zero_sys)) (block 4096 8000)" using sys_ex_pool(1) by simp
  have r: "room (block 4096 8000) (2 * SIZEOF_KTHD_PARAM + 5 * DEV_BLOCK)"
    unfolding room_def by (rule exI [of _ 4096]) (auto simp: block_def SIZEOF_KTHD_PARAM_def dev_sizes)
  have "n_runnable (kthd_ex zero_sys) = n_runnable chan_ex"
    by (simp add: kthd_ex_def chan_ex_def lwt_sys.defs chan_sys.defs dev_sys.defs kthd_sys.defs)
  then have n: "0 < n_runnable (kthd_ex zero_sys)" by simp
  have j: "\<And>u. l_joinedfrom (s_lwt (kthd_ex zero_sys) u) = NULL" by (simp add: sys_ex_def lwt_ex_def)
  from local_remote_yield_runs [OF b p r n j, of 77] obtain ts s' where
    s: "cos_init_kthds (some_env 16 1) 1 20 21 2 boot_news (kthd_ex zero_sys) = Inr (ts, s')"
    "\<forall>n m. (\<exists>M. iruns (mown 16 (kthd_code 77)) (mtick 16) n (Suc m) (mstart ts s') M) \<longleftrightarrow> n \<le> 90050"
    "\<forall>n m M e. iruns (mown 16 (kthd_code 77)) (mtick 16) n (Suc m) (mstart ts s') M \<longrightarrow>
      (mfails 16 (kthd_code 77) M e \<longleftrightarrow> n = 90050 \<and> e = AssertFail)"
    "\<forall>m M. iruns (mown 16 (kthd_code 77)) (mtick 16) 90050 (Suc m) (mstart ts s') M \<longrightarrow>
      (\<exists>kp. km_pc M (km_cur M) = Some (KRest kp))" by (elim exE conjE) (rule that)
  from s(2) [rule_format, of 90050 0] obtain M where
    M: "iruns (mown 16 (kthd_code 77)) (mtick 16) 90050 (Suc 0) (mstart ts s') M" by (elim iffE) (erule impE, rule order_refl, blast)
  have "mfails 16 (kthd_code 77) M AssertFail" using s(3) [rule_format, OF M, of AssertFail] by (simp only: simp_thms)
  moreover note s(4) [rule_format, OF M]
  moreover have "iruns (mown 16 (kthd_code 77)) (mtick 16) 90050 1 (mstart ts s') M" using M by (simp only: One_nat_def)
  ultimately show ?thesis using s(1) by (intro exI [of _ ts] exI [of _ s'] exI [of _ M] conjI)
qed

end
