(* ===== verification/TestThreadsDev.thy ===== *)
theory TestThreadsDev
  imports TestThreads ClientDev
begin

text \<open>
  The tests of threads in \<open>scheddev/lwt_test.c\<close>, run on the port: \<open>cos_init\<close> of
  \<open>unit_schedlib.c\<close> starts the pool and the thread library and then calls them, before the
  kernel-thread scheduler is started, so that nothing preempts them. They do what the tests of
  \<open>main.c\<close> do, so the runs of \<open>TestThreads\<close> are theirs too; what the port does not give back is
  counted.

  The port loses 100 bytes with every thread, so the structure of a thread lies partly over the
  stacks of earlier ones, and its field \<open>joinedfrom\<close>, which \<open>lwt_create\<close> leaves alone, holds
  whatever those stacks left. The state has one structure per base address and does not see those
  bytes; but no base is used twice, so the content that such a field has before its first use is that
  of the initial state, and what is proved for every initial content of these fields holds for the
  bytes. The fork and join loop of \<open>test_perf\<close> is proved so: each of its threads is joined, which
  sets the field, before it dies, which reads it. The other tests let threads die that nobody has
  joined yet; for them only the case that those words are null is treated, as a theorem beside the
  properties.
\<close>

subsection \<open>The code\<close>

type_synonym dev_prog = "(dev_sys, glob) prog"

definition DEV_ITER :: nat where
  "DEV_ITER = 10000"

definition dev_IS_RESET :: "dev_prog \<Rightarrow> dev_prog" where
  "dev_IS_RESET p = Check (\<lambda>s _. dev_lwt_info (n_runnable s) = 1 \<and> dev_lwt_info (n_zombies s) = 0 \<and>
     dev_lwt_info (n_blocked s) = 0) p"

fun dev_yield_loop :: "nat \<Rightarrow> dev_prog \<Rightarrow> dev_prog" where
  "dev_yield_loop 0 p = p"
| "dev_yield_loop (Suc n) p = Yield NULL (dev_yield_loop n p)"

definition dev_fn_bounce :: "addr \<Rightarrow> dev_prog" where
  "dev_fn_bounce d =
     Yield NULL (Yield NULL (dev_yield_loop DEV_ITER (Yield NULL (Yield NULL (Done NULL)))))"

definition dev_fn_null :: "addr \<Rightarrow> dev_prog" where
  "dev_fn_null d = Done NULL"

definition dev_fn_identity :: "addr \<Rightarrow> dev_prog" where
  "dev_fn_identity d = Done d"

definition dev_fn_nested_joins :: "addr \<Rightarrow> addr \<Rightarrow> dev_prog" where
  "dev_fn_nested_joins junk d =
     (if d \<noteq> NULL then
        Yield NULL (Yield NULL (Check (\<lambda>s _. dev_lwt_info (n_runnable s) = 1) (Die NULL)))
      else Create FN_NESTED_JOINS 1 LWT_DEFAULT (\<lambda>chld. Join chld (\<lambda>_. Done junk)))"

fun dev_sequence_loop :: "nat \<Rightarrow> int \<Rightarrow> dev_prog" where
  "dev_sequence_loop 0 val = Done NULL"
| "dev_sequence_loop (Suc n) val =
     Load (\<lambda>g. let other = g_curr g in
       Act (\<lambda>g. g\<lparr>g_curr := (g_curr g + 1) mod 2\<rparr>)
      (Act (\<lambda>g. g\<lparr>g_sched := (g_sched g)(g_curr g := val)\<rparr>)
      (Check (\<lambda>_ g. g_sched g other \<noteq> val)
      (Yield NULL (dev_sequence_loop n val)))))"

definition dev_fn_sequence :: "addr \<Rightarrow> dev_prog" where
  "dev_fn_sequence d = dev_sequence_loop DEV_ITER d"

definition dev_fn_join :: "addr \<Rightarrow> addr \<Rightarrow> dev_prog" where
  "dev_fn_join junk d = Join d (\<lambda>r. Check (\<lambda>_ _. r = 0x37337) (Done junk))"

definition dev_code :: "addr \<Rightarrow> (dev_sys, glob) text_segment" where
  "dev_code junk f d =
     (if f = FN_NULL then dev_fn_null d
      else if f = FN_BOUNCE then dev_fn_bounce d
      else if f = FN_IDENTITY then dev_fn_identity d
      else if f = FN_NESTED_JOINS then dev_fn_nested_joins junk d
      else if f = FN_SEQUENCE then dev_fn_sequence d
      else if f = FN_JOIN then dev_fn_join junk d
      else Crash)"

fun dev_fork_join_loop :: "nat \<Rightarrow> dev_prog \<Rightarrow> dev_prog" where
  "dev_fork_join_loop 0 p = p"
| "dev_fork_join_loop (Suc n) p =
     Create FN_NULL NULL LWT_DEFAULT (\<lambda>chld1. Join chld1 (\<lambda>_. dev_fork_join_loop n p))"

definition dev_test_perf :: "dev_prog \<Rightarrow> dev_prog" where
  "dev_test_perf p =
     dev_fork_join_loop DEV_ITER (dev_IS_RESET (
     Create FN_BOUNCE 1 LWT_DEFAULT (\<lambda>chld1.
     Create FN_BOUNCE NULL LWT_DEFAULT (\<lambda>chld2.
     Join chld1 (\<lambda>_.
     Join chld2 (\<lambda>_.
     dev_IS_RESET p))))))"

definition dev_test_sequence :: "dev_prog \<Rightarrow> dev_prog" where
  "dev_test_sequence p =
     Create FN_SEQUENCE 1 LWT_DEFAULT (\<lambda>chld1.
     Create FN_SEQUENCE 2 LWT_DEFAULT (\<lambda>chld2.
     Join chld2 (\<lambda>_. Join chld1 (\<lambda>_. dev_IS_RESET p))))"

definition dev_test_joins :: "dev_prog \<Rightarrow> dev_prog" where
  "dev_test_joins p =
     Create FN_NULL NULL LWT_DEFAULT (\<lambda>chld1. Join chld1 (\<lambda>_. dev_IS_RESET (
     Create FN_NULL NULL LWT_DEFAULT (\<lambda>chld1. Yield NULL (Join chld1 (\<lambda>_. dev_IS_RESET (
     Create FN_NESTED_JOINS NULL LWT_DEFAULT (\<lambda>chld1. Join chld1 (\<lambda>_. dev_IS_RESET p)))))))))"

definition dev_test_parents :: "dev_prog \<Rightarrow> dev_prog" where
  "dev_test_parents p =
     Create FN_IDENTITY 0x37337 LWT_DEFAULT (\<lambda>chld1.
     Create FN_JOIN chld1 LWT_DEFAULT (\<lambda>chld2.
     Yield NULL (Yield NULL (Join chld2 (\<lambda>_. dev_IS_RESET p)))))"

definition dev_test_data_and_yield :: "dev_prog \<Rightarrow> dev_prog" where
  "dev_test_data_and_yield p =
     Create FN_IDENTITY 0x37337 LWT_DEFAULT (\<lambda>chld1.
     Join chld1 (\<lambda>r. Check (\<lambda>_ _. 0x37337 = r) (dev_IS_RESET (
     Create FN_NULL NULL LWT_DEFAULT (\<lambda>chld1.
     Yield chld1 (Check (\<lambda>s _. dev_lwt_info (n_zombies s) = 1)
     (Join chld1 (\<lambda>_. dev_IS_RESET p))))))))"

definition dev_test_crt_join_sched :: "dev_prog \<Rightarrow> dev_prog" where
  "dev_test_crt_join_sched p =
     Yield NULL (dev_test_sequence (dev_test_joins (dev_test_parents (dev_test_data_and_yield p))))"

text \<open>The tests of threads are the first two that \<open>lwt_test_entry\<close> calls, and \<open>lwt_test_entry\<close> is what
  \<open>cos_init\<close> calls after the pool and the thread library are there. \<open>bump\<close> are the pages that the
  kernel library hands out.\<close>

definition dev_thread_tests :: "dev_prog \<Rightarrow> dev_prog" where
  "dev_thread_tests p = dev_test_perf (dev_test_crt_join_sched p)"

definition cos_init_lwt :: "(nat \<Rightarrow> addr) \<Rightarrow> cos_env \<Rightarrow> dev_sys \<Rightarrow> dev_sys result" where
  "cos_init_lwt bump k s = rbind (dev_kinit bump (s_kheap s)) (\<lambda>h. dev_lwt_init k (s\<lparr>s_kheap := h\<rparr>))"

subsection \<open>They are the programs of \<open>main.c\<close>\<close>

lemma dev_loops: "dev_yield_loop n = yield_loop n" "dev_sequence_loop n = sequence_loop n"
  "dev_fork_join_loop n = fork_join_loop n"
proof -
  show "dev_yield_loop n = yield_loop n" by (induction n) (simp_all add: fun_eq_iff)
  show "dev_sequence_loop n = sequence_loop n" by (induction n) (simp_all add: fun_eq_iff)
  show "dev_fork_join_loop n = fork_join_loop n" by (induction n) (simp_all add: fun_eq_iff)
qed

lemma dev_fns: "dev_IS_RESET = IS_RESET" "dev_fn_bounce = fn_bounce" "dev_fn_null = fn_null"
  "dev_fn_identity = fn_identity" "dev_fn_nested_joins = fn_nested_joins" "dev_fn_sequence = fn_sequence"
  "dev_fn_join = fn_join"
  by (simp_all add: fun_eq_iff dev_IS_RESET_def IS_RESET_def dev_fn_bounce_def fn_bounce_def dev_fn_null_def
      fn_null_def dev_fn_identity_def fn_identity_def dev_fn_nested_joins_def fn_nested_joins_def
      dev_fn_sequence_def fn_sequence_def dev_fn_join_def fn_join_def dev_loops dev_lwt_info_def
      DEV_ITER_def ITER_def)

lemma dev_code_eq: "dev_code = main_code"
  by (intro ext) (simp only: dev_code_def main_code_def dev_fns)

lemma dev_tests_eq: "dev_thread_tests p = test_perf (test_crt_join_sched p)"
  by (simp add: dev_thread_tests_def dev_test_perf_def test_perf_def dev_test_crt_join_sched_def
      test_crt_join_sched_def dev_test_sequence_def test_sequence_def dev_test_joins_def test_joins_def
      dev_test_parents_def test_parents_def dev_test_data_and_yield_def test_data_and_yield_def
      dev_fns dev_loops dev_lwt_info_def DEV_ITER_def ITER_def)

subsection \<open>From the pages of the kernel on\<close>

text \<open>The global variables of the component before \<open>cos_init\<close> are zero.\<close>

definition unstarted :: "dev_sys \<Rightarrow> bool" where
  "unstarted s \<longleftrightarrow> freelist (s_kheap s) = NULL \<and> n_runnable s = 0 \<and> n_zombies s = 0 \<and> n_blocked s = 0"

text \<open>Only the first thread is left; nothing is said of the fields \<open>joinedfrom\<close>.\<close>

definition calm :: "addr \<Rightarrow> addr set \<Rightarrow> view \<Rightarrow> bool" where
  "calm main A v \<longleftrightarrow> v_ring v = [main] \<and> v_free v = A \<and> a_ready v main \<and> v_run v = 1 \<and> v_zom v = 0 \<and> v_blk v = 0"

lemma quiet_calm: "quiet main A v \<Longrightarrow> calm main A v"
  by (simp add: quiet_def calm_def)

lemma calm_done: "calm main A w \<Longrightarrow> twp 0 code main (Done x) g k w (\<lambda>w g. calm main A w)"
  by (rule aw_done) (simp_all add: calm_def)

text \<open>A thread that is joined before it runs does not look at the word it found in \<open>joinedfrom\<close>.\<close>

lemma calm_fork_join:
  assumes st: "stage main A" and q: "calm main A v" and code: "code fn d = Done r"
    and next_wp: "\<And>w l. calm main A w \<Longrightarrow> twp m code main (kk r) g l w Q"
  shows "twp (Suc m) code main (Create fn d LWT_DEFAULT (\<lambda>t. Join t kk)) g k v Q"
proof (rule wp_create1 [OF st])
  from q show "v_free v = A" "v_ring v = [main]" by (simp_all add: calm_def)
  obtain T where v: "v = \<lparr>v_ring = [main], v_free = A, v_thd = T, v_run = 1, v_zom = 0, v_blk = 0\<rparr>"
    and T: "t_state (T main) = RUNNABLE" using q by (cases v) (auto simp: calm_def)
  fix t assume t: "0 < t" "t \<noteq> main" "t \<noteq> NULL" "block t SIZEOF_LWT \<subseteq> A"
    "room (A - block t SIZEOF_LWT) SIZEOF_LWT"
  have B: "A \<union> block t SIZEOF_LWT = A" using t(4) by blast
  have m: "main \<noteq> t" "main \<noteq> NULL" "main \<notin> A" using st t(2) by (auto simp: stage_def)
  show "twp m code main (Join t kk) g k (a_create t fn d LWT_DEFAULT v) Q"
    using t B m T by - (rule next_wp wp_rules | simp add: v a_defs calm_def code)+
qed

lemma calm_fork_join_loop:
  assumes st: "stage main A" and q: "calm main A v"
    and next_wp: "\<And>w l. calm main A w \<Longrightarrow> twp m (main_code junk) main p g l w Q"
  shows "twp (n + m) (main_code junk) main (fork_join_loop n p) g k v Q"
  using q
proof (induction n arbitrary: v k)
  case 0
  then show ?case by (simp add: next_wp)
next
  case (Suc n)
  note fj = calm_fork_join [where code = "main_code junk" and fn = FN_NULL and d = NULL and r = NULL,
      OF st Suc.prems]
  show ?case by (simp, rule fj) (simp_all add: main_code_def fn_null_def Suc.IH)
qed

lemma calm_reset: "calm main A v \<Longrightarrow> twp m code main p g k v Q \<Longrightarrow> twp m code main (IS_RESET p) g k v Q"
  by (rule wp_reset) (simp_all add: calm_def)

lemma dev_kinit_pool:
  assumes "\<And>i. bump i = b + 4096 * int i" and "0 < b" and "freelist h = NULL"
  obtains h0 where "dev_kinit bump h = Inr h0" and "free_list h0 [(b, POOL_BYTES)]"
proof -
  have pb: "POOL_BYTES = 16 * 1024 * 1024" by (simp add: POOL_BYTES_def NPAGES_def)
  have "grab_pages bump 1 NPAGES (bump 0) = Inr (b + 4096 * int NPAGES)"
    using grab_pages_contiguous [OF assms(1,2), of 0 NPAGES] by simp
  moreover have "bump 0 = b" using assms(1) by simp
  moreover obtain h0 where "dev_kfree (memset_zero b POOL_BYTES h) b POOL_BYTES = Inr h0"
    "free_list h0 [(b, POOL_BYTES)]"
    using dev_kfree_first [of "memset_zero b POOL_BYTES h" b POOL_BYTES] assms(2,3) pb
    by (auto simp: memset_zero_def)
  ultimately show thesis using that assms(2) by (simp add: dev_kinit_def)
qed

text \<open>The state that the tests start from, with room for \<open>N\<close> threads.\<close>

lemma boot_ported:
  assumes bump: "\<And>i. bump i = b + 4096 * int i" "0 < b" and c: "unstarted s"
    and N: "DEV_BLOCK * (1 + int N) \<le> POOL_BYTES"
  obtains s0 v where "cos_init_lwt bump k s = Inr s0" and "ported POOL_BYTES N N s0 v"
    and "calm (current_thread s0) (unclaimed [current_thread s0]) v"
    and "stage (current_thread s0) (unclaimed [current_thread s0])"
    and "\<forall>u. t_jf (v_thd v u) = l_joinedfrom (s_lwt s u)"
proof -
  have D: "DEV_BLOCK = 792" by (simp add: dev_sizes)
  have f0: "freelist (s_kheap s) = NULL" using c by (simp add: unstarted_def)
  from dev_kinit_pool [OF bump f0] obtain h0 where
    h0: "dev_kinit bump (s_kheap s) = Inr h0" "free_list h0 [(b, POOL_BYTES)]" .
  have "wf_runs [(b, POOL_BYTES)]" using bump(2) by (simp add: POOL_BYTES_def NPAGES_def)
  then have pool: "kpool h0 (block b POOL_BYTES)" using kpool_list [OF h0(2)] by simp
  have fits: "kfits h0 POOL_BYTES" using kfits_list [OF h0(2)] by simp
  from kd.alloc_fits [OF pool dev_pool_sizes(1,2) kfits_mono [OF fits dev_pool_sizes(2)]] obtain t h where
    t: "dev_kalloc h0 DEV_BLOCK = Inr (t, h)" "0 < t" "block t DEV_BLOCK \<subseteq> block b POOL_BYTES"
      "kpool h (block b POOL_BYTES - block t DEV_BLOCK)" by blast
  let ?F = "block b POOL_BYTES - block t DEV_BLOCK"
  define s0 where "s0 = (upd_lwt t (\<lambda>l. l\<lparr>l_state := RUNNABLE, l_ip := IpNull, l_sp := NULL,
       l_tid := lwt_tid_counter s\<rparr>) (set_kid t (cos_thdid k) s))
     \<lparr>s_kheap := h, current_thread := t, s_links := ps_list_ll_init t (s_links s),
      lwt_tid_counter := lwt_tid_counter s + 1, n_runnable := n_runnable s + 1\<rparr>"
  have boot: "cos_init_lwt bump k s = Inr s0"
    using h0(1) t(1,2) by (simp add: cos_init_lwt_def dev_lwt_init_def Let_def s0_def set_kid_def upd_lwt_def)
  have s0: "current_thread s0 = t" "s_kheap s0 = h" "ring (s_links s0) [t]" "n_runnable s0 = 1"
    "n_zombies s0 = 0" "n_blocked s0 = 0" "ready s0 t" "\<And>u. l_joinedfrom (s_lwt s0 u) = l_joinedfrom (s_lwt s u)"
    using c ring_init by (simp_all add: s0_def unstarted_def set_kid_def upd_lwt_def)
  let ?v = "\<lparr>v_ring = [t], v_free = unclaimed [t], v_thd = (\<lambda>u. thd_of (s_lwt s0 u)),
    v_run = 1, v_zom = 0, v_blk = 0\<rparr>"
  have "views s0 (?v\<lparr>v_free := ?F\<rparr>)" using s0 t(4) by (simp add: views_def runq_def)
  moreover have "spaced ?F [t]" using t(2) by (auto simp: spaced_def)
  moreover have "0 < N \<longrightarrow> room ?F (DEV_BLOCK * int N)"
  proof
    assume n: "0 < N"
    have "DEV_BLOCK + DEV_BLOCK * int N \<le> POOL_BYTES" using N by (simp add: D)
    from dev_kalloc_leaves [OF pool kfits_mono [OF fits this] dev_pool_sizes(1,2) _ t(1)] n
    have "kfits h (DEV_BLOCK * int N)" by (simp add: D)
    then show "room ?F (DEV_BLOCK * int N)" using room_fits [OF t(4)] n by (simp add: D)
  qed
  moreover have "int (card ?F) = POOL_BYTES - DEV_BLOCK"
  proof -
    have fb: "finite (block t DEV_BLOCK)" "finite (block b POOL_BYTES)" by (simp_all add: block_def)
    have "card ?F = card (block b POOL_BYTES) - card (block t DEV_BLOCK)"
      by (rule card_Diff_subset [OF fb(1) t(3)])
    then show ?thesis by (simp add: card_block D POOL_BYTES_def NPAGES_def)
  qed
  ultimately have "ported POOL_BYTES N N s0 ?v"
    unfolding ported_def by (intro exI [of _ ?F]) (simp add: block_def)
  moreover have "calm t (unclaimed [t]) ?v" using s0(1-7) by (simp add: calm_def)
  moreover have "stage t (unclaimed [t])"
    using t(2) unclaimed_room [of "[t]"] by (auto simp: stage_def unclaimed_def SIZEOF_LWT_def)
  ultimately show thesis using that [OF boot, of ?v] s0(1,8) by simp
qed

subsection \<open>The tests pass, and what they cost\<close>

definition dev_passes :: "addr \<Rightarrow> (dev_prog \<Rightarrow> dev_prog) \<Rightarrow> int \<Rightarrow> (dev_sys, glob) world \<Rightarrow> bool" where
  "dev_passes junk test left w0 \<longleftrightarrow>
     (let main = current_thread (w_sys w0) in
      \<exists>w F. dev_exec (dev_code junk) main (test (Done NULL)) w0 = Some (Inr w) \<and> runq (w_sys w) [main] \<and>
        n_runnable (w_sys w) = 1 \<and> n_zombies (w_sys w) = 0 \<and> n_blocked (w_sys w) = 0 \<and>
        kpool (s_kheap (w_sys w)) F \<and> finite F \<and> int (card F) = left)"

lemma dev_passesI:
  assumes "ported C N n s v" and "main = current_thread s"
    and "twp n (main_code junk) main (test (Done NULL)) g k v (\<lambda>w g. R w)" and "\<And>w. R w \<Longrightarrow> calm main A w"
    and "left = C - DEV_BLOCK - DEV_LWT_EXTRA * int N"
  shows "dev_passes junk test left \<lparr>w_sys = s, w_glob = g, w_cont = k\<rparr>"
proof -
  from awp_dev [OF assms(3), of C N] assms(1) obtain w v' where
    w: "dev_exec (main_code junk) main (test (Done NULL)) \<lparr>w_sys = s, w_glob = g, w_cont = k\<rparr> = Some (Inr w)"
    and v: "ported C N 0 (w_sys w) v'" and q: "calm main A v'"
    unfolding dev_wp_def using assms(4) by blast
  from q have v': "v_ring v' = [main]" "v_run v' = 1" "v_zom v' = 0" "v_blk v' = 0" by (simp_all add: calm_def)
  from portedE [OF v] obtain F where F: "views (w_sys w) (v'\<lparr>v_free := F\<rparr>)" "finite F"
    "int (card F) = C - DEV_BLOCK * int (length (v_ring v')) -
       DEV_LWT_EXTRA * (1 + int N - int 0 - int (length (v_ring v')))" by metis
  note d = portedD [OF v] and dF = viewsD(2) [OF F(1), simplified]
  have "int (card F) = left" using F(3) v'(1) assms(5) by simp
  with w d v' dF F(2) assms(2) show ?thesis
    unfolding dev_passes_def Let_def dev_code_eq by (intro exI [of _ w] exI [of _ F]) simp
qed

text \<open>C8: the fork and join loop of \<open>test_perf\<close> runs to its end on the port, and loses memory. From the
  pages that the kernel library hands out (consecutive ones) \<open>cos_init\<close> makes the pool of 16 MB and
  the first thread, which then creates and joins 10000 threads, whatever the memory of their
  structures holds in the fields that \<open>lwt_create\<close> does not write. No assertion and no call fails, the
  assertion after the loop included; the first thread is alone with the counters of the start. But
  the pool is not as it was: of its 16777216 bytes the structure of the first thread takes 792, and
  exactly 1000000 more are gone, 100 for each thread.\<close>

theorem port_fork_join_loop_leaks:
  assumes "\<And>i. bump i = b + 4096 * int i" and "0 < b" and "unstarted s"
  shows "\<exists>s0. cos_init_lwt bump env s = Inr s0 \<and>
    dev_passes junk (\<lambda>p. dev_fork_join_loop DEV_ITER (dev_IS_RESET p)) (16777216 - 792 - 1000000)
      \<lparr>w_sys = s0, w_glob = g, w_cont = k\<rparr>"
proof -
  have N: "DEV_BLOCK * (1 + int DEV_ITER) \<le> POOL_BYTES"
    by (simp add: dev_sizes DEV_ITER_def POOL_BYTES_def NPAGES_def)
  from boot_ported [OF assms N, of env] obtain s0 v where
    b: "cos_init_lwt bump env s = Inr s0" "ported POOL_BYTES DEV_ITER DEV_ITER s0 v"
      "calm (current_thread s0) (unclaimed [current_thread s0]) v"
      "stage (current_thread s0) (unclaimed [current_thread s0])" by metis
  let ?m = "current_thread s0"
  have "twp (DEV_ITER + 0) (main_code junk) ?m (fork_join_loop DEV_ITER (IS_RESET (Done NULL))) g k v
      (\<lambda>w g. calm ?m (unclaimed [?m]) w)"
    by (rule calm_fork_join_loop calm_reset calm_done b | assumption)+
  then have t: "twp DEV_ITER (main_code junk) ?m (dev_fork_join_loop DEV_ITER (dev_IS_RESET (Done NULL))) g k v
      (\<lambda>w g. calm ?m (unclaimed [?m]) w)" by (simp only: dev_loops dev_fns add_0_right)
  have left: "16777216 - 792 - 1000000 = POOL_BYTES - DEV_BLOCK - DEV_LWT_EXTRA * int DEV_ITER"
    by (simp add: dev_sizes DEV_ITER_def POOL_BYTES_def NPAGES_def)
  have "dev_passes junk (\<lambda>p. dev_fork_join_loop DEV_ITER (dev_IS_RESET p)) (16777216 - 792 - 1000000)
      \<lparr>w_sys = s0, w_glob = g, w_cont = k\<rparr>"
    by (rule dev_passesI [where test = "\<lambda>p. dev_fork_join_loop DEV_ITER (dev_IS_RESET p)", OF b(2) refl t _ left])
  with b(1) show ?thesis by blast
qed

text \<open>Memory in which every structure holds the address 5 in \<open>joinedfrom\<close> before its first use.\<close>

definition dirty_ex :: dev_sys where
  "dirty_ex = dev_ex\<lparr>s_kheap := boot_ex\<lparr>freelist := 0\<rparr>, s_lwt := (\<lambda>_. lwt_ex\<lparr>l_joinedfrom := 5\<rparr>),
     n_runnable := 0, n_zombies := 0, n_blocked := 0\<rparr>"

theorem port_fork_join_loop_leaks_witness:
  "\<exists>s0. cos_init_lwt (\<lambda>i. 65536 + 4096 * int i) env_ex dirty_ex = Inr s0 \<and>
    dev_passes 77 (\<lambda>p. dev_fork_join_loop DEV_ITER (dev_IS_RESET p)) 15776424
      \<lparr>w_sys = s0, w_glob = \<lparr>g_sched = \<lambda>_. 0, g_curr = 0\<rparr>, w_cont = \<lambda>_. Crash\<rparr>"
  using port_fork_join_loop_leaks [of "\<lambda>i. 65536 + 4096 * int i" 65536 dirty_ex env_ex 77
      "\<lparr>g_sched = \<lambda>_. 0, g_curr = 0\<rparr>" "\<lambda>_. Crash"]
  by (simp add: unstarted_def dirty_ex_def)

text \<open>All tests of threads, in the case that the words that become fields \<open>joinedfrom\<close> are null: they
  pass, and 1001200 bytes are gone, 100 for each of the 10012 threads. On the bytes of the real
  pool three of the threads read words of earlier stacks there instead.\<close>

theorem port_thread_tests_cleared:
  assumes "\<And>i. bump i = b + 4096 * int i" and "0 < b" and "unstarted s"
    and "\<And>t. l_joinedfrom (s_lwt s t) = NULL"
    and "g_curr g = 0" and "g_sched g 0 = 0" and "g_sched g 1 = 0"
  shows "\<exists>s0. cos_init_lwt bump env s = Inr s0 \<and>
    dev_passes junk dev_thread_tests (16777216 - 792 - 1001200) \<lparr>w_sys = s0, w_glob = g, w_cont = k\<rparr>"
proof -
  let ?N = "ITER + 12"
  have N: "DEV_BLOCK * (1 + int ?N) \<le> POOL_BYTES"
    by (simp add: dev_sizes ITER_def POOL_BYTES_def NPAGES_def)
  obtain s0 v where
    b: "cos_init_lwt bump env s = Inr s0" "ported POOL_BYTES ?N ?N s0 v"
      "calm (current_thread s0) (unclaimed [current_thread s0]) v"
      "stage (current_thread s0) (unclaimed [current_thread s0])"
      "\<forall>u. t_jf (v_thd v u) = l_joinedfrom (s_lwt s u)" by (rule boot_ported [OF assms(1-3) N, of env])
  let ?m = "current_thread s0"
  have q: "quiet ?m (unclaimed [?m]) v" using b(3) by (simp add: quiet_def calm_def b(5) assms(4))
  have "twp (ITER + Suc (Suc (Suc (Suc (Suc (Suc (Suc (Suc (Suc (Suc (Suc (Suc 0)))))))))))) (main_code junk) ?m
      (test_perf (test_crt_join_sched (Done NULL))) g k v (\<lambda>w g. quiet ?m (unclaimed [?m]) w)"
    by (rule test_perf_wp test_crt_join_sched_wp [OF _ _ assms(5-7)] quiet_done q | assumption | rule b)+
  then have t: "twp ?N (main_code junk) ?m (dev_thread_tests (Done NULL)) g k v (\<lambda>w g. quiet ?m (unclaimed [?m]) w)"
    by (simp add: dev_tests_eq numeral_eq_Suc)
  have left: "16777216 - 792 - 1001200 = POOL_BYTES - DEV_BLOCK - DEV_LWT_EXTRA * int ?N"
    by (simp add: dev_sizes ITER_def POOL_BYTES_def NPAGES_def)
  have "dev_passes junk dev_thread_tests (16777216 - 792 - 1001200) \<lparr>w_sys = s0, w_glob = g, w_cont = k\<rparr>"
    by (rule dev_passesI [where test = dev_thread_tests, OF b(2) refl t quiet_calm left])
  with b(1) show ?thesis by blast
qed

definition cleared_ex :: dev_sys where
  "cleared_ex = dev_ex\<lparr>s_kheap := boot_ex\<lparr>freelist := 0\<rparr>, s_lwt := (\<lambda>_. lwt_ex), n_runnable := 0,
     n_zombies := 0, n_blocked := 0\<rparr>"

theorem port_thread_tests_cleared_witness:
  "\<exists>s0. cos_init_lwt (\<lambda>i. 65536 + 4096 * int i) env_ex cleared_ex = Inr s0 \<and>
    dev_passes 77 dev_thread_tests 15775224
      \<lparr>w_sys = s0, w_glob = \<lparr>g_sched = \<lambda>_. 0, g_curr = 0\<rparr>, w_cont = \<lambda>_. Crash\<rparr>"
  using port_thread_tests_cleared [of "\<lambda>i. 65536 + 4096 * int i" 65536 cleared_ex
      "\<lparr>g_sched = \<lambda>_. 0, g_curr = 0\<rparr>" env_ex 77 "\<lambda>_. Crash"]
  by (simp add: unstarted_def cleared_ex_def lwt_ex_def)

end
