(* ===== verification/Spec2Isabelle.thy ===== *)
theory Spec2Isabelle
  imports ChanGroup KthdFlow SlCs RbufCas MachineRuns KallocMem TestRbufDev TestStreams Queues TestKthdLwt
    TestThreadsDev
begin

text \<open>
  A verification development of the light-weight thread library.

  \<^bold>\<open>The program.\<close> The repository holds a user-level thread library for one processor, twice. The
  version in the root directory runs on Linux: a memory pool over \<open>malloc\<close> (\<open>kalloc.c\<close>), threads
  with a run queue, join and directed yield (\<open>lwt.c\<close>), a ring buffer (\<open>rbuf.c\<close>), channels and groups
  of channels (\<open>channel.c\<close>), all linked by intrusive lists (\<open>ps_list.h\<close>). The version in \<open>scheddev\<close>
  runs on the Composite kernel: the same library with a pool made of pages (\<open>kalloc.c\<close>), counters and
  ring buffers updated by compare-and-swap, threads and channels that live on several kernel threads
  (\<open>lwt.c\<close>, \<open>channel.c\<close>), and the scheduler of the kernel threads (\<open>sl.c\<close>, \<open>sl.h\<close>) with its
  fixed-priority policy (\<open>sl_mod_fprr.c\<close>) and timeouts (\<open>sl_timer_mod_periodic.c\<close>).

  \<^bold>\<open>The model.\<close> Addresses are integers with 0 for null. Each C function is a function on an explicit
  state; what a call can do besides return is a value of \<open>fault\<close>: a failed assertion, a null
  dereference, an access outside a block, a loop that never ends. Loops over linked structures are
  \<open>partial_function (option)\<close>, so that not returning is the value \<open>None\<close>; no fuel is used. A call that
  gives up the processor returns \<open>Switched\<close>; what its caller does when it has the processor again is
  a function of its own with the suffix \<open>_resume\<close>. Ring buffer indices and cycle counts are words of
  their width; the counters of \<open>lwt_info\<close> are integers.

  \<^bold>\<open>The theories.\<close>
  \<^item> \<open>Prelude\<close>: addresses, faults, the result type, shared lemmas on lists.
  \<^item> \<open>PsList\<close>: \<open>ps_list.h\<close>; the relation \<open>ring\<close> between a heap of links and the list of its
    members, the search along a ring, and the interface \<open>runring\<close> the schedulers use.
  \<^item> \<open>Kalloc\<close>: \<open>kalloc.c\<close> of the root; the free list refines a sorted, merged list of runs, and the
    pool satisfies the interface \<open>allocator\<close> on which everything else rests.
  \<^item> \<open>KallocMem\<close>: the same loops over the bytes of memory, where a header is the first eight bytes of its
    run; in step with those of \<open>Kalloc\<close> as long as no run is shorter than a header, and safe for clients
    that write what they like into their blocks.
  \<^item> \<open>Rbuf\<close>: \<open>rbuf.c\<close>; the buffer refines a bounded queue.
  \<^item> \<open>Lwt\<close>, \<open>LwtLife\<close>: \<open>lwt.c\<close>; the context switch at the level of the registers it saves and loads,
    the scheduler, and the life of a thread from \<open>lwt_create\<close> to the return of \<open>lwt_join\<close>.
  \<^item> \<open>Machine\<close>, \<open>MachineRuns\<close>: any number of threads calling \<open>lwt.c\<close> in any order, as a step
    relation with its invariant: memory safety, states of threads, progress. A new thread has any value
    in the field \<open>joinedfrom\<close>, and the relation records when a death followed such a value to a stranger.
  \<^item> \<open>LwtSpec\<close>: the abstract specification of \<open>lwt.c\<close>, a run queue that is a list, a set of free bytes
    and the threads, and the refinement of each of its operations by the code.
  \<^item> \<open>Client\<close>, \<open>TestThreads\<close>, \<open>TestRbuf\<close>, \<open>TestRbufDev\<close>: programs of threads as trees of calls, run on the modelled
    library, with weakest preconditions over \<open>LwtSpec\<close>; the tests of \<open>main.c\<close> for threads and for
    the ring buffer as such programs, the latter also on the port (locale \<open>buffers\<close>). The rules are proved in the locale \<open>client_view\<close>, for every
    relation between states and views that extends the one of \<open>LwtSpec\<close>.
  \<^item> \<open>ThreadLogic\<close>, \<open>ClientDev\<close>, \<open>TestThreadsDev\<close>: runs of programs of threads over the abstract view for
    every allocator, and the proof that \<open>lwt.c\<close> and the library of the port both do what such a run says
    (\<open>awp_lwt\<close>, \<open>awp_dev\<close>), so that a program is verified once for both; the tests of \<open>lwt_test.c\<close> for
    threads, run from \<open>cos_init\<close> of \<open>unit_schedlib.c\<close> on, with an account of every byte of the pool; the
    fork and join loop whatever the new structures hold, the others for cleared memory.
  \<^item> \<open>ChanSpec\<close>, \<open>TestChannels\<close>, \<open>TestStreams\<close>: the view of \<open>channel.c\<close>, with the channels as lists of
    what is on the way, as a second interpretation of \<open>client_view\<close>; the tests of \<open>main.c\<close> for channels
    over it: two threads that answer each other, senders that run ahead of the receiver.
  \<^item> \<open>Tailq\<close>: the tail queues of \<open>queue.h\<close>, used by the channel groups.
  \<^item> \<open>PsWalk\<close>, \<open>Queues\<close>: the loops of \<open>ps_list.h\<close>; the other families of \<open>queue.h\<close>, lists, simple queues
    and singly linked lists as projections of tail queues, circular queues as rings of \<open>PsList\<close>, with the
    interfaces \<open>listq\<close>, \<open>two_way\<close> and \<open>fifo\<close> they share.
  \<^item> \<open>Channel\<close>, \<open>ChanFlow\<close>, \<open>ChanGroup\<close>: \<open>channel.c\<close>; delivery in order and exactly once under every
    interleaving of senders and receivers, waiting, groups, release.
  \<^item> \<open>KallocDev\<close>, \<open>LwtDev\<close>, \<open>ChannelDev\<close>, \<open>KthdFlow\<close>: the pool, threads, channels and kernel threads
    of \<open>scheddev\<close>. What the port does like the original is proved equal to it; what it does
    differently is proved of it.
  \<^item> \<open>Atomic\<close>, \<open>RbufCas\<close>: the updates by compare-and-swap of the port, with every load, store and
    exchange a step that other kernel threads can come between.
  \<^item> \<open>SlFprr\<close>, \<open>SlTimer\<close>, \<open>SlThd\<close>, \<open>SlCs\<close>: the scheduler of the kernel threads; its policy, timer, states
    and critical section. \<open>SlThd\<close> takes the critical section as one step; \<open>SlCs\<close> runs its lock
    access by access and proves the mutual exclusion that justifies that.
  \<^item> \<open>SlLoop\<close>, \<open>TestKthds\<close>: the loop of the scheduler's own thread, as a refinement of the kernel's
    notifications on the queues; the tests of \<open>unit_schedlib.c\<close> for the scheduler, kernel threads that
    print, spin and yield, under every interleaving with that loop (\<open>Runs\<close>, locale \<open>interleaving\<close>).
  \<^item> \<open>KthdRuns\<close>, \<open>TestKthdLwt\<close>: the port as a whole. A kernel thread runs the loop of \<open>__kthd_entry\<close> and the
    light-weight threads of its ring, on the scheduler of kernel threads; two of them share the pool, the
    counters and \<open>current_thread\<close>. \<open>test_kthd_local_remote_yield\<close> of \<open>unit_schedlib.c\<close> on this machine, as
    another interpretation of \<open>interleaving\<close>, step by step from its start to its end.

  \<^bold>\<open>What is proved.\<close> Each component has its invariant and the behaviour of its operations on every
  branch. Across components: a thread that is created and joined runs on its own stack and hands its
  value to the joiner, with memory and counters as before (\<open>fork_join\<close>); until a death follows a
  \<open>joinedfrom\<close> that an earlier use of the memory left to a thread that does not wait for it, no program of
  threads corrupts the run queue, overlaps two stacks or gets stuck in the library, except by joining a
  blocked thread (\<open>machine_memory_safe\<close>, \<open>machine_never_stuck\<close>), and no thread that is waited for dies
  like that; the pool keeps its free list in the memory it manages, and clients cannot disturb it
  with requests of at least eight bytes that leave no shorter rest (\<open>pool_memory_safe\<close>); the library implements its
  abstract specification (\<open>lwt_implements_spec\<close>), and with it the tests of \<open>main.c\<close> end with every
  assertion true and all memory returned (\<open>thread_tests_pass\<close>, \<open>test_ringbuffer_passes\<close>, \<open>channel_tests_pass\<close>);
  the fork and join loop of the tests ends on the port too, but the pool has lost 100 bytes for each of
  its 10000 threads (\<open>port_fork_join_loop_leaks\<close>); what is sent is received, in order
  and once (\<open>channels_deliver_in_order\<close>); a message to a blocked kernel thread makes it
  ready, and the most urgent kernel thread runs (\<open>send_wakes_blocked_kthd\<close>); the kernel threads of \<open>test_yields\<close> take turns from \<open>sl_init\<close> on
  (\<open>test_yields_takes_turns\<close>); light-weight threads on two kernel threads run to their ends under every
  interleaving with the scheduler's thread, and then the last kernel thread that blocks stops the
  scheduler (\<open>local_remote_yield_runs\<close>). Where the code does not do what it means to do, the theorem says what it
  does: see \<open>lwt_join_blocked_target_livelocks\<close>, \<open>stale_joinedfrom_wakes_stranger\<close>,
  \<open>kalloc_residue_overlaps_header\<close>, \<open>rbuf_init_size_wraps\<close>, \<open>removed_channel_is_stuck\<close>,
  \<open>deref_after_messages_releases_nothing\<close>, \<open>lone_waiter_spins\<close>, and for the port
  \<open>two_writers_lose_an_element\<close>, \<open>two_readers_read_past_the_end\<close>, \<open>early_wakeup_not_lost\<close>,
  \<open>last_thread_cannot_block\<close>, \<open>stale_state_stops_scheduler\<close>, \<open>dev_fork_join_leaks\<close>, \<open>dev_nojoin_death_writes_freed_memory\<close>,
  \<open>send_before_block_is_missed\<close> and \<open>released_channel_strands_sent_thread\<close>.

  \<^bold>\<open>Parameters.\<close> The answers of \<open>malloc\<close> are a list in the state of the pool. The Composite kernel is
  \<open>cos_env\<close>: the identity of the running kernel thread, its time stamp counter, conversions of time.
  \<open>ps_cas\<close> is a function with the hypothesis \<open>atomic_cas\<close>: it exchanges the word exactly when it
  holds the expected value. Capabilities of kernel threads are distinct and not null
  (\<open>good_caps\<close>).

  \<^bold>\<open>Memory.\<close> Outside of \<open>KallocMem\<close> the memory is a map from the base address of a structure to its
  fields, and the headers of free runs are maps of their own. A structure that is allocated where other
  data was finds in the fields its constructor does not write what the last structure at that base
  left, not the bytes in between. One such field is read before it is written, \<open>joinedfrom\<close> of \<open>struct
  lwt\<close>: it has any value in \<open>Machine\<close> and in \<open>port_fork_join_loop_leaks\<close>, and is cleared by hypothesis in
  \<open>local_remote_yield_runs\<close>. Stacks are addresses; that a thread stays inside its stack is assumed.

  \<^bold>\<open>Not modelled.\<close> \<open>lwt_test_entry\<close> before the tests of kernel threads in \<open>cos_init\<close>. The test of channel groups in \<open>main.c\<close>, the tests of \<open>scheddev\<close> that use channels
  (the rest of \<open>lwt_test.c\<close> and lines 193 to 393 of \<open>unit_schedlib.c\<close>) and the benchmarks against
  other libraries; printing and reading the time stamp counter in the tests that are modelled; the checks
  of \<open>queue.h\<close> for kernel builds; the functions with an empty body
  and the glue headers of the scheduler; the general registers that \<open>pushal\<close> saves, beyond the stack
  and instruction pointer; preemption of a kernel thread inside \<open>lwt.c\<close> and \<open>channel.c\<close> other than in
  the updates named above (in \<open>KthdRuns\<close> the scheduler's thread is activated between two calls of the
  library, not inside one).
\<close>

end
